(* ===== verification/Prelude.thy ===== *)
theory Prelude
  imports Main "HOL-Library.Word"
begin

text \<open>
  Shared vocabulary of the development: machine integers at their Rust width, bytes, the result type
  of fallible code, Rust's slice operations with their out-of-range answers, saturating signed
  arithmetic, and the generic list and sum lemmas that the component theories use.
\<close>

named_theorems result_simps "unfolding rules of the error monad"
named_theorems sat_simps "saturating arithmetic"

section \<open>Machine types\<close>

type_synonym u8 = "8 word"
type_synonym u16 = "16 word"
type_synonym u32 = "32 word"
type_synonym u64 = "64 word"
type_synonym bytes = "u8 list"

text \<open>Rust's signed integers are HOL integers with an explicit range; \<open>usize\<close> is \<open>nat\<close>, since no
  slice or vector is longer than \<open>isize::MAX\<close> and the code only adds lengths of such slices.\<close>

definition i32_ok :: "int \<Rightarrow> bool" where
  "i32_ok v \<longleftrightarrow> - (2 ^ 31) \<le> v \<and> v < 2 ^ 31"

definition i64_ok :: "int \<Rightarrow> bool" where
  "i64_ok v \<longleftrightarrow> - (2 ^ 63) \<le> v \<and> v < 2 ^ 63"

definition i64_max :: int where
  "i64_max = 2 ^ 63 - 1"

definition i64_min :: int where
  "i64_min = - (2 ^ 63)"

text \<open>\<open>i64::saturating_add\<close> and \<open>i64::saturating_sub\<close>.\<close>

definition i64_clamp :: "int \<Rightarrow> int" where
  "i64_clamp v = max i64_min (min i64_max v)"

definition sat_add :: "int \<Rightarrow> int \<Rightarrow> int" where
  "sat_add a b = i64_clamp (a + b)"

definition sat_sub :: "int \<Rightarrow> int \<Rightarrow> int" where
  "sat_sub a b = i64_clamp (a - b)"

lemma i64_ok_bounds: "i64_ok v \<longleftrightarrow> i64_min \<le> v \<and> v \<le> i64_max"
  by (auto simp: i64_ok_def i64_min_def i64_max_def)

lemma i64_ok_clamp [simp]: "i64_ok (i64_clamp v)"
  by (auto simp: i64_ok_def i64_clamp_def i64_min_def i64_max_def)

lemma i64_ok_sat [simp]: "i64_ok (sat_add a b)" "i64_ok (sat_sub a b)"
  by (simp_all add: sat_add_def sat_sub_def)

lemma i64_clamp_id [simp, sat_simps]: "i64_ok v \<Longrightarrow> i64_clamp v = v"
  by (auto simp: i64_ok_bounds i64_clamp_def)

lemma sat_add_exact [sat_simps]: "i64_ok (a + b) \<Longrightarrow> sat_add a b = a + b"
  by (simp add: sat_add_def)

lemma sat_sub_exact [sat_simps]: "i64_ok (a - b) \<Longrightarrow> sat_sub a b = a - b"
  by (simp add: sat_sub_def)

section \<open>Fallible computations\<close>

text \<open>\<open>Result<T, E>\<close> is a sum whose left summand is the error; \<open>bind_res\<close> is the question-mark
  operator.\<close>

definition bind_res :: "('e + 'a) \<Rightarrow> ('a \<Rightarrow> 'e + 'b) \<Rightarrow> 'e + 'b" where
  "bind_res m f = (case m of Inl e \<Rightarrow> Inl e | Inr x \<Rightarrow> f x)"

definition map_res :: "('a \<Rightarrow> 'b) \<Rightarrow> ('e + 'a) \<Rightarrow> 'e + 'b" where
  "map_res f m = (case m of Inl e \<Rightarrow> Inl e | Inr x \<Rightarrow> Inr (f x))"

lemma bind_res_simps [simp, result_simps]:
  "bind_res (Inl e) f = Inl e" "bind_res (Inr x) f = f x"
  by (simp_all add: bind_res_def)

lemma map_res_simps [simp, result_simps]:
  "map_res f (Inl e) = Inl e" "map_res f (Inr x) = Inr (f x)"
  by (simp_all add: map_res_def)

lemma bind_res_Inr: "bind_res m f = Inr y \<longleftrightarrow> (\<exists>x. m = Inr x \<and> f x = Inr y)"
  by (cases m) simp_all

lemma map_res_Inr: "map_res f m = Inr y \<longleftrightarrow> (\<exists>x. m = Inr x \<and> f x = y)"
  by (cases m) auto

section \<open>Slices\<close>

text \<open>\<open>slice.get(a..b)\<close>: the sub-slice, or nothing when the range does not lie inside.\<close>

definition slice_get :: "'a list \<Rightarrow> nat \<Rightarrow> nat \<Rightarrow> 'a list option" where
  "slice_get xs a b = (if a \<le> b \<and> b \<le> length xs then Some (take (b - a) (drop a xs)) else None)"

text \<open>\<open>slot.copy_from_slice(ys)\<close> for the slot that starts at \<open>a\<close>.\<close>

definition overwrite :: "'a list \<Rightarrow> nat \<Rightarrow> 'a list \<Rightarrow> 'a list" where
  "overwrite xs a ys = take a xs @ ys @ drop (a + length ys) xs"

lemma length_overwrite [simp]: "a + length ys \<le> length xs \<Longrightarrow> length (overwrite xs a ys) = length xs"
  by (simp add: overwrite_def)

lemma overwrite_Nil [simp]: "overwrite xs a [] = xs"
  by (simp add: overwrite_def)

lemma overwrite_overwrite:
  assumes "a + length ys + length zs \<le> length xs"
  shows "overwrite (overwrite xs a ys) (a + length ys) zs = overwrite xs a (ys @ zs)"
  using assms by (simp add: overwrite_def ac_simps)

lemma take_overwrite_end:
  assumes "a + length ys \<le> length xs"
  shows "take (a + length ys) (overwrite xs a ys) = take a xs @ ys"
  using assms by (simp add: overwrite_def)

lemma slice_get_mid [simp]:
  "slice_get (pre @ bs @ post) (length pre) (length pre + length bs) = Some bs"
  by (simp add: slice_get_def)

lemma slice_get_Some:
  "slice_get xs a b = Some ys \<longleftrightarrow> a \<le> b \<and> b \<le> length xs \<and> ys = take (b - a) (drop a xs)"
  by (auto simp: slice_get_def)

section \<open>Decimal display\<close>

fun show_nat :: "nat \<Rightarrow> string" where
  "show_nat n = (if n < 10 then [char_of (48 + n)] else show_nat (n div 10) @ [char_of (48 + n mod 10)])"

declare show_nat.simps [simp del]

end
