(* ===== verification/Utf8.thy ===== *)
theory Utf8
  imports Prelude
begin

text \<open>
  Rust strings. A \<open>String\<close> is the list of its Unicode scalar values, \<open>as_bytes\<close> is its UTF-8
  encoding, and \<open>from_utf8\<close> is the strict decoder of the standard library
  (\<open>core::str::from_utf8\<close>): no overlong form, no surrogate, nothing above U+10FFFF. The two are
  proved inverse to each other in both directions, which is what lets the wire format carry text.
\<close>

type_synonym rchar = nat
type_synonym rstring = "rchar list"

definition is_scalar :: "rchar \<Rightarrow> bool" where
  "is_scalar c \<longleftrightarrow> c < 0xD800 \<or> (0xE000 \<le> c \<and> c < 0x110000)"

definition wf_str :: "rstring \<Rightarrow> bool" where
  "wf_str s \<longleftrightarrow> list_all is_scalar s"

definition byte :: "nat \<Rightarrow> u8" where
  "byte n = word_of_nat n"

lemma unat_byte [simp]: "n < 256 \<Longrightarrow> unat (byte n) = n"
  by (simp add: byte_def unat_of_nat take_bit_eq_mod)

lemma byte_unat [simp]: "byte (unat b) = b"
  by (simp add: byte_def)

lemma unat_u8_less [simp]: "unat (b::u8) < 256"
  using unsigned_less [of b] by simp

text \<open>\<open>char::encode_utf8\<close> and \<open>char::len_utf8\<close>.\<close>

definition encode_utf8 :: "rchar \<Rightarrow> bytes" where
  "encode_utf8 c =
    (if c < 0x80 then [byte c]
     else if c < 0x800 then [byte (0xC0 + c div 64), byte (0x80 + c mod 64)]
     else if c < 0x10000 then
       [byte (0xE0 + c div 4096), byte (0x80 + c div 64 mod 64), byte (0x80 + c mod 64)]
     else [byte (0xF0 + c div 262144), byte (0x80 + c div 4096 mod 64),
           byte (0x80 + c div 64 mod 64), byte (0x80 + c mod 64)])"

definition len_utf8 :: "rchar \<Rightarrow> nat" where
  "len_utf8 c = (if c < 0x80 then 1 else if c < 0x800 then 2 else if c < 0x10000 then 3 else 4)"

text \<open>\<open>str::as_bytes\<close> and \<open>str::len\<close>.\<close>

definition as_bytes :: "rstring \<Rightarrow> bytes" where
  "as_bytes s = concat (map encode_utf8 s)"

definition str_len :: "rstring \<Rightarrow> nat" where
  "str_len s = sum_list (map len_utf8 s)"

definition is_cont :: "u8 \<Rightarrow> bool" where
  "is_cont b \<longleftrightarrow> 0x80 \<le> unat b \<and> unat b < 0xC0"

text \<open>The second byte of a three- or four-byte form excludes overlong forms, surrogates and values
  past the last code point.\<close>

definition second_ok :: "nat \<Rightarrow> u8 \<Rightarrow> bool" where
  "second_ok lead b \<longleftrightarrow> is_cont b \<and>
     (lead = 0xE0 \<longrightarrow> 0xA0 \<le> unat b) \<and> (lead = 0xED \<longrightarrow> unat b < 0xA0) \<and>
     (lead = 0xF0 \<longrightarrow> 0x90 \<le> unat b) \<and> (lead = 0xF4 \<longrightarrow> unat b < 0x90)"

fun from_utf8 :: "bytes \<Rightarrow> rstring option" where
  "from_utf8 [] = Some []"
| "from_utf8 (b0 # rest) =
    (let n = unat b0 in
     if n < 0x80 then map_option (Cons n) (from_utf8 rest)
     else if n < 0xC2 then None
     else if n < 0xE0 then
       (case rest of
          b1 # r \<Rightarrow> if is_cont b1
                    then map_option (Cons ((n - 0xC0) * 64 + (unat b1 - 0x80))) (from_utf8 r)
                    else None
        | _ \<Rightarrow> None)
     else if n < 0xF0 then
       (case rest of
          b1 # b2 # r \<Rightarrow> if second_ok n b1 \<and> is_cont b2
                    then map_option (Cons ((n - 0xE0) * 4096 + (unat b1 - 0x80) * 64 + (unat b2 - 0x80)))
                           (from_utf8 r)
                    else None
        | _ \<Rightarrow> None)
     else if n < 0xF5 then
       (case rest of
          b1 # b2 # b3 # r \<Rightarrow> if second_ok n b1 \<and> is_cont b2 \<and> is_cont b3
                    then map_option (Cons ((n - 0xF0) * 262144 + (unat b1 - 0x80) * 4096
                           + (unat b2 - 0x80) * 64 + (unat b3 - 0x80))) (from_utf8 r)
                    else None
        | _ \<Rightarrow> None)
     else None)"

lemma length_encode_utf8 [simp]: "length (encode_utf8 c) = len_utf8 c"
  by (simp add: encode_utf8_def len_utf8_def)

lemma len_utf8_pos: "0 < len_utf8 c"
  by (simp add: len_utf8_def)

lemma as_bytes_simps [simp]:
  "as_bytes [] = []" "as_bytes (c # s) = encode_utf8 c @ as_bytes s"
  "as_bytes (s @ t) = as_bytes s @ as_bytes t"
  by (simp_all add: as_bytes_def)

lemma str_len_simps [simp]:
  "str_len [] = 0" "str_len (c # s) = len_utf8 c + str_len s" "str_len (s @ t) = str_len s + str_len t"
  by (simp_all add: str_len_def)

lemma length_as_bytes [simp]: "length (as_bytes s) = str_len s"
  by (induction s) simp_all

lemma wf_str_simps [simp]:
  "wf_str []" "wf_str (c # s) \<longleftrightarrow> is_scalar c \<and> wf_str s"
  "wf_str (s @ t) \<longleftrightarrow> wf_str s \<and> wf_str t"
  by (simp_all add: wf_str_def)

section \<open>The two directions of the round trip\<close>

lemma div64: "(c::nat) = c div 64 * 64 + c mod 64"
  by simp

lemma div_div: "(c::nat) div 64 div 64 = c div 4096" "(c::nat) div 4096 div 64 = c div 262144"
  by (simp_all add: div_mult2_eq [symmetric])

lemma from_utf8_2:
  assumes "0x80 \<le> c" "c < 0x800"
  shows "from_utf8 (encode_utf8 c @ r) = map_option (Cons c) (from_utf8 r)"
proof -
  define a d where "a = c div 64" and "d = c mod 64"
  have "a < 32" "2 \<le> a" "d < 64" "a * 64 + d = c" using assms by (auto simp: a_def d_def)
  then show ?thesis using assms
    by (simp add: encode_utf8_def is_cont_def Let_def flip: a_def d_def)
qed

lemma from_utf8_3:
  assumes "0x800 \<le> c" "c < 0x10000" "is_scalar c"
  shows "from_utf8 (encode_utf8 c @ r) = map_option (Cons c) (from_utf8 r)"
proof -
  define a b d where "a = c div 4096" and "b = c div 64 mod 64" and "d = c mod 64"
  have sum: "a * 4096 + b * 64 + d = c" using div64 [of c] div64 [of "c div 64"]
    unfolding a_def b_def d_def div_div by linarith
  have bounds: "a < 16" "b < 64" "d < 64" using assms by (auto simp: a_def b_def d_def)
  have "a = 0 \<Longrightarrow> 32 \<le> b" using sum bounds assms by simp
  moreover have "a = 13 \<Longrightarrow> b < 32" using sum bounds assms(3) by (auto simp: is_scalar_def)
  ultimately show ?thesis using assms sum bounds
    by (simp add: encode_utf8_def is_cont_def second_ok_def Let_def
        flip: a_def b_def d_def)
qed

lemma from_utf8_4:
  assumes "0x10000 \<le> c" "c < 0x110000"
  shows "from_utf8 (encode_utf8 c @ r) = map_option (Cons c) (from_utf8 r)"
proof -
  define a b d e where "a = c div 262144" and "b = c div 4096 mod 64" and "d = c div 64 mod 64"
    and "e = c mod 64"
  have sum: "a * 262144 + b * 4096 + d * 64 + e = c" using div64 [of c] div64 [of "c div 64"] div64 [of "c div 4096"]
    unfolding a_def b_def d_def e_def div_div by linarith
  have bounds: "a < 5" "b < 64" "d < 64" "e < 64"
    using assms by (auto simp: a_def b_def d_def e_def)
  have "a = 0 \<Longrightarrow> 16 \<le> b" using sum bounds assms by simp
  moreover have "a = 4 \<Longrightarrow> b < 16" using sum bounds assms by simp
  ultimately show ?thesis using assms sum bounds
    by (simp add: encode_utf8_def is_cont_def second_ok_def Let_def
        flip: a_def b_def d_def e_def)
qed

lemma from_utf8_char:
  assumes "is_scalar c"
  shows "from_utf8 (encode_utf8 c @ r) = map_option (Cons c) (from_utf8 r)"
proof -
  consider "c < 0x80" | "0x80 \<le> c" "c < 0x800" | "0x800 \<le> c" "c < 0x10000"
    | "0x10000 \<le> c" "c < 0x110000"
    using assms by (fastforce simp: is_scalar_def)
  then show ?thesis
  proof cases
    case 1
    then show ?thesis by (simp add: encode_utf8_def Let_def)
  qed (use assms from_utf8_2 from_utf8_3 from_utf8_4 in auto)
qed

declare from_utf8.simps(2) [simp del]

lemma from_utf8_append:
  "wf_str s \<Longrightarrow> from_utf8 (as_bytes s @ r) = map_option ((@) s) (from_utf8 r)"
  by (induction s)
    (auto simp: from_utf8_char option.map_comp comp_def option.map_ident append_Nil [abs_def]
      intro!: option.map_cong0)

lemma from_utf8_as_bytes [simp]: "wf_str s \<Longrightarrow> from_utf8 (as_bytes s) = Some s"
  using from_utf8_append [of s "[]"] by simp

lemma encode_utf8_1: "unat b < 0x80 \<Longrightarrow> is_scalar (unat b) \<and> encode_utf8 (unat b) = [b]"
  by (simp add: is_scalar_def encode_utf8_def)

lemma mod64: "d < 64 \<Longrightarrow> (d + x * 64) mod 64 = d \<and> (d + x * 64) div 64 = (x::nat)"
  by simp

lemma encode_utf8_2:
  assumes "0xC2 \<le> unat b0" "unat b0 < 0xE0" "is_cont b1"
    and "c = (unat b0 - 0xC0) * 64 + (unat b1 - 0x80)"
  shows "is_scalar c \<and> encode_utf8 c = [b0, b1]"
proof -
  define a d where "a = unat b0 - 0xC0" and "d = unat b1 - 0x80"
  have b: "unat b0 = a + 0xC0" "unat b1 = d + 0x80" "2 \<le> a" "a < 32" "d < 64"
    using assms by (auto simp: a_def d_def is_cont_def)
  have "c = d + a * 64" using assms(4) by (simp add: a_def d_def)
  with b have "c div 64 = a" "c mod 64 = d" "0x80 \<le> c" "c < 0x800" by simp_all
  with b show ?thesis
    by (simp add: encode_utf8_def is_scalar_def add.commute flip: b(1,2))
qed

lemma encode_utf8_3:
  assumes "0xE0 \<le> unat b0" "unat b0 < 0xF0" "second_ok (unat b0) b1" "is_cont b2"
    and "c = (unat b0 - 0xE0) * 4096 + (unat b1 - 0x80) * 64 + (unat b2 - 0x80)"
  shows "is_scalar c \<and> encode_utf8 c = [b0, b1, b2]"
proof -
  define a d e where "a = unat b0 - 0xE0" and "d = unat b1 - 0x80" and "e = unat b2 - 0x80"
  have b: "unat b0 = a + 0xE0" "unat b1 = d + 0x80" "unat b2 = e + 0x80"
      "a < 16" "d < 64" "e < 64" "a = 0 \<Longrightarrow> 32 \<le> d" "a = 13 \<Longrightarrow> d < 32"
    using assms by (auto simp: a_def d_def e_def is_cont_def second_ok_def)
  have c: "c = e + (d + a * 64) * 64" using assms(5) by (simp add: a_def d_def e_def)
  have dm: "c mod 64 = e" "c div 64 = d + a * 64" using mod64 [OF b(6), of "d + a * 64"] c by metis+
  have dm2: "c div 64 mod 64 = d" "c div 4096 = a"
    using mod64 [OF b(5)] unfolding div_div(1) [symmetric] dm(2) by auto
  have "0x800 \<le> c" "c < 0x10000" using b(4-7) c by (cases "a = 0"; simp)+
  moreover have "is_scalar c" using b(4-6,8) c by (cases "a < 13"; cases "a = 13"; simp add: is_scalar_def)
  ultimately show ?thesis using dm(1) dm2 b(1-3)
    by (simp add: encode_utf8_def add.commute flip: b(1-3))
qed

lemma encode_utf8_4:
  assumes "0xF0 \<le> unat b0" "unat b0 < 0xF5" "second_ok (unat b0) b1" "is_cont b2" "is_cont b3"
    and "c = (unat b0 - 0xF0) * 262144 + (unat b1 - 0x80) * 4096 + (unat b2 - 0x80) * 64
           + (unat b3 - 0x80)"
  shows "is_scalar c \<and> encode_utf8 c = [b0, b1, b2, b3]"
proof -
  define a d e f where "a = unat b0 - 0xF0" and "d = unat b1 - 0x80" and "e = unat b2 - 0x80"
    and "f = unat b3 - 0x80"
  have b: "unat b0 = a + 0xF0" "unat b1 = d + 0x80" "unat b2 = e + 0x80" "unat b3 = f + 0x80"
      "a < 5" "d < 64" "e < 64" "f < 64" "a = 0 \<Longrightarrow> 16 \<le> d" "a = 4 \<Longrightarrow> d < 16"
    using assms by (auto simp: a_def d_def e_def f_def is_cont_def second_ok_def)
  have c: "c = f + (e + (d + a * 64) * 64) * 64"
    using assms(6) by (simp add: a_def d_def e_def f_def)
  have dm: "c mod 64 = f" "c div 64 = e + (d + a * 64) * 64" using mod64 [OF b(8), of "e + (d + a * 64) * 64"] c by metis+
  have dm2: "c div 64 mod 64 = e" "c div 4096 = d + a * 64"
    using mod64 [OF b(7), of "d + a * 64"] dm(2) div_div(1) [of c] by metis+
  have dm3: "c div 4096 mod 64 = d" "c div 262144 = a"
    using mod64 [OF b(6)] unfolding div_div(2) [symmetric] dm2(2) by auto
  have "0x10000 \<le> c" "c < 0x110000" using b(5-10) c by (cases "a = 0"; cases "a = 4"; simp)+
  then show ?thesis using dm(1) dm2(1) dm3 b(1-4)
    by (simp add: encode_utf8_def is_scalar_def add.commute flip: b(1-4))
qed

text \<open>One decoding step: an accepted input starts with the encoding of a scalar value.\<close>

lemma from_utf8_step:
  assumes "from_utf8 (b0 # rest) = Some s"
  obtains c r t where "b0 # rest = encode_utf8 c @ r" "is_scalar c" "from_utf8 r = Some t" "s = c # t"
proof -
  note step = assms [unfolded from_utf8.simps(2) Let_def]
  consider "unat b0 < 0x80" | "0x80 \<le> unat b0" "unat b0 < 0xC2" | "0xC2 \<le> unat b0" "unat b0 < 0xE0"
    | "0xE0 \<le> unat b0" "unat b0 < 0xF0" | "0xF0 \<le> unat b0" "unat b0 < 0xF5" | "0xF5 \<le> unat b0"
    by linarith
  then show thesis
  proof cases
    case 1
    then show ?thesis using step encode_utf8_1 [OF 1] that [of "unat b0" rest] by auto
  next
    case 3
    then obtain b1 r where "rest = b1 # r" "is_cont b1"
      using step by (auto split: list.splits if_splits)
    then show ?thesis using step 3 encode_utf8_2 [OF 3 _ refl] that [of _ r] by force
  next
    case 4
    then obtain b1 b2 r where "rest = b1 # b2 # r" "second_ok (unat b0) b1" "is_cont b2"
      using step by (auto split: list.splits if_splits)
    then show ?thesis using step 4 encode_utf8_3 [OF 4 _ _ refl] that [of _ r] by force
  next
    case 5
    then obtain b1 b2 b3 r
      where "rest = b1 # b2 # b3 # r" "second_ok (unat b0) b1" "is_cont b2" "is_cont b3"
      using step by (auto split: list.splits if_splits)
    then show ?thesis using step 5 encode_utf8_4 [OF 5 _ _ _ refl] that [of _ r] by force
  qed (use step in auto)
qed

lemma from_utf8_Some:
  "from_utf8 bs = Some s \<Longrightarrow> wf_str s \<and> as_bytes s = bs"
proof (induction "length bs" arbitrary: bs s rule: less_induct)
  case less
  show ?case
  proof (cases bs)
    case (Cons b0 rest)
    from less.prems [unfolded Cons] obtain c r t
      where "b0 # rest = encode_utf8 c @ r" "is_scalar c" "from_utf8 r = Some t" "s = c # t"
      by (rule from_utf8_step)
    moreover have "length r < length bs"
      using arg_cong [OF calculation(1), of length] len_utf8_pos [of c] Cons by simp
    ultimately show ?thesis using less.hyps [of r t] Cons by simp
  qed (use less.prems in simp)
qed

end
