(* ===== verification/Wire_Bytes.thy ===== *)
theory Wire_Bytes
  imports Utf8
begin

text \<open>
  The byte layer of the terminal wire, \<open>slopdesk-wire/src/bytes.rs\<close> and \<open>error.rs\<close>: the fault type,
  the big-endian writer over an owned or a lent buffer, the bounds-checked reader, and the clamp
  that keeps a length-prefixed string inside its sixteen-bit length field. The locale
  \<open>field_codec\<close> is the contract the message tables rely on; every field type of the wire is an
  interpretation of it.
\<close>

unbundle bit_operations_syntax

named_theorems reads_intros "composition rules of the round-trip relation"
named_theorems writer_simps "writers as appended byte strings"

section \<open>Faults\<close>

datatype wire_error =
    FrameTooLarge nat
  | Truncated
  | UnknownMessageType u8
  | MalformedBody string

definition malformed :: "string \<Rightarrow> wire_error" where
  "malformed hint = MalformedBody hint"

section \<open>Integers and strings as bytes\<close>

definition truncating_u16 :: "nat \<Rightarrow> u16" where
  "truncating_u16 value = word_of_nat (value AND 0xFFFF)"

fun be_bytes :: "nat \<Rightarrow> 'a::len word \<Rightarrow> bytes" where
  "be_bytes 0 v = []"
| "be_bytes (Suc n) v = ucast (drop_bit (8 * n) v) # be_bytes n v"

definition max_length_prefixed_bytes :: nat where
  "max_length_prefixed_bytes = 65535"

text \<open>\<open>str::get(..end)\<close>: the prefix of that many bytes, or nothing inside a character.\<close>

fun str_get_to :: "rstring \<Rightarrow> nat \<Rightarrow> rstring option" where
  "str_get_to [] e = (if e = 0 then Some [] else None)"
| "str_get_to (c # s) e =
    (if e = 0 then Some []
     else if len_utf8 c \<le> e then map_option (Cons c) (str_get_to s (e - len_utf8 c)) else None)"

text \<open>The loop of \<open>clamp_utf8\<close> over \<open>char_indices\<close>, with its running index and end.\<close>

fun clamp_end :: "nat \<Rightarrow> nat \<Rightarrow> nat \<Rightarrow> rstring \<Rightarrow> nat" where
  "clamp_end max_bytes index e [] = e"
| "clamp_end max_bytes index e (ch # rest) =
    (let next = index + len_utf8 ch in
     if max_bytes < next then e else clamp_end max_bytes next next rest)"

definition clamp_utf8 :: "rstring \<Rightarrow> nat \<Rightarrow> rstring" where
  "clamp_utf8 value max_bytes =
    (if str_len value \<le> max_bytes then value
     else case str_get_to value (clamp_end max_bytes 0 0 value) of
            Some s \<Rightarrow> s | None \<Rightarrow> value)"

definition clamp_u16_field :: "rstring \<Rightarrow> rstring" where
  "clamp_u16_field value = clamp_utf8 value max_length_prefixed_bytes"

section \<open>The writer\<close>

datatype sink = Owned bytes | Borrowed bytes nat

record byte_writer =
  bw_sink :: sink

definition writer_new :: byte_writer where
  "writer_new = \<lparr>bw_sink = Owned []\<rparr>"

text \<open>The capacity only sizes an allocation.\<close>

definition writer_with_capacity :: "nat \<Rightarrow> byte_writer" where
  "writer_with_capacity capacity = \<lparr>bw_sink = Owned []\<rparr>"

definition writer_borrowing :: "bytes \<Rightarrow> byte_writer" where
  "writer_borrowing buf = \<lparr>bw_sink = Borrowed buf 0\<rparr>"

definition put_slice :: "bytes \<Rightarrow> byte_writer \<Rightarrow> byte_writer" where
  "put_slice bs w =
    (case bw_sink w of
       Owned buf \<Rightarrow> w\<lparr>bw_sink := Owned (buf @ bs)\<rparr>
     | Borrowed buf len \<Rightarrow>
         (let e = len + length bs;
              buf' = (if e \<le> length buf then overwrite buf len bs else buf)
          in w\<lparr>bw_sink := Borrowed buf' e\<rparr>))"

definition put_u8 :: "u8 \<Rightarrow> byte_writer \<Rightarrow> byte_writer" where
  "put_u8 value w = put_slice [value] w"

definition put_bool :: "bool \<Rightarrow> byte_writer \<Rightarrow> byte_writer" where
  "put_bool value w = put_slice [if value then 1 else 0] w"

definition put_u16 :: "u16 \<Rightarrow> byte_writer \<Rightarrow> byte_writer" where
  "put_u16 value w = put_slice (be_bytes 2 value) w"

definition put_u32 :: "u32 \<Rightarrow> byte_writer \<Rightarrow> byte_writer" where
  "put_u32 value w = put_slice (be_bytes 4 value) w"

definition put_u64 :: "u64 \<Rightarrow> byte_writer \<Rightarrow> byte_writer" where
  "put_u64 value w = put_slice (be_bytes 8 value) w"

definition put_i32 :: "int \<Rightarrow> byte_writer \<Rightarrow> byte_writer" where
  "put_i32 value w = put_u32 (word_of_int value) w"

definition put_i64 :: "int \<Rightarrow> byte_writer \<Rightarrow> byte_writer" where
  "put_i64 value w = put_u64 (word_of_int value) w"

definition put_bytes :: "bytes \<Rightarrow> byte_writer \<Rightarrow> byte_writer" where
  "put_bytes bs w = put_slice bs w"

text \<open>\<open>u16::try_from(len).unwrap_or(u16::MAX)\<close>, and the same at 32 bits.\<close>

definition u16_try_or_max :: "nat \<Rightarrow> u16" where
  "u16_try_or_max n = (if n < 2 ^ 16 then word_of_nat n else 0xFFFF)"

definition u32_try_or_max :: "nat \<Rightarrow> u32" where
  "u32_try_or_max n = (if n < 2 ^ 32 then word_of_nat n else 0xFFFFFFFF)"

definition put_length_prefixed_str :: "rstring \<Rightarrow> byte_writer \<Rightarrow> byte_writer" where
  "put_length_prefixed_str value w =
    (let bs = as_bytes (clamp_u16_field value)
     in put_bytes bs (put_u16 (u16_try_or_max (length bs)) w))"

definition writer_len :: "byte_writer \<Rightarrow> nat" where
  "writer_len w = (case bw_sink w of Owned buf \<Rightarrow> length buf | Borrowed buf len \<Rightarrow> len)"

definition writer_is_empty :: "byte_writer \<Rightarrow> bool" where
  "writer_is_empty w \<longleftrightarrow> writer_len w = 0"

definition as_slice :: "byte_writer \<Rightarrow> bytes" where
  "as_slice w =
    (case bw_sink w of
       Owned buf \<Rightarrow> buf
     | Borrowed buf len \<Rightarrow> (case slice_get buf 0 len of Some s \<Rightarrow> s | None \<Rightarrow> buf))"

definition patch_u32 :: "nat \<Rightarrow> u32 \<Rightarrow> byte_writer \<Rightarrow> byte_writer" where
  "patch_u32 off value w =
    (case bw_sink w of
       Owned buf \<Rightarrow>
         (if off + 4 \<le> length buf then w\<lparr>bw_sink := Owned (overwrite buf off (be_bytes 4 value))\<rparr> else w)
     | Borrowed buf len \<Rightarrow>
         (if off + 4 \<le> length buf
          then w\<lparr>bw_sink := Borrowed (overwrite buf off (be_bytes 4 value)) len\<rparr> else w))"

definition into_vec :: "byte_writer \<Rightarrow> bytes" where
  "into_vec w =
    (case bw_sink w of
       Owned buf \<Rightarrow> buf
     | Borrowed buf len \<Rightarrow> (case slice_get buf 0 len of Some s \<Rightarrow> s | None \<Rightarrow> buf))"

section \<open>The reader\<close>

record byte_reader =
  rd_data :: bytes
  rd_offset :: nat

type_synonym 'a reader = "byte_reader \<Rightarrow> wire_error + 'a \<times> byte_reader"

definition rreturn :: "'a \<Rightarrow> 'a reader" where
  "rreturn x r = Inr (x, r)"

definition rbind :: "'a reader \<Rightarrow> ('a \<Rightarrow> 'b reader) \<Rightarrow> 'b reader" where
  "rbind m f r = (case m r of Inl e \<Rightarrow> Inl e | Inr (x, r') \<Rightarrow> f x r')"

definition rmap :: "('a \<Rightarrow> 'b) \<Rightarrow> 'a reader \<Rightarrow> 'b reader" where
  "rmap f m = rbind m (\<lambda>x. rreturn (f x))"

definition reader_new :: "bytes \<Rightarrow> byte_reader" where
  "reader_new d = \<lparr>rd_data = d, rd_offset = 0\<rparr>"

definition position :: "byte_reader \<Rightarrow> nat" where
  "position r = rd_offset r"

definition bytes_remaining :: "byte_reader \<Rightarrow> nat" where
  "bytes_remaining r = length (rd_data r) - rd_offset r"

definition next_byte :: "u8 reader" where
  "next_byte r =
    (if rd_offset r < length (rd_data r)
     then Inr (rd_data r ! rd_offset r, r\<lparr>rd_offset := rd_offset r + 1\<rparr>)
     else Inl Truncated)"

definition read_u8 :: "u8 reader" where
  "read_u8 = next_byte"

definition read_bool :: "bool reader" where
  "read_bool = rmap (\<lambda>b. b \<noteq> 0) next_byte"

fun read_be :: "nat \<Rightarrow> 'a::len word \<Rightarrow> 'a word reader" where
  "read_be 0 value = rreturn value"
| "read_be (Suc n) value = rbind next_byte (\<lambda>b. read_be n (push_bit 8 value OR ucast b))"

definition read_u16 :: "u16 reader" where
  "read_u16 = rbind next_byte (\<lambda>b0. rbind next_byte (\<lambda>b1. rreturn (push_bit 8 (ucast b0) OR ucast b1)))"

definition read_u32 :: "u32 reader" where
  "read_u32 = read_be 4 0"

definition read_u64 :: "u64 reader" where
  "read_u64 = read_be 8 0"

definition read_i32 :: "int reader" where
  "read_i32 = rmap sint read_u32"

definition read_i64 :: "int reader" where
  "read_i64 = rmap sint read_u64"

definition read_bytes :: "nat \<Rightarrow> bytes reader" where
  "read_bytes count r =
    (case slice_get (rd_data r) (rd_offset r) (rd_offset r + count) of
       None \<Rightarrow> Inl Truncated
     | Some s \<Rightarrow> Inr (s, r\<lparr>rd_offset := rd_offset r + count\<rparr>))"

definition remaining :: "byte_reader \<Rightarrow> bytes \<times> byte_reader" where
  "remaining r =
    ((case slice_get (rd_data r) (rd_offset r) (length (rd_data r)) of Some s \<Rightarrow> s | None \<Rightarrow> []),
     r\<lparr>rd_offset := length (rd_data r)\<rparr>)"

definition utf8 :: "bytes \<Rightarrow> string \<Rightarrow> wire_error + rstring" where
  "utf8 bs field =
    (case from_utf8 bs of
       Some s \<Rightarrow> Inr s
     | None \<Rightarrow> Inl (malformed (field @ '': invalid UTF-8'')))"

definition read_length_prefixed_str :: "string \<Rightarrow> rstring reader" where
  "read_length_prefixed_str field =
    rbind read_u16 (\<lambda>len. rbind (read_bytes (unat len)) (\<lambda>bs r.
      map_res (\<lambda>s. (s, r)) (utf8 bs field)))"

definition remaining_str :: "string \<Rightarrow> rstring reader" where
  "remaining_str field r =
    (case remaining r of (bs, r') \<Rightarrow> map_res (\<lambda>s. (s, r')) (utf8 bs field))"

section \<open>Laws of the writer\<close>

text \<open>A lent buffer has room for \<open>n\<close> more bytes; an owned one always has.\<close>

definition writer_room :: "byte_writer \<Rightarrow> nat \<Rightarrow> bool" where
  "writer_room w n \<longleftrightarrow> (case bw_sink w of Owned buf \<Rightarrow> True | Borrowed buf len \<Rightarrow> len + n \<le> length buf)"

lemma writer_len_put_slice [simp]: "writer_len (put_slice bs w) = writer_len w + length bs"
  by (simp add: put_slice_def writer_len_def Let_def split: sink.split)

lemma put_slice_append:
  assumes "writer_room w (length bs + length cs)"
  shows "put_slice cs (put_slice bs w) = put_slice (bs @ cs) w"
  using assms
  by (auto simp: writer_room_def put_slice_def Let_def overwrite_overwrite add.assoc split: sink.splits)

lemma writer_room_put_slice:
  "writer_room w (length bs + n) \<Longrightarrow> writer_room (put_slice bs w) n"
  by (auto simp: writer_room_def put_slice_def Let_def add.assoc split: sink.splits)

lemma writer_room_less: "writer_room w n \<Longrightarrow> m \<le> n \<Longrightarrow> writer_room w m"
  by (auto simp: writer_room_def split: sink.splits)

definition str16_bytes :: "rstring \<Rightarrow> bytes" where
  "str16_bytes s = (let bs = as_bytes (clamp_u16_field s) in be_bytes 2 (u16_try_or_max (length bs)) @ bs)"

lemma length_be_bytes [simp]: "length (be_bytes n v) = n"
  by (induction n) simp_all

lemma be_bytes_unfold:
  "be_bytes 2 v = [ucast (drop_bit 8 v), ucast v]"
  "be_bytes 4 v = [ucast (drop_bit 24 v), ucast (drop_bit 16 v), ucast (drop_bit 8 v), ucast v]"
  by (simp_all add: numeral_eq_Suc)

lemma put_length_prefixed_str_slice:
  assumes "writer_room w (length (str16_bytes value))"
  shows "put_length_prefixed_str value w = put_slice (str16_bytes value) w"
  using assms
  by (simp add: put_length_prefixed_str_def put_bytes_def put_u16_def str16_bytes_def Let_def
      put_slice_append)

lemmas put_defs = put_u8_def put_bool_def put_u16_def put_u32_def put_u64_def put_i32_def put_i64_def
  put_bytes_def

section \<open>The clamp\<close>

lemma str_get_to_append [simp]: "str_get_to (s @ t) (str_len s) = Some s"
proof (induction s)
  case Nil
  then show ?case by (cases t) simp_all
next
  case (Cons c s)
  then show ?case using len_utf8_pos [of c] by simp
qed

lemma clamp_end_split:
  "\<exists>t u. s = t @ u \<and> clamp_end mx i i s = i + str_len t \<and> (t = [] \<or> i + str_len t \<le> mx) \<and>
     (u = [] \<or> mx < i + str_len t + len_utf8 (hd u))"
proof (induction s arbitrary: i)
  case (Cons c s)
  show ?case
  proof (cases "mx < i + len_utf8 c")
    case True
    then show ?thesis by (intro exI [of _ "[]"] exI [of _ "c # s"]) simp
  next
    case False
    obtain t u where "s = t @ u" "clamp_end mx (i + len_utf8 c) (i + len_utf8 c) s = i + len_utf8 c + str_len t"
      "t = [] \<or> i + len_utf8 c + str_len t \<le> mx" "u = [] \<or> mx < i + len_utf8 c + str_len t + len_utf8 (hd u)"
      using Cons.IH by blast
    with False show ?thesis by (intro exI [of _ "c # t"] exI [of _ u]) (auto simp: Let_def add.assoc)
  qed
qed simp

lemma clamp_utf8_split:
  obtains u where "s = clamp_utf8 s mx @ u" "str_len (clamp_utf8 s mx) \<le> mx"
    "u = [] \<or> mx < str_len (clamp_utf8 s mx) + len_utf8 (hd u)"
proof (cases "str_len s \<le> mx")
  case True
  then show ?thesis using that [of "[]"] by (simp add: clamp_utf8_def)
next
  case False
  obtain t u where s: "s = t @ u" and e: "clamp_end mx 0 0 s = str_len t" and t: "t = [] \<or> str_len t \<le> mx"
    and u: "u = [] \<or> mx < str_len t + len_utf8 (hd u)"
    using clamp_end_split [of s mx 0] by auto
  have "clamp_utf8 s mx = t" using False e unfolding clamp_utf8_def by (simp add: s)
  then show ?thesis using that [of u] s t u by auto
qed

lemma clamp_utf8_le: "str_len (clamp_utf8 s mx) \<le> mx"
  using clamp_utf8_split by blast

lemma clamp_utf8_id [simp]: "str_len s \<le> mx \<Longrightarrow> clamp_utf8 s mx = s"
  by (simp add: clamp_utf8_def)

lemma clamp_u16_field_le: "str_len (clamp_u16_field s) < 65536"
  using clamp_utf8_le [of s max_length_prefixed_bytes]
  by (simp add: clamp_u16_field_def max_length_prefixed_bytes_def)

lemma wf_str_clamp: "wf_str s \<Longrightarrow> wf_str (clamp_utf8 s mx)"
  using clamp_utf8_split [of s mx] by (metis wf_str_simps(3))

section \<open>Reading at a cursor\<close>

definition cursor :: "bytes \<Rightarrow> bytes \<Rightarrow> byte_reader" where
  "cursor pre rest = \<lparr>rd_data = pre @ rest, rd_offset = length pre\<rparr>"

lemma cursor_eq [simp]: "cursor a b = cursor c d \<longleftrightarrow> a = c \<and> b = d"
  by (auto simp: cursor_def dest: append_eq_append_conv [THEN iffD1, rotated])

text \<open>The reader state \<open>r\<close> is a later position in the same data.\<close>

definition within :: "bytes \<Rightarrow> bytes \<Rightarrow> byte_reader \<Rightarrow> bool" where
  "within pre rest r \<longleftrightarrow> (\<exists>bs post. rest = bs @ post \<and> r = cursor (pre @ bs) post)"

lemma within_append [simp]: "within pre (bs @ post) (cursor (pre @ bs) post)"
  by (auto simp: within_def)

lemma within_Cons [simp]: "within pre (b # post) (cursor (pre @ [b]) post)"
  using within_append [of pre "[b]" post] by simp

lemma within_take: "within pre rest (cursor (pre @ take n rest) (drop n rest))"
  using within_append [of pre "take n rest" "drop n rest"] by simp

lemma within_refl [simp]: "within pre rest (cursor pre rest)"
  using within_append [of pre "[]" rest] by simp

lemma within_trans:
  assumes "within pre rest (cursor p q)" "within p q r"
  shows "within pre rest r"
proof -
  obtain bs where "rest = bs @ q" "p = pre @ bs"
    using assms(1) by (auto simp: within_def)
  moreover obtain cs post where "q = cs @ post" "r = cursor (p @ cs) post"
    using assms(2) by (auto simp: within_def)
  ultimately show ?thesis using within_append [of pre "bs @ cs" post] by simp
qed

lemma withinE:
  assumes "within pre rest r"
  obtains bs post where "rest = bs @ post" "r = cursor (pre @ bs) post"
  using assms by (auto simp: within_def)

lemma reader_new_cursor: "reader_new d = cursor [] d"
  by (simp add: reader_new_def cursor_def)

lemma position_cursor [simp]: "position (cursor pre rest) = length pre"
  by (simp add: position_def cursor_def)

lemma rbind_simps [simp]:
  "m r = Inl e \<Longrightarrow> rbind m f r = Inl e"
  "m r = Inr (x, r') \<Longrightarrow> rbind m f r = f x r'"
  by (simp_all add: rbind_def)

lemma rbind_Inr: "rbind m f r = Inr y \<longleftrightarrow> (\<exists>x r'. m r = Inr (x, r') \<and> f x r' = Inr y)"
  by (auto simp: rbind_def split: sum.splits)

lemma rreturn_apply [simp]: "rreturn x r = Inr (x, r)"
  by (simp add: rreturn_def)

lemma rmap_Inr: "rmap f m r = Inr (y, r') \<longleftrightarrow> (\<exists>x. m r = Inr (x, r') \<and> y = f x)"
  by (auto simp: rmap_def rbind_Inr)

lemma next_byte_cursor [simp]:
  "next_byte (cursor pre (b # post)) = Inr (b, cursor (pre @ [b]) post)"
  "next_byte (cursor pre []) = Inl Truncated"
  by (simp_all add: next_byte_def cursor_def)

lemma next_byte_Inr:
  "next_byte (cursor pre rest) = Inr (x, r') \<longleftrightarrow> (\<exists>post. rest = x # post \<and> r' = cursor (pre @ [x]) post)"
  by (cases rest) auto

lemma read_bytes_cursor:
  "read_bytes n (cursor pre rest) =
    (if n \<le> length rest then Inr (take n rest, cursor (pre @ take n rest) (drop n rest)) else Inl Truncated)"
  by (auto simp: read_bytes_def cursor_def slice_get_def)

lemma read_bytes_append [simp]:
  "n = length bs \<Longrightarrow> read_bytes n (cursor pre (bs @ post)) = Inr (bs, cursor (pre @ bs) post)"
  by (simp add: read_bytes_cursor)

lemma bytes_remaining_cursor [simp]: "bytes_remaining (cursor pre rest) = length rest"
  by (simp add: bytes_remaining_def cursor_def)

lemma remaining_cursor [simp]: "remaining (cursor pre rest) = (rest, cursor (pre @ rest) [])"
  by (simp add: remaining_def cursor_def slice_get_def)

text \<open>The big-endian assembly is inverse to the big-endian split.\<close>

lemma read_be_cursor [simp]:
  "read_be n v (cursor pre (be_bytes n w @ post)) =
     Inr (push_bit (8 * n) v OR take_bit (8 * n) w, cursor (pre @ be_bytes n w) post)"
proof (induction n arbitrary: v pre)
  case (Suc n)
  have "push_bit (8 * n) (push_bit 8 v OR ucast (ucast (drop_bit (8 * n) w) :: u8)) OR take_bit (8 * n) w
      = push_bit (8 * Suc n) v OR take_bit (8 * Suc n) w"
    by (rule bit_word_eqI) (auto simp: bit_simps ac_simps)
  then show ?case using Suc.IH by simp
qed simp

lemma read_be_short: "m < n \<Longrightarrow> length bs = m \<Longrightarrow> read_be n v (cursor pre bs) = Inl Truncated"
proof (induction n arbitrary: v pre m bs)
  case (Suc n)
  then show ?case by (cases bs) auto
qed simp

lemma read_be_within: "read_be n v (cursor pre rest) = Inr (x, r') \<Longrightarrow> within pre rest r'"
proof (induction n arbitrary: v pre rest)
  case (Suc n)
  then obtain b post where "rest = b # post" "read_be n (push_bit 8 v OR ucast b) (cursor (pre @ [b]) post) = Inr (x, r')"
    by (auto simp: rbind_Inr next_byte_Inr)
  with Suc.IH within_trans [OF within_Cons] show ?case by blast
qed auto

section \<open>The field contract\<close>

text \<open>What a message table relies on for each field type: the bytes written are read back exactly and
  nothing else is consumed, an accepted field is in range and its reader stays inside the data, and
  a field cut short is reported as truncation.\<close>

locale field_codec =
  fixes put :: "'a \<Rightarrow> bytes"
    and get :: "'a reader"
    and ok :: "'a \<Rightarrow> bool"
  assumes get_put: "ok x \<Longrightarrow> get (cursor pre (put x @ post)) = Inr (x, cursor (pre @ put x) post)"
    and get_span: "get (cursor pre rest) = Inr (x, r') \<Longrightarrow>
      ok x \<and> within pre rest r'"
    and get_short: "ok x \<Longrightarrow> n < length (put x) \<Longrightarrow> get (cursor pre (take n (put x))) = Inl Truncated"
begin

lemma get_put_end: "ok x \<Longrightarrow> get (cursor pre (put x)) = Inr (x, cursor (pre @ put x) [])"
  using get_put [of x pre "[]"] by simp

lemma prefix_free:
  assumes "ok x" "ok y" "put x @ a = put y @ b"
  shows "x = y \<and> a = b"
proof -
  have "(Inr (x, cursor ([] @ put x) a) :: wire_error + _) = Inr (y, cursor ([] @ put y) b)"
    using get_put [OF assms(1), of "[]" a] get_put [OF assms(2), of "[]" b]
    unfolding assms(3) by (rule box_equals [OF refl])
  then show ?thesis by simp
qed

lemma put_inj: "ok x \<Longrightarrow> ok y \<Longrightarrow> put x = put y \<Longrightarrow> x = y"
  using prefix_free [of x y "[]" "[]"] by simp

lemma get_obtain:
  assumes "get (cursor pre rest) = Inr (x, r')"
  obtains bs post where "rest = bs @ post" "r' = cursor (pre @ bs) post" "ok x"
  using get_span [OF assms] by (auto elim: withinE)

lemma short_then:
  assumes "ok x" and tail: "\<And>n pre. n < length cs \<Longrightarrow> f x (cursor pre (take n cs)) = Inl Truncated"
    and "n < length (put x) + length cs"
  shows "rbind get f (cursor pre (take n (put x @ cs))) = Inl Truncated"
proof (cases "n < length (put x)")
  case True
  then show ?thesis using get_short [OF assms(1)] by simp
next
  case False
  then show ?thesis using get_put [OF assms(1), of pre "take (n - length (put x)) cs"] assms tail by simp
qed

end

lemma sint_word_of_int_range:
  "- (2 ^ (LENGTH('a::len) - 1)) \<le> v \<Longrightarrow> v < 2 ^ (LENGTH('a) - 1) \<Longrightarrow> sint (word_of_int v :: 'a word) = v"
  by (simp add: sint_sbintrunc' signed_take_bit_int_eq_self)

lemma sint_i32 [simp]: "i32_ok v \<Longrightarrow> sint (word_of_int v :: u32) = v"
  by (rule sint_word_of_int_range) (simp_all add: i32_ok_def)

lemma sint_i64 [simp]: "i64_ok v \<Longrightarrow> sint (word_of_int v :: u64) = v"
  by (rule sint_word_of_int_range) (simp_all add: i64_ok_def)

lemma i32_ok_sint [simp]: "i32_ok (sint (w :: u32))"
  using sint_ge [of w] sint_lt [of w] by (simp add: i32_ok_def)

lemma i64_ok_sint [simp]: "i64_ok (sint (w :: u64))"
  using sint_ge [of w] sint_lt [of w] by (simp add: i64_ok_def)

lemma read_u16_be: "read_u16 = read_be 2 0"
  by (simp add: read_u16_def numeral_2_eq_2 fun_eq_iff rbind_def split: sum.split)

lemmas read_be_defs = read_u16_be read_u32_def read_u64_def

interpretation f8: field_codec "\<lambda>v::u8. [v]" read_u8 "\<lambda>_. True"
  by unfold_locales (auto simp: read_u8_def next_byte_Inr)

interpretation fbool: field_codec "\<lambda>b. [if b then 1 else (0::u8)]" read_bool "\<lambda>_. True"
  by unfold_locales (auto simp: read_bool_def rmap_def rbind_Inr next_byte_Inr)

interpretation f16: field_codec "be_bytes 2 :: u16 \<Rightarrow> bytes" read_u16 "\<lambda>_. True"
  by unfold_locales (auto simp: read_be_defs read_be_short take_bit_word_eq_self dest: read_be_within)

interpretation f32: field_codec "be_bytes 4 :: u32 \<Rightarrow> bytes" read_u32 "\<lambda>_. True"
  by unfold_locales (auto simp: read_be_defs read_be_short take_bit_word_eq_self dest: read_be_within)

interpretation f64: field_codec "be_bytes 8 :: u64 \<Rightarrow> bytes" read_u64 "\<lambda>_. True"
  by unfold_locales (auto simp: read_be_defs read_be_short take_bit_word_eq_self dest: read_be_within)

text \<open>A signed field is its unsigned twin seen through the two's-complement casts.\<close>

definition i32_bytes :: "int \<Rightarrow> bytes" where
  "i32_bytes v = be_bytes 4 (word_of_int v :: u32)"

definition i64_bytes :: "int \<Rightarrow> bytes" where
  "i64_bytes v = be_bytes 8 (word_of_int v :: u64)"

lemma length_int_bytes [simp]: "length (i32_bytes v) = 4" "length (i64_bytes v) = 8"
  by (simp_all add: i32_bytes_def i64_bytes_def)

interpretation fi32: field_codec i32_bytes read_i32 i32_ok
  by unfold_locales
    (auto simp: read_i32_def i32_bytes_def rmap_def rbind_Inr f32.get_put f32.get_short dest: f32.get_span)

interpretation fi64: field_codec i64_bytes read_i64 i64_ok
  by unfold_locales
    (auto simp: read_i64_def i64_bytes_def rmap_def rbind_Inr f64.get_put f64.get_short dest: f64.get_span)

text \<open>A fixed run of bytes, such as a raw UUID.\<close>

interpretation fraw: field_codec "\<lambda>bs. bs" "read_bytes n" "\<lambda>bs. length bs = n" for n
  by unfold_locales
    (auto simp: read_bytes_cursor split: if_splits intro: within_take)

text \<open>A length-prefixed string in the range the length field can say.\<close>

definition str16_ok :: "rstring \<Rightarrow> bool" where
  "str16_ok s \<longleftrightarrow> wf_str s \<and> str_len s < 65536"

lemma str16_bytes_ok: "str16_ok s \<Longrightarrow> str16_bytes s = be_bytes 2 (word_of_nat (str_len s) :: u16) @ as_bytes s"
  by (simp add: str16_ok_def str16_bytes_def clamp_u16_field_def max_length_prefixed_bytes_def u16_try_or_max_def)

lemma unat_u16_of_nat [simp]: "n < 65536 \<Longrightarrow> unat (word_of_nat n :: u16) = n"
  by (simp add: unat_of_nat take_bit_eq_mod)

lemma utf8_as_bytes [simp]: "wf_str s \<Longrightarrow> utf8 (as_bytes s) field = Inr s"
  by (simp add: utf8_def)

lemma utf8_Inr: "utf8 bs field = Inr s \<longleftrightarrow> wf_str s \<and> bs = as_bytes s"
  by (auto simp: utf8_def dest: from_utf8_Some split: option.splits)

lemma read_str16_eq:
  "read_length_prefixed_str field (cursor pre (be_bytes 2 (w :: u16) @ rest)) =
    (if unat w \<le> length rest
     then map_res (\<lambda>s. (s, cursor (pre @ be_bytes 2 w @ take (unat w) rest) (drop (unat w) rest)))
            (utf8 (take (unat w) rest) field)
     else Inl Truncated)"
  by (simp add: read_length_prefixed_str_def f16.get_put read_bytes_cursor)

lemma read_str16_span:
  assumes "read_length_prefixed_str field (cursor pre rest) = Inr (s, r')"
  shows "str16_ok s \<and> within pre rest r'"
proof -
  obtain w r1 bs where w: "read_u16 (cursor pre rest) = Inr (w, r1)"
    and bs: "read_bytes (unat w) r1 = Inr (bs, r')" and s: "utf8 bs field = Inr s"
    using assms by (auto simp: read_length_prefixed_str_def rbind_Inr map_res_Inr)
  obtain p q where p: "rest = p @ q" "r1 = cursor (pre @ p) q" using f16.get_obtain [OF w] by blast
  have "length bs = unat w" "within (pre @ p) q r'" using fraw.get_span [OF bs [unfolded p(2)]] by auto
  moreover have "unat w < 65536" using unsigned_less [of w] by simp
  ultimately show ?thesis
    using s p within_trans [of pre rest "pre @ p" q r'] by (auto simp: utf8_Inr str16_ok_def)
qed

interpretation fstr: field_codec str16_bytes "read_length_prefixed_str field" str16_ok for field
proof (unfold_locales, goal_cases)
  case (1 x pre post)
  then show ?case by (auto simp: str16_bytes_ok read_str16_eq str16_ok_def)
next
  case (2 pre rest x r')
  then show ?case by (rule read_str16_span)
next
  case (3 x n pre)
  let ?h = "be_bytes 2 (word_of_nat (str_len x) :: u16)"
  show ?case
  proof (cases "n < 2")
    case True
    then have "read_u16 (cursor pre (take n ?h)) = Inl Truncated" by (simp add: f16.get_short)
    then show ?thesis using 3 True by (simp add: str16_bytes_ok read_length_prefixed_str_def)
  next
    case False
    then show ?thesis using 3 by (auto simp: str16_bytes_ok read_str16_eq str16_ok_def)
  qed
qed

lemma remaining_str_cursor:
  "remaining_str field (cursor pre rest) = map_res (\<lambda>s. (s, cursor (pre @ rest) [])) (utf8 rest field)"
  by (simp add: remaining_str_def)

lemmas field_reads [simp] = f8.get_put [OF TrueI, simplified] fbool.get_put [OF TrueI] f16.get_put [OF TrueI]
  f32.get_put [OF TrueI] f64.get_put [OF TrueI] fi32.get_put fi64.get_put fstr.get_put

lemmas field_reads_end [simp] = f8.get_put_end [OF TrueI] fbool.get_put_end [OF TrueI]
  f16.get_put_end [OF TrueI] f32.get_put_end [OF TrueI] f64.get_put_end [OF TrueI]
  fi32.get_put_end fi64.get_put_end fstr.get_put_end

end
