(* ===== verification/Wire_Message.thy ===== *)
theory Wire_Message
  imports Wire_Bytes
begin

text \<open>
  The message table of the terminal wire, \<open>slopdesk-wire/src/message.rs\<close>: the twenty-nine messages,
  their type bytes, the channel each travels on, its opaque byte run, and the predicted frame size.
\<close>

type_synonym raw_uuid = bytes
type_synonym range = "nat \<times> nat"

definition session_id_byte_count :: nat where
  "session_id_byte_count = 16"

definition new_session_id :: raw_uuid where
  "new_session_id = replicate session_id_byte_count 0"

datatype channel = Data | Control

datatype command_status =
    Running
  | Idle (exit_code: "int option") (duration_ms: u32)

record project_git_status =
  repo_root :: rstring
  branch :: rstring
  ahead :: int
  behind :: int
  stash_count :: int
  staged :: u32
  modified :: u32
  untracked :: u32
  conflicted :: u32
  changed_count :: u32

text \<open>The arguments of each constructor are the fields of the variant in the order the source
  declares them.\<close>

datatype wire_message =
    Output int bytes
  | Exit int
  | Input bytes
  | Hello u16 raw_uuid int
  | Resize u16 u16 u16 u16
  | Ack int
  | Bye
  | Ping u64
  | RequestBlockOutput u32
  | MetadataRequest u32 u8 bytes
  | WorkspaceRequest u32 u8 bytes
  | HelloAck raw_uuid int bool
  | Title rstring
  | Bell
  | CommandStatus command_status
  | Pong u64
  | Notification rstring rstring
  | ForegroundProcess rstring
  | ClaudeStatus u8 u8 rstring
  | CommandBlock u32 "int option" "u32 option" bool u32 rstring u32
  | BlockOutput u32 bytes
  | MetadataResponse u32 u8 bytes
  | InputEcho bool
  | Progress u8 u8
  | Cwd rstring
  | ProjectKey rstring
  | ProjectGitStatus project_git_status
  | AgentSessionIntent rstring
  | WorkspaceEvent u8 raw_uuid int int bytes

fun message_type :: "wire_message \<Rightarrow> u8" where
  "message_type (Output _ _) = 1"
| "message_type (Exit _) = 2"
| "message_type (Input _) = 3"
| "message_type (Hello _ _ _) = 10"
| "message_type (Resize _ _ _ _) = 11"
| "message_type (Ack _) = 12"
| "message_type Bye = 13"
| "message_type (Ping _) = 14"
| "message_type (RequestBlockOutput _) = 15"
| "message_type (MetadataRequest _ _ _) = 16"
| "message_type (WorkspaceRequest _ _ _) = 17"
| "message_type (HelloAck _ _ _) = 20"
| "message_type (Title _) = 21"
| "message_type Bell = 22"
| "message_type (CommandStatus _) = 23"
| "message_type (Pong _) = 24"
| "message_type (Notification _ _) = 25"
| "message_type (ForegroundProcess _) = 26"
| "message_type (ClaudeStatus _ _ _) = 27"
| "message_type (CommandBlock _ _ _ _ _ _ _) = 28"
| "message_type (BlockOutput _ _) = 29"
| "message_type (MetadataResponse _ _ _) = 30"
| "message_type (InputEcho _) = 31"
| "message_type (Progress _ _) = 32"
| "message_type (Cwd _) = 33"
| "message_type (ProjectKey _) = 34"
| "message_type (ProjectGitStatus _) = 35"
| "message_type (AgentSessionIntent _) = 36"
| "message_type (WorkspaceEvent _ _ _ _ _) = 37"

fun channel_of :: "wire_message \<Rightarrow> channel" where
  "channel_of (Output _ _) = Data"
| "channel_of (Exit _) = Data"
| "channel_of (Input _) = Data"
| "channel_of _ = Control"

fun opaque_run :: "wire_message \<Rightarrow> bytes" where
  "opaque_run (Output _ bs) = bs"
| "opaque_run (Input bs) = bs"
| "opaque_run (BlockOutput _ output) = output"
| "opaque_run (MetadataRequest _ _ payload) = payload"
| "opaque_run (MetadataResponse _ _ payload) = payload"
| "opaque_run (WorkspaceRequest _ _ payload) = payload"
| "opaque_run (WorkspaceEvent _ _ _ _ payload) = payload"
| "opaque_run _ = []"

text \<open>The body size of each message; \<open>wire_byte_count\<close> adds the length prefix and the type byte.\<close>

fun body_byte_count :: "wire_message \<Rightarrow> nat" where
  "body_byte_count (Output _ bs) = 8 + length bs"
| "body_byte_count (Exit _) = 4"
| "body_byte_count (RequestBlockOutput _) = 4"
| "body_byte_count (Input bs) = length bs"
| "body_byte_count (Hello _ _ _) = 2 + session_id_byte_count + 8"
| "body_byte_count (Resize _ _ _ _) = 8"
| "body_byte_count (Ack _) = 8"
| "body_byte_count (Ping _) = 8"
| "body_byte_count (Pong _) = 8"
| "body_byte_count Bye = 0"
| "body_byte_count Bell = 0"
| "body_byte_count (MetadataRequest _ _ payload) = 4 + 1 + 4 + length payload"
| "body_byte_count (MetadataResponse _ _ payload) = 4 + 1 + 4 + length payload"
| "body_byte_count (WorkspaceRequest _ _ payload) = 4 + 1 + 4 + length payload"
| "body_byte_count (WorkspaceEvent _ _ _ _ payload) = 1 + 16 + 8 + 8 + 4 + length payload"
| "body_byte_count (HelloAck _ _ _) = session_id_byte_count + 8 + 1"
| "body_byte_count (Title text) = str_len text"
| "body_byte_count (Cwd text) = str_len text"
| "body_byte_count (ProjectKey text) = str_len text"
| "body_byte_count (AgentSessionIntent text) = str_len text"
| "body_byte_count (ForegroundProcess name) = str_len name"
| "body_byte_count (CommandStatus status) = (case status of Running \<Rightarrow> 1 | Idle _ _ \<Rightarrow> 1 + 1 + 4 + 4)"
| "body_byte_count (Notification title body) = 2 + str_len (clamp_u16_field title) + str_len body"
| "body_byte_count (ClaudeStatus _ _ label) = 1 + 1 + 2 + str_len (clamp_u16_field label)"
| "body_byte_count (CommandBlock _ _ _ _ _ command_text _) =
     4 + 1 + 4 + 1 + 4 + 1 + 4 + 4 + 2 + str_len (clamp_u16_field command_text)"
| "body_byte_count (BlockOutput _ output) = 4 + 4 + length output"
| "body_byte_count (InputEcho _) = 1"
| "body_byte_count (Progress _ _) = 2"
| "body_byte_count (ProjectGitStatus status) =
     2 + str_len (clamp_u16_field (repo_root status)) + 2 + str_len (clamp_u16_field (branch status)) + 12 + 20"

definition wire_byte_count :: "wire_message \<Rightarrow> nat" where
  "wire_byte_count m = 4 + 1 + body_byte_count m"

definition wire_byte_count_with_run :: "wire_message \<Rightarrow> nat \<Rightarrow> nat" where
  "wire_byte_count_with_run m run_len = wire_byte_count m - length (opaque_run m) + run_len"

section \<open>Well-formed messages\<close>

text \<open>The values a Rust \<open>WireMessage\<close> can have by its field types (integer ranges, sixteen-byte
  identities, valid strings) plus the two limits of the format: a length-prefixed string fits its
  sixteen-bit length and a sized payload its thirty-two-bit length.\<close>

definition uuid_ok :: "raw_uuid \<Rightarrow> bool" where
  "uuid_ok u \<longleftrightarrow> length u = session_id_byte_count"

fun wf_status :: "command_status \<Rightarrow> bool" where
  "wf_status Running = True"
| "wf_status (Idle ec d) = (case ec of None \<Rightarrow> True | Some c \<Rightarrow> i32_ok c)"

definition sized_ok :: "bytes \<Rightarrow> bool" where
  "sized_ok bs \<longleftrightarrow> length bs < 2 ^ 32"

fun wf_message :: "wire_message \<Rightarrow> bool" where
  "wf_message (Output seq _) = i64_ok seq"
| "wf_message (Exit code) = i32_ok code"
| "wf_message (Hello _ sid seq) = (uuid_ok sid \<and> i64_ok seq)"
| "wf_message (Ack seq) = i64_ok seq"
| "wf_message (MetadataRequest _ _ p) = sized_ok p"
| "wf_message (WorkspaceRequest _ _ p) = sized_ok p"
| "wf_message (HelloAck sid seq _) = (uuid_ok sid \<and> i64_ok seq)"
| "wf_message (Title t) = wf_str t"
| "wf_message (CommandStatus s) = wf_status s"
| "wf_message (Notification t b) = (str16_ok t \<and> wf_str b)"
| "wf_message (ForegroundProcess n) = wf_str n"
| "wf_message (ClaudeStatus _ _ l) = str16_ok l"
| "wf_message (CommandBlock _ ec _ _ _ t _) = ((case ec of None \<Rightarrow> True | Some c \<Rightarrow> i32_ok c) \<and> str16_ok t)"
| "wf_message (BlockOutput _ p) = sized_ok p"
| "wf_message (MetadataResponse _ _ p) = sized_ok p"
| "wf_message (Cwd t) = wf_str t"
| "wf_message (ProjectKey t) = wf_str t"
| "wf_message (ProjectGitStatus s) =
     (str16_ok (repo_root s) \<and> str16_ok (branch s) \<and> i32_ok (ahead s) \<and> i32_ok (behind s) \<and> i32_ok (stash_count s))"
| "wf_message (AgentSessionIntent t) = wf_str t"
| "wf_message (WorkspaceEvent _ ep b n p) = (uuid_ok ep \<and> i64_ok b \<and> i64_ok n \<and> sized_ok p)"
| "wf_message _ = True"

text \<open>The values that need no byte run: the message with its run taken out.\<close>

fun without_run :: "wire_message \<Rightarrow> wire_message" where
  "without_run (Output seq _) = Output seq []"
| "without_run (Input _) = Input []"
| "without_run (BlockOutput i _) = BlockOutput i []"
| "without_run (MetadataRequest i v _) = MetadataRequest i v []"
| "without_run (MetadataResponse i s _) = MetadataResponse i s []"
| "without_run (WorkspaceRequest i v _) = WorkspaceRequest i v []"
| "without_run (WorkspaceEvent k ep b n _) = WorkspaceEvent k ep b n []"
| "without_run m = m"

text \<open>Messages whose body is self-delimiting: no field runs to the end of the frame.\<close>

fun self_delimiting :: "wire_message \<Rightarrow> bool" where
  "self_delimiting (Output _ _) = False"
| "self_delimiting (Input _) = False"
| "self_delimiting (Title _) = False"
| "self_delimiting (Cwd _) = False"
| "self_delimiting (ProjectKey _) = False"
| "self_delimiting (AgentSessionIntent _) = False"
| "self_delimiting (ForegroundProcess _) = False"
| "self_delimiting (Notification _ _) = False"
| "self_delimiting _ = True"

end
