(* ===== verification/Wire_Codec.thy ===== *)
theory Wire_Codec
  imports Wire_Message
begin

text \<open>
  The byte layout of every message, \<open>slopdesk-wire/src/codec.rs\<close>: the back-patching encoder over an
  owned or a lent buffer, and the one decoder behind the copying and the eliding entry points.
\<close>

section \<open>Encoding\<close>

definition wire_length :: "nat \<Rightarrow> u32" where
  "wire_length value = word_of_nat (value AND 0xFFFFFFFF)"

fun encode_status :: "command_status \<Rightarrow> byte_writer \<Rightarrow> byte_writer" where
  "encode_status Running w = put_u8 0 w"
| "encode_status (Idle ec d) w =
    put_u32 d (put_i32 (case ec of Some c \<Rightarrow> c | None \<Rightarrow> 0) (put_bool (ec \<noteq> None) (put_u8 1 w)))"

fun encode_body :: "wire_message \<Rightarrow> bytes \<Rightarrow> byte_writer \<Rightarrow> byte_writer" where
  "encode_body (Output seq _) run w = put_bytes run (put_i64 seq w)"
| "encode_body (Exit code) run w = put_i32 code w"
| "encode_body (Input _) run w = put_bytes run w"
| "encode_body (Hello ver sid seq) run w = put_i64 seq (put_bytes sid (put_u16 ver w))"
| "encode_body (Resize cols rows pw ph) run w = put_u16 ph (put_u16 pw (put_u16 rows (put_u16 cols w)))"
| "encode_body (Ack seq) run w = put_i64 seq w"
| "encode_body Bye run w = w"
| "encode_body Bell run w = w"
| "encode_body (Ping ts) run w = put_u64 ts w"
| "encode_body (Pong ts) run w = put_u64 ts w"
| "encode_body (RequestBlockOutput index) run w = put_u32 index w"
| "encode_body (HelloAck sid seq ret) run w = put_bool ret (put_i64 seq (put_bytes sid w))"
| "encode_body (Title text) run w = put_bytes (as_bytes text) w"
| "encode_body (Cwd text) run w = put_bytes (as_bytes text) w"
| "encode_body (ProjectKey text) run w = put_bytes (as_bytes text) w"
| "encode_body (AgentSessionIntent text) run w = put_bytes (as_bytes text) w"
| "encode_body (ForegroundProcess name) run w = put_bytes (as_bytes name) w"
| "encode_body (ProjectGitStatus s) run w =
    (let w = put_length_prefixed_str (repo_root s) w;
         w = put_length_prefixed_str (branch s) w;
         w = put_i32 (ahead s) w;
         w = put_i32 (behind s) w;
         w = put_i32 (stash_count s) w;
         w = put_u32 (staged s) w;
         w = put_u32 (modified s) w;
         w = put_u32 (untracked s) w;
         w = put_u32 (conflicted s) w
     in put_u32 (changed_count s) w)"
| "encode_body (Notification title body) run w = put_bytes (as_bytes body) (put_length_prefixed_str title w)"
| "encode_body (ClaudeStatus state kind label) run w =
    put_length_prefixed_str label (put_u8 kind (put_u8 state w))"
| "encode_body (CommandBlock index ec dur complete outlen text ordinal) run w =
    (let w = put_u32 index w;
         w = put_bool (ec \<noteq> None) w;
         w = put_i32 (case ec of Some c \<Rightarrow> c | None \<Rightarrow> 0) w;
         w = put_bool (dur \<noteq> None) w;
         w = put_u32 (case dur of Some d \<Rightarrow> d | None \<Rightarrow> 0) w;
         w = put_bool complete w;
         w = put_u32 outlen w;
         w = put_u32 ordinal w
     in put_length_prefixed_str text w)"
| "encode_body (BlockOutput index _) run w =
    put_bytes run (put_u32 (wire_length (length run)) (put_u32 index w))"
| "encode_body (MetadataRequest ident tag _) run w =
    put_bytes run (put_u32 (wire_length (length run)) (put_u8 tag (put_u32 ident w)))"
| "encode_body (MetadataResponse ident tag _) run w =
    put_bytes run (put_u32 (wire_length (length run)) (put_u8 tag (put_u32 ident w)))"
| "encode_body (WorkspaceRequest ident tag _) run w =
    put_bytes run (put_u32 (wire_length (length run)) (put_u8 tag (put_u32 ident w)))"
| "encode_body (WorkspaceEvent kind epoch base_n new_n _) run w =
    (let w = put_u8 kind w;
         w = put_bytes epoch w;
         w = put_i64 base_n w;
         w = put_i64 new_n w;
         w = put_u32 (wire_length (length run)) w
     in put_bytes run w)"
| "encode_body (InputEcho enabled) run w = put_bool enabled w"
| "encode_body (Progress state percent) run w = put_u8 percent (put_u8 state w)"
| "encode_body (CommandStatus status) run w = encode_status status w"

definition encode_into :: "wire_message \<Rightarrow> bytes \<Rightarrow> byte_writer \<Rightarrow> byte_writer" where
  "encode_into m run w =
    (let w = put_u32 0 w;
         w = put_u8 (message_type m) w;
         w = encode_body m run w;
         payload_length = wire_length (writer_len w - 4)
     in patch_u32 0 payload_length w)"

definition encode :: "wire_message \<Rightarrow> bytes" where
  "encode m = into_vec (encode_into m (opaque_run m) (writer_with_capacity (wire_byte_count m)))"

text \<open>The lent buffer is returned beside the answered size.\<close>

definition lent_buffer :: "byte_writer \<Rightarrow> bytes" where
  "lent_buffer w = (case bw_sink w of Owned buf \<Rightarrow> buf | Borrowed buf len \<Rightarrow> buf)"

definition encode_with_run_into :: "wire_message \<Rightarrow> bytes \<Rightarrow> bytes \<Rightarrow> nat \<times> bytes" where
  "encode_with_run_into m run out =
    (let needed = wire_byte_count_with_run m (length run) in
     if length out < needed then (needed, out)
     else let w = encode_into m run (writer_borrowing out)
          in (writer_len w, lent_buffer w))"

section \<open>Decoding\<close>

definition read_uuid :: "string \<Rightarrow> raw_uuid reader" where
  "read_uuid field =
    rbind (read_bytes session_id_byte_count) (\<lambda>bs r.
      if length bs = 16 then Inr (bs, r) else Inl (malformed (field @ '': invalid uuid bytes'')))"

definition read_sized_payload :: "bool \<Rightarrow> (bytes \<times> range) reader" where
  "read_sized_payload elide =
    rbind read_u32 (\<lambda>len r.
      let start = position r in
      rbind (read_bytes (unat len)) (\<lambda>bs.
        rreturn (if elide then [] else bs, (start, start + length bs))) r)"

definition read_trailing_payload :: "bool \<Rightarrow> (bytes \<times> range) reader" where
  "read_trailing_payload elide r =
    (let start = position r in
     case remaining r of (bs, r') \<Rightarrow>
       Inr ((if elide then [] else bs, (start, start + length bs)), r'))"

text \<open>\<open>bool::then_some\<close>, and a message that leaves the caller's empty range alone.\<close>

definition then_some :: "bool \<Rightarrow> 'a \<Rightarrow> 'a option" where
  "then_some b x = (if b then Some x else None)"

definition done_msg :: "wire_message \<Rightarrow> (wire_message \<times> range) reader" where
  "done_msg m = rreturn (m, (0, 0))"

text \<open>The match of \<open>decode_inner\<close>, in three consecutive stretches of its table: each answers
  \<open>other\<close> for a type byte that is not in its stretch.\<close>

definition decode_client_arms ::
  "u8 \<Rightarrow> bool \<Rightarrow> (wire_message \<times> range) reader \<Rightarrow> (wire_message \<times> range) reader" where
  "decode_client_arms t elide other =
    (if t = 1 then rbind read_i64 (\<lambda>seq. rmap (\<lambda>(bs, run). (Output seq bs, run)) (read_trailing_payload elide))
     else if t = 2 then rbind read_i32 (\<lambda>code. done_msg (Exit code))
     else if t = 3 then rmap (\<lambda>(bs, run). (Input bs, run)) (read_trailing_payload elide)
     else if t = 10 then
       rbind read_u16 (\<lambda>ver. rbind (read_uuid ''hello'') (\<lambda>sid. rbind read_i64 (\<lambda>seq.
         done_msg (Hello ver sid seq))))
     else if t = 11 then
       rbind read_u16 (\<lambda>cols. rbind read_u16 (\<lambda>rows. rbind read_u16 (\<lambda>pw. rbind read_u16 (\<lambda>ph.
         done_msg (Resize cols rows pw ph)))))
     else if t = 12 then rbind read_i64 (\<lambda>seq. done_msg (Ack seq))
     else if t = 13 then done_msg Bye
     else if t = 14 then rbind read_u64 (\<lambda>ts. done_msg (Ping ts))
     else if t = 15 then rbind read_u32 (\<lambda>index. done_msg (RequestBlockOutput index))
     else if t = 16 then
       rbind read_u32 (\<lambda>ident. rbind read_u8 (\<lambda>verb.
         rmap (\<lambda>(p, run). (MetadataRequest ident verb p, run)) (read_sized_payload elide)))
     else if t = 17 then
       rbind read_u32 (\<lambda>ident. rbind read_u8 (\<lambda>verb.
         rmap (\<lambda>(p, run). (WorkspaceRequest ident verb p, run)) (read_sized_payload elide)))
     else other)"

definition decode_status :: "(wire_message \<times> range) reader" where
  "decode_status =
    rbind read_u8 (\<lambda>tag.
      if tag = 0 then done_msg (CommandStatus Running)
      else if tag = 1 then
        rbind read_bool (\<lambda>has_exit. rbind read_i32 (\<lambda>exit_raw. rbind read_u32 (\<lambda>dur.
          done_msg (CommandStatus (Idle (then_some has_exit exit_raw) dur)))))
      else (\<lambda>r. Inl (malformed (''commandStatus: invalid tag '' @ show_nat (unat tag)))))"

definition decode_block :: "(wire_message \<times> range) reader" where
  "decode_block =
    rbind read_u32 (\<lambda>index. rbind read_bool (\<lambda>has_exit. rbind read_i32 (\<lambda>exit_raw.
    rbind read_bool (\<lambda>has_dur. rbind read_u32 (\<lambda>dur_raw. rbind read_bool (\<lambda>complete.
    rbind read_u32 (\<lambda>outlen. rbind read_u32 (\<lambda>ordinal.
    rbind (read_length_prefixed_str ''commandBlock commandText'') (\<lambda>text.
      done_msg (CommandBlock index (then_some has_exit exit_raw) (then_some has_dur dur_raw)
        complete outlen text ordinal))))))))))"

definition decode_host_arms ::
  "u8 \<Rightarrow> bool \<Rightarrow> (wire_message \<times> range) reader \<Rightarrow> (wire_message \<times> range) reader" where
  "decode_host_arms t elide other =
    (if t = 20 then
       rbind (read_uuid ''helloAck'') (\<lambda>sid. rbind read_i64 (\<lambda>seq. rbind read_bool (\<lambda>ret.
         done_msg (HelloAck sid seq ret))))
     else if t = 21 then rbind (remaining_str ''title'') (\<lambda>s. done_msg (Title s))
     else if t = 22 then done_msg Bell
     else if t = 23 then decode_status
     else if t = 24 then rbind read_u64 (\<lambda>ts. done_msg (Pong ts))
     else if t = 25 then
       rbind (read_length_prefixed_str ''notification title'') (\<lambda>title.
       rbind (remaining_str ''notification body'') (\<lambda>body. done_msg (Notification title body)))
     else if t = 26 then rbind (remaining_str ''foregroundProcess'') (\<lambda>n. done_msg (ForegroundProcess n))
     else if t = 27 then
       rbind read_u8 (\<lambda>state. rbind read_u8 (\<lambda>kind.
       rbind (read_length_prefixed_str ''claudeStatus label'') (\<lambda>label.
         done_msg (ClaudeStatus state kind label))))
     else if t = 28 then decode_block
     else if t = 29 then
       rbind read_u32 (\<lambda>index. rmap (\<lambda>(p, run). (BlockOutput index p, run)) (read_sized_payload elide))
     else if t = 30 then
       rbind read_u32 (\<lambda>ident. rbind read_u8 (\<lambda>status.
         rmap (\<lambda>(p, run). (MetadataResponse ident status p, run)) (read_sized_payload elide)))
     else other)"

definition decode_git_status :: "(wire_message \<times> range) reader" where
  "decode_git_status =
    rbind (read_length_prefixed_str ''projectGitStatus repoRoot'') (\<lambda>root.
    rbind (read_length_prefixed_str ''projectGitStatus branch'') (\<lambda>br.
    rbind read_i32 (\<lambda>ah. rbind read_i32 (\<lambda>be. rbind read_i32 (\<lambda>st.
    rbind read_u32 (\<lambda>sg. rbind read_u32 (\<lambda>mo. rbind read_u32 (\<lambda>un. rbind read_u32 (\<lambda>co.
    rbind read_u32 (\<lambda>ch.
      done_msg (ProjectGitStatus \<lparr>repo_root = root, branch = br, ahead = ah, behind = be,
        stash_count = st, staged = sg, modified = mo, untracked = un, conflicted = co,
        changed_count = ch\<rparr>)))))))))))"

definition decode_event :: "bool \<Rightarrow> (wire_message \<times> range) reader" where
  "decode_event elide =
    rbind read_u8 (\<lambda>kind. rbind (read_uuid ''workspaceEvent epoch'') (\<lambda>epoch.
    rbind read_i64 (\<lambda>base_n. rbind read_i64 (\<lambda>new_n.
      rmap (\<lambda>(p, run). (WorkspaceEvent kind epoch base_n new_n p, run)) (read_sized_payload elide)))))"

definition decode_late_arms ::
  "u8 \<Rightarrow> bool \<Rightarrow> (wire_message \<times> range) reader \<Rightarrow> (wire_message \<times> range) reader" where
  "decode_late_arms t elide other =
    (if t = 31 then rbind read_bool (\<lambda>b. done_msg (InputEcho b))
     else if t = 32 then rbind read_u8 (\<lambda>state. rbind read_u8 (\<lambda>percent. done_msg (Progress state percent)))
     else if t = 33 then rbind (remaining_str ''cwd'') (\<lambda>s. done_msg (Cwd s))
     else if t = 34 then rbind (remaining_str ''projectKey'') (\<lambda>s. done_msg (ProjectKey s))
     else if t = 35 then decode_git_status
     else if t = 36 then rbind (remaining_str ''agentSessionIntent'') (\<lambda>s. done_msg (AgentSessionIntent s))
     else if t = 37 then decode_event elide
     else other)"

definition decode_arms :: "u8 \<Rightarrow> bool \<Rightarrow> (wire_message \<times> range) reader" where
  "decode_arms t elide =
    decode_client_arms t elide (decode_host_arms t elide (decode_late_arms t elide
      (\<lambda>r. Inl (UnknownMessageType t))))"

definition decode_inner :: "bytes \<Rightarrow> bool \<Rightarrow> wire_error + (wire_message \<times> range)" where
  "decode_inner payload elide =
    map_res fst (rbind read_u8 (\<lambda>t. decode_arms t elide) (reader_new payload))"

definition decode :: "bytes \<Rightarrow> wire_error + wire_message" where
  "decode payload = map_res fst (decode_inner payload False)"

definition decode_leaving_opaque_run :: "bytes \<Rightarrow> wire_error + (wire_message \<times> range)" where
  "decode_leaving_opaque_run payload = decode_inner payload True"

section \<open>The layout, as one byte string per message\<close>

text \<open>The declarative table the encoder and the decoder are both proved against: what follows the type
  byte of each message, with its byte run held apart.\<close>

definition sized_bytes :: "bytes \<Rightarrow> bytes" where
  "sized_bytes run = be_bytes 4 (wire_length (length run)) @ run"

definition opt_bytes :: "('a \<Rightarrow> bytes) \<Rightarrow> 'a \<Rightarrow> 'a option \<Rightarrow> bytes" where
  "opt_bytes enc zero v = [if v \<noteq> None then 1 else 0] @ enc (case v of Some x \<Rightarrow> x | None \<Rightarrow> zero)"

fun body_bytes :: "wire_message \<Rightarrow> bytes \<Rightarrow> bytes" where
  "body_bytes (Output seq _) run = i64_bytes seq @ run"
| "body_bytes (Exit code) run = i32_bytes code"
| "body_bytes (Input _) run = run"
| "body_bytes (Hello ver sid seq) run = be_bytes 2 ver @ sid @ i64_bytes seq"
| "body_bytes (Resize a b c d) run = be_bytes 2 a @ be_bytes 2 b @ be_bytes 2 c @ be_bytes 2 d"
| "body_bytes (Ack seq) run = i64_bytes seq"
| "body_bytes Bye run = []"
| "body_bytes Bell run = []"
| "body_bytes (Ping ts) run = be_bytes 8 ts"
| "body_bytes (Pong ts) run = be_bytes 8 ts"
| "body_bytes (RequestBlockOutput i) run = be_bytes 4 i"
| "body_bytes (HelloAck sid seq ret) run = sid @ i64_bytes seq @ [if ret then 1 else 0]"
| "body_bytes (Title t) run = as_bytes t"
| "body_bytes (Cwd t) run = as_bytes t"
| "body_bytes (ProjectKey t) run = as_bytes t"
| "body_bytes (AgentSessionIntent t) run = as_bytes t"
| "body_bytes (ForegroundProcess t) run = as_bytes t"
| "body_bytes (ProjectGitStatus s) run =
    str16_bytes (repo_root s) @ str16_bytes (branch s) @ i32_bytes (ahead s) @ i32_bytes (behind s) @
    i32_bytes (stash_count s) @ be_bytes 4 (staged s) @ be_bytes 4 (modified s) @
    be_bytes 4 (untracked s) @ be_bytes 4 (conflicted s) @ be_bytes 4 (changed_count s)"
| "body_bytes (Notification t b) run = str16_bytes t @ as_bytes b"
| "body_bytes (ClaudeStatus s k l) run = [s] @ [k] @ str16_bytes l"
| "body_bytes (CommandBlock i ec d c n t p) run =
    be_bytes 4 i @ opt_bytes i32_bytes 0 ec @ opt_bytes (be_bytes 4) 0 d @ [if c then 1 else 0] @
    be_bytes 4 n @ be_bytes 4 p @ str16_bytes t"
| "body_bytes (BlockOutput i _) run = be_bytes 4 i @ sized_bytes run"
| "body_bytes (MetadataRequest i v _) run = be_bytes 4 i @ [v] @ sized_bytes run"
| "body_bytes (MetadataResponse i v _) run = be_bytes 4 i @ [v] @ sized_bytes run"
| "body_bytes (WorkspaceRequest i v _) run = be_bytes 4 i @ [v] @ sized_bytes run"
| "body_bytes (WorkspaceEvent k ep b n _) run = [k] @ ep @ i64_bytes b @ i64_bytes n @ sized_bytes run"
| "body_bytes (InputEcho b) run = [if b then 1 else 0]"
| "body_bytes (Progress s p) run = [s] @ [p]"
| "body_bytes (CommandStatus st) run =
    (case st of Running \<Rightarrow> [0] | Idle ec d \<Rightarrow> [1] @ opt_bytes i32_bytes 0 ec @ be_bytes 4 d)"

definition payload_bytes :: "wire_message \<Rightarrow> bytes \<Rightarrow> bytes" where
  "payload_bytes m run = message_type m # body_bytes m run"

definition frame_bytes :: "wire_message \<Rightarrow> bytes \<Rightarrow> bytes" where
  "frame_bytes m run = be_bytes 4 (wire_length (length (payload_bytes m run))) @ payload_bytes m run"

section \<open>The encoder writes the table\<close>

lemma put_slice_join:
  assumes "writer_room w n" "length bs + length cs \<le> n"
  shows "put_slice cs (put_slice bs w) = put_slice (bs @ cs) w"
  by (rule put_slice_append [OF writer_room_less [OF assms]])

lemma put_str_join:
  assumes "writer_room w n" "length bs + length (str16_bytes s) \<le> n"
  shows "put_length_prefixed_str s (put_slice bs w) = put_slice (bs @ str16_bytes s) w"
proof -
  have "writer_room (put_slice bs w) (length (str16_bytes s))"
    by (rule writer_room_put_slice, rule writer_room_less [OF assms])
  then show ?thesis using put_slice_join [OF assms] by (simp add: put_length_prefixed_str_slice)
qed

lemma encode_body_slice:
  assumes "writer_room w (length pre + length (body_bytes m run))"
  shows "encode_body m run (put_slice pre w) = put_slice (pre @ body_bytes m run) w"
proof -
  note join = put_slice_join [OF assms] put_str_join [OF assms]
  note defs = put_defs Let_def sized_bytes_def opt_bytes_def i32_bytes_def i64_bytes_def
  show ?thesis
  proof (cases m)
    case (CommandStatus st)
    then show ?thesis using join by (cases st) (simp_all add: defs)
  qed (use join in \<open>simp_all add: defs\<close>)
qed

lemma length_str16_bytes: "length (str16_bytes s) = 2 + str_len (clamp_u16_field s)"
  by (simp add: str16_bytes_def Let_def)

text \<open>The seven messages whose last field is an opaque byte run.\<close>

fun carries_run :: "wire_message \<Rightarrow> bool" where
  "carries_run (Output _ _) = True"
| "carries_run (Input _) = True"
| "carries_run (BlockOutput _ _) = True"
| "carries_run (MetadataRequest _ _ _) = True"
| "carries_run (MetadataResponse _ _ _) = True"
| "carries_run (WorkspaceRequest _ _ _) = True"
| "carries_run (WorkspaceEvent _ _ _ _ _) = True"
| "carries_run _ = False"

text \<open>Field types fix the length of an identity, everything else of the size is the table's.\<close>

fun ids_ok :: "wire_message \<Rightarrow> bool" where
  "ids_ok (Hello _ sid _) = uuid_ok sid"
| "ids_ok (HelloAck sid _ _) = uuid_ok sid"
| "ids_ok (WorkspaceEvent _ ep _ _ _) = uuid_ok ep"
| "ids_ok _ = True"

lemma wf_message_ids: "wf_message m \<Longrightarrow> ids_ok m"
  by (cases m) auto

lemma length_body_bytes:
  "ids_ok m \<Longrightarrow> length (body_bytes m run) + length (opaque_run m) =
     body_byte_count m + (if carries_run m then length run else 0)"
  by (cases m)
    (auto simp: sized_bytes_def opt_bytes_def length_str16_bytes uuid_ok_def session_id_byte_count_def
      split: command_status.split)

lemma opaque_run_le: "length (opaque_run m) \<le> body_byte_count m"
  by (cases m) auto

lemma length_frame_bytes:
  assumes "ids_ok m" "carries_run m \<or> run = []"
  shows "length (frame_bytes m run) = wire_byte_count_with_run m (length run)"
  using length_body_bytes [OF assms(1), of run] assms(2) opaque_run_le [of m]
  by (auto simp: frame_bytes_def payload_bytes_def wire_byte_count_with_run_def wire_byte_count_def
      split: if_splits)

lemma opaque_run_none: "\<not> carries_run m \<Longrightarrow> opaque_run m = []"
  by (cases m) auto

lemma wire_byte_count_run: "wire_byte_count_with_run m (length (opaque_run m)) = wire_byte_count m"
  using opaque_run_le [of m] by (simp add: wire_byte_count_with_run_def wire_byte_count_def)

lemma without_run_simps [simp]:
  "message_type (without_run m) = message_type m" "body_bytes (without_run m) run = body_bytes m run"
  "ids_ok (without_run m) = ids_ok m" "carries_run (without_run m) = carries_run m"
  "opaque_run (without_run m) = []"
  by (cases m; simp)+

lemma frame_bytes_without_run [simp]: "frame_bytes (without_run m) run = frame_bytes m run"
  by (simp add: frame_bytes_def payload_bytes_def)

lemma encode_into_slice:
  assumes "writer_room w (length (frame_bytes m run))"
  shows "encode_into m run w =
    patch_u32 0 (wire_length (writer_len w + length (payload_bytes m run)))
      (put_slice (be_bytes 4 (0 :: u32) @ payload_bytes m run) w)"
proof -
  let ?pre = "be_bytes 4 (0 :: u32) @ [message_type m]"
  have room: "writer_room w (length ?pre + length (body_bytes m run))"
    using assms by (simp add: frame_bytes_def payload_bytes_def)
  have "put_slice [message_type m] (put_slice (be_bytes 4 (0 :: u32)) w) = put_slice ?pre w"
    by (rule put_slice_join [OF room]) simp
  with encode_body_slice [OF room] show ?thesis
    by (simp add: encode_into_def put_u32_def put_u8_def Let_def payload_bytes_def)
qed

lemma encode_frame: "encode m = frame_bytes m (opaque_run m)"
  by (simp add: encode_def encode_into_slice writer_room_def writer_with_capacity_def writer_len_def
      put_slice_def patch_u32_def into_vec_def overwrite_def frame_bytes_def)

lemma encode_lent:
  assumes "ids_ok m" "carries_run m \<or> run = []"
  shows "encode_with_run_into m run out =
    (length (frame_bytes m run),
     if length (frame_bytes m run) \<le> length out
     then frame_bytes m run @ drop (length (frame_bytes m run)) out else out)"
proof (cases "length (frame_bytes m run) \<le> length out")
  case True
  then have "writer_room (writer_borrowing out) (length (frame_bytes m run))"
    by (simp add: writer_room_def writer_borrowing_def)
  then have "encode_into m run (writer_borrowing out) =
      \<lparr>bw_sink = Borrowed (overwrite out 0 (frame_bytes m run)) (length (frame_bytes m run))\<rparr>"
    using True by (subst encode_into_slice)
      (simp_all add: writer_borrowing_def writer_len_def put_slice_def patch_u32_def overwrite_def
        frame_bytes_def Let_def)
  then show ?thesis using True length_frame_bytes [OF assms]
    by (simp add: encode_with_run_into_def lent_buffer_def writer_len_def overwrite_def Let_def)
next
  case False
  then show ?thesis using length_frame_bytes [OF assms] by (simp add: encode_with_run_into_def Let_def)
qed

section \<open>The decoder reads the table\<close>

lemma and_u32: "(n::nat) AND 0xFFFFFFFF = n mod 2 ^ 32"
  using take_bit_eq_mask [of 32 n] by (simp add: mask_eq_exp_minus_1 take_bit_eq_mod)

lemma unat_wire_length [simp]: "n < 2 ^ 32 \<Longrightarrow> unat (wire_length n) = n"
  by (simp add: wire_length_def and_u32 unat_of_nat take_bit_eq_mod)

lemma read_uuid_raw: "read_uuid field = read_bytes 16"
proof
  fix r
  show "read_uuid field r = read_bytes 16 r"
    by (auto simp: read_uuid_def rbind_def session_id_byte_count_def read_bytes_def slice_get_def
        split: sum.splits option.splits)
qed

interpretation fuuid: field_codec "\<lambda>bs. bs" "read_uuid field" uuid_ok for field
  unfolding read_uuid_raw uuid_ok_def session_id_byte_count_def by (rule fraw.field_codec_axioms)

lemma uuid_reads [simp]:
  "uuid_ok u \<Longrightarrow> read_uuid field (cursor pre (u @ post)) = Inr (u, cursor (pre @ u) post)"
  "uuid_ok u \<Longrightarrow> read_uuid field (cursor pre u) = Inr (u, cursor (pre @ u) [])"
  by (simp_all add: fuuid.get_put fuuid.get_put_end)

lemma sized_reads [simp]:
  assumes "sized_ok p"
  shows "read_sized_payload elide (cursor pre (sized_bytes p)) =
    Inr ((if elide then [] else p, (length pre + 4, length pre + 4 + length p)), cursor (pre @ sized_bytes p) [])"
  using assms fraw.get_put_end [of p "length p"]
  by (simp add: read_sized_payload_def sized_bytes_def sized_ok_def Let_def)

lemma trailing_reads [simp]:
  "read_trailing_payload elide (cursor pre rest) =
    Inr ((if elide then [] else rest, (length pre, length pre + length rest)), cursor (pre @ rest) [])"
  by (simp add: read_trailing_payload_def Let_def)

lemma remaining_str_reads [simp]:
  "wf_str s \<Longrightarrow> remaining_str field (cursor pre (as_bytes s)) = Inr (s, cursor (pre @ as_bytes s) [])"
  by (simp add: remaining_str_cursor)

lemma rmap_reads [simp]: "m r = Inr (x, r') \<Longrightarrow> rmap f m r = Inr (f x, r')"
  by (simp add: rmap_def)

lemma done_msg_apply [simp]: "done_msg m r = Inr ((m, (0, 0)), r)"
  by (simp add: done_msg_def)

lemma bool_reads [simp]:
  "read_bool (cursor pre ((if b then 1 else 0) # post)) = Inr (b, cursor (pre @ [if b then 1 else 0]) post)"
  using fbool.get_put [where x = b] by simp

lemma then_some_opt [simp]: "then_some (\<exists>y. v = Some y) (case v of None \<Rightarrow> z | Some x \<Rightarrow> x) = v"
  by (cases v) (simp_all add: then_some_def)

lemma opt_i32_ok:
  "(case ec of None \<Rightarrow> True | Some c \<Rightarrow> i32_ok c) \<Longrightarrow> i32_ok (case ec of Some c \<Rightarrow> c | None \<Rightarrow> 0)"
  by (cases ec) (simp_all add: i32_ok_def)

lemmas decode_arm_defs = decode_arms_def decode_client_arms_def decode_host_arms_def decode_late_arms_def
  decode_status_def decode_block_def decode_git_status_def decode_event_def

lemma decode_body:
  assumes "wf_message m"
  shows "\<exists>run r. decode_arms (message_type m) False (cursor [message_type m] (body_bytes m (opaque_run m))) =
     Inr ((m, run), r)"
proof (cases m)
  case (CommandStatus st)
  then show ?thesis using assms by (cases st) (simp_all add: decode_arm_defs opt_bytes_def opt_i32_ok)
qed (use assms in \<open>simp_all add: decode_arm_defs opt_bytes_def opt_i32_ok\<close>)

lemma decode_payload: "wf_message m \<Longrightarrow> decode (payload_bytes m (opaque_run m)) = Inr m"
  using decode_body [of m]
  by (auto simp: decode_def decode_inner_def payload_bytes_def reader_new_cursor)

lemma payload_of_frame: "drop 4 (frame_bytes m run) = payload_bytes m run"
  by (simp add: frame_bytes_def)

section \<open>Accepted input\<close>

text \<open>What every result of a reader satisfies, and when the eliding and the copying reader agree.
  \<open>elides\<close> compares the two decoders on the same input: equal faults, the same message up to its run,
  and a range that selects exactly the bytes that were left out.\<close>

definition yields :: "'a reader \<Rightarrow> ('a \<Rightarrow> bool) \<Rightarrow> bool" where
  "yields g P \<longleftrightarrow> (\<forall>pre rest x r. g (cursor pre rest) = Inr (x, r) \<longrightarrow> P x)"

definition elides :: "(wire_message \<times> range) reader \<Rightarrow> (wire_message \<times> range) reader \<Rightarrow> bool" where
  "elides g0 g1 \<longleftrightarrow> (\<forall>pre rest.
     (case g0 (cursor pre rest) of
        Inl e \<Rightarrow> g1 (cursor pre rest) = Inl e
      | Inr ((m, (a, b)), r) \<Rightarrow> g1 (cursor pre rest) = Inr ((without_run m, (a, b)), r) \<and>
          slice_get (pre @ rest) a b = Some (opaque_run m)))"

text \<open>Every proper prefix of \<open>bs\<close> is reported as truncated.\<close>

definition truncates :: "'a reader \<Rightarrow> bytes \<Rightarrow> bool" where
  "truncates g bs \<longleftrightarrow> (\<forall>pre n. n < length bs \<longrightarrow> g (cursor pre (take n bs)) = Inl Truncated)"

context field_codec
begin

lemma truncates_then:
  assumes "ok x" "truncates (f x) cs"
  shows "truncates (rbind get f) (put x @ cs)"
  using assms(2) short_then [OF assms(1), of cs f] unfolding truncates_def by simp

lemma truncates_last: "ok x \<Longrightarrow> truncates (rbind get f) (put x)"
  using truncates_then [of x f "[]"] by (simp add: truncates_def)

lemma yields_then: "(\<And>x. ok x \<Longrightarrow> yields (f x) P) \<Longrightarrow> yields (rbind get f) P"
  unfolding yields_def by (auto simp: rbind_Inr elim!: get_obtain) blast

lemma elides_then:
  assumes "\<And>x. elides (f x) (g x)"
  shows "elides (rbind get f) (rbind get g)"
  unfolding elides_def
proof (intro allI)
  fix pre rest
  show "case rbind get f (cursor pre rest) of
        Inl e \<Rightarrow> rbind get g (cursor pre rest) = Inl e
      | Inr ((m, (a, b)), r) \<Rightarrow> rbind get g (cursor pre rest) = Inr ((without_run m, (a, b)), r) \<and>
          slice_get (pre @ rest) a b = Some (opaque_run m)"
  proof (cases "get (cursor pre rest)")
    case (Inr p)
    obtain x r where p: "p = (x, r)" by (cases p)
    obtain bs post where "rest = bs @ post" "r = cursor (pre @ bs) post"
      using get_obtain [OF Inr [unfolded p]] by blast
    then show ?thesis using assms [of x, unfolded elides_def, rule_format, of "pre @ bs" post] Inr p
      by (auto split: sum.splits)
  qed simp
qed

end

lemma yields_if: "(c \<Longrightarrow> yields a P) \<Longrightarrow> (\<not> c \<Longrightarrow> yields b P) \<Longrightarrow> yields (if c then a else b) P"
  by simp

lemma elides_if: "elides a a' \<Longrightarrow> elides b b' \<Longrightarrow> elides (if c then a else b) (if c then a' else b')"
  by simp

lemma yields_done: "P (m, (0, 0)) \<Longrightarrow> yields (done_msg m) P"
  by (auto simp: yields_def)

lemma elides_done: "without_run m = m \<Longrightarrow> opaque_run m = [] \<Longrightarrow> elides (done_msg m) (done_msg m)"
  by (auto simp: elides_def slice_get_def)

lemma fault_laws: "yields (\<lambda>r. Inl e) P" "elides (\<lambda>r. Inl e) (\<lambda>r. Inl e)"
  by (auto simp: yields_def elides_def)

lemma read_sized_cursor:
  "read_sized_payload elide (cursor pre rest) =
    (case read_u32 (cursor pre rest) of
       Inl e \<Rightarrow> Inl e
     | Inr (len, r) \<Rightarrow>
        (case read_bytes (unat len) r of
           Inl e \<Rightarrow> Inl e
         | Inr (bs, r') \<Rightarrow> Inr ((if elide then [] else bs, (position r, position r + length bs)), r')))"
  by (auto simp: read_sized_payload_def rbind_def Let_def split: sum.splits)

lemma read_sized_Inr:
  assumes "read_sized_payload False (cursor pre rest) = Inr ((p, (a, b)), r)"
  shows "sized_ok p \<and> slice_get (pre @ rest) a b = Some p"
proof -
  obtain len r1 where len: "read_u32 (cursor pre rest) = Inr (len, r1)"
    and p: "read_bytes (unat len) r1 = Inr (p, r)" and ab: "a = position r1" "b = position r1 + length p"
    using assms by (auto simp: read_sized_cursor split: sum.splits)
  obtain bs post where r1: "rest = bs @ post" "r1 = cursor (pre @ bs) post"
    using f32.get_obtain [OF len] by blast
  have "length p = unat len" using fraw.get_span [OF p [unfolded r1(2)]] by simp
  moreover have "unat len < 2 ^ 32" using unsigned_less [of len] by simp
  moreover have "p = take (unat len) post" "unat len \<le> length post"
    using p r1 by (auto simp: read_bytes_cursor split: if_splits)
  ultimately show ?thesis using ab r1 by (auto simp: sized_ok_def slice_get_def)
qed

lemma read_sized_elide:
  "read_sized_payload True (cursor pre rest) =
    (case read_sized_payload False (cursor pre rest) of
       Inl e \<Rightarrow> Inl e | Inr ((p, run), r) \<Rightarrow> Inr (([], run), r))"
  by (auto simp: read_sized_cursor split: sum.splits)

lemma yields_sized:
  "(\<And>p run. sized_ok p \<Longrightarrow> P (c p, run)) \<Longrightarrow>
    yields (rmap (\<lambda>(p, run). (c p, run)) (read_sized_payload False)) P"
  by (auto simp: yields_def rmap_Inr dest!: read_sized_Inr)

lemma elides_sized:
  assumes "\<And>p. without_run (c p) = c []" "\<And>p. opaque_run (c p) = p"
  shows "elides (rmap (\<lambda>(p, run). (c p, run)) (read_sized_payload False))
    (rmap (\<lambda>(p, run). (c p, run)) (read_sized_payload True))"
  using read_sized_Inr assms unfolding elides_def
  by (auto simp: read_sized_elide rmap_def rbind_def split: sum.splits)

lemma yields_trailing:
  "(\<And>p run. P (c p, run)) \<Longrightarrow> yields (rmap (\<lambda>(p, run). (c p, run)) (read_trailing_payload e)) P"
  by (auto simp: yields_def rmap_Inr)

lemma elides_trailing:
  assumes "\<And>p. without_run (c p) = c []" "\<And>p. opaque_run (c p) = p"
  shows "elides (rmap (\<lambda>(p, run). (c p, run)) (read_trailing_payload False))
    (rmap (\<lambda>(p, run). (c p, run)) (read_trailing_payload True))"
  using assms by (auto simp: elides_def slice_get_def)

lemma yields_rest_str:
  "(\<And>s. wf_str s \<Longrightarrow> yields (f s) P) \<Longrightarrow> yields (rbind (remaining_str field) f) P"
  by (auto simp: yields_def rbind_Inr remaining_str_cursor map_res_Inr utf8_Inr) blast

lemma elides_rest_str:
  assumes "\<And>s. without_run (c s) = c s" "\<And>s. opaque_run (c s) = []"
  shows "elides (rbind (remaining_str field) (\<lambda>s. done_msg (c s))) (rbind (remaining_str field) (\<lambda>s. done_msg (c s)))"
  using assms
  by (auto simp: elides_def rbind_def remaining_str_cursor map_res_def slice_get_def split: sum.splits)

lemmas yields_laws = yields_if yields_done fault_laws(1) yields_sized yields_trailing yields_rest_str
  f8.yields_then fbool.yields_then f16.yields_then f32.yields_then f64.yields_then fi32.yields_then
  fi64.yields_then fuuid.yields_then fstr.yields_then

lemmas elides_laws = elides_if elides_done fault_laws(2) elides_sized elides_trailing elides_rest_str
  f8.elides_then fbool.elides_then f16.elides_then f32.elides_then f64.elides_then fi32.elides_then
  fi64.elides_then fuuid.elides_then fstr.elides_then

lemma then_some_i32: "i32_ok c \<Longrightarrow> (case then_some b c of None \<Rightarrow> True | Some x \<Rightarrow> i32_ok x)"
  by (simp add: then_some_def)

lemma decode_arms_wf: "yields (decode_arms t False) (\<lambda>x. wf_message (fst x))"
  unfolding decode_arm_defs by (intro yields_laws) (simp_all add: then_some_i32)

lemma decode_arms_elides: "elides (decode_arms t False) (decode_arms t True)"
  unfolding decode_arm_defs by (intro elides_laws) simp_all

lemma decode_elides:
  "case decode payload of
     Inl e \<Rightarrow> decode_leaving_opaque_run payload = Inl e
   | Inr m \<Rightarrow> (\<exists>a b. decode_leaving_opaque_run payload = Inr (without_run m, (a, b)) \<and>
       slice_get payload a b = Some (opaque_run m))"
proof -
  have "elides (rbind read_u8 (\<lambda>t. decode_arms t False)) (rbind read_u8 (\<lambda>t. decode_arms t True))"
    by (rule f8.elides_then) (rule decode_arms_elides)
  from this [unfolded elides_def, rule_format, of "[]" payload] show ?thesis
    by (auto simp: decode_def decode_leaving_opaque_run_def decode_inner_def reader_new_cursor
        split: sum.splits)
qed

lemma decode_wf: "decode payload = Inr m \<Longrightarrow> wf_message m"
proof -
  have "yields (rbind read_u8 (\<lambda>t. decode_arms t False)) (\<lambda>x. wf_message (fst x))"
    by (rule f8.yields_then) (rule decode_arms_wf)
  then show "decode payload = Inr m \<Longrightarrow> wf_message m"
    by (fastforce simp: yields_def decode_def decode_inner_def reader_new_cursor map_res_Inr)
qed

lemma truncates_sized:
  assumes "sized_ok p"
  shows "truncates (rmap f (read_sized_payload e)) (sized_bytes p)"
  unfolding truncates_def
proof (intro allI impI)
  fix pre n
  assume n: "n < length (sized_bytes p)"
  let ?h = "be_bytes 4 (wire_length (length p))"
  show "rmap f (read_sized_payload e) (cursor pre (take n (sized_bytes p))) = Inl Truncated"
  proof (cases "n < 4")
    case True
    then show ?thesis by (simp add: rmap_def sized_bytes_def read_sized_cursor f32.get_short)
  next
    case False
    then show ?thesis using n assms
      by (auto simp: rmap_def sized_bytes_def sized_ok_def read_sized_cursor read_bytes_cursor)
  qed
qed

lemma truncates_done: "truncates (done_msg m) []"
  by (simp add: truncates_def)

lemmas truncates_laws = truncates_done truncates_sized
  f8.truncates_last fbool.truncates_last f16.truncates_last f32.truncates_last f64.truncates_last
  fi32.truncates_last fi64.truncates_last fuuid.truncates_last fstr.truncates_last
  f8.truncates_then fbool.truncates_then f16.truncates_then f32.truncates_then f64.truncates_then
  fi32.truncates_then fi64.truncates_then fuuid.truncates_then fstr.truncates_then

lemma truncates_if:
  "(c \<Longrightarrow> truncates a bs) \<Longrightarrow> (\<not> c \<Longrightarrow> truncates b bs) \<Longrightarrow> truncates (if c then a else b) bs"
  by simp

lemma decode_status_truncates:
  assumes "wf_status st"
  shows "truncates decode_status (body_bytes (CommandStatus st) run)"
proof (cases st)
  case Running
  then show ?thesis using f8.truncates_last [where x = 0] by (simp add: decode_status_def)
next
  case (Idle ec d)
  then show ?thesis
    unfolding Idle decode_status_def body_bytes.simps command_status.case opt_bytes_def append_assoc
    by (intro truncates_if truncates_laws) (use assms Idle in \<open>simp_all add: opt_i32_ok\<close>)
qed

lemma decode_arms_truncates:
  assumes "wf_message m" "self_delimiting m"
  shows "truncates (decode_arms (message_type m) e) (body_bytes m (opaque_run m))"
  using assms decode_status_truncates
  by (cases m)
    (simp_all add: decode_arms_def decode_client_arms_def decode_host_arms_def decode_late_arms_def
       decode_block_def decode_git_status_def decode_event_def opt_bytes_def
       del: append.simps split del: if_split,
     (intro truncates_laws; simp add: opt_i32_ok)+)

section \<open>Properties\<close>

text \<open>C12. Every well-formed message survives the wire: decoding the payload of its encoded frame
  (the frame without its four prefix bytes) gives the message back, for all twenty-nine variants.\<close>

theorem decode_encode:
  assumes "wf_message m"
  shows "decode (drop 4 (encode m)) = Inr m"
  using decode_payload [OF assms] by (simp add: encode_frame payload_of_frame)

theorem decode_encode_witness:
  "decode (drop 4 (encode (CommandBlock 7 (Some (- 1)) None True 3 [0x6C, 0x20AC, 0x1F600] 2))) =
     Inr (CommandBlock 7 (Some (- 1)) None True 3 [0x6C, 0x20AC, 0x1F600] 2)"
  by (rule decode_encode) (simp add: i32_ok_def str16_ok_def is_scalar_def len_utf8_def)

text \<open>Whatever bytes a peer sends, an accepted payload is a well-formed message (integers in
  range, identities of sixteen bytes, strictly valid strings within their length fields), and the
  encoder carries that message back to itself.\<close>

theorem decode_accepts_only_wf:
  assumes "decode payload = Inr m"
  shows "wf_message m \<and> decode (drop 4 (encode m)) = Inr m"
  using decode_wf [OF assms] decode_payload by (simp add: encode_frame payload_of_frame)

theorem decode_accepts_only_wf_witness:
  "wf_message (Progress 1 50) \<and> decode (drop 4 (encode (Progress 1 50))) = Inr (Progress 1 50)"
  by (rule decode_accepts_only_wf [of "[32, 1, 50, 9, 9]"]) code_simp

text \<open>The size predicted without building the frame is the size of the frame, and the length
  prefix of the frame says exactly how many bytes follow it. Flow control debits the one and credits
  the other.\<close>

theorem wire_byte_count_exact:
  assumes "ids_ok m" "wire_byte_count m < 2 ^ 32"
  shows "length (encode m) = wire_byte_count m \<and>
    (\<exists>n. take 4 (encode m) = be_bytes 4 (n :: u32) \<and> unat n = length (encode m) - 4)"
proof -
  have len: "length (encode m) = wire_byte_count m"
    using length_frame_bytes [OF assms(1), of "opaque_run m"] opaque_run_none [of m]
    by (auto simp: encode_frame wire_byte_count_run)
  moreover have "length (payload_bytes m (opaque_run m)) < 2 ^ 32"
    using len assms(2) by (simp add: encode_frame frame_bytes_def)
  ultimately show ?thesis by (auto simp: encode_frame frame_bytes_def)
qed

theorem wire_byte_count_exact_witness:
  "length (encode (Hello 1 new_session_id 9)) = wire_byte_count (Hello 1 new_session_id 9)"
  using wire_byte_count_exact [of "Hello 1 new_session_id 9"]
  by (simp add: uuid_ok_def new_session_id_def wire_byte_count_def session_id_byte_count_def)

text \<open>The eliding decoder is the copying decoder: on every input it answers the same fault, or
  the same message with its byte run left empty together with a range that selects exactly the run
  in the input.\<close>

theorem decode_leaving_opaque_run_agrees:
  "case decode payload of
     Inl e \<Rightarrow> decode_leaving_opaque_run payload = Inl e
   | Inr m \<Rightarrow> (\<exists>a b. decode_leaving_opaque_run payload = Inr (without_run m, (a, b)) \<and>
       slice_get payload a b = Some (opaque_run m))"
  by (rule decode_elides)

text \<open>Encoding into a lent buffer with the run held apart is the ordinary encoding: with room the
  buffer starts with the frame and the rest of it is untouched, without room nothing is written, and
  either way the answer is the size of the frame.\<close>

theorem encode_with_run_into_agrees:
  assumes "ids_ok m"
  shows "encode_with_run_into (without_run m) (opaque_run m) out =
    (length (encode m),
     if length (encode m) \<le> length out then encode m @ drop (length (encode m)) out else out)"
  using encode_lent [of "without_run m" "opaque_run m" out] assms opaque_run_none [of m]
  by (cases "carries_run m") (auto simp: encode_frame)

theorem encode_with_run_into_agrees_witness:
  "encode_with_run_into (Output 7 []) [65, 66] (replicate 20 170) =
    (length (encode (Output 7 [65, 66])),
     if length (encode (Output 7 [65, 66])) \<le> 20
     then encode (Output 7 [65, 66]) @ drop (length (encode (Output 7 [65, 66]))) (replicate 20 170)
     else replicate 20 170)"
  using encode_with_run_into_agrees [of "Output 7 [65, 66]" "replicate 20 170"] by simp

text \<open>A frame cut short is recognised: for every message whose body is self-delimiting, every
  proper prefix of its payload is refused as truncated and never read as another message.\<close>

theorem decode_truncated:
  assumes "wf_message m" "self_delimiting m" "n < length (drop 4 (encode m))"
  shows "decode (take n (drop 4 (encode m))) = Inl Truncated"
proof (cases n)
  case 0
  then show ?thesis by (simp add: decode_def decode_inner_def reader_new_cursor read_u8_def)
next
  case (Suc k)
  then have "decode_arms (message_type m) False
      (cursor [message_type m] (take k (body_bytes m (opaque_run m)))) = Inl Truncated"
    using decode_arms_truncates [OF assms(1,2), of False] assms(3)
    by (simp add: truncates_def encode_frame payload_of_frame payload_bytes_def)
  then show ?thesis using Suc
    by (simp add: decode_def decode_inner_def reader_new_cursor encode_frame payload_of_frame payload_bytes_def)
qed

theorem decode_truncated_witness:
  "decode (take 9 (drop 4 (encode (MetadataResponse 5 0 [1, 2, 3])))) = Inl Truncated"
  by (rule decode_truncated) (simp_all add: sized_ok_def encode_frame payload_of_frame payload_bytes_def sized_bytes_def)

end
