(* ===== verification/Framing.thy ===== *)
theory Framing
  imports Wire_Codec
begin

text \<open>
  The streaming receive buffer behind every decoder, \<open>slopdesk-wire/src/framing.rs\<close>, and the terminal
  frame decoder over it, \<open>frame.rs\<close>. The buffer with its cursor, its poisoning and its put-off
  compaction refines a plain stream of unread bytes; the locale \<open>framed_codec\<close> states what a decoder
  needs of the payload codec and proves, once for both decoders, that any chunking of a stream of
  encoded messages yields exactly those messages.
\<close>

section \<open>The prefixed reader\<close>

definition max_frame_payload_length :: nat where
  "max_frame_payload_length = 16 * 1024 * 1024"

definition prefix_length :: nat where
  "prefix_length = 4"

definition compaction_threshold :: nat where
  "compaction_threshold = 64 * 1024"

record prefixed_reader =
  buffer :: bytes
  read_offset :: nat
  fault :: "wire_error option"
  deferred_compaction :: bool

definition reader_init :: prefixed_reader where
  "reader_init = \<lparr>buffer = [], read_offset = 0, fault = None, deferred_compaction = False\<rparr>"

definition compact_consumed :: "prefixed_reader \<Rightarrow> prefixed_reader" where
  "compact_consumed r =
    (if 0 < read_offset r then r\<lparr>buffer := drop (read_offset r) (buffer r), read_offset := 0\<rparr> else r)"

definition settle_owed_compaction :: "prefixed_reader \<Rightarrow> prefixed_reader" where
  "settle_owed_compaction r =
    (if deferred_compaction r then compact_consumed (r\<lparr>deferred_compaction := False\<rparr>) else r)"

definition compact :: "bool \<Rightarrow> prefixed_reader \<Rightarrow> prefixed_reader" where
  "compact elide r = (if elide then r\<lparr>deferred_compaction := True\<rparr> else compact_consumed r)"

definition append_chunk :: "bytes \<Rightarrow> prefixed_reader \<Rightarrow> prefixed_reader" where
  "append_chunk d r =
    (if fault r \<noteq> None then r
     else let r = settle_owed_compaction r in r\<lparr>buffer := buffer r @ d\<rparr>)"

definition buffered_byte_count :: "prefixed_reader \<Rightarrow> nat" where
  "buffered_byte_count r = length (buffer r)"

definition reader_bytes :: "prefixed_reader \<Rightarrow> range \<Rightarrow> bytes" where
  "reader_bytes r run = (case slice_get (buffer r) (fst run) (snd run) of Some s \<Rightarrow> s | None \<Rightarrow> [])"

definition poison :: "wire_error \<Rightarrow> prefixed_reader \<Rightarrow> wire_error \<times> prefixed_reader" where
  "poison e r =
    (e, r\<lparr>fault := Some e, buffer := [], read_offset := 0, deferred_compaction := False\<rparr>)"

definition from_be_bytes :: "bytes \<Rightarrow> u32" where
  "from_be_bytes bs = foldl (\<lambda>v b. push_bit 8 v OR ucast b) 0 bs"

definition read_prefix :: "prefixed_reader \<Rightarrow> u32" where
  "read_prefix r =
    (case slice_get (buffer r) (read_offset r) (read_offset r + prefix_length) of
       Some p \<Rightarrow> from_be_bytes p
     | None \<Rightarrow> 0)"

definition next_payload ::
  "bool \<Rightarrow> (bytes \<Rightarrow> wire_error + 'a \<times> range) \<Rightarrow> prefixed_reader \<Rightarrow>
    (wire_error + ('a \<times> range) option) \<times> prefixed_reader" where
  "next_payload elide dec r =
    (case fault r of
       Some e \<Rightarrow> (Inl e, r)
     | None \<Rightarrow>
        (let r = settle_owed_compaction r;
             available = length (buffer r) - read_offset r
         in if available < prefix_length then (Inr None, compact elide r)
            else
              let payload_length = unat (read_prefix r) in
              if max_frame_payload_length < payload_length
              then (case poison (FrameTooLarge payload_length) r of (e, r') \<Rightarrow> (Inl e, r'))
              else
                let frame_length = prefix_length + payload_length in
                if available < frame_length then (Inr None, compact elide r)
                else
                  let payload_start = read_offset r + prefix_length;
                      payload_end = read_offset r + frame_length;
                      decoded = (case slice_get (buffer r) payload_start payload_end of
                                   None \<Rightarrow> Inl Truncated | Some p \<Rightarrow> dec p);
                      r = r\<lparr>read_offset := read_offset r + frame_length\<rparr>;
                      r = (if compaction_threshold \<le> read_offset r then compact elide r else r)
                  in case decoded of
                       Inr (value, run) \<Rightarrow>
                         (Inr (Some (value, (payload_start + fst run, payload_start + snd run))), r)
                     | Inl e \<Rightarrow> (case poison e r of (e, r') \<Rightarrow> (Inl e, r'))))"

section \<open>The terminal frame decoder\<close>

record frame_decoder =
  fd_reader :: prefixed_reader

definition decoder_new :: frame_decoder where
  "decoder_new = \<lparr>fd_reader = reader_init\<rparr>"

definition decoder_append :: "bytes \<Rightarrow> frame_decoder \<Rightarrow> frame_decoder" where
  "decoder_append d fd = fd\<lparr>fd_reader := append_chunk d (fd_reader fd)\<rparr>"

definition decoder_buffered :: "frame_decoder \<Rightarrow> nat" where
  "decoder_buffered fd = buffered_byte_count (fd_reader fd)"

definition next_inner ::
  "bool \<Rightarrow> frame_decoder \<Rightarrow> (wire_error + (wire_message \<times> range) option) \<times> frame_decoder" where
  "next_inner elide fd =
    (case next_payload elide
            (\<lambda>payload. if elide then decode_leaving_opaque_run payload
                       else map_res (\<lambda>m. (m, (0, 0))) (decode payload)) (fd_reader fd) of
       (res, r) \<Rightarrow> (res, fd\<lparr>fd_reader := r\<rparr>))"

definition next_message :: "frame_decoder \<Rightarrow> (wire_error + wire_message option) \<times> frame_decoder" where
  "next_message fd = (case next_inner False fd of (res, fd') \<Rightarrow> (map_res (map_option fst) res, fd'))"

definition next_message_leaving_opaque_run ::
  "frame_decoder \<Rightarrow> (wire_error + (wire_message \<times> range) option) \<times> frame_decoder" where
  "next_message_leaving_opaque_run fd = next_inner True fd"

definition run_bytes :: "frame_decoder \<Rightarrow> range \<Rightarrow> bytes" where
  "run_bytes fd run = reader_bytes (fd_reader fd) run"

section \<open>The abstract stream\<close>

text \<open>What the buffer stands for: the bytes received and not yet framed, or a fault that is final.
  Every operation has a counterpart here that knows nothing of cursors and compaction.\<close>

datatype stream = Live bytes | Dead wire_error

definition unread :: "prefixed_reader \<Rightarrow> bytes" where
  "unread r = drop (read_offset r) (buffer r)"

definition stream_of :: "prefixed_reader \<Rightarrow> stream" where
  "stream_of r = (case fault r of None \<Rightarrow> Live (unread r) | Some e \<Rightarrow> Dead e)"

fun stream_append :: "bytes \<Rightarrow> stream \<Rightarrow> stream" where
  "stream_append d (Live u) = Live (u @ d)"
| "stream_append d (Dead e) = Dead e"

definition stream_frame :: "bytes \<Rightarrow> wire_error + (bytes \<times> bytes) option" where
  "stream_frame u =
    (if length u < 4 then Inr None
     else let n = unat (from_be_bytes (take 4 u)) in
       if max_frame_payload_length < n then Inl (FrameTooLarge n)
       else if length u < 4 + n then Inr None
       else Inr (Some (take n (drop 4 u), drop (4 + n) u)))"

fun stream_next :: "(bytes \<Rightarrow> wire_error + 'a) \<Rightarrow> stream \<Rightarrow> (wire_error + 'a option) \<times> stream" where
  "stream_next dec (Dead e) = (Inl e, Dead e)"
| "stream_next dec (Live u) =
    (case stream_frame u of
       Inl e \<Rightarrow> (Inl e, Dead e)
     | Inr None \<Rightarrow> (Inr None, Live u)
     | Inr (Some (p, u')) \<Rightarrow>
        (case dec p of Inl e \<Rightarrow> (Inl e, Dead e) | Inr x \<Rightarrow> (Inr (Some x), Live u')))"

text \<open>The representation invariant: the cursor lies in the buffer, a poisoned reader holds nothing,
  and the consumed head that is not owed a compaction stays below the threshold.\<close>

definition reader_inv :: "prefixed_reader \<Rightarrow> bool" where
  "reader_inv r \<longleftrightarrow> read_offset r \<le> length (buffer r) \<and>
     (fault r \<noteq> None \<longrightarrow> buffer r = [] \<and> read_offset r = 0 \<and> \<not> deferred_compaction r) \<and>
     (\<not> deferred_compaction r \<longrightarrow> read_offset r < compaction_threshold)"

lemma reader_inv_init: "reader_inv reader_init" and stream_of_init: "stream_of reader_init = Live []"
  by (simp_all add: reader_inv_def reader_init_def compaction_threshold_def stream_of_def unread_def)

lemma compact_consumed_laws [simp]:
  "unread (compact_consumed r) = unread r" "fault (compact_consumed r) = fault r"
  "deferred_compaction (compact_consumed r) = deferred_compaction r" "read_offset (compact_consumed r) = 0"
  by (simp_all add: compact_consumed_def unread_def)

lemma settle_laws [simp]:
  "unread (settle_owed_compaction r) = unread r" "fault (settle_owed_compaction r) = fault r"
  "\<not> deferred_compaction (settle_owed_compaction r)"
  by (simp_all add: settle_owed_compaction_def) (simp add: unread_def)

lemma compact_laws [simp]:
  "unread (compact e r) = unread r" "fault (compact e r) = fault r"
  by (simp_all add: compact_def) (simp add: unread_def)

lemma settle_inv: "reader_inv r \<Longrightarrow> reader_inv (settle_owed_compaction r)"
  by (auto simp: reader_inv_def settle_owed_compaction_def compact_consumed_def compaction_threshold_def)

lemma compact_inv: "fault r = None \<Longrightarrow> read_offset r \<le> length (buffer r) \<Longrightarrow> reader_inv (compact e r)"
  by (auto simp: reader_inv_def compact_def compact_consumed_def compaction_threshold_def)

lemma length_unread: "length (unread r) = length (buffer r) - read_offset r"
  by (simp add: unread_def)

lemma read_prefix_unread:
  "read_offset r \<le> length (buffer r) \<Longrightarrow> 4 \<le> length (unread r) \<Longrightarrow>
    read_prefix r = from_be_bytes (take 4 (unread r))"
  by (auto simp: read_prefix_def prefix_length_def slice_get_def unread_def)

lemma slice_unread:
  "read_offset r \<le> length (buffer r) \<Longrightarrow> 4 + n \<le> length (unread r) \<Longrightarrow>
    slice_get (buffer r) (read_offset r + 4) (read_offset r + (4 + n)) = Some (take n (drop 4 (unread r)))"
  by (auto simp: slice_get_def unread_def add.commute)

text \<open>One call on a live reader, in terms of the unread bytes.\<close>

lemma next_payload_live:
  assumes "reader_inv r" "fault r = None"
  defines "s \<equiv> settle_owed_compaction r"
  shows "next_payload e dec r =
    (case stream_frame (unread r) of
       Inl f \<Rightarrow> (Inl f, snd (poison f s))
     | Inr None \<Rightarrow> (Inr None, compact e s)
     | Inr (Some (p, u)) \<Rightarrow>
        (let t = s\<lparr>read_offset := read_offset s + (4 + length p)\<rparr>;
             t = (if compaction_threshold \<le> read_offset t then compact e t else t)
         in case dec p of
              Inr (v, run) \<Rightarrow> (Inr (Some (v, (read_offset s + 4 + fst run, read_offset s + 4 + snd run))), t)
            | Inl f \<Rightarrow> (Inl f, snd (poison f t))))"
proof -
  have inv: "read_offset s \<le> length (buffer s)" using settle_inv [OF assms(1)] by (simp add: s_def reader_inv_def)
  have u: "unread s = unread r" by (simp add: s_def)
  have len: "length (buffer s) - read_offset s = length (unread r)" using u by (simp add: length_unread flip: u)
  show ?thesis
    using assms(2) read_prefix_unread [OF inv] slice_unread [OF inv] unfolding u
    by (simp add: next_payload_def s_def [symmetric] Let_def len prefix_length_def stream_frame_def poison_def
        split: sum.splits prod.splits)
qed

lemma stream_of_live: "fault r = None \<Longrightarrow> stream_of r = Live (unread r)"
  by (simp add: stream_of_def)

lemma poison_laws [simp]:
  "stream_of (snd (poison f r)) = Dead f" "reader_inv (snd (poison f r))" "fst (poison f r) = f"
  by (simp_all add: poison_def stream_of_def reader_inv_def compaction_threshold_def)

lemma stream_frame_Some:
  "stream_frame u = Inr (Some (p, u')) \<Longrightarrow>
     u' = drop (4 + length p) u \<and> 4 + length p \<le> length u \<and> p = take (length p) (drop 4 u)"
  by (auto simp: stream_frame_def Let_def split: if_splits)

lemma next_payload_refines:
  assumes "reader_inv r" "next_payload e dec r = (res, r')"
  shows "reader_inv r' \<and>
    stream_next (\<lambda>p. map_res fst (dec p)) (stream_of r) = (map_res (map_option fst) res, stream_of r')"
proof (cases "fault r")
  case (Some f)
  then show ?thesis using assms by (auto simp: next_payload_def stream_of_def)
next
  case None
  define s where "s = settle_owed_compaction r"
  have s: "reader_inv s" "unread s = unread r" "fault s = None" "\<not> deferred_compaction s"
    using settle_inv [OF assms(1)] None by (simp_all add: s_def)
  note eq = assms(2) [unfolded next_payload_live [OF assms(1) None], folded s_def]
  show ?thesis
  proof (cases "stream_frame (unread r)")
    case (Inl f)
    then show ?thesis using eq None by (auto simp: stream_of_def [of r])
  next
    case (Inr res0)
    show ?thesis
    proof (cases res0)
      case None
      then show ?thesis using eq Inr s \<open>fault r = None\<close> compact_inv [of s e]
        by (auto simp: stream_of_def reader_inv_def)
    next
      case (Some pu)
      obtain p u where pu: "pu = (p, u)" by (cases pu)
      have u: "u = drop (4 + length p) (unread s)" "4 + length p \<le> length (unread s)"
        using stream_frame_Some [of "unread r" p u] Inr Some pu s by auto
      define t where "t = s\<lparr>read_offset := read_offset s + (4 + length p)\<rparr>"
      define t' where "t' = (if compaction_threshold \<le> read_offset t then compact e t else t)"
      have t: "read_offset t \<le> length (buffer t)" "fault t = None" "unread t = u" "\<not> deferred_compaction t"
        using u s by (auto simp: t_def unread_def reader_inv_def add.commute)
      then have t': "reader_inv t'" "fault t' = None" "unread t' = u"
        using compact_inv [of t e] by (auto simp: t'_def reader_inv_def)
      from eq have "(case dec p of
              Inr (v, run) \<Rightarrow> (Inr (Some (v, (read_offset s + 4 + fst run, read_offset s + 4 + snd run))), t')
            | Inl f \<Rightarrow> (Inl f, snd (poison f t'))) = (res, r')"
        using Inr Some pu unfolding t'_def t_def by (simp add: Let_def)
      then show ?thesis using t' Inr Some pu None
        by (auto simp: stream_of_live split: sum.splits prod.splits)
    qed
  qed
qed

lemma append_chunk_refines:
  assumes "reader_inv r"
  shows "reader_inv (append_chunk d r) \<and> stream_of (append_chunk d r) = stream_append d (stream_of r)"
proof (cases "fault r")
  case None
  define s where "s = settle_owed_compaction r"
  have "reader_inv s" "unread s = unread r" "fault s = None"
    using settle_inv [OF assms] None by (simp_all add: s_def)
  then have "stream_of (s\<lparr>buffer := buffer s @ d\<rparr>) = Live (unread r @ d)" "reader_inv (s\<lparr>buffer := buffer s @ d\<rparr>)"
    by (auto simp: stream_of_live reader_inv_def unread_def)
  then show ?thesis using None by (simp add: append_chunk_def Let_def stream_of_live flip: s_def)
qed (use assms in \<open>simp add: append_chunk_def stream_of_def\<close>)

text \<open>A span answered by an eliding call can be read out of the buffer after the call: its compaction
  is put off.\<close>

lemma next_payload_span:
  assumes "reader_inv r" "next_payload True dec r = (Inr (Some (v, run)), r')"
  obtains p u a b where "fault r = None" "stream_frame (unread r) = Inr (Some (p, u))"
    "dec p = Inr (v, (a, b))" "\<And>bs. slice_get p a b = Some bs \<Longrightarrow> reader_bytes r' run = bs"
proof -
  have live: "fault r = None" using assms(2) by (cases "fault r") (auto simp: next_payload_def)
  define s where "s = settle_owed_compaction r"
  have s: "read_offset s \<le> length (buffer s)" "unread s = unread r"
    using settle_inv [OF assms(1)] by (simp_all add: s_def reader_inv_def)
  note eq = assms(2) [unfolded next_payload_live [OF assms(1) live], folded s_def]
  obtain p u where pu: "stream_frame (unread r) = Inr (Some (p, u))"
    using eq by (auto split: sum.splits option.splits)
  then obtain a b where ab: "dec p = Inr (v, (a, b))" "run = (read_offset s + 4 + a, read_offset s + 4 + b)"
    and buf: "buffer r' = buffer s"
    using eq by (auto simp: Let_def compact_def split: sum.splits if_splits)
  have p: "p = take (length p) (drop 4 (unread s))" "4 + length p \<le> length (unread s)"
    using stream_frame_Some [OF pu] s by auto
  have "reader_bytes r' run = bs" if "slice_get p a b = Some bs" for bs
  proof -
    have "a \<le> b" "b \<le> length p" "bs = take (b - a) (drop a p)" using that by (auto simp: slice_get_Some)
    moreover have "drop a p = take (length p - a) (drop (read_offset s + 4 + a) (buffer s))"
      by (subst p(1)) (simp add: drop_take unread_def ac_simps)
    ultimately show ?thesis using p(2) s(1) ab(2)
      by (simp add: reader_bytes_def slice_get_def buf length_unread take_take min_def)
  qed
  with live pu ab that show thesis by blast
qed

section \<open>Streams of frames\<close>

lemma foldl_be_bytes:
  "foldl (\<lambda>v b. push_bit 8 v OR ucast b) v (be_bytes n w) = push_bit (8 * n) v OR take_bit (8 * n) (w :: u32)"
proof (induction n arbitrary: v)
  case (Suc n)
  have "push_bit (8 * n) (push_bit 8 v OR ucast (ucast (drop_bit (8 * n) w) :: u8)) OR take_bit (8 * n) w
      = push_bit (8 * Suc n) v OR take_bit (8 * Suc n) w"
    by (rule bit_word_eqI) (auto simp: bit_simps ac_simps)
  then show ?case using Suc.IH by simp
qed simp

lemma from_be_bytes [simp]: "from_be_bytes (be_bytes 4 w) = w"
  by (simp add: from_be_bytes_def foldl_be_bytes take_bit_word_eq_self)

text \<open>The calls a receive loop makes, in any order.\<close>

datatype reader_op = Chunk bytes | Poll

fun chunks :: "reader_op list \<Rightarrow> bytes" where
  "chunks [] = []"
| "chunks (Chunk d # ops) = d @ chunks ops"
| "chunks (Poll # ops) = chunks ops"

fun run_stream :: "(bytes \<Rightarrow> wire_error + 'a) \<Rightarrow> reader_op list \<Rightarrow> stream \<Rightarrow> (wire_error + 'a option) list \<times> stream"
  where
  "run_stream dec [] st = ([], st)"
| "run_stream dec (Chunk d # ops) st = run_stream dec ops (stream_append d st)"
| "run_stream dec (Poll # ops) st =
    (case stream_next dec st of (res, st') \<Rightarrow> case run_stream dec ops st' of (out, st'') \<Rightarrow> (res # out, st''))"

text \<open>A sequence of calls on a decoder given by its two operations.\<close>

fun run_with ::
  "(bytes \<Rightarrow> 's \<Rightarrow> 's) \<Rightarrow> ('s \<Rightarrow> (wire_error + 'a option) \<times> 's) \<Rightarrow> reader_op list \<Rightarrow> 's \<Rightarrow>
    (wire_error + 'a option) list \<times> 's" where
  "run_with app poll [] s = ([], s)"
| "run_with app poll (Chunk d # ops) s = run_with app poll ops (app d s)"
| "run_with app poll (Poll # ops) s =
    (case poll s of (res, s') \<Rightarrow> case run_with app poll ops s' of (out, s'') \<Rightarrow> (res # out, s''))"

text \<open>What the receive loops rely on: a decoder whose two operations keep its invariant and refine
  the stream.\<close>

locale stream_decoder =
  fixes app :: "bytes \<Rightarrow> 's \<Rightarrow> 's"
    and poll :: "'s \<Rightarrow> (wire_error + 'a option) \<times> 's"
    and inv :: "'s \<Rightarrow> bool"
    and abs :: "'s \<Rightarrow> stream"
    and dec :: "bytes \<Rightarrow> wire_error + 'a"
  assumes app_refines: "inv s \<Longrightarrow> inv (app d s) \<and> abs (app d s) = stream_append d (abs s)"
    and poll_refines: "inv s \<Longrightarrow> poll s = (res, s') \<Longrightarrow> inv s' \<and> stream_next dec (abs s) = (res, abs s')"
begin

lemma run_refines:
  "inv s \<Longrightarrow> inv (snd (run_with app poll ops s)) \<and>
    run_stream dec ops (abs s) = (fst (run_with app poll ops s), abs (snd (run_with app poll ops s)))"
proof (induction ops arbitrary: s)
  case (Cons op ops)
  show ?case
  proof (cases op)
    case (Chunk d)
    then show ?thesis using Cons.IH [of "app d s"] app_refines [OF Cons.prems, of d] by simp
  next
    case Poll
    obtain res s' where s': "poll s = (res, s')" by (cases "poll s")
    with Cons.IH [of s'] poll_refines [OF Cons.prems s'] Poll show ?thesis by (simp add: split_beta)
  qed
qed simp

end

text \<open>The messages among the answers, when no answer is a fault.\<close>

fun delivered :: "(wire_error + 'a option) list \<Rightarrow> 'a list option" where
  "delivered [] = Some []"
| "delivered (Inl e # out) = None"
| "delivered (Inr None # out) = delivered out"
| "delivered (Inr (Some x) # out) = map_option (Cons x) (delivered out)"

locale framed_codec =
  fixes dec :: "bytes \<Rightarrow> wire_error + 'm"
    and enc :: "'m \<Rightarrow> bytes"
    and ok :: "'m \<Rightarrow> bool"
  assumes frame: "ok m \<Longrightarrow> \<exists>p. enc m = be_bytes 4 (word_of_nat (length p) :: u32) @ p \<and>
    length p \<le> max_frame_payload_length \<and> dec p = Inr m"
begin

lemma prefix_value: "n \<le> max_frame_payload_length \<Longrightarrow> unat (word_of_nat n :: u32) = n"
  by (simp add: max_frame_payload_length_def unat_of_nat take_bit_eq_mod)

lemma next_whole: "ok m \<Longrightarrow> stream_next dec (Live (enc m @ u)) = (Inr (Some m), Live u)"
  using frame [of m] by (auto simp: stream_frame_def Let_def prefix_value)

lemma next_partial:
  assumes "ok m" "length u < length (enc m)" "u @ v = enc m @ w"
  shows "stream_next dec (Live u) = (Inr None, Live u)"
proof -
  obtain p where p: "enc m = be_bytes 4 (word_of_nat (length p) :: u32) @ p" "length p \<le> max_frame_payload_length"
    using frame [OF assms(1)] by blast
  have "take 4 u = be_bytes 4 (word_of_nat (length p) :: u32)" if "4 \<le> length u"
    using arg_cong [OF assms(3), of "take 4"] that p by simp
  then have "stream_frame u = Inr None"
    using assms(2) p by (auto simp: stream_frame_def Let_def prefix_value [OF p(2)])
  then show ?thesis by simp
qed

lemma run_prefix:
  assumes "\<forall>m\<in>set ms. ok m" "u @ chunks ops @ tail = concat (map enc ms)"
  shows "\<exists>k rest. k \<le> length ms \<and> delivered (fst (run_stream dec ops (Live u))) = Some (take k ms) \<and>
    snd (run_stream dec ops (Live u)) = Live rest \<and> rest @ tail = concat (map enc (drop k ms))"
  using assms
proof (induction ops arbitrary: u ms)
  case Nil
  then show ?case by (intro exI [of _ 0] exI [of _ u]) simp
next
  case (Cons op ops)
  show ?case
  proof (cases op)
    case (Chunk d)
    then show ?thesis using Cons.IH [of ms "u @ d"] Cons.prems by simp
  next
    case Poll
    have same: ?thesis if "stream_next dec (Live u) = (Inr None, Live u)"
      using Cons.IH [of ms u] Cons.prems that Poll by (auto simp: split_beta)
    show ?thesis
    proof (cases ms)
      case Nil
      then show ?thesis using Cons.prems by (intro same) (simp add: stream_frame_def)
    next
      case (Cons m ms')
      show ?thesis
      proof (cases "length u < length (enc m)")
        case True
        then show ?thesis using Cons.prems \<open>ms = m # ms'\<close> by (intro same next_partial [of m]) auto
      next
        case False
        then obtain u' where u': "u = enc m @ u'"
          using Cons.prems(2) \<open>ms = m # ms'\<close> by (auto simp: append_eq_append_conv_if split: if_splits)
             (metis append_take_drop_id)
        then obtain k rest where "k \<le> length ms'" "delivered (fst (run_stream dec ops (Live u'))) = Some (take k ms')"
          "snd (run_stream dec ops (Live u')) = Live rest" "rest @ tail = concat (map enc (drop k ms'))"
          using Cons.IH [of ms' u'] Cons.prems \<open>ms = m # ms'\<close> Poll by auto
        then show ?thesis using next_whole [of m u'] u' Cons.prems \<open>ms = m # ms'\<close> Poll
          by (intro exI [of _ "Suc k"] exI [of _ rest]) (simp add: split_beta)
      qed
    qed
  qed
qed

lemma polls_drain:
  "\<forall>m\<in>set ms. ok m \<Longrightarrow> length ms \<le> n \<Longrightarrow>
    delivered (fst (run_stream dec (replicate n Poll) (Live (concat (map enc ms))))) = Some ms"
proof (induction n arbitrary: ms)
  case (Suc n)
  show ?case
  proof (cases ms)
    case Nil
    then show ?thesis using Suc.IH [of "[]"] by (simp add: stream_frame_def split_beta)
  next
    case (Cons m ms')
    then show ?thesis using Suc next_whole [of m "concat (map enc ms')"] by (simp add: split_beta)
  qed
qed simp

lemma run_stream_append:
  "run_stream dec (ops @ ops') st =
    (case run_stream dec ops st of (out, st') \<Rightarrow> case run_stream dec ops' st' of (out', st'') \<Rightarrow> (out @ out', st''))"
proof (induction ops arbitrary: st)
  case (Cons op ops)
  then show ?case by (cases op) (auto split: prod.splits)
qed simp

lemma delivered_append:
  "delivered out = Some xs \<Longrightarrow> delivered out' = Some ys \<Longrightarrow> delivered (out @ out') = Some (xs @ ys)"
  by (induction out arbitrary: xs rule: delivered.induct) auto

lemma run_complete:
  assumes "\<forall>m\<in>set ms. ok m" "chunks ops = concat (map enc ms)"
  shows "delivered (fst (run_stream dec (ops @ replicate (length ms) Poll) (Live []))) = Some ms"
proof -
  obtain k where k: "k \<le> length ms" "delivered (fst (run_stream dec ops (Live []))) = Some (take k ms)"
    "snd (run_stream dec ops (Live [])) = Live (concat (map enc (drop k ms)))"
    using run_prefix [OF assms(1), of "[]" ops "[]"] assms(2) by auto
  have "delivered (fst (run_stream dec (replicate (length ms) Poll) (Live (concat (map enc (drop k ms)))))) =
      Some (drop k ms)"
    using assms(1) by (intro polls_drain) (auto dest: in_set_dropD)
  from delivered_append [OF k(2) this] k(3) show ?thesis by (simp add: run_stream_append split_beta)
qed

end

lemma wire_length_of_nat: "wire_length n = word_of_nat n"
proof -
  have "wire_length n = word_of_nat (take_bit 32 n)"
    by (simp add: wire_length_def and_u32 take_bit_eq_mod)
  then show ?thesis by (auto intro!: bit_word_eqI simp: bit_simps)
qed

text \<open>The messages whose frame a receiver takes: the body is within the cap.\<close>

definition frame_ok :: "wire_message \<Rightarrow> bool" where
  "frame_ok m \<longleftrightarrow> wf_message m \<and> wire_byte_count m \<le> 4 + max_frame_payload_length"

interpretation frames: framed_codec decode encode frame_ok
proof
  fix m
  assume m: "frame_ok m"
  have "length (encode m) = wire_byte_count m"
    using length_frame_bytes [of m "opaque_run m"] m opaque_run_none [of m]
    by (auto simp: encode_frame wire_byte_count_run frame_ok_def wf_message_ids)
  then have "length (payload_bytes m (opaque_run m)) \<le> max_frame_payload_length"
    using m by (simp add: encode_frame frame_bytes_def frame_ok_def)
  moreover have "decode (payload_bytes m (opaque_run m)) = Inr m"
    using m by (simp add: frame_ok_def decode_payload)
  ultimately show "\<exists>p. encode m = be_bytes 4 (word_of_nat (length p) :: u32) @ p \<and>
      length p \<le> max_frame_payload_length \<and> decode p = Inr m"
    by (auto simp: encode_frame frame_bytes_def wire_length_of_nat)
qed

section \<open>The terminal decoder refines the stream\<close>

definition decoder_inv :: "frame_decoder \<Rightarrow> bool" where
  "decoder_inv fd \<longleftrightarrow> reader_inv (fd_reader fd)"

definition decoder_stream :: "frame_decoder \<Rightarrow> stream" where
  "decoder_stream fd = stream_of (fd_reader fd)"

definition run_decoder ::
  "reader_op list \<Rightarrow> frame_decoder \<Rightarrow> (wire_error + wire_message option) list \<times> frame_decoder" where
  "run_decoder = run_with decoder_append next_message"

lemma run_decoder_simps [simp]:
  "run_decoder [] fd = ([], fd)"
  "run_decoder (Chunk d # ops) fd = run_decoder ops (decoder_append d fd)"
  "run_decoder (Poll # ops) fd =
    (case next_message fd of (res, fd') \<Rightarrow> case run_decoder ops fd' of (out, fd'') \<Rightarrow> (res # out, fd''))"
  by (simp_all add: run_decoder_def)

lemma decoder_init: "decoder_inv decoder_new" "decoder_stream decoder_new = Live []"
  by (simp_all add: decoder_inv_def decoder_stream_def decoder_new_def reader_inv_init stream_of_init)

lemma decoder_append_refines:
  "decoder_inv fd \<Longrightarrow> decoder_inv (decoder_append d fd) \<and>
    decoder_stream (decoder_append d fd) = stream_append d (decoder_stream fd)"
  by (simp add: decoder_inv_def decoder_stream_def decoder_append_def append_chunk_refines)

lemma map_res_comp: "map_res f (map_res g x) = map_res (\<lambda>y. f (g y)) x"
  by (cases x) simp_all

lemma map_res_ident: "map_res (\<lambda>x. x) y = y"
  by (cases y) simp_all

lemma next_inner_refines:
  assumes "decoder_inv fd" "next_inner e fd = (res, fd')"
  shows "decoder_inv fd' \<and>
    stream_next (\<lambda>p. if e then map_res fst (decode_leaving_opaque_run p) else decode p) (decoder_stream fd) =
      (map_res (map_option fst) res, decoder_stream fd')"
proof -
  let ?dec = "\<lambda>p. if e then decode_leaving_opaque_run p else map_res (\<lambda>m. (m, (0, 0))) (decode p)"
  obtain r' where r': "next_payload e ?dec (fd_reader fd) = (res, r')" "fd' = fd\<lparr>fd_reader := r'\<rparr>"
    using assms(2) by (auto simp: next_inner_def split: prod.splits)
  have "(\<lambda>p. map_res fst (?dec p)) = (\<lambda>p. if e then map_res fst (decode_leaving_opaque_run p) else decode p)"
    by (auto simp: fun_eq_iff map_res_comp map_res_ident)
  with next_payload_refines [OF _ r'(1)] assms(1) r'(2) show ?thesis
    by (simp add: decoder_inv_def decoder_stream_def)
qed

lemma next_message_refines:
  assumes "decoder_inv fd" "next_message fd = (res, fd')"
  shows "decoder_inv fd' \<and> stream_next decode (decoder_stream fd) = (res, decoder_stream fd')"
  using assms next_inner_refines [OF assms(1), of False] by (auto simp: next_message_def split: prod.splits)

interpretation fdec: stream_decoder decoder_append next_message decoder_inv decoder_stream decode
  by unfold_locales (auto simp: decoder_append_refines dest: next_message_refines)

lemmas run_decoder_refines = fdec.run_refines [folded run_decoder_def]

lemma poisoned_run:
  assumes "decoder_inv fd" "fault (fd_reader fd) = Some e"
  shows "run_decoder ops fd = (replicate (count_list ops Poll) (Inl e), fd)"
proof (induction ops)
  case (Cons op ops)
  then show ?case using assms
    by (cases op) (simp_all add: decoder_append_def append_chunk_def next_message_def next_inner_def next_payload_def)
qed simp

lemma next_message_fault:
  assumes "decoder_inv fd" "next_message fd = (Inl e, fd')"
  shows "fault (fd_reader fd') = Some e"
proof -
  have "decoder_stream fd' = Dead e"
    using next_message_refines [OF assms] by (cases "decoder_stream fd") (auto split: sum.splits option.splits)
  then show ?thesis by (auto simp: decoder_stream_def stream_of_def split: option.splits)
qed

lemma stream_next_elided:
  "stream_next (\<lambda>p. map_res fst (decode_leaving_opaque_run p)) st =
    (case stream_next decode st of (res, st') \<Rightarrow> (map_res (map_option without_run) res, st'))"
proof (cases st)
  case (Live u)
  have "map_res fst (decode_leaving_opaque_run p) = map_res without_run (decode p)" for p
    using decode_elides [of p] by (auto split: sum.splits)
  then show ?thesis by (auto simp: Live map_res_def split: sum.splits option.splits)
qed simp

lemmas frame_eval = frame_ok_def wire_byte_count_def max_frame_payload_length_def encode_frame frame_bytes_def
  payload_bytes_def wire_length_of_nat be_bytes_unfold

section \<open>Properties\<close>

text \<open>C30. The buffer is a stream: for every sequence of received chunks and polls, the answers of the
  decoder, with its cursor, its compaction and its poisoning, are those of the plain stream of unread
  bytes, and the invariant (cursor inside the buffer, consumed head below the threshold unless a
  compaction is owed, nothing held after a fault) holds throughout.\<close>

theorem run_decoder_is_stream:
  "decoder_inv (snd (run_decoder ops decoder_new)) \<and>
    run_stream decode ops (Live []) =
      (fst (run_decoder ops decoder_new), decoder_stream (snd (run_decoder ops decoder_new)))"
  using run_decoder_refines [OF decoder_init(1), of ops] by (simp add: decoder_init)

text \<open>However the network cuts the byte stream and however polls are interleaved with it, a decoder
  that has received a prefix of the frames of \<open>ms\<close> has answered no fault and has delivered exactly a
  prefix of \<open>ms\<close>, in order.\<close>

theorem frames_in_order:
  assumes "\<forall>m\<in>set ms. frame_ok m" "chunks ops @ tail = concat (map encode ms)"
  shows "\<exists>k\<le>length ms. delivered (fst (run_decoder ops decoder_new)) = Some (take k ms)"
  using frames.run_prefix [OF assms(1), of "[]" ops tail] assms(2) run_decoder_refines [OF decoder_init(1), of ops]
  by (auto simp: decoder_init)

theorem frames_in_order_witness:
  "\<exists>k\<le>length [Bell, Progress 1 50].
    delivered (fst (run_decoder [Chunk [0, 0], Poll, Chunk [0, 1, 22, 0], Poll] decoder_new)) =
      Some (take k [Bell, Progress 1 50])"
  by (rule frames_in_order [where tail = "[0, 0, 3, 32, 1, 50]"]) (simp_all add: frame_eval)

text \<open>Once all bytes have arrived, one poll per message is enough to have them all, whatever was
  polled before.\<close>

theorem frames_complete:
  assumes "\<forall>m\<in>set ms. frame_ok m" "chunks ops = concat (map encode ms)"
  shows "delivered (fst (run_decoder (ops @ replicate (length ms) Poll) decoder_new)) = Some ms"
  using frames.run_complete [OF assms]
    run_decoder_refines [OF decoder_init(1), of "ops @ replicate (length ms) Poll"]
  by (simp add: decoder_init)

theorem frames_complete_witness:
  "delivered (fst (run_decoder ([Chunk [0, 0, 0], Poll, Chunk [1, 22, 0, 0, 0, 3, 32, 1, 50]] @
      replicate (length [Bell, Progress 1 50]) Poll) decoder_new)) = Some [Bell, Progress 1 50]"
  by (rule frames_complete) (simp_all add: frame_eval)

text \<open>Fail-stop: after the first fault every later poll answers the same fault, nothing a peer
  sends is kept, and the buffer stays empty.\<close>

theorem decoder_fail_stop:
  assumes "next_message (snd (run_decoder before decoder_new)) = (Inl e, fd')"
  shows "run_decoder after fd' = (replicate (count_list after Poll) (Inl e), fd') \<and> decoder_buffered fd' = 0"
proof -
  have inv: "decoder_inv (snd (run_decoder before decoder_new))"
    using run_decoder_refines [OF decoder_init(1)] by simp
  note fault = next_message_fault [OF inv assms]
  have "decoder_inv fd'" using next_message_refines [OF inv assms] by simp
  with poisoned_run [OF this fault] fault show ?thesis
    by (auto simp: decoder_inv_def reader_inv_def decoder_buffered_def buffered_byte_count_def)
qed

theorem decoder_fail_stop_witness:
  "\<exists>fd'. next_message (snd (run_decoder [Chunk [255, 0, 0, 0]] decoder_new)) = (Inl (FrameTooLarge 0xFF000000), fd') \<and>
    run_decoder [Poll, Chunk [1], Poll] fd' = (replicate (count_list [Poll, Chunk [1], Poll] Poll) (Inl (FrameTooLarge 0xFF000000)), fd') \<and>
    decoder_buffered fd' = 0"
proof -
  obtain fd' where "next_message (snd (run_decoder [Chunk [255, 0, 0, 0]] decoder_new)) =
      (Inl (FrameTooLarge 0xFF000000), fd')"
    by (simp add: decoder_new_def reader_init_def decoder_append_def append_chunk_def settle_owed_compaction_def
        Let_def next_message_def next_inner_def next_payload_def prefix_length_def read_prefix_def slice_get_def
        from_be_bytes_def max_frame_payload_length_def poison_def)
  with decoder_fail_stop [OF this, of "[Poll, Chunk [1], Poll]"] show ?thesis by blast
qed

text \<open>Polling without copying: the eliding poll answers what the copying poll answers, the message
  without its byte run, leaves the same stream behind, and the span it answers reads exactly the run
  out of the decoder's own buffer.\<close>

theorem next_message_leaving_agrees:
  assumes "decoder_inv fd" "next_message fd = (res, fd1)" "next_message_leaving_opaque_run fd = (res', fd2)"
  shows "decoder_stream fd2 = decoder_stream fd1 \<and>
    (case res of
       Inl e \<Rightarrow> res' = Inl e
     | Inr None \<Rightarrow> res' = Inr None
     | Inr (Some m) \<Rightarrow> (\<exists>run. res' = Inr (Some (without_run m, run)) \<and> run_bytes fd2 run = opaque_run m))"
proof -
  have st: "stream_next decode (decoder_stream fd) = (res, decoder_stream fd1)"
    using next_message_refines [OF assms(1,2)] by simp
  have el: "(map_res (map_option without_run) res, decoder_stream fd1) =
      (map_res (map_option fst) res', decoder_stream fd2)"
    using next_inner_refines [OF assms(1), of True res' fd2] assms(3) st stream_next_elided [of "decoder_stream fd"]
    by (simp add: next_message_leaving_opaque_run_def)
  show ?thesis
  proof (cases "\<exists>m. res = Inr (Some m)")
    case True
    then obtain m where m: "res = Inr (Some m)" by blast
    then obtain v run where v: "res' = Inr (Some (v, run))" "v = without_run m"
      using el by (cases res') (auto simp: eq_commute [of "Some _"])
    then obtain r' where r': "next_payload True decode_leaving_opaque_run (fd_reader fd) = (Inr (Some (v, run)), r')"
      "fd2 = fd\<lparr>fd_reader := r'\<rparr>"
      using assms(3) by (auto simp: next_message_leaving_opaque_run_def next_inner_def split: prod.splits)
    obtain p u a b where p: "fault (fd_reader fd) = None" "stream_frame (unread (fd_reader fd)) = Inr (Some (p, u))"
      "decode_leaving_opaque_run p = Inr (v, (a, b))"
      "\<And>bs. slice_get p a b = Some bs \<Longrightarrow> reader_bytes r' run = bs"
      using next_payload_span [OF _ r'(1)] assms(1) unfolding decoder_inv_def by blast
    have "decode p = Inr m"
      using st m p(1,2) by (auto simp: decoder_stream_def stream_of_def split: sum.splits)
    then have "slice_get p a b = Some (opaque_run m)" using decode_elides [of p] p(3) by auto
    with p(4) show ?thesis using el m v r' by (auto simp: run_bytes_def)
  next
    case False
    then show ?thesis using el by (cases res; cases res') (auto split: option.splits)
  qed
qed

theorem next_message_leaving_agrees_witness:
  "\<exists>res fd1 res' fd2. next_message (snd (run_decoder [Chunk (encode (Input [65]))] decoder_new)) = (res, fd1) \<and>
    next_message_leaving_opaque_run (snd (run_decoder [Chunk (encode (Input [65]))] decoder_new)) = (res', fd2) \<and>
    decoder_stream fd2 = decoder_stream fd1"
proof -
  let ?fd = "snd (run_decoder [Chunk (encode (Input [65]))] decoder_new)"
  have "decoder_inv ?fd" using run_decoder_refines [OF decoder_init(1)] by blast
  from next_message_leaving_agrees [OF this] show ?thesis
    by (cases "next_message ?fd"; cases "next_message_leaving_opaque_run ?fd") blast
qed

end
