(* ===== verification/Mux_Envelope.thy ===== *)
theory Mux_Envelope
  imports Framing
begin

text \<open>
  The multiplexing envelope, \<open>slopdesk-wire/src/mux/envelope.rs\<close>, the channel classes of
  \<open>mux/mod.rs\<close> and the streaming envelope decoder \<open>mux/decoder.rs\<close>, which is the prefixed reader
  of \<open>Framing\<close> over a different payload codec.
\<close>

section \<open>Frames\<close>

definition min_mux_frame_length :: nat where
  "min_mux_frame_length = 4 + 1"

datatype mux_frame_type = TChannelOpen | TChannelOpenAck | TChannelData | TChannelClose | TWindowAdjust

definition mux_type_from_byte :: "u8 \<Rightarrow> mux_frame_type option" where
  "mux_type_from_byte b =
    (if b = 1 then Some TChannelOpen
     else if b = 2 then Some TChannelOpenAck
     else if b = 3 then Some TChannelData
     else if b = 4 then Some TChannelClose
     else if b = 5 then Some TWindowAdjust
     else None)"

fun mux_type_as_byte :: "mux_frame_type \<Rightarrow> u8" where
  "mux_type_as_byte TChannelOpen = 1"
| "mux_type_as_byte TChannelOpenAck = 2"
| "mux_type_as_byte TChannelData = 3"
| "mux_type_as_byte TChannelClose = 4"
| "mux_type_as_byte TWindowAdjust = 5"

datatype mux_close_reason = Retired | SubscriberEvicted

definition from_byte_or_retired :: "u8 \<Rightarrow> mux_close_reason" where
  "from_byte_or_retired b = (if b = 1 then SubscriberEvicted else Retired)"

fun close_reason_as_byte :: "mux_close_reason \<Rightarrow> u8" where
  "close_reason_as_byte Retired = 0"
| "close_reason_as_byte SubscriberEvicted = 1"

datatype mux_channel_class = Pane | Workspace

definition class_from_byte :: "u8 \<Rightarrow> mux_channel_class option" where
  "class_from_byte b = (if b = 0 then Some Pane else if b = 1 then Some Workspace else None)"

fun class_as_byte :: "mux_channel_class \<Rightarrow> u8" where
  "class_as_byte Pane = 0"
| "class_as_byte Workspace = 1"

datatype mux_frame =
    ChannelOpen u32 raw_uuid int u8 "rstring option"
  | ChannelOpenAck u32 bool int
  | ChannelData u32 bytes
  | ChannelClose u32 mux_close_reason
  | WindowAdjust u32 u32

fun channel_id :: "mux_frame \<Rightarrow> u32" where
  "channel_id (ChannelOpen c _ _ _ _) = c"
| "channel_id (ChannelOpenAck c _ _) = c"
| "channel_id (ChannelData c _) = c"
| "channel_id (ChannelClose c _) = c"
| "channel_id (WindowAdjust c _) = c"

fun mux_type :: "mux_frame \<Rightarrow> mux_frame_type" where
  "mux_type (ChannelOpen _ _ _ _ _) = TChannelOpen"
| "mux_type (ChannelOpenAck _ _ _) = TChannelOpenAck"
| "mux_type (ChannelData _ _) = TChannelData"
| "mux_type (ChannelClose _ _) = TChannelClose"
| "mux_type (WindowAdjust _ _) = TWindowAdjust"

fun opaque_payload :: "mux_frame \<Rightarrow> bytes" where
  "opaque_payload (ChannelData _ p) = p"
| "opaque_payload _ = []"

section \<open>Encoding\<close>

fun mux_encode_body :: "mux_frame \<Rightarrow> bytes \<Rightarrow> byte_writer \<Rightarrow> byte_writer" where
  "mux_encode_body (ChannelOpen _ sid seq cls cwd) payload w =
    (let w = put_bytes sid w;
         w = put_i64 seq w;
         w = put_u8 cls w
     in case cwd of Some s \<Rightarrow> put_length_prefixed_str s w | None \<Rightarrow> w)"
| "mux_encode_body (ChannelOpenAck _ accepted seq) payload w = put_i64 seq (put_bool accepted w)"
| "mux_encode_body (ChannelData _ _) payload w = put_bytes payload w"
| "mux_encode_body (ChannelClose _ reason) payload w =
    (if reason \<noteq> Retired then put_u8 (close_reason_as_byte reason) w else w)"
| "mux_encode_body (WindowAdjust _ n) payload w = put_u32 n w"

definition mux_encode_into :: "mux_frame \<Rightarrow> bytes \<Rightarrow> byte_writer \<Rightarrow> byte_writer" where
  "mux_encode_into f payload w =
    (let w = put_u32 0 w;
         w = put_u32 (channel_id f) w;
         w = put_u8 (mux_type_as_byte (mux_type f)) w;
         w = mux_encode_body f payload w;
         inner_length = u32_try_or_max (writer_len w - prefix_length)
     in patch_u32 0 inner_length w)"

fun encoded_hint_body :: "mux_frame \<Rightarrow> nat" where
  "encoded_hint_body (ChannelOpen _ _ _ _ cwd) =
    session_id_byte_count + 8 + 1 + (case cwd of None \<Rightarrow> 0 | Some c \<Rightarrow> 2 + str_len c)"
| "encoded_hint_body (ChannelOpenAck _ _ _) = 1 + 8"
| "encoded_hint_body (ChannelData _ payload) = length payload"
| "encoded_hint_body (ChannelClose _ _) = 1"
| "encoded_hint_body (WindowAdjust _ _) = 4"

definition encoded_hint :: "mux_frame \<Rightarrow> nat" where
  "encoded_hint f = prefix_length + min_mux_frame_length + encoded_hint_body f"

definition mux_encode :: "mux_frame \<Rightarrow> bytes" where
  "mux_encode f = into_vec (mux_encode_into f (opaque_payload f) (writer_with_capacity (encoded_hint f)))"

definition encoded_byte_count_with_payload :: "mux_frame \<Rightarrow> nat \<Rightarrow> nat" where
  "encoded_byte_count_with_payload f payload_len =
    writer_len (mux_encode_into f [] (writer_borrowing [])) + payload_len"

definition encode_with_payload_into :: "mux_frame \<Rightarrow> bytes \<Rightarrow> bytes \<Rightarrow> nat \<times> bytes" where
  "encode_with_payload_into f payload out =
    (let needed = encoded_byte_count_with_payload f (length payload) in
     if length out < needed then (needed, out)
     else let w = mux_encode_into f payload (writer_borrowing out)
          in (writer_len w, lent_buffer w))"

section \<open>Decoding\<close>

definition done_frame :: "mux_frame \<Rightarrow> (mux_frame \<times> range) reader" where
  "done_frame f = rreturn (f, (0, 0))"

definition decode_open_cwd :: "(rstring option \<Rightarrow> mux_frame) \<Rightarrow> (mux_frame \<times> range) reader" where
  "decode_open_cwd k r =
    (if bytes_remaining r = 0 then done_frame (k None) r
     else rbind read_u16 (\<lambda>len. rbind (read_bytes (unat len)) (\<lambda>bs r.
       if bytes_remaining r \<noteq> 0 then Inl (malformed ''channelOpen: trailing cwd bytes'')
       else if unat len = 0 then done_frame (k None) r
       else case from_utf8 bs of
              None \<Rightarrow> Inl (malformed ''channelOpen: invalid cwd UTF-8'')
            | Some s \<Rightarrow> done_frame (k (Some s)) r)) r)"

definition decode_open :: "u32 \<Rightarrow> (mux_frame \<times> range) reader" where
  "decode_open c =
    rbind (read_bytes session_id_byte_count) (\<lambda>id_bytes. rbind read_i64 (\<lambda>seq. rbind read_u8 (\<lambda>cls.
      if length id_bytes \<noteq> 16 then (\<lambda>r. Inl (malformed ''channelOpen: invalid sessionID bytes''))
      else decode_open_cwd (ChannelOpen c id_bytes seq cls))))"

definition decode_open_ack :: "u32 \<Rightarrow> (mux_frame \<times> range) reader" where
  "decode_open_ack c =
    rbind read_bool (\<lambda>accepted r.
      if bytes_remaining r = 0 then done_frame (ChannelOpenAck c accepted 0) r
      else rbind read_i64 (\<lambda>seq r.
        if bytes_remaining r \<noteq> 0 then Inl (malformed ''channelOpenAck: trailing bytes'')
        else done_frame (ChannelOpenAck c accepted seq) r) r)"

definition decode_data :: "u32 \<Rightarrow> bool \<Rightarrow> (mux_frame \<times> range) reader" where
  "decode_data c elide r =
    (let start = position r in
     case remaining r of (payload, r') \<Rightarrow>
       Inr ((ChannelData c (if elide then [] else payload), (start, start + length payload)), r'))"

definition decode_close :: "u32 \<Rightarrow> (mux_frame \<times> range) reader" where
  "decode_close c r =
    (if bytes_remaining r = 0 then done_frame (ChannelClose c Retired) r
     else rbind read_u8 (\<lambda>b r.
       if bytes_remaining r \<noteq> 0 then Inl (malformed ''channelClose: trailing bytes'')
       else done_frame (ChannelClose c (from_byte_or_retired b)) r) r)"

fun mux_decode_arms :: "mux_frame_type \<Rightarrow> u32 \<Rightarrow> bool \<Rightarrow> (mux_frame \<times> range) reader" where
  "mux_decode_arms TChannelOpen c elide = decode_open c"
| "mux_decode_arms TChannelOpenAck c elide = decode_open_ack c"
| "mux_decode_arms TChannelData c elide = decode_data c elide"
| "mux_decode_arms TChannelClose c elide = decode_close c"
| "mux_decode_arms TWindowAdjust c elide = rbind read_u32 (\<lambda>n. done_frame (WindowAdjust c n))"

definition mux_decode_inner :: "bytes \<Rightarrow> bool \<Rightarrow> wire_error + (mux_frame \<times> range)" where
  "mux_decode_inner inner elide =
    map_res fst
      (rbind read_u32 (\<lambda>c. rbind read_u8 (\<lambda>t.
         case mux_type_from_byte t of
           None \<Rightarrow> (\<lambda>r. Inl (UnknownMessageType t))
         | Some ty \<Rightarrow> mux_decode_arms ty c elide)) (reader_new inner))"

definition mux_decode :: "bytes \<Rightarrow> wire_error + mux_frame" where
  "mux_decode inner = map_res fst (mux_decode_inner inner False)"

definition decode_leaving_payload :: "bytes \<Rightarrow> wire_error + (mux_frame \<times> range)" where
  "decode_leaving_payload inner = mux_decode_inner inner True"

section \<open>The streaming decoder\<close>

record mux_frame_decoder =
  md_reader :: prefixed_reader

definition mux_decoder_new :: mux_frame_decoder where
  "mux_decoder_new = \<lparr>md_reader = reader_init\<rparr>"

definition mux_append :: "bytes \<Rightarrow> mux_frame_decoder \<Rightarrow> mux_frame_decoder" where
  "mux_append d md = md\<lparr>md_reader := append_chunk d (md_reader md)\<rparr>"

definition mux_buffered :: "mux_frame_decoder \<Rightarrow> nat" where
  "mux_buffered md = buffered_byte_count (md_reader md)"

definition mux_next_inner ::
  "bool \<Rightarrow> mux_frame_decoder \<Rightarrow> (wire_error + (mux_frame \<times> range) option) \<times> mux_frame_decoder" where
  "mux_next_inner elide md =
    (case next_payload elide
            (\<lambda>inner. if elide then decode_leaving_payload inner
                     else map_res (\<lambda>f. (f, (0, 0))) (mux_decode inner)) (md_reader md) of
       (res, r) \<Rightarrow> (res, md\<lparr>md_reader := r\<rparr>))"

definition next_frame :: "mux_frame_decoder \<Rightarrow> (wire_error + mux_frame option) \<times> mux_frame_decoder" where
  "next_frame md = (case mux_next_inner False md of (res, md') \<Rightarrow> (map_res (map_option fst) res, md'))"

definition next_frame_leaving_payload ::
  "mux_frame_decoder \<Rightarrow> (wire_error + (mux_frame \<times> range) option) \<times> mux_frame_decoder" where
  "next_frame_leaving_payload md = mux_next_inner True md"

definition mux_payload_bytes :: "mux_frame_decoder \<Rightarrow> range \<Rightarrow> bytes" where
  "mux_payload_bytes md payload = reader_bytes (md_reader md) payload"

section \<open>The layout, as one byte string per frame\<close>

fun mux_body_bytes :: "mux_frame \<Rightarrow> bytes \<Rightarrow> bytes" where
  "mux_body_bytes (ChannelOpen _ sid seq cls cwd) p =
    sid @ i64_bytes seq @ [cls] @ (case cwd of None \<Rightarrow> [] | Some s \<Rightarrow> str16_bytes s)"
| "mux_body_bytes (ChannelOpenAck _ acc seq) p = [if acc then 1 else 0] @ i64_bytes seq"
| "mux_body_bytes (ChannelData _ _) p = p"
| "mux_body_bytes (ChannelClose _ reason) p = (if reason = Retired then [] else [close_reason_as_byte reason])"
| "mux_body_bytes (WindowAdjust _ n) p = be_bytes 4 n"

definition mux_inner_bytes :: "mux_frame \<Rightarrow> bytes \<Rightarrow> bytes" where
  "mux_inner_bytes f p = be_bytes 4 (channel_id f) @ [mux_type_as_byte (mux_type f)] @ mux_body_bytes f p"

definition mux_frame_bytes :: "mux_frame \<Rightarrow> bytes \<Rightarrow> bytes" where
  "mux_frame_bytes f p = be_bytes 4 (u32_try_or_max (length (mux_inner_bytes f p))) @ mux_inner_bytes f p"

text \<open>The values a frame can have by its field types, with a working directory that fits its length
  field. An empty working directory is an absent one on the far side.\<close>

fun wf_frame :: "mux_frame \<Rightarrow> bool" where
  "wf_frame (ChannelOpen _ sid seq _ cwd) =
    (uuid_ok sid \<and> i64_ok seq \<and> (case cwd of None \<Rightarrow> True | Some s \<Rightarrow> str16_ok s))"
| "wf_frame (ChannelOpenAck _ _ seq) = i64_ok seq"
| "wf_frame _ = True"

fun norm_frame :: "mux_frame \<Rightarrow> mux_frame" where
  "norm_frame (ChannelOpen c sid seq cls cwd) = ChannelOpen c sid seq cls (if cwd = Some [] then None else cwd)"
| "norm_frame f = f"

fun without_payload :: "mux_frame \<Rightarrow> mux_frame" where
  "without_payload (ChannelData c _) = ChannelData c []"
| "without_payload f = f"

fun carries_payload :: "mux_frame \<Rightarrow> bool" where
  "carries_payload (ChannelData _ _) = True"
| "carries_payload _ = False"

section \<open>The encoder writes the layout\<close>

lemma mux_encode_body_slice:
  assumes "writer_room w (length pre + length (mux_body_bytes f p))"
  shows "mux_encode_body f p (put_slice pre w) = put_slice (pre @ mux_body_bytes f p) w"
proof -
  note join = put_slice_join [OF assms] put_str_join [OF assms]
  show ?thesis
    using join by (cases f) (auto simp: put_defs Let_def i64_bytes_def split: option.split)
qed

lemma mux_encode_into_slice:
  assumes "writer_room w (length (mux_frame_bytes f p))"
  shows "mux_encode_into f p w =
    patch_u32 0 (u32_try_or_max (writer_len w + length (mux_inner_bytes f p)))
      (put_slice (be_bytes 4 (0 :: u32) @ mux_inner_bytes f p) w)"
proof -
  let ?pre = "be_bytes 4 (0 :: u32) @ be_bytes 4 (channel_id f) @ [mux_type_as_byte (mux_type f)]"
  have room: "writer_room w (length ?pre + length (mux_body_bytes f p))"
    using assms by (simp add: mux_frame_bytes_def mux_inner_bytes_def)
  have "put_slice [mux_type_as_byte (mux_type f)] (put_slice (be_bytes 4 (channel_id f)) (put_slice (be_bytes 4 (0 :: u32)) w))
      = put_slice ?pre w"
    using put_slice_join [OF room] by simp
  with mux_encode_body_slice [OF room] show ?thesis
    by (simp add: mux_encode_into_def put_u32_def put_u8_def Let_def mux_inner_bytes_def prefix_length_def
        add.left_commute)
qed

lemma mux_encode_frame: "mux_encode f = mux_frame_bytes f (opaque_payload f)"
  by (simp add: mux_encode_def mux_encode_into_slice writer_room_def writer_with_capacity_def writer_len_def
      put_slice_def patch_u32_def into_vec_def overwrite_def mux_frame_bytes_def)

text \<open>A writer with no room still counts.\<close>

lemma writer_len_puts [simp]:
  "writer_len (put_u8 a w) = writer_len w + 1" "writer_len (put_bool b w) = writer_len w + 1"
  "writer_len (put_u32 c w) = writer_len w + 4" "writer_len (put_i64 d w) = writer_len w + 8"
  "writer_len (put_bytes bs w) = writer_len w + length bs"
  "writer_len (put_length_prefixed_str s w) = writer_len w + length (str16_bytes s)"
  "writer_len (patch_u32 off v w) = writer_len w"
  by (simp_all add: put_defs put_length_prefixed_str_def str16_bytes_def Let_def)
    (simp add: patch_u32_def writer_len_def split: sink.split)

lemma mux_encode_body_len: "writer_len (mux_encode_body f p w) = writer_len w + length (mux_body_bytes f p)"
  by (cases f) (auto simp: Let_def split: option.split)

lemma mux_body_length: "carries_payload f \<or> p = [] \<Longrightarrow> length (mux_body_bytes f p) = length (mux_body_bytes f []) + length p"
  by (cases f) auto

lemma encoded_byte_count_exact:
  "carries_payload f \<or> p = [] \<Longrightarrow> encoded_byte_count_with_payload f (length p) = length (mux_frame_bytes f p)"
  using mux_body_length [of f p]
  by (simp add: encoded_byte_count_with_payload_def mux_encode_into_def Let_def mux_encode_body_len
      mux_frame_bytes_def mux_inner_bytes_def writer_borrowing_def writer_len_def [of "\<lparr>bw_sink = _\<rparr>"])

lemma mux_encode_lent:
  assumes "carries_payload f \<or> p = []"
  shows "encode_with_payload_into f p out =
    (length (mux_frame_bytes f p),
     if length (mux_frame_bytes f p) \<le> length out
     then mux_frame_bytes f p @ drop (length (mux_frame_bytes f p)) out else out)"
proof (cases "length (mux_frame_bytes f p) \<le> length out")
  case True
  then have "writer_room (writer_borrowing out) (length (mux_frame_bytes f p))"
    by (simp add: writer_room_def writer_borrowing_def)
  then have "mux_encode_into f p (writer_borrowing out) =
      \<lparr>bw_sink = Borrowed (overwrite out 0 (mux_frame_bytes f p)) (length (mux_frame_bytes f p))\<rparr>"
    using True by (subst mux_encode_into_slice)
      (simp_all add: writer_borrowing_def writer_len_def put_slice_def patch_u32_def overwrite_def
        mux_frame_bytes_def Let_def)
  then show ?thesis using True
    by (simp add: encode_with_payload_into_def encoded_byte_count_exact [OF assms] lent_buffer_def
        writer_len_def overwrite_def Let_def)
qed (simp add: encode_with_payload_into_def Let_def encoded_byte_count_exact [OF assms])

lemma without_payload_simps [simp]:
  "mux_frame_bytes (without_payload f) p = mux_frame_bytes f p"
  "carries_payload (without_payload f) = carries_payload f"
  by (cases f; simp add: mux_frame_bytes_def mux_inner_bytes_def)+

lemma opaque_payload_none: "\<not> carries_payload f \<Longrightarrow> opaque_payload f = []"
  by (cases f) auto

section \<open>The decoder reads the layout\<close>

lemma done_frame_apply [simp]: "done_frame f r = Inr ((f, (0, 0)), r)"
  by (simp add: done_frame_def)

lemma mux_type_round [simp]: "mux_type_from_byte (mux_type_as_byte t) = Some t"
  by (cases t) (simp_all add: mux_type_from_byte_def)

lemma str_len_zero: "str_len s = 0 \<longleftrightarrow> s = []"
  by (cases s) (auto simp: len_utf8_def split: if_splits)

lemma read_cwd:
  assumes "str16_ok s"
  shows "decode_open_cwd k (cursor pre (str16_bytes s)) =
    Inr ((k (if s = [] then None else Some s), (0, 0)), cursor (pre @ str16_bytes s) [])"
proof -
  have s: "wf_str s" "str_len s < 65536" using assms by (auto simp: str16_ok_def)
  have "read_bytes (str_len s) (cursor q (as_bytes s)) = Inr (as_bytes s, cursor (q @ as_bytes s) [])" for q
    using read_bytes_append [of "str_len s" "as_bytes s" q "[]"] by simp
  then show ?thesis using s assms str_len_zero [of s]
    by (auto simp: decode_open_cwd_def str16_bytes_ok)
qed

lemma read_id [simp]:
  "uuid_ok u \<Longrightarrow> read_bytes session_id_byte_count (cursor pre (u @ post)) = Inr (u, cursor (pre @ u) post)"
  by (simp add: uuid_ok_def)

lemma close_reason_round [simp]: "from_byte_or_retired (close_reason_as_byte x) = x"
  by (cases x) (simp_all add: from_byte_or_retired_def)

lemma mux_decode_frame_bytes:
  assumes "wf_frame f"
  shows "mux_decode (mux_inner_bytes f (opaque_payload f)) = Inr (norm_frame f)"
proof -
  have "decode_open_cwd k (cursor pre []) = Inr ((k None, (0, 0)), cursor pre [])" for k pre
    by (simp add: decode_open_cwd_def)
  then show ?thesis using assms
    by (cases f)
      (auto simp: mux_decode_def mux_decode_inner_def mux_inner_bytes_def reader_new_cursor decode_open_def
        decode_open_ack_def decode_data_def decode_close_def mux_type_from_byte_def read_cwd uuid_ok_def session_id_byte_count_def Let_def
        split: option.split)
qed

lemma tail_frames:
  "decode_open c r = Inr ((f, run), r') \<Longrightarrow> run = (0, 0) \<and> without_payload f = f \<and> opaque_payload f = []"
  "decode_open_ack c r = Inr ((f, run), r') \<Longrightarrow> run = (0, 0) \<and> without_payload f = f \<and> opaque_payload f = []"
  "decode_close c r = Inr ((f, run), r') \<Longrightarrow> run = (0, 0) \<and> without_payload f = f \<and> opaque_payload f = []"
  "rbind read_u32 (\<lambda>n. done_frame (WindowAdjust c n)) r = Inr ((f, run), r') \<Longrightarrow>
     run = (0, 0) \<and> without_payload f = f \<and> opaque_payload f = []"
  by (auto simp: decode_open_def decode_open_cwd_def decode_open_ack_def decode_close_def rbind_Inr
      split: if_splits option.splits)

lemma slice_get_0 [simp]: "slice_get xs 0 0 = Some []"
  by (simp add: slice_get_def)

lemma mux_arms_elide:
  "case mux_decode_arms ty c False (cursor pre rest) of
     Inl e \<Rightarrow> mux_decode_arms ty c True (cursor pre rest) = Inl e
   | Inr ((f, (a, b)), r) \<Rightarrow> mux_decode_arms ty c True (cursor pre rest) = Inr ((without_payload f, (a, b)), r) \<and>
       slice_get (pre @ rest) a b = Some (opaque_payload f)"
proof (cases "ty = TChannelData")
  case True
  then show ?thesis using slice_get_mid [of pre rest "[]"] by (simp add: decode_data_def Let_def)
next
  case False
  then have same: "mux_decode_arms ty c True = mux_decode_arms ty c False" by (cases ty) auto
  show ?thesis
  proof (cases "mux_decode_arms ty c False (cursor pre rest)")
    case (Inr x)
    then obtain f run r' where x: "x = ((f, run), r')" by (cases x) auto
    have "run = (0, 0) \<and> without_payload f = f \<and> opaque_payload f = []"
      using Inr [unfolded x] False
      by (cases ty; simp only: mux_decode_arms.simps) (erule tail_frames | simp)+
    then show ?thesis using Inr x same by simp
  qed (simp add: same)
qed

lemma mux_decode_elides:
  "case mux_decode inner of
     Inl e \<Rightarrow> decode_leaving_payload inner = Inl e
   | Inr f \<Rightarrow> (\<exists>a b. decode_leaving_payload inner = Inr (without_payload f, (a, b)) \<and>
       slice_get inner a b = Some (opaque_payload f))"
proof (cases "read_u32 (cursor [] inner)")
  case (Inl e)
  then show ?thesis
    by (simp add: mux_decode_def decode_leaving_payload_def mux_decode_inner_def reader_new_cursor)
next
  case (Inr cr)
  obtain c r1 where cr: "cr = (c, r1)" by (cases cr)
  obtain p q where p: "inner = p @ q" "r1 = cursor p q"
    using f32.get_obtain [OF Inr [unfolded cr]] by auto
  note defs = mux_decode_def decode_leaving_payload_def mux_decode_inner_def reader_new_cursor read_u8_def
  show ?thesis
  proof (cases q)
    case Nil
    then show ?thesis using Inr cr p by (simp add: defs)
  next
    case (Cons t q')
    show ?thesis
    proof (cases "mux_type_from_byte t")
      case None
      then show ?thesis using Inr cr p Cons by (simp add: defs)
    next
      case (Some ty)
      then show ?thesis using Inr cr p Cons mux_arms_elide [of ty c "p @ [t]" q']
        by (auto simp: defs split: sum.splits)
    qed
  qed
qed

section \<open>The streaming decoder\<close>

text \<open>The frames a receiver takes verbatim: well formed, within the cap, no empty working directory.\<close>

definition mux_frame_ok :: "mux_frame \<Rightarrow> bool" where
  "mux_frame_ok f \<longleftrightarrow> wf_frame f \<and> norm_frame f = f \<and> length (mux_encode f) \<le> 4 + max_frame_payload_length"

interpretation mframes: framed_codec mux_decode mux_encode mux_frame_ok
proof
  fix f
  assume f: "mux_frame_ok f"
  let ?p = "mux_inner_bytes f (opaque_payload f)"
  have "length ?p \<le> max_frame_payload_length"
    using f by (simp add: mux_frame_ok_def mux_encode_frame mux_frame_bytes_def)
  moreover have "mux_decode ?p = Inr f" using f by (simp add: mux_frame_ok_def mux_decode_frame_bytes)
  ultimately show "\<exists>p. mux_encode f = be_bytes 4 (word_of_nat (length p) :: u32) @ p \<and>
      length p \<le> max_frame_payload_length \<and> mux_decode p = Inr f"
    by (auto simp: mux_encode_frame mux_frame_bytes_def u32_try_or_max_def max_frame_payload_length_def)
qed

definition mux_decoder_inv :: "mux_frame_decoder \<Rightarrow> bool" where
  "mux_decoder_inv md \<longleftrightarrow> reader_inv (md_reader md)"

definition mux_decoder_stream :: "mux_frame_decoder \<Rightarrow> stream" where
  "mux_decoder_stream md = stream_of (md_reader md)"

definition run_mux ::
  "reader_op list \<Rightarrow> mux_frame_decoder \<Rightarrow> (wire_error + mux_frame option) list \<times> mux_frame_decoder" where
  "run_mux = run_with mux_append next_frame"

lemma mux_decoder_init: "mux_decoder_inv mux_decoder_new" "mux_decoder_stream mux_decoder_new = Live []"
  by (simp_all add: mux_decoder_inv_def mux_decoder_stream_def mux_decoder_new_def reader_inv_init stream_of_init)

lemma next_frame_refines:
  assumes "mux_decoder_inv md" "next_frame md = (res, md')"
  shows "mux_decoder_inv md' \<and> stream_next mux_decode (mux_decoder_stream md) = (res, mux_decoder_stream md')"
proof -
  obtain res0 r' where r': "next_payload False (\<lambda>p. map_res (\<lambda>f. (f, (0, 0))) (mux_decode p)) (md_reader md) = (res0, r')"
    "md' = md\<lparr>md_reader := r'\<rparr>" "res = map_res (map_option fst) res0"
    using assms(2) by (auto simp: next_frame_def mux_next_inner_def split: prod.splits)
  with next_payload_refines [OF _ r'(1)] assms(1) show ?thesis
    by (simp add: mux_decoder_inv_def mux_decoder_stream_def map_res_comp map_res_ident)
qed

interpretation mdec: stream_decoder mux_append next_frame mux_decoder_inv mux_decoder_stream mux_decode
  by unfold_locales
    (auto simp: mux_decoder_inv_def mux_decoder_stream_def mux_append_def append_chunk_refines
      dest: next_frame_refines [unfolded mux_decoder_inv_def mux_decoder_stream_def])

lemmas run_mux_refines = mdec.run_refines [folded run_mux_def]

section \<open>Properties\<close>

text \<open>Every well-formed envelope survives the wire: decoding the inner run of the encoded envelope
  gives the frame back, an empty working directory read as an absent one.\<close>

theorem mux_decode_encode:
  assumes "wf_frame f"
  shows "mux_decode (drop 4 (mux_encode f)) = Inr (norm_frame f)"
  using mux_decode_frame_bytes [OF assms] by (simp add: mux_encode_frame mux_frame_bytes_def)

theorem mux_decode_encode_witness:
  "mux_decode (drop 4 (mux_encode (ChannelOpen 3 new_session_id (- 1) 0 (Some [0x2F, 0x20AC])))) =
    Inr (norm_frame (ChannelOpen 3 new_session_id (- 1) 0 (Some [0x2F, 0x20AC])))"
  by (rule mux_decode_encode)
    (simp add: uuid_ok_def new_session_id_def i64_ok_def str16_ok_def is_scalar_def len_utf8_def)

text \<open>A close always closes: a close frame for any channel with any one-byte reason, known or not,
  or with none, decodes to a close of that channel, and an unknown reason is the conservative one.\<close>

theorem close_always_closes:
  "mux_decode (be_bytes 4 c @ [4]) = Inr (ChannelClose c Retired) \<and>
   mux_decode (be_bytes 4 c @ [4, b]) = Inr (ChannelClose c (if b = 1 then SubscriberEvicted else Retired))"
  by (simp add: mux_decode_def mux_decode_inner_def reader_new_cursor read_u8_def mux_type_from_byte_def
      decode_close_def from_byte_or_retired_def)

text \<open>The envelope encoder over a lent buffer, sized by running the encoder on an empty one, is the
  ordinary encoder, and the eliding decoder is the copying one: same faults, same frame without its
  payload, and a range that selects exactly the payload.\<close>

theorem mux_apart_agrees:
  "encode_with_payload_into (without_payload f) (opaque_payload f) out =
    (length (mux_encode f),
     if length (mux_encode f) \<le> length out then mux_encode f @ drop (length (mux_encode f)) out else out) \<and>
   (case mux_decode inner of
      Inl e \<Rightarrow> decode_leaving_payload inner = Inl e
    | Inr g \<Rightarrow> (\<exists>a b. decode_leaving_payload inner = Inr (without_payload g, (a, b)) \<and>
        slice_get inner a b = Some (opaque_payload g)))"
  using mux_encode_lent [of "without_payload f" "opaque_payload f" out] opaque_payload_none [of f]
    mux_decode_elides [of inner]
  by (cases "carries_payload f") (simp_all add: mux_encode_frame)

text \<open>However the network cuts the byte stream of the frames \<open>fs\<close> and however polls are
  interleaved, once all bytes have arrived and one poll per frame has been made the envelope decoder
  has answered exactly \<open>fs\<close>, in order and without a fault.\<close>

theorem mux_frames_complete:
  assumes "\<forall>f\<in>set fs. mux_frame_ok f" "chunks ops = concat (map mux_encode fs)"
  shows "delivered (fst (run_mux (ops @ replicate (length fs) Poll) mux_decoder_new)) = Some fs"
  using mframes.run_complete [OF assms]
    run_mux_refines [OF mux_decoder_init(1), of "ops @ replicate (length fs) Poll"]
  by (simp add: mux_decoder_init)

theorem mux_frames_complete_witness:
  "delivered (fst (run_mux ([Chunk [0, 0], Poll, Chunk [0, 5, 0, 0, 0, 7, 4, 0], Poll, Chunk [0, 0, 6, 0, 0, 0, 7, 3, 65]] @
      replicate (length [ChannelClose 7 Retired, ChannelData 7 [65]]) Poll) mux_decoder_new)) =
    Some [ChannelClose 7 Retired, ChannelData 7 [65]]"
  by (rule mux_frames_complete)
    (simp_all add: mux_frame_ok_def mux_encode_frame mux_frame_bytes_def mux_inner_bytes_def u32_try_or_max_def
      be_bytes_unfold max_frame_payload_length_def)

end
