(* ===== verification/Mux_Channels.thy ===== *)
theory Mux_Channels
  imports Prelude
begin

text \<open>
  The channel table of one mux connection, \<open>slopdesk-wire/src/mux/channels.rs\<close>: the id allocator, the
  close handshake, the ring that bounds the retained terminal entries, and the demux rule.
\<close>

section \<open>The table\<close>

definition terminal_ring_cap :: nat where
  "terminal_ring_cap = 1024"

datatype channel_state = Idle_State | Open | HalfClosed | Closed

record channel_table =
  states :: "u32 \<rightharpoonup> channel_state"
  last_allocated :: u32
  terminal_ring :: "u32 list"
  terminal_ring_head :: nat

definition table_new :: channel_table where
  "table_new = \<lparr>states = Map.empty, last_allocated = 0, terminal_ring = [], terminal_ring_head = 0\<rparr>"

definition note_terminal :: "u32 \<Rightarrow> channel_table \<Rightarrow> channel_table" where
  "note_terminal i t =
    (if length (terminal_ring t) < terminal_ring_cap
     then t\<lparr>terminal_ring := terminal_ring t @ [i]\<rparr>
     else
       let t = (if terminal_ring_head t < length (terminal_ring t)
                then let evicted = terminal_ring t ! terminal_ring_head t;
                         t = t\<lparr>terminal_ring := (terminal_ring t)[terminal_ring_head t := i]\<rparr>
                     in if evicted \<noteq> i then t\<lparr>states := (states t)(evicted := None)\<rparr> else t
                else t);
           t = t\<lparr>terminal_ring_head := terminal_ring_head t + 1\<rparr>
       in if terminal_ring_head t = terminal_ring_cap then t\<lparr>terminal_ring_head := 0\<rparr> else t)"

text \<open>\<open>u32::saturating_add\<close>.\<close>

definition u32_sat_add :: "u32 \<Rightarrow> u32 \<Rightarrow> u32" where
  "u32_sat_add a b = (if unat a + unat b < 2 ^ 32 then a + b else - 1)"

definition allocate :: "channel_table \<Rightarrow> u32 \<times> channel_table" where
  "allocate t =
    (let i = (if last_allocated t = 0 then 1 else u32_sat_add (last_allocated t) 2)
     in (i, t\<lparr>last_allocated := i, states := (states t)(i \<mapsto> Idle_State)\<rparr>))"

definition open_channel :: "u32 \<Rightarrow> channel_table \<Rightarrow> channel_table" where
  "open_channel i t =
    (case states t i of
       None \<Rightarrow> t\<lparr>states := (states t)(i \<mapsto> Open)\<rparr>
     | Some Idle_State \<Rightarrow> t\<lparr>states := (states t)(i \<mapsto> Open)\<rparr>
     | Some Open \<Rightarrow> t\<lparr>states := (states t)(i \<mapsto> Open)\<rparr>
     | Some HalfClosed \<Rightarrow> t
     | Some Closed \<Rightarrow> t)"

definition reject :: "u32 \<Rightarrow> channel_table \<Rightarrow> channel_state \<times> channel_table" where
  "reject i t =
    (let t = (if states t i = Some Idle_State \<or> states t i = Some Open
              then note_terminal i (t\<lparr>states := (states t)(i \<mapsto> Closed)\<rparr>) else t)
     in (case states t i of Some s \<Rightarrow> s | None \<Rightarrow> Closed, t))"

definition advance_close :: "u32 \<Rightarrow> channel_table \<Rightarrow> channel_state \<times> channel_table" where
  "advance_close i t =
    (case states t i of
       Some Idle_State \<Rightarrow> (HalfClosed, note_terminal i (t\<lparr>states := (states t)(i \<mapsto> HalfClosed)\<rparr>))
     | Some Open \<Rightarrow> (HalfClosed, note_terminal i (t\<lparr>states := (states t)(i \<mapsto> HalfClosed)\<rparr>))
     | Some HalfClosed \<Rightarrow> (Closed, t\<lparr>states := (states t)(i \<mapsto> Closed)\<rparr>)
     | Some Closed \<Rightarrow> (Closed, t)
     | None \<Rightarrow> (Closed, t))"

definition local_close :: "u32 \<Rightarrow> channel_table \<Rightarrow> channel_state \<times> channel_table" where
  "local_close i t = advance_close i t"

definition remote_close :: "u32 \<Rightarrow> channel_table \<Rightarrow> channel_state \<times> channel_table" where
  "remote_close i t = advance_close i t"

definition state_of :: "channel_table \<Rightarrow> u32 \<Rightarrow> channel_state option" where
  "state_of t i = states t i"

definition is_open :: "channel_table \<Rightarrow> u32 \<Rightarrow> bool" where
  "is_open t i \<longleftrightarrow> states t i = Some Open"

definition live_channel_ids :: "channel_table \<Rightarrow> u32 set" where
  "live_channel_ids t = {i. \<exists>s. states t i = Some s \<and> s \<noteq> Closed}"

definition state_count :: "channel_table \<Rightarrow> nat" where
  "state_count t = card (dom (states t))"

section \<open>The demux rule\<close>

datatype frame_kind = KChannelOpen | KChannelOpenAck | KChannelData | KChannelClose | KWindowAdjust

definition kind_from_wire :: "u8 \<Rightarrow> frame_kind option" where
  "kind_from_wire b =
    (if b = 1 then Some KChannelOpen
     else if b = 2 then Some KChannelOpenAck
     else if b = 3 then Some KChannelData
     else if b = 4 then Some KChannelClose
     else if b = 5 then Some KWindowAdjust
     else None)"

datatype drop_reason = NonOpenChannel | UnknownChannel

datatype routing_decision =
    DeliverData u32
  | Lifecycle u32 channel_state
  | DropFrame u32 drop_reason

definition lifecycle :: "channel_table \<Rightarrow> u32 \<Rightarrow> channel_state \<Rightarrow> routing_decision" where
  "lifecycle t i absent = Lifecycle i (case state_of t i of Some s \<Rightarrow> s | None \<Rightarrow> absent)"

fun route :: "frame_kind \<Rightarrow> u32 \<Rightarrow> bool \<Rightarrow> channel_table \<Rightarrow> routing_decision \<times> channel_table" where
  "route KChannelData i accepted t =
    (if is_open t i then (DeliverData i, t)
     else (DropFrame i (if state_of t i \<noteq> None then NonOpenChannel else UnknownChannel), t))"
| "route KChannelOpen i accepted t = (let t = open_channel i t in (lifecycle t i Open, t))"
| "route KChannelOpenAck i accepted t =
    (if accepted then
       let t = (if state_of t i \<noteq> None then open_channel i t else t) in (lifecycle t i Closed, t)
     else case reject i t of (s, t) \<Rightarrow> (Lifecycle i s, t))"
| "route KChannelClose i accepted t = (case remote_close i t of (s, t) \<Rightarrow> (Lifecycle i s, t))"
| "route KWindowAdjust i accepted t = (lifecycle t i Closed, t)"

section \<open>The table invariant\<close>

definition terminal :: "channel_table \<Rightarrow> u32 \<Rightarrow> bool" where
  "terminal t i \<longleftrightarrow> states t i = Some HalfClosed \<or> states t i = Some Closed"

text \<open>The ring is bounded and duplicate free, and it lists exactly the retained terminal ids.\<close>

definition table_inv :: "channel_table \<Rightarrow> bool" where
  "table_inv t \<longleftrightarrow> finite (dom (states t)) \<and> length (terminal_ring t) \<le> terminal_ring_cap \<and>
     terminal_ring_head t < terminal_ring_cap \<and> distinct (terminal_ring t) \<and>
     (\<forall>i. i \<in> set (terminal_ring t) \<longleftrightarrow> terminal t i)"

lemma table_inv_new: "table_inv table_new"
  by (simp add: table_inv_def table_new_def terminal_ring_cap_def terminal_def)

text \<open>The state right before the ring records a newly terminal id.\<close>

definition fresh_terminal :: "channel_table \<Rightarrow> u32 \<Rightarrow> bool" where
  "fresh_terminal t i \<longleftrightarrow> finite (dom (states t)) \<and> length (terminal_ring t) \<le> terminal_ring_cap \<and>
     terminal_ring_head t < terminal_ring_cap \<and> distinct (terminal_ring t) \<and> i \<notin> set (terminal_ring t) \<and>
     terminal t i \<and> (\<forall>j. j \<noteq> i \<longrightarrow> (j \<in> set (terminal_ring t) \<longleftrightarrow> terminal t j))"

lemma note_terminal_room:
  assumes "fresh_terminal t i" "length (terminal_ring t) < terminal_ring_cap"
  shows "note_terminal i t = t\<lparr>terminal_ring := terminal_ring t @ [i]\<rparr>"
  using assms by (simp add: note_terminal_def)

lemma note_terminal_full:
  assumes "fresh_terminal t i" "\<not> length (terminal_ring t) < terminal_ring_cap"
  shows "note_terminal i t =
    t\<lparr>states := (states t)(terminal_ring t ! terminal_ring_head t := None),
      terminal_ring := (terminal_ring t)[terminal_ring_head t := i],
      terminal_ring_head := (if terminal_ring_head t + 1 = terminal_ring_cap then 0 else terminal_ring_head t + 1)\<rparr>"
proof -
  have "terminal_ring_head t < length (terminal_ring t)" using assms by (simp add: fresh_terminal_def)
  moreover from this have "terminal_ring t ! terminal_ring_head t \<noteq> i"
    using assms by (metis fresh_terminal_def nth_mem)
  ultimately show ?thesis using assms by (simp add: note_terminal_def Let_def)
qed

lemma note_terminal_states:
  assumes "fresh_terminal t i"
  obtains "states (note_terminal i t) = states t"
  | k where "terminal t k" "k \<noteq> i" "states (note_terminal i t) = (states t)(k := None)"
proof (cases "length (terminal_ring t) < terminal_ring_cap")
  case True
  then show ?thesis using that(1) note_terminal_room [OF assms] by simp
next
  case False
  let ?k = "terminal_ring t ! terminal_ring_head t"
  have "?k \<in> set (terminal_ring t)" using False assms by (simp add: fresh_terminal_def)
  then have "terminal t ?k" "?k \<noteq> i" using assms by (auto simp: fresh_terminal_def)
  then show ?thesis using that(2) note_terminal_full [OF assms False] by simp
qed

lemma note_terminal_inv:
  assumes "fresh_terminal t i"
  shows "table_inv (note_terminal i t)"
proof (cases "length (terminal_ring t) < terminal_ring_cap")
  case True
  then show ?thesis using assms note_terminal_room [OF assms True]
    by (auto simp: table_inv_def fresh_terminal_def terminal_def)
next
  case False
  let ?h = "terminal_ring_head t" and ?r = "terminal_ring t"
  have h: "?h < length ?r" "distinct ?r" "i \<notin> set ?r" using False assms by (auto simp: fresh_terminal_def)
  have upd: "set (?r[?h := i]) = insert i (set ?r - {?r ! ?h})" "distinct (?r[?h := i])"
    using h by (auto simp: set_update_distinct intro: distinct_list_update)
  have "j \<in> set ?r - {?r ! ?h} \<longleftrightarrow> terminal (note_terminal i t) j" if "j \<noteq> i" for j
    using assms that note_terminal_full [OF assms False] by (auto simp: fresh_terminal_def terminal_def)
  moreover have "terminal (note_terminal i t) i"
    using assms h note_terminal_full [OF assms False] nth_mem [OF h(1)] by (auto simp: fresh_terminal_def terminal_def)
  ultimately have "\<forall>j. j \<in> set (?r[?h := i]) \<longleftrightarrow> terminal (note_terminal i t) j"
    unfolding upd(1) by (metis insert_iff)
  moreover have "terminal_ring (note_terminal i t) = ?r[?h := i]" "finite (dom (states (note_terminal i t)))"
    "terminal_ring_head (note_terminal i t) < terminal_ring_cap"
    using assms note_terminal_full [OF assms False] by (simp_all add: fresh_terminal_def terminal_ring_cap_def)
  ultimately show ?thesis using assms upd(2) by (simp add: table_inv_def fresh_terminal_def)
qed

section \<open>Each operation keeps the invariant\<close>

lemma fresh_terminal_update:
  assumes "table_inv t" "\<not> terminal t i" "s = HalfClosed \<or> s = Closed"
  shows "fresh_terminal (t\<lparr>states := (states t)(i \<mapsto> s)\<rparr>) i"
  using assms by (auto simp: table_inv_def fresh_terminal_def terminal_def)

lemma open_inv: "table_inv t \<Longrightarrow> table_inv (open_channel i t)"
  by (auto simp: table_inv_def open_channel_def terminal_def split: option.split channel_state.split)

lemma reject_inv: "table_inv t \<Longrightarrow> table_inv (snd (reject i t))"
  by (auto simp: reject_def Let_def terminal_def intro!: note_terminal_inv fresh_terminal_update)

lemma advance_close_inv: "table_inv t \<Longrightarrow> table_inv (snd (advance_close i t))"
proof (cases "states t i = Some Idle_State \<or> states t i = Some Open")
  case True
  assume "table_inv t"
  then show ?thesis using True
    by (auto simp: advance_close_def terminal_def intro!: note_terminal_inv fresh_terminal_update)
next
  case False
  assume "table_inv t"
  then show ?thesis using False
    by (auto simp: advance_close_def table_inv_def terminal_def split: option.splits channel_state.splits)
qed

lemma insert_live_inv:
  "table_inv t \<Longrightarrow> \<not> terminal t i \<Longrightarrow> s = Idle_State \<or> s = Open \<Longrightarrow>
    table_inv (t\<lparr>last_allocated := l, states := (states t)(i \<mapsto> s)\<rparr>)"
  by (auto simp: table_inv_def terminal_def)

lemma allocate_inv:
  assumes "table_inv t" "\<not> terminal t (fst (allocate t))"
  shows "table_inv (snd (allocate t))"
  using insert_live_inv [OF assms, of Idle_State] by (simp add: allocate_def Let_def)

lemma route_inv: "table_inv t \<Longrightarrow> table_inv (snd (route k i acc t))"
  by (cases k) (auto simp: Let_def remote_close_def open_inv reject_inv advance_close_inv split_beta)

section \<open>Sequences of frames\<close>

type_synonym arriving_frame = "frame_kind \<times> u32 \<times> bool"

fun route_all :: "arriving_frame list \<Rightarrow> channel_table \<Rightarrow> routing_decision list \<times> channel_table" where
  "route_all [] t = ([], t)"
| "route_all ((k, i, acc) # fs) t =
    (case route k i acc t of (d, t') \<Rightarrow> case route_all fs t' of (ds, t'') \<Rightarrow> (d # ds, t''))"

lemma route_all_inv: "table_inv t \<Longrightarrow> table_inv (snd (route_all fs t))"
proof (induction fs arbitrary: t)
  case (Cons f fs)
  obtain k i acc where f: "f = (k, i, acc)" by (cases f)
  show ?case using Cons.IH [OF route_inv [OF Cons.prems]] f by (simp add: split_beta)
qed simp

lemma close_states:
  assumes "table_inv t" "states (snd (advance_close i t)) j = Some s" "states t j = None \<or> (states t j \<noteq> Some s)"
  shows "j = i \<and> terminal (snd (advance_close i t)) j"
proof (cases "states t i = Some Idle_State \<or> states t i = Some Open")
  case True
  let ?u = "t\<lparr>states := (states t)(i \<mapsto> HalfClosed)\<rparr>"
  have f: "fresh_terminal ?u i" using True assms(1) by (auto intro!: fresh_terminal_update simp: terminal_def)
  have "advance_close i t = (HalfClosed, note_terminal i ?u)" using True by (auto simp: advance_close_def)
  with f assms(2,3) show ?thesis
    by (cases rule: note_terminal_states [OF f]) (auto simp: terminal_def split: if_splits)
next
  case False
  then show ?thesis using assms
    by (auto simp: advance_close_def terminal_def split: option.splits channel_state.splits if_splits)
qed

lemma reject_states:
  assumes "table_inv t" "states (snd (reject i t)) j = Some s" "states t j = None \<or> (states t j \<noteq> Some s)"
  shows "j = i \<and> terminal (snd (reject i t)) j"
proof (cases "states t i = Some Idle_State \<or> states t i = Some Open")
  case True
  let ?u = "t\<lparr>states := (states t)(i \<mapsto> Closed)\<rparr>"
  have f: "fresh_terminal ?u i" using True assms(1) by (auto intro!: fresh_terminal_update simp: terminal_def)
  have "snd (reject i t) = note_terminal i ?u" using True by (auto simp: reject_def Let_def)
  with f assms(2,3) show ?thesis
    by (cases rule: note_terminal_states [OF f]) (auto simp: terminal_def split: if_splits)
next
  case False
  then show ?thesis using assms by (auto simp: reject_def Let_def)
qed

text \<open>Only an open, or an accepting answer for a known id, makes a channel open; nothing but an open
  makes an entry.\<close>

lemma route_opens:
  assumes "table_inv t" "is_open (snd (route k i acc t)) j" "\<not> is_open t j"
  shows "j = i \<and> \<not> terminal t j \<and> (k = KChannelOpen \<or> states t j \<noteq> None)"
  using assms close_states [OF assms(1), of i j Open] reject_states [OF assms(1), of i j Open]
  by (cases k)
    (auto simp: is_open_def terminal_def Let_def remote_close_def state_of_def open_channel_def split_beta
      split: if_splits option.splits channel_state.splits)

lemma unknown_id_no_entry:
  assumes "states t i = None"
  shows "advance_close i t = (Closed, t)" "snd (reject i t) = t"
  using assms by (simp_all add: advance_close_def reject_def)

lemma route_entries:
  assumes "table_inv t" "states (snd (route k i acc t)) j = Some s" "states t j = None"
  shows "k = KChannelOpen \<and> j = i"
proof (cases k)
  case KChannelClose
  then show ?thesis using assms close_states [OF assms(1), of i j s] unknown_id_no_entry [of t i]
    by (auto simp: remote_close_def split_beta)
next
  case KChannelOpenAck
  then show ?thesis using assms reject_states [OF assms(1), of i j s] unknown_id_no_entry [of t i]
    by (auto simp: Let_def state_of_def open_channel_def split_beta split: if_splits channel_state.splits)
qed (use assms in \<open>auto simp: Let_def open_channel_def split: if_splits option.splits channel_state.splits\<close>)

lemma route_all_entries:
  assumes "table_inv t" "states (snd (route_all fs t)) j \<noteq> None" "states t j = None"
  shows "\<exists>acc. (KChannelOpen, j, acc) \<in> set fs"
  using assms
proof (induction fs arbitrary: t)
  case (Cons f fs)
  obtain k i acc where f: "f = (k, i, acc)" by (cases f)
  let ?t = "snd (route k i acc t)"
  have all: "snd (route_all (f # fs) t) = snd (route_all fs ?t)" using f by (simp add: split_beta)
  show ?case
  proof (cases "states ?t j")
    case None
    then show ?thesis using Cons.IH [OF route_inv [OF Cons.prems(1)] _ None] Cons.prems(2) all by fastforce
  next
    case (Some s)
    then show ?thesis using route_entries [OF Cons.prems(1) Some Cons.prems(3)] f by auto
  qed
qed simp

lemma dead_stays_dead:
  assumes "table_inv t" "\<not> is_open t j" "states t j = None \<or> terminal t j"
    "\<forall>f\<in>set fs. fst f = KChannelOpen \<longrightarrow> fst (snd f) \<noteq> j"
  shows "DeliverData j \<notin> set (fst (route_all fs t))"
  using assms
proof (induction fs arbitrary: t)
  case (Cons f fs)
  obtain k i acc where f: "f = (k, i, acc)" by (cases f)
  let ?t = "snd (route k i acc t)"
  have not_open: "\<not> is_open ?t j"
    using route_opens [OF Cons.prems(1), of k i acc j] Cons.prems f by auto
  moreover have "states ?t j = None \<or> terminal ?t j"
  proof (cases "states ?t j")
    case (Some s)
    have kj: "\<not> (k = KChannelOpen \<and> i = j)" using Cons.prems(4) f by simp
    show ?thesis
    proof (cases "states t j = Some s")
      case True
      then show ?thesis using Cons.prems(3) Some by (auto simp: terminal_def)
    next
      case False
      then show ?thesis
        using kj Some Cons.prems(2,3) close_states [OF Cons.prems(1) _, of i j s] reject_states [OF Cons.prems(1) _, of i j s]
        by (cases k) (auto simp: Let_def remote_close_def state_of_def open_channel_def split_beta terminal_def
            split: if_splits option.splits channel_state.splits)
    qed
  qed simp
  moreover have "fst (route k i acc t) \<noteq> DeliverData j"
    using Cons.prems(2) by (cases k) (auto simp: Let_def lifecycle_def split_beta)
  ultimately show ?case
    using Cons.IH [OF route_inv [OF Cons.prems(1)]] Cons.prems(4) f by (simp add: split_beta)
qed simp

section \<open>The allocator\<close>

fun allocs :: "nat \<Rightarrow> channel_table \<Rightarrow> u32 list" where
  "allocs 0 t = []"
| "allocs (Suc n) t = (case allocate t of (i, t') \<Rightarrow> i # allocs n t')"

lemma unat_sat_step: "unat a + 2 < 2 ^ 32 \<Longrightarrow> unat (u32_sat_add a 2) = unat a + 2"
  by (simp add: u32_sat_add_def unat_add_lem [THEN iffD1])

lemma allocs_from:
  "0 < unat (last_allocated t) \<Longrightarrow> unat (last_allocated t) + 2 * n < 2 ^ 32 \<Longrightarrow>
    map unat (allocs n t) = map (\<lambda>k. unat (last_allocated t) + 2 * (k + 1)) [0..<n]"
proof (induction n arbitrary: t)
  case (Suc n)
  let ?t = "snd (allocate t)"
  have nz: "last_allocated t \<noteq> 0" using Suc.prems(1) by auto
  have step: "unat (last_allocated ?t) = unat (last_allocated t) + 2" "fst (allocate t) = last_allocated ?t"
    using nz Suc.prems(2) by (simp_all add: allocate_def Let_def unat_sat_step)
  have "map unat (allocs n ?t) = map (\<lambda>k. unat (last_allocated t) + 2 * (Suc k + 1)) [0..<n]"
    using Suc.IH [of ?t] step(1) Suc.prems by simp
  then show ?case using step by (simp add: split_beta upt_conv_Cons map_Suc_upt [symmetric] del: upt_Suc)
qed simp

section \<open>Properties\<close>

text \<open>A peer cannot grow the table: after any frames whatsoever the invariant holds, at most 1024
  terminal entries are retained, and every entry was either there before or named by an open. Closes,
  answers, data and window grants for unknown ids leave no trace.\<close>

theorem table_stays_bounded:
  assumes "table_inv t"
  shows "table_inv (snd (route_all fs t)) \<and> card {i. terminal (snd (route_all fs t)) i} \<le> terminal_ring_cap \<and>
    dom (states (snd (route_all fs t))) \<subseteq> dom (states t) \<union> {i. \<exists>acc. (KChannelOpen, i, acc) \<in> set fs}"
proof -
  let ?t = "snd (route_all fs t)"
  have inv: "table_inv ?t" by (rule route_all_inv [OF assms])
  then have "{i. terminal ?t i} = set (terminal_ring ?t)" by (auto simp: table_inv_def)
  then have "card {i. terminal ?t i} \<le> terminal_ring_cap"
    using inv card_length [of "terminal_ring ?t"] by (simp add: table_inv_def)
  with inv route_all_entries [OF assms] show ?thesis by fastforce
qed

theorem table_stays_bounded_witness:
  "card {i. terminal (snd (route_all [(KChannelOpen, 3, True), (KChannelClose, 3, True), (KChannelClose, 9, True)] table_new)) i}
    \<le> terminal_ring_cap"
  using table_stays_bounded [OF table_inv_new] by blast

text \<open>A dead channel stays dead: once an id has reached a terminal state, an open for it changes
  nothing while it is retained, and no sequence of frames without an open for it, accepting answers
  included, ever routes data to it again.\<close>

theorem closed_channel_never_fed:
  assumes "table_inv t" "terminal t j" "\<forall>f\<in>set fs. fst f = KChannelOpen \<longrightarrow> fst (snd f) \<noteq> j"
  shows "snd (route KChannelOpen j acc t) = t \<and> DeliverData j \<notin> set (fst (route_all fs t))"
  using dead_stays_dead [OF assms(1) _ _ assms(3)] assms(2)
  by (auto simp: terminal_def is_open_def open_channel_def Let_def)

theorem closed_channel_never_fed_witness:
  "DeliverData 3 \<notin> set (fst (route_all [(KChannelData, 3, True), (KChannelOpenAck, 3, True), (KChannelData, 3, True)]
    (snd (route_all [(KChannelOpen, 3, True), (KChannelClose, 3, True)] table_new))))"
proof -
  let ?t = "snd (route_all [(KChannelOpen, 3, True), (KChannelClose, 3, True)] table_new)"
  have "terminal ?t 3"
    by (simp add: table_new_def open_channel_def remote_close_def advance_close_def note_terminal_def
        terminal_ring_cap_def terminal_def Let_def)
  moreover have "\<forall>f\<in>set [(KChannelData, 3, True), (KChannelOpenAck, 3, True), (KChannelData, 3, True)].
      fst f = KChannelOpen \<longrightarrow> fst (snd f) \<noteq> (3 :: u32)" by simp
  ultimately show ?thesis using closed_channel_never_fed [OF route_all_inv [OF table_inv_new]] by blast
qed

text \<open>The allocator hands out 1, 3, 5 and so on: the first two-to-the-thirty-first ids are odd,
  strictly increasing and so pairwise distinct, whatever happened to the table in between.\<close>

theorem allocate_odd_and_fresh:
  assumes "n \<le> 2 ^ 31"
  shows "map unat (allocs n table_new) = map (\<lambda>k. 2 * k + 1) [0..<n]"
proof (cases n)
  case (Suc m)
  let ?t = "snd (allocate table_new)"
  have first: "last_allocated ?t = 1" "fst (allocate table_new) = 1" by (simp_all add: allocate_def table_new_def)
  have "map unat (allocs m ?t) = map (\<lambda>k. 2 * Suc k + 1) [0..<m]"
    using allocs_from [of ?t m] first Suc assms by simp
  then show ?thesis using first Suc by (simp add: split_beta upt_conv_Cons map_Suc_upt [symmetric] del: upt_Suc)
qed simp

theorem allocate_odd_and_fresh_witness:
  "map unat (allocs 3 table_new) = map (\<lambda>k. 2 * k + 1) [0..<3]"
  by (rule allocate_odd_and_fresh) simp

text \<open>At exhaustion the allocator repeats itself: with the largest id handed out, the next call
  hands out the same id again and resets its entry, whatever it was, to idle.\<close>

theorem allocate_exhausted_repeats:
  assumes "last_allocated t = - 1"
  shows "fst (allocate t) = last_allocated t \<and>
    states (snd (allocate t)) (last_allocated t) = Some Idle_State"
  using assms by (simp add: allocate_def u32_sat_add_def Let_def unsigned_minus_1_eq_mask mask_eq_exp_minus_1)

theorem allocate_exhausted_repeats_witness:
  "fst (allocate (table_new\<lparr>last_allocated := - 1, states := [- 1 \<mapsto> Closed]\<rparr>)) = - 1 \<and>
   states (snd (allocate (table_new\<lparr>last_allocated := - 1, states := [- 1 \<mapsto> Closed]\<rparr>))) (- 1) = Some Idle_State"
  using allocate_exhausted_repeats [of "table_new\<lparr>last_allocated := - 1, states := [- 1 \<mapsto> Closed]\<rparr>"] by simp

end
