(* ===== verification/Mux_Flow.thy ===== *)
theory Mux_Flow
  imports Wire_Message
begin

text \<open>
  Per-channel credit flow control, \<open>slopdesk-wire/src/mux/flow.rs\<close>: the sender's window, the
  receiver's replenish decision, the host's bounded queue with its three-source pause gate, and the
  sizes all of them are derived from. The process environment is an argument of the sizes.
\<close>

section \<open>Sizes\<close>

definition half :: "int \<Rightarrow> int" where
  "half value = value div 2"

text \<open>\<open>str::parse::<i64>\<close>: an optional sign, at least one digit, and a value in range.\<close>

definition digit_of :: "char \<Rightarrow> int option" where
  "digit_of c = (let n = of_char c :: nat in if 48 \<le> n \<and> n \<le> 57 then Some (int n - 48) else None)"

fun parse_digits :: "string \<Rightarrow> int \<Rightarrow> int option" where
  "parse_digits [] acc = Some acc"
| "parse_digits (c # cs) acc =
    (case digit_of c of None \<Rightarrow> None | Some d \<Rightarrow> parse_digits cs (acc * 10 + d))"

definition parse_i64 :: "string \<Rightarrow> int option" where
  "parse_i64 s =
    (let (neg, ds) = (case s of
            c # cs \<Rightarrow> if c = CHR ''-'' then (True, cs) else if c = CHR ''+'' then (False, cs) else (False, s)
          | [] \<Rightarrow> (False, []))
     in if ds = [] then None
        else case parse_digits ds 0 of
               None \<Rightarrow> None
             | Some v \<Rightarrow> (let r = (if neg then - v else v) in if i64_ok r then Some r else None))"

type_synonym env = "string \<Rightarrow> string option"

definition env_int :: "env \<Rightarrow> string \<Rightarrow> int \<Rightarrow> int \<Rightarrow> int \<Rightarrow> int" where
  "env_int env key fallback lo hi =
    (case env key of
       None \<Rightarrow> fallback
     | Some raw \<Rightarrow>
        (case parse_i64 raw of
           None \<Rightarrow> fallback
         | Some value \<Rightarrow> if lo \<le> value \<and> value \<le> hi then value else fallback))"

definition max_channels_per_connection :: nat where
  "max_channels_per_connection = 256"

definition initial_window_bytes :: "env \<Rightarrow> int" where
  "initial_window_bytes env =
    env_int env ''SLOPDESK_MUX_WINDOW'' (64 * 1024) (16 * 1024) (16 * 1024 * 1024)"

definition max_data_message_payload_bytes :: "env \<Rightarrow> int" where
  "max_data_message_payload_bytes env = min (16 * 1024) (half (initial_window_bytes env) - 16)"

definition host_queue_capacity_bytes :: "env \<Rightarrow> int" where
  "host_queue_capacity_bytes env =
    env_int env ''SLOPDESK_MUX_HOST_QUEUE'' (64 * 1024) (8 * 1024) (8 * 1024 * 1024)"

definition detached_host_queue_capacity_bytes :: "env \<Rightarrow> int" where
  "detached_host_queue_capacity_bytes env =
    env_int env ''SLOPDESK_MUX_DETACHED_QUEUE'' (64 * 1024 * 1024) (64 * 1024) (1024 * 1024 * 1024)"

definition host_merge_cap_bytes :: "env \<Rightarrow> int" where
  "host_merge_cap_bytes env = env_int env ''SLOPDESK_MUX_MERGE_CAP'' (32 * 1024) (4 * 1024) (128 * 1024)"

definition max_output_frame_payload_bytes :: "env \<Rightarrow> int" where
  "max_output_frame_payload_bytes env = min (host_merge_cap_bytes env) (half (initial_window_bytes env) - 16)"

section \<open>The sender's window\<close>

datatype consume_result = Allowed int | Insufficient int

record flow_credit_policy =
  fc_initial_window :: int
  fc_remaining :: int

definition non_neg :: "int \<Rightarrow> int" where
  "non_neg v = (if 0 < v then v else 0)"

definition credit_new :: "int \<Rightarrow> flow_credit_policy" where
  "credit_new initial_window =
    (let start = non_neg initial_window in \<lparr>fc_initial_window = start, fc_remaining = start\<rparr>)"

definition credit_restored :: "int \<Rightarrow> int \<Rightarrow> flow_credit_policy" where
  "credit_restored initial_window rest =
    \<lparr>fc_initial_window = non_neg initial_window, fc_remaining = non_neg rest\<rparr>"

definition credit_consume :: "int \<Rightarrow> flow_credit_policy \<Rightarrow> consume_result \<times> flow_credit_policy" where
  "credit_consume bs p =
    (let want = non_neg bs in
     if fc_remaining p < want then (Insufficient (fc_remaining p), p)
     else let p = p\<lparr>fc_remaining := fc_remaining p - want\<rparr> in (Allowed (fc_remaining p), p))"

definition credit_adjust :: "int \<Rightarrow> flow_credit_policy \<Rightarrow> flow_credit_policy" where
  "credit_adjust bytes_to_add p =
    (if bytes_to_add \<le> 0 then p else p\<lparr>fc_remaining := sat_add (fc_remaining p) bytes_to_add\<rparr>)"

definition credit_is_blocked :: "flow_credit_policy \<Rightarrow> bool" where
  "credit_is_blocked p \<longleftrightarrow> fc_remaining p \<le> 0"

section \<open>The receiver's accountant\<close>

record receive_window_accountant =
  ra_initial_window :: int
  ra_pending_credit :: int

definition accountant_new :: "int \<Rightarrow> receive_window_accountant" where
  "accountant_new initial_window =
    \<lparr>ra_initial_window = non_neg initial_window, ra_pending_credit = 0\<rparr>"

definition accountant_restored :: "int \<Rightarrow> int \<Rightarrow> receive_window_accountant" where
  "accountant_restored initial_window pending =
    \<lparr>ra_initial_window = non_neg initial_window, ra_pending_credit = non_neg pending\<rparr>"

definition threshold :: "receive_window_accountant \<Rightarrow> int" where
  "threshold a =
    (if ra_initial_window a \<le> 0 then i64_max
     else let h = half (ra_initial_window a) in if 1 < h then h else 1)"

definition accountant_consume :: "int \<Rightarrow> receive_window_accountant \<Rightarrow> int option \<times> receive_window_accountant" where
  "accountant_consume bs a =
    (if ra_initial_window a \<le> 0 then (None, a)
     else let a = a\<lparr>ra_pending_credit := sat_add (ra_pending_credit a) (non_neg bs)\<rparr> in
       if ra_pending_credit a < threshold a then (None, a)
       else (Some (ra_pending_credit a), a\<lparr>ra_pending_credit := 0\<rparr>))"

section \<open>The bounded queue and its gate\<close>

record bounded_queue_policy =
  bq_capacity :: int
  bq_outstanding :: int

definition queue_new :: "int \<Rightarrow> bounded_queue_policy" where
  "queue_new capacity = \<lparr>bq_capacity = non_neg capacity, bq_outstanding = 0\<rparr>"

definition queue_restored :: "int \<Rightarrow> int \<Rightarrow> bounded_queue_policy" where
  "queue_restored capacity outstanding =
    \<lparr>bq_capacity = non_neg capacity, bq_outstanding = non_neg outstanding\<rparr>"

definition queue_set_capacity :: "int \<Rightarrow> bounded_queue_policy \<Rightarrow> bounded_queue_policy" where
  "queue_set_capacity new_capacity q = q\<lparr>bq_capacity := non_neg new_capacity\<rparr>"

definition is_full :: "bounded_queue_policy \<Rightarrow> bool" where
  "is_full q \<longleftrightarrow> bq_capacity q \<le> bq_outstanding q"

definition queue_enqueue :: "int \<Rightarrow> bounded_queue_policy \<Rightarrow> bool \<times> bounded_queue_policy" where
  "queue_enqueue bs q =
    (let q = q\<lparr>bq_outstanding := sat_add (bq_outstanding q) (non_neg bs)\<rparr> in (is_full q, q))"

definition queue_dequeue :: "int \<Rightarrow> bounded_queue_policy \<Rightarrow> bool \<times> bounded_queue_policy" where
  "queue_dequeue bs q =
    (let was_full = is_full q;
         left = bq_outstanding q - non_neg bs;
         q = q\<lparr>bq_outstanding := non_neg left\<rparr>
     in (was_full \<and> \<not> is_full q, q))"

record pausable_queue_gate =
  pg_queue :: bounded_queue_policy
  pg_replay_pause :: bool
  pg_fanout_backlog :: int
  pg_applied :: bool

definition gate_new :: "int \<Rightarrow> pausable_queue_gate" where
  "gate_new capacity =
    \<lparr>pg_queue = queue_new capacity, pg_replay_pause = False, pg_fanout_backlog = 0, pg_applied = False\<rparr>"

definition gate_restored :: "int \<Rightarrow> int \<Rightarrow> bool \<Rightarrow> int \<Rightarrow> bool \<Rightarrow> pausable_queue_gate" where
  "gate_restored capacity outstanding replay_pause fanout_backlog applied =
    \<lparr>pg_queue = queue_restored capacity outstanding, pg_replay_pause = replay_pause,
     pg_fanout_backlog = non_neg fanout_backlog, pg_applied = applied\<rparr>"

definition wants_pause :: "pausable_queue_gate \<Rightarrow> bool" where
  "wants_pause g \<longleftrightarrow> is_full (pg_queue g) \<or> pg_replay_pause g \<or> bq_capacity (pg_queue g) \<le> pg_fanout_backlog g"

definition settle :: "pausable_queue_gate \<Rightarrow> bool option \<times> pausable_queue_gate" where
  "settle g =
    (let want = wants_pause g in
     if want = pg_applied g then (None, g) else (Some want, g\<lparr>pg_applied := want\<rparr>))"

definition gate_enqueue :: "int \<Rightarrow> pausable_queue_gate \<Rightarrow> bool option \<times> pausable_queue_gate" where
  "gate_enqueue count g = settle (g\<lparr>pg_queue := snd (queue_enqueue count (pg_queue g))\<rparr>)"

definition gate_dequeue :: "int \<Rightarrow> pausable_queue_gate \<Rightarrow> bool option \<times> pausable_queue_gate" where
  "gate_dequeue count g = settle (g\<lparr>pg_queue := snd (queue_dequeue count (pg_queue g))\<rparr>)"

definition gate_set_replay_pause :: "bool \<Rightarrow> pausable_queue_gate \<Rightarrow> bool option \<times> pausable_queue_gate" where
  "gate_set_replay_pause pause g = settle (g\<lparr>pg_replay_pause := pause\<rparr>)"

definition gate_set_fanout_backlog :: "int \<Rightarrow> pausable_queue_gate \<Rightarrow> bool option \<times> pausable_queue_gate" where
  "gate_set_fanout_backlog bs g = settle (g\<lparr>pg_fanout_backlog := non_neg bs\<rparr>)"

definition gate_set_capacity :: "int \<Rightarrow> pausable_queue_gate \<Rightarrow> bool option \<times> pausable_queue_gate" where
  "gate_set_capacity new_capacity g = settle (g\<lparr>pg_queue := queue_set_capacity new_capacity (pg_queue g)\<rparr>)"

section \<open>Laws of the windows\<close>

lemma non_neg_simps [simp]: "0 \<le> non_neg v" "0 \<le> v \<Longrightarrow> non_neg v = v"
  by (simp_all add: non_neg_def)

lemma env_int_bounds: "lo \<le> fallback \<Longrightarrow> fallback \<le> hi \<Longrightarrow> lo \<le> env_int env key fallback lo hi \<and> env_int env key fallback lo hi \<le> hi"
  by (auto simp: env_int_def split: option.split)

lemma initial_window_range: "16384 \<le> initial_window_bytes env" "initial_window_bytes env \<le> 16777216"
  using env_int_bounds [of "16 * 1024" "64 * 1024" "16 * 1024 * 1024" env "''SLOPDESK_MUX_WINDOW''"]
  by (simp_all add: initial_window_bytes_def)

lemma merge_cap_range: "4096 \<le> host_merge_cap_bytes env" "host_merge_cap_bytes env \<le> 131072"
  using env_int_bounds [of "4 * 1024" "32 * 1024" "128 * 1024" env "''SLOPDESK_MUX_MERGE_CAP''"]
  by (simp_all add: host_merge_cap_bytes_def)

lemma threshold_half: "2 \<le> w \<Longrightarrow> threshold (accountant_new w) = w div 2"
  by (auto simp: threshold_def accountant_new_def half_def Let_def)

lemma credit_consume_exact:
  "0 \<le> n \<Longrightarrow> n \<le> fc_remaining p \<Longrightarrow>
    credit_consume n p = (Allowed (fc_remaining p - n), p\<lparr>fc_remaining := fc_remaining p - n\<rparr>)"
  by (simp add: credit_consume_def Let_def)

lemma credit_adjust_exact:
  "0 \<le> n \<Longrightarrow> i64_ok (fc_remaining p + n) \<Longrightarrow>
    credit_adjust n p = p\<lparr>fc_remaining := fc_remaining p + n\<rparr>"
  by (auto simp: credit_adjust_def sat_simps)

section \<open>Laws of the gate\<close>

datatype gate_op =
    Enqueue int | Dequeue int | SetReplayPause bool | SetFanoutBacklog int | SetCapacity int

fun gate_step :: "gate_op \<Rightarrow> pausable_queue_gate \<Rightarrow> bool option \<times> pausable_queue_gate" where
  "gate_step (Enqueue n) g = gate_enqueue n g"
| "gate_step (Dequeue n) g = gate_dequeue n g"
| "gate_step (SetReplayPause b) g = gate_set_replay_pause b g"
| "gate_step (SetFanoutBacklog n) g = gate_set_fanout_backlog n g"
| "gate_step (SetCapacity n) g = gate_set_capacity n g"

text \<open>The read loop as the caller drives it: it acts only on an answer.\<close>

fun drive :: "gate_op list \<Rightarrow> bool \<Rightarrow> pausable_queue_gate \<Rightarrow> bool \<times> pausable_queue_gate" where
  "drive [] loop_paused g = (loop_paused, g)"
| "drive (op # ops) loop_paused g =
    (case gate_step op g of (ans, g') \<Rightarrow>
       drive ops (case ans of Some p \<Rightarrow> p | None \<Rightarrow> loop_paused) g')"

lemma wants_pause_applied [simp]: "wants_pause (g\<lparr>pg_applied := b\<rparr>) = wants_pause g"
  by (simp add: wants_pause_def)

lemma gate_settle_laws:
  "pg_applied (snd (settle g)) = wants_pause g" "wants_pause (snd (settle g)) = wants_pause g"
  "fst (settle g) = (if wants_pause g = pg_applied g then None else Some (wants_pause g))"
  by (simp_all add: settle_def Let_def)

lemma gate_step_settles: "\<exists>g0. gate_step op g = settle g0 \<and> pg_applied g0 = pg_applied g"
  by (cases op)
    (auto simp: gate_enqueue_def gate_dequeue_def gate_set_replay_pause_def gate_set_fanout_backlog_def
      gate_set_capacity_def)

lemma gate_step_laws:
  assumes "gate_step op g = (ans, g')"
  shows "pg_applied g' = wants_pause g'"
    and "ans = (if wants_pause g' = pg_applied g then None else Some (wants_pause g'))"
proof -
  obtain g0 where g0: "settle g0 = (ans, g')" "pg_applied g0 = pg_applied g"
    using gate_step_settles [of op g] assms by auto
  then show "pg_applied g' = wants_pause g'"
    and "ans = (if wants_pause g' = pg_applied g then None else Some (wants_pause g'))"
    using gate_settle_laws [of g0] by simp_all
qed

lemma drive_in_step:
  assumes "loop = pg_applied g" "drive ops loop g = (loop', g')"
  shows "loop' = pg_applied g' \<and> (ops \<noteq> [] \<longrightarrow> pg_applied g' = wants_pause g')"
  using assms
proof (induction ops arbitrary: loop g)
  case (Cons op ops)
  obtain ans g1 where g1: "gate_step op g = (ans, g1)" by (cases "gate_step op g")
  have l: "(case ans of Some p \<Rightarrow> p | None \<Rightarrow> loop) = pg_applied g1" and a: "pg_applied g1 = wants_pause g1"
    using gate_step_laws [OF g1] Cons.prems(1) by (auto split: if_splits)
  have d: "drive ops (case ans of Some p \<Rightarrow> p | None \<Rightarrow> loop) g1 = (loop', g')"
    using Cons.prems(2) g1 by simp
  show ?case using Cons.IH [OF l d] d a l by (cases ops) auto
qed simp

section \<open>Properties\<close>

text \<open>Whatever the environment says, the frame caps satisfy the progress invariant the flow
  control rests on: an output or input message whose payload respects its cap is at most half the
  window on the wire, that is, at most the receiver's grant threshold; and the caps leave room.\<close>

theorem frame_caps_fit_half_window:
  "0 < max_output_frame_payload_bytes env \<and> 0 < max_data_message_payload_bytes env \<and>
   (int (length bs) \<le> max_output_frame_payload_bytes env \<longrightarrow>
      int (wire_byte_count (Output seq bs)) \<le> threshold (accountant_new (initial_window_bytes env))) \<and>
   (int (length bs) \<le> max_data_message_payload_bytes env \<longrightarrow>
      int (wire_byte_count (Input bs)) \<le> threshold (accountant_new (initial_window_bytes env)))"
proof -
  have w: "16384 \<le> initial_window_bytes env" by (rule initial_window_range)
  then have "threshold (accountant_new (initial_window_bytes env)) = initial_window_bytes env div 2"
    by (simp add: threshold_half)
  then show ?thesis using w merge_cap_range(1) [of env]
    by (auto simp: max_output_frame_payload_bytes_def max_data_message_payload_bytes_def half_def wire_byte_count_def)
qed

theorem frame_caps_fit_half_window_witness:
  "int (length (replicate 3 (65 :: u8))) \<le> max_output_frame_payload_bytes (\<lambda>k. Some ''16384'') \<and>
   int (wire_byte_count (Output 1 (replicate 3 65))) \<le> threshold (accountant_new (initial_window_bytes (\<lambda>k. Some ''16384'')))"
proof -
  have "int (length (replicate 3 (65 :: u8))) \<le> max_output_frame_payload_bytes (\<lambda>k. Some ''16384'')"
    using merge_cap_range(1) [of "\<lambda>k. Some ''16384''"] initial_window_range(1) [of "\<lambda>k. Some ''16384''"]
    by (simp add: max_output_frame_payload_bytes_def half_def)
  then show ?thesis using frame_caps_fit_half_window [of "\<lambda>k. Some ''16384''" "replicate 3 65" 1] by blast
qed

text \<open>No lost wake-up: a read loop that acts exactly on the answers of the gate is, after every
  operation on any of the three sources, paused if and only if some source wants it paused.\<close>

theorem gate_never_loses_a_wakeup:
  "drive (ops @ [op]) False (gate_new capacity) = (loop_paused, g) \<Longrightarrow> loop_paused = wants_pause g"
  using drive_in_step [of False "gate_new capacity" "ops @ [op]"] by (auto simp: gate_new_def)

theorem gate_never_loses_a_wakeup_witness:
  "drive ([Enqueue 70000, SetFanoutBacklog 65536, Dequeue 70000] @ [SetFanoutBacklog 0]) False (gate_new 65536) =
     (False, gate_new 65536) \<and> False = wants_pause (gate_new 65536)"
proof -
  have d: "drive ([Enqueue 70000, SetFanoutBacklog 65536, Dequeue 70000] @ [SetFanoutBacklog 0]) False (gate_new 65536) =
     (False, gate_new 65536)"
    by (simp add: gate_new_def queue_new_def non_neg_def gate_enqueue_def gate_dequeue_def gate_set_fanout_backlog_def
        queue_enqueue_def queue_dequeue_def settle_def wants_pause_def is_full_def sat_add_def i64_clamp_def
        i64_max_def i64_min_def Let_def)
  with gate_never_loses_a_wakeup [OF d] show ?thesis by simp
qed

end
