(* ===== verification/Mux_Admission.thy ===== *)
theory Mux_Admission
  imports Mux_Channels Mux_Flow
begin

text \<open>
  What a mux connection lets past its door and what an ending channel tears down,
  \<open>slopdesk-wire/src/mux/admission.rs\<close>.
\<close>

datatype role = Client | Host

definition initiates_opens :: "role \<Rightarrow> bool" where
  "initiates_opens r \<longleftrightarrow> r = Client"

datatype link = Control_Link | Data_Link

record arrival =
  ar_role :: role
  ar_link :: link
  ar_kind :: frame_kind
  ar_registered :: bool
  ar_live_channels :: nat
  ar_prior_data_state :: "channel_state option"

datatype refusal = OverCap | Reopen

datatype ignored = OpenOnControlLink | OpenAtInitiator

datatype admission = Proceed | Refuse refusal | DropSilently ignored

definition admit :: "arrival \<Rightarrow> admission" where
  "admit a =
    (if ar_kind a \<noteq> KChannelOpen then Proceed
     else
       let responder_on_data = (ar_role a = Host \<and> ar_link a = Data_Link) in
       if responder_on_data \<and> \<not> ar_registered a \<and> max_channels_per_connection \<le> ar_live_channels a
       then Refuse OverCap
       else if ar_link a = Control_Link then DropSilently OpenOnControlLink
       else if initiates_opens (ar_role a) then DropSilently OpenAtInitiator
       else if responder_on_data \<and>
               (ar_prior_data_state a = Some Closed \<or> ar_prior_data_state a = Some HalfClosed)
       then Refuse Reopen
       else Proceed)"

datatype table_step = Hold | Local_Step | Remote_Step

record teardown =
  drop_data :: bool
  drop_control :: bool
  data_table :: table_step
  control_table :: table_step
  reap :: bool

definition poisoned :: "role \<Rightarrow> link \<Rightarrow> teardown" where
  "poisoned r l =
    (let host = (r = Host);
         on_data = (l = Data_Link);
         data = (on_data \<or> host);
         control = (\<not> on_data \<or> host)
     in \<lparr>drop_data = data, drop_control = control,
         data_table = (if data then Local_Step else Hold),
         control_table = (if control then Local_Step else Hold),
         reap = host\<rparr>)"

definition peer_close :: "role \<Rightarrow> link \<Rightarrow> teardown" where
  "peer_close r l =
    (let host_on_data = (r = Host \<and> l = Data_Link)
     in \<lparr>drop_data = (l = Data_Link), drop_control = (l = Control_Link \<or> host_on_data),
         data_table = Hold,
         control_table = (if host_on_data then Remote_Step else Hold),
         reap = host_on_data\<rparr>)"

end
