(* ===== verification/Sub_Channel.thy ===== *)
theory Sub_Channel
  imports Mux_Envelope Mux_Admission
begin

text \<open>
  One logical channel on one link, \<open>slopdesk-muxnet/src/subchannel.rs\<close>: sending in chunks across the
  credit window, reassembly of the inner frames, and the grants that follow consumption. A sender that
  finds no credit parks; here that is an answer of the look at the window, and the next look happens
  after a grant. The locks only serialise these operations, so each is one step. Whether the link took a write and
  whether the consumer still listens are arguments. The second half is the flow-controlled pipe built
  of two ends: it never deadlocks, it delivers everything in order, and it bounds what is in flight.
\<close>

section \<open>The channel\<close>

datatype channel_end = Local | Peer mux_close_reason | LinkDown | DecodeFault string

datatype send_error = SendClosed | LinkError string

fun wire_error_text :: "wire_error \<Rightarrow> string" where
  "wire_error_text (FrameTooLarge len) = ''frame too large: '' @ show_nat len"
| "wire_error_text Truncated = ''truncated''"
| "wire_error_text (UnknownMessageType b) = ''unknown message type: '' @ show_nat (unat b)"
| "wire_error_text (MalformedBody hint) = ''malformed body: '' @ hint"

record sub_channel =
  sc_channel_id :: u32
  sc_lane :: link
  sc_send_window :: "flow_credit_policy option"
  sc_receive_window :: "receive_window_accountant option"
  sc_outbound :: bytes
  sc_inbound_decoder :: frame_decoder
  sc_inbound :: bool
  sc_finished :: bool
  sc_end :: "channel_end option"

definition sub_build :: "u32 \<Rightarrow> link \<Rightarrow> int option \<Rightarrow> receive_window_accountant option \<Rightarrow> sub_channel" where
  "sub_build c lane send_window_bytes receive_window =
    \<lparr>sc_channel_id = c, sc_lane = lane, sc_send_window = map_option credit_new send_window_bytes,
     sc_receive_window = receive_window, sc_outbound = [], sc_inbound_decoder = decoder_new,
     sc_inbound = True, sc_finished = False, sc_end = None\<rparr>"

definition sub_data :: "env \<Rightarrow> u32 \<Rightarrow> sub_channel" where
  "sub_data env c =
    (let window = initial_window_bytes env in
     sub_build c Data_Link (Some window) (Some (accountant_new window)))"

definition sub_control :: "u32 \<Rightarrow> sub_channel" where
  "sub_control c = sub_build c Control_Link None None"

definition sub_with_send_window :: "u32 \<Rightarrow> link \<Rightarrow> int option \<Rightarrow> sub_channel" where
  "sub_with_send_window c lane send_window_bytes = sub_build c lane send_window_bytes None"

section \<open>Ending\<close>

definition finish_with :: "channel_end \<Rightarrow> sub_channel \<Rightarrow> sub_channel" where
  "finish_with e sc =
    (if sc_finished sc then sc else sc\<lparr>sc_finished := True, sc_end := Some e, sc_inbound := False\<rparr>)"

definition sub_finish :: "sub_channel \<Rightarrow> sub_channel" where
  "sub_finish sc = finish_with Local sc"

definition finish_closed_by_peer :: "mux_close_reason \<Rightarrow> sub_channel \<Rightarrow> sub_channel" where
  "finish_closed_by_peer reason sc = finish_with (Peer reason) sc"

definition finish_link_down :: "sub_channel \<Rightarrow> sub_channel" where
  "finish_link_down sc = finish_with LinkDown sc"

section \<open>Sending\<close>

text \<open>What the link does with a write: takes it, or fails with a reason.\<close>

type_synonym link_write = "bytes \<Rightarrow> string option"

definition write_chunk :: "link_write \<Rightarrow> bytes \<Rightarrow> sub_channel \<Rightarrow> (send_error + bytes) \<times> sub_channel" where
  "write_chunk lw chunk sc =
    (let frame = ChannelData (sc_channel_id sc) [];
         needed = encoded_byte_count_with_payload frame (length chunk);
         scratch = sc_outbound sc;
         scratch = (if length scratch < needed then scratch @ replicate (needed - length scratch) 0 else scratch)
     in case encode_with_payload_into frame chunk scratch of (written, scratch) \<Rightarrow>
          (let sc = sc\<lparr>sc_outbound := scratch\<rparr> in
           case slice_get scratch 0 written of
             None \<Rightarrow> (Inl SendClosed, sc)
           | Some bs \<Rightarrow> (case lw bs of None \<Rightarrow> (Inr bs, sc) | Some reason \<Rightarrow> (Inl (LinkError reason), sc))))"

text \<open>One look at the window under its lock: a fault, some credit taken, or nothing yet (a park).\<close>

definition try_chunk_credit :: "nat \<Rightarrow> sub_channel \<Rightarrow> (send_error + nat option) \<times> sub_channel" where
  "try_chunk_credit max_wanted sc =
    (case sc_send_window sc of
       None \<Rightarrow> (Inr None, sc)
     | Some credit \<Rightarrow>
        (let wanted = min (int max_wanted) i64_max in
         if sc_finished sc then (Inl SendClosed, sc)
         else let available = fc_remaining credit in
           if 0 < available then
             let take = (if available < wanted then available else wanted) in
             (case credit_consume take credit of
                (Allowed _, credit') \<Rightarrow> (Inr (Some (nat take)), sc\<lparr>sc_send_window := Some credit'\<rparr>)
              | (Insufficient _, credit') \<Rightarrow> (Inr None, sc\<lparr>sc_send_window := Some credit'\<rparr>))
           else (Inr None, sc)))"

lemma try_chunk_credit_taken:
  assumes "try_chunk_credit n sc = (Inr (Some g), sc')" "0 < n"
  shows "0 < g \<and> g \<le> n"
  using assms
  by (auto simp: try_chunk_credit_def Let_def credit_consume_def i64_max_def split: option.splits if_splits)

text \<open>A send in progress: how far the framed message has gone out. \<open>Parked\<close> waits for a grant and is
  resumed at its offset.\<close>

datatype send_progress = SendDone | Parked nat | SendFailed send_error

function send_from :: "link_write \<Rightarrow> bytes \<Rightarrow> nat \<Rightarrow> sub_channel \<Rightarrow> send_progress \<times> bytes list \<times> sub_channel" where
  "send_from lw framed off sc =
    (if length framed \<le> off then (SendDone, [], sc)
     else case try_chunk_credit (length framed - off) sc of
            (Inl e, sc) \<Rightarrow> (SendFailed e, [], sc)
          | (Inr None, sc) \<Rightarrow> (Parked off, [], sc)
          | (Inr (Some granted), sc) \<Rightarrow>
             (case slice_get framed off (off + granted) of
                None \<Rightarrow> (SendFailed SendClosed, [], sc)
              | Some chunk \<Rightarrow>
                 (case write_chunk lw chunk sc of
                    (Inl e, sc) \<Rightarrow> (SendFailed e, [], sc)
                  | (Inr bs, sc) \<Rightarrow>
                     (case send_from lw framed (off + granted) sc of
                        (res, out, sc) \<Rightarrow> (res, bs # out, sc)))))"
  by pat_completeness auto
termination
  by (relation "measure (\<lambda>(lw, framed, off, sc). length framed - off)")
    (auto dest: try_chunk_credit_taken [OF sym])

definition sub_send :: "link_write \<Rightarrow> wire_message \<Rightarrow> sub_channel \<Rightarrow> send_progress \<times> bytes list \<times> sub_channel" where
  "sub_send lw m sc =
    (let framed = encode m in
     if sc_finished sc then (SendFailed SendClosed, [], sc)
     else case sc_send_window sc of
            None \<Rightarrow> (case write_chunk lw framed sc of
                       (Inl e, sc) \<Rightarrow> (SendFailed e, [], sc)
                     | (Inr bs, sc) \<Rightarrow> (SendDone, [bs], sc))
          | Some _ \<Rightarrow> send_from lw framed 0 sc)"

definition grant_credit :: "int \<Rightarrow> sub_channel \<Rightarrow> sub_channel" where
  "grant_credit bytes_to_add sc =
    (case sc_send_window sc of
       None \<Rightarrow> sc
     | Some credit \<Rightarrow> sc\<lparr>sc_send_window := Some (credit_adjust bytes_to_add credit)\<rparr>)"

section \<open>Receiving\<close>

text \<open>Every message taken out of the decoder consumes buffered bytes, which is why the delivery loop
  ends.\<close>

definition pending_bytes :: "frame_decoder \<Rightarrow> nat" where
  "pending_bytes fd = length (buffer (fd_reader fd)) - read_offset (fd_reader fd)"

lemma compact_pending:
  "length (buffer (compact e r)) - read_offset (compact e r) = length (buffer r) - read_offset r"
  "length (buffer (settle_owed_compaction r)) - read_offset (settle_owed_compaction r) = length (buffer r) - read_offset r"
  by (simp_all add: compact_def settle_owed_compaction_def compact_consumed_def)

lemma next_payload_consumes:
  assumes "next_payload e dec r = (Inr (Some x), r')"
  shows "length (buffer r') - read_offset r' < length (buffer r) - read_offset r"
proof -
  define s where "s = settle_owed_compaction r"
  have s: "length (buffer s) - read_offset s = length (buffer r) - read_offset r"
    by (simp add: s_def compact_pending)
  obtain n where "4 + n \<le> length (buffer s) - read_offset s"
    "length (buffer r') - read_offset r' = length (buffer s) - (read_offset s + (4 + n))"
    using assms compact_pending(1)
    by (auto simp: next_payload_def prefix_length_def poison_def Let_def not_less simp flip: s_def
        split: option.splits if_splits sum.splits prod.splits)
  with s show ?thesis by linarith
qed

lemma next_message_consumes:
  "next_message fd = (Inr (Some m), fd') \<Longrightarrow> pending_bytes fd' < pending_bytes fd"
  by (auto simp: next_message_def next_inner_def pending_bytes_def map_res_Inr
      dest!: next_payload_consumes split: prod.splits option.splits)

function deliver_loop :: "bool \<Rightarrow> sub_channel \<Rightarrow> wire_message list \<times> sub_channel" where
  "deliver_loop listening sc =
    (case next_message (sc_inbound_decoder sc) of
       (Inr (Some m), fd) \<Rightarrow>
         (let sc = sc\<lparr>sc_inbound_decoder := fd\<rparr> in
          if \<not> sc_inbound sc then ([], sc)
          else if \<not> listening then ([], sc\<lparr>sc_inbound := False\<rparr>)
          else case deliver_loop listening sc of (ms, sc) \<Rightarrow> (m # ms, sc))
     | (Inr None, fd) \<Rightarrow> ([], sc\<lparr>sc_inbound_decoder := fd\<rparr>)
     | (Inl e, fd) \<Rightarrow> ([], finish_with (DecodeFault (wire_error_text e)) (sc\<lparr>sc_inbound_decoder := fd\<rparr>)))"
  by pat_completeness auto
termination
  by (relation "measure (\<lambda>(l, sc). pending_bytes (sc_inbound_decoder sc))")
    (auto dest: next_message_consumes [OF sym])

declare deliver_loop.simps [simp del] send_from.simps [simp del]

definition sub_deliver :: "bool \<Rightarrow> bytes \<Rightarrow> sub_channel \<Rightarrow> nat \<times> wire_message list \<times> sub_channel" where
  "sub_deliver listening payload sc =
    (let sc = sc\<lparr>sc_inbound_decoder := decoder_append payload (sc_inbound_decoder sc)\<rparr> in
     case deliver_loop listening sc of (ms, sc) \<Rightarrow> (length payload, ms, sc))"

text \<open>The grant frame, if one is due, goes out on the CONTROL link.\<close>

definition note_consumed :: "nat \<Rightarrow> sub_channel \<Rightarrow> bytes option \<times> sub_channel" where
  "note_consumed n sc =
    (case sc_receive_window sc of
       None \<Rightarrow> (None, sc)
     | Some acc \<Rightarrow>
        (let taken = min (int n) i64_max in
         case accountant_consume taken acc of
           (None, acc) \<Rightarrow> (None, sc\<lparr>sc_receive_window := Some acc\<rparr>)
         | (Some grant, acc) \<Rightarrow>
            (Some (mux_encode (WindowAdjust (sc_channel_id sc) (u32_try_or_max (nat grant)))),
             sc\<lparr>sc_receive_window := Some acc\<rparr>)))"

section \<open>Laws of the two ends\<close>

lemma write_chunk_envelope:
  "\<exists>scr. write_chunk (\<lambda>_. None) chunk sc =
    (Inr (mux_encode (ChannelData (sc_channel_id sc) chunk)), sc\<lparr>sc_outbound := scr\<rparr>)"
proof -
  let ?f = "ChannelData (sc_channel_id sc) []"
  let ?bs = "mux_frame_bytes ?f chunk"
  have len: "encoded_byte_count_with_payload ?f (length chunk) = length ?bs"
    by (rule encoded_byte_count_exact) simp
  have enc: "mux_encode (ChannelData (sc_channel_id sc) chunk) = ?bs"
    by (simp add: mux_encode_frame mux_frame_bytes_def mux_inner_bytes_def)
  define scr where "scr = (if length (sc_outbound sc) < length ?bs
    then sc_outbound sc @ replicate (length ?bs - length (sc_outbound sc)) 0 else sc_outbound sc)"
  have "length ?bs \<le> length scr" by (simp add: scr_def)
  then have "encode_with_payload_into ?f chunk scr = (length ?bs, ?bs @ drop (length ?bs) scr)"
    using mux_encode_lent [of ?f chunk scr] by simp
  then show ?thesis
    unfolding write_chunk_def Let_def len scr_def [symmetric] by (auto simp: enc slice_get_def)
qed

lemma deliver_loop_frames:
  assumes "decoder_inv (sc_inbound_decoder sc)" "decoder_stream (sc_inbound_decoder sc) = Live u"
    "u @ v = concat (map encode ms)" "\<forall>m\<in>set ms. frame_ok m" "sc_inbound sc"
  shows "\<exists>k rest fd. k \<le> length ms \<and> deliver_loop True sc = (take k ms, sc\<lparr>sc_inbound_decoder := fd\<rparr>) \<and>
    decoder_inv fd \<and> decoder_stream fd = Live rest \<and> rest @ v = concat (map encode (drop k ms)) \<and>
    (drop k ms \<noteq> [] \<longrightarrow> length rest < length (encode (hd (drop k ms))))"
  using assms
proof (induction ms arbitrary: sc u)
  case Nil
  obtain res fd where n: "next_message (sc_inbound_decoder sc) = (res, fd)" by (cases "next_message (sc_inbound_decoder sc)")
  have "res = Inr None \<and> decoder_inv fd \<and> decoder_stream fd = Live []"
    using next_message_refines [OF Nil.prems(1) n] Nil.prems(2,3) by (simp add: stream_frame_def)
  then show ?case using n Nil.prems by (auto simp: deliver_loop.simps)
next
  case (Cons m ms)
  obtain res fd where n: "next_message (sc_inbound_decoder sc) = (res, fd)" by (cases "next_message (sc_inbound_decoder sc)")
  have ref: "decoder_inv fd" "stream_next decode (Live u) = (res, decoder_stream fd)"
    using next_message_refines [OF Cons.prems(1) n] Cons.prems(2) by simp_all
  show ?case
  proof (cases "length u < length (encode m)")
    case True
    then have "res = Inr None" "decoder_stream fd = Live u"
      using frames.next_partial [of m u v] ref(2) Cons.prems by auto
    then have "deliver_loop True sc = (take 0 (m # ms), sc\<lparr>sc_inbound_decoder := fd\<rparr>)"
      using n by (simp add: deliver_loop.simps)
    then show ?thesis using True ref(1) Cons.prems(3) \<open>decoder_stream fd = Live u\<close>
      by (intro exI [of _ 0] exI [of _ u] exI [of _ fd]) simp
  next
    case False
    then obtain u' where u': "u = encode m @ u'"
      using Cons.prems(3) by (auto simp: append_eq_append_conv_if split: if_splits) (metis append_take_drop_id)
    then have st: "res = Inr (Some m)" "decoder_stream fd = Live u'"
      using frames.next_whole [of m u'] ref(2) Cons.prems(4) by auto
    let ?sc = "sc\<lparr>sc_inbound_decoder := fd\<rparr>"
    have "\<exists>k rest fd'. k \<le> length ms \<and> deliver_loop True ?sc = (take k ms, ?sc\<lparr>sc_inbound_decoder := fd'\<rparr>) \<and>
        decoder_inv fd' \<and> decoder_stream fd' = Live rest \<and> rest @ v = concat (map encode (drop k ms)) \<and>
        (drop k ms \<noteq> [] \<longrightarrow> length rest < length (encode (hd (drop k ms))))"
      by (rule Cons.IH [of ?sc u']) (use st(2) ref(1) u' Cons.prems in auto)
    then obtain k rest fd' where "k \<le> length ms" "deliver_loop True ?sc = (take k ms, ?sc\<lparr>sc_inbound_decoder := fd'\<rparr>)"
      "decoder_inv fd'" "decoder_stream fd' = Live rest" "rest @ v = concat (map encode (drop k ms))"
      "drop k ms \<noteq> [] \<longrightarrow> length rest < length (encode (hd (drop k ms)))"
      by blast
    then show ?thesis using n st(1) Cons.prems(5)
      by (intro exI [of _ "Suc k"] exI [of _ rest] exI [of _ fd']) (simp add: deliver_loop.simps [of True sc])
  qed
qed

section \<open>The flow-controlled pipe\<close>

text \<open>A sending end with the messages still to send and the one being sent, the envelopes on the DATA
  link, the receiving end with its undelivered queue, the grants on the CONTROL link, and what the
  consumer has taken.\<close>

record pipe =
  p_tx :: sub_channel
  p_todo :: "wire_message list"
  p_sending :: "(bytes \<times> nat) option"
  p_wire :: "bytes list"
  p_rx :: sub_channel
  p_queue :: "wire_message list"
  p_grants :: "bytes list"
  p_done :: "wire_message list"

definition pipe_init :: "env \<Rightarrow> u32 \<Rightarrow> wire_message list \<Rightarrow> pipe" where
  "pipe_init env c ms =
    \<lparr>p_tx = sub_data env c, p_todo = ms, p_sending = None, p_wire = [], p_rx = sub_data env c,
     p_queue = [], p_grants = [], p_done = []\<rparr>"

text \<open>The steps: a send starts, writes one chunk for the credit it finds, or ends; the link hands over
  an envelope; the consumer takes a message and notes it consumed; a grant arrives.\<close>

inductive pipe_step :: "pipe \<Rightarrow> pipe \<Rightarrow> bool" where
  start: "p_sending p = None \<Longrightarrow> p_todo p = m # ms \<Longrightarrow>
    pipe_step p (p\<lparr>p_todo := ms, p_sending := Some (encode m, 0)\<rparr>)"
| chunk: "p_sending p = Some (f, off) \<Longrightarrow> off < length f \<Longrightarrow>
    try_chunk_credit (length f - off) (p_tx p) = (Inr (Some g), tx) \<Longrightarrow>
    slice_get f off (off + g) = Some c \<Longrightarrow> write_chunk (\<lambda>_. None) c tx = (Inr e, tx') \<Longrightarrow>
    pipe_step p (p\<lparr>p_tx := tx', p_sending := Some (f, off + g), p_wire := p_wire p @ [e]\<rparr>)"
| sent: "p_sending p = Some (f, off) \<Longrightarrow> length f \<le> off \<Longrightarrow> pipe_step p (p\<lparr>p_sending := None\<rparr>)"
| arrive: "p_wire p = e # es \<Longrightarrow> mux_decode (drop 4 e) = Inr (ChannelData c b) \<Longrightarrow>
    sub_deliver True b (p_rx p) = (n, ms, rx) \<Longrightarrow>
    pipe_step p (p\<lparr>p_wire := es, p_rx := rx, p_queue := p_queue p @ ms\<rparr>)"
| take: "p_queue p = m # q \<Longrightarrow> note_consumed (wire_byte_count m) (p_rx p) = (g, rx) \<Longrightarrow>
    pipe_step p (p\<lparr>p_queue := q, p_rx := rx, p_done := p_done p @ [m],
      p_grants := p_grants p @ (case g of None \<Rightarrow> [] | Some b \<Rightarrow> [b])\<rparr>)"
| grant: "p_grants p = b # bs \<Longrightarrow> mux_decode (drop 4 b) = Inr (WindowAdjust c n) \<Longrightarrow>
    pipe_step p (p\<lparr>p_grants := bs, p_tx := grant_credit (int (unat n)) (p_tx p)\<rparr>)"

inductive_cases pipe_stepE: "pipe_step p p'"

definition pipe_final :: "pipe \<Rightarrow> bool" where
  "pipe_final p \<longleftrightarrow> p_todo p = [] \<and> p_sending p = None \<and> p_wire p = [] \<and> p_queue p = [] \<and> p_grants p = []"

definition payload_of :: "bytes \<Rightarrow> bytes" where
  "payload_of e = (case mux_decode (drop 4 e) of Inr (ChannelData c b) \<Rightarrow> b | _ \<Rightarrow> [])"

definition grant_of :: "bytes \<Rightarrow> int" where
  "grant_of b = (case mux_decode (drop 4 b) of Inr (WindowAdjust c n) \<Rightarrow> int (unat n) | _ \<Rightarrow> 0)"

definition unsent :: "(bytes \<times> nat) option \<Rightarrow> bytes" where
  "unsent s = (case s of None \<Rightarrow> [] | Some (f, off) \<Rightarrow> drop off f)"

text \<open>Bytes the receiving side has taken off the link and the consumer has not yet taken.\<close>

definition wire_bytes :: "pipe \<Rightarrow> int" where
  "wire_bytes p = sum_list (map (\<lambda>e. int (length (payload_of e))) (p_wire p))"

definition queue_bytes :: "pipe \<Rightarrow> int" where
  "queue_bytes p = sum_list (map (\<lambda>m. int (wire_byte_count m)) (p_queue p))"

definition grant_bytes :: "pipe \<Rightarrow> int" where
  "grant_bytes p = sum_list (map grant_of (p_grants p))"

text \<open>The invariant: nothing of the byte stream is lost, duplicated or reordered between the two ends,
  and the window is conserved: credit, bytes in flight, undelivered and unconsumed bytes, pending
  and travelling grants add up to it.\<close>

definition pipe_ok ::
  "int \<Rightarrow> wire_message list \<Rightarrow> bytes \<Rightarrow> wire_message list \<Rightarrow> flow_credit_policy \<Rightarrow> receive_window_accountant \<Rightarrow> pipe \<Rightarrow> bool"
  where
  "pipe_ok W ms u rest cr acc p \<longleftrightarrow>
    sc_send_window (p_tx p) = Some cr \<and> \<not> sc_finished (p_tx p) \<and>
    sc_receive_window (p_rx p) = Some acc \<and> ra_initial_window acc = W \<and> sc_inbound (p_rx p) \<and>
    decoder_inv (sc_inbound_decoder (p_rx p)) \<and> decoder_stream (sc_inbound_decoder (p_rx p)) = Live u \<and>
    ms = p_done p @ p_queue p @ rest \<and>
    u @ concat (map payload_of (p_wire p)) @ unsent (p_sending p) @ concat (map encode (p_todo p)) = concat (map encode rest) \<and>
    (rest \<noteq> [] \<longrightarrow> length u < length (encode (hd rest))) \<and>
    (\<forall>e\<in>set (p_wire p). \<exists>c b. mux_decode (drop 4 e) = Inr (ChannelData c b) \<and> b \<noteq> []) \<and>
    (\<forall>b\<in>set (p_grants p). \<exists>c n. mux_decode (drop 4 b) = Inr (WindowAdjust c n)) \<and>
    (\<forall>f off. p_sending p = Some (f, off) \<longrightarrow> off \<le> length f) \<and>
    0 \<le> fc_remaining cr \<and> 0 \<le> ra_pending_credit acc \<and> ra_pending_credit acc < threshold acc \<and>
    fc_remaining cr + wire_bytes p + int (length u) + queue_bytes p + ra_pending_credit acc + grant_bytes p = W"

definition pipe_load :: "int \<Rightarrow> wire_message list \<Rightarrow> bool" where
  "pipe_load W ms \<longleftrightarrow> 16384 \<le> W \<and> W \<le> 16777216 \<and> (\<forall>m\<in>set ms. frame_ok m \<and> 2 * int (wire_byte_count m) \<le> W)"

lemma sum_list_nonneg_map: "(\<And>x. 0 \<le> f x) \<Longrightarrow> 0 \<le> sum_list (map f xs)" for f :: "'a \<Rightarrow> int"
  by (induction xs) auto

lemma pipe_bytes_nonneg: "0 \<le> wire_bytes p" "0 \<le> queue_bytes p" "0 \<le> grant_bytes p"
  by (auto simp: wire_bytes_def queue_bytes_def grant_bytes_def grant_of_def
      intro!: sum_list_nonneg_map split: sum.split mux_frame.split)

lemma frame_ok_length: "frame_ok m \<Longrightarrow> length (encode m) = wire_byte_count m"
  using length_frame_bytes [of m "opaque_run m"] opaque_run_none [of m]
  by (auto simp: encode_frame wire_byte_count_run frame_ok_def wf_message_ids)

lemma encode_nonempty: "encode m \<noteq> []"
  by (simp add: encode_frame frame_bytes_def payload_bytes_def)

lemma pipe_init_ok:
  assumes "pipe_load (initial_window_bytes env) ms"
  shows "pipe_ok (initial_window_bytes env) ms [] ms (credit_new (initial_window_bytes env))
    (accountant_new (initial_window_bytes env)) (pipe_init env c ms)"
  using assms initial_window_range [of env]
  by (auto simp: pipe_ok_def pipe_init_def pipe_load_def sub_data_def sub_build_def Let_def decoder_init
      credit_new_def accountant_new_def threshold_def half_def unsent_def encode_nonempty
      wire_bytes_def queue_bytes_def grant_bytes_def)

lemma step_start:
  assumes "pipe_ok W ms u rest cr acc p" "p_sending p = None" "p_todo p = m # todo"
  shows "pipe_ok W ms u rest cr acc (p\<lparr>p_todo := todo, p_sending := Some (encode m, 0)\<rparr>)"
  using assms by (simp add: pipe_ok_def unsent_def wire_bytes_def queue_bytes_def grant_bytes_def)

lemma step_sent:
  assumes "pipe_ok W ms u rest cr acc p" "p_sending p = Some (f, off)" "length f \<le> off"
  shows "pipe_ok W ms u rest cr acc (p\<lparr>p_sending := None\<rparr>)"
  using assms by (simp add: pipe_ok_def unsent_def wire_bytes_def queue_bytes_def grant_bytes_def)

lemma try_credit_exact:
  assumes "sc_send_window sc = Some cr" "\<not> sc_finished sc" "0 < fc_remaining cr" "int n \<le> i64_max"
  shows "try_chunk_credit n sc =
    (Inr (Some (nat (min (fc_remaining cr) (int n)))),
     sc\<lparr>sc_send_window := Some (cr\<lparr>fc_remaining := fc_remaining cr - min (fc_remaining cr) (int n)\<rparr>)\<rparr>)"
  using assms by (simp add: try_chunk_credit_def Let_def credit_consume_exact min_def)

lemma step_chunk:
  assumes ok: "pipe_ok W ms u rest cr acc p" and snd: "p_sending p = Some (f, off)" "off < length f"
    and tr: "try_chunk_credit (length f - off) (p_tx p) = (Inr (Some g), tx)"
    and c: "slice_get f off (off + g) = Some c" and w: "write_chunk (\<lambda>_. None) c tx = (Inr e, tx')"
  shows "\<exists>cr'. pipe_ok W ms u rest cr' acc (p\<lparr>p_tx := tx', p_sending := Some (f, off + g), p_wire := p_wire p @ [e]\<rparr>)"
proof -
  have g: "0 < g" "g \<le> length f - off" using try_chunk_credit_taken [OF tr] snd(2) by auto
  have win: "sc_send_window (p_tx p) = Some cr" "\<not> sc_finished (p_tx p)" using ok by (auto simp: pipe_ok_def)
  obtain cr' where cr': "tx = (p_tx p)\<lparr>sc_send_window := Some cr'\<rparr>" "fc_remaining cr' = fc_remaining cr - int g" "0 \<le> fc_remaining cr'"
    using tr win g(1) by (auto simp: try_chunk_credit_def Let_def credit_consume_def split: if_splits)
  obtain scr where tx': "tx' = tx\<lparr>sc_outbound := scr\<rparr>" and e: "e = mux_encode (ChannelData (sc_channel_id tx) c)"
    using write_chunk_envelope [of c tx] w by auto
  have dec: "mux_decode (drop 4 e) = Inr (ChannelData (sc_channel_id tx) c)"
    using mux_decode_frame_bytes [of "ChannelData (sc_channel_id tx) c"] e
    by (simp add: mux_encode_frame mux_frame_bytes_def)
  have c': "c = take g (drop off f)" "length c = g" "c @ drop (off + g) f = drop off f"
    using c g by (auto simp: slice_get_Some) (metis append_take_drop_id drop_drop add.commute)
  have pe: "payload_of e = c" by (simp add: payload_of_def dec)
  have "u @ concat (map payload_of (p_wire p)) @ (c @ drop (off + g) f) @ concat (map encode (p_todo p)) =
      concat (map encode rest)"
    using ok snd(1) unfolding c'(3) by (simp add: pipe_ok_def unsent_def)
  then have str: "u @ concat (map payload_of (p_wire p)) @ c @ drop (off + g) f @ concat (map encode (p_todo p)) =
      concat (map encode rest)" by simp
  have ne: "c \<noteq> []" using c'(2) g by auto
  show ?thesis
    using ok snd g cr' tx' dec c'(2) pe str ne
    by (intro exI [of _ cr']) (simp add: pipe_ok_def unsent_def wire_bytes_def queue_bytes_def grant_bytes_def)
qed

lemma concat_encode_length:
  "\<forall>m\<in>set ms. frame_ok m \<Longrightarrow> int (length (concat (map encode ms))) = sum_list (map (\<lambda>m. int (wire_byte_count m)) ms)"
  by (induction ms) (auto simp: frame_ok_length)

lemma step_arrive:
  assumes load: "pipe_load W ms" and ok: "pipe_ok W ms u rest cr acc p" and wire: "p_wire p = e # es"
    and dec: "mux_decode (drop 4 e) = Inr (ChannelData c b)" and del: "sub_deliver True b (p_rx p) = (n, new, rx)"
  shows "\<exists>u' rest'. pipe_ok W ms u' rest' cr acc (p\<lparr>p_wire := es, p_rx := rx, p_queue := p_queue p @ new\<rparr>)"
proof -
  let ?sc = "(p_rx p)\<lparr>sc_inbound_decoder := decoder_append b (sc_inbound_decoder (p_rx p))\<rparr>"
  let ?v = "concat (map payload_of es) @ unsent (p_sending p) @ concat (map encode (p_todo p))"
  have pe: "payload_of e = b" by (simp add: payload_of_def dec)
  have frames: "\<forall>m\<in>set rest. frame_ok m" using load ok by (auto simp: pipe_load_def pipe_ok_def)
  have app: "decoder_inv (sc_inbound_decoder ?sc)" "decoder_stream (sc_inbound_decoder ?sc) = Live (u @ b)"
    using decoder_append_refines [of "sc_inbound_decoder (p_rx p)" b] ok by (auto simp: pipe_ok_def)
  have inb: "sc_inbound ?sc" using ok by (simp add: pipe_ok_def)
  have str: "(u @ b) @ ?v = concat (map encode rest)" using ok wire pe by (simp add: pipe_ok_def)
  obtain k u' fd where k: "k \<le> length rest" "deliver_loop True ?sc = (take k rest, ?sc\<lparr>sc_inbound_decoder := fd\<rparr>)"
    "decoder_inv fd" "decoder_stream fd = Live u'" "u' @ ?v = concat (map encode (drop k rest))"
    "drop k rest \<noteq> [] \<longrightarrow> length u' < length (encode (hd (drop k rest)))"
    using deliver_loop_frames [OF app str frames inb] by blast
  have rx: "new = take k rest" "rx = (p_rx p)\<lparr>sc_inbound_decoder := fd\<rparr>"
    using del k(2) by (simp_all add: sub_deliver_def Let_def)
  have "concat (map encode (take k rest)) @ concat (map encode (drop k rest)) = concat (map encode rest)"
    by (metis append_take_drop_id concat_append map_append)
  then have "concat (map encode (take k rest)) @ u' @ ?v = (u @ b) @ ?v" using k(5) str by simp
  then have "concat (map encode (take k rest)) @ u' = u @ b" by simp
  have tk: "\<forall>m\<in>set (take k rest). frame_ok m" using frames by (auto dest: in_set_takeD)
  from \<open>concat (map encode (take k rest)) @ u' = u @ b\<close> [THEN arg_cong, of "\<lambda>x. int (length x)"]
  have bytes: "sum_list (map (\<lambda>m. int (wire_byte_count m)) (take k rest)) + int (length u') = int (length u) + int (length b)"
    using concat_encode_length [OF tk] by simp
  show ?thesis
    using ok wire pe k(3-6) rx bytes
    by (intro exI [of _ u'] exI [of _ "drop k rest"])
      (simp add: pipe_ok_def wire_bytes_def queue_bytes_def grant_bytes_def)
qed

lemma u32_try_exact: "0 \<le> x \<Longrightarrow> x < 2 ^ 32 \<Longrightarrow> int (unat (u32_try_or_max (nat x))) = x"
  by (cases x) (simp_all add: u32_try_or_max_def unat_of_nat take_bit_eq_mod)

lemma i64_ok_small: "0 \<le> v \<Longrightarrow> v \<le> 16777216 \<Longrightarrow> i64_ok v"
  by (simp add: i64_ok_def)

lemma queue_head_le:
  assumes "pipe_ok W ms u rest cr acc p" "p_queue p = m # q"
  shows "ra_pending_credit acc + int (wire_byte_count m) \<le> W"
proof -
  have "0 \<le> sum_list (map (\<lambda>m. int (wire_byte_count m)) q)" by (rule sum_list_nonneg_map) simp
  then show ?thesis using assms pipe_bytes_nonneg [of p] by (auto simp: pipe_ok_def queue_bytes_def)
qed

lemma step_take:
  assumes load: "pipe_load W ms" and ok: "pipe_ok W ms u rest cr acc p" and q: "p_queue p = m # q"
    and c: "note_consumed (wire_byte_count m) (p_rx p) = (g, rx)"
  shows "\<exists>acc'. pipe_ok W ms u rest cr acc' (p\<lparr>p_queue := q, p_rx := rx, p_done := p_done p @ [m],
      p_grants := p_grants p @ (case g of None \<Rightarrow> [] | Some b \<Rightarrow> [b])\<rparr>)"
proof -
  let ?n = "ra_pending_credit acc + int (wire_byte_count m)"
  have W: "16384 \<le> W" "W \<le> 16777216" using load by (auto simp: pipe_load_def)
  have acc: "sc_receive_window (p_rx p) = Some acc" "ra_initial_window acc = W" "0 \<le> ra_pending_credit acc"
    using ok by (auto simp: pipe_ok_def)
  have n: "0 \<le> ?n" "?n \<le> W" using queue_head_le [OF ok q] acc(3) by auto
  have sat: "sat_add (ra_pending_credit acc) (int (wire_byte_count m)) = ?n"
    using n W by (intro sat_add_exact) (simp add: i64_ok_def)
  have mn: "min (int (wire_byte_count m)) i64_max = int (wire_byte_count m)"
    using n acc(3) W by (simp add: i64_max_def)
  have thr: "threshold (acc\<lparr>ra_pending_credit := x\<rparr>) = threshold acc" "0 < threshold acc" for x
    using acc(2) W by (simp_all add: threshold_def Let_def)
  show ?thesis
  proof (cases "?n < threshold acc")
    case True
    then have "g = None" "rx = (p_rx p)\<lparr>sc_receive_window := Some (acc\<lparr>ra_pending_credit := ?n\<rparr>)\<rparr>"
      using c acc W by (simp_all add: note_consumed_def accountant_consume_def mn sat thr Let_def)
    then show ?thesis using ok q True n thr
      by (intro exI [of _ "acc\<lparr>ra_pending_credit := ?n\<rparr>"])
        (simp add: pipe_ok_def wire_bytes_def queue_bytes_def grant_bytes_def)
  next
    case False
    let ?b = "mux_encode (WindowAdjust (sc_channel_id (p_rx p)) (u32_try_or_max (nat ?n)))"
    have r: "g = Some ?b" "rx = (p_rx p)\<lparr>sc_receive_window := Some (acc\<lparr>ra_pending_credit := 0\<rparr>)\<rparr>"
      using False c acc W by (simp_all add: note_consumed_def accountant_consume_def mn sat thr Let_def)
    have dec: "mux_decode (drop 4 ?b) = Inr (WindowAdjust (sc_channel_id (p_rx p)) (u32_try_or_max (nat ?n)))"
      using mux_decode_frame_bytes [of "WindowAdjust (sc_channel_id (p_rx p)) (u32_try_or_max (nat ?n))"]
      by (simp add: mux_encode_frame mux_frame_bytes_def)
    have amount: "int (unat (u32_try_or_max (nat ?n))) = ?n"
      using n W by (intro u32_try_exact) auto
    have "grant_of ?b = ?n" unfolding grant_of_def dec using amount by simp
    then show ?thesis using ok q n thr r dec
      by (intro exI [of _ "acc\<lparr>ra_pending_credit := 0\<rparr>"])
        (simp add: pipe_ok_def wire_bytes_def queue_bytes_def grant_bytes_def)
  qed
qed

lemma step_grant:
  assumes load: "pipe_load W ms" and ok: "pipe_ok W ms u rest cr acc p" and b: "p_grants p = b # bs"
    and dec: "mux_decode (drop 4 b) = Inr (WindowAdjust c n)"
  shows "\<exists>cr'. pipe_ok W ms u rest cr' acc (p\<lparr>p_grants := bs, p_tx := grant_credit (int (unat n)) (p_tx p)\<rparr>)"
proof -
  have gb: "grant_of b = int (unat n)" by (simp add: grant_of_def dec)
  have "0 \<le> sum_list (map grant_of bs)"
    by (rule sum_list_nonneg_map) (auto simp: grant_of_def split: sum.split mux_frame.split)
  then have "fc_remaining cr + int (unat n) \<le> W" "0 \<le> fc_remaining cr"
    using ok b gb pipe_bytes_nonneg [of p] by (auto simp: pipe_ok_def grant_bytes_def)
  then have "credit_adjust (int (unat n)) cr = cr\<lparr>fc_remaining := fc_remaining cr + int (unat n)\<rparr>"
    using load by (intro credit_adjust_exact i64_ok_small add_nonneg_nonneg) (auto simp: pipe_load_def)
  then have "grant_credit (int (unat n)) (p_tx p) =
      (p_tx p)\<lparr>sc_send_window := Some (cr\<lparr>fc_remaining := fc_remaining cr + int (unat n)\<rparr>)\<rparr>"
    using ok by (simp add: grant_credit_def pipe_ok_def)
  then show ?thesis using ok b gb
    by (intro exI [of _ "cr\<lparr>fc_remaining := fc_remaining cr + int (unat n)\<rparr>"])
      (simp add: pipe_ok_def wire_bytes_def queue_bytes_def grant_bytes_def)
qed

definition pipe_inv :: "int \<Rightarrow> wire_message list \<Rightarrow> pipe \<Rightarrow> bool" where
  "pipe_inv W ms p \<longleftrightarrow> (\<exists>u rest cr acc. pipe_ok W ms u rest cr acc p)"

lemma pipe_step_inv:
  assumes "pipe_step p p'" "pipe_load W ms" "pipe_inv W ms p"
  shows "pipe_inv W ms p'"
proof -
  obtain u rest cr acc where ok: "pipe_ok W ms u rest cr acc p" using assms(3) by (auto simp: pipe_inv_def)
  show ?thesis using assms(1) unfolding pipe_inv_def
  proof cases
    case (start m todo)
    then show "\<exists>u rest cr acc. pipe_ok W ms u rest cr acc p'" using step_start [OF ok] by blast
  next
    case (chunk f off g tx c e tx')
    then show "\<exists>u rest cr acc. pipe_ok W ms u rest cr acc p'" using step_chunk [OF ok] by blast
  next
    case (sent f off)
    then show "\<exists>u rest cr acc. pipe_ok W ms u rest cr acc p'" using step_sent [OF ok] by blast
  next
    case (arrive e es c b n new rx)
    then show "\<exists>u rest cr acc. pipe_ok W ms u rest cr acc p'" using step_arrive [OF assms(2) ok] by blast
  next
    case (take m q g rx)
    then show "\<exists>u rest cr acc. pipe_ok W ms u rest cr acc p'" using step_take [OF assms(2) ok] by blast
  next
    case (grant b bs c n)
    then show "\<exists>u rest cr acc. pipe_ok W ms u rest cr acc p'" using step_grant [OF assms(2) ok] by blast
  qed
qed

lemma pipe_steps_inv:
  assumes "pipe_step\<^sup>*\<^sup>* p p'" "pipe_load W ms" "pipe_inv W ms p"
  shows "pipe_inv W ms p'"
  using assms by (induction rule: rtranclp_induct) (auto intro: pipe_step_inv)

section \<open>No deadlock, and an end\<close>

lemma try_credit_some:
  assumes "sc_send_window sc = Some cr" "\<not> sc_finished sc" "0 < fc_remaining cr"
  shows "\<exists>g tx. try_chunk_credit n sc = (Inr (Some g), tx)"
  using assms by (auto simp: try_chunk_credit_def Let_def credit_consume_def non_neg_def)

text \<open>A sender with everything before it drained is never without credit.\<close>

lemma quiet_sender_has_credit:
  assumes load: "pipe_load W ms" and ok: "pipe_ok W ms u rest cr acc p"
    and quiet: "p_wire p = []" "p_queue p = []" "p_grants p = []" and some: "unsent (p_sending p) \<noteq> []"
  shows "0 < fc_remaining cr"
proof -
  have "rest \<noteq> []" using ok some by (auto simp: pipe_ok_def)
  then have "hd rest \<in> set ms" "length u < length (encode (hd rest))" using ok by (auto simp: pipe_ok_def)
  then have "2 * int (length u) < W" using load frame_ok_length [of "hd rest"] by (auto simp: pipe_load_def)
  moreover have "threshold acc = W div 2" using ok load by (auto simp: pipe_ok_def pipe_load_def threshold_def half_def Let_def)
  moreover have "fc_remaining cr = W - int (length u) - ra_pending_credit acc" "ra_pending_credit acc < threshold acc"
    using ok quiet by (auto simp: pipe_ok_def wire_bytes_def queue_bytes_def grant_bytes_def)
  ultimately show ?thesis by linarith
qed

lemma pipe_progress:
  assumes load: "pipe_load W ms" and inv: "pipe_inv W ms p" and open_end: "\<not> pipe_final p"
  shows "\<exists>p'. pipe_step p p'"
proof -
  obtain u rest cr acc where ok: "pipe_ok W ms u rest cr acc p" using inv by (auto simp: pipe_inv_def)
  consider (g) "p_grants p \<noteq> []" | (q) "p_queue p \<noteq> []" | (w) "p_wire p \<noteq> []"
    | (s) f off where "p_sending p = Some (f, off)" "p_wire p = []" "p_queue p = []" "p_grants p = []"
    | (t) "p_sending p = None" "p_todo p \<noteq> []"
    using open_end unfolding pipe_final_def by (metis option.exhaust surj_pair)
  then show ?thesis
  proof cases
    case g
    then obtain b bs where b: "p_grants p = b # bs" by (cases "p_grants p") auto
    then obtain c n where "mux_decode (drop 4 b) = Inr (WindowAdjust c n)" using ok by (auto simp: pipe_ok_def)
    with b show ?thesis by (blast intro: pipe_step.grant)
  next
    case q
    then obtain m ms' where "p_queue p = m # ms'" by (cases "p_queue p") auto
    moreover obtain x rx where "note_consumed (wire_byte_count m) (p_rx p) = (x, rx)" by fastforce
    ultimately show ?thesis by (blast intro: pipe_step.take)
  next
    case w
    then obtain e es where e: "p_wire p = e # es" by (cases "p_wire p") auto
    then obtain c b where d: "mux_decode (drop 4 e) = Inr (ChannelData c b)" using ok by (auto simp: pipe_ok_def)
    obtain n new rx where "sub_deliver True b (p_rx p) = (n, new, rx)" by (metis prod_cases3)
    with e d show ?thesis by (blast intro: pipe_step.arrive)
  next
    case s
    show ?thesis
    proof (cases "off < length f")
      case False
      then show ?thesis using s by (meson not_less pipe_step.sent)
    next
      case True
      then have "0 < fc_remaining cr"
        using quiet_sender_has_credit [OF load ok s(2-4)] s(1) by (simp add: unsent_def)
      then obtain g tx where t: "try_chunk_credit (length f - off) (p_tx p) = (Inr (Some g), tx)"
        using try_credit_some [of "p_tx p" cr "length f - off"] ok unfolding pipe_ok_def by blast
      have "g \<le> length f - off" using try_chunk_credit_taken [OF t] True by simp
      then obtain c where c: "slice_get f off (off + g) = Some c" using True by (simp add: slice_get_def le_diff_conv2)
      obtain scr where "write_chunk (\<lambda>_. None) c tx = (Inr (mux_encode (ChannelData (sc_channel_id tx) c)), tx\<lparr>sc_outbound := scr\<rparr>)"
        using write_chunk_envelope by blast
      from pipe_step.chunk [OF s(1) True t c this] show ?thesis by blast
    qed
  next
    case t
    then obtain m ms' where "p_todo p = m # ms'" by (cases "p_todo p") auto
    with t show ?thesis by (blast intro: pipe_step.start)
  qed
qed

text \<open>A weight every step lowers: a byte weighs less the further it has come.\<close>

definition held_bytes :: "pipe \<Rightarrow> int" where
  "held_bytes p = (case decoder_stream (sc_inbound_decoder (p_rx p)) of Live u \<Rightarrow> int (length u) | Dead e \<Rightarrow> 0)"

definition pipe_weight :: "pipe \<Rightarrow> int" where
  "pipe_weight p = 4 * int (length (unsent (p_sending p))) + (if p_sending p = None then 0 else 1) +
     sum_list (map (\<lambda>m. 4 * int (length (encode m)) + 2) (p_todo p)) + 3 * wire_bytes p + 2 * held_bytes p +
     2 * int (length (p_queue p)) + int (length (p_grants p))"

lemma pipe_weight_nonneg: "0 \<le> pipe_weight p"
proof -
  have "0 \<le> sum_list (map (\<lambda>m. 4 * int (length (encode m)) + 2) (p_todo p))" by (rule sum_list_nonneg_map) simp
  then show ?thesis using pipe_bytes_nonneg(1) [of p] by (simp add: pipe_weight_def held_bytes_def split: stream.split)
qed

lemma length_le_bytes: "int (length ms) \<le> sum_list (map (\<lambda>m. int (wire_byte_count m)) ms)"
  by (induction ms) (auto simp: wire_byte_count_def)

lemma pipe_ok_held: "pipe_ok W ms u rest cr acc p \<Longrightarrow> held_bytes p = int (length u)"
  by (simp add: pipe_ok_def held_bytes_def)

lemma arrive_lowers:
  assumes ok: "pipe_ok W ms u rest cr acc p" and wire: "p_wire p = e # es"
    and dec: "mux_decode (drop 4 e) = Inr (ChannelData c b)"
    and ok': "pipe_ok W ms u' rest' cr acc (p\<lparr>p_wire := es, p_rx := rx, p_queue := p_queue p @ new\<rparr>)"
  shows "pipe_weight (p\<lparr>p_wire := es, p_rx := rx, p_queue := p_queue p @ new\<rparr>) < pipe_weight p"
proof -
  have pe: "payload_of e = b" "b \<noteq> []" using ok wire dec by (auto simp: pipe_ok_def payload_of_def)
  have "int (length u') + sum_list (map (\<lambda>m. int (wire_byte_count m)) new) = int (length u) + int (length b)"
    using ok ok' wire pe(1) by (auto simp: pipe_ok_def wire_bytes_def queue_bytes_def grant_bytes_def)
  moreover obtain k where "length b = Suc k" using pe(2) by (cases b) auto
  ultimately show ?thesis
    using length_le_bytes [of new] wire pe(1) pipe_ok_held [OF ok] pipe_ok_held [OF ok']
    by (simp add: pipe_weight_def wire_bytes_def)
qed

lemma pipe_step_lowers:
  assumes "pipe_step p p'" "pipe_load W ms" "pipe_inv W ms p"
  shows "pipe_weight p' < pipe_weight p"
proof -
  obtain u rest cr acc where ok: "pipe_ok W ms u rest cr acc p" using assms(3) by (auto simp: pipe_inv_def)
  show ?thesis using assms(1)
  proof cases
    case (start m todo)
    then show ?thesis by (simp add: pipe_weight_def unsent_def wire_bytes_def held_bytes_def)
  next
    case (sent f off)
    then show ?thesis by (simp add: pipe_weight_def unsent_def wire_bytes_def held_bytes_def)
  next
    case (chunk f off g tx c e tx')
    have g: "0 < g" "g \<le> length f - off" using try_chunk_credit_taken [OF chunk(4)] chunk(3) by auto
    have e: "e = mux_encode (ChannelData (sc_channel_id tx) c)" using write_chunk_envelope [of c tx] chunk(6) by auto
    have "mux_decode (drop 4 e) = Inr (ChannelData (sc_channel_id tx) c)"
      using mux_decode_frame_bytes [of "ChannelData (sc_channel_id tx) c"] e
      by (simp add: mux_encode_frame mux_frame_bytes_def)
    then have "length (payload_of e) = g" using chunk(5) g by (auto simp: payload_of_def slice_get_Some)
    then show ?thesis using chunk g
      by (simp add: pipe_weight_def unsent_def wire_bytes_def held_bytes_def of_nat_diff)
  next
    case (arrive e es c b n new rx)
    obtain u' rest' where "pipe_ok W ms u' rest' cr acc (p\<lparr>p_wire := es, p_rx := rx, p_queue := p_queue p @ new\<rparr>)"
      using step_arrive [OF assms(2) ok arrive(2-4)] by blast
    from arrive_lowers [OF ok arrive(2,3) this] arrive(1) show ?thesis by simp
  next
    case (take m q g rx)
    have "sc_inbound_decoder rx = sc_inbound_decoder (p_rx p)"
      using take(3) by (auto simp: note_consumed_def Let_def split: option.splits prod.splits)
    then show ?thesis using take by (simp add: pipe_weight_def wire_bytes_def held_bytes_def split: option.split)
  next
    case (grant b bs c n)
    then show ?thesis by (simp add: pipe_weight_def unsent_def wire_bytes_def held_bytes_def)
  qed
qed

lemma pipe_run_bound:
  assumes "(pipe_step ^^ n) p p'" "pipe_load W ms" "pipe_inv W ms p"
  shows "int n + pipe_weight p' \<le> pipe_weight p \<and> pipe_inv W ms p'"
  using assms(1)
proof (induction n arbitrary: p')
  case 0
  then show ?case using assms(3) by simp
next
  case (Suc n)
  then obtain q where "(pipe_step ^^ n) p q" "pipe_step q p'" by auto
  with Suc.IH pipe_step_lowers [OF _ assms(2)] pipe_step_inv [OF _ assms(2)] show ?case by fastforce
qed

lemma pipe_final_done:
  assumes "pipe_inv W ms p" "pipe_final p"
  shows "p_done p = ms"
proof -
  obtain u rest cr acc where ok: "pipe_ok W ms u rest cr acc p" using assms(1) by (auto simp: pipe_inv_def)
  have "rest = []"
  proof (cases rest)
    case (Cons m r)
    have "u = concat (map encode rest)" "length u < length (encode m)"
      using ok assms(2) Cons by (auto simp: pipe_ok_def pipe_final_def unsent_def)
    then show ?thesis using Cons by simp
  qed
  then show ?thesis using ok assms(2) by (simp add: pipe_ok_def pipe_final_def)
qed

lemma pipe_init_inv:
  assumes "\<forall>m\<in>set ms. frame_ok m \<and> 2 * int (wire_byte_count m) \<le> initial_window_bytes env"
  shows "pipe_load (initial_window_bytes env) ms" "pipe_inv (initial_window_bytes env) ms (pipe_init env c ms)"
proof -
  show load: "pipe_load (initial_window_bytes env) ms"
    using assms initial_window_range [of env] by (auto simp: pipe_load_def)
  show "pipe_inv (initial_window_bytes env) ms (pipe_init env c ms)"
    unfolding pipe_inv_def using pipe_init_ok [OF load] by blast
qed

lemma payload_of_envelope: "payload_of (mux_encode (ChannelData c b)) = b"
  using mux_decode_frame_bytes [of "ChannelData c b"]
  by (simp add: payload_of_def mux_encode_frame mux_frame_bytes_def)

lemma send_from_chunks:
  assumes "send_from (\<lambda>_. None) framed off sc = (res, out, sc')" "sc_send_window sc = Some cr"
    "\<not> sc_finished sc" "off \<le> length framed"
  shows "\<exists>k cr'. off \<le> k \<and> k \<le> length framed \<and> sc_send_window sc' = Some cr' \<and>
    concat (map payload_of out) = take (k - off) (drop off framed) \<and>
    (if k = length framed then res = SendDone else res = Parked k \<and> fc_remaining cr' \<le> 0)"
  using assms
proof (induction "length framed - off" arbitrary: off sc cr out rule: less_induct)
  case less
  show ?case
  proof (cases "length framed \<le> off")
    case True
    then show ?thesis using less.prems by (auto simp: send_from.simps)
  next
    case False
    show ?thesis
    proof (cases "0 < fc_remaining cr")
      case False
      then have "try_chunk_credit (length framed - off) sc = (Inr None, sc)"
        using less.prems by (simp add: try_chunk_credit_def Let_def)
      then show ?thesis using less.prems False \<open>\<not> length framed \<le> off\<close>
        by (intro exI [of _ off] exI [of _ cr]) (auto simp: send_from.simps [of _ framed off])
    next
      case True
      then obtain g tx where t: "try_chunk_credit (length framed - off) sc = (Inr (Some g), tx)"
        using try_credit_some less.prems(2,3) by blast
      have g: "0 < g" "g \<le> length framed - off" using try_chunk_credit_taken [OF t] False by auto
      obtain cr1 where cr1: "tx = sc\<lparr>sc_send_window := Some cr1\<rparr>"
        using t less.prems(2,3) by (auto simp: try_chunk_credit_def Let_def split: if_splits prod.splits consume_result.splits)
      let ?c = "take g (drop off framed)"
      have c: "slice_get framed off (off + g) = Some ?c" using g False by (simp add: slice_get_def)
      obtain scr where w: "write_chunk (\<lambda>_. None) ?c tx = (Inr (mux_encode (ChannelData (sc_channel_id tx) ?c)), tx\<lparr>sc_outbound := scr\<rparr>)"
        using write_chunk_envelope by blast
      obtain out' where rec: "send_from (\<lambda>_. None) framed (off + g) (tx\<lparr>sc_outbound := scr\<rparr>) = (res, out', sc')"
        and out: "out = mux_encode (ChannelData (sc_channel_id tx) ?c) # out'"
        using less.prems(1) False t c w by (auto simp: send_from.simps [of _ framed off] split: prod.splits)
      have le: "length framed - (off + g) < length framed - off" "off + g \<le> length framed"
        using g \<open>\<not> length framed \<le> off\<close> by linarith+
      obtain k cr' where k: "off + g \<le> k" "k \<le> length framed" "sc_send_window sc' = Some cr'"
        "concat (map payload_of out') = take (k - (off + g)) (drop (off + g) framed)"
        "if k = length framed then res = SendDone else res = Parked k \<and> fc_remaining cr' \<le> 0"
        using less.hyps [OF le(1) rec _ _ le(2), of cr1] cr1 less.prems(3) by auto
      have "take g (drop off framed) @ take (k - (off + g)) (drop (off + g) framed) = take (k - off) (drop off framed)"
        using k(1) g take_add [of g "k - (off + g)" "drop off framed"] by (simp add: add.commute)
      then show ?thesis using k out
        by (intro exI [of _ k] exI [of _ cr']) (simp add: payload_of_envelope)
    qed
  qed
qed
section \<open>Properties\<close>

text \<open>C7. The flow-controlled pipe never deadlocks: for every environment and every messages within the
  frame cap and half the window, every run of the two ends, in any interleaving of sending, delivery,
  consumption and grants, can go on until everything is sent, delivered, consumed and granted.\<close>

theorem pipe_never_deadlocks:
  assumes "\<forall>m\<in>set ms. frame_ok m \<and> 2 * int (wire_byte_count m) \<le> initial_window_bytes env"
    and "pipe_step\<^sup>*\<^sup>* (pipe_init env c ms) p"
  shows "pipe_final p \<or> (\<exists>p'. pipe_step p p')"
  using pipe_progress pipe_steps_inv [OF assms(2)] pipe_init_inv [OF assms(1)] by blast

theorem pipe_never_deadlocks_witness:
  "pipe_final (pipe_init Map.empty 1 [Bell, Progress 1 50]) \<or> (\<exists>p'. pipe_step (pipe_init Map.empty 1 [Bell, Progress 1 50]) p')"
  by (rule pipe_never_deadlocks [where ms = "[Bell, Progress 1 50]" and c = 1 and env = Map.empty])
    (simp_all add: frame_ok_def wire_byte_count_def max_frame_payload_length_def initial_window_bytes_def env_int_def)

text \<open>C6. For messages within the frame cap and half the window, every run of the pipe ends, after at most a number of steps
  fixed by what there was to send, and a run that has ended has given the consumer exactly the messages that were sent, in order.\<close>

theorem pipe_delivers_everything:
  assumes "\<forall>m\<in>set ms. frame_ok m \<and> 2 * int (wire_byte_count m) \<le> initial_window_bytes env"
    and "(pipe_step ^^ n) (pipe_init env c ms) p"
  shows "int n \<le> pipe_weight (pipe_init env c ms) \<and> ((\<nexists>p'. pipe_step p p') \<longrightarrow> p_done p = ms)"
proof -
  note load = pipe_init_inv(1) [OF assms(1)]
  have init: "pipe_inv (initial_window_bytes env) ms (pipe_init env c ms)" by (rule pipe_init_inv(2) [OF assms(1)])
  have run: "int n + pipe_weight p \<le> pipe_weight (pipe_init env c ms)" "pipe_inv (initial_window_bytes env) ms p"
    using pipe_run_bound [OF assms(2) load init] by auto
  then show ?thesis using pipe_weight_nonneg [of p] pipe_progress [OF load run(2)] pipe_final_done [OF run(2)]
    by auto
qed

theorem pipe_delivers_everything_witness:
  "\<exists>n p. (pipe_step ^^ n) (pipe_init Map.empty 1 [Bell]) p \<and> (\<nexists>p'. pipe_step p p') \<and> p_done p = [Bell]"
proof (rule ccontr)
  let ?p = "pipe_init Map.empty 1 [Bell]"
  have ok: "\<forall>m\<in>set [Bell]. frame_ok m \<and> 2 * int (wire_byte_count m) \<le> initial_window_bytes Map.empty"
    by (simp add: frame_ok_def wire_byte_count_def max_frame_payload_length_def initial_window_bytes_def env_int_def)
  note all = pipe_delivers_everything [where ms = "[Bell]" and c = 1 and env = Map.empty, OF ok]
  assume "\<not> ?thesis"
  then have on: "(pipe_step ^^ n) ?p p \<Longrightarrow> \<exists>p'. pipe_step p p'" for n p using all by blast
  have "\<exists>p. (pipe_step ^^ n) ?p p" for n
  proof (induction n)
    case (Suc n)
    then show ?case using on by (auto simp: OO_def) blast
  qed simp
  then obtain p where "(pipe_step ^^ nat (pipe_weight ?p + 1)) ?p p" by blast
  from all [OF this] show False using pipe_weight_nonneg [of ?p] by simp
qed

text \<open>C24. What the consumer has taken is at every moment a prefix of what was sent, and the bytes on the
  link, held for reassembly and queued for the consumer never exceed the window.\<close>

theorem pipe_bounds_memory:
  assumes "\<forall>m\<in>set ms. frame_ok m \<and> 2 * int (wire_byte_count m) \<le> initial_window_bytes env"
    and "pipe_step\<^sup>*\<^sup>* (pipe_init env c ms) p"
  shows "(\<exists>rest. ms = p_done p @ rest) \<and> wire_bytes p + held_bytes p + queue_bytes p \<le> initial_window_bytes env"
proof -
  have "pipe_inv (initial_window_bytes env) ms p"
    using pipe_steps_inv [OF assms(2)] pipe_init_inv [OF assms(1)] by blast
  then obtain u rest cr acc where ok: "pipe_ok (initial_window_bytes env) ms u rest cr acc p"
    unfolding pipe_inv_def by blast
  then show ?thesis using pipe_bytes_nonneg [of p] pipe_ok_held [OF ok] by (auto simp: pipe_ok_def)
qed

theorem pipe_bounds_memory_witness:
  "(\<exists>rest. [Bell] = p_done (pipe_init Map.empty 1 [Bell]) @ rest) \<and>
   wire_bytes (pipe_init Map.empty 1 [Bell]) + held_bytes (pipe_init Map.empty 1 [Bell]) +
     queue_bytes (pipe_init Map.empty 1 [Bell]) \<le> initial_window_bytes Map.empty"
  by (rule pipe_bounds_memory [where ms = "[Bell]" and c = 1 and env = Map.empty])
    (simp_all add: frame_ok_def wire_byte_count_def max_frame_payload_length_def initial_window_bytes_def env_int_def)

text \<open>A send puts the framed message on the link in order and whole: either every byte went out, or
  the sender is parked at an offset with exactly the bytes before it sent and no credit left, to be
  resumed there by the next grant. A message larger than the window is therefore deliverable.\<close>

theorem sub_send_chunks:
  assumes "\<not> sc_finished sc" "sub_send (\<lambda>_. None) m sc = (res, out, sc')"
  shows "(res = SendDone \<and> concat (map payload_of out) = encode m) \<or>
    (\<exists>k cr. res = Parked k \<and> k < length (encode m) \<and> concat (map payload_of out) = take k (encode m) \<and>
      sc_send_window sc' = Some cr \<and> credit_is_blocked cr)"
proof (cases "sc_send_window sc")
  case None
  then show ?thesis using assms write_chunk_envelope [of "encode m" sc]
    by (auto simp: sub_send_def Let_def payload_of_envelope)
next
  case (Some cr)
  then have "send_from (\<lambda>_. None) (encode m) 0 sc = (res, out, sc')" using assms by (simp add: sub_send_def Let_def)
  from send_from_chunks [OF this Some assms(1)] show ?thesis
    by (auto simp: credit_is_blocked_def split: if_splits)
qed

theorem sub_send_chunks_witness:
  "\<exists>res out sc'. sub_send (\<lambda>_. None) Bell (sub_with_send_window 3 Data_Link (Some 2)) = (res, out, sc') \<and>
    ((res = SendDone \<and> concat (map payload_of out) = encode Bell) \<or>
     (\<exists>k cr. res = Parked k \<and> k < length (encode Bell) \<and> concat (map payload_of out) = take k (encode Bell) \<and>
       sc_send_window sc' = Some cr \<and> credit_is_blocked cr))"
proof -
  have "\<not> sc_finished (sub_with_send_window 3 Data_Link (Some 2))"
    by (simp add: sub_with_send_window_def sub_build_def)
  from sub_send_chunks [OF this] show ?thesis by (metis prod_cases3)
qed

end
