(* ===== verification/Mux_Connection.thy ===== *)
theory Mux_Connection
  imports Sub_Channel "HOL-Library.AList"
begin

text \<open>
  One mux connection seen from either end, \<open>slopdesk-muxnet/src/connection.rs\<close>: the two channel tables,
  the dispatch maps, the ack slots, the demux of an arriving frame, and the ways a channel or the whole
  connection ends. A sub-channel is shared (\<open>Arc\<close>): the dispatch maps and the owner hold addresses into
  one heap. The two link threads and the owner serialise on the tables lock, so a run is a sequence of
  whole operations. A hash map is an association list with distinct keys.
\<close>

section \<open>State\<close>

type_synonym address = nat

type_synonym dispatch = "(u32 \<times> address) list"

record open_ack =
  oa_accepted :: bool
  oa_resume_from_seq :: int

definition ack_refused :: open_ack where
  "ack_refused = \<lparr>oa_accepted = False, oa_resume_from_seq = 0\<rparr>"

datatype open_failure = NotInitiator | OpenLinkDown

record channel_open =
  co_channel_id :: u32
  co_session_id :: raw_uuid
  co_last_received_seq :: int
  co_channel_class :: u8
  co_initial_cwd :: "rstring option"
  co_data :: address
  co_control :: address

record open_request =
  rq_session_id :: raw_uuid
  rq_last_received_seq :: int
  rq_channel_class :: u8
  rq_initial_cwd :: "rstring option"

record opened_channel =
  oc_channel_id :: u32
  oc_data :: address
  oc_control :: address

datatype mux_event =
    EvOpened channel_open
  | EvClosed u32 mux_close_reason
  | EvLinkDown bool "u32 list"

record tables =
  tb_control :: channel_table
  tb_data :: channel_table
  tb_control_channels :: dispatch
  tb_data_channels :: dispatch

definition tables_new :: tables where
  "tables_new = \<lparr>tb_control = table_new, tb_data = table_new, tb_control_channels = [], tb_data_channels = []\<rparr>"

text \<open>The last three fields log what leaves the connection: events to the owner, bytes the links took,
  and messages handed to the consumer of a sub-channel.\<close>

record connection =
  cn_role :: role
  cn_tables :: tables
  cn_open_acks :: "(u32 \<times> open_ack option) list"
  cn_torn_down :: bool
  cn_links_closed :: bool
  cn_heap :: "sub_channel list"
  cn_events :: "mux_event list"
  cn_written :: "(link \<times> bytes) list"
  cn_delivered :: "(address \<times> wire_message) list"

text \<open>What the connection meets outside: the process environment, whether a link takes a write, and
  whether the consumer of a sub-channel still listens.\<close>

record world =
  w_env :: env
  w_link :: "link \<Rightarrow> link_write"
  w_listening :: "address \<Rightarrow> bool"

definition serve :: "role \<Rightarrow> connection" where
  "serve r = \<lparr>cn_role = r, cn_tables = tables_new, cn_open_acks = [], cn_torn_down = False,
     cn_links_closed = False, cn_heap = [], cn_events = [], cn_written = [], cn_delivered = []\<rparr>"

definition is_down :: "connection \<Rightarrow> bool" where
  "is_down c = cn_torn_down c"

definition live_channel_count :: "connection \<Rightarrow> nat" where
  "live_channel_count c = length (tb_data_channels (cn_tables c))"

definition emit :: "mux_event \<Rightarrow> connection \<Rightarrow> connection" where
  "emit e c = c\<lparr>cn_events := cn_events c @ [e]\<rparr>"

definition link_send :: "world \<Rightarrow> link \<Rightarrow> bytes \<Rightarrow> connection \<Rightarrow> bool \<times> connection" where
  "link_send w l bs c =
    (case w_link w l bs of
       None \<Rightarrow> (True, c\<lparr>cn_written := cn_written c @ [(l, bs)]\<rparr>)
     | Some _ \<Rightarrow> (False, c))"

text \<open>Runs one operation of the sub-channel at an address.\<close>

definition at_channel :: "(sub_channel \<Rightarrow> sub_channel) \<Rightarrow> address \<Rightarrow> connection \<Rightarrow> connection" where
  "at_channel f a c = c\<lparr>cn_heap := (cn_heap c)[a := f (cn_heap c ! a)]\<rparr>"

fun at_removed :: "(sub_channel \<Rightarrow> sub_channel) \<Rightarrow> address option \<Rightarrow> connection \<Rightarrow> connection" where
  "at_removed f None c = c"
| "at_removed f (Some a) c = at_channel f a c"

section \<open>The tables\<close>

definition register :: "world \<Rightarrow> u32 \<Rightarrow> connection \<Rightarrow> address \<times> address \<times> connection" where
  "register w i c =
    (let data = length (cn_heap c);
         control = length (cn_heap c) + 1;
         tb = cn_tables c
     in (data, control,
         c\<lparr>cn_heap := cn_heap c @ [sub_data (w_env w) i, sub_control i],
           cn_tables := tb\<lparr>tb_data_channels := AList.update i data (tb_data_channels tb),
                           tb_control_channels := AList.update i control (tb_control_channels tb)\<rparr>\<rparr>))"

fun advance :: "table_step \<Rightarrow> u32 \<Rightarrow> channel_table \<Rightarrow> channel_table" where
  "advance Hold i t = t"
| "advance Local_Step i t = snd (local_close i t)"
| "advance Remote_Step i t = snd (remote_close i t)"

definition unregister :: "teardown \<Rightarrow> u32 \<Rightarrow> tables \<Rightarrow> address option \<times> address option \<times> tables" where
  "unregister v i tb =
    (let data = (if drop_data v then map_of (tb_data_channels tb) i else None);
         tb = (if drop_data v then tb\<lparr>tb_data_channels := AList.delete i (tb_data_channels tb)\<rparr> else tb);
         control = (if drop_control v then map_of (tb_control_channels tb) i else None);
         tb = (if drop_control v then tb\<lparr>tb_control_channels := AList.delete i (tb_control_channels tb)\<rparr> else tb);
         tb = tb\<lparr>tb_data := advance (data_table v) i (tb_data tb)\<rparr>;
         tb = tb\<lparr>tb_control := advance (control_table v) i (tb_control tb)\<rparr>
     in (data, control, tb))"

section \<open>What the owner calls\<close>

definition send_open_ack :: "world \<Rightarrow> u32 \<Rightarrow> bool \<Rightarrow> int \<Rightarrow> connection \<Rightarrow> connection" where
  "send_open_ack w i accepted resume_from_seq c =
    snd (link_send w Data_Link (mux_encode (ChannelOpenAck i accepted resume_from_seq)) c)"

definition note_open_ack :: "u32 \<Rightarrow> open_ack \<Rightarrow> connection \<Rightarrow> connection" where
  "note_open_ack i ack c =
    (if map_of (cn_open_acks c) i \<noteq> None
     then c\<lparr>cn_open_acks := AList.update i (Some ack) (cn_open_acks c)\<rparr> else c)"

definition forget_open_ack :: "u32 \<Rightarrow> connection \<Rightarrow> connection" where
  "forget_open_ack i c = c\<lparr>cn_open_acks := AList.delete i (cn_open_acks c)\<rparr>"

text \<open>The moment a waiter stops waiting: the slot was answered or removed, or its time ran out.\<close>

definition await_open_ack :: "u32 \<Rightarrow> connection \<Rightarrow> open_ack \<times> connection" where
  "await_open_ack i c =
    (case map_of (cn_open_acks c) i of
       Some (Some ack) \<Rightarrow> (ack, c\<lparr>cn_open_acks := AList.delete i (cn_open_acks c)\<rparr>)
     | Some None \<Rightarrow> (ack_refused, c)
     | None \<Rightarrow> (ack_refused, c))"

definition abandon :: "u32 \<Rightarrow> connection \<Rightarrow> connection" where
  "abandon i c =
    (let tb = cn_tables c;
         data = map_of (tb_data_channels tb) i;
         control = map_of (tb_control_channels tb) i;
         tb = tb\<lparr>tb_data_channels := AList.delete i (tb_data_channels tb),
                 tb_control_channels := AList.delete i (tb_control_channels tb),
                 tb_data := snd (local_close i (tb_data tb)),
                 tb_control := snd (local_close i (tb_control tb))\<rparr>;
         c = c\<lparr>cn_tables := tb\<rparr>;
         c = at_removed sub_finish data c;
         c = at_removed sub_finish control c
     in forget_open_ack i c)"

definition open_registered :: "world \<Rightarrow> connection \<Rightarrow> u32 \<times> opened_channel \<times> connection" where
  "open_registered w c =
    (case allocate (tb_data (cn_tables c)) of
       (i, allocated) \<Rightarrow>
         (let tb = cn_tables c;
              c = c\<lparr>cn_tables := tb\<lparr>tb_data := open_channel i allocated,
                                     tb_control := open_channel i (tb_control tb)\<rparr>\<rparr>
          in case register w i c of
               (data, control, c) \<Rightarrow>
                 (i, \<lparr>oc_channel_id = i, oc_data = data, oc_control = control\<rparr>,
                  c\<lparr>cn_open_acks := AList.update i None (cn_open_acks c)\<rparr>)))"

definition conn_open_channel ::
  "world \<Rightarrow> open_request \<Rightarrow> connection \<Rightarrow> (open_failure + opened_channel) \<times> connection" where
  "conn_open_channel w request c =
    (if \<not> initiates_opens (cn_role c) then (Inl NotInitiator, c)
     else if cn_torn_down c then (Inl OpenLinkDown, c)
     else case open_registered w c of
            (i, opened, c) \<Rightarrow>
              (let frame = mux_encode (ChannelOpen i (rq_session_id request) (rq_last_received_seq request)
                              (rq_channel_class request) (rq_initial_cwd request))
               in case link_send w Data_Link frame c of
                    (True, c) \<Rightarrow> (Inr opened, c)
                  | (False, c) \<Rightarrow> (Inl OpenLinkDown, abandon i c)))"

definition close_channel :: "world \<Rightarrow> u32 \<Rightarrow> mux_close_reason \<Rightarrow> connection \<Rightarrow> connection" where
  "close_channel w i reason c =
    (let close = mux_encode (ChannelClose i reason);
         c = snd (link_send w Data_Link close c);
         c = snd (link_send w Control_Link close c)
     in abandon i c)"

definition tear_down :: "connection \<Rightarrow> u32 list option \<times> connection" where
  "tear_down c =
    (if cn_torn_down c then (None, c)
     else
       let c = c\<lparr>cn_torn_down := True, cn_links_closed := True, cn_open_acks := []\<rparr>;
           tb = cn_tables c;
           ids = map fst (tb_data_channels tb);
           channels = map snd (tb_data_channels tb) @ map snd (tb_control_channels tb);
           c = c\<lparr>cn_tables := tb\<lparr>tb_data_channels := [], tb_control_channels := []\<rparr>\<rparr>
       in (Some ids, fold (at_channel finish_link_down) channels c))"

definition close :: "connection \<Rightarrow> connection" where
  "close c = snd (tear_down c)"

definition report_link_down :: "bool \<Rightarrow> connection \<Rightarrow> connection" where
  "report_link_down failed c =
    (case tear_down c of
       (None, c) \<Rightarrow> c
     | (Some channels, c) \<Rightarrow> emit (EvLinkDown failed channels) c)"

section \<open>The demux\<close>

definition conn_deliver :: "world \<Rightarrow> u32 \<Rightarrow> bytes \<Rightarrow> link \<Rightarrow> connection \<Rightarrow> connection" where
  "conn_deliver w i payload lane c =
    (case map_of (case lane of Control_Link \<Rightarrow> tb_control_channels (cn_tables c)
                             | Data_Link \<Rightarrow> tb_data_channels (cn_tables c)) i of
       None \<Rightarrow> c
     | Some target \<Rightarrow>
        (if sc_finished (cn_heap c ! target) then
           let verdict = poisoned (cn_role c) lane in
           case unregister verdict i (cn_tables c) of
             (data, control, tb) \<Rightarrow>
               (let sibling = (if lane = Control_Link then data else control);
                    c = at_removed sub_finish sibling (c\<lparr>cn_tables := tb\<rparr>)
                in if reap verdict then emit (EvClosed i Retired) c else c)
         else
           case sub_deliver (w_listening w target) payload (cn_heap c ! target) of
             (_, ms, sc) \<Rightarrow>
               c\<lparr>cn_heap := (cn_heap c)[target := sc],
                 cn_delivered := cn_delivered c @ map (Pair target) ms\<rparr>))"

fun close_reason_of :: "mux_frame \<Rightarrow> mux_close_reason option" where
  "close_reason_of (ChannelClose _ reason) = Some reason"
| "close_reason_of _ = None"

definition peer_closed :: "u32 \<Rightarrow> mux_frame \<Rightarrow> link \<Rightarrow> connection \<Rightarrow> connection" where
  "peer_closed i frame lane c =
    (let verdict = peer_close (cn_role c) lane in
     case unregister verdict i (cn_tables c) of
       (data, control, tb) \<Rightarrow>
         (let (arriving, sibling) = (if lane = Control_Link then (control, data) else (data, control));
              reason = close_reason_of frame;
              c = at_removed (case reason of Some r \<Rightarrow> finish_closed_by_peer r | None \<Rightarrow> sub_finish) arriving
                    (c\<lparr>cn_tables := tb\<rparr>);
              c = at_removed sub_finish sibling c
          in if reap verdict then emit (EvClosed i (case reason of Some r \<Rightarrow> r | None \<Rightarrow> Retired)) c else c))"

definition arrival_of :: "frame_kind \<Rightarrow> u32 \<Rightarrow> link \<Rightarrow> connection \<Rightarrow> arrival" where
  "arrival_of kind i lane c =
    \<lparr>ar_role = cn_role c, ar_link = lane, ar_kind = kind,
     ar_registered = (map_of (tb_data_channels (cn_tables c)) i \<noteq> None),
     ar_live_channels = length (tb_data_channels (cn_tables c)),
     ar_prior_data_state = state_of (tb_data (cn_tables c)) i\<rparr>"

text \<open>The host's answer to an open of this end.\<close>

fun record_ack :: "mux_frame \<Rightarrow> connection \<Rightarrow> connection" where
  "record_ack (ChannelOpenAck i accepted seq) c =
    note_open_ack i \<lparr>oa_accepted = accepted, oa_resume_from_seq = seq\<rparr> c"
| "record_ack _ c = c"

fun ack_accepted :: "mux_frame \<Rightarrow> bool" where
  "ack_accepted (ChannelOpenAck _ accepted _) = accepted"
| "ack_accepted _ = False"

definition route_table :: "frame_kind \<Rightarrow> u32 \<Rightarrow> bool \<Rightarrow> link \<Rightarrow> connection \<Rightarrow> routing_decision \<times> connection" where
  "route_table kind i accepted lane c =
    (let tb = cn_tables c in
     case lane of
       Control_Link \<Rightarrow> (case route kind i accepted (tb_control tb) of
                          (d, t) \<Rightarrow> (d, c\<lparr>cn_tables := tb\<lparr>tb_control := t\<rparr>\<rparr>))
     | Data_Link \<Rightarrow> (case route kind i accepted (tb_data tb) of
                       (d, t) \<Rightarrow> (d, c\<lparr>cn_tables := tb\<lparr>tb_data := t\<rparr>\<rparr>)))"

text \<open>The grant of a \<open>windowAdjust\<close>, which returns before the decision is looked at.\<close>

definition route_grant :: "u32 \<Rightarrow> u32 \<Rightarrow> connection \<Rightarrow> connection" where
  "route_grant i bytes_to_add c =
    (case map_of (tb_data_channels (cn_tables c)) i of
       None \<Rightarrow> c
     | Some a \<Rightarrow> at_channel (grant_credit (int (unat bytes_to_add))) a c)"

text \<open>An open that arrived on DATA: mirrored into the control table, and a new id is registered.\<close>

fun accept_open :: "world \<Rightarrow> mux_frame \<Rightarrow> link \<Rightarrow> connection \<Rightarrow> connection" where
  "accept_open w (ChannelOpen i sid seq cls cwd) Data_Link c =
    (let tb = cn_tables c;
         c = c\<lparr>cn_tables := tb\<lparr>tb_control := open_channel i (tb_control tb)\<rparr>\<rparr>
     in if map_of (tb_data_channels (cn_tables c)) i \<noteq> None then c
        else case register w i c of
               (data, control, c) \<Rightarrow>
                 emit (EvOpened \<lparr>co_channel_id = i, co_session_id = sid, co_last_received_seq = seq,
                         co_channel_class = cls, co_initial_cwd = cwd, co_data = data, co_control = control\<rparr>) c)"
| "accept_open w _ _ c = c"

definition conn_route :: "world \<Rightarrow> mux_frame \<Rightarrow> bytes \<Rightarrow> link \<Rightarrow> connection \<Rightarrow> connection" where
  "conn_route w frame payload lane c =
    (case kind_from_wire (mux_type_as_byte (mux_type frame)) of
       None \<Rightarrow> c
     | Some kind \<Rightarrow>
        (let i = channel_id frame in
         case admit (arrival_of kind i lane c) of
           Refuse _ \<Rightarrow> send_open_ack w i False 0 c
         | DropSilently _ \<Rightarrow> c
         | Proceed \<Rightarrow>
            (case route_table kind i (ack_accepted frame) lane (record_ack frame c) of
               (decision, c) \<Rightarrow>
                 (case frame of
                    WindowAdjust _ bytes_to_add \<Rightarrow> route_grant i bytes_to_add c
                  | _ \<Rightarrow>
                     (let c = accept_open w frame lane c in
                      case decision of
                        DeliverData j \<Rightarrow> conn_deliver w j payload lane c
                      | Lifecycle j s \<Rightarrow>
                          (if s = Closed \<or> s = HalfClosed then peer_closed j frame lane c else c)
                      | DropFrame _ _ \<Rightarrow> c)))))"

section \<open>The receive loops\<close>

definition mux_pending :: "mux_frame_decoder \<Rightarrow> nat" where
  "mux_pending md = length (buffer (md_reader md)) - read_offset (md_reader md)"

lemma next_frame_consumes:
  "next_frame_leaving_payload md = (Inr (Some x), md') \<Longrightarrow> mux_pending md' < mux_pending md"
  by (auto simp: next_frame_leaving_payload_def mux_next_inner_def mux_pending_def
      dest!: next_payload_consumes split: prod.splits)

text \<open>\<open>True\<close>: every complete frame was routed; \<open>False\<close>: a decode fault.\<close>

function drain :: "world \<Rightarrow> link \<Rightarrow> mux_frame_decoder \<Rightarrow> connection \<Rightarrow> bool \<times> mux_frame_decoder \<times> connection" where
  "drain w lane md c =
    (case next_frame_leaving_payload md of
       (Inr (Some (frame, payload)), md) \<Rightarrow>
         drain w lane md (conn_route w frame (mux_payload_bytes md payload) lane c)
     | (Inr None, md) \<Rightarrow> (True, md, c)
     | (Inl _, md) \<Rightarrow> (False, md, c))"
  by pat_completeness auto
termination
  by (relation "measure (\<lambda>(w, lane, md, c). mux_pending md)") (auto dest: next_frame_consumes [OF sym])

declare drain.simps [simp del]

text \<open>What one \<open>recv\<close> answers.\<close>

datatype recv_result = RecvBytes bytes | RecvInterrupted | RecvFailed

fun receive_loop ::
  "world \<Rightarrow> link \<Rightarrow> recv_result list \<Rightarrow> mux_frame_decoder \<Rightarrow> connection \<Rightarrow> mux_frame_decoder \<times> connection" where
  "receive_loop w lane [] md c = (md, c)"
| "receive_loop w lane (RecvInterrupted # rs) md c = receive_loop w lane rs md c"
| "receive_loop w lane (RecvFailed # rs) md c = (md, report_link_down True c)"
| "receive_loop w lane (RecvBytes chunk # rs) md c =
    (if chunk = [] then (md, report_link_down False c)
     else case drain w lane (mux_append chunk md) c of
            (True, md, c) \<Rightarrow> receive_loop w lane rs md c
          | (False, md, c) \<Rightarrow> (md, report_link_down True c))"

end
