(* ===== verification/Mux_Reach.thy ===== *)
theory Mux_Reach
  imports Mux_Connection
begin

text \<open>
  What every reachable state of a mux connection keeps, whatever the peer sends: the connection
  invariant, its preservation by every operation and by the demux of any frame on either link, and the
  properties that follow.
\<close>

section \<open>How table steps move the live ids\<close>

definition live :: "channel_table \<Rightarrow> u32 \<Rightarrow> bool" where
  "live t i \<longleftrightarrow> states t i = Some Idle_State \<or> states t i = Some Open"

text \<open>A step that neither allocates nor makes an entry.\<close>

definition tame :: "channel_table \<Rightarrow> channel_table \<Rightarrow> bool" where
  "tame t t' \<longleftrightarrow> table_inv t' \<and> last_allocated t' = last_allocated t \<and> dom (states t') \<subseteq> dom (states t)"

lemma note_terminal_last [simp]: "last_allocated (note_terminal i t) = last_allocated t"
  by (simp add: note_terminal_def Let_def)

lemma live_not_terminal: "live t i \<longleftrightarrow> states t i \<noteq> None \<and> \<not> terminal t i"
  by (cases "states t i"; cases "the (states t i)") (auto simp: live_def terminal_def)

lemma ring_step:
  assumes "table_inv t" "live t i" "s = HalfClosed \<or> s = Closed"
  defines "t' \<equiv> note_terminal i (t\<lparr>states := (states t)(i \<mapsto> s)\<rparr>)"
  shows "tame t t'" "live t' j \<longleftrightarrow> live t j \<and> j \<noteq> i"
proof -
  let ?u = "t\<lparr>states := (states t)(i \<mapsto> s)\<rparr>"
  have f: "fresh_terminal ?u i" using assms by (auto intro!: fresh_terminal_update simp: terminal_def live_def)
  have dom: "i \<in> dom (states t)" using assms(2) by (auto simp: live_def)
  show "tame t t'"
    unfolding t'_def tame_def using f dom
    by (cases rule: note_terminal_states [OF f]) (auto intro: note_terminal_inv split: if_splits)
  show "live t' j \<longleftrightarrow> live t j \<and> j \<noteq> i"
    unfolding t'_def using assms(3)
    by (cases rule: note_terminal_states [OF f]) (auto simp: live_def terminal_def split: if_splits)
qed

lemma tame_refl: "table_inv t \<Longrightarrow> tame t t"
  by (simp add: tame_def)

lemma advance_close_moves:
  assumes "table_inv t"
  shows "tame t (snd (advance_close i t))" "live (snd (advance_close i t)) j \<longleftrightarrow> live t j \<and> j \<noteq> i"
    "fst (advance_close i t) = Closed \<or> fst (advance_close i t) = HalfClosed"
proof -
  have "tame t (snd (advance_close i t)) \<and> (live (snd (advance_close i t)) j \<longleftrightarrow> live t j \<and> j \<noteq> i)"
  proof (cases "live t i")
    case True
    then have "snd (advance_close i t) = note_terminal i (t\<lparr>states := (states t)(i \<mapsto> HalfClosed)\<rparr>)"
      by (auto simp: advance_close_def live_def)
    then show ?thesis using ring_step [OF assms True, of HalfClosed] by simp
  next
    case False
    then show ?thesis using advance_close_inv [OF assms, of i]
      by (auto simp: tame_def advance_close_def live_def split: option.splits channel_state.splits)
  qed
  then show "tame t (snd (advance_close i t))" "live (snd (advance_close i t)) j \<longleftrightarrow> live t j \<and> j \<noteq> i" by auto
  show "fst (advance_close i t) = Closed \<or> fst (advance_close i t) = HalfClosed"
    by (simp add: advance_close_def split: option.splits channel_state.splits)
qed

lemma reject_moves:
  assumes "table_inv t"
  shows "tame t (snd (reject i t))" "live (snd (reject i t)) j \<longleftrightarrow> live t j \<and> j \<noteq> i"
    "fst (reject i t) = Closed \<or> fst (reject i t) = HalfClosed"
proof -
  have live_case: "tame t (snd (reject i t)) \<and> (live (snd (reject i t)) j \<longleftrightarrow> live t j \<and> j \<noteq> i)" for j
  proof (cases "live t i")
    case True
    then have "snd (reject i t) = note_terminal i (t\<lparr>states := (states t)(i \<mapsto> Closed)\<rparr>)"
      by (auto simp: reject_def live_def Let_def)
    then show ?thesis using ring_step [OF assms True, of Closed] by simp
  next
    case False
    then show ?thesis using reject_inv [OF assms, of i] by (auto simp: tame_def reject_def live_def Let_def)
  qed
  then show "tame t (snd (reject i t))" "live (snd (reject i t)) j \<longleftrightarrow> live t j \<and> j \<noteq> i" by auto
  have "\<not> live (snd (reject i t)) i" using live_case by simp
  then show "fst (reject i t) = Closed \<or> fst (reject i t) = HalfClosed"
    by (auto simp: reject_def live_def Let_def split: option.splits if_splits) (metis channel_state.exhaust)+
qed

lemma open_moves:
  assumes "table_inv t"
  shows "table_inv (open_channel i t)" "last_allocated (open_channel i t) = last_allocated t"
    "live (open_channel i t) j \<longleftrightarrow> live t j \<or> (j = i \<and> \<not> terminal t i)"
    "dom (states (open_channel i t)) \<subseteq> insert i (dom (states t))"
  using open_inv [OF assms, of i]
  by (auto simp: open_channel_def live_def terminal_def split: option.splits channel_state.splits)

lemma open_known:
  assumes "table_inv t" "states t i \<noteq> None"
  shows "tame t (open_channel i t)" "live (open_channel i t) j \<longleftrightarrow> live t j"
  using open_moves [OF assms(1), of i] assms(2) by (auto simp: tame_def live_not_terminal)

section \<open>The heap of sub-channels\<close>

text \<open>Sub-channels keep their identity, and one that is finished stays so.\<close>

definition sub_le :: "sub_channel \<Rightarrow> sub_channel \<Rightarrow> bool" where
  "sub_le sc sc' \<longleftrightarrow> sc_channel_id sc' = sc_channel_id sc \<and> sc_lane sc' = sc_lane sc \<and>
     (sc_finished sc \<longrightarrow> sc_finished sc')"

definition heap_le :: "sub_channel list \<Rightarrow> sub_channel list \<Rightarrow> bool" where
  "heap_le H H' \<longleftrightarrow> length H' = length H \<and> (\<forall>a<length H. sub_le (H ! a) (H' ! a))"

lemma sub_le_refl [simp]: "sub_le sc sc"
  by (simp add: sub_le_def)

lemma sub_le_trans: "sub_le x y \<Longrightarrow> sub_le y z \<Longrightarrow> sub_le x z"
  by (simp add: sub_le_def)

lemma finish_le [simp]: "sub_le sc (finish_with e sc)" "sub_le sc (sub_finish sc)"
  "sub_le sc (finish_closed_by_peer r sc)" "sub_le sc (finish_link_down sc)"
  by (simp_all add: sub_le_def finish_with_def sub_finish_def finish_closed_by_peer_def finish_link_down_def)

lemma finish_finishes [simp]: "sc_finished (finish_with e sc)" "sc_finished (sub_finish sc)"
  "sc_finished (finish_closed_by_peer r sc)" "sc_finished (finish_link_down sc)"
  by (simp_all add: finish_with_def sub_finish_def finish_closed_by_peer_def finish_link_down_def)

lemma grant_le: "sub_le sc (grant_credit n sc)"
  by (simp add: sub_le_def grant_credit_def split: option.split)

lemma deliver_loop_le: "sub_le sc (snd (deliver_loop l sc))"
proof (induction l sc rule: deliver_loop.induct)
  case (1 l sc)
  obtain res fd where n: "next_message (sc_inbound_decoder sc) = (res, fd)" by fastforce
  have le: "sub_le sc (sc\<lparr>sc_inbound_decoder := fd\<rparr>)" "sub_le sc (sc\<lparr>sc_inbound_decoder := fd, sc_inbound := False\<rparr>)"
    by (simp_all add: sub_le_def)
  show ?case
  proof (cases res)
    case (Inl e)
    then show ?thesis using n sub_le_trans [OF le(1) finish_le(1)] by (subst deliver_loop.simps) simp
  next
    case (Inr mo)
    show ?thesis
    proof (cases mo)
      case None
      then show ?thesis using n Inr le by (subst deliver_loop.simps) simp
    next
      case (Some m)
      have "sc_inbound sc \<Longrightarrow> l \<Longrightarrow> sub_le sc (snd (deliver_loop l (sc\<lparr>sc_inbound_decoder := fd\<rparr>)))"
        using "1.IH" [of res fd mo m] n Inr Some sub_le_trans [OF le(1)] by simp
      then show ?thesis using n Inr Some le by (subst deliver_loop.simps) (auto simp: split_beta Let_def)
    qed
  qed
qed

lemma sub_deliver_le: "sub_deliver l p sc = (n, ms, sc') \<Longrightarrow> sub_le sc sc'"
  using deliver_loop_le [of "sc\<lparr>sc_inbound_decoder := decoder_append p (sc_inbound_decoder sc)\<rparr>" l]
  by (auto simp: sub_deliver_def sub_le_def split: prod.splits)

lemma heap_le_refl [simp]: "heap_le H H"
  by (simp add: heap_le_def)

lemma heap_le_trans: "heap_le A B \<Longrightarrow> heap_le B C \<Longrightarrow> heap_le A C"
  by (auto simp: heap_le_def intro: sub_le_trans)

lemma heap_le_update: "sub_le (H ! a) sc \<Longrightarrow> heap_le H (H[a := sc])"
  unfolding heap_le_def by (auto simp: nth_list_update_eq) (case_tac "aa = a"; simp)

lemma at_channel_simps [simp]:
  "cn_role (at_channel f a c) = cn_role c" "cn_tables (at_channel f a c) = cn_tables c"
  "cn_open_acks (at_channel f a c) = cn_open_acks c" "cn_torn_down (at_channel f a c) = cn_torn_down c"
  "cn_events (at_channel f a c) = cn_events c" "cn_delivered (at_channel f a c) = cn_delivered c"
  "cn_heap (at_channel f a c) = (cn_heap c)[a := f (cn_heap c ! a)]"
  by (simp_all add: at_channel_def)

lemma at_removed_simps [simp]:
  "cn_role (at_removed f a c) = cn_role c" "cn_tables (at_removed f a c) = cn_tables c"
  "cn_open_acks (at_removed f a c) = cn_open_acks c" "cn_torn_down (at_removed f a c) = cn_torn_down c"
  "cn_events (at_removed f a c) = cn_events c" "cn_delivered (at_removed f a c) = cn_delivered c"
  by (cases a; simp)+

lemma at_removed_heap:
  assumes "\<And>sc. sub_le sc (f sc)" "\<And>sc. sc_finished (f sc)"
  shows "heap_le (cn_heap c) (cn_heap (at_removed f x c))"
    "x = Some a \<Longrightarrow> a < length (cn_heap c) \<Longrightarrow> sc_finished (cn_heap (at_removed f x c) ! a)"
    "x \<noteq> Some a \<Longrightarrow> cn_heap (at_removed f x c) ! a = cn_heap c ! a"
  using assms by (cases x; simp add: heap_le_update)+

lemma emit_simps [simp]:
  "cn_role (emit e c) = cn_role c" "cn_tables (emit e c) = cn_tables c" "cn_open_acks (emit e c) = cn_open_acks c"
  "cn_torn_down (emit e c) = cn_torn_down c" "cn_heap (emit e c) = cn_heap c" "cn_delivered (emit e c) = cn_delivered c"
  "cn_events (emit e c) = cn_events c @ [e]"
  by (simp_all add: emit_def)

lemma link_send_simps [simp]:
  "cn_role (snd (link_send w l bs c)) = cn_role c" "cn_tables (snd (link_send w l bs c)) = cn_tables c"
  "cn_open_acks (snd (link_send w l bs c)) = cn_open_acks c" "cn_torn_down (snd (link_send w l bs c)) = cn_torn_down c"
  "cn_heap (snd (link_send w l bs c)) = cn_heap c" "cn_delivered (snd (link_send w l bs c)) = cn_delivered c"
  "cn_events (snd (link_send w l bs c)) = cn_events c"
  by (simp_all add: link_send_def split: option.split)

section \<open>The connection invariant\<close>

text \<open>
  \<open>dispatch_ok\<close>: the maps point at distinct sub-channels of the right id and link, and a sub-channel
  that no map points at is finished. \<open>host_ok\<close>: at the host, before the teardown, the registered ids
  are the live ids of the data table, and every live id of the control table is one of them.
  \<open>below\<close>: at the client, everything is keyed by an id the allocator has given out.
\<close>

definition dispatch_ok :: "dispatch \<Rightarrow> dispatch \<Rightarrow> sub_channel list \<Rightarrow> bool" where
  "dispatch_ok D C H \<longleftrightarrow> distinct (map fst D) \<and> distinct (map fst C) \<and> distinct (map snd D @ map snd C) \<and>
     (\<forall>(i, a)\<in>set D. a < length H \<and> sc_channel_id (H ! a) = i \<and> sc_lane (H ! a) = Data_Link) \<and>
     (\<forall>(i, a)\<in>set C. a < length H \<and> sc_channel_id (H ! a) = i \<and> sc_lane (H ! a) = Control_Link) \<and>
     (\<forall>a<length H. a \<in> snd ` set D \<or> a \<in> snd ` set C \<or> sc_finished (H ! a))"

definition host_ok :: "tables \<Rightarrow> bool" where
  "host_ok tb \<longleftrightarrow> (\<forall>i. live (tb_data tb) i \<longleftrightarrow> i \<in> fst ` set (tb_data_channels tb)) \<and>
     (\<forall>i. live (tb_control tb) i \<longrightarrow> i \<in> fst ` set (tb_data_channels tb))"

definition host_inv :: "bool \<Rightarrow> tables \<Rightarrow> (u32 \<times> open_ack option) list \<Rightarrow> bool" where
  "host_inv down tb acks \<longleftrightarrow> acks = [] \<and> fst ` set (tb_control_channels tb) \<subseteq> fst ` set (tb_data_channels tb) \<and>
     length (tb_data_channels tb) \<le> max_channels_per_connection \<and> (\<not> down \<longrightarrow> host_ok tb)"

definition below :: "u32 \<Rightarrow> u32 set" where
  "below l = {i. unat i \<le> unat l}"

definition client_inv :: "tables \<Rightarrow> (u32 \<times> open_ack option) list \<Rightarrow> bool" where
  "client_inv tb acks \<longleftrightarrow> fst ` set (tb_data_channels tb) \<union> fst ` set (tb_control_channels tb) \<union>
     dom (states (tb_data tb)) \<union> dom (states (tb_control tb)) \<union> fst ` set acks \<subseteq> below (last_allocated (tb_data tb)) - {0}"

definition conn_ok :: "role \<Rightarrow> bool \<Rightarrow> tables \<Rightarrow> (u32 \<times> open_ack option) list \<Rightarrow> sub_channel list \<Rightarrow> bool" where
  "conn_ok r down tb acks H \<longleftrightarrow> dispatch_ok (tb_data_channels tb) (tb_control_channels tb) H \<and>
     table_inv (tb_data tb) \<and> table_inv (tb_control tb) \<and> distinct (map fst acks) \<and>
     (r = Host \<longrightarrow> host_inv down tb acks) \<and> (r = Client \<longrightarrow> client_inv tb acks)"

definition conn_inv :: "connection \<Rightarrow> bool" where
  "conn_inv c \<longleftrightarrow> conn_ok (cn_role c) (cn_torn_down c) (cn_tables c) (cn_open_acks c) (cn_heap c)"

lemma serve_inv: "conn_inv (serve r)"
  by (simp add: conn_inv_def conn_ok_def serve_def tables_new_def dispatch_ok_def table_inv_new host_inv_def
      host_ok_def client_inv_def live_def) (simp add: table_new_def)

lemma dispatch_heap_le:
  assumes "dispatch_ok D C H" "heap_le H H'"
  shows "dispatch_ok D C H'"
proof -
  have same: "a < length H \<Longrightarrow> sc_channel_id (H' ! a) = sc_channel_id (H ! a) \<and> sc_lane (H' ! a) = sc_lane (H ! a) \<and>
    (sc_finished (H ! a) \<longrightarrow> sc_finished (H' ! a))" for a
    using assms(2) by (simp add: heap_le_def sub_le_def)
  have len: "length H' = length H" using assms(2) by (simp add: heap_le_def)
  show ?thesis using assms(1) same unfolding dispatch_ok_def len by (simp add: split_beta) blast
qed

lemma conn_ok_heap: "conn_ok r down tb acks H \<Longrightarrow> heap_le H H' \<Longrightarrow> conn_ok r down tb acks H'"
  by (auto simp: conn_ok_def intro: dispatch_heap_le)

section \<open>Ending a channel\<close>

lemma alist_delete_set: "set (AList.delete k xs) = {x \<in> set xs. fst x \<noteq> k}"
  by (auto simp: AList.delete_eq)

lemma alist_delete_keys: "fst ` set (AList.delete k xs) = fst ` set xs - {k}"
  by (auto simp: alist_delete_set)

lemma alist_delete_distinct: "distinct (map f xs) \<Longrightarrow> distinct (map f (AList.delete k xs))"
  by (simp add: AList.delete_eq distinct_map_filter)

lemma alist_delete_length: "length (AList.delete k xs) \<le> length xs"
  by (simp add: AList.delete_eq)

definition delete_if :: "bool \<Rightarrow> u32 \<Rightarrow> dispatch \<Rightarrow> dispatch" where
  "delete_if d i D = (if d then AList.delete i D else D)"

lemma delete_if_set: "set (delete_if d i D) = {x \<in> set D. d \<longrightarrow> fst x \<noteq> i}"
  by (auto simp: delete_if_def alist_delete_set)

lemma delete_if_keys: "fst ` set (delete_if d i D) = fst ` set D - (if d then {i} else {})"
  by (simp add: delete_if_def alist_delete_keys)

lemma delete_if_distinct: "distinct (map f D) \<Longrightarrow> distinct (map f (delete_if d i D))"
  by (simp add: delete_if_def alist_delete_distinct)

lemma dispatch_remove:
  assumes ok: "dispatch_ok D C H" and le: "heap_le H H'"
    and fin: "\<And>a. d \<and> map_of D i = Some a \<or> e \<and> map_of C i = Some a \<Longrightarrow> sc_finished (H' ! a)"
  shows "dispatch_ok (delete_if d i D) (delete_if e i C) H'"
proof -
  have H': "dispatch_ok D C H'" using ok le by (rule dispatch_heap_le)
  then have keys: "distinct (map fst D)" "distinct (map fst C)" "distinct (map snd D)" "distinct (map snd C)"
    "set (map snd D) \<inter> set (map snd C) = {}" by (simp_all add: dispatch_ok_def)
  have "distinct (map snd (delete_if d i D) @ map snd (delete_if e i C))"
    using keys(3-5) by (auto simp: delete_if_distinct delete_if_set)
  moreover have "a \<in> snd ` set (delete_if d i D) \<or> a \<in> snd ` set (delete_if e i C) \<or> sc_finished (H' ! a)"
    if "a < length H'" for a
  proof -
    consider j where "(j, a) \<in> set D" | j where "(j, a) \<in> set C" | "sc_finished (H' ! a)"
      using H' \<open>a < length H'\<close> by (auto simp: dispatch_ok_def)
    then show ?thesis
    proof cases
      case (1 j)
      then show ?thesis using fin [of a] keys(1)
        by (cases "d \<and> j = i") (force simp: delete_if_set)+
    next
      case (2 j)
      then show ?thesis using fin [of a] keys(2)
        by (cases "e \<and> j = i") (force simp: delete_if_set)+
    qed simp
  qed
  ultimately show ?thesis using H' keys(1,2)
    by (auto simp: dispatch_ok_def delete_if_distinct delete_if_set)
qed

text \<open>One channel leaves the maps named by the flags, its sub-channels there finished and the tables stepped.\<close>

lemma conn_ok_remove:
  assumes ok: "conn_ok r down tb acks H" and le: "heap_le H H'"
    and fin: "\<And>a. d \<and> map_of (tb_data_channels tb) i = Some a \<or> e \<and> map_of (tb_control_channels tb) i = Some a \<Longrightarrow>
      sc_finished (H' ! a)"
    and maps: "tb_data_channels tb' = delete_if d i (tb_data_channels tb)"
      "tb_control_channels tb' = delete_if e i (tb_control_channels tb)"
    and tame: "tame (tb_data tb) (tb_data tb')" "tame (tb_control tb) (tb_control tb')"
    and acks: "distinct (map fst acks')" "fst ` set acks' \<subseteq> fst ` set acks"
    and host: "r = Host \<Longrightarrow> d \<longrightarrow> e"
      "\<And>j. r = Host \<Longrightarrow> live (tb_data tb') j \<longleftrightarrow> live (tb_data tb) j \<and> (d \<longrightarrow> j \<noteq> i)"
      "\<And>j. r = Host \<Longrightarrow> live (tb_control tb') j \<Longrightarrow> live (tb_control tb) j \<and> (d \<longrightarrow> j \<noteq> i)"
  shows "conn_ok r down tb' acks' H'"
proof -
  have "dispatch_ok (tb_data_channels tb') (tb_control_channels tb') H'"
    unfolding maps using ok le fin by (intro dispatch_remove) (auto simp: conn_ok_def)
  moreover have "host_inv down tb' acks'" if r: "r = Host"
  proof -
    have inv: "host_inv down tb acks" using ok r by (simp add: conn_ok_def)
    have "host_ok tb'" if "\<not> down"
      using inv that host(2,3) [OF r] by (auto simp: host_inv_def host_ok_def maps delete_if_keys)
    moreover have "fst ` set (tb_control_channels tb') \<subseteq> fst ` set (tb_data_channels tb')"
      using inv host(1) [OF r] unfolding maps delete_if_keys by (auto simp: host_inv_def)
    moreover have "length (tb_data_channels tb') \<le> length (tb_data_channels tb)"
      by (simp add: maps delete_if_def alist_delete_length)
    moreover have "acks' = []" using inv acks(2) by (simp add: host_inv_def)
    ultimately show ?thesis using inv by (simp add: host_inv_def)
  qed
  moreover have "client_inv tb' acks'" if "r = Client"
  proof -
    have inv: "client_inv tb acks" using ok that by (simp add: conn_ok_def)
    have last: "last_allocated (tb_data tb') = last_allocated (tb_data tb)" using tame by (simp add: tame_def)
    have doms: "dom (states (tb_data tb')) \<subseteq> dom (states (tb_data tb))" "dom (states (tb_control tb')) \<subseteq> dom (states (tb_control tb))"
      using tame by (simp_all add: tame_def)
    have regs: "fst ` set (tb_data_channels tb') \<subseteq> fst ` set (tb_data_channels tb)"
      "fst ` set (tb_control_channels tb') \<subseteq> fst ` set (tb_control_channels tb)"
      unfolding maps delete_if_keys by (rule Diff_subset)+
    show ?thesis unfolding client_inv_def last
      by (rule order_trans [OF _ inv [unfolded client_inv_def]]) (intro Un_mono regs doms acks(2))
  qed
  ultimately show ?thesis using acks(1) tame by (auto simp: conn_ok_def tame_def)
qed

lemma at_removed_two:
  assumes f: "\<And>sc. sub_le sc (f sc)" "\<And>sc. sc_finished (f sc)" and g: "\<And>sc. sub_le sc (g sc)" "\<And>sc. sc_finished (g sc)"
    and bound: "\<forall>a. x = Some a \<or> y = Some a \<longrightarrow> a < length (cn_heap c)"
  shows "heap_le (cn_heap c) (cn_heap (at_removed g y (at_removed f x c)))"
    "x = Some a \<or> y = Some a \<Longrightarrow> sc_finished (cn_heap (at_removed g y (at_removed f x c)) ! a)"
proof -
  let ?c = "at_removed f x c"
  note le = at_removed_heap(1) [of f, OF f, of c x] at_removed_heap(1) [of g, OF g, of ?c y]
  show "heap_le (cn_heap c) (cn_heap (at_removed g y ?c))" by (rule heap_le_trans [OF le])
  show "sc_finished (cn_heap (at_removed g y ?c) ! a)" if "x = Some a \<or> y = Some a"
  proof -
    have a: "a < length (cn_heap c)" "a < length (cn_heap ?c)" using bound that le(1) by (auto simp: heap_le_def)
    show ?thesis using that
    proof
      assume "x = Some a"
      then have "sc_finished (cn_heap ?c ! a)" by (rule at_removed_heap(2) [OF f _ a(1)])
      then show ?thesis using le(2) a(2) by (simp add: heap_le_def sub_le_def)
    qed (rule at_removed_heap(2) [OF g _ a(2)])
  qed
qed

lemma dispatched_bound:
  assumes "conn_inv c" "map_of (tb_data_channels (cn_tables c)) i = Some a \<or> map_of (tb_control_channels (cn_tables c)) i = Some a"
  shows "a < length (cn_heap c)"
  using assms by (auto simp: conn_inv_def conn_ok_def dispatch_ok_def dest!: map_of_SomeD)

lemma local_close_moves:
  "table_inv t \<Longrightarrow> tame t (snd (local_close i t))" "table_inv t \<Longrightarrow> live (snd (local_close i t)) j \<longleftrightarrow> live t j \<and> j \<noteq> i"
  "table_inv t \<Longrightarrow> tame t (snd (remote_close i t))" "table_inv t \<Longrightarrow> live (snd (remote_close i t)) j \<longleftrightarrow> live t j \<and> j \<noteq> i"
  by (simp_all add: local_close_def remote_close_def advance_close_moves)

lemma abandon_inv:
  assumes inv: "conn_inv c"
  shows "conn_inv (abandon i c)"
proof -
  let ?tb = "cn_tables c"
  let ?x = "map_of (tb_data_channels ?tb) i" and ?y = "map_of (tb_control_channels ?tb) i"
  let ?tb' = "?tb\<lparr>tb_data_channels := AList.delete i (tb_data_channels ?tb),
    tb_control_channels := AList.delete i (tb_control_channels ?tb),
    tb_data := snd (local_close i (tb_data ?tb)), tb_control := snd (local_close i (tb_control ?tb))\<rparr>"
  let ?c = "at_removed sub_finish ?y (at_removed sub_finish ?x (c\<lparr>cn_tables := ?tb'\<rparr>))"
  have b: "\<forall>a. ?x = Some a \<or> ?y = Some a \<longrightarrow> a < length (cn_heap (c\<lparr>cn_tables := ?tb'\<rparr>))"
    using dispatched_bound [OF inv] by simp
  note two = at_removed_two [OF finish_le(2) finish_finishes(2) finish_le(2) finish_finishes(2) b]
  have tabs: "table_inv (tb_data ?tb)" "table_inv (tb_control ?tb)" using inv by (simp_all add: conn_inv_def conn_ok_def)
  have "conn_ok (cn_role c) (cn_torn_down c) ?tb' (AList.delete i (cn_open_acks c)) (cn_heap ?c)"
  proof (rule conn_ok_remove [where d = True and e = True and i = i])
    show "conn_ok (cn_role c) (cn_torn_down c) ?tb (cn_open_acks c) (cn_heap c)" using inv by (simp add: conn_inv_def)
    show "heap_le (cn_heap c) (cn_heap ?c)" using two(1) by simp
    show "sc_finished (cn_heap ?c ! a)" if "True \<and> ?x = Some a \<or> True \<and> ?y = Some a" for a using two(2) that by simp
    show "distinct (map fst (AList.delete i (cn_open_acks c)))"
      using inv by (simp add: conn_inv_def conn_ok_def alist_delete_distinct)
  qed (use tabs in \<open>simp_all add: delete_if_def local_close_moves alist_delete_keys\<close>)
  then show ?thesis by (simp add: abandon_def forget_open_ack_def conn_inv_def Let_def)
qed

lemma unregister_eq:
  "unregister v i tb =
    (if drop_data v then map_of (tb_data_channels tb) i else None,
     if drop_control v then map_of (tb_control_channels tb) i else None,
     tb\<lparr>tb_data_channels := delete_if (drop_data v) i (tb_data_channels tb),
        tb_control_channels := delete_if (drop_control v) i (tb_control_channels tb),
        tb_data := advance (data_table v) i (tb_data tb), tb_control := advance (control_table v) i (tb_control tb)\<rparr>)"
  by (simp add: unregister_def delete_if_def Let_def)

lemma tame_trans: "tame s t \<Longrightarrow> tame t u \<Longrightarrow> tame s u"
  unfolding tame_def by (elim conjE, intro conjI) (assumption, simp, rule subset_trans)

text \<open>The state between the router's table step and the teardown: the tables have moved, the maps have not.\<close>

definition routed :: "link \<Rightarrow> u32 \<Rightarrow> connection \<Rightarrow> connection \<Rightarrow> bool" where
  "routed lane i c c' \<longleftrightarrow> cn_role c' = cn_role c \<and> cn_torn_down c' = cn_torn_down c \<and> cn_heap c' = cn_heap c \<and>
     tb_data_channels (cn_tables c') = tb_data_channels (cn_tables c) \<and>
     tb_control_channels (cn_tables c') = tb_control_channels (cn_tables c) \<and>
     distinct (map fst (cn_open_acks c')) \<and> fst ` set (cn_open_acks c') \<subseteq> fst ` set (cn_open_acks c) \<and>
     tame (tb_data (cn_tables c)) (tb_data (cn_tables c')) \<and> tame (tb_control (cn_tables c)) (tb_control (cn_tables c')) \<and>
     (lane = Data_Link \<longrightarrow> tb_control (cn_tables c') = tb_control (cn_tables c) \<and>
        (\<forall>j. live (tb_data (cn_tables c')) j \<longleftrightarrow> live (tb_data (cn_tables c)) j \<and> j \<noteq> i)) \<and>
     (lane = Control_Link \<longrightarrow> tb_data (cn_tables c') = tb_data (cn_tables c) \<and>
        (\<forall>j. live (tb_control (cn_tables c')) j \<longleftrightarrow> live (tb_control (cn_tables c)) j \<and> j \<noteq> i))"

lemma peer_closed_inv:
  assumes inv: "conn_inv c" and r: "routed lane i c c'"
  shows "conn_inv (peer_closed i frame lane c')"
proof -
  let ?v = "peer_close (cn_role c') lane"
  let ?tb = "cn_tables c'"
  obtain data control tb where u: "unregister ?v i ?tb = (data, control, tb)" by (cases "unregister ?v i ?tb")
  define x where "x = (if lane = Control_Link then control else data)"
  define y where "y = (if lane = Control_Link then data else control)"
  define f where "f = (case close_reason_of frame of Some r \<Rightarrow> finish_closed_by_peer r | None \<Rightarrow> sub_finish)"
  let ?c = "at_removed sub_finish y (at_removed f x (c'\<lparr>cn_tables := tb\<rparr>))"
  have f: "sub_le sc (f sc)" "sc_finished (f sc)" for sc by (simp_all add: f_def split: option.split)
  have tb: "tb_data_channels tb = delete_if (drop_data ?v) i (tb_data_channels (cn_tables c))"
    "tb_control_channels tb = delete_if (drop_control ?v) i (tb_control_channels (cn_tables c))"
    "tb_data tb = tb_data ?tb" "tb_control tb = advance (control_table ?v) i (tb_control ?tb)"
    and dc: "data = (if drop_data ?v then map_of (tb_data_channels (cn_tables c)) i else None)"
    "control = (if drop_control ?v then map_of (tb_control_channels (cn_tables c)) i else None)"
    using u r by (auto simp: unregister_eq routed_def peer_close_def Let_def)
  have b: "\<forall>a. x = Some a \<or> y = Some a \<longrightarrow> a < length (cn_heap (c'\<lparr>cn_tables := tb\<rparr>))"
    using dispatched_bound [OF inv] r by (auto simp: x_def y_def dc routed_def split: if_splits)
  note two = at_removed_two [OF f finish_le(2) finish_finishes(2) b]
  have tabs: "table_inv (tb_data ?tb)" "table_inv (tb_control ?tb)" using r by (simp_all add: routed_def tame_def)
  have ctl: "tame (tb_control ?tb) (tb_control tb)"
    "live (tb_control tb) j \<longleftrightarrow> live (tb_control ?tb) j \<and> (cn_role c' = Host \<and> lane = Data_Link \<longrightarrow> j \<noteq> i)" for j
    using tabs(2) by (auto simp: tb(4) peer_close_def Let_def local_close_moves tame_refl)
  have "conn_ok (cn_role c) (cn_torn_down c) tb (cn_open_acks c') (cn_heap ?c)"
  proof (rule conn_ok_remove [where d = "drop_data ?v" and e = "drop_control ?v" and i = i])
    show "conn_ok (cn_role c) (cn_torn_down c) (cn_tables c) (cn_open_acks c) (cn_heap c)" using inv by (simp add: conn_inv_def)
    show "heap_le (cn_heap c) (cn_heap ?c)" using two(1) r by (simp add: routed_def)
    show "sc_finished (cn_heap ?c ! a)"
      if "drop_data ?v \<and> map_of (tb_data_channels (cn_tables c)) i = Some a \<or>
          drop_control ?v \<and> map_of (tb_control_channels (cn_tables c)) i = Some a" for a
      using two(2) that by (auto simp: x_def y_def dc split: if_splits)
    show "tame (tb_control (cn_tables c)) (tb_control tb)" using r tame_trans [OF _ ctl(1)] by (simp add: routed_def)
  qed (use r ctl(2) in \<open>cases lane; auto simp: tb routed_def peer_close_def Let_def split: if_splits\<close>)+
  moreover have "peer_closed i frame lane c' =
      (if reap ?v then emit (EvClosed i (case close_reason_of frame of Some r \<Rightarrow> r | None \<Rightarrow> Retired)) ?c else ?c)"
    by (simp add: peer_closed_def u x_def y_def f_def Let_def)
  ultimately show ?thesis using r by (simp add: conn_inv_def routed_def)
qed

lemma conn_deliver_inv:
  assumes inv: "conn_inv c"
  shows "conn_inv (conn_deliver w i payload lane c)"
proof -
  let ?m = "case lane of Control_Link \<Rightarrow> tb_control_channels (cn_tables c) | Data_Link \<Rightarrow> tb_data_channels (cn_tables c)"
  show ?thesis
  proof (cases "map_of ?m i")
    case None
    then show ?thesis using inv by (simp add: conn_deliver_def)
  next
    case (Some target)
    show ?thesis
    proof (cases "sc_finished (cn_heap c ! target)")
      case False
      obtain n ms sc where d: "sub_deliver (w_listening w target) payload (cn_heap c ! target) = (n, ms, sc)"
        by (cases "sub_deliver (w_listening w target) payload (cn_heap c ! target)")
      have "heap_le (cn_heap c) ((cn_heap c)[target := sc])" using sub_deliver_le [OF d] by (rule heap_le_update)
      then show ?thesis using conn_ok_heap inv Some False d by (simp add: conn_deliver_def conn_inv_def)
    next
      case True
      let ?v = "poisoned (cn_role c) lane"
      let ?tb = "cn_tables c"
      obtain data control tb where u: "unregister ?v i ?tb = (data, control, tb)" by (cases "unregister ?v i ?tb")
      define y where "y = (if lane = Control_Link then data else control)"
      let ?c = "at_removed sub_finish y (c\<lparr>cn_tables := tb\<rparr>)"
      have tabs: "table_inv (tb_data ?tb)" "table_inv (tb_control ?tb)" using inv by (simp_all add: conn_inv_def conn_ok_def)
      have tb: "tb = ?tb\<lparr>tb_data_channels := delete_if (drop_data ?v) i (tb_data_channels ?tb),
          tb_control_channels := delete_if (drop_control ?v) i (tb_control_channels ?tb),
          tb_data := advance (data_table ?v) i (tb_data ?tb), tb_control := advance (control_table ?v) i (tb_control ?tb)\<rparr>"
        and dc: "data = (if drop_data ?v then map_of (tb_data_channels ?tb) i else None)"
        "control = (if drop_control ?v then map_of (tb_control_channels ?tb) i else None)"
        using u by (auto simp: unregister_eq)
      have le: "heap_le (cn_heap c) (cn_heap ?c)"
        using at_removed_heap(1) [of sub_finish "c\<lparr>cn_tables := tb\<rparr>" y] by simp
      have "conn_ok (cn_role c) (cn_torn_down c) tb (cn_open_acks c) (cn_heap ?c)"
      proof (rule conn_ok_remove [where d = "drop_data ?v" and e = "drop_control ?v" and i = i])
        show "conn_ok (cn_role c) (cn_torn_down c) (cn_tables c) (cn_open_acks c) (cn_heap c)" using inv by (simp add: conn_inv_def)
        show "heap_le (cn_heap c) (cn_heap ?c)" by (rule le)
        show "sc_finished (cn_heap ?c ! a)"
          if m: "drop_data ?v \<and> map_of (tb_data_channels ?tb) i = Some a \<or>
              drop_control ?v \<and> map_of (tb_control_channels ?tb) i = Some a" for a
        proof -
          have a: "a < length (cn_heap c)" using dispatched_bound [OF inv] m by blast
          then show ?thesis
            using m True Some le at_removed_heap(2) [where f = sub_finish and x = y and a = a and c = "c\<lparr>cn_tables := tb\<rparr>", OF finish_le(2) finish_finishes(2)]
            by (cases lane) (auto simp: y_def dc heap_le_def sub_le_def split: if_splits)
        qed
        show "distinct (map fst (cn_open_acks c))" using inv by (simp add: conn_inv_def conn_ok_def)
      qed (use tabs in \<open>cases lane; auto simp: tb poisoned_def Let_def local_close_moves tame_refl split: if_splits\<close>)+
      moreover have "conn_deliver w i payload lane c = (if reap ?v then emit (EvClosed i Retired) ?c else ?c)"
        using Some True u by (simp add: conn_deliver_def y_def Let_def)
      ultimately show ?thesis by (simp add: conn_inv_def)
    qed
  qed
qed

section \<open>Opening a channel\<close>

lemma alist_update_fresh: "i \<notin> fst ` set E \<Longrightarrow> AList.update i v E = E @ [(i, v)]"
  by (induction E) auto

lemma dispatch_register:
  assumes ok: "dispatch_ok D C H" and fresh: "i \<notin> fst ` set D" "i \<notin> fst ` set C"
    and x: "sc_channel_id x = i" "sc_lane x = Data_Link" and y: "sc_channel_id y = i" "sc_lane y = Control_Link"
  shows "dispatch_ok (AList.update i (length H) D) (AList.update i (length H + 1) C) (H @ [x, y])"
proof -
  have old: "a < length H" if "(j, a) \<in> set D \<or> (j, a) \<in> set C" for j a
    using ok that by (auto simp: dispatch_ok_def)
  have "distinct (map snd (D @ [(i, length H)]) @ map snd (C @ [(i, length H + 1)]))"
    using ok old by (auto simp: dispatch_ok_def)
  moreover have "(H @ [x, y]) ! a = (if a < length H then H ! a else if a = length H then x else y)"
    if "a < length (H @ [x, y])" for a
    using that by (auto simp: nth_append less_Suc_eq)
  ultimately show ?thesis
    using ok fresh x y old unfolding alist_update_fresh [OF fresh(1)] alist_update_fresh [OF fresh(2)] dispatch_ok_def
    by (simp add: split_beta) (metis (no_types, lifting) less_Suc_eq less_SucI prod.collapse)
qed

lemma sub_data_simps [simp]: "sc_channel_id (sub_data env i) = i" "sc_lane (sub_data env i) = Data_Link"
    "sc_finished (sub_data env i) = False"
  by (simp_all add: sub_data_def sub_build_def Let_def)

lemma sub_control_simps [simp]: "sc_channel_id (sub_control i) = i" "sc_lane (sub_control i) = Control_Link"
    "sc_finished (sub_control i) = False"
  by (simp_all add: sub_control_def sub_build_def)

lemma dispatch_registered:
  "dispatch_ok D C H \<Longrightarrow> i \<notin> fst ` set D \<Longrightarrow> i \<notin> fst ` set C \<Longrightarrow>
    dispatch_ok (AList.update i (length H) D) (AList.update i (Suc (length H)) C) (H @ [sub_data env i, sub_control i])"
  using dispatch_register [of D C H i "sub_data env i" "sub_control i"] by simp

definition set_data_table :: "channel_table \<Rightarrow> connection \<Rightarrow> connection" where
  "set_data_table t c = c\<lparr>cn_tables := (cn_tables c)\<lparr>tb_data := t\<rparr>\<rparr>"

definition set_control_table :: "channel_table \<Rightarrow> connection \<Rightarrow> connection" where
  "set_control_table t c = c\<lparr>cn_tables := (cn_tables c)\<lparr>tb_control := t\<rparr>\<rparr>"

lemma not_mapped: "map_of D i = None \<longleftrightarrow> i \<notin> fst ` set D" for D :: dispatch
  by (rule map_of_eq_None_iff)

lemma admitted_open:
  assumes "admit (arrival_of KChannelOpen i lane c) = Proceed"
  shows "cn_role c = Host" "lane = Data_Link" "\<not> terminal (tb_data (cn_tables c)) i"
    "map_of (tb_data_channels (cn_tables c)) i = None \<longrightarrow>
      length (tb_data_channels (cn_tables c)) < max_channels_per_connection"
  using assms by (cases "cn_role c"; cases lane;
      auto simp: admit_def arrival_of_def initiates_opens_def terminal_def state_of_def Let_def split: if_splits)+

lemma accept_open_inv:
  assumes inv: "conn_inv c" and adm: "admit (arrival_of KChannelOpen i Data_Link c) = Proceed"
  shows "conn_inv (accept_open w (ChannelOpen i sid seq cls cwd) Data_Link
    (set_data_table (open_channel i (tb_data (cn_tables c))) c))"
proof -
  let ?tb = "cn_tables c"
  let ?tb1 = "?tb\<lparr>tb_data := open_channel i (tb_data ?tb), tb_control := open_channel i (tb_control ?tb)\<rparr>"
  note a = admitted_open [OF adm]
  have tabs: "table_inv (tb_data ?tb)" "table_inv (tb_control ?tb)" using inv by (simp_all add: conn_inv_def conn_ok_def)
  have host: "host_inv (cn_torn_down c) ?tb (cn_open_acks c)" "cn_role c \<noteq> Client"
    and disp: "dispatch_ok (tb_data_channels ?tb) (tb_control_channels ?tb) (cn_heap c)"
    and acks: "distinct (map fst (cn_open_acks c))"
    using inv a(1) by (simp_all add: conn_inv_def conn_ok_def)
  have lives: "live (tb_data ?tb1) j \<longleftrightarrow> live (tb_data ?tb) j \<or> j = i"
    "live (tb_control ?tb1) j \<longrightarrow> live (tb_control ?tb) j \<or> j = i" for j
    using open_moves(3) tabs a(3) by simp_all
  show ?thesis
  proof (cases "map_of (tb_data_channels ?tb) i")
    case (Some x)
    then have mem: "i \<in> fst ` set (tb_data_channels ?tb)" by (metis not_mapped option.distinct(1))
    have "host_inv (cn_torn_down c) ?tb1 (cn_open_acks c)"
      using host(1) lives mem unfolding host_inv_def host_ok_def by (simp del: image_iff) blast
    then have "conn_ok (cn_role c) (cn_torn_down c) ?tb1 (cn_open_acks c) (cn_heap c)"
      using host(2) disp acks open_moves(1) tabs by (simp add: conn_ok_def)
    then show ?thesis using Some by (simp add: set_data_table_def conn_inv_def Let_def)
  next
    case None
    let ?D = "AList.update i (length (cn_heap c)) (tb_data_channels ?tb)"
    let ?C = "AList.update i (Suc (length (cn_heap c))) (tb_control_channels ?tb)"
    let ?tb2 = "?tb1\<lparr>tb_data_channels := ?D, tb_control_channels := ?C\<rparr>"
    have fresh: "i \<notin> fst ` set (tb_data_channels ?tb)" "i \<notin> fst ` set (tb_control_channels ?tb)"
      using None host(1) not_mapped by (auto simp: host_inv_def)
    have keys: "fst ` set ?D = insert i (fst ` set (tb_data_channels ?tb))"
      "fst ` set ?C = insert i (fst ` set (tb_control_channels ?tb))"
      "length ?D = Suc (length (tb_data_channels ?tb))"
      by (simp_all add: alist_update_fresh fresh)
    have "host_inv (cn_torn_down c) ?tb2 (cn_open_acks c)"
      using host(1) lives a(4) None unfolding host_inv_def host_ok_def
      by (simp add: keys) blast
    then have "conn_ok (cn_role c) (cn_torn_down c) ?tb2 (cn_open_acks c)
        (cn_heap c @ [sub_data (w_env w) i, sub_control i])"
      using host(2) acks open_moves(1) tabs dispatch_registered [OF disp fresh] by (simp add: conn_ok_def)
    then show ?thesis using None by (simp add: set_data_table_def register_def conn_inv_def Let_def)
  qed
qed

section \<open>The demux, frame by frame\<close>

definition lane_table :: "link \<Rightarrow> connection \<Rightarrow> channel_table" where
  "lane_table lane c = (case lane of Control_Link \<Rightarrow> tb_control (cn_tables c) | Data_Link \<Rightarrow> tb_data (cn_tables c))"

definition set_lane_table :: "link \<Rightarrow> channel_table \<Rightarrow> connection \<Rightarrow> connection" where
  "set_lane_table lane t c = (case lane of Control_Link \<Rightarrow> set_control_table t c | Data_Link \<Rightarrow> set_data_table t c)"

lemma set_lane_table_same [simp]: "set_lane_table lane (lane_table lane c) c = c"
  by (simp add: set_lane_table_def lane_table_def set_data_table_def set_control_table_def split: link.split)

lemma route_table_eq:
  "route_table k i acc lane c =
    (fst (route k i acc (lane_table lane c)), set_lane_table lane (snd (route k i acc (lane_table lane c))) c)"
  by (cases lane)
    (simp_all add: route_table_def lane_table_def set_lane_table_def set_data_table_def set_control_table_def split_beta Let_def)

lemma kind_of_frame:
  "kind_from_wire (mux_type_as_byte (mux_type (ChannelOpen i s q cls d))) = Some KChannelOpen"
  "kind_from_wire (mux_type_as_byte (mux_type (ChannelOpenAck i b q))) = Some KChannelOpenAck"
  "kind_from_wire (mux_type_as_byte (mux_type (ChannelData i p))) = Some KChannelData"
  "kind_from_wire (mux_type_as_byte (mux_type (ChannelClose i r))) = Some KChannelClose"
  "kind_from_wire (mux_type_as_byte (mux_type (WindowAdjust i n))) = Some KWindowAdjust"
  by (simp_all add: kind_from_wire_def)

lemma admit_other: "k \<noteq> KChannelOpen \<Longrightarrow> admit (arrival_of k i lane c) = Proceed"
  by (simp add: admit_def arrival_of_def)

lemma route_data:
  "conn_route w (ChannelData i b) p lane c = (if is_open (lane_table lane c) i then conn_deliver w i p lane c else c)"
  unfolding conn_route_def kind_of_frame option.case Let_def channel_id.simps
  by (simp add: admit_other route_table_eq)

lemma route_adjust: "conn_route w (WindowAdjust i n) p lane c = route_grant i n c"
  unfolding conn_route_def kind_of_frame option.case Let_def channel_id.simps
  by (simp add: admit_other route_table_eq)

lemma closed_decision:
  "s = Closed \<or> s = HalfClosed \<Longrightarrow>
    (case Lifecycle j s of DeliverData j \<Rightarrow> x j | Lifecycle j s \<Rightarrow> if s = Closed \<or> s = HalfClosed then y j else z
     | DropFrame _ _ \<Rightarrow> z) = y j"
  by auto

lemma route_close:
  assumes "table_inv (lane_table lane c)"
  shows "conn_route w (ChannelClose i r) p lane c =
    peer_closed i (ChannelClose i r) lane (set_lane_table lane (snd (remote_close i (lane_table lane c))) c)"
  using advance_close_moves(3) [OF assms, of i]
  unfolding conn_route_def kind_of_frame option.case Let_def channel_id.simps
  by (simp add: admit_other route_table_eq remote_close_def split_beta)

lemma route_ack:
  assumes "table_inv (lane_table lane c)" and c'_def: "c' = note_open_ack i \<lparr>oa_accepted = acc, oa_resume_from_seq = seq\<rparr> c"
  shows "conn_route w (ChannelOpenAck i acc seq) p lane c =
    (if acc then
       if live (lane_table lane c) i then set_lane_table lane (open_channel i (lane_table lane c)) c'
       else peer_closed i (ChannelOpenAck i acc seq) lane c'
     else peer_closed i (ChannelOpenAck i acc seq) lane (set_lane_table lane (snd (reject i (lane_table lane c))) c'))"
proof -
  have same: "lane_table lane c' = lane_table lane c" by (simp add: c'_def note_open_ack_def lane_table_def split: link.split)
  have c': "record_ack (ChannelOpenAck i acc seq) c = c'" by (simp add: c'_def)
  show ?thesis
  proof (cases acc)
    case False
    then show ?thesis using reject_moves(3) [OF assms(1), of i]
      unfolding conn_route_def kind_of_frame option.case Let_def channel_id.simps c'
      by (simp add: admit_other route_table_eq same split_beta)
  next
    case True
    let ?t = "lane_table lane c"
    have "(live ?t i \<longrightarrow> lifecycle (open_channel i ?t) i Closed = Lifecycle i Open \<and> state_of ?t i \<noteq> None) \<and>
        (\<not> live ?t i \<longrightarrow> (\<exists>s. (s = Closed \<or> s = HalfClosed) \<and>
           lifecycle (if state_of ?t i \<noteq> None then open_channel i ?t else ?t) i Closed = Lifecycle i s) \<and>
           (state_of ?t i \<noteq> None \<longrightarrow> open_channel i ?t = ?t))"
      by (cases "states ?t i"; cases "the (states ?t i)")
        (auto simp: live_def lifecycle_def state_of_def open_channel_def)
    with True show ?thesis
      unfolding conn_route_def kind_of_frame option.case Let_def channel_id.simps c'
      by (auto simp: admit_other route_table_eq same [symmetric] Let_def split: if_splits)
  qed
qed

lemma route_open:
  "conn_route w (ChannelOpen i sid seq cls cwd) p lane c =
    (case admit (arrival_of KChannelOpen i lane c) of
       Refuse _ \<Rightarrow> send_open_ack w i False 0 c
     | DropSilently _ \<Rightarrow> c
     | Proceed \<Rightarrow> accept_open w (ChannelOpen i sid seq cls cwd) Data_Link
                   (set_data_table (open_channel i (tb_data (cn_tables c))) c))"
proof (cases "admit (arrival_of KChannelOpen i lane c)")
  case Proceed
  note a = admitted_open [OF this]
  have "lifecycle (open_channel i (tb_data (cn_tables c))) i Open = Lifecycle i Open"
    using a(3) by (auto simp: lifecycle_def state_of_def open_channel_def terminal_def split: option.splits channel_state.splits)
  then show ?thesis using Proceed a(2)
    unfolding conn_route_def kind_of_frame option.case Let_def channel_id.simps
    by (simp add: route_table_eq lane_table_def set_lane_table_def Let_def)
qed (simp_all add: conn_route_def kind_from_wire_def)

section \<open>Every operation keeps the invariant\<close>

lemma inv_tables: "conn_inv c \<Longrightarrow> table_inv (lane_table lane c)"
  by (cases lane) (simp_all add: lane_table_def conn_inv_def conn_ok_def)

lemma note_ack_simps [simp]:
  "cn_role (note_open_ack i a c) = cn_role c" "cn_tables (note_open_ack i a c) = cn_tables c"
  "cn_torn_down (note_open_ack i a c) = cn_torn_down c" "cn_heap (note_open_ack i a c) = cn_heap c"
  "cn_events (note_open_ack i a c) = cn_events c" "cn_delivered (note_open_ack i a c) = cn_delivered c"
  by (simp_all add: note_open_ack_def)

lemma note_ack_keys:
  assumes "distinct (map fst (cn_open_acks c))"
  shows "distinct (map fst (cn_open_acks (note_open_ack i a c)))"
    "fst ` set (cn_open_acks (note_open_ack i a c)) = fst ` set (cn_open_acks c)"
proof -
  show "distinct (map fst (cn_open_acks (note_open_ack i a c)))"
    using assms by (simp add: note_open_ack_def distinct_update)
  have "dom (map_of (AList.update i v xs)) = insert i (dom (map_of xs))" for v and xs :: "(u32 \<times> open_ack option) list"
    by (simp add: update_conv')
  then show "fst ` set (cn_open_acks (note_open_ack i a c)) = fst ` set (cn_open_acks c)"
    by (cases "i \<in> fst ` set (cn_open_acks c)")
      (simp_all add: note_open_ack_def dom_map_of_conv_image_fst insert_absorb map_of_eq_None_iff del: image_iff)
qed

lemma routed_close:
  assumes inv: "conn_inv c" and ack: "c' = c \<or> (\<exists>j a. c' = note_open_ack j a c)"
    and t: "tame (lane_table lane c) t" "\<And>j. live t j \<longleftrightarrow> live (lane_table lane c) j \<and> j \<noteq> i"
  shows "routed lane i c (set_lane_table lane t c')"
proof -
  have d: "distinct (map fst (cn_open_acks c))" using inv by (simp add: conn_inv_def conn_ok_def)
  have c': "cn_role c' = cn_role c" "cn_torn_down c' = cn_torn_down c" "cn_heap c' = cn_heap c"
    "cn_tables c' = cn_tables c" "distinct (map fst (cn_open_acks c'))"
    "fst ` set (cn_open_acks c') \<subseteq> fst ` set (cn_open_acks c)"
    using ack d note_ack_keys [OF d] by (elim disjE exE; simp)+
  show ?thesis using t inv_tables [OF inv, of Data_Link] inv_tables [OF inv, of Control_Link]
    by (cases lane)
      (simp_all add: routed_def c' set_lane_table_def lane_table_def set_data_table_def set_control_table_def tame_refl)
qed

lemma note_ack_inv: "conn_inv c \<Longrightarrow> conn_inv (note_open_ack i a c)"
  using note_ack_keys [of c i a] by (simp add: conn_inv_def conn_ok_def host_inv_def client_inv_def) (simp add: note_open_ack_def)

lemma open_live_inv:
  assumes inv: "conn_inv c" and "live (lane_table lane c) i"
  shows "conn_inv (set_lane_table lane (open_channel i (lane_table lane c)) c)"
proof -
  let ?t = "lane_table lane c"
  let ?c = "set_lane_table lane (open_channel i ?t) c"
  have t: "tame ?t (open_channel i ?t)" "live (open_channel i ?t) j \<longleftrightarrow> live ?t j" for j
    using open_known inv_tables [OF inv] assms(2) by (auto simp: live_not_terminal)
  have "conn_ok (cn_role c) (cn_torn_down c) (cn_tables ?c) (cn_open_acks c) (cn_heap c)"
  proof (rule conn_ok_remove [where d = False and e = False and i = i])
    show "conn_ok (cn_role c) (cn_torn_down c) (cn_tables c) (cn_open_acks c) (cn_heap c)" using inv by (simp add: conn_inv_def)
    show "distinct (map fst (cn_open_acks c))" using inv by (simp add: conn_inv_def conn_ok_def)
  qed (use t inv_tables [OF inv, of Data_Link] inv_tables [OF inv, of Control_Link] in \<open>cases lane;
      simp add: delete_if_def set_lane_table_def lane_table_def set_data_table_def set_control_table_def tame_refl\<close>)+
  then show ?thesis by (cases lane)
    (simp_all add: conn_inv_def set_lane_table_def set_data_table_def set_control_table_def)
qed

lemma lane_table_note_ack [simp]: "lane_table lane (note_open_ack i a c) = lane_table lane c"
  by (cases lane) (simp_all add: lane_table_def)

lemma send_open_ack_inv: "conn_inv c \<Longrightarrow> conn_inv (send_open_ack w i acc seq c)"
  by (simp add: send_open_ack_def conn_inv_def)

lemma conn_route_inv:
  assumes inv: "conn_inv c"
  shows "conn_inv (conn_route w frame p lane c)"
proof (cases frame)
  case (ChannelOpen i sid seq cls cwd)
  show ?thesis
  proof (cases "admit (arrival_of KChannelOpen i lane c)")
    case Proceed
    then show ?thesis using accept_open_inv [OF inv] admitted_open(2) [OF Proceed]
      unfolding ChannelOpen route_open by simp
  qed (simp_all add: ChannelOpen route_open inv send_open_ack_inv)
next
  case (ChannelOpenAck i acc seq)
  let ?c = "note_open_ack i \<lparr>oa_accepted = acc, oa_resume_from_seq = seq\<rparr> c"
  let ?t = "lane_table lane c"
  have inv': "conn_inv ?c" by (rule note_ack_inv [OF inv])
  have rej: "routed lane i c (set_lane_table lane (snd (reject i ?t)) ?c)"
    using reject_moves [OF inv_tables [OF inv]] by (intro routed_close [OF inv]) auto
  have known: "routed lane i c ?c" if "\<not> live ?t i"
    using routed_close [OF inv, of ?c lane ?t i] that tame_refl [OF inv_tables [OF inv]]
    by (metis lane_table_note_ack set_lane_table_same)
  show ?thesis unfolding ChannelOpenAck route_ack [OF inv_tables [OF inv] refl]
    using open_live_inv [OF inv', of lane i] peer_closed_inv [OF inv rej] peer_closed_inv [OF inv known] by auto
next
  case (ChannelData i b)
  then show ?thesis using inv conn_deliver_inv by (simp add: route_data)
next
  case (ChannelClose i r)
  have "routed lane i c (set_lane_table lane (snd (remote_close i (lane_table lane c))) c)"
    using local_close_moves [OF inv_tables [OF inv]] by (intro routed_close [OF inv]) auto
  then show ?thesis unfolding ChannelClose route_close [OF inv_tables [OF inv]] by (rule peer_closed_inv [OF inv])
next
  case (WindowAdjust i n)
  then show ?thesis using inv conn_ok_heap heap_le_update [OF grant_le]
    by (simp add: route_adjust route_grant_def conn_inv_def split: option.split)
qed

lemma alist_update_keys: "fst ` set (AList.update k v xs) = insert k (fst ` set xs)"
  by (metis dom_map_of_conv_image_fst dom_fun_upd option.distinct(1) update_conv')

text \<open>An allocator that has room hands out an id nothing is keyed by.\<close>

lemma allocate_fresh:
  assumes "unat (last_allocated t) + 2 < 2 ^ 32" "allocate t = (i, t')"
  shows "i \<notin> below (last_allocated t) - {0}" "i \<noteq> 0" "last_allocated t' = i"
    "below (last_allocated t) \<subseteq> below i" "i \<in> below i"
proof -
  have t': "last_allocated t' = i" and i: "i = (if last_allocated t = 0 then 1 else u32_sat_add (last_allocated t) 2)"
    using assms(2) by (auto simp: allocate_def Let_def)
  have n: "last_allocated t = 0 \<and> i = 1 \<or> last_allocated t \<noteq> 0 \<and> unat i = unat (last_allocated t) + 2"
    using i unat_sat_step [OF assms(1)] by auto
  show "last_allocated t' = i" by (rule t')
  show "i \<noteq> 0" "i \<in> below i" using n by (auto simp: below_def)
  show "below (last_allocated t) \<subseteq> below i" "i \<notin> below (last_allocated t) - {0}" using n by (auto simp: below_def)
qed

lemma open_registered_inv:
  assumes inv: "conn_inv c" and role: "cn_role c = Client"
    and room: "unat (last_allocated (tb_data (cn_tables c))) + 2 < 2 ^ 32"
    and reg: "open_registered w c = (i, opened, c')"
  shows "conn_inv c'" "cn_torn_down c' = cn_torn_down c" "cn_role c' = cn_role c" "cn_events c' = cn_events c"
proof -
  let ?tb = "cn_tables c"
  obtain t where al: "allocate (tb_data ?tb) = (i, t)" using reg by (auto simp: open_registered_def Let_def split: prod.splits)
  note fr = allocate_fresh [OF room al]
  let ?tb' = "?tb\<lparr>tb_data := open_channel i t, tb_control := open_channel i (tb_control ?tb),
    tb_data_channels := AList.update i (length (cn_heap c)) (tb_data_channels ?tb),
    tb_control_channels := AList.update i (Suc (length (cn_heap c))) (tb_control_channels ?tb)\<rparr>"
  let ?H = "cn_heap c @ [sub_data (w_env w) i, sub_control i]"
  have c': "cn_tables c' = ?tb'" "cn_heap c' = ?H" "cn_open_acks c' = AList.update i None (cn_open_acks c)"
    and same: "cn_torn_down c' = cn_torn_down c" "cn_role c' = cn_role c" "cn_events c' = cn_events c"
    using reg al by (auto simp: open_registered_def register_def Let_def)
  have ok: "client_inv ?tb (cn_open_acks c)" "dispatch_ok (tb_data_channels ?tb) (tb_control_channels ?tb) (cn_heap c)"
    "table_inv (tb_data ?tb)" "table_inv (tb_control ?tb)" "distinct (map fst (cn_open_acks c))"
    using inv role by (simp_all add: conn_inv_def conn_ok_def)
  have fresh: "i \<notin> fst ` set (tb_data_channels ?tb)" "i \<notin> fst ` set (tb_control_channels ?tb)"
    "i \<notin> dom (states (tb_data ?tb))"
    using ok(1) fr(1) unfolding client_inv_def by blast+
  have t_inv: "table_inv t"
    using allocate_inv [OF ok(3)] fresh(3) al by (auto simp: terminal_def dom_def)
  have dom_t: "dom (states t) = insert i (dom (states (tb_data ?tb)))" using al by (auto simp: allocate_def Let_def)
  have doms: "dom (states (open_channel i t)) \<subseteq> insert i (dom (states (tb_data ?tb)))"
    "dom (states (open_channel i (tb_control ?tb))) \<subseteq> insert i (dom (states (tb_control ?tb)))"
    using open_moves(4) [OF t_inv, of i] open_moves(4) [OF ok(4), of i] dom_t by auto
  have "client_inv ?tb' (AList.update i None (cn_open_acks c))"
  proof -
    let ?B = "below (last_allocated (tb_data ?tb)) - {0}"
    have grow: "insert i ?B \<subseteq> below i - {0}" using fr(2,4,5) by blast
    have last: "last_allocated (open_channel i t) = i" using open_moves(2) [OF t_inv] fr(3) by simp
    have old: "fst ` set (tb_data_channels ?tb) \<subseteq> ?B" "fst ` set (tb_control_channels ?tb) \<subseteq> ?B"
      "dom (states (tb_data ?tb)) \<subseteq> ?B" "dom (states (tb_control ?tb)) \<subseteq> ?B" "fst ` set (cn_open_acks c) \<subseteq> ?B"
      using ok(1) unfolding client_inv_def Un_subset_iff by auto
    note up = order_trans [OF insert_mono grow]
    have "fst ` set (tb_data_channels ?tb') \<subseteq> below i - {0}" "fst ` set (tb_control_channels ?tb') \<subseteq> below i - {0}"
      "dom (states (tb_data ?tb')) \<subseteq> below i - {0}" "dom (states (tb_control ?tb')) \<subseteq> below i - {0}"
      "fst ` set (AList.update i None (cn_open_acks c)) \<subseteq> below i - {0}"
      using up [OF old(1)] up [OF old(2)] order_trans [OF doms(1) up [OF old(3)]]
        order_trans [OF doms(2) up [OF old(4)]] up [OF old(5)] by (simp_all add: alist_update_keys del: subset_Diff_insert)
    then show ?thesis by (simp add: client_inv_def last)
  qed
  then have "conn_ok Client (cn_torn_down c) ?tb' (AList.update i None (cn_open_acks c)) ?H"
    using ok fresh t_inv open_moves(1) dispatch_registered [OF ok(2) fresh(1,2)]
    by (simp add: conn_ok_def distinct_update)
  then show "conn_inv c'" using role by (simp add: conn_inv_def c' same)
qed (use reg in \<open>auto simp: open_registered_def register_def Let_def split: prod.splits\<close>)

lemma conn_open_channel_inv:
  assumes inv: "conn_inv c" and room: "unat (last_allocated (tb_data (cn_tables c))) + 2 < 2 ^ 32"
  shows "conn_inv (snd (conn_open_channel w rq c))"
proof (cases "\<not> initiates_opens (cn_role c) \<or> cn_torn_down c")
  case True
  then show ?thesis using inv by (auto simp: conn_open_channel_def)
next
  case False
  obtain i opened c1 where reg: "open_registered w c = (i, opened, c1)" by (cases "open_registered w c")
  obtain ok c2 where snt: "link_send w Data_Link (mux_encode (ChannelOpen i (rq_session_id rq) (rq_last_received_seq rq)
      (rq_channel_class rq) (rq_initial_cwd rq))) c1 = (ok, c2)" by fastforce
  have c1: "conn_inv c1" using open_registered_inv(1) [OF inv _ room reg] False
    by (cases "cn_role c") (simp_all add: initiates_opens_def)
  have c2: "c2 = snd (link_send w Data_Link (mux_encode (ChannelOpen i (rq_session_id rq) (rq_last_received_seq rq)
      (rq_channel_class rq) (rq_initial_cwd rq))) c1)" using snt by simp
  have "conn_inv c2" using c1 unfolding conn_inv_def c2 link_send_simps .
  then show ?thesis using False snt reg abandon_inv by (cases ok) (simp_all add: conn_open_channel_def Let_def)
qed

lemma fold_channels_simps [simp]:
  "cn_role (fold (at_channel f) xs c) = cn_role c" "cn_tables (fold (at_channel f) xs c) = cn_tables c"
  "cn_open_acks (fold (at_channel f) xs c) = cn_open_acks c" "cn_torn_down (fold (at_channel f) xs c) = cn_torn_down c"
  "cn_events (fold (at_channel f) xs c) = cn_events c"
  by (induction xs arbitrary: c) simp_all

lemma fold_channels_le:
  assumes f: "\<And>sc. sub_le sc (f sc)"
  shows "heap_le (cn_heap c) (cn_heap (fold (at_channel f) xs c))"
proof (induction xs arbitrary: c)
  case (Cons x xs)
  show ?case
    using heap_le_trans [OF heap_le_update [OF f] Cons.IH [of "at_channel f x c", unfolded at_channel_simps]] by simp
qed simp

lemma fold_channels_finished:
  assumes f: "\<And>sc. sub_le sc (f sc)" "\<And>sc. sc_finished (f sc)" and "a \<in> set xs" "a < length (cn_heap c)"
  shows "sc_finished (cn_heap (fold (at_channel f) xs c) ! a)"
  using assms(3,4)
proof (induction xs arbitrary: c)
  case (Cons x xs)
  show ?case
  proof (cases "a \<in> set xs")
    case True
    then show ?thesis using Cons.IH [of "at_channel f x c"] Cons.prems by simp
  next
    case False
    then have "sc_finished (cn_heap (at_channel f x c) ! a)" using Cons.prems f(2) by simp
    then show ?thesis using fold_channels_le [of f "at_channel f x c" xs, OF f(1)] Cons.prems(2)
      by (auto simp: heap_le_def sub_le_def)
  qed
qed simp

lemma tear_down_finishes:
  assumes inv: "conn_inv c" and td: "tear_down c = (Some ids, c')"
  shows "conn_inv c'" "cn_torn_down c'" "cn_open_acks c' = []" "live_channel_count c' = 0"
    "\<forall>a<length (cn_heap c'). sc_finished (cn_heap c' ! a)" "cn_events c' = cn_events c"
proof -
  let ?tb = "(cn_tables c)\<lparr>tb_data_channels := [], tb_control_channels := []\<rparr>"
  let ?c = "c\<lparr>cn_torn_down := True, cn_links_closed := True, cn_open_acks := [], cn_tables := ?tb\<rparr>"
  let ?xs = "map snd (tb_data_channels (cn_tables c)) @ map snd (tb_control_channels (cn_tables c))"
  have c': "c' = fold (at_channel finish_link_down) ?xs ?c"
    using td by (auto simp: tear_down_def Let_def split: if_splits)
  note f = fold_channels_simps [of finish_link_down ?xs ?c, folded c']
  have ok: "dispatch_ok (tb_data_channels (cn_tables c)) (tb_control_channels (cn_tables c)) (cn_heap c)"
    using inv by (simp add: conn_inv_def conn_ok_def)
  have le: "heap_le (cn_heap c) (cn_heap c')" using fold_channels_le [OF finish_le(4), of ?c ?xs] c' by simp
  show fin: "\<forall>a<length (cn_heap c'). sc_finished (cn_heap c' ! a)"
  proof (intro allI impI)
    fix a assume "a < length (cn_heap c')"
    then have a: "a < length (cn_heap c)" using le by (simp add: heap_le_def)
    then have "a \<in> set ?xs \<or> sc_finished (cn_heap c ! a)" using ok by (auto simp: dispatch_ok_def)
    then show "sc_finished (cn_heap c' ! a)"
      using fold_channels_finished [OF finish_le(4) finish_finishes(4), of a ?xs ?c] c' le a
      by (auto simp: heap_le_def sub_le_def)
  qed
  have "dispatch_ok [] [] (cn_heap c')" using fin by (simp add: dispatch_ok_def)
  then show "conn_inv c'" using inv f
    by (auto simp: conn_inv_def conn_ok_def host_inv_def client_inv_def)
  show "cn_torn_down c'" "cn_open_acks c' = []" "live_channel_count c' = 0" "cn_events c' = cn_events c"
    using f by (simp_all add: live_channel_count_def)
qed

lemma close_inv: "conn_inv c \<Longrightarrow> conn_inv (close c)"
  using tear_down_finishes(1) [of c] by (cases "tear_down c"; cases "fst (tear_down c)")
    (auto simp: close_def tear_down_def Let_def split: if_splits)

lemma report_link_down_inv: "conn_inv c \<Longrightarrow> conn_inv (report_link_down failed c)"
  using tear_down_finishes(1) [of c]
  by (cases "cn_torn_down c") (auto simp: report_link_down_def tear_down_def Let_def conn_inv_def)

lemma close_channel_inv: "conn_inv c \<Longrightarrow> conn_inv (close_channel w i r c)"
  unfolding close_channel_def Let_def by (rule abandon_inv) (simp add: conn_inv_def)

lemma await_open_ack_inv: "conn_inv c \<Longrightarrow> conn_inv (snd (await_open_ack i c))"
  by (auto simp: await_open_ack_def conn_inv_def conn_ok_def host_inv_def client_inv_def alist_delete_distinct
      alist_delete_keys split: option.split)

end
