(* ===== verification/Mux_Run.thy ===== *)
theory Mux_Run
  imports Mux_Reach
begin

text \<open>
  Runs of a mux connection: any interleaving of frames from the peer on both links with the calls of the
  owner. The bounds a hostile peer cannot break, the isolation of the channels from each other, in-order
  reassembly through the demux, and how everything ends.
\<close>

section \<open>One frame leaves the other channels alone\<close>

lemma ring_other:
  assumes "table_inv t" "live t i" "s = HalfClosed \<or> s = Closed" "j \<noteq> i" "live t j"
  shows "states (note_terminal i (t\<lparr>states := (states t)(i \<mapsto> s)\<rparr>)) j = states t j"
proof -
  let ?u = "t\<lparr>states := (states t)(i \<mapsto> s)\<rparr>"
  have f: "fresh_terminal ?u i" using assms by (auto intro!: fresh_terminal_update simp: terminal_def live_def)
  show ?thesis using assms(4,5)
    by (cases rule: note_terminal_states [OF f]) (auto simp: live_def terminal_def)
qed

lemma open_is_live: "is_open t j \<Longrightarrow> live t j"
  by (simp add: is_open_def live_def)

lemma close_other_open:
  assumes "table_inv t" "j \<noteq> i"
  shows "is_open (snd (advance_close i t)) j = is_open t j" "is_open (snd (reject i t)) j = is_open t j"
proof -
  have *: "is_open (note_terminal i (t\<lparr>states := (states t)(i \<mapsto> s)\<rparr>)) j = is_open t j"
    if "live t i" "s = HalfClosed \<or> s = Closed" for s
    using ring_other [OF assms(1) that(1,2) assms(2)] ring_step(2) [OF assms(1) that, of j] assms(2)
    by (metis is_open_def open_is_live)
  show "is_open (snd (advance_close i t)) j = is_open t j"
  proof (cases "live t i")
    case True
    then show ?thesis using * by (auto simp: advance_close_def live_def)
  next
    case False
    then show ?thesis using assms(2)
      by (auto simp: advance_close_def live_def is_open_def split: option.splits channel_state.splits)
  qed
  show "is_open (snd (reject i t)) j = is_open t j"
  proof (cases "live t i")
    case True
    then show ?thesis using * by (auto simp: reject_def live_def Let_def)
  next
    case False
    then show ?thesis by (auto simp: reject_def live_def Let_def)
  qed
qed

lemma open_other_open: "j \<noteq> i \<Longrightarrow> is_open (open_channel i t) j = is_open t j"
  by (auto simp: is_open_def open_channel_def split: option.splits channel_state.splits)

lemma advance_other_open: "table_inv t \<Longrightarrow> j \<noteq> i \<Longrightarrow> is_open (advance s i t) j = is_open t j"
  by (cases s) (simp_all add: local_close_def remote_close_def close_other_open)

text \<open>What an operation on channel \<open>i\<close> leaves in place, with the messages it hands over.\<close>

definition owns :: "connection \<Rightarrow> u32 \<Rightarrow> address \<Rightarrow> bool" where
  "owns c i a \<longleftrightarrow> map_of (tb_data_channels (cn_tables c)) i = Some a \<or> map_of (tb_control_channels (cn_tables c)) i = Some a"

definition elsewhere :: "u32 \<Rightarrow> connection \<Rightarrow> connection \<Rightarrow> bool" where
  "elsewhere i c c' \<longleftrightarrow>
     (\<forall>j. j \<noteq> i \<longrightarrow>
        map_of (tb_data_channels (cn_tables c')) j = map_of (tb_data_channels (cn_tables c)) j \<and>
        map_of (tb_control_channels (cn_tables c')) j = map_of (tb_control_channels (cn_tables c)) j \<and>
        is_open (tb_data (cn_tables c')) j = is_open (tb_data (cn_tables c)) j \<and>
        is_open (tb_control (cn_tables c')) j = is_open (tb_control (cn_tables c)) j \<and>
        map_of (cn_open_acks c') j = map_of (cn_open_acks c) j) \<and>
     length (cn_heap c) \<le> length (cn_heap c') \<and>
     (\<forall>a<length (cn_heap c). \<not> owns c i a \<longrightarrow> cn_heap c' ! a = cn_heap c ! a) \<and>
     (\<exists>ds. cn_delivered c' = cn_delivered c @ ds \<and> (\<forall>(a, m)\<in>set ds. owns c i a))"

lemma elsewhere_refl [simp]: "elsewhere i c c"
  by (simp add: elsewhere_def)

lemma owned_by_one:
  assumes "conn_inv c" "owns c i a" "owns c j a"
  shows "i = j"
proof -
  have "sc_channel_id (cn_heap c ! a) = k" if "owns c k a" for k
    using assms(1) that by (auto simp: owns_def conn_inv_def conn_ok_def dispatch_ok_def dest!: map_of_SomeD)
  then show ?thesis using assms(2,3) by metis
qed

lemma map_of_delete_if: "j \<noteq> i \<Longrightarrow> map_of (delete_if d i D) j = map_of D j"
  by (simp add: delete_if_def delete_conv')

lemma at_removed_elsewhere: "x \<noteq> Some a \<Longrightarrow> cn_heap (at_removed f x c) ! a = cn_heap c ! a"
  by (cases x) auto

lemma at_removed_length [simp]: "length (cn_heap (at_removed f x c)) = length (cn_heap c)"
  by (cases x) auto

lemma emit_elsewhere [simp]: "elsewhere i c (emit e c') = elsewhere i c c'"
  by (simp add: elsewhere_def)

lemma removal_elsewhere:
  assumes tabs: "table_inv (tb_data (cn_tables c))" "table_inv (tb_control (cn_tables c))"
    and u: "unregister v i (cn_tables c) = (data, control, tb)"
    and xy: "x = data \<or> x = control \<or> x = None" "y = data \<or> y = control"
  shows "elsewhere i c (at_removed g y (at_removed f x (c\<lparr>cn_tables := tb\<rparr>)))"
proof -
  have dc: "data = Some a \<or> control = Some a \<Longrightarrow> owns c i a" for a
    using u by (auto simp: unregister_eq owns_def split: if_splits)
  have tb: "tb = (cn_tables c)\<lparr>tb_data_channels := delete_if (drop_data v) i (tb_data_channels (cn_tables c)),
      tb_control_channels := delete_if (drop_control v) i (tb_control_channels (cn_tables c)),
      tb_data := advance (data_table v) i (tb_data (cn_tables c)),
      tb_control := advance (control_table v) i (tb_control (cn_tables c))\<rparr>"
    using u by (simp add: unregister_eq)
  have "x \<noteq> Some a" "y \<noteq> Some a" if "\<not> owns c i a" for a using dc [of a] xy that by auto
  then show ?thesis using tabs
    by (simp add: elsewhere_def tb map_of_delete_if advance_other_open at_removed_elsewhere)
qed

lemma peer_closed_elsewhere:
  assumes "table_inv (tb_data (cn_tables c))" "table_inv (tb_control (cn_tables c))"
  shows "elsewhere i c (peer_closed i frame lane c)"
proof -
  obtain data control tb where u: "unregister (peer_close (cn_role c) lane) i (cn_tables c) = (data, control, tb)"
    by (cases "unregister (peer_close (cn_role c) lane) i (cn_tables c)")
  show ?thesis using removal_elsewhere [OF assms u] u by (cases lane) (simp_all add: peer_closed_def Let_def)
qed

lemma conn_deliver_elsewhere:
  assumes "table_inv (tb_data (cn_tables c))" "table_inv (tb_control (cn_tables c))"
  shows "elsewhere i c (conn_deliver w i payload lane c)"
proof -
  let ?m = "map_of (case lane of Control_Link \<Rightarrow> tb_control_channels (cn_tables c) | Data_Link \<Rightarrow> tb_data_channels (cn_tables c)) i"
  show ?thesis
  proof (cases ?m)
    case None
    then show ?thesis by (simp add: conn_deliver_def)
  next
    case (Some t)
    then have own: "owns c i t" by (cases lane) (simp_all add: owns_def)
    show ?thesis
    proof (cases "sc_finished (cn_heap c ! t)")
      case False
      obtain n ms sc where "sub_deliver (w_listening w t) payload (cn_heap c ! t) = (n, ms, sc)"
        by (cases "sub_deliver (w_listening w t) payload (cn_heap c ! t)")
      then have eq: "conn_deliver w i payload lane c =
          c\<lparr>cn_heap := (cn_heap c)[t := sc], cn_delivered := cn_delivered c @ map (Pair t) ms\<rparr>"
        using Some False by (simp add: conn_deliver_def)
      have "(cn_heap c)[t := sc] ! a = cn_heap c ! a" if "\<not> owns c i a" for a
        using own that by (intro nth_list_update_neq) auto
      then show ?thesis using own unfolding eq elsewhere_def by auto
    next
      case True
      obtain data control tb where u: "unregister (poisoned (cn_role c) lane) i (cn_tables c) = (data, control, tb)"
        by (cases "unregister (poisoned (cn_role c) lane) i (cn_tables c)")
      have "elsewhere i c (at_removed sub_finish y (c\<lparr>cn_tables := tb\<rparr>))" if "y = data \<or> y = control" for y
        using removal_elsewhere [OF assms u, of None y] that by simp
      then show ?thesis using True Some u by (cases lane) (simp_all add: conn_deliver_def Let_def)
    qed
  qed
qed


text \<open>Moving from one state to the next while the maps of the first still name the addresses.\<close>

definition keeps_maps :: "connection \<Rightarrow> connection \<Rightarrow> bool" where
  "keeps_maps c c' \<longleftrightarrow> tb_data_channels (cn_tables c') = tb_data_channels (cn_tables c) \<and>
     tb_control_channels (cn_tables c') = tb_control_channels (cn_tables c) \<and> cn_heap c' = cn_heap c \<and>
     cn_delivered c' = cn_delivered c"

lemma elsewhere_trans:
  assumes "keeps_maps c c'" "elsewhere i c c'" "elsewhere i c' c''"
  shows "elsewhere i c c''"
proof -
  have "owns c' = owns c" using assms(1) by (intro ext) (simp add: owns_def keeps_maps_def)
  then show ?thesis using assms unfolding elsewhere_def keeps_maps_def by auto
qed

lemma note_ack_elsewhere: "keeps_maps c (note_open_ack i a c)" "elsewhere i c (note_open_ack i a c)"
  by (simp_all add: keeps_maps_def elsewhere_def) (simp add: note_open_ack_def update_conv')

lemma set_lane_elsewhere:
  assumes "\<And>j. j \<noteq> i \<Longrightarrow> is_open t j = is_open (lane_table lane c) j"
  shows "keeps_maps c (set_lane_table lane t c)" "elsewhere i c (set_lane_table lane t c)"
  using assms by (cases lane; simp add: keeps_maps_def elsewhere_def set_lane_table_def lane_table_def
      set_data_table_def set_control_table_def)+

lemma set_lane_tables_inv:
  assumes "table_inv (tb_data (cn_tables c))" "table_inv (tb_control (cn_tables c))" "table_inv t"
  shows "table_inv (tb_data (cn_tables (set_lane_table lane t c)))" "table_inv (tb_control (cn_tables (set_lane_table lane t c)))"
  using assms by (cases lane; simp add: set_lane_table_def set_data_table_def set_control_table_def)+

lemma accept_open_elsewhere:
  assumes "conn_inv c"
  shows "elsewhere i c (accept_open w (ChannelOpen i sid seq cls cwd) Data_Link
    (set_data_table (open_channel i (tb_data (cn_tables c))) c))"
  by (auto simp: set_data_table_def register_def elsewhere_def open_other_open update_conv' nth_append Let_def)

lemma conn_route_elsewhere:
  assumes inv: "conn_inv c"
  shows "elsewhere (channel_id frame) c (conn_route w frame p lane c)"
proof -
  note tabs = inv_tables [OF inv, of Data_Link] inv_tables [OF inv, of Control_Link]
  have tabs': "table_inv (tb_data (cn_tables c))" "table_inv (tb_control (cn_tables c))"
    using tabs by (simp_all add: lane_table_def)
  have closed: "elsewhere i c (peer_closed i f lane (set_lane_table lane t c'))"
    if "table_inv t" "\<And>j. j \<noteq> i \<Longrightarrow> is_open t j = is_open (lane_table lane c) j"
      "c' = c \<or> (\<exists>a. c' = note_open_ack i a c)" for i f t c'
  proof -
    have c': "keeps_maps c c'" "elsewhere i c c'" "cn_tables c' = cn_tables c"
      using that(3) note_ack_elsewhere by (auto simp: keeps_maps_def)
    then have lt: "lane_table lane c' = lane_table lane c" by (cases lane) (simp_all add: lane_table_def)
    let ?d = "set_lane_table lane t c'"
    have "elsewhere i c' (peer_closed i f lane ?d)"
      using elsewhere_trans [OF set_lane_elsewhere [of i t lane c'] peer_closed_elsewhere]
        set_lane_tables_inv [of c' t lane] that(1,2) tabs' c'(3) lt by simp
    then show ?thesis by (rule elsewhere_trans [OF c'(1,2)])
  qed
  show ?thesis
  proof (cases frame)
    case (ChannelOpen i sid seq cls cwd)
    show ?thesis
    proof (cases "admit (arrival_of KChannelOpen i lane c)")
      case Proceed
      then show ?thesis using accept_open_elsewhere [OF inv] admitted_open(2) [OF Proceed]
        unfolding ChannelOpen route_open by simp
    qed (simp_all add: ChannelOpen route_open send_open_ack_def elsewhere_def)
  next
    case (ChannelOpenAck i acc seq)
    let ?a = "\<lparr>oa_accepted = acc, oa_resume_from_seq = seq\<rparr>"
    let ?t = "lane_table lane c"
    have t: "table_inv ?t" by (rule inv_tables [OF inv])
    have "elsewhere i c (set_lane_table lane (open_channel i ?t) (note_open_ack i ?a c))"
      using elsewhere_trans [OF note_ack_elsewhere set_lane_elsewhere(2)] open_other_open by simp
    moreover have "elsewhere i c (peer_closed i f lane (note_open_ack i ?a c))" for f
      using closed [OF t, of i "note_open_ack i ?a c"] set_lane_table_same [of lane "note_open_ack i ?a c"] by auto
    moreover have "elsewhere i c (peer_closed i f lane (set_lane_table lane (snd (reject i ?t)) (note_open_ack i ?a c)))" for f
      by (rule closed [OF reject_inv [OF t] close_other_open(2) [OF t]]) auto
    ultimately show ?thesis unfolding ChannelOpenAck route_ack [OF t refl] by auto
  next
    case (ChannelData i b)
    then show ?thesis using conn_deliver_elsewhere [OF tabs'] by (simp add: route_data)
  next
    case (ChannelClose i r)
    have t: "table_inv (lane_table lane c)" by (rule inv_tables [OF inv])
    have "elsewhere i c (peer_closed i f lane (set_lane_table lane (snd (remote_close i (lane_table lane c))) c))" for f
      unfolding remote_close_def by (rule closed [OF advance_close_inv [OF t] close_other_open(1) [OF t]]) auto
    then show ?thesis unfolding ChannelClose route_close [OF t] by simp
  next
    case (WindowAdjust i n)
    show ?thesis
    proof (cases "map_of (tb_data_channels (cn_tables c)) i")
      case (Some t)
      then have own: "owns c i t" by (simp add: owns_def)
      have "(cn_heap c)[t := x] ! a = cn_heap c ! a" if "\<not> owns c i a" for a x
        using own that by (intro nth_list_update_neq) auto
      then show ?thesis using WindowAdjust Some by (simp add: route_adjust route_grant_def elsewhere_def)
    qed (simp add: WindowAdjust route_adjust route_grant_def)
  qed
qed

section \<open>Runs\<close>

text \<open>
  One step: a frame routed on either link, whatever the peer put in it, or a call of the owner. The
  world may answer differently at every step. The only guard is on the allocator, which has room for
  2 to the 31 opens of one connection.
\<close>

definition allocator_room :: "connection \<Rightarrow> bool" where
  "allocator_room c \<longleftrightarrow> unat (last_allocated (tb_data (cn_tables c))) + 2 < 2 ^ 32"

inductive conn_step :: "connection \<Rightarrow> connection \<Rightarrow> bool" where
  Frame: "conn_step c (conn_route w frame payload lane c)"
| OwnerOpens: "allocator_room c \<Longrightarrow> conn_step c (snd (conn_open_channel w rq c))"
| OwnerAnswers: "conn_step c (send_open_ack w i accepted seq c)"
| OwnerAwaits: "conn_step c (snd (await_open_ack i c))"
| OwnerClosesChannel: "conn_step c (close_channel w i reason c)"
| OwnerCloses: "conn_step c (close c)"
| LinkEnds: "conn_step c (report_link_down failed c)"
| OwnerSends: "conn_step c (at_channel (\<lambda>sc. snd (snd (sub_send lw m sc))) a c)"
| OwnerConsumes: "conn_step c (at_channel (\<lambda>sc. snd (note_consumed n sc)) a c)"
| OwnerFinishes: "conn_step c (at_channel sub_finish a c)"

inductive_cases conn_stepE: "conn_step c c'"

lemma write_chunk_le: "write_chunk lw chunk sc = (r, sc') \<Longrightarrow> sub_le sc sc'"
  by (auto simp: write_chunk_def sub_le_def Let_def split: prod.splits option.splits)

lemma try_chunk_credit_le: "try_chunk_credit n sc = (r, sc') \<Longrightarrow> sub_le sc sc'"
  by (auto simp: try_chunk_credit_def sub_le_def Let_def split: prod.splits option.splits consume_result.splits if_splits)

lemma send_from_le: "sub_le sc (snd (snd (send_from lw framed off sc)))"
proof (induction lw framed off sc rule: send_from.induct)
  case (1 lw framed off sc)
  show ?case
  proof (cases "length framed \<le> off")
    case True
    then show ?thesis by (simp add: send_from.simps)
  next
    case False
    obtain r sc1 where t: "try_chunk_credit (length framed - off) sc = (r, sc1)"
      by (cases "try_chunk_credit (length framed - off) sc")
    note le1 = try_chunk_credit_le [OF t]
    show ?thesis
    proof (cases "\<exists>g chunk. r = Inr (Some g) \<and> slice_get framed off (off + g) = Some chunk")
      case False
      then show ?thesis using t le1 \<open>\<not> length framed \<le> off\<close>
        by (subst send_from.simps) (auto split: sum.split option.split)
    next
      case True
      then obtain g chunk where g: "r = Inr (Some g)" "slice_get framed off (off + g) = Some chunk" by auto
      obtain q sc2 where wc: "write_chunk lw chunk sc1 = (q, sc2)" by (cases "write_chunk lw chunk sc1")
      note le2 = sub_le_trans [OF le1 write_chunk_le [OF wc]]
      show ?thesis
      proof (cases q)
        case (Inl e)
        then show ?thesis using t g wc le2 False by (subst send_from.simps) simp
      next
        case (Inr bs)
        have "sub_le sc2 (snd (snd (send_from lw framed (off + g) sc2)))"
          using "1.IH" [OF False t [symmetric] g(1) refl g(2) wc [symmetric] Inr] .
        then show ?thesis using t g wc Inr False sub_le_trans [OF le2]
          by (subst send_from.simps) (simp add: split_beta)
      qed
    qed
  qed
qed

lemma sub_send_le: "sub_le sc (snd (snd (sub_send lw m sc)))"
  using send_from_le [of sc lw "encode m" 0] write_chunk_le [of lw "encode m" sc]
  by (auto simp: sub_send_def Let_def split: option.split sum.split prod.split)

lemma note_consumed_le: "sub_le sc (snd (note_consumed n sc))"
  by (auto simp: note_consumed_def sub_le_def Let_def split: option.split prod.split)

lemma at_channel_inv:
  assumes "conn_inv c" "\<And>sc. sub_le sc (f sc)"
  shows "conn_inv (at_channel f a c)"
  using conn_ok_heap [OF _ heap_le_update [OF assms(2)]] assms(1) by (simp add: conn_inv_def)

lemma conn_step_inv: "conn_step c c' \<Longrightarrow> conn_inv c \<Longrightarrow> conn_inv c'"
  by (induction rule: conn_step.induct)
    (simp_all only: conn_route_inv send_open_ack_inv await_open_ack_inv close_channel_inv close_inv
      report_link_down_inv at_channel_inv sub_send_le note_consumed_le finish_le conn_open_channel_inv allocator_room_def)

lemma run_inv: "conn_step\<^sup>*\<^sup>* (serve r) c \<Longrightarrow> conn_inv c"
  by (induction rule: rtranclp_induct) (auto intro: serve_inv conn_step_inv)

text \<open>Everything but the end of a link leaves the role, the teardown flag and the link-down reports alone.\<close>

fun is_link_down :: "mux_event \<Rightarrow> bool" where
  "is_link_down (EvLinkDown _ _) = True"
| "is_link_down _ = False"

definition calm :: "connection \<Rightarrow> connection \<Rightarrow> bool" where
  "calm c c' \<longleftrightarrow> cn_role c' = cn_role c \<and> cn_torn_down c' = cn_torn_down c \<and>
     filter is_link_down (cn_events c') = filter is_link_down (cn_events c)"

lemma calm_refl [simp]: "calm c c"
  by (simp add: calm_def)

lemma calm_set_tables [simp]: "calm c (set_lane_table lane t c')= calm c c'" "calm c (set_data_table t c') = calm c c'"
  by (cases lane; simp add: calm_def set_lane_table_def set_data_table_def set_control_table_def)+

lemma calm_note_ack [simp]: "calm c (note_open_ack i a c') = calm c c'"
  by (simp add: calm_def)

lemma peer_closed_calm [simp]: "calm c (peer_closed i f lane c') = calm c c'"
  by (cases lane) (simp_all add: peer_closed_def calm_def Let_def split: prod.split)

lemma conn_deliver_calm [simp]: "calm c (conn_deliver w i p lane c') = calm c c'"
  by (cases lane) (simp_all add: conn_deliver_def calm_def Let_def split: prod.split option.split)

lemma accept_open_calm [simp]: "calm c (accept_open w f lane c') = calm c c'"
  by (cases f; cases lane) (simp_all add: calm_def register_def Let_def)

lemma link_send_calm [simp]: "calm c (snd (link_send w l bs c')) = calm c c'"
  by (simp add: calm_def)

lemma conn_route_calm:
  assumes "conn_inv c"
  shows "calm c (conn_route w frame p lane c)"
proof (cases frame)
  case (ChannelOpen i sid seq cls cwd)
  then show ?thesis by (simp add: route_open send_open_ack_def del: accept_open.simps split: admission.split)
next
  case (WindowAdjust i n)
  then show ?thesis by (simp add: route_adjust route_grant_def calm_def split: option.split)
qed (simp_all add: route_data route_close route_ack inv_tables [OF assms])

lemma abandon_calm [simp]: "calm c (abandon i c') = calm c c'"
  by (simp add: abandon_def forget_open_ack_def calm_def Let_def)


lemma conn_open_channel_calm: "calm c (snd (conn_open_channel w rq c))"
proof -
  obtain i opened c1 where reg: "open_registered w c = (i, opened, c1)" by (cases "open_registered w c")
  have "calm c c1" using reg by (auto simp: open_registered_def register_def calm_def Let_def split: prod.splits)
  obtain ok c2 where snt: "link_send w Data_Link (mux_encode (ChannelOpen i (rq_session_id rq) (rq_last_received_seq rq)
      (rq_channel_class rq) (rq_initial_cwd rq))) c1 = (ok, c2)" by fastforce
  have "c2 = snd (link_send w Data_Link (mux_encode (ChannelOpen i (rq_session_id rq) (rq_last_received_seq rq)
      (rq_channel_class rq) (rq_initial_cwd rq))) c1)" using snt by simp
  then have "calm c c2" using \<open>calm c c1\<close> by simp
  then show ?thesis by (cases ok) (simp_all add: conn_open_channel_def reg snt Let_def)
qed

lemma ended_calm:
  assumes "conn_inv c"
  shows "cn_torn_down c \<Longrightarrow> report_link_down failed c = c" "cn_torn_down c \<Longrightarrow> close c = c"
    "\<not> cn_torn_down c \<Longrightarrow> cn_role (report_link_down failed c) = cn_role c \<and> cn_torn_down (report_link_down failed c) \<and>
      cn_events (report_link_down failed c) = cn_events c @ [EvLinkDown failed (map fst (tb_data_channels (cn_tables c)))]"
    "\<not> cn_torn_down c \<Longrightarrow> cn_role (close c) = cn_role c \<and> cn_torn_down (close c) \<and> cn_events (close c) = cn_events c"
  by (simp_all add: report_link_down_def close_def tear_down_def Let_def)

lemma step_reports:
  assumes "conn_step c c'" "conn_inv c"
  shows "cn_role c' = cn_role c \<and> (cn_torn_down c \<longrightarrow> cn_torn_down c') \<and>
    (\<exists>es. filter is_link_down (cn_events c') = filter is_link_down (cn_events c) @ es \<and> length es \<le> 1 \<and>
      (es \<noteq> [] \<longrightarrow> \<not> cn_torn_down c \<and> cn_torn_down c'))"
proof -
  have ok: ?thesis if "calm c c'" using that by (auto simp: calm_def)
  from assms(1) show ?thesis
  proof (cases rule: conn_step.cases)
    case OwnerCloses
    then show ?thesis using ended_calm(2,4) [OF assms(2)] by (cases "cn_torn_down c") auto
  next
    case (LinkEnds failed)
    then show ?thesis using ended_calm(1,3) [OF assms(2)] by (cases "cn_torn_down c") auto
  qed (rule ok, use conn_route_calm [OF assms(2)] conn_open_channel_calm in
      \<open>simp add: send_open_ack_def close_channel_def Let_def; simp add: calm_def await_open_ack_def split: option.split\<close>)+
qed

section \<open>Reassembly through the demux\<close>

type_synonym arriving = "mux_frame \<times> bytes \<times> link"

fun route_frames :: "world \<Rightarrow> arriving list \<Rightarrow> connection \<Rightarrow> connection" where
  "route_frames w [] c = c"
| "route_frames w ((f, p, lane) # fs) c = route_frames w fs (conn_route w f p lane c)"

definition lane_map :: "link \<Rightarrow> connection \<Rightarrow> dispatch" where
  "lane_map lane c = (case lane of Control_Link \<Rightarrow> tb_control_channels (cn_tables c) | Data_Link \<Rightarrow> tb_data_channels (cn_tables c))"

definition delivered_to :: "address \<Rightarrow> connection \<Rightarrow> wire_message list" where
  "delivered_to a c = map snd (filter (\<lambda>d. fst d = a) (cn_delivered c))"

text \<open>The bytes the frames carry for one channel.\<close>

fun bytes_for :: "u32 \<Rightarrow> arriving list \<Rightarrow> bytes" where
  "bytes_for i [] = []"
| "bytes_for i ((f, p, lane) # fs) = (if channel_id f = i then p else []) @ bytes_for i fs"

text \<open>Every frame of the channel is data on its link; frames of other channels are arbitrary.\<close>

definition only_data :: "u32 \<Rightarrow> link \<Rightarrow> arriving list \<Rightarrow> bool" where
  "only_data i lane fs \<longleftrightarrow> (\<forall>(f, p, l)\<in>set fs. channel_id f = i \<longrightarrow> l = lane \<and> (\<exists>b. f = ChannelData i b))"

text \<open>A channel in the middle of a stream: \<open>u\<close> is buffered and \<open>ms\<close> is still to come.\<close>

definition streaming :: "link \<Rightarrow> u32 \<Rightarrow> address \<Rightarrow> bytes \<Rightarrow> connection \<Rightarrow> bool" where
  "streaming lane i a u c \<longleftrightarrow> conn_inv c \<and> map_of (lane_map lane c) i = Some a \<and> is_open (lane_table lane c) i \<and>
     \<not> sc_finished (cn_heap c ! a) \<and> sc_inbound (cn_heap c ! a) \<and>
     decoder_inv (sc_inbound_decoder (cn_heap c ! a)) \<and> decoder_stream (sc_inbound_decoder (cn_heap c ! a)) = Live u"

lemma streaming_owns: "streaming lane i a u c \<Longrightarrow> owns c i a \<and> a < length (cn_heap c)"
  using dispatched_bound [of c i a] by (cases lane) (auto simp: streaming_def lane_map_def owns_def)

lemma streaming_other:
  assumes s: "streaming lane i a u c" and f: "channel_id f \<noteq> i"
  shows "streaming lane i a u (conn_route w f p l c) \<and> delivered_to a (conn_route w f p l c) = delivered_to a c"
proof -
  have inv: "conn_inv c" using s by (simp add: streaming_def)
  note e = conn_route_elsewhere [OF inv, of f w p l]
  have not: "\<not> owns c (channel_id f) a" using owned_by_one [OF inv] streaming_owns [OF s] f by auto
  have "cn_heap (conn_route w f p l c) ! a = cn_heap c ! a"
    using e not streaming_owns [OF s] by (simp add: elsewhere_def)
  moreover have "map_of (lane_map lane (conn_route w f p l c)) i = map_of (lane_map lane c) i"
    "is_open (lane_table lane (conn_route w f p l c)) i = is_open (lane_table lane c) i"
    using e f by (cases lane; simp add: elsewhere_def lane_map_def lane_table_def)+
  moreover have "delivered_to a (conn_route w f p l c) = delivered_to a c"
  proof -
    obtain ds where "cn_delivered (conn_route w f p l c) = cn_delivered c @ ds" "\<forall>(b, m)\<in>set ds. owns c (channel_id f) b"
      using e by (auto simp: elsewhere_def)
    then show ?thesis using not by (fastforce simp: delivered_to_def filter_empty_conv)
  qed
  ultimately show ?thesis using s conn_route_inv [OF inv] by (simp add: streaming_def)
qed

lemma streaming_own:
  assumes s: "streaming lane i a u c" and listen: "w_listening w a"
    and str: "u @ p @ v = concat (map encode ms)" and ok: "\<forall>m\<in>set ms. frame_ok m"
  shows "\<exists>k u'. k \<le> length ms \<and> streaming lane i a u' (conn_route w (ChannelData i b) p lane c) \<and>
    u' @ v = concat (map encode (drop k ms)) \<and> (drop k ms \<noteq> [] \<longrightarrow> length u' < length (encode (hd (drop k ms)))) \<and>
    delivered_to a (conn_route w (ChannelData i b) p lane c) = delivered_to a c @ take k ms"
proof -
  let ?x = "cn_heap c ! a"
  let ?sc = "?x\<lparr>sc_inbound_decoder := decoder_append p (sc_inbound_decoder ?x)\<rparr>"
  have app: "decoder_inv (sc_inbound_decoder ?sc)" "decoder_stream (sc_inbound_decoder ?sc) = Live (u @ p)"
    using decoder_append_refines [of "sc_inbound_decoder ?x" p] s by (auto simp: streaming_def)
  have inb: "sc_inbound ?sc" using s by (simp add: streaming_def)
  have str': "(u @ p) @ v = concat (map encode ms)" using str by simp
  obtain k u' fd where k: "k \<le> length ms" "deliver_loop True ?sc = (take k ms, ?sc\<lparr>sc_inbound_decoder := fd\<rparr>)"
    "decoder_inv fd" "decoder_stream fd = Live u'" "u' @ v = concat (map encode (drop k ms))"
    "drop k ms \<noteq> [] \<longrightarrow> length u' < length (encode (hd (drop k ms)))"
    using deliver_loop_frames [OF app str' ok inb] by blast
  have map: "map_of (case lane of Control_Link \<Rightarrow> tb_control_channels (cn_tables c) | Data_Link \<Rightarrow> tb_data_channels (cn_tables c)) i = Some a"
    using s by (simp add: streaming_def lane_map_def)
  have "conn_route w (ChannelData i b) p lane c =
      c\<lparr>cn_heap := (cn_heap c)[a := ?x\<lparr>sc_inbound_decoder := fd\<rparr>], cn_delivered := cn_delivered c @ map (Pair a) (take k ms)\<rparr>"
    using s map k(2) listen
    by (simp add: route_data conn_deliver_def streaming_def sub_deliver_def Let_def)
  moreover have "conn_inv (conn_route w (ChannelData i b) p lane c)" using s conn_route_inv by (simp add: streaming_def)
  ultimately show ?thesis using s k streaming_owns [OF s]
    by (intro exI [of _ k] exI [of _ u'], cases lane)
      (simp_all add: streaming_def lane_map_def lane_table_def delivered_to_def comp_def)
qed

lemma route_frames_reassembles:
  assumes "streaming lane i a u c" "w_listening w a" "only_data i lane fs"
    "u @ bytes_for i fs = concat (map encode ms)" "\<forall>m\<in>set ms. frame_ok m"
    "ms \<noteq> [] \<longrightarrow> length u < length (encode (hd ms))"
  shows "delivered_to a (route_frames w fs c) = delivered_to a c @ ms"
  using assms
proof (induction fs arbitrary: c u ms)
  case Nil
  then show ?case by (cases ms) auto
next
  case (Cons x fs)
  obtain f p l where x: "x = (f, p, l)" by (cases x)
  have tl: "only_data i lane fs" using Cons.prems(3) by (simp add: only_data_def)
  show ?case
  proof (cases "channel_id f = i")
    case False
    then show ?thesis
      using Cons.IH [OF _ Cons.prems(2) tl _ Cons.prems(5,6)] streaming_other [OF Cons.prems(1) False, of w p l] Cons.prems(4) x
      by simp
  next
    case True
    then obtain b where f: "f = ChannelData i b" "l = lane" using Cons.prems(3) x by (auto simp: only_data_def)
    have str: "u @ p @ bytes_for i fs = concat (map encode ms)" using Cons.prems(4) x True by simp
    obtain k u' where k: "k \<le> length ms" "streaming lane i a u' (conn_route w (ChannelData i b) p lane c)"
      "u' @ bytes_for i fs = concat (map encode (drop k ms))" "drop k ms \<noteq> [] \<longrightarrow> length u' < length (encode (hd (drop k ms)))"
      "delivered_to a (conn_route w (ChannelData i b) p lane c) = delivered_to a c @ take k ms"
      using streaming_own [OF Cons.prems(1,2) str Cons.prems(5)] by blast
    have "\<forall>m\<in>set (drop k ms). frame_ok m" using Cons.prems(5) by (auto dest: in_set_dropD)
    then show ?thesis using Cons.IH [OF k(2) Cons.prems(2) tl k(3) _ k(4)] k(5) x f by simp
  qed
qed

section \<open>Bounds\<close>

lemma table_card:
  assumes t: "table_inv t" and live: "{i. live t i} \<subseteq> S" "finite S"
  shows "state_count t \<le> card S + terminal_ring_cap"
proof -
  have "dom (states t) \<subseteq> S \<union> set (terminal_ring t)"
    using t live(1) by (auto simp: table_inv_def live_not_terminal dom_def)
  then have "card (dom (states t)) \<le> card (S \<union> set (terminal_ring t))" using live(2) by (intro card_mono) auto
  also have "\<dots> \<le> card S + card (set (terminal_ring t))" by (rule card_Un_le)
  also have "card (set (terminal_ring t)) \<le> terminal_ring_cap"
    using t card_length [of "terminal_ring t"] by (simp add: table_inv_def)
  finally show ?thesis by (simp add: state_count_def)
qed

lemma run_role: "conn_step\<^sup>*\<^sup>* (serve r) c \<Longrightarrow> cn_role c = r"
  by (induction rule: rtranclp_induct) (simp add: serve_def, use step_reports run_inv in blast)

lemma host_tables_bounded:
  assumes "conn_inv c" "cn_role c = Host"
  shows "live_channel_count c \<le> max_channels_per_connection" "cn_open_acks c = []"
    "\<not> cn_torn_down c \<Longrightarrow> state_count (lane_table lane c) \<le> max_channels_per_connection + terminal_ring_cap"
proof -
  have h: "host_inv (cn_torn_down c) (cn_tables c) (cn_open_acks c)" using assms by (simp add: conn_inv_def conn_ok_def)
  then show "live_channel_count c \<le> max_channels_per_connection" "cn_open_acks c = []"
    by (simp_all add: host_inv_def live_channel_count_def)
  let ?S = "fst ` set (tb_data_channels (cn_tables c))"
  assume "\<not> cn_torn_down c"
  then have ok: "host_ok (cn_tables c)" using h by (simp add: host_inv_def)
  have "{i. live (lane_table lane c) i} \<subseteq> ?S"
    using ok by (cases lane) (auto simp: host_ok_def lane_table_def simp del: image_iff)
  then have "state_count (lane_table lane c) \<le> card ?S + terminal_ring_cap"
    using table_card [OF inv_tables [OF assms(1)]] by simp
  moreover have "card ?S \<le> max_channels_per_connection"
    using card_length [of "map fst (tb_data_channels (cn_tables c))"] h by (simp add: host_inv_def)
  ultimately show "state_count (lane_table lane c) \<le> max_channels_per_connection + terminal_ring_cap" by simp
qed

lemma run_reports:
  "conn_step\<^sup>*\<^sup>* (serve r) c \<Longrightarrow> length (filter is_link_down (cn_events c)) \<le> 1 \<and>
    (filter is_link_down (cn_events c) \<noteq> [] \<longrightarrow> cn_torn_down c)"
proof (induction rule: rtranclp_induct)
  case (step c c')
  then show ?case using step_reports [OF step.hyps(2) run_inv [OF step.hyps(1)]] by auto
qed (simp add: serve_def)

section \<open>Shared by the properties\<close>

lemma frame_run: "conn_step\<^sup>*\<^sup>* (serve r) c \<Longrightarrow> conn_step\<^sup>*\<^sup>* (serve r) (conn_route w f p lane c)"
  by (auto intro: rtranclp.rtrancl_into_rtrancl Frame)

lemma finished_send: "sc_finished sc \<Longrightarrow> sub_send lw m sc = (SendFailed SendClosed, [], sc)"
  by (simp add: sub_send_def Let_def)

text \<open>A host that has just taken one open, for the concrete instances.\<close>

definition calm_world :: world where
  "calm_world = \<lparr>w_env = (\<lambda>_. None), w_link = (\<lambda>_ _. None), w_listening = (\<lambda>_. True)\<rparr>"

definition first_open :: mux_frame where
  "first_open = ChannelOpen 1 (replicate 16 0) 0 0 None"

definition one_channel :: connection where
  "one_channel = conn_route calm_world first_open [] Data_Link (serve Host)"

lemma one_channel_run: "conn_step\<^sup>*\<^sup>* (serve Host) one_channel"
  unfolding one_channel_def by (rule frame_run) simp

lemma first_open_admitted: "admit (arrival_of KChannelOpen i Data_Link (serve Host)) = Proceed"
  by (simp add: serve_def admit_def arrival_of_def tables_new_def table_new_def state_of_def initiates_opens_def
      max_channels_per_connection_def Let_def)

lemma one_channel_eq:
  "one_channel = emit (EvOpened \<lparr>co_channel_id = 1, co_session_id = replicate 16 0, co_last_received_seq = 0,
      co_channel_class = 0, co_initial_cwd = None, co_data = 0, co_control = 1\<rparr>)
    ((serve Host)\<lparr>cn_tables := \<lparr>tb_control = open_channel 1 table_new, tb_data = open_channel 1 table_new,
        tb_control_channels = [(1, 1)], tb_data_channels = [(1, 0)]\<rparr>,
      cn_heap := [sub_data (\<lambda>_. None) 1, sub_control 1]\<rparr>)"
  unfolding one_channel_def first_open_def route_open first_open_admitted
  by (simp add: set_data_table_def register_def calm_world_def Let_def) (simp add: serve_def tables_new_def)

lemma abandon_result:
  assumes inv: "conn_inv c"
  shows "\<not> owns (abandon i c) i a" "owns c i a \<Longrightarrow> sc_finished (cn_heap (abandon i c) ! a)"
    "map_of (cn_open_acks (abandon i c)) i = None"
    "\<not> live (tb_data (cn_tables (abandon i c))) i" "\<not> live (tb_control (cn_tables (abandon i c))) i"
    "cn_written (abandon i c) = cn_written c"
proof -
  let ?tb = "cn_tables c"
  let ?tb' = "?tb\<lparr>tb_data_channels := AList.delete i (tb_data_channels ?tb),
    tb_control_channels := AList.delete i (tb_control_channels ?tb),
    tb_data := snd (local_close i (tb_data ?tb)), tb_control := snd (local_close i (tb_control ?tb))\<rparr>"
  let ?x = "map_of (tb_data_channels ?tb) i" and ?y = "map_of (tb_control_channels ?tb) i"
  have ab: "abandon i c = forget_open_ack i (at_removed sub_finish ?y (at_removed sub_finish ?x (c\<lparr>cn_tables := ?tb'\<rparr>)))"
    by (simp add: abandon_def Let_def)
  have b: "\<forall>a. ?x = Some a \<or> ?y = Some a \<longrightarrow> a < length (cn_heap (c\<lparr>cn_tables := ?tb'\<rparr>))"
    using dispatched_bound [OF inv] by simp
  have w: "cn_written (at_removed f z d) = cn_written d" for f z d by (cases z) (simp_all add: at_channel_def)
  have tabs: "table_inv (tb_data ?tb)" "table_inv (tb_control ?tb)" using inv by (simp_all add: conn_inv_def conn_ok_def)
  show "\<not> owns (abandon i c) i a" by (simp add: ab forget_open_ack_def owns_def delete_conv')
  show "sc_finished (cn_heap (abandon i c) ! a)" if "owns c i a"
    using at_removed_two(2) [OF finish_le(2) finish_finishes(2) finish_le(2) finish_finishes(2) b] that
    by (simp add: ab forget_open_ack_def owns_def)
  show "map_of (cn_open_acks (abandon i c)) i = None" by (simp add: ab forget_open_ack_def delete_conv')
  show "\<not> live (tb_data (cn_tables (abandon i c))) i" "\<not> live (tb_control (cn_tables (abandon i c))) i"
    using local_close_moves(2) [OF tabs(1), of i i] local_close_moves(2) [OF tabs(2), of i i]
    by (simp_all add: ab forget_open_ack_def)
  show "cn_written (abandon i c) = cn_written c" by (simp add: ab forget_open_ack_def w)
qed

lemma peer_closed_acks: "cn_open_acks (peer_closed i f lane c) = cn_open_acks c"
  by (cases lane) (simp_all add: peer_closed_def Let_def split: prod.split)

lemma set_lane_acks: "cn_open_acks (set_lane_table lane t c) = cn_open_acks c"
  by (cases lane) (simp_all add: set_lane_table_def set_data_table_def set_control_table_def)

lemma route_ack_slot:
  assumes "conn_inv c" "map_of (cn_open_acks c) i \<noteq> None"
  shows "cn_open_acks (conn_route w (ChannelOpenAck i acc seq) p lane c) =
    AList.update i (Some \<lparr>oa_accepted = acc, oa_resume_from_seq = seq\<rparr>) (cn_open_acks c)"
  using assms(2) unfolding route_ack [OF inv_tables [OF assms(1)] refl]
  by (simp add: peer_closed_acks set_lane_acks note_open_ack_def)

lemma route_unknown_ack:
  assumes "conn_inv c" "map_of (cn_open_acks c) i = None"
  shows "cn_open_acks (conn_route w (ChannelOpenAck i acc seq) p lane c) = cn_open_acks c"
  unfolding route_ack [OF inv_tables [OF assms(1)] refl]
  using assms(2) by (simp add: peer_closed_acks set_lane_acks note_open_ack_def)

section \<open>Properties\<close>

text \<open>C10. Whatever a client sends and in whatever order the two links and the owner take turns, a host
  connection holds at most 256 channels and no ack slot, and until it is torn down each of its two channel
  tables holds at most 1280 entries.\<close>

theorem host_stays_bounded:
  assumes "conn_step\<^sup>*\<^sup>* (serve Host) c"
  shows "live_channel_count c \<le> max_channels_per_connection \<and> cn_open_acks c = [] \<and>
    (\<not> is_down c \<longrightarrow>
      state_count (tb_data (cn_tables c)) \<le> max_channels_per_connection + terminal_ring_cap \<and>
      state_count (tb_control (cn_tables c)) \<le> max_channels_per_connection + terminal_ring_cap)"
  using host_tables_bounded [OF run_inv [OF assms] run_role [OF assms]]
    host_tables_bounded(3) [OF run_inv [OF assms] run_role [OF assms], of Data_Link]
    host_tables_bounded(3) [OF run_inv [OF assms] run_role [OF assms], of Control_Link]
  by (simp add: is_down_def lane_table_def)

theorem host_stays_bounded_witness:
  "live_channel_count one_channel \<le> 256 \<and> state_count (tb_data (cn_tables one_channel)) \<le> 1280"
  using host_stays_bounded [OF one_channel_run]
  by (simp add: is_down_def one_channel_eq serve_def max_channels_per_connection_def terminal_ring_cap_def)

text \<open>C22. No sub-channel is ever stranded: in every reachable state, on either end, a sub-channel that is
  not finished is registered under its own id in the dispatch map of its own link, so a frame, a close or the
  teardown still reaches it.\<close>

theorem no_channel_stranded:
  assumes "conn_step\<^sup>*\<^sup>* (serve r) c" "a < length (cn_heap c)" "\<not> sc_finished (cn_heap c ! a)"
  shows "map_of (lane_map (sc_lane (cn_heap c ! a)) c) (sc_channel_id (cn_heap c ! a)) = Some a"
proof -
  have d: "dispatch_ok (tb_data_channels (cn_tables c)) (tb_control_channels (cn_tables c)) (cn_heap c)"
    using run_inv [OF assms(1)] by (simp add: conn_inv_def conn_ok_def)
  then have keys: "distinct (map fst (tb_data_channels (cn_tables c)))" "distinct (map fst (tb_control_channels (cn_tables c)))"
    by (simp_all add: dispatch_ok_def)
  from d assms(2,3) consider i where "(i, a) \<in> set (tb_data_channels (cn_tables c))"
    | i where "(i, a) \<in> set (tb_control_channels (cn_tables c))" by (auto simp: dispatch_ok_def)
  then show ?thesis
  proof cases
    case (1 i)
    then have "sc_channel_id (cn_heap c ! a) = i" "sc_lane (cn_heap c ! a) = Data_Link" using d by (auto simp: dispatch_ok_def)
    then show ?thesis using 1 keys by (simp add: lane_map_def)
  next
    case (2 i)
    then have "sc_channel_id (cn_heap c ! a) = i" "sc_lane (cn_heap c ! a) = Control_Link" using d by (auto simp: dispatch_ok_def)
    then show ?thesis using 2 keys by (simp add: lane_map_def)
  qed
qed

theorem no_channel_stranded_witness:
  "map_of (lane_map (sc_lane (cn_heap one_channel ! 1)) one_channel) (sc_channel_id (cn_heap one_channel ! 1)) = Some 1"
  by (rule no_channel_stranded [OF one_channel_run]) (simp_all add: one_channel_eq)

lemma tear_down_maps:
  assumes "tear_down c = (Some ids, c')"
  shows "cn_tables c' = (cn_tables c)\<lparr>tb_data_channels := [], tb_control_channels := []\<rparr>" "cn_role c' = cn_role c"
  using assms by (auto simp: tear_down_def Let_def fold_channels_simps split: if_splits)

text \<open>C23. A dead link ends everything at once: in every reachable state that is not down yet, the report
  finishes every sub-channel ever minted, so that any send on one answers closed, clears every parked waiter for
  an ack, empties the dispatch maps of both links and tells the owner exactly the ids that were registered. A second
  report changes nothing.\<close>

theorem link_down_ends_everything:
  assumes "conn_step\<^sup>*\<^sup>* (serve r) c" "\<not> is_down c"
  shows "let c' = report_link_down failed c in
    is_down c' \<and> tb_data_channels (cn_tables c') = [] \<and> tb_control_channels (cn_tables c') = [] \<and> cn_open_acks c' = [] \<and>
    cn_events c' = cn_events c @ [EvLinkDown failed (map fst (tb_data_channels (cn_tables c)))] \<and>
    (\<forall>a<length (cn_heap c'). sub_send lw m (cn_heap c' ! a) = (SendFailed SendClosed, [], cn_heap c' ! a)) \<and>
    report_link_down failed' c' = c'"
proof -
  obtain c1 where td: "tear_down c = (Some (map fst (tb_data_channels (cn_tables c))), c1)"
    using assms(2) by (simp add: tear_down_def is_down_def Let_def)
  note f = tear_down_finishes [OF run_inv [OF assms(1)] td]
  have c': "report_link_down failed c = emit (EvLinkDown failed (map fst (tb_data_channels (cn_tables c)))) c1"
    by (simp add: report_link_down_def td)
  have "tb_data_channels (cn_tables c1) = []" "tb_control_channels (cn_tables c1) = []" using tear_down_maps [OF td] by simp_all
  then show ?thesis unfolding c' using f
    by (simp add: is_down_def finished_send report_link_down_def tear_down_def Let_def)
qed

theorem link_down_ends_everything_witness:
  "cn_events (report_link_down True one_channel) = cn_events one_channel @ [EvLinkDown True [1]] \<and>
   sub_send (\<lambda>_. None) (Output 0 [1]) (cn_heap (report_link_down True one_channel) ! 0) =
     (SendFailed SendClosed, [], cn_heap (report_link_down True one_channel) ! 0)"
proof -
  have "\<not> is_down one_channel" by (simp add: is_down_def one_channel_eq serve_def)
  from link_down_ends_everything [OF one_channel_run this, of True "\<lambda>_. None" "Output 0 [1]" True]
  show ?thesis
    by (simp add: one_channel_eq report_link_down_def tear_down_def Let_def)
qed

text \<open>C16. Channels are isolated: whatever frame arrives for one channel, on either link, every other
  channel keeps its registration, whether it is open, its two sub-channels and its ack slot, and no
  message is handed to its consumers.\<close>

theorem other_channels_untouched:
  assumes "conn_step\<^sup>*\<^sup>* (serve r) c" "j \<noteq> channel_id frame"
  shows "let c' = conn_route w frame payload lane c in
    map_of (lane_map l c') j = map_of (lane_map l c) j \<and>
    is_open (lane_table l c') j = is_open (lane_table l c) j \<and>
    map_of (cn_open_acks c') j = map_of (cn_open_acks c) j \<and>
    (\<forall>a. map_of (lane_map l c) j = Some a \<longrightarrow> cn_heap c' ! a = cn_heap c ! a \<and> delivered_to a c' = delivered_to a c)"
proof -
  have inv: "conn_inv c" by (rule run_inv [OF assms(1)])
  note e = conn_route_elsewhere [OF inv, of frame w payload lane]
  have own: "cn_heap (conn_route w frame payload lane c) ! a = cn_heap c ! a \<and>
      delivered_to a (conn_route w frame payload lane c) = delivered_to a c"
    if "map_of (lane_map l c) j = Some a" for a
  proof -
    have o: "owns c j a" using that by (cases l) (simp_all add: lane_map_def owns_def)
    then have n: "\<not> owns c (channel_id frame) a" "a < length (cn_heap c)"
      using owned_by_one [OF inv] assms(2) dispatched_bound [OF inv] by (auto simp: owns_def)
    obtain ds where "cn_delivered (conn_route w frame payload lane c) = cn_delivered c @ ds"
      "\<forall>(b, m)\<in>set ds. owns c (channel_id frame) b" using e by (auto simp: elsewhere_def)
    then have "delivered_to a (conn_route w frame payload lane c) = delivered_to a c"
      using n(1) by (fastforce simp: delivered_to_def filter_empty_conv)
    then show ?thesis using e n by (simp add: elsewhere_def)
  qed
  show ?thesis unfolding Let_def using own e assms(2) by (cases l) (simp_all add: elsewhere_def lane_map_def lane_table_def)
qed

theorem other_channels_untouched_witness:
  "map_of (lane_map Data_Link (conn_route calm_world (ChannelClose 3 Retired) [] Data_Link one_channel)) 1 = Some 0"
  using other_channels_untouched [OF one_channel_run, of 1 "ChannelClose 3 Retired" calm_world "[]" Data_Link Data_Link]
  by (simp add: Let_def one_channel_eq lane_map_def)

text \<open>The demux reassembles every channel in order: once a channel is open and between two messages,
  then, however its bytes are cut into \<open>channelData\<close> frames and whatever arrives in between for the other
  channels on either link, its consumer is handed exactly the messages those bytes are, in order.\<close>

theorem demux_reassembles:
  assumes "conn_step\<^sup>*\<^sup>* (serve r) c" "streaming lane i a [] c" "w_listening w a"
    "only_data i lane fs" "bytes_for i fs = concat (map encode ms)" "\<forall>m\<in>set ms. frame_ok m"
  shows "delivered_to a (route_frames w fs c) = delivered_to a c @ ms"
  using route_frames_reassembles [OF assms(2-4), of ms] assms(5,6) encode_nonempty by simp

theorem demux_reassembles_witness:
  "delivered_to 0 (route_frames calm_world
      [(ChannelData 1 [], take 3 (encode (Output 5 [7, 8])), Data_Link),
       (ChannelOpen 3 (replicate 16 0) 0 0 None, [], Control_Link),
       (ChannelClose 9 Retired, [], Data_Link), (ChannelData 1 [], drop 3 (encode (Output 5 [7, 8])), Data_Link)]
      one_channel) = [Output 5 [7, 8]]"
proof -
  have st: "streaming Data_Link 1 0 [] one_channel"
    using run_inv [OF one_channel_run]
    by (simp add: streaming_def one_channel_eq lane_map_def lane_table_def open_channel_def table_new_def is_open_def
        sub_data_def sub_build_def decoder_init Let_def)
  have ok: "frame_ok (Output 5 [7, 8])"
    by (simp add: frame_eval i64_ok_def)
  have "delivered_to 0 one_channel = []" by (simp add: delivered_to_def one_channel_eq serve_def)
  with demux_reassembles [OF one_channel_run st, of calm_world
      "[(ChannelData 1 [], take 3 (encode (Output 5 [7, 8])), Data_Link), (ChannelOpen 3 (replicate 16 0) 0 0 None, [], Control_Link),
       (ChannelClose 9 Retired, [], Data_Link), (ChannelData 1 [], drop 3 (encode (Output 5 [7, 8])), Data_Link)]"
      "[Output 5 [7, 8]]"]
  show ?thesis using ok by (simp add: only_data_def calm_world_def)
qed

text \<open>What the door does with an arriving open, in every state. An open on the control link and one
  at the initiating end are dropped without a trace. At the host on DATA a new id over the cap and an id
  whose data entry is terminal are refused with an ack and nothing else changes. A fresh id under the cap is
  registered with two fresh sub-channels, open in the data table, and the owner is told once. A duplicate
  of a registered live id mints nothing and tells nobody.\<close>

theorem open_admission:
  fixes c :: connection and w i sid seq cls cwd payload lane
  defines "c' \<equiv> conn_route w (ChannelOpen i sid seq cls cwd) payload lane c"
    and "at_host \<equiv> cn_role c = Host \<and> lane = Data_Link"
    and "registered \<equiv> map_of (tb_data_channels (cn_tables c)) i \<noteq> None"
    and "full \<equiv> max_channels_per_connection \<le> live_channel_count c"
    and "n \<equiv> length (cn_heap c)"
  shows "(\<not> at_host \<longrightarrow> c' = c) \<and>
    (at_host \<and> (\<not> registered \<and> full \<or> terminal (tb_data (cn_tables c)) i) \<longrightarrow> c' = send_open_ack w i False 0 c) \<and>
    (at_host \<and> \<not> registered \<and> \<not> full \<and> \<not> terminal (tb_data (cn_tables c)) i \<longrightarrow>
      map_of (tb_data_channels (cn_tables c')) i = Some n \<and>
      map_of (tb_control_channels (cn_tables c')) i = Some (n + 1) \<and>
      cn_heap c' = cn_heap c @ [sub_data (w_env w) i, sub_control i] \<and>
      is_open (tb_data (cn_tables c')) i \<and>
      cn_events c' = cn_events c @ [EvOpened \<lparr>co_channel_id = i, co_session_id = sid, co_last_received_seq = seq,
        co_channel_class = cls, co_initial_cwd = cwd, co_data = n, co_control = n + 1\<rparr>]) \<and>
    (at_host \<and> registered \<and> \<not> terminal (tb_data (cn_tables c)) i \<longrightarrow>
      tb_data_channels (cn_tables c') = tb_data_channels (cn_tables c) \<and>
      tb_control_channels (cn_tables c') = tb_control_channels (cn_tables c) \<and>
      cn_heap c' = cn_heap c \<and> cn_events c' = cn_events c)"
proof -
  have adm: "admit (arrival_of KChannelOpen i lane c) =
      (if at_host \<and> \<not> registered \<and> full then Refuse OverCap
       else if lane = Control_Link then DropSilently OpenOnControlLink
       else if cn_role c = Client then DropSilently OpenAtInitiator
       else if at_host \<and> terminal (tb_data (cn_tables c)) i then Refuse Reopen else Proceed)"
    unfolding at_host_def registered_def full_def terminal_def
    by (auto simp: admit_def arrival_of_def initiates_opens_def state_of_def live_channel_count_def Let_def)
  have cs: "cn_role c = Host \<or> cn_role c = Client" "lane = Control_Link \<or> lane = Data_Link"
    using role.exhaust link.exhaust by blast+
  have opened: "is_open (open_channel i t) i" if "\<not> terminal t i" for t
    using that by (auto simp: is_open_def open_channel_def terminal_def split: option.splits channel_state.splits)
  have "\<not> at_host \<Longrightarrow> c' = c" "at_host \<and> (\<not> registered \<and> full \<or> terminal (tb_data (cn_tables c)) i) \<Longrightarrow> c' = send_open_ack w i False 0 c"
    unfolding c'_def route_open adm using cs by (auto simp: at_host_def)
  moreover have "at_host \<and> \<not> registered \<and> \<not> full \<and> \<not> terminal (tb_data (cn_tables c)) i \<Longrightarrow>
      map_of (tb_data_channels (cn_tables c')) i = Some n \<and>
      map_of (tb_control_channels (cn_tables c')) i = Some (n + 1) \<and>
      cn_heap c' = cn_heap c @ [sub_data (w_env w) i, sub_control i] \<and>
      is_open (tb_data (cn_tables c')) i \<and>
      cn_events c' = cn_events c @ [EvOpened \<lparr>co_channel_id = i, co_session_id = sid, co_last_received_seq = seq,
        co_channel_class = cls, co_initial_cwd = cwd, co_data = n, co_control = n + 1\<rparr>]"
    unfolding c'_def route_open adm
    by (auto simp: at_host_def registered_def n_def set_data_table_def register_def update_conv' opened Let_def)
  moreover have "at_host \<and> registered \<and> \<not> terminal (tb_data (cn_tables c)) i \<Longrightarrow>
      tb_data_channels (cn_tables c') = tb_data_channels (cn_tables c) \<and>
      tb_control_channels (cn_tables c') = tb_control_channels (cn_tables c) \<and>
      cn_heap c' = cn_heap c \<and> cn_events c' = cn_events c"
    unfolding c'_def route_open adm by (auto simp: at_host_def registered_def set_data_table_def Let_def)
  ultimately show ?thesis by blast
qed

theorem open_admission_witness:
  "conn_route calm_world first_open [] Control_Link (serve Host) = serve Host"
  using open_admission [of "serve Host" Control_Link calm_world 1 "replicate 16 0" 0 0 None "[]"]
  by (simp add: first_open_def)

text \<open>Closing a channel is complete on this side, whatever became of the links: it is in neither
  dispatch map, both its sub-channels are finished, neither table has it live, and nobody waits for its
  ack any more. When the links take writes the peer is told on both, DATA first.\<close>

theorem close_channel_complete:
  assumes "conn_step\<^sup>*\<^sup>* (serve r) c"
  shows "let c' = close_channel w i reason c in
    \<not> owns c' i a \<and> (owns c i a \<longrightarrow> sc_finished (cn_heap c' ! a)) \<and>
    \<not> live (tb_data (cn_tables c')) i \<and> \<not> live (tb_control (cn_tables c')) i \<and>
    fst (await_open_ack i c') = ack_refused \<and>
    (w_link w = (\<lambda>_ _. None) \<longrightarrow> cn_written c' = cn_written c @
      [(Data_Link, mux_encode (ChannelClose i reason)), (Control_Link, mux_encode (ChannelClose i reason))])"
proof -
  let ?b = "mux_encode (ChannelClose i reason)"
  let ?c = "snd (link_send w Control_Link ?b (snd (link_send w Data_Link ?b c)))"
  have inv: "conn_inv ?c" using run_inv [OF assms] by (simp add: conn_inv_def)
  have cc: "close_channel w i reason c = abandon i ?c" by (simp add: close_channel_def Let_def)
  have own: "owns c i a \<Longrightarrow> owns ?c i a" by (simp add: owns_def)
  have wr: "w_link w = (\<lambda>_ _. None) \<Longrightarrow> cn_written ?c = cn_written c @ [(Data_Link, ?b), (Control_Link, ?b)]"
    by (simp add: link_send_def)
  show ?thesis unfolding Let_def cc
    using abandon_result [OF inv] own wr by (simp add: await_open_ack_def)
qed

theorem close_channel_complete_witness:
  "sc_finished (cn_heap (close_channel calm_world 1 Retired one_channel) ! 0)"
  using close_channel_complete [OF one_channel_run, of calm_world 1 Retired 0]
  by (simp add: Let_def owns_def one_channel_eq)

text \<open>The answer to an open is recorded and collected once: when the slot of an id stands, the peer's
  ack, on either link, is what the wait answers, and a second wait is refused. An ack for an id
  without a slot leaves the slots as they are, so a peer can add none.\<close>

theorem open_ack_collected_once:
  assumes "conn_step\<^sup>*\<^sup>* (serve r) c"
  shows "let c' = conn_route w (ChannelOpenAck i acc seq) payload lane c in
    (map_of (cn_open_acks c) i \<noteq> None \<longrightarrow>
      fst (await_open_ack i c') = \<lparr>oa_accepted = acc, oa_resume_from_seq = seq\<rparr> \<and>
      fst (await_open_ack i (snd (await_open_ack i c'))) = ack_refused) \<and>
    (map_of (cn_open_acks c) i = None \<longrightarrow> cn_open_acks c' = cn_open_acks c)"
  using route_ack_slot [OF run_inv [OF assms]] route_unknown_ack [OF run_inv [OF assms]]
  by (simp add: Let_def await_open_ack_def update_conv' delete_conv')

theorem open_ack_collected_once_witness:
  "let c = snd (conn_open_channel calm_world \<lparr>rq_session_id = replicate 16 0, rq_last_received_seq = 4,
        rq_channel_class = 0, rq_initial_cwd = None\<rparr> (serve Client));
       c' = conn_route calm_world (ChannelOpenAck 1 True 7) [] Data_Link c
   in fst (await_open_ack 1 c') = \<lparr>oa_accepted = True, oa_resume_from_seq = 7\<rparr>"
proof -
  let ?rq = "\<lparr>rq_session_id = replicate 16 0, rq_last_received_seq = 4, rq_channel_class = 0, rq_initial_cwd = None\<rparr>"
  let ?c = "snd (conn_open_channel calm_world ?rq (serve Client))"
  have "allocator_room (serve Client)" by (simp add: allocator_room_def serve_def tables_new_def table_new_def)
  then have run: "conn_step\<^sup>*\<^sup>* (serve Client) ?c" by (intro r_into_rtranclp OwnerOpens)
  have "map_of (cn_open_acks ?c) 1 \<noteq> None"
    by (simp add: conn_open_channel_def open_registered_def register_def link_send_def calm_world_def serve_def tables_new_def
        table_new_def allocate_def initiates_opens_def Let_def)
  then show ?thesis using open_ack_collected_once [OF run, where i = 1 and acc = True and seq = 7 and w = calm_world and payload = "[]" and lane = Data_Link]
    by (simp add: Let_def)
qed

text \<open>The owner hears of the end of the links at most once, however the two receive loops and the
  owner race to it.\<close>

theorem link_down_reported_once:
  assumes "conn_step\<^sup>*\<^sup>* (serve r) c"
  shows "length (filter is_link_down (cn_events c)) \<le> 1 \<and> (filter is_link_down (cn_events c) \<noteq> [] \<longrightarrow> is_down c)"
  using run_reports [OF assms] by (simp add: is_down_def)

theorem link_down_reported_once_witness:
  "length (filter is_link_down (cn_events (report_link_down False (report_link_down True one_channel)))) \<le> 1"
proof -
  have "conn_step\<^sup>*\<^sup>* (serve Host) (report_link_down False (report_link_down True one_channel))"
    using one_channel_run by (meson LinkEnds rtranclp.rtrancl_into_rtrancl)
  then show ?thesis using link_down_reported_once by blast
qed

text \<open>C37. A frame of the other link that is still buffered when a link dies is routed after the
  teardown: for every reachable host that is not down, every open of an identity the host has not closed before, routed after the
  link was reported down, registers a channel with both sub-channels unfinished and announces it, though the host is down, and
  no later report or close tears anything down again.\<close>

theorem late_open_outlives_teardown:
  assumes run: "conn_step\<^sup>*\<^sup>* (serve Host) c" and up: "\<not> is_down c" and i: "state_of (tb_data (cn_tables c)) i \<notin> {Some Closed, Some HalfClosed}"
  shows "let c' = conn_route w (ChannelOpen i sid seq cls cwd) p Data_Link (report_link_down failed c); n = length (cn_heap c') in
    is_down c' \<and> tb_data_channels (cn_tables c') = [(i, n - 2)] \<and> tb_control_channels (cn_tables c') = [(i, n - 1)] \<and> 2 \<le> n \<and>
    \<not> sc_finished (cn_heap c' ! (n - 2)) \<and> \<not> sc_finished (cn_heap c' ! (n - 1)) \<and>
    (\<exists>opened. cn_events c' = cn_events (report_link_down failed c) @ [EvOpened opened] \<and> co_channel_id opened = i) \<and>
    report_link_down failed' c' = c' \<and> close c' = c'"
proof -
  obtain c1 where td: "tear_down c = (Some (map fst (tb_data_channels (cn_tables c))), c1)"
    using up by (simp add: tear_down_def is_down_def Let_def)
  let ?d = "report_link_down failed c"
  have d: "cn_tables ?d = (cn_tables c)\<lparr>tb_data_channels := [], tb_control_channels := []\<rparr>" "cn_role ?d = Host" "cn_torn_down ?d"
    using tear_down_maps [OF td] tear_down_finishes(2) [OF run_inv [OF run] td] run_role [OF run]
    by (simp_all add: report_link_down_def td emit_def)
  have "admit (arrival_of KChannelOpen i Data_Link ?d) = Proceed"
    using i d by (auto simp: admit_def arrival_of_def initiates_opens_def max_channels_per_connection_def Let_def)
  then have c: "conn_route w (ChannelOpen i sid seq cls cwd) p Data_Link ?d =
      accept_open w (ChannelOpen i sid seq cls cwd) Data_Link (set_data_table (open_channel i (tb_data (cn_tables ?d))) ?d)"
    unfolding route_open by simp
  show ?thesis unfolding Let_def c using d
    by (simp add: set_data_table_def register_def emit_def is_down_def report_link_down_def close_def tear_down_def nth_append
        sub_data_def sub_control_def sub_build_def Let_def)
qed

theorem late_open_outlives_teardown_witness:
  "tb_data_channels (cn_tables (conn_route calm_world (ChannelOpen 3 (replicate 16 0) 0 0 None) [] Data_Link (report_link_down True one_channel))) = [(3, 2)]"
proof -
  have "\<not> is_down one_channel" "state_of (tb_data (cn_tables one_channel)) 3 \<notin> {Some Closed, Some HalfClosed}"
    by (simp_all add: is_down_def one_channel_eq serve_def state_of_def open_channel_def table_new_def tables_new_def)
  note late = late_open_outlives_teardown [OF one_channel_run this, of calm_world "replicate 16 0" 0 0 None "[]" True True]
  have "length (cn_heap (conn_route calm_world (ChannelOpen 3 (replicate 16 0) 0 0 None) [] Data_Link (report_link_down True one_channel))) = 4"
    by (simp add: one_channel_eq report_link_down_def tear_down_def route_open admit_def arrival_of_def serve_def initiates_opens_def
        state_of_def open_channel_def table_new_def tables_new_def max_channels_per_connection_def set_data_table_def register_def emit_def Let_def)
  with late show ?thesis by (simp add: Let_def)
qed

end
