(* ===== verification/Link_Loop.thy ===== *)
theory Link_Loop
  imports Mux_Run
begin

text \<open>
  From the bytes of a link to the frames that are routed: the receive loop of
  \<open>slopdesk-muxnet/src/connection.rs\<close>, which borrows the payload of a frame from the decoder's buffer,
  routes exactly the frames the peer encoded, however the reads cut the bytes.
\<close>

section \<open>One frame off the buffer\<close>

lemma stream_next_elided_mux:
  "stream_next (\<lambda>p. map_res fst (decode_leaving_payload p)) st =
    (case stream_next mux_decode st of (res, st') \<Rightarrow> (map_res (map_option without_payload) res, st'))"
proof (cases st)
  case (Live u)
  have "map_res fst (decode_leaving_payload p) = map_res without_payload (mux_decode p)" for p
    using mux_decode_elides [of p] by (auto split: sum.splits)
  then show ?thesis by (auto simp: Live map_res_def split: sum.splits option.splits)
qed simp

lemma next_leaving_step:
  assumes inv: "mux_decoder_inv md" and nx: "next_frame_leaving_payload md = (res', md')"
    and st: "stream_next mux_decode (mux_decoder_stream md) = (res, st)"
  shows "mux_decoder_inv md' \<and> mux_decoder_stream md' = st \<and>
    (case res of
       Inl e \<Rightarrow> res' = Inl e
     | Inr None \<Rightarrow> res' = Inr None
     | Inr (Some f) \<Rightarrow> (\<exists>run. res' = Inr (Some (without_payload f, run)) \<and> mux_payload_bytes md' run = opaque_payload f))"
proof -
  obtain r' where r': "next_payload True decode_leaving_payload (md_reader md) = (res', r')" "md' = md\<lparr>md_reader := r'\<rparr>"
    using nx by (auto simp: next_frame_leaving_payload_def mux_next_inner_def split: prod.splits)
  have el: "(map_res (map_option without_payload) res, st) = (map_res (map_option fst) res', mux_decoder_stream md')"
    and inv': "mux_decoder_inv md'"
    using next_payload_refines [OF _ r'(1)] inv r'(2) st stream_next_elided_mux [of "mux_decoder_stream md"]
    by (simp_all add: mux_decoder_inv_def mux_decoder_stream_def)
  show ?thesis
  proof (cases "\<exists>f. res = Inr (Some f)")
    case True
    then obtain f where f: "res = Inr (Some f)" by blast
    then obtain v run where v: "res' = Inr (Some (v, run))" "v = without_payload f"
      using el by (cases res') (auto simp: eq_commute [of "Some _"])
    obtain p u a b where p: "fault (md_reader md) = None" "stream_frame (unread (md_reader md)) = Inr (Some (p, u))"
      "decode_leaving_payload p = Inr (v, (a, b))" "\<And>bs. slice_get p a b = Some bs \<Longrightarrow> reader_bytes r' run = bs"
      using next_payload_span [OF _ r'(1) [unfolded v(1)]] inv unfolding mux_decoder_inv_def by blast
    have "mux_decode p = Inr f"
      using st f p(1,2) by (auto simp: mux_decoder_stream_def stream_of_def split: sum.splits)
    then have "slice_get p a b = Some (opaque_payload f)" using mux_decode_elides [of p] p(3) by auto
    with p(4) show ?thesis using el inv' f v r'(2) by (auto simp: mux_payload_bytes_def)
  next
    case False
    then show ?thesis using el inv' by (cases res; cases res') (auto split: option.splits)
  qed
qed

section \<open>Draining and looping\<close>

text \<open>The arrival a frame of the peer becomes.\<close>

definition arrive :: "link \<Rightarrow> mux_frame \<Rightarrow> arriving" where
  "arrive lane f = (without_payload f, opaque_payload f, lane)"

lemma route_arrive [simp]:
  "route_frames w (arrive lane f # xs) c = route_frames w xs (conn_route w (without_payload f) (opaque_payload f) lane c)"
  by (simp add: arrive_def)

lemma drain_frames:
  assumes "mux_decoder_inv md" "mux_decoder_stream md = Live u" "\<forall>f\<in>set fs. mux_frame_ok f"
    "u @ v = concat (map mux_encode fs)"
  shows "\<exists>k rest md'. k \<le> length fs \<and>
    drain w lane md c = (True, md', route_frames w (map (arrive lane) (take k fs)) c) \<and>
    mux_decoder_inv md' \<and> mux_decoder_stream md' = Live rest \<and> rest @ v = concat (map mux_encode (drop k fs)) \<and>
    (drop k fs \<noteq> [] \<longrightarrow> length rest < length (mux_encode (hd (drop k fs))))"
  using assms
proof (induction fs arbitrary: md u c)
  case Nil
  obtain res md' where n: "next_frame_leaving_payload md = (res, md')" by (cases "next_frame_leaving_payload md")
  have "stream_next mux_decode (mux_decoder_stream md) = (Inr None, Live [])"
    using Nil.prems(2,4) by (simp add: stream_frame_def)
  from next_leaving_step [OF Nil.prems(1) n this] show ?case
    using n Nil.prems by (auto simp: drain.simps)
next
  case (Cons f fs)
  obtain res md' where n: "next_frame_leaving_payload md = (res, md')" by (cases "next_frame_leaving_payload md")
  have f: "mux_frame_ok f" using Cons.prems(3) by simp
  show ?case
  proof (cases "length u < length (mux_encode f)")
    case True
    have "stream_next mux_decode (mux_decoder_stream md) = (Inr None, Live u)"
      using mframes.next_partial [OF f True, of v "concat (map mux_encode fs)"] Cons.prems(2,4) by simp
    from next_leaving_step [OF Cons.prems(1) n this] show ?thesis
      using n Cons.prems True by (intro exI [of _ 0] exI [of _ u] exI [of _ md']) (simp add: drain.simps)
  next
    case False
    then obtain u' where u': "u = mux_encode f @ u'"
      using Cons.prems(4) by (auto simp: append_eq_append_conv_if split: if_splits) (metis append_take_drop_id)
    have "stream_next mux_decode (mux_decoder_stream md) = (Inr (Some f), Live u')"
      using mframes.next_whole [OF f] Cons.prems(2) u' by simp
    from next_leaving_step [OF Cons.prems(1) n this] obtain run where
      s: "mux_decoder_inv md'" "mux_decoder_stream md' = Live u'" "res = Inr (Some (without_payload f, run))"
      "mux_payload_bytes md' run = opaque_payload f" by auto
    let ?c = "conn_route w (without_payload f) (opaque_payload f) lane c"
    have rest: "\<forall>f\<in>set fs. mux_frame_ok f" "u' @ v = concat (map mux_encode fs)" using Cons.prems(3,4) u' by simp_all
    obtain k rest md2 where k: "k \<le> length fs" "drain w lane md' ?c = (True, md2, route_frames w (map (arrive lane) (take k fs)) ?c)"
      "mux_decoder_inv md2" "mux_decoder_stream md2 = Live rest" "rest @ v = concat (map mux_encode (drop k fs))"
      "drop k fs \<noteq> [] \<longrightarrow> length rest < length (mux_encode (hd (drop k fs)))"
      using Cons.IH [OF s(1,2) rest] by blast
    have "drain w lane md c = drain w lane md' ?c" using n s(3,4) by (subst drain.simps) simp
    then show ?thesis using k
      by (intro exI [of _ "Suc k"] exI [of _ rest] exI [of _ md2]) simp
  qed
qed

text \<open>What the reads of a live link add up to.\<close>

fun read_bytes :: "recv_result list \<Rightarrow> bytes" where
  "read_bytes [] = []"
| "read_bytes (RecvBytes b # rs) = b @ read_bytes rs"
| "read_bytes (_ # rs) = read_bytes rs"

definition link_alive :: "recv_result list \<Rightarrow> bool" where
  "link_alive rs \<longleftrightarrow> RecvFailed \<notin> set rs \<and> RecvBytes [] \<notin> set rs"

lemma route_frames_append: "route_frames w (xs @ ys) c = route_frames w ys (route_frames w xs c)"
proof (induction xs arbitrary: c)
  case (Cons x xs)
  then show ?case by (cases x) simp
qed simp

lemma receive_loop_frames:
  assumes "mux_decoder_inv md" "mux_decoder_stream md = Live u" "\<forall>f\<in>set fs. mux_frame_ok f" "link_alive rs"
    "u @ read_bytes rs = concat (map mux_encode fs)" "fs \<noteq> [] \<longrightarrow> length u < length (mux_encode (hd fs))"
  shows "\<exists>md'. receive_loop w lane (rs @ rs') md c =
    receive_loop w lane rs' md' (route_frames w (map (arrive lane) fs) c)"
  using assms
proof (induction rs arbitrary: md u fs c)
  case Nil
  then show ?case by (cases fs) auto
next
  case (Cons r rs)
  have alive: "link_alive rs" using Cons.prems(4) by (simp add: link_alive_def)
  show ?case
  proof (cases r)
    case (RecvBytes d)
    have app: "mux_decoder_inv (mux_append d md)" "mux_decoder_stream (mux_append d md) = Live (u @ d)"
      using mdec.app_refines [OF Cons.prems(1), of d] Cons.prems(2) by simp_all
    have str: "(u @ d) @ read_bytes rs = concat (map mux_encode fs)" using Cons.prems(5) RecvBytes by simp
    obtain k rest md' where k: "drain w lane (mux_append d md) c = (True, md', route_frames w (map (arrive lane) (take k fs)) c)"
      "mux_decoder_inv md'" "mux_decoder_stream md' = Live rest" "rest @ read_bytes rs = concat (map mux_encode (drop k fs))"
      "drop k fs \<noteq> [] \<longrightarrow> length rest < length (mux_encode (hd (drop k fs)))"
      using drain_frames [OF app Cons.prems(3) str] by blast
    have ok: "\<forall>f\<in>set (drop k fs). mux_frame_ok f" using Cons.prems(3) by (auto dest: in_set_dropD)
    have "d \<noteq> []" using Cons.prems(4) RecvBytes by (auto simp: link_alive_def)
    moreover have "route_frames w (map (arrive lane) (drop k fs)) (route_frames w (map (arrive lane) (take k fs)) c) =
        route_frames w (map (arrive lane) fs) c"
      by (metis append_take_drop_id map_append route_frames_append)
    ultimately show ?thesis
      using Cons.IH [OF k(2,3) ok alive k(4,5), of "route_frames w (map (arrive lane) (take k fs)) c"] k(1) RecvBytes by simp
  next
    case RecvInterrupted
    then show ?thesis using Cons.IH [OF Cons.prems(1-3) alive] Cons.prems(5,6) by simp
  next
    case RecvFailed
    then show ?thesis using Cons.prems(4) by (simp add: link_alive_def)
  qed
qed

section \<open>A stream that stops decoding\<close>

definition faulty :: "bytes \<Rightarrow> bool" where
  "faulty bad \<longleftrightarrow> (\<exists>e st. stream_next mux_decode (Live bad) = (Inl e, st))"

lemma faulty_prefix:
  assumes "faulty (u @ v)" "\<not> faulty u"
  shows "stream_next mux_decode (Live u) = (Inr None, Live u)"
  using assms by (auto simp: faulty_def stream_frame_def Let_def nth_append split: sum.splits if_splits)

text \<open>Frames, then bytes that fault: the frames are routed as they are complete, and the fault comes with the bytes that
  show it.\<close>

lemma drain_fault:
  assumes "mux_decoder_inv md" "mux_decoder_stream md = Live u" "\<forall>f\<in>set fs. mux_frame_ok f"
    "u @ v = concat (map mux_encode fs) @ bad" "faulty bad"
  shows "(\<exists>md'. drain w lane md c = (False, md', route_frames w (map (arrive lane) fs) c)) \<or>
    (\<exists>k rest md'. k \<le> length fs \<and>
      drain w lane md c = (True, md', route_frames w (map (arrive lane) (take k fs)) c) \<and>
      mux_decoder_inv md' \<and> mux_decoder_stream md' = Live rest \<and> rest @ v = concat (map mux_encode (drop k fs)) @ bad \<and>
      (if drop k fs = [] then \<not> faulty rest else length rest < length (mux_encode (hd (drop k fs)))))"
  using assms(1-4)
proof (induction fs arbitrary: md u c)
  case Nil
  obtain res md' where n: "next_frame_leaving_payload md = (res, md')" by (cases "next_frame_leaving_payload md")
  show ?case
  proof (cases "faulty u")
    case True
    then obtain e st where "stream_next mux_decode (mux_decoder_stream md) = (Inl e, st)" using Nil.prems(2) by (auto simp: faulty_def)
    from next_leaving_step [OF Nil.prems(1) n this] show ?thesis using n by (simp add: drain.simps)
  next
    case False
    then have "stream_next mux_decode (mux_decoder_stream md) = (Inr None, Live u)"
      using faulty_prefix [of u v] assms(5) Nil.prems(2,4) by simp
    from next_leaving_step [OF Nil.prems(1) n this] show ?thesis
      using n Nil.prems False by (intro disjI2 exI [of _ 0] exI [of _ u] exI [of _ md']) (simp add: drain.simps)
  qed
next
  case (Cons f fs)
  obtain res md' where n: "next_frame_leaving_payload md = (res, md')" by (cases "next_frame_leaving_payload md")
  have f: "mux_frame_ok f" using Cons.prems(3) by simp
  show ?case
  proof (cases "length u < length (mux_encode f)")
    case True
    have "stream_next mux_decode (mux_decoder_stream md) = (Inr None, Live u)"
      using mframes.next_partial [OF f True, of v "concat (map mux_encode fs) @ bad"] Cons.prems(2,4) by simp
    from next_leaving_step [OF Cons.prems(1) n this] show ?thesis
      using n Cons.prems True by (intro disjI2 exI [of _ 0] exI [of _ u] exI [of _ md']) (simp add: drain.simps)
  next
    case False
    have "take (length (mux_encode f)) (u @ v) = mux_encode f" using Cons.prems(4) by simp
    then have "take (length (mux_encode f)) u = mux_encode f" using False by simp
    then obtain u' where u': "u = mux_encode f @ u'" by (metis append_take_drop_id)
    have "stream_next mux_decode (mux_decoder_stream md) = (Inr (Some f), Live u')"
      using mframes.next_whole [OF f] Cons.prems(2) u' by simp
    from next_leaving_step [OF Cons.prems(1) n this] obtain run where
      s: "mux_decoder_inv md'" "mux_decoder_stream md' = Live u'" "res = Inr (Some (without_payload f, run))"
      "mux_payload_bytes md' run = opaque_payload f" by auto
    let ?c = "conn_route w (without_payload f) (opaque_payload f) lane c"
    have rest: "\<forall>f\<in>set fs. mux_frame_ok f" "u' @ v = concat (map mux_encode fs) @ bad" using Cons.prems(3,4) u' by simp_all
    have d: "drain w lane md c = drain w lane md' ?c" using n s(3,4) by (subst drain.simps) simp
    from Cons.IH [OF s(1,2) rest, of ?c] show ?thesis
    proof (elim disjE exE conjE)
      fix k rest md2
      assume k: "k \<le> length fs" "drain w lane md' ?c = (True, md2, route_frames w (map (arrive lane) (take k fs)) ?c)"
        "mux_decoder_inv md2" "mux_decoder_stream md2 = Live rest" "rest @ v = concat (map mux_encode (drop k fs)) @ bad"
        "if drop k fs = [] then \<not> faulty rest else length rest < length (mux_encode (hd (drop k fs)))"
      then show ?thesis using d by (intro disjI2 exI [of _ "Suc k"] exI [of _ rest] exI [of _ md2]) simp
    qed (use d in simp)
  qed
qed

lemma receive_loop_fault:
  assumes "mux_decoder_inv md" "mux_decoder_stream md = Live u" "\<forall>f\<in>set fs. mux_frame_ok f" "link_alive rs"
    "u @ read_bytes rs = concat (map mux_encode fs) @ bad" "faulty bad"
    "if fs = [] then \<not> faulty u else length u < length (mux_encode (hd fs))"
  shows "snd (receive_loop w lane (rs @ rs') md c) = report_link_down True (route_frames w (map (arrive lane) fs) c)"
  using assms(1-5,7)
proof (induction rs arbitrary: md u fs c)
  case Nil
  then show ?case using assms(6) by (cases fs) auto
next
  case (Cons r rs)
  have alive: "link_alive rs" using Cons.prems(4) by (simp add: link_alive_def)
  show ?case
  proof (cases r)
    case (RecvBytes d)
    have app: "mux_decoder_inv (mux_append d md)" "mux_decoder_stream (mux_append d md) = Live (u @ d)"
      using mdec.app_refines [OF Cons.prems(1), of d] Cons.prems(2) by simp_all
    have str: "(u @ d) @ read_bytes rs = concat (map mux_encode fs) @ bad" using Cons.prems(5) RecvBytes by simp
    have ne: "d \<noteq> []" using Cons.prems(4) RecvBytes by (auto simp: link_alive_def)
    from drain_fault [OF app Cons.prems(3) str assms(6), of w lane c] show ?thesis
    proof (elim disjE exE conjE)
      fix md' assume "drain w lane (mux_append d md) c = (False, md', route_frames w (map (arrive lane) fs) c)"
      then show ?thesis using ne RecvBytes by simp
    next
      fix k rest md'
      assume k: "drain w lane (mux_append d md) c = (True, md', route_frames w (map (arrive lane) (take k fs)) c)"
        "mux_decoder_inv md'" "mux_decoder_stream md' = Live rest" "rest @ read_bytes rs = concat (map mux_encode (drop k fs)) @ bad"
        "if drop k fs = [] then \<not> faulty rest else length rest < length (mux_encode (hd (drop k fs)))"
      have ok: "\<forall>f\<in>set (drop k fs). mux_frame_ok f" using Cons.prems(3) by (auto dest: in_set_dropD)
      have "route_frames w (map (arrive lane) (drop k fs)) (route_frames w (map (arrive lane) (take k fs)) c) =
          route_frames w (map (arrive lane) fs) c"
        by (metis append_take_drop_id map_append route_frames_append)
      then show ?thesis
        using Cons.IH [OF k(2,3) ok alive k(4,5), of "route_frames w (map (arrive lane) (take k fs)) c"] k(1) ne RecvBytes by simp
    qed
  next
    case RecvInterrupted
    then show ?thesis using Cons.IH [OF Cons.prems(1-3) alive] Cons.prems(5,6) by simp
  next
    case RecvFailed
    then show ?thesis using Cons.prems(4) by (simp add: link_alive_def)
  qed
qed

lemma route_frames_run: "conn_step\<^sup>*\<^sup>* (serve r) c \<Longrightarrow> conn_step\<^sup>*\<^sup>* (serve r) (route_frames w (map (arrive lane) fs) c)"
  by (induction fs arbitrary: c) (simp_all add: frame_run)

section \<open>Properties\<close>

text \<open>The receive loop routes exactly the frames the peer encoded, in order, however the reads cut
  their bytes and whatever reads were interrupted; a clean end of the stream after them is reported as
  a link that went down without failing.\<close>

theorem link_bytes_are_routed:
  assumes "\<forall>f\<in>set fs. mux_frame_ok f" "link_alive rs" "read_bytes rs = concat (map mux_encode fs)"
  shows "snd (receive_loop w lane rs mux_decoder_new c) = route_frames w (map (arrive lane) fs) c \<and>
    snd (receive_loop w lane (rs @ [RecvBytes []]) mux_decoder_new c) =
      report_link_down False (route_frames w (map (arrive lane) fs) c)"
proof -
  have pos: "mux_encode f \<noteq> []" for f by (simp add: mux_encode_frame mux_frame_bytes_def mux_inner_bytes_def)
  have "\<exists>md'. receive_loop w lane (rs @ rs') mux_decoder_new c =
      receive_loop w lane rs' md' (route_frames w (map (arrive lane) fs) c)" for rs'
    using receive_loop_frames [OF mux_decoder_init assms(1,2)] assms(3) pos by simp
  from this [of "[]"] this [of "[RecvBytes []]"] show ?thesis by auto
qed

theorem link_bytes_are_routed_witness:
  "snd (receive_loop calm_world Data_Link [RecvBytes [0, 0], RecvInterrupted, RecvBytes [0, 5, 0, 0, 0], RecvBytes [7, 4]]
      mux_decoder_new one_channel) = conn_route calm_world (ChannelClose 7 Retired) [] Data_Link one_channel"
proof -
  let ?rs = "[RecvBytes [0, 0], RecvInterrupted, RecvBytes [0, 5, 0, 0, 0], RecvBytes [7, 4]]"
  have 1: "\<forall>f\<in>set [ChannelClose 7 Retired]. mux_frame_ok f"
    and 2: "link_alive ?rs" and 3: "read_bytes ?rs = concat (map mux_encode [ChannelClose 7 Retired])"
    by (simp_all add: mux_frame_ok_def mux_encode_frame mux_frame_bytes_def mux_inner_bytes_def u32_try_or_max_def
        be_bytes_unfold max_frame_payload_length_def link_alive_def)
  have "snd (receive_loop calm_world Data_Link ?rs mux_decoder_new one_channel) =
      route_frames calm_world (map (arrive Data_Link) [ChannelClose 7 Retired]) one_channel"
    using link_bytes_are_routed [OF 1 2 3] by blast
  then show ?thesis by (simp del: receive_loop.simps)
qed

text \<open>C4. Messages cross the connection: on a host channel that is open and between two messages, when
  the peer's encoded frames carry the encoded messages \<open>ms\<close> in \<open>channelData\<close> of that channel, cut at any
  place and mixed with any frames of other channels, and the socket hands the bytes over in any reads, the
  consumer of the channel receives exactly \<open>ms\<close>, in order.\<close>

theorem messages_cross_the_connection:
  assumes "conn_step\<^sup>*\<^sup>* (serve r) c" "streaming lane i a [] c" "w_listening w a"
    "\<forall>f\<in>set fs. mux_frame_ok f" "\<forall>f\<in>set fs. channel_id f = i \<longrightarrow> (\<exists>b. f = ChannelData i b)"
    "concat (map opaque_payload (filter (\<lambda>f. channel_id f = i) fs)) = concat (map encode ms)" "\<forall>m\<in>set ms. frame_ok m"
    "link_alive rs" "read_bytes rs = concat (map mux_encode fs)"
  shows "delivered_to a (snd (receive_loop w lane rs mux_decoder_new c)) = delivered_to a c @ ms"
proof -
  have pos: "mux_encode f \<noteq> []" for f by (simp add: mux_encode_frame mux_frame_bytes_def mux_inner_bytes_def)
  obtain md' where loop: "receive_loop w lane (rs @ []) mux_decoder_new c =
      receive_loop w lane [] md' (route_frames w (map (arrive lane) fs) c)"
    using receive_loop_frames [OF mux_decoder_init assms(4,8), where rs' = "[]" and w = w and lane = lane and c = c] assms(9) pos by auto
  have wp: "channel_id (without_payload f) = channel_id f" for f by (cases f) simp_all
  have "only_data i lane (map (arrive lane) fs)"
    using assms(5) by (simp add: only_data_def arrive_def wp) (metis without_payload.simps(1))
  moreover have "bytes_for i (map (arrive lane) fs) = concat (map opaque_payload (filter (\<lambda>f. channel_id f = i) fs))" for fs
    by (induction fs) (simp_all add: arrive_def wp)
  ultimately show ?thesis
    using route_frames_reassembles [OF assms(2,3), of "map (arrive lane) fs" ms] assms(6,7) loop encode_nonempty by simp
qed

theorem messages_cross_the_connection_witness:
  "let fs = [ChannelData 1 (take 3 (encode (Output 5 [7, 8]))), ChannelClose 9 Retired,
             ChannelData 1 (drop 3 (encode (Output 5 [7, 8])))];
       bs = concat (map mux_encode fs)
   in delivered_to 0 (snd (receive_loop calm_world Data_Link [RecvBytes (take 5 bs), RecvBytes (drop 5 bs)]
        mux_decoder_new one_channel)) = delivered_to 0 one_channel @ [Output 5 [7, 8]]"
proof -
  let ?m = "Output 5 [7, 8]"
  let ?fs = "[ChannelData 1 (take 3 (encode ?m)), ChannelClose 9 Retired, ChannelData 1 (drop 3 (encode ?m))]"
  let ?bs = "concat (map mux_encode ?fs)"
  let ?rs = "[RecvBytes (take 5 ?bs), RecvBytes (drop 5 ?bs)]"
  have st: "streaming Data_Link 1 0 [] one_channel"
    using run_inv [OF one_channel_run]
    by (simp add: streaming_def one_channel_eq lane_map_def lane_table_def open_channel_def table_new_def is_open_def
        sub_data_def sub_build_def decoder_init Let_def)
  have m: "\<forall>m\<in>set [?m]. frame_ok m" by (simp add: frame_eval i64_ok_def)
  have len: "length (encode ?m) = 15" by (simp add: frame_eval)
  have fs: "\<forall>f\<in>set ?fs. mux_frame_ok f"
    by (simp add: mux_frame_ok_def mux_encode_frame mux_frame_bytes_def mux_inner_bytes_def max_frame_payload_length_def len)
  have own: "\<forall>f\<in>set ?fs. channel_id f = 1 \<longrightarrow> (\<exists>b. f = ChannelData 1 b)"
    "concat (map opaque_payload (filter (\<lambda>f. channel_id f = 1) ?fs)) = concat (map encode [?m])" by simp_all
  have "9 \<le> length (mux_encode (ChannelClose 9 Retired))"
    by (simp add: mux_encode_frame mux_frame_bytes_def mux_inner_bytes_def)
  then have "9 \<le> length ?bs" by simp
  have cut: "link_alive [RecvBytes (take 5 b), RecvBytes (drop 5 b)] \<and> read_bytes [RecvBytes (take 5 b), RecvBytes (drop 5 b)] = b"
    if "9 \<le> length b" for b using that by (auto simp: link_alive_def)
  note rs = cut [OF \<open>9 \<le> length ?bs\<close>, THEN conjunct1] cut [OF \<open>9 \<le> length ?bs\<close>, THEN conjunct2]
  have "w_listening calm_world 0" by (simp add: calm_world_def)
  from messages_cross_the_connection [OF one_channel_run st this fs own m rs] show ?thesis unfolding Let_def .
qed

text \<open>C33. A stream that does not decode ends the connection: when the bytes of a live link, however the reads cut them, are any
  frames followed by bytes on which the decoder faults, those frames are routed and nothing more whatever is read after, the
  connection is down, and if it was not before, no channel is left.\<close>

theorem decode_fault_ends_connection:
  assumes "conn_step\<^sup>*\<^sup>* (serve r) c" "\<forall>f\<in>set fs. mux_frame_ok f" "link_alive rs"
    "read_bytes rs = concat (map mux_encode fs) @ bad" "stream_next mux_decode (Live bad) = (Inl e, st)"
  shows "let routed = route_frames w (map (arrive lane) fs) c; c' = snd (receive_loop w lane (rs @ rs') mux_decoder_new c) in
    c' = report_link_down True routed \<and> is_down c' \<and> (\<not> is_down routed \<longrightarrow> live_channel_count c' = 0)"
proof -
  let ?c = "route_frames w (map (arrive lane) fs) c"
  have pos: "mux_encode f \<noteq> []" for f by (simp add: mux_encode_frame mux_frame_bytes_def mux_inner_bytes_def)
  have bad: "faulty bad" "\<not> faulty []" using assms(5) by (auto simp: faulty_def stream_frame_def)
  have loop: "snd (receive_loop w lane (rs @ rs') mux_decoder_new c) = report_link_down True ?c"
    using receive_loop_fault [OF mux_decoder_init assms(2,3) _ bad(1)] assms(4) pos bad(2) by simp
  show ?thesis
  proof (cases "is_down ?c")
    case True
    then show ?thesis unfolding loop by (simp add: report_link_down_def tear_down_def is_down_def)
  next
    case False
    then obtain c1 where td: "tear_down ?c = (Some (map fst (tb_data_channels (cn_tables ?c))), c1)"
      by (simp add: tear_down_def is_down_def Let_def)
    show ?thesis unfolding loop Let_def using tear_down_finishes [OF run_inv [OF route_frames_run [OF assms(1)]] td] td
      by (simp add: report_link_down_def is_down_def live_channel_count_def)
  qed
qed

theorem decode_fault_ends_connection_witness:
  "is_down (snd (receive_loop calm_world Control_Link
     ([RecvBytes [0, 0, 0, 5, 0, 0, 0, 7, 4, 255], RecvInterrupted, RecvBytes [0, 0, 0, 1]] @ [RecvBytes [0, 0, 0, 5]]) mux_decoder_new one_channel))"
proof -
  let ?rs = "[RecvBytes [0, 0, 0, 5, 0, 0, 0, 7, 4, 255], RecvInterrupted, RecvBytes [0, 0, 0, 1]]"
  have 1: "stream_next mux_decode (Live [255, 0, 0, 0, 1]) = (Inl (FrameTooLarge 4278190080), Dead (FrameTooLarge 4278190080))"
    by (simp add: stream_frame_def from_be_bytes_def max_frame_payload_length_def Let_def)
  have 2: "\<forall>f\<in>set [ChannelClose 7 Retired]. mux_frame_ok f" and 3: "link_alive ?rs"
    and 4: "read_bytes ?rs = concat (map mux_encode [ChannelClose 7 Retired]) @ [255, 0, 0, 0, 1]"
    by (simp_all add: mux_frame_ok_def mux_encode_frame mux_frame_bytes_def mux_inner_bytes_def u32_try_or_max_def
        be_bytes_unfold max_frame_payload_length_def link_alive_def)
  from decode_fault_ends_connection [OF one_channel_run 2 3 4 1, of calm_world Control_Link "[RecvBytes [0, 0, 0, 5]]"]
  show ?thesis unfolding Let_def by blast
qed

end
