(* ===== verification/Vt_Scan.thy ===== *)
theory Vt_Scan
  imports Utf8
begin

text \<open>
  The escape-sequence skimmer \<open>slopdesk-sanitize/src/vtscan.rs\<close> and the alternate-screen tracker built on
  it, \<open>slopdesk-altscreen/src/lib.rs\<close>: which opener a stream needs after its front was cut off. The
  second half relates the byte scan to a stream of whole sequences.
\<close>

section \<open>The skimmer\<close>

definition ESC :: u8 where "ESC = 0x1B"
definition BEL :: u8 where "BEL = 0x07"
definition C1_ST :: u8 where "C1_ST = 0x9C"
definition CAN :: u8 where "CAN = 0x18"
definition SUB_byte :: u8 where "SUB_byte = 0x1A"

record csi =
  params :: bytes
  intermediates :: bytes
  final_byte :: u8
  csi_end :: nat

text \<open>The scanning loops: the first position from \<open>j\<close> on whose byte is outside the range.\<close>

definition skip_range :: "u8 \<Rightarrow> u8 \<Rightarrow> bytes \<Rightarrow> nat \<Rightarrow> nat" where
  "skip_range lo hi bs j = j + length (takeWhile (\<lambda>b. lo \<le> b \<and> b \<le> hi) (drop j bs))"

definition parse_csi :: "bytes \<Rightarrow> nat \<Rightarrow> csi option" where
  "parse_csi bs start =
    (let params_start = start + 2;
         inters_start = skip_range 0x30 0x3F bs params_start;
         j = skip_range 0x20 0x2F bs inters_start
     in if j < length bs then
          if 0x40 \<le> bs ! j \<and> bs ! j \<le> 0x7E
          then case (slice_get bs params_start inters_start, slice_get bs inters_start j) of
                 (Some ps, Some im) \<Rightarrow> Some \<lparr>params = ps, intermediates = im, final_byte = bs ! j, csi_end = j + 1\<rparr>
               | _ \<Rightarrow> None
          else None
        else None)"

record string_sequence =
  body_end :: nat
  seq_end :: nat

record terminators =
  t_bel :: bool
  t_c1_st :: bool
  t_bare_esc :: bool

definition terminators_osc :: terminators where
  "terminators_osc = \<lparr>t_bel = True, t_c1_st = False, t_bare_esc = False\<rparr>"

definition st_only :: terminators where
  "st_only = \<lparr>t_bel = False, t_c1_st = False, t_bare_esc = False\<rparr>"

definition lenient :: terminators where
  "lenient = \<lparr>t_bel = True, t_c1_st = True, t_bare_esc = True\<rparr>"

definition terminators_replay :: "bool \<Rightarrow> terminators" where
  "terminators_replay bel_terminates = (if bel_terminates then terminators_osc else st_only)"

function string_sequence_end :: "bytes \<Rightarrow> nat \<Rightarrow> terminators \<Rightarrow> string_sequence option" where
  "string_sequence_end bs j t =
    (if \<not> j < length bs then None
     else let byte = bs ! j in
       if byte = CAN \<or> byte = SUB_byte then Some \<lparr>body_end = j, seq_end = j\<rparr>
       else if (t_bel t \<and> byte = BEL) \<or> (t_c1_st t \<and> byte = C1_ST) then Some \<lparr>body_end = j, seq_end = j + 1\<rparr>
       else if byte = ESC \<and> j + 1 < length bs \<and> bs ! (j + 1) = 0x5C then Some \<lparr>body_end = j, seq_end = j + 2\<rparr>
       else if byte = ESC \<and> t_bare_esc t then Some \<lparr>body_end = j, seq_end = j + 1\<rparr>
       else string_sequence_end bs (j + 1) t)"
  by pat_completeness auto
termination by (relation "measure (\<lambda>(bs, j, t). length bs - j)") auto

declare string_sequence_end.simps [simp del]

definition string_introducer :: "u8 \<Rightarrow> bool option" where
  "string_introducer b =
    (if b = 0x5D then Some True
     else if b = 0x50 \<or> b = 0x58 \<or> b = 0x5E \<or> b = 0x5F then Some False
     else None)"

section \<open>The alternate screen\<close>

definition ALT_MODES :: "nat list" where
  "ALT_MODES = [47, 1047, 1049]"

definition STRADDLE_PEEK_BYTES :: nat where
  "STRADDLE_PEEK_BYTES = 64"

text \<open>\<open>str::parse::<u32>\<close>: an optional plus sign, at least one digit, and a value below two to the 32.\<close>

fun parse_u32_digits :: "rstring \<Rightarrow> nat \<Rightarrow> nat option" where
  "parse_u32_digits [] acc = (if acc < 2 ^ 32 then Some acc else None)"
| "parse_u32_digits (c # cs) acc = (if 48 \<le> c \<and> c \<le> 57 then parse_u32_digits cs (acc * 10 + (c - 48)) else None)"

definition parse_u32 :: "rstring \<Rightarrow> nat option" where
  "parse_u32 s =
    (let ds = (case s of c # cs \<Rightarrow> if c = 43 then cs else s | [] \<Rightarrow> [])
     in if ds = [] then None else parse_u32_digits ds 0)"

fun split_on :: "u8 \<Rightarrow> bytes \<Rightarrow> bytes list" where
  "split_on sep [] = [[]]"
| "split_on sep (b # bs) =
    (if b = sep then [] # split_on sep bs
     else case split_on sep bs of t # ts \<Rightarrow> (b # t) # ts | [] \<Rightarrow> [[b]])"

definition param_value :: "bytes \<Rightarrow> nat option" where
  "param_value token = (case from_utf8 token of None \<Rightarrow> None | Some s \<Rightarrow> parse_u32 s)"

definition alt_transition_param :: "csi \<Rightarrow> nat option" where
  "alt_transition_param s =
    (if final_byte s \<noteq> 0x68 \<and> final_byte s \<noteq> 0x6C then None
     else if intermediates s \<noteq> [] then None
     else case params s of
            [] \<Rightarrow> None
          | marker # rest \<Rightarrow>
             (if marker \<noteq> 0x3F then None
              else find (\<lambda>mode. mode \<in> set ALT_MODES) (List.map_filter param_value (split_on 0x3B rest))))"

record alt_state =
  in_alt :: bool
  enter_mode :: nat

definition alt_start :: alt_state where
  "alt_start = \<lparr>in_alt = False, enter_mode = 1049\<rparr>"

definition alt_apply :: "csi \<Rightarrow> alt_state \<Rightarrow> alt_state" where
  "alt_apply s a =
    (case alt_transition_param s of
       None \<Rightarrow> a
     | Some mode \<Rightarrow>
        (if final_byte s = 0x68 then \<lparr>in_alt = True, enter_mode = mode\<rparr> else a\<lparr>in_alt := False\<rparr>))"

lemma skip_range_le: "j \<le> skip_range lo hi bs j"
  by (simp add: skip_range_def)

lemma parse_csi_end: "parse_csi bs i = Some s \<Longrightarrow> i < csi_end s"
  using order_trans [OF skip_range_le [where j = "i + 2" and lo = "0x30" and hi = "0x3F" and bs = bs]
      skip_range_le [where lo = "0x20" and hi = "0x2F" and bs = bs]]
  by (auto simp: parse_csi_def Let_def split: if_splits option.splits)

lemma string_sequence_end_le: "string_sequence_end bs j t = Some s \<Longrightarrow> j \<le> seq_end s"
proof (induction bs j t rule: string_sequence_end.induct)
  case (1 bs j t)
  then show ?case by (subst (asm) string_sequence_end.simps) (auto simp: Let_def split: if_splits)
qed

function scan_alt :: "bytes \<Rightarrow> nat \<Rightarrow> nat \<Rightarrow> alt_state \<Rightarrow> alt_state" where
  "scan_alt bs boundary i a =
    (if \<not> i < boundary then a
     else if \<not> (i < length bs \<and> bs ! i = ESC) \<or> length bs \<le> i + 1 then scan_alt bs boundary (i + 1) a
     else if bs ! (i + 1) = 0x5B then
       (case parse_csi bs i of
          Some s \<Rightarrow> scan_alt bs boundary (csi_end s) (alt_apply s a)
        | None \<Rightarrow> scan_alt bs boundary (length bs) a)
     else case string_introducer (bs ! (i + 1)) of
            Some bel \<Rightarrow>
              (case string_sequence_end bs (i + 2) (terminators_replay bel) of
                 Some s \<Rightarrow> scan_alt bs boundary (seq_end s) a
               | None \<Rightarrow> scan_alt bs boundary (length bs) a)
          | None \<Rightarrow> scan_alt bs boundary (i + 2) a)"
  by pat_completeness auto
termination
  by (relation "measure (\<lambda>(bs, boundary, i, a). boundary - i)")
    (auto dest: parse_csi_end string_sequence_end_le)

declare scan_alt.simps [simp del]

definition ascii :: "string \<Rightarrow> bytes" where
  "ascii s = map (\<lambda>c. word_of_nat (of_char c)) s"

definition reopen_sequence :: "bytes \<Rightarrow> bytes \<Rightarrow> bytes option" where
  "reopen_sequence dropped kept_head =
    (let boundary = length dropped;
         bs = dropped @ take STRADDLE_PEEK_BYTES kept_head;
         a = scan_alt bs boundary 0 alt_start
     in if \<not> in_alt a then None
        else Some ([ESC] @ ascii ''[?'' @ ascii (show_nat (enter_mode a)) @ ascii ''h''))"

section \<open>Streams of whole sequences\<close>

text \<open>What a terminal reads, one unit at a time: plain bytes, a two-byte escape, a control sequence, and a
  string with an opaque body and its terminator.\<close>

datatype vt_token =
    Text bytes
  | Escape u8
  | Csi_Seq bytes bytes u8
  | Str_Seq u8 bytes bytes

definition in_range :: "u8 \<Rightarrow> u8 \<Rightarrow> u8 \<Rightarrow> bool" where
  "in_range lo hi b \<longleftrightarrow> lo \<le> b \<and> b \<le> hi"

fun vt_ok :: "vt_token \<Rightarrow> bool" where
  "vt_ok (Text bs) = (ESC \<notin> set bs)"
| "vt_ok (Escape b) = (b \<noteq> 0x5B \<and> string_introducer b = None)"
| "vt_ok (Csi_Seq ps im f) =
    (list_all (in_range 0x30 0x3F) ps \<and> list_all (in_range 0x20 0x2F) im \<and> in_range 0x40 0x7E f)"
| "vt_ok (Str_Seq b body fin) =
    (case string_introducer b of
       None \<Rightarrow> False
     | Some bel \<Rightarrow> CAN \<notin> set body \<and> SUB_byte \<notin> set body \<and> ESC \<notin> set body \<and>
         (fin = [ESC, 0x5C] \<or> bel \<and> fin = [BEL]) \<and> (bel \<longrightarrow> BEL \<notin> set body))"

fun vt_bytes :: "vt_token \<Rightarrow> bytes" where
  "vt_bytes (Text bs) = bs"
| "vt_bytes (Escape b) = [ESC, b]"
| "vt_bytes (Csi_Seq ps im f) = [ESC, 0x5B] @ ps @ im @ [f]"
| "vt_bytes (Str_Seq b body fin) = [ESC, b] @ body @ fin"

definition vt_stream :: "vt_token list \<Rightarrow> bytes" where
  "vt_stream ts = concat (map vt_bytes ts)"

fun alt_token :: "vt_token \<Rightarrow> alt_state \<Rightarrow> alt_state" where
  "alt_token (Csi_Seq ps im f) a = alt_apply \<lparr>params = ps, intermediates = im, final_byte = f, csi_end = 0\<rparr> a"
| "alt_token _ a = a"

lemma skip_range_at:
  assumes "list_all (in_range lo hi) xs" "ys = [] \<or> \<not> in_range lo hi (hd ys)"
  shows "skip_range lo hi (pre @ xs @ ys) (length pre) = length pre + length xs"
proof -
  have "takeWhile (\<lambda>b. lo \<le> b \<and> b \<le> hi) (xs @ ys) = xs"
    using assms by (induction xs) (auto simp: in_range_def takeWhile_eq_Nil_iff)
  then show ?thesis by (simp add: skip_range_def)
qed

lemma parse_csi_at:
  assumes "vt_ok (Csi_Seq ps im f)"
  shows "parse_csi (pre @ vt_bytes (Csi_Seq ps im f) @ rest) (length pre) =
    Some \<lparr>params = ps, intermediates = im, final_byte = f, csi_end = length pre + length (vt_bytes (Csi_Seq ps im f))\<rparr>"
proof -
  let ?bs = "pre @ [ESC, 0x5B] @ ps @ im @ [f] @ rest"
  let ?p = "pre @ [ESC, 0x5B]"
  have f: "0x40 \<le> f" "f \<le> 0x7E" using assms by (simp_all add: in_range_def)
  then have out: "\<not> in_range 0x20 0x2F f" "\<not> in_range 0x30 0x3F f" by (auto simp: in_range_def word_le_nat_alt)
  have "\<not> in_range 0x30 0x3F b" if "b \<in> set im" for b
    using assms that by (force simp: in_range_def list_all_iff word_le_nat_alt)
  then have hd: "\<not> in_range 0x30 0x3F (hd (im @ [f] @ rest))" using out by (cases im) auto
  have 1: "skip_range 0x30 0x3F ?bs (length ?p) = length ?p + length ps"
    using skip_range_at [where lo = "0x30" and hi = "0x3F" and xs = ps and ys = "im @ [f] @ rest" and pre = ?p] assms hd by simp
  have 2: "skip_range 0x20 0x2F ?bs (length ?p + length ps) = length ?p + length ps + length im"
    using skip_range_at [where lo = "0x20" and hi = "0x2F" and xs = im and ys = "[f] @ rest" and pre = "?p @ ps"] assms out by simp
  have s1: "slice_get ?bs (length ?p) (length ?p + length ps) = Some ps"
    using slice_get_mid [of ?p ps "im @ [f] @ rest"] by simp
  have s2: "slice_get ?bs (length ?p + length ps) (length ?p + length ps + length im) = Some im"
    using slice_get_mid [of "?p @ ps" im "[f] @ rest"] by simp
  have nth: "?bs ! (length ?p + length ps + length im) = f"
    using nth_append_length [of "?p @ ps @ im" f rest] by (simp add: add.assoc)
  show ?thesis using 1 2 s1 s2 nth f by (simp add: parse_csi_def Let_def add.assoc)
qed

lemma string_end_at:
  assumes "CAN \<notin> set body" "SUB_byte \<notin> set body" "ESC \<notin> set body" "fin = [ESC, 0x5C] \<or> bel \<and> fin = [BEL]"
    "bel \<longrightarrow> BEL \<notin> set body"
  shows "string_sequence_end (pre @ body @ fin @ rest) (length pre) (terminators_replay bel) =
    Some \<lparr>body_end = length pre + length body, seq_end = length pre + length body + length fin\<rparr>"
  using assms
proof (induction body arbitrary: pre)
  case Nil
  have t: "\<not> t_c1_st (terminators_replay bel)" "t_bel (terminators_replay bel) = bel" "\<not> t_bare_esc (terminators_replay bel)"
    by (simp_all add: terminators_replay_def terminators_osc_def st_only_def)
  have bytes: "ESC \<noteq> CAN" "ESC \<noteq> SUB_byte" "BEL \<noteq> CAN" "BEL \<noteq> SUB_byte" "ESC \<noteq> BEL"
    by (simp_all add: ESC_def CAN_def SUB_byte_def BEL_def)
  from Nil(4) show ?case
  proof
    assume "fin = [ESC, 0x5C]"
    then show ?thesis using t bytes by (subst string_sequence_end.simps) (simp add: nth_append Let_def)
  next
    assume "bel \<and> fin = [BEL]"
    then show ?thesis using t bytes by (subst string_sequence_end.simps) (simp add: nth_append Let_def)
  qed
next
  case (Cons b body)
  have t: "\<not> t_c1_st (terminators_replay bel)" "t_bel (terminators_replay bel) = bel" "\<not> t_bare_esc (terminators_replay bel)"
    by (simp_all add: terminators_replay_def terminators_osc_def st_only_def)
  have "string_sequence_end (pre @ (b # body) @ fin @ rest) (length pre) (terminators_replay bel) =
      string_sequence_end (pre @ (b # body) @ fin @ rest) (length pre + 1) (terminators_replay bel)"
    using Cons.prems t by (subst string_sequence_end.simps) (auto simp: Let_def)
  also have "\<dots> = Some \<lparr>body_end = length (pre @ [b]) + length body, seq_end = length (pre @ [b]) + length body + length fin\<rparr>"
    using Cons.IH [of "pre @ [b]"] Cons.prems by simp
  finally show ?case by simp
qed

lemma scan_text:
  assumes "ESC \<notin> set xs" "length pre + length xs \<le> bound"
  shows "scan_alt (pre @ xs @ rest) bound (length pre) a = scan_alt (pre @ xs @ rest) bound (length pre + length xs) a"
  using assms
proof (induction xs arbitrary: pre)
  case (Cons x xs)
  have "scan_alt (pre @ (x # xs) @ rest) bound (length pre) a = scan_alt (pre @ (x # xs) @ rest) bound (length pre + 1) a"
    using Cons.prems by (subst scan_alt.simps) auto
  then show ?case using Cons.IH [of "pre @ [x]"] Cons.prems by simp
qed simp

lemma alt_apply_end: "alt_apply (s\<lparr>csi_end := e\<rparr>) a = alt_apply s a"
proof -
  have "alt_transition_param (s\<lparr>csi_end := e\<rparr>) = alt_transition_param s" "final_byte (s\<lparr>csi_end := e\<rparr>) = final_byte s"
    by (simp_all add: alt_transition_param_def)
  then show ?thesis by (simp only: alt_apply_def)
qed

lemma scan_token:
  assumes "vt_ok t" "length pre + length (vt_bytes t) \<le> bound"
  shows "scan_alt (pre @ vt_bytes t @ rest) bound (length pre) a =
    scan_alt (pre @ vt_bytes t @ rest) bound (length pre + length (vt_bytes t)) (alt_token t a)"
proof (cases t)
  case (Text xs)
  then show ?thesis using scan_text [of xs pre bound rest a] assms by simp
next
  case (Escape b)
  then show ?thesis using assms by (subst scan_alt.simps) (simp add: nth_append)
next
  case (Csi_Seq ps im f)
  let ?s = "\<lparr>params = ps, intermediates = im, final_byte = f, csi_end = length pre + length (vt_bytes t)\<rparr>"
  have "parse_csi (pre @ vt_bytes t @ rest) (length pre) = Some ?s"
    using parse_csi_at [of ps im f pre rest] assms(1) Csi_Seq by simp
  moreover have "alt_apply ?s a = alt_token t a"
    using alt_apply_end [where s = "\<lparr>params = ps, intermediates = im, final_byte = f, csi_end = 0\<rparr>"] Csi_Seq by simp
  ultimately show ?thesis using assms(2) Csi_Seq by (subst scan_alt.simps) (simp add: nth_append)
next
  case (Str_Seq b body fin)
  then obtain bel where b: "string_introducer b = Some bel" using assms(1) by (auto split: option.splits)
  then have "b \<noteq> 0x5B" by (auto simp: string_introducer_def split: if_splits)
  moreover have "string_sequence_end ((pre @ [ESC, b]) @ body @ fin @ rest) (length (pre @ [ESC, b])) (terminators_replay bel) =
      Some \<lparr>body_end = length (pre @ [ESC, b]) + length body, seq_end = length (pre @ [ESC, b]) + length body + length fin\<rparr>"
    using assms(1) Str_Seq b by (intro string_end_at) auto
  ultimately show ?thesis using assms(2) Str_Seq b by (subst scan_alt.simps) (simp add: nth_append add.assoc)
qed

lemma scan_stream:
  assumes "\<forall>t\<in>set ts. vt_ok t" "length pre + length (vt_stream ts) \<le> bound"
  shows "scan_alt (pre @ vt_stream ts @ rest) bound (length pre) a =
    scan_alt (pre @ vt_stream ts @ rest) bound (length pre + length (vt_stream ts)) (fold alt_token ts a)"
  using assms
proof (induction ts arbitrary: pre a)
  case (Cons t ts)
  have "scan_alt (pre @ vt_bytes t @ vt_stream ts @ rest) bound (length pre) a =
      scan_alt ((pre @ vt_bytes t) @ vt_stream ts @ rest) bound (length (pre @ vt_bytes t)) (alt_token t a)"
    using scan_token [of t pre bound "vt_stream ts @ rest" a] Cons.prems by (simp add: vt_stream_def)
  also have "\<dots> = scan_alt ((pre @ vt_bytes t) @ vt_stream ts @ rest) bound
      (length (pre @ vt_bytes t) + length (vt_stream ts)) (fold alt_token ts (alt_token t a))"
    using Cons.prems by (intro Cons.IH) (auto simp: vt_stream_def)
  finally show ?case by (simp add: vt_stream_def add.assoc)
qed (simp add: vt_stream_def)

lemma scan_done [simp]: "\<not> i < bound \<Longrightarrow> scan_alt bs bound i a = a"
  by (subst scan_alt.simps) simp

text \<open>The screen a stream leaves the terminal on: nothing for the main screen, the mode for the other.\<close>

definition screen_of :: "alt_state \<Rightarrow> nat option" where
  "screen_of a = (if in_alt a then Some (enter_mode a) else None)"

definition screen_after :: "bytes \<Rightarrow> nat option" where
  "screen_after bs = screen_of (scan_alt bs (length bs) 0 alt_start)"

lemma screen_stream: "\<forall>t\<in>set ts. vt_ok t \<Longrightarrow> screen_after (vt_stream ts) = screen_of (fold alt_token ts alt_start)"
  using scan_stream [of ts "[]" "length (vt_stream ts)" "[]" alt_start]
  by (simp add: screen_after_def)

lemma alt_apply_screen: "screen_of a = screen_of b \<Longrightarrow> screen_of (alt_apply s a) = screen_of (alt_apply s b)"
  unfolding alt_apply_def by (cases "alt_transition_param s") (simp_all add: screen_of_def)

lemma fold_screen: "screen_of a = screen_of b \<Longrightarrow> screen_of (fold alt_token ts a) = screen_of (fold alt_token ts b)"
proof (induction ts arbitrary: a b)
  case (Cons t ts)
  have "screen_of (alt_token t a) = screen_of (alt_token t b)"
    using Cons.prems by (cases t) (simp_all only: alt_token.simps, rule alt_apply_screen)
  from Cons.IH [OF this] show ?case by simp
qed simp

lemma alt_modes_only:
  "\<forall>m. screen_of a = Some m \<longrightarrow> m \<in> set ALT_MODES \<Longrightarrow> screen_of (fold alt_token ts a) = Some m \<Longrightarrow> m \<in> set ALT_MODES"
proof (induction ts arbitrary: a)
  case (Cons t ts)
  have "\<forall>m. screen_of (alt_token t a) = Some m \<longrightarrow> m \<in> set ALT_MODES"
    using Cons.prems(1) by (cases t)
      (auto simp: alt_apply_def alt_transition_param_def screen_of_def find_Some_iff split: option.splits if_splits list.splits)
  then show ?case using Cons.IH Cons.prems(2) by simp
qed simp

definition opener_token :: "nat \<Rightarrow> vt_token" where
  "opener_token m = Csi_Seq (0x3F # ascii (show_nat m)) [] 0x68"

lemma mode_digits:
  "ascii (show_nat 47) = [52, 55]" "ascii (show_nat 1047) = [49, 48, 52, 55]" "ascii (show_nat 1049) = [49, 48, 52, 57]"
  by (simp_all add: ascii_def show_nat.simps)

lemma mode_values:
  "param_value [52, 55] = Some 47" "param_value [49, 48, 52, 55] = Some 1047" "param_value [49, 48, 52, 57] = Some 1049"
  by (simp_all add: param_value_def from_utf8.simps parse_u32_def Let_def)

lemma opener_laws:
  assumes "m \<in> set ALT_MODES"
  shows "vt_ok (opener_token m)" "vt_bytes (opener_token m) = [ESC] @ ascii ''[?'' @ ascii (show_nat m) @ ascii ''h''"
    "screen_of (alt_token (opener_token m) a) = Some m"
proof -
  show "vt_bytes (opener_token m) = [ESC] @ ascii ''[?'' @ ascii (show_nat m) @ ascii ''h''"
    by (simp add: opener_token_def ascii_def)
  have m: "m = 47 \<or> m = 1047 \<or> m = 1049" using assms by (auto simp: ALT_MODES_def)
  then show "vt_ok (opener_token m)" by (elim disjE) (simp_all add: opener_token_def mode_digits in_range_def)
  have "alt_transition_param \<lparr>params = 0x3F # ascii (show_nat m), intermediates = [], final_byte = 0x68, csi_end = 0\<rparr> = Some m"
    using m by (elim disjE) (simp_all add: alt_transition_param_def mode_digits mode_values List.map_filter_def ALT_MODES_def)
  then show "screen_of (alt_token (opener_token m) a) = Some m"
    by (simp add: opener_token_def alt_apply_def screen_of_def)
qed

lemma reopen_stream:
  assumes "\<forall>t\<in>set ts. vt_ok t"
  shows "reopen_sequence (vt_stream ts) kept =
    map_option (\<lambda>m. vt_bytes (opener_token m)) (screen_of (fold alt_token ts alt_start))"
proof -
  have "scan_alt (vt_stream ts @ rest) (length (vt_stream ts)) 0 alt_start = fold alt_token ts alt_start" for rest
    using scan_stream [of ts "[]" "length (vt_stream ts)" rest alt_start] assms by simp
  moreover have "m \<in> set ALT_MODES" if "screen_of (fold alt_token ts alt_start) = Some m" for m
    using alt_modes_only [of alt_start ts m] that by (simp add: alt_start_def screen_of_def)
  ultimately show ?thesis using opener_laws(2)
    by (auto simp: reopen_sequence_def screen_of_def Let_def)
qed

lemma alt_apply_mode: "enter_mode a \<in> set ALT_MODES \<Longrightarrow> enter_mode (alt_apply s a) \<in> set ALT_MODES"
  by (auto simp: alt_apply_def alt_transition_param_def find_Some_iff split: option.splits if_splits list.splits)

lemma scan_alt_mode: "enter_mode a \<in> set ALT_MODES \<Longrightarrow> enter_mode (scan_alt bs bound i a) \<in> set ALT_MODES"
proof (induction bs bound i a rule: scan_alt.induct)
  case (1 bs bound i a)
  let ?in = "\<not> \<not> i < bound"
  let ?esc = "\<not> (\<not> (i < length bs \<and> bs ! i = ESC) \<or> length bs \<le> i + 1)"
  consider "\<not> i < bound" | ?in "\<not> ?esc" | ?in ?esc "bs ! (i + 1) = 0x5B" | ?in ?esc "bs ! (i + 1) \<noteq> 0x5B"
    by blast
  then show ?case
  proof cases
    case 3
    then show ?thesis using 1(2,3) [OF 3] 1(7) alt_apply_mode [OF 1(7)]
      by (subst scan_alt.simps) (simp split: option.split)
  next
    case 4
    then show ?thesis using 1(4-6) [OF 4] 1(7)
      by (subst scan_alt.simps) (simp split: option.split)
  qed (use 1(1,7) in \<open>simp_all add: scan_alt.simps [of bs bound i a]\<close>)
qed

lemma reopen_length: "reopen_sequence dropped kept = Some r \<Longrightarrow> r \<noteq> [] \<and> length r \<le> 8"
proof -
  assume r: "reopen_sequence dropped kept = Some r"
  let ?a = "scan_alt (dropped @ take STRADDLE_PEEK_BYTES kept) (length dropped) 0 alt_start"
  have "enter_mode ?a \<in> set ALT_MODES" by (rule scan_alt_mode) (simp add: alt_start_def ALT_MODES_def)
  then have "length (ascii (show_nat (enter_mode ?a))) \<le> 4" unfolding ALT_MODES_def using mode_digits by auto
  then show ?thesis using r by (auto simp: reopen_sequence_def Let_def ascii_def split: if_splits)
qed

section \<open>Properties\<close>

text \<open>Cutting the front off a scrollback stream never changes the screen: when the stream is cut
  between two sequences, the surviving tail behind the opener that \<open>reopen_sequence\<close> answers leaves the
  terminal on the same screen, main or alternate and in the same mode, as the whole stream did.\<close>

theorem reopen_keeps_the_screen:
  assumes "\<forall>t\<in>set (gone @ kept). vt_ok t"
  shows "screen_after ((case reopen_sequence (vt_stream gone) (vt_stream kept) of None \<Rightarrow> [] | Some opener \<Rightarrow> opener) @ vt_stream kept) =
    screen_after (vt_stream gone @ vt_stream kept)"
proof -
  let ?a = "fold alt_token gone alt_start"
  have ok: "\<forall>t\<in>set gone. vt_ok t" "\<forall>t\<in>set kept. vt_ok t" using assms by auto
  have whole: "screen_after (vt_stream gone @ vt_stream kept) = screen_of (fold alt_token kept ?a)"
    using screen_stream [OF assms] by (simp add: vt_stream_def)
  show ?thesis
  proof (cases "screen_of ?a")
    case None
    then have "screen_of alt_start = screen_of ?a" by (simp add: alt_start_def screen_of_def)
    from fold_screen [OF this, of kept] show ?thesis
      using whole screen_stream [OF ok(2)] reopen_stream [OF ok(1)] None by simp
  next
    case (Some m)
    then have m: "m \<in> set ALT_MODES" using alt_modes_only [of alt_start gone m] by (simp add: alt_start_def screen_of_def)
    have "screen_after (vt_bytes (opener_token m) @ vt_stream kept) =
        screen_of (fold alt_token kept (alt_token (opener_token m) alt_start))"
      using screen_stream [of "opener_token m # kept"] ok(2) opener_laws(1) [OF m] by (simp add: vt_stream_def)
    also have "\<dots> = screen_of (fold alt_token kept ?a)" using opener_laws(3) [OF m] Some by (intro fold_screen) simp
    finally show ?thesis using whole reopen_stream [OF ok(1)] Some by simp
  qed
qed

theorem reopen_keeps_the_screen_witness:
  "screen_after ((case reopen_sequence (vt_stream [Text [65], Csi_Seq [0x3F, 49, 48, 52, 57] [] 0x68, Str_Seq 0x5D [48] [BEL]])
       (vt_stream [Text [66]]) of None \<Rightarrow> [] | Some opener \<Rightarrow> opener) @ vt_stream [Text [66]]) =
   screen_after (vt_stream [Text [65], Csi_Seq [0x3F, 49, 48, 52, 57] [] 0x68, Str_Seq 0x5D [48] [BEL]] @ vt_stream [Text [66]])"
  by (rule reopen_keeps_the_screen)
    (simp add: in_range_def string_introducer_def ESC_def BEL_def CAN_def SUB_byte_def)

end
