(* ===== verification/Replay.thy ===== *)
theory Replay
  imports Mux_Flow Vt_Scan
begin

text \<open>
  The host's replay buffer, \<open>slopdesk-wire/src/replay.rs\<close>: un-acked output kept by sequence number, the
  ring of acked scrollback behind it, the replay a returning client is sent, and the two wholesale
  replacements (a folded ring, a rendered snapshot). Sequence numbers are HOL integers: the code
  increments an \<open>i64\<close> once per append, so it cannot wrap in any run. The distiller is injected by the
  host and is a field holding an arbitrary function.
\<close>

named_theorems replay_ops "definitions of the buffer's operations"

section \<open>State\<close>

datatype drain_state = BufferedOnly | Skipped

record tail_entry =
  te_seq :: int
  te_bytes :: bytes
  cumulative_before :: nat

record ring_entry =
  re_seq :: int
  re_bytes :: bytes

record snapshot_source =
  history :: bytes
  replay_seqs :: "int list"
  replay_bytes :: nat

record ring_fold_source =
  fold_bytes :: bytes
  fold_seqs :: "int list"
  fold_generation :: nat

record replay_buffer =
  entries :: "tail_entry list"
  scrollback_ring :: "ring_entry list"
  scrollback_bytes :: nat
  pending_alt_reopen :: "bytes option"
  highest_seq :: int
  acked_seq :: int
  retained_bytes :: nat
  tail_cumulative_bytes :: nat
  client_online :: bool
  max_backup_bytes_cap :: nat
  offline_gate_bytes_cap :: nat
  scrollback_bytes_cap :: nat
  ring_generation :: nat
  scrollback_distiller :: "(bytes \<Rightarrow> bytes) option"

definition MAX_BACKUP_BYTES :: nat where "MAX_BACKUP_BYTES = 256 * 1024 * 1024"
definition OFFLINE_GATE_BYTES :: nat where "OFFLINE_GATE_BYTES = 64 * 1024 * 1024"
definition DEFAULT_SCROLLBACK_BYTES :: nat where "DEFAULT_SCROLLBACK_BYTES = 64 * 1024 * 1024"
definition RECHUNK_FLOOR_BYTES :: nat where "RECHUNK_FLOOR_BYTES = 32 * 1024"

definition with_caps :: "nat \<Rightarrow> nat \<Rightarrow> nat \<Rightarrow> replay_buffer" where
  "with_caps max_backup offline_gate scrollback =
    \<lparr>entries = [], scrollback_ring = [], scrollback_bytes = 0, pending_alt_reopen = None,
     highest_seq = 0, acked_seq = 0, retained_bytes = 0, tail_cumulative_bytes = 0, client_online = True,
     max_backup_bytes_cap = max_backup, offline_gate_bytes_cap = offline_gate, scrollback_bytes_cap = scrollback,
     ring_generation = 0, scrollback_distiller = None\<rparr>"

definition replay_new :: replay_buffer where
  "replay_new = with_caps MAX_BACKUP_BYTES OFFLINE_GATE_BYTES DEFAULT_SCROLLBACK_BYTES"

definition with_scrollback :: "nat \<Rightarrow> replay_buffer" where
  "with_scrollback scrollback = with_caps MAX_BACKUP_BYTES OFFLINE_GATE_BYTES scrollback"

definition distilling :: "(bytes \<Rightarrow> bytes) \<Rightarrow> replay_buffer \<Rightarrow> replay_buffer" where
  "distilling distiller b = b\<lparr>scrollback_distiller := Some distiller\<rparr>"

definition set_client_online :: "bool \<Rightarrow> replay_buffer \<Rightarrow> replay_buffer" where
  "set_client_online online b = b\<lparr>client_online := online\<rparr>"

definition should_pause_drain :: "replay_buffer \<Rightarrow> bool" where
  "should_pause_drain b =
    (if max_backup_bytes_cap b \<le> retained_bytes b then True
     else \<not> client_online b \<and> offline_gate_bytes_cap b \<le> retained_bytes b)"

definition drain_state_of :: "replay_buffer \<Rightarrow> drain_state" where
  "drain_state_of b = (if should_pause_drain b then Skipped else BufferedOnly)"

section \<open>Producing and releasing\<close>

definition append_output :: "bytes \<Rightarrow> replay_buffer \<Rightarrow> int \<times> replay_buffer" where
  "append_output bs b =
    (let s = highest_seq b + 1 in
     (s, b\<lparr>highest_seq := s,
           entries := entries b @ [\<lparr>te_seq = s, te_bytes = bs, cumulative_before = tail_cumulative_bytes b\<rparr>],
           tail_cumulative_bytes := tail_cumulative_bytes b + length bs,
           retained_bytes := retained_bytes b + length bs\<rparr>))"

text \<open>\<open>partition_point\<close> on entries ascending by sequence number.\<close>

definition partition_point :: "int \<Rightarrow> tail_entry list \<Rightarrow> nat" where
  "partition_point s es = length (takeWhile (\<lambda>e. te_seq e \<le> s) es)"

definition retained_bytes_above :: "int \<Rightarrow> replay_buffer \<Rightarrow> nat" where
  "retained_bytes_above s b =
    (let first_above = partition_point s (entries b) in
     if first_above < length (entries b)
     then tail_cumulative_bytes b - cumulative_before (entries b ! first_above) else 0)"

definition tail_size :: "tail_entry list \<Rightarrow> nat" where
  "tail_size es = sum_list (map (\<lambda>e. length (te_bytes e)) es)"

definition ring_size :: "ring_entry list \<Rightarrow> nat" where
  "ring_size es = sum_list (map (\<lambda>e. length (re_bytes e)) es)"

definition ring_stream :: "ring_entry list \<Rightarrow> bytes" where
  "ring_stream es = concat (map re_bytes es)"

definition tail_stream :: "tail_entry list \<Rightarrow> bytes" where
  "tail_stream es = concat (map te_bytes es)"

definition attach_pending_reopen :: "replay_buffer \<Rightarrow> replay_buffer" where
  "attach_pending_reopen b =
    (case scrollback_ring b of
       [] \<Rightarrow> b
     | head # rest \<Rightarrow>
        (case pending_alt_reopen b of
           None \<Rightarrow> b
         | Some reopen \<Rightarrow>
            b\<lparr>pending_alt_reopen := None,
              scrollback_ring := head\<lparr>re_bytes := reopen @ re_bytes head\<rparr> # rest,
              scrollback_bytes := scrollback_bytes b + length reopen\<rparr>))"

text \<open>The eviction prefix: how many entries leave, and their bytes.\<close>

fun evict_count :: "nat \<Rightarrow> nat \<Rightarrow> ring_entry list \<Rightarrow> nat \<times> nat \<Rightarrow> nat \<times> nat" where
  "evict_count held cap [] (drop_count, dropped_bytes) = (drop_count, dropped_bytes)"
| "evict_count held cap (e # es) (drop_count, dropped_bytes) =
    (if cap < held - dropped_bytes
     then evict_count held cap es (drop_count + 1, dropped_bytes + length (re_bytes e))
     else (drop_count, dropped_bytes))"

definition newline_at :: "bytes \<Rightarrow> nat option" where
  "newline_at bs =
    (let n = length (takeWhile (\<lambda>b. b \<noteq> 0x0A) bs) in if n < length bs then Some n else None)"

text \<open>Line alignment of the surviving head: what is dropped with it, the ring, and its size.\<close>

definition align_head :: "nat \<Rightarrow> bytes \<Rightarrow> ring_entry list \<Rightarrow> nat \<Rightarrow> bytes \<times> ring_entry list \<times> nat" where
  "align_head cap dropped ring held =
    (if held \<le> cap then
       (case ring of
          [] \<Rightarrow> (dropped, ring, held)
        | head # rest \<Rightarrow>
           (case newline_at (re_bytes head) of
              None \<Rightarrow> (dropped, ring, held)
            | Some newline \<Rightarrow>
               (let removed = newline + 1 in
                (dropped @ take removed (re_bytes head),
                 head\<lparr>re_bytes := drop removed (re_bytes head)\<rparr> # rest, held - removed))))
     else (dropped, ring, held))"

definition evict_scrollback_to_fit :: "replay_buffer \<Rightarrow> replay_buffer" where
  "evict_scrollback_to_fit b =
    (if scrollback_bytes b \<le> scrollback_bytes_cap b \<or> scrollback_ring b = [] then b
     else
       let (drop_count, dropped_bytes) = evict_count (scrollback_bytes b) (scrollback_bytes_cap b) (scrollback_ring b) (0, 0);
           dropped = ring_stream (take drop_count (scrollback_ring b));
           ring = drop drop_count (scrollback_ring b);
           held = scrollback_bytes b - dropped_bytes;
           (dropped, ring, held) = align_head (scrollback_bytes_cap b) dropped ring held;
           kept_head = (case ring of [] \<Rightarrow> [] | head # _ \<Rightarrow> re_bytes head);
           b = b\<lparr>scrollback_ring := ring, scrollback_bytes := held\<rparr>
       in (case reopen_sequence dropped kept_head of
             None \<Rightarrow> b
           | Some reopen \<Rightarrow> attach_pending_reopen (b\<lparr>pending_alt_reopen := Some reopen\<rparr>)))"

definition to_ring :: "tail_entry \<Rightarrow> ring_entry" where
  "to_ring e = \<lparr>re_seq = te_seq e, re_bytes = te_bytes e\<rparr>"

text \<open>The released prefix enters the ring, takes a carried opener, and the ring is cut to its cap.\<close>

definition retire :: "tail_entry list \<Rightarrow> replay_buffer \<Rightarrow> replay_buffer" where
  "retire released b =
    (if 0 < scrollback_bytes_cap b then
       let ring_was_empty = (scrollback_ring b = []);
           b = b\<lparr>scrollback_bytes := scrollback_bytes b + tail_size released,
                 scrollback_ring := scrollback_ring b @ map to_ring released\<rparr>;
           b = (if ring_was_empty then attach_pending_reopen b else b)
       in evict_scrollback_to_fit b
     else b)"

definition ack_output :: "int \<Rightarrow> replay_buffer \<Rightarrow> replay_buffer" where
  "ack_output up_to b =
    (let clamped = min up_to (highest_seq b) in
     if clamped \<le> acked_seq b then b
     else
       let b = b\<lparr>acked_seq := clamped\<rparr>;
           drop_count = partition_point clamped (entries b)
       in if drop_count = 0 then b
          else
            let released = take drop_count (entries b);
                b = retire released (b\<lparr>ring_generation := ring_generation b + 1, entries := drop drop_count (entries b)\<rparr>)
            in b\<lparr>retained_bytes := retained_bytes b - tail_size released\<rparr>)"

section \<open>Reading back\<close>

definition output_messages :: "int \<Rightarrow> replay_buffer \<Rightarrow> (int \<times> bytes) list" where
  "output_messages last_received_seq b =
    map (\<lambda>e. (re_seq e, re_bytes e)) (filter (\<lambda>e. last_received_seq < re_seq e) (scrollback_ring b)) @
    map (\<lambda>e. (te_seq e, te_bytes e)) (filter (\<lambda>e. last_received_seq < te_seq e) (entries b))"

definition snapshot_step :: "int \<Rightarrow> int \<times> bytes \<Rightarrow> snapshot_source \<Rightarrow> snapshot_source" where
  "snapshot_step last_received_seq entry source =
    (case entry of (s, bs) \<Rightarrow>
      let source = source\<lparr>history := history source @ bs\<rparr> in
      if last_received_seq < s
      then source\<lparr>replay_seqs := replay_seqs source @ [s], replay_bytes := replay_bytes source + length bs\<rparr>
      else source)"

definition snapshot_source_of :: "int \<Rightarrow> replay_buffer \<Rightarrow> snapshot_source" where
  "snapshot_source_of last_received_seq b =
    fold (snapshot_step last_received_seq)
      (map (\<lambda>e. (re_seq e, re_bytes e)) (scrollback_ring b) @ map (\<lambda>e. (te_seq e, te_bytes e)) (entries b))
      \<lparr>history = [], replay_seqs = [], replay_bytes = 0\<rparr>"

text \<open>The chunk loop: at most one chunk per sequence number, the last one taking all that is left.\<close>

function rechunk_loop :: "bytes \<Rightarrow> int list \<Rightarrow> nat \<Rightarrow> nat \<Rightarrow> nat \<Rightarrow> (int \<times> bytes) list" where
  "rechunk_loop data seqs chunk_size start index =
    (if start < length data \<and> index < length seqs then
       let fin = (if index + 1 = length seqs then length data else min (start + chunk_size) (length data));
           chunk = (case slice_get data start fin of None \<Rightarrow> [] | Some c \<Rightarrow> c)
       in (seqs ! index, chunk) # rechunk_loop data seqs chunk_size fin (index + 1)
     else [])"
  by pat_completeness auto
termination by (relation "measure (\<lambda>(data, seqs, chunk_size, start, index). length seqs - index)") auto

declare rechunk_loop.simps [simp del]

definition frame_cap :: "env \<Rightarrow> nat" where
  "frame_cap env =
    (let cap = max_output_frame_payload_bytes env in if 0 \<le> cap then nat cap else 2 ^ 64 - 1)"

definition chunk_size_for :: "env \<Rightarrow> nat \<Rightarrow> nat \<Rightarrow> nat" where
  "chunk_size_for env len max_chunks =
    max 1 (min (frame_cap env) (max RECHUNK_FLOOR_BYTES ((len + (max_chunks - 1)) div max_chunks)))"

definition rechunk :: "env \<Rightarrow> bytes \<Rightarrow> int list \<Rightarrow> bool \<Rightarrow> (int \<times> bytes) list" where
  "rechunk env data seqs must_cover_last_seq =
    (if seqs = [] then []
     else
       let last_seq = last seqs in
       if data = [] then (if must_cover_last_seq then [(last_seq, [])] else [])
       else
         let result = rechunk_loop data seqs (chunk_size_for env (length data) (length seqs)) 0 0 in
         if must_cover_last_seq \<and> result \<noteq> []
         then butlast result @ [(last_seq, snd (last result))]
         else result)"

definition as_output :: "int \<times> bytes \<Rightarrow> wire_message" where
  "as_output m = (case m of (s, bs) \<Rightarrow> Output s bs)"

definition rechunk_snapshot :: "env \<Rightarrow> bytes \<Rightarrow> int list \<Rightarrow> wire_message list" where
  "rechunk_snapshot env data seqs = map as_output (rechunk env data seqs True)"

definition replay_messages :: "env \<Rightarrow> int \<Rightarrow> replay_buffer \<Rightarrow> wire_message list" where
  "replay_messages env last_received_seq b =
    (let scrollback = filter (\<lambda>e. last_received_seq < re_seq e) (scrollback_ring b);
         seqs = map re_seq scrollback;
         raw_tail = map (\<lambda>e. Output (te_seq e) (te_bytes e)) (filter (\<lambda>e. last_received_seq < te_seq e) (entries b))
     in case scrollback_distiller b of
          None \<Rightarrow> map (\<lambda>e. Output (re_seq e) (re_bytes e)) scrollback @ raw_tail
        | Some distiller \<Rightarrow>
           (if last_received_seq = 0 \<and> entries b \<noteq> []
            then map as_output (rechunk env (distiller (ring_stream scrollback @ tail_stream (entries b)))
                   (seqs @ map te_seq (entries b)) True)
            else if scrollback \<noteq> []
            then map as_output (rechunk env (distiller (ring_stream scrollback)) seqs False) @ raw_tail
            else raw_tail))"

section \<open>Replacing the history\<close>

definition ring_fold_source_of :: "replay_buffer \<Rightarrow> ring_fold_source option" where
  "ring_fold_source_of b =
    (if scrollback_ring b = [] then None
     else Some \<lparr>fold_bytes = ring_stream (scrollback_ring b), fold_seqs = map re_seq (scrollback_ring b),
                fold_generation = ring_generation b\<rparr>)"

definition adopt_folded_ring :: "env \<Rightarrow> bytes \<Rightarrow> ring_fold_source \<Rightarrow> replay_buffer \<Rightarrow> bool \<times> replay_buffer" where
  "adopt_folded_ring env rendered source b =
    (if fold_generation source \<noteq> ring_generation b then (False, b)
     else (True, b\<lparr>ring_generation := ring_generation b + 1,
                   scrollback_ring := map (\<lambda>(s, bs). \<lparr>re_seq = s, re_bytes = bs\<rparr>) (rechunk env rendered (fold_seqs source) True),
                   scrollback_bytes := length rendered,
                   pending_alt_reopen := None\<rparr>))"

text \<open>One pass over the sent messages: the acked part becomes the ring, the rest the tail.\<close>

fun split_adopted ::
    "int \<Rightarrow> nat \<Rightarrow> nat \<Rightarrow> wire_message list \<Rightarrow> ring_entry list \<times> tail_entry list \<times> nat \<times> nat
      \<Rightarrow> ring_entry list \<times> tail_entry list \<times> nat \<times> nat" where
  "split_adopted acked cap base [] acc = acc"
| "split_adopted acked cap base (Output s bs # ms) (ring, tail, ring_bytes, tail_bytes) =
    split_adopted acked cap base ms
      (if s \<le> acked then
         (if 0 < cap then (ring @ [\<lparr>re_seq = s, re_bytes = bs\<rparr>], tail, ring_bytes + length bs, tail_bytes)
          else (ring, tail, ring_bytes, tail_bytes))
       else (ring, tail @ [\<lparr>te_seq = s, te_bytes = bs, cumulative_before = base + tail_bytes\<rparr>],
             ring_bytes, tail_bytes + length bs))"
| "split_adopted acked cap base (_ # ms) acc = split_adopted acked cap base ms acc"

definition adopt_snapshot_replay :: "wire_message list \<Rightarrow> replay_buffer \<Rightarrow> replay_buffer" where
  "adopt_snapshot_replay ms b =
    (let (ring, tail, ring_bytes, tail_bytes) =
           split_adopted (acked_seq b) (scrollback_bytes_cap b) (tail_cumulative_bytes b) ms ([], [], 0, 0)
     in evict_scrollback_to_fit
          (b\<lparr>ring_generation := ring_generation b + 1,
             scrollback_ring := ring, scrollback_bytes := ring_bytes, entries := tail,
             tail_cumulative_bytes := tail_cumulative_bytes b + tail_bytes,
             retained_bytes := tail_bytes, pending_alt_reopen := None\<rparr>))"

end
