(* ===== verification/Replay_Chunks.thy ===== *)
theory Replay_Chunks
  imports Replay
begin

text \<open>
  The re-chunker of \<open>replay.rs\<close>: a rendered or distilled stream dealt out over the sequence numbers of
  the entries it replaces.
\<close>

section \<open>The chunk loop as a recursion over the sequence numbers\<close>

fun deal :: "nat \<Rightarrow> bytes \<Rightarrow> int list \<Rightarrow> (int \<times> bytes) list" where
  "deal k data [] = []"
| "deal k data [s] = (if data = [] then [] else [(s, data)])"
| "deal k data (s # t # ss) = (if data = [] then [] else (s, take k data) # deal k (drop k data) (t # ss))"

lemma rechunk_loop_deal:
  "start \<le> length data \<Longrightarrow> rechunk_loop data seqs k start index = deal k (drop start data) (drop index seqs)"
proof (induction data seqs k start index rule: rechunk_loop.induct)
  case (1 data seqs k start index)
  show ?case
  proof (cases "start < length data \<and> index < length seqs")
    case False
    then have "drop start data = [] \<or> drop index seqs = []" by auto
    moreover have "deal k [] ss = []" for ss by (cases "(k, [] :: bytes, ss)" rule: deal.cases) simp_all
    ultimately show ?thesis using False by (subst rechunk_loop.simps) auto
  next
    case True
    let ?fin = "if index + 1 = length seqs then length data else min (start + k) (length data)"
    have "slice_get data start ?fin = Some (take (?fin - start) (drop start data))"
      using True by (simp add: slice_get_def)
    then have step: "rechunk_loop data seqs k start index =
        (seqs ! index, take (?fin - start) (drop start data)) # deal k (drop ?fin data) (drop (index + 1) seqs)"
      using True 1(1) [OF True refl refl] by (subst rechunk_loop.simps) (simp add: Let_def)
    have seqs: "drop index seqs = seqs ! index # drop (index + 1) seqs" using True by (simp add: Cons_nth_drop_Suc)
    show ?thesis
    proof (cases "index + 1 = length seqs")
      case last: True
      then show ?thesis using step seqs True by (cases seqs rule: rev_cases) auto
    next
      case more: False
      then obtain t ts where ts: "drop (index + 1) seqs = t # ts" using True by (cases "drop (index + 1) seqs") auto
      have "take (?fin - start) (drop start data) = take k (drop start data)" "drop ?fin data = drop k (drop start data)"
        using more by (auto simp: min_def add.commute)
      then show ?thesis using step seqs ts True by simp
    qed
  qed
qed

lemma deal_concat: "seqs \<noteq> [] \<Longrightarrow> concat (map snd (deal k data seqs)) = data"
  by (induction k data seqs rule: deal.induct) auto

lemma deal_nonempty: "seqs \<noteq> [] \<Longrightarrow> data \<noteq> [] \<Longrightarrow> deal k data seqs \<noteq> []"
  by (induction k data seqs rule: deal.induct) auto

lemma deal_seqs: "\<exists>n. map fst (deal k data seqs) = take n seqs"
proof (induction k data seqs rule: deal.induct)
  case (3 k data s t ss)
  then obtain n where "data \<noteq> [] \<longrightarrow> map fst (deal k (drop k data) (t # ss)) = take n (t # ss)" by auto
  then show ?case by (intro exI [of _ "if data = [] then 0 else Suc n"]) auto
next
  case (2 k data s)
  then show ?case by (intro exI [of _ "if data = [] then 0 else 1"]) auto
qed simp

lemma deal_size:
  "length data \<le> length seqs * k \<Longrightarrow> m \<in> set (deal k data seqs) \<Longrightarrow> length (snd m) \<le> k"
  by (induction k data seqs rule: deal.induct) (auto split: if_splits)

section \<open>The re-chunker\<close>

lemma chunk_fits:
  assumes "len \<le> n * frame_cap env" "0 < n" "0 < len"
  shows "len \<le> n * chunk_size_for env len n" "chunk_size_for env len n \<le> max 1 (frame_cap env)"
proof -
  let ?c = "(len + (n - 1)) div n"
  have "len + (n - 1) = n * ?c + (len + (n - 1)) mod n" by simp
  moreover have "(len + (n - 1)) mod n \<le> n - 1" using assms(2) by (simp add: less_Suc_eq_le [symmetric])
  ultimately have ceil: "len \<le> n * ?c" by linarith
  have mono: "n * ?c \<le> n * max RECHUNK_FLOOR_BYTES ?c" by simp
  have "len \<le> n * min (frame_cap env) (max RECHUNK_FLOOR_BYTES ?c)"
    using assms(1) order_trans [OF ceil mono] by (simp add: min_def)
  also have "\<dots> \<le> n * chunk_size_for env len n" by (simp add: chunk_size_for_def)
  finally show "len \<le> n * chunk_size_for env len n" .
  show "chunk_size_for env len n \<le> max 1 (frame_cap env)" by (simp add: chunk_size_for_def)
qed

lemma rechunk_deal:
  assumes "seqs \<noteq> []" "data \<noteq> []"
  shows "rechunk env data seqs must =
    (let result = deal (chunk_size_for env (length data) (length seqs)) data seqs
     in if must then butlast result @ [(last seqs, snd (last result))] else result)"
  using assms deal_nonempty [OF assms] rechunk_loop_deal [of 0 data seqs _ 0] by (simp add: rechunk_def Let_def)

lemma rechunk_concat: "seqs \<noteq> [] \<Longrightarrow> concat (map snd (rechunk env data seqs must)) = data"
proof (cases "data = []")
  case False
  assume s: "seqs \<noteq> []"
  let ?r = "deal (chunk_size_for env (length data) (length seqs)) data seqs"
  have "map snd (butlast ?r @ [(last seqs, snd (last ?r))]) = map snd (butlast ?r @ [last ?r])" by simp
  also have "\<dots> = map snd ?r" using deal_nonempty [OF s False] by (metis append_butlast_last_id)
  finally show ?thesis using rechunk_deal [OF s False] deal_concat [OF s] by (simp add: Let_def del: map_append)
qed (simp add: rechunk_def)

lemma relabel_seqs:
  assumes "sorted_wrt (<) seqs" "map fst r = take n seqs" "r \<noteq> []"
  shows "sorted_wrt (<) (map fst (butlast r @ [(last seqs, y)]))"
    "set (map fst (butlast r @ [(last seqs, y)])) \<subseteq> set seqs"
proof -
  define m where "m = length r - 1"
  have m: "m < length seqs" "map fst (butlast r) = take m seqs"
  proof -
    have "length r = min n (length seqs)" using arg_cong [OF assms(2), of length] by (simp add: min.commute)
    then show "m < length seqs" using assms(3) by (simp add: m_def) (cases r; auto)
    have "map fst (butlast r) = butlast (take n seqs)" by (simp add: map_butlast flip: assms(2))
    also have "\<dots> = take m seqs" using \<open>length r = min n (length seqs)\<close>
      by (auto simp: butlast_conv_take m_def min_def)
    finally show "map fst (butlast r) = take m seqs" .
  qed
  have ne: "seqs \<noteq> []" using m(1) by auto
  have "x < last seqs" if "x \<in> set (take m seqs)" for x
  proof -
    have "set (take m seqs) \<subseteq> set (butlast seqs)" using m(1) by (simp add: butlast_conv_take set_take_subset_set_take)
    then show ?thesis using that assms(1) ne sorted_wrt_append [of "(<)" "butlast seqs" "[last seqs]"] by auto
  qed
  then show "sorted_wrt (<) (map fst (butlast r @ [(last seqs, y)]))"
    using m(2) assms(1) by (simp add: sorted_wrt_append sorted_wrt_take)
  show "set (map fst (butlast r @ [(last seqs, y)])) \<subseteq> set seqs"
    using m(2) ne by (auto dest: in_set_takeD)
qed

lemma rechunk_seqs:
  assumes "sorted_wrt (<) seqs"
  shows "sorted_wrt (<) (map fst (rechunk env data seqs must))" "set (map fst (rechunk env data seqs must)) \<subseteq> set seqs"
proof -
  let ?k = "chunk_size_for env (length data) (length seqs)"
  obtain n where n: "map fst (deal ?k data seqs) = take n seqs" using deal_seqs by blast
  have "sorted_wrt (<) (map fst (rechunk env data seqs must)) \<and> set (map fst (rechunk env data seqs must)) \<subseteq> set seqs"
  proof (cases "seqs = [] \<or> data = []")
    case True
    then show ?thesis by (auto simp: rechunk_def)
  next
    case False
    then show ?thesis
      using relabel_seqs [OF assms n] deal_nonempty n sorted_wrt_take [OF assms] set_take_subset [of n seqs]
      by (simp add: rechunk_deal Let_def del: set_map map_append)
  qed
  then show "sorted_wrt (<) (map fst (rechunk env data seqs must))" "set (map fst (rechunk env data seqs must)) \<subseteq> set seqs"
    by simp_all
qed

lemma rechunk_covers:
  "seqs \<noteq> [] \<Longrightarrow> rechunk env data seqs True \<noteq> [] \<and> fst (last (rechunk env data seqs True)) = last seqs"
  by (cases "data = []") (simp_all add: rechunk_deal Let_def, simp_all add: rechunk_def)

lemma rechunk_size:
  assumes "length data \<le> length seqs * frame_cap env" "m \<in> set (rechunk env data seqs must)"
  shows "length (snd m) \<le> max 1 (frame_cap env)"
proof (cases "seqs = [] \<or> data = []")
  case True
  then show ?thesis using assms(2) by (auto simp: rechunk_def split: if_splits)
next
  case False
  let ?k = "chunk_size_for env (length data) (length seqs)"
  let ?r = "deal ?k data seqs"
  have "\<exists>m'\<in>set ?r. snd m = snd m'"
    using assms(2) False deal_nonempty [of seqs data ?k]
    by (auto simp: rechunk_deal Let_def split: if_splits dest: in_set_butlastD intro: bexI [of _ "last ?r"])
  then show ?thesis
    using deal_size [of data seqs ?k] chunk_fits [OF assms(1)] False by fastforce
qed

text \<open>Re-chunking loses nothing and stays sendable: dealt over strictly ascending numbers, the chunks
  concatenate to exactly the data, ride a strictly ascending selection of those numbers that ends on the
  last one when it must, and each fits the frame cap whenever the data fits the budget.\<close>

theorem rechunk_exact:
  assumes "seqs \<noteq> []" "sorted_wrt (<) seqs" "length data \<le> length seqs * frame_cap env"
  shows "concat (map snd (rechunk env data seqs must)) = data \<and>
    sorted_wrt (<) (map fst (rechunk env data seqs must)) \<and> set (map fst (rechunk env data seqs must)) \<subseteq> set seqs \<and>
    fst (last (rechunk env data seqs True)) = last seqs \<and>
    list_all (\<lambda>m. length (snd m) \<le> max 1 (frame_cap env)) (rechunk env data seqs must)"
  using rechunk_concat [OF assms(1)] rechunk_seqs [OF assms(2)] rechunk_covers [OF assms(1)] rechunk_size [OF assms(3)]
  by (simp add: list_all_iff)

theorem rechunk_exact_witness:
  "concat (map snd (rechunk (\<lambda>_. None) [65, 66] [3, 7] False)) = [65, 66] \<and>
    sorted_wrt (<) (map fst (rechunk (\<lambda>_. None) [65, 66] [3, 7] False)) \<and>
    set (map fst (rechunk (\<lambda>_. None) [65, 66] [3, 7] False)) \<subseteq> set [3, 7] \<and>
    fst (last (rechunk (\<lambda>_. None) [65, 66] [3, 7] True)) = last [3, 7] \<and>
    list_all (\<lambda>m. length (snd m) \<le> max 1 (frame_cap (\<lambda>_. None))) (rechunk (\<lambda>_. None) [65, 66] [3, 7] False)"
  by (rule rechunk_exact)
    (simp_all add: frame_cap_def max_output_frame_payload_bytes_def half_def initial_window_bytes_def host_merge_cap_bytes_def env_int_def)

end
