(* ===== verification/Replay_Inv.thy ===== *)
theory Replay_Inv
  imports Replay_Chunks
begin

text \<open>
  The state invariant of the replay buffer and its preservation by every operation.
\<close>

section \<open>The invariant\<close>

text \<open>Every label plus the bytes from its entry on is the running total.\<close>

fun labels_to :: "nat \<Rightarrow> tail_entry list \<Rightarrow> bool" where
  "labels_to held [] \<longleftrightarrow> True"
| "labels_to held (e # es) \<longleftrightarrow> cumulative_before e + tail_size (e # es) = held \<and> labels_to held es"

definition retained_seqs :: "replay_buffer \<Rightarrow> int list" where
  "retained_seqs b = map re_seq (scrollback_ring b) @ map te_seq (entries b)"

definition replay_core :: "replay_buffer \<Rightarrow> bool" where
  "replay_core b \<longleftrightarrow>
    0 \<le> acked_seq b \<and> acked_seq b \<le> highest_seq b \<and>
    sorted_wrt (<) (retained_seqs b) \<and>
    (\<forall>s\<in>set (map re_seq (scrollback_ring b)). 0 < s \<and> s \<le> acked_seq b) \<and>
    (\<forall>s\<in>set (map te_seq (entries b)). acked_seq b < s \<and> s \<le> highest_seq b) \<and>
    retained_bytes b = tail_size (entries b) \<and>
    labels_to (tail_cumulative_bytes b) (entries b) \<and>
    (scrollback_bytes_cap b = 0 \<longrightarrow> scrollback_ring b = [])"

text \<open>A carried opener exists only while the ring is empty.\<close>

definition pending_ok :: "replay_buffer \<Rightarrow> bool" where
  "pending_ok b \<longleftrightarrow>
    (pending_alt_reopen b \<noteq> None \<longrightarrow> scrollback_ring b = []) \<and>
    (\<forall>r. pending_alt_reopen b = Some r \<longrightarrow> length r \<le> 8)"

definition replay_inv :: "replay_buffer \<Rightarrow> bool" where
  "replay_inv b \<longleftrightarrow> replay_core b \<and> scrollback_bytes b = ring_size (scrollback_ring b) \<and> pending_ok b"

lemma tail_size_simps [simp]:
  "tail_size [] = 0" "tail_size (e # es) = length (te_bytes e) + tail_size es"
  "tail_size (es @ fs) = tail_size es + tail_size fs"
  by (simp_all add: tail_size_def)

lemma ring_size_simps [simp]:
  "ring_size [] = 0" "ring_size (e # es) = length (re_bytes e) + ring_size es"
  "ring_size (es @ fs) = ring_size es + ring_size fs"
  "ring_size (map to_ring ts) = tail_size ts"
  by (induction ts) (simp_all add: ring_size_def tail_size_def to_ring_def)

lemma to_ring_seqs: "map re_seq (map to_ring ts) = map te_seq ts"
  by (simp add: to_ring_def)

lemma tail_size_split: "tail_size (take n es) + tail_size (drop n es) = tail_size es"
  by (metis append_take_drop_id tail_size_simps(3))

lemma ring_size_split: "ring_size (take n es) + ring_size (drop n es) = ring_size es"
  by (metis append_take_drop_id ring_size_simps(3))

lemma labels_append:
  "labels_to held es \<Longrightarrow> labels_to (held + length bs) (es @ [\<lparr>te_seq = s, te_bytes = bs, cumulative_before = held\<rparr>])"
  by (induction es) auto

lemma labels_drop: "labels_to held es \<Longrightarrow> labels_to held (drop n es)"
  by (induction es arbitrary: n) (auto simp: drop_Cons split: nat.splits)

lemma labels_nth:
  "labels_to held es \<Longrightarrow> n < length es \<Longrightarrow> cumulative_before (es ! n) + tail_size (drop n es) = held"
  by (induction es arbitrary: n) (auto simp: nth_Cons drop_Cons split: nat.splits)

lemma partition_point_ascending:
  assumes "sorted_wrt (<) (map te_seq es)"
  shows "take (partition_point s es) es = filter (\<lambda>e. te_seq e \<le> s) es"
    "drop (partition_point s es) es = filter (\<lambda>e. s < te_seq e) es"
proof -
  have "takeWhile (\<lambda>e. te_seq e \<le> s) es = filter (\<lambda>e. te_seq e \<le> s) es \<and>
      dropWhile (\<lambda>e. te_seq e \<le> s) es = filter (\<lambda>e. s < te_seq e) es"
    using assms
  proof (induction es)
    case (Cons e es)
    have "filter (\<lambda>e. te_seq e \<le> s) es = [] \<and> filter (\<lambda>e. s < te_seq e) es = es" if "s < te_seq e"
      using Cons.prems that by (auto simp: filter_empty_conv filter_id_conv)
    then show ?case using Cons by auto
  qed simp
  moreover have "take (partition_point s es) es = takeWhile (\<lambda>e. te_seq e \<le> s) es"
    "drop (partition_point s es) es = dropWhile (\<lambda>e. te_seq e \<le> s) es"
    by (simp_all add: partition_point_def takeWhile_eq_take [symmetric] dropWhile_eq_drop [symmetric])
  ultimately show "take (partition_point s es) es = filter (\<lambda>e. te_seq e \<le> s) es"
    "drop (partition_point s es) es = filter (\<lambda>e. s < te_seq e) es" by simp_all
qed

section \<open>Eviction\<close>

lemma evict_count_spec:
  "evict_count held cap es (c, d) = (c', d') \<Longrightarrow>
    c \<le> c' \<and> c' \<le> c + length es \<and> d' = d + ring_size (take (c' - c) es) \<and> (held - d' \<le> cap \<or> c' = c + length es)"
proof (induction es arbitrary: c d)
  case (Cons e es)
  show ?case
  proof (cases "cap < held - d")
    case True
    then have "evict_count held cap es (c + 1, d + length (re_bytes e)) = (c', d')" using Cons.prems by simp
    note ih = Cons.IH [OF this]
    then have "c' - c = Suc (c' - (c + 1))" by arith
    then have "take (c' - c) (e # es) = e # take (c' - (c + 1)) es" by (simp only: take_Suc_Cons)
    then show ?thesis using ih by auto
  qed (use Cons.prems in auto)
qed auto

lemma evict_count_all:
  assumes "evict_count (ring_size es) cap es (0, 0) = (c, d)"
  shows "c \<le> length es" "d = ring_size (take c es)" "ring_size (drop c es) \<le> cap"
  using evict_count_spec [OF assms] ring_size_split [of c es] by auto

lemma newline_at_bound: "newline_at bs = Some n \<Longrightarrow> n < length bs"
  by (auto simp: newline_at_def Let_def split: if_splits)

lemma align_head_spec:
  assumes "align_head cap dropped ring (ring_size ring) = (dropped', ring', held)"
  shows "map re_seq ring' = map re_seq ring" "held = ring_size ring'" "held \<le> ring_size ring"
    "dropped' @ ring_stream ring' = dropped @ ring_stream ring" "ring' = [] \<longleftrightarrow> ring = []"
  using assms
  by (auto dest!: newline_at_bound simp: align_head_def Let_def ring_stream_def split: if_splits list.splits option.splits)

text \<open>What eviction and the opener may do to a buffer: cut the ring's front, keep the books.\<close>

definition ring_trim :: "replay_buffer \<Rightarrow> replay_buffer \<Rightarrow> bool" where
  "ring_trim b b' \<longleftrightarrow>
    (\<exists>n ring pend. b' = b\<lparr>scrollback_ring := ring, scrollback_bytes := ring_size ring, pending_alt_reopen := pend\<rparr> \<and>
      map re_seq ring = drop n (map re_seq (scrollback_ring b)) \<and>
      (pend \<noteq> None \<longrightarrow> ring = []) \<and> (\<forall>r. pend = Some r \<longrightarrow> length r \<le> 8))"

lemma ring_trimI:
  assumes "b' = b\<lparr>scrollback_ring := ring, scrollback_bytes := ring_size ring, pending_alt_reopen := pend\<rparr>"
    "map re_seq ring = drop n (map re_seq (scrollback_ring b))"
    "pend \<noteq> None \<Longrightarrow> ring = []" "\<And>r. pend = Some r \<Longrightarrow> length r \<le> 8"
  shows "ring_trim b b'"
  unfolding ring_trim_def using assms by blast

lemma attach_trim:
  assumes "scrollback_bytes b = ring_size (scrollback_ring b)" "\<forall>r. pending_alt_reopen b = Some r \<longrightarrow> length r \<le> 8"
  shows "ring_trim b (attach_pending_reopen b)" "scrollback_bytes (attach_pending_reopen b) \<le> scrollback_bytes b + 8"
proof -
  have "ring_trim b (attach_pending_reopen b) \<and> scrollback_bytes (attach_pending_reopen b) \<le> scrollback_bytes b + 8"
  proof (cases "scrollback_ring b")
    case Nil
    then have "attach_pending_reopen b = b" by (simp add: attach_pending_reopen_def)
    then show ?thesis using assms Nil
      by (intro conjI ring_trimI [where n = 0 and ring = "[]" and pend = "pending_alt_reopen b"]) simp_all
  next
    case (Cons e es)
    note c = Cons
    show ?thesis
    proof (cases "pending_alt_reopen b")
      case None
      then have "attach_pending_reopen b = b" by (simp add: attach_pending_reopen_def Cons)
      then show ?thesis using assms Cons None
        by (intro conjI ring_trimI [where n = 0 and ring = "e # es" and pend = None]) simp_all
    next
      case (Some r)
      then show ?thesis using assms Cons
        by (intro conjI ring_trimI [where n = 0 and ring = "e\<lparr>re_bytes := r @ re_bytes e\<rparr> # es" and pend = None])
          (simp_all add: attach_pending_reopen_def)
    qed
  qed
  then show "ring_trim b (attach_pending_reopen b)" "scrollback_bytes (attach_pending_reopen b) \<le> scrollback_bytes b + 8"
    by simp_all
qed

lemma ring_trim_trans: "ring_trim a b \<Longrightarrow> ring_trim b c \<Longrightarrow> ring_trim a c"
  unfolding ring_trim_def by (elim exE conjE) (rule exI, rule exI, rule exI, auto simp: drop_drop)

lemma evict_trim:
  assumes "scrollback_bytes b = ring_size (scrollback_ring b)" "pending_alt_reopen b \<noteq> None \<longrightarrow> scrollback_ring b = []"
    "\<forall>r. pending_alt_reopen b = Some r \<longrightarrow> length r \<le> 8"
  shows "ring_trim b (evict_scrollback_to_fit b)"
    "scrollback_bytes (evict_scrollback_to_fit b) \<le> scrollback_bytes_cap b + 8"
proof -
  let ?ring = "scrollback_ring b" and ?cap = "scrollback_bytes_cap b"
  have "ring_trim b (evict_scrollback_to_fit b) \<and> scrollback_bytes (evict_scrollback_to_fit b) \<le> ?cap + 8"
  proof (cases "scrollback_bytes b \<le> ?cap \<or> ?ring = []")
    case True
    then have "evict_scrollback_to_fit b = b" by (simp add: evict_scrollback_to_fit_def)
    then show ?thesis using assms True
      by (intro conjI ring_trimI [where n = 0 and ring = ?ring and pend = "pending_alt_reopen b"]) auto
  next
    case False
    obtain n d where cut: "evict_count (scrollback_bytes b) ?cap ?ring (0, 0) = (n, d)" by force
    note c = evict_count_all [OF cut [unfolded assms(1)]]
    obtain dropped ring held where a: "align_head ?cap (ring_stream (take n ?ring)) (drop n ?ring) (scrollback_bytes b - d) = (dropped, ring, held)"
      by (metis prod_cases3)
    have "scrollback_bytes b - d = ring_size (drop n ?ring)"
      using c(2) assms(1) ring_size_split [of n ?ring] by simp
    note h = align_head_spec [OF a [unfolded this]]
    define kept where "kept = (case ring of [] \<Rightarrow> [] | head # _ \<Rightarrow> re_bytes head)"
    let ?b1 = "b\<lparr>scrollback_ring := ring, scrollback_bytes := held\<rparr>"
    have e: "evict_scrollback_to_fit b = (case reopen_sequence dropped kept of None \<Rightarrow> ?b1
        | Some reopen \<Rightarrow> attach_pending_reopen (?b1\<lparr>pending_alt_reopen := Some reopen\<rparr>))"
      using False cut a by (simp add: evict_scrollback_to_fit_def kept_def Let_def)
    have seqs: "map re_seq ring = drop n (map re_seq ?ring)" using h(1) by (simp add: drop_map)
    have none: "pending_alt_reopen b = None" using False assms(2) by auto
    show ?thesis
    proof (cases "reopen_sequence dropped kept")
      case None
      then show ?thesis using e h c(3) seqs none
        by (intro conjI ring_trimI [where n = n and ring = ring and pend = None]) simp_all
    next
      case (Some r)
      let ?b2 = "?b1\<lparr>pending_alt_reopen := Some r\<rparr>"
      have r: "length r \<le> 8" using reopen_length [OF Some] by simp
      have t: "ring_trim ?b2 (attach_pending_reopen ?b2)"
        "scrollback_bytes (attach_pending_reopen ?b2) \<le> held + 8"
        using attach_trim [of ?b2] h(2) r by simp_all
      then obtain m ring' pend where t': "attach_pending_reopen ?b2 =
          ?b2\<lparr>scrollback_ring := ring', scrollback_bytes := ring_size ring', pending_alt_reopen := pend\<rparr>"
        "map re_seq ring' = drop m (map re_seq ring)" "pend \<noteq> None \<longrightarrow> ring' = []" "\<forall>r. pend = Some r \<longrightarrow> length r \<le> 8"
        unfolding ring_trim_def by auto
      then show ?thesis using e Some seqs t(2) h c(3)
        by (intro conjI ring_trimI [where n = "m + n" and ring = ring' and pend = pend]) (simp_all add: add.commute)
    qed
  qed
  then show "ring_trim b (evict_scrollback_to_fit b)"
    "scrollback_bytes (evict_scrollback_to_fit b) \<le> scrollback_bytes_cap b + 8" by simp_all
qed

section \<open>Preservation\<close>

lemma trim_inv:
  assumes "replay_core b" "ring_trim b b'"
  shows "replay_inv b'"
proof -
  obtain n ring pend where b': "b' = b\<lparr>scrollback_ring := ring, scrollback_bytes := ring_size ring, pending_alt_reopen := pend\<rparr>"
    and seqs: "map re_seq ring = drop n (map re_seq (scrollback_ring b))"
    and pend: "pend \<noteq> None \<longrightarrow> ring = []" "\<forall>r. pend = Some r \<longrightarrow> length r \<le> 8"
    using assms(2) unfolding ring_trim_def by blast
  have "sorted_wrt (<) (drop n (map re_seq (scrollback_ring b)) @ map te_seq (entries b))"
  proof (cases "n \<le> length (scrollback_ring b)")
    case True
    then show ?thesis using sorted_wrt_drop [of "(<)" "retained_seqs b" n] assms(1)
      by (simp add: replay_core_def retained_seqs_def)
  next
    case False
    then show ?thesis using assms(1) by (simp add: replay_core_def retained_seqs_def sorted_wrt_append)
  qed
  moreover have "scrollback_bytes_cap b = 0 \<longrightarrow> ring = []"
    using assms(1) seqs by (auto simp: replay_core_def)
  moreover have "\<forall>s\<in>set (map re_seq ring). 0 < s \<and> s \<le> acked_seq b"
    using assms(1) seqs by (auto simp only: replay_core_def dest!: in_set_dropD)
  ultimately show ?thesis using assms(1) pend seqs
    by (simp add: b' replay_inv_def replay_core_def pending_ok_def retained_seqs_def del: set_map)
qed

lemma coreI:
  assumes "0 \<le> acked_seq b" "acked_seq b \<le> highest_seq b" "sorted_wrt (<) (retained_seqs b)"
    "\<forall>s\<in>set (map re_seq (scrollback_ring b)). 0 < s \<and> s \<le> acked_seq b"
    "\<forall>s\<in>set (map te_seq (entries b)). acked_seq b < s \<and> s \<le> highest_seq b"
    "retained_bytes b = tail_size (entries b)" "labels_to (tail_cumulative_bytes b) (entries b)"
    "scrollback_bytes_cap b = 0 \<longrightarrow> scrollback_ring b = []"
  shows "replay_core b"
  using assms unfolding replay_core_def by blast

lemma inv_new [simp]: "replay_inv (with_caps a g s)"
  by (simp add: with_caps_def replay_inv_def replay_core_def pending_ok_def retained_seqs_def)

lemma inv_distilling [simp]: "replay_inv (distilling d b) = replay_inv b"
  by (simp add: distilling_def replay_inv_def replay_core_def pending_ok_def retained_seqs_def)

lemma inv_online [simp]: "replay_inv (set_client_online v b) = replay_inv b"
  by (simp add: set_client_online_def replay_inv_def replay_core_def pending_ok_def retained_seqs_def)

lemma inv_append [simp]: "replay_inv b \<Longrightarrow> replay_inv (snd (append_output bs b))"
  by (fastforce simp: append_output_def Let_def replay_inv_def replay_core_def pending_ok_def retained_seqs_def
      sorted_wrt_append intro: labels_append)

lemma ring_trim_keeps:
  assumes "ring_trim b c"
  shows "scrollback_bytes c = ring_size (scrollback_ring c)" "pending_ok c" "entries c = entries b"
    "acked_seq c = acked_seq b" "highest_seq c = highest_seq b" "retained_bytes c = retained_bytes b"
    "tail_cumulative_bytes c = tail_cumulative_bytes b" "scrollback_bytes_cap c = scrollback_bytes_cap b"
    "ring_generation c = ring_generation b" "scrollback_distiller c = scrollback_distiller b"
    "client_online c = client_online b" "max_backup_bytes_cap c = max_backup_bytes_cap b"
    "offline_gate_bytes_cap c = offline_gate_bytes_cap b"
  using assms unfolding ring_trim_def pending_ok_def by fastforce+

lemma retire_trim:
  assumes "scrollback_bytes b = ring_size (scrollback_ring b)" "pending_ok b" "0 < scrollback_bytes_cap b"
  shows "ring_trim (b\<lparr>scrollback_bytes := scrollback_bytes b + tail_size released,
      scrollback_ring := scrollback_ring b @ map to_ring released\<rparr>) (retire released b)" (is "ring_trim ?b _")
    "scrollback_bytes (retire released b) \<le> scrollback_bytes_cap b + 8"
proof -
  let ?c = "if scrollback_ring b = [] then attach_pending_reopen ?b else ?b"
  have r: "retire released b = evict_scrollback_to_fit ?c" using assms(3) by (simp add: retire_def Let_def)
  have size: "scrollback_bytes ?b = ring_size (scrollback_ring ?b)" using assms(1) by simp
  have pend: "\<forall>r. pending_alt_reopen ?b = Some r \<longrightarrow> length r \<le> 8" using assms(2) by (simp add: pending_ok_def)
  have t: "ring_trim ?b ?c"
  proof (cases "scrollback_ring b = []")
    case True
    then show ?thesis using attach_trim(1) [OF size pend] by simp
  next
    case False
    then show ?thesis using size assms(2)
      by (intro ring_trimI [where n = 0 and ring = "scrollback_ring ?b" and pend = None]) (simp_all add: pending_ok_def)
  qed
  note k = ring_trim_keeps [OF t]
  then have c: "scrollback_bytes ?c = ring_size (scrollback_ring ?c)" "pending_alt_reopen ?c \<noteq> None \<longrightarrow> scrollback_ring ?c = []"
    "\<forall>r. pending_alt_reopen ?c = Some r \<longrightarrow> length r \<le> 8" "scrollback_bytes_cap ?c = scrollback_bytes_cap b"
    unfolding pending_ok_def by simp_all
  show "ring_trim ?b (retire released b)" using ring_trim_trans [OF t evict_trim(1) [OF c(1-3)]] r by simp
  show "scrollback_bytes (retire released b) \<le> scrollback_bytes_cap b + 8" using evict_trim(2) [OF c(1-3)] c(4) r by simp
qed

lemma ring_trim_retained: "ring_trim b c \<Longrightarrow> ring_trim (b\<lparr>retained_bytes := n\<rparr>) (c\<lparr>retained_bytes := n\<rparr>)"
proof -
  assume "ring_trim b c"
  then obtain m ring pend where "c = b\<lparr>scrollback_ring := ring, scrollback_bytes := ring_size ring, pending_alt_reopen := pend\<rparr>"
    "map re_seq ring = drop m (map re_seq (scrollback_ring b))"
    "pend \<noteq> None \<longrightarrow> ring = []" "\<forall>r. pend = Some r \<longrightarrow> length r \<le> 8"
    unfolding ring_trim_def by blast
  then show ?thesis by (intro ring_trimI [where n = m and ring = ring and pend = pend]) simp_all
qed

lemma inv_ack: "replay_inv b \<Longrightarrow> replay_inv (ack_output n b)"
proof -
  assume inv: "replay_inv b"
  define a where "a = min n (highest_seq b)"
  then have "a \<le> highest_seq b" by simp
  let ?k = "partition_point a (entries b)"
  have asc: "sorted_wrt (<) (map te_seq (entries b))"
    using inv by (simp add: replay_inv_def replay_core_def retained_seqs_def sorted_wrt_append)
  note pp = partition_point_ascending [OF asc, of a]
  show ?thesis
  proof (cases "a \<le> acked_seq b")
    case True
    then show ?thesis using inv by (simp add: ack_output_def Let_def a_def)
  next
    case False
    have above: "\<forall>e\<in>set (drop ?k (entries b)). a < te_seq e" using pp(2) by auto
    have below: "\<forall>e\<in>set (take ?k (entries b)). te_seq e \<le> a" using pp(1) by auto
    show ?thesis
    proof (cases "?k = 0")
      case True
      then have "ack_output n b = b\<lparr>acked_seq := a\<rparr>" using False by (simp add: ack_output_def Let_def a_def)
      then show ?thesis using inv False above True \<open>a \<le> highest_seq b\<close>
        by (auto simp: replay_inv_def replay_core_def pending_ok_def retained_seqs_def)
    next
      case k: False
      let ?rel = "take ?k (entries b)"
      let ?b1 = "b\<lparr>acked_seq := a, ring_generation := ring_generation b + 1, entries := drop ?k (entries b)\<rparr>"
      define left where "left = tail_size (drop ?k (entries b))"
      have sorted: "sorted_wrt (<) (map re_seq (scrollback_ring b) @ map te_seq ?rel @ map te_seq (drop ?k (entries b)))"
        using inv by (simp add: replay_inv_def replay_core_def retained_seqs_def flip: map_append)
      have left_eq: "retained_bytes b - tail_size ?rel = left"
        using inv tail_size_split [of ?k "entries b"] by (simp add: replay_inv_def replay_core_def left_def)
      have bounds: "\<forall>s\<in>set (map te_seq (drop ?k (entries b))). a < s \<and> s \<le> highest_seq b"
        "\<forall>s\<in>set (map te_seq ?rel). 0 < s \<and> s \<le> a" "\<forall>s\<in>set (map re_seq (scrollback_ring b)). 0 < s \<and> s \<le> a"
        "0 \<le> a" "a \<le> highest_seq b"
        using inv above below False \<open>a \<le> highest_seq b\<close> by (auto simp: replay_inv_def replay_core_def dest!: in_set_dropD in_set_takeD)
      have labels: "labels_to (tail_cumulative_bytes b) (drop ?k (entries b))"
        using inv labels_drop by (simp add: replay_inv_def replay_core_def)
      have ack: "ack_output n b = (retire ?rel ?b1)\<lparr>retained_bytes := left\<rparr>" if "retained_bytes (retire ?rel ?b1) = retained_bytes b"
        using False k that by (simp add: ack_output_def Let_def flip: a_def left_eq)
      show ?thesis
      proof (cases "0 < scrollback_bytes_cap b")
        case True
        let ?b2 = "?b1\<lparr>scrollback_bytes := scrollback_bytes b + tail_size ?rel,
            scrollback_ring := scrollback_ring b @ map to_ring ?rel\<rparr>"
        have t: "ring_trim ?b2 (retire ?rel ?b1)"
          using retire_trim(1) [of ?b1 ?rel] inv True by (simp add: replay_inv_def pending_ok_def)
        have "retained_bytes (retire ?rel ?b1) = retained_bytes b" using ring_trim_keeps [OF t] by simp
        note eq = ack [OF this]
        have core: "replay_core (?b2\<lparr>retained_bytes := left\<rparr>)"
        proof (rule coreI)
          show "sorted_wrt (<) (retained_seqs (?b2\<lparr>retained_bytes := left\<rparr>))"
            using sorted by (simp add: retained_seqs_def to_ring_def comp_def)
          show "\<forall>s\<in>set (map re_seq (scrollback_ring (?b2\<lparr>retained_bytes := left\<rparr>))). 0 < s \<and> s \<le> acked_seq (?b2\<lparr>retained_bytes := left\<rparr>)"
            using bounds(2,3) by (auto simp: to_ring_def)
        qed (use bounds left_def labels True in simp_all)
        show ?thesis using trim_inv [OF core ring_trim_retained [OF t]] eq by simp
      next
        case False
        then have "retire ?rel ?b1 = ?b1" by (simp add: retire_def)
        moreover from this have "ack_output n b = ?b1\<lparr>retained_bytes := left\<rparr>" using ack by simp
        moreover have "scrollback_ring b = []" using inv False by (simp add: replay_inv_def replay_core_def)
        moreover have "replay_core (?b1\<lparr>retained_bytes := left\<rparr>)"
        proof (rule coreI)
          show "sorted_wrt (<) (retained_seqs (?b1\<lparr>retained_bytes := left\<rparr>))"
            using sorted by (simp add: retained_seqs_def sorted_wrt_append)
        qed (use bounds left_def labels \<open>scrollback_ring b = []\<close> in simp_all)
        ultimately show ?thesis using inv by (simp add: replay_inv_def pending_ok_def)
      qed
    qed
  qed
qed

lemma ack_ring_size: "scrollback_bytes (ack_output n b) \<le> max (scrollback_bytes b) (scrollback_bytes_cap b + 8)"
  if inv: "replay_inv b"
proof -
  have "scrollback_bytes (retire released b') \<le> scrollback_bytes_cap b + 8"
    if "scrollback_bytes b' = scrollback_bytes b" "scrollback_ring b' = scrollback_ring b" "pending_alt_reopen b' = pending_alt_reopen b"
      "scrollback_bytes_cap b' = scrollback_bytes_cap b" "0 < scrollback_bytes_cap b" for released b'
    using retire_trim(2) [of b' released] inv that by (simp add: replay_inv_def pending_ok_def)
  note bound = this
  show ?thesis
  proof (cases "0 < scrollback_bytes_cap b")
    case True
    then show ?thesis by (simp add: ack_output_def Let_def bound le_max_iff_disj)
  next
    case False
    then show ?thesis by (simp add: ack_output_def Let_def retire_def le_max_iff_disj)
  qed
qed

lemma ring_seqs_sorted: "replay_inv b \<Longrightarrow> sorted_wrt (<) (map re_seq (scrollback_ring b))"
  by (simp add: replay_inv_def replay_core_def retained_seqs_def sorted_wrt_append)

lemma tail_seqs_sorted: "replay_inv b \<Longrightarrow> sorted_wrt (<) (map te_seq (entries b))"
  by (simp add: replay_inv_def replay_core_def retained_seqs_def sorted_wrt_append)

lemma sorted_below:
  assumes "sorted_wrt (<) (xs :: int list)" "\<forall>x\<in>set xs. lo < x \<and> x \<le> hi"
  shows "xs \<noteq> [] \<Longrightarrow> lo < hi"
  using assms(2) by (cases xs) auto

lemma inv_fold:
  assumes "replay_inv b" "set (fold_seqs src) \<subseteq> set (map re_seq (scrollback_ring b))" "fold_seqs src \<noteq> []"
    "sorted_wrt (<) (fold_seqs src)"
  shows "replay_inv (snd (adopt_folded_ring env rendered src b))"
proof (cases "fold_generation src = ring_generation b")
  case True
  let ?ps = "rechunk env rendered (fold_seqs src) True"
  let ?ring = "map (\<lambda>(s, bs). \<lparr>re_seq = s, re_bytes = bs\<rparr>) ?ps"
  have seqs: "map re_seq ?ring = map fst ?ps" by (induction ?ps) auto
  note r = rechunk_seqs [OF assms(4), of env rendered True]
  have ring: "set (map fst ?ps) \<subseteq> set (map re_seq (scrollback_ring b))" using r(2) assms(2) by (rule subset_trans)
  have size: "ring_size ?ring = length rendered"
    using arg_cong [OF rechunk_concat [OF assms(3), of env rendered True], of length]
    by (simp add: ring_size_def length_concat comp_def case_prod_beta)
  have "scrollback_bytes_cap b \<noteq> 0" using assms by (auto simp: replay_inv_def replay_core_def)
  moreover have "sorted_wrt (<) (map fst ?ps @ map te_seq (entries b))"
    using r(1) ring assms(1) by (auto simp: sorted_wrt_append replay_inv_def replay_core_def retained_seqs_def simp del: set_map)
  moreover have "\<forall>s\<in>set (map fst ?ps). 0 < s \<and> s \<le> acked_seq b"
    using ring assms(1) unfolding replay_inv_def replay_core_def by blast
  ultimately show ?thesis using assms(1) True seqs size
    by (simp add: adopt_folded_ring_def replay_inv_def replay_core_def pending_ok_def retained_seqs_def del: map_map set_map)
qed (use assms(1) in \<open>simp add: adopt_folded_ring_def\<close>)

lemma split_adopted_spec:
  assumes "split_adopted acked cap base (map as_output ps) (r, t, rb, tb) = (r', t', rb', tb')"
    "labels_to (base + tb) t" "tb = tail_size t" "rb = ring_size r"
  shows "map (\<lambda>e. (re_seq e, re_bytes e)) r' =
      map (\<lambda>e. (re_seq e, re_bytes e)) r @ (if 0 < cap then filter (\<lambda>p. fst p \<le> acked) ps else []) \<and>
    map (\<lambda>e. (te_seq e, te_bytes e)) t' = map (\<lambda>e. (te_seq e, te_bytes e)) t @ filter (\<lambda>p. acked < fst p) ps \<and>
    labels_to (base + tb') t' \<and> tb' = tail_size t' \<and> rb' = ring_size r'"
  using assms
proof (induction ps arbitrary: r t rb tb)
  case (Cons p ps)
  obtain s bs where p: "p = (s, bs)" by force
  show ?case
  proof (cases "s \<le> acked")
    case True
    show ?thesis
    proof (cases "0 < cap")
      case True
      then show ?thesis using Cons.IH [of "r @ [\<lparr>re_seq = s, re_bytes = bs\<rparr>]" t "rb + length bs" tb] Cons.prems \<open>s \<le> acked\<close> p
        by (auto simp: as_output_def)
    next
      case False
      then show ?thesis using Cons.IH [of r t rb tb] Cons.prems \<open>s \<le> acked\<close> p by (auto simp: as_output_def)
    qed
  next
    case False
    then show ?thesis
      using Cons.IH [of r "t @ [\<lparr>te_seq = s, te_bytes = bs, cumulative_before = base + tb\<rparr>]" rb "tb + length bs"] Cons.prems p
        labels_append [of "base + tb" t bs s]
      by (auto simp: as_output_def add.assoc)
  qed
qed auto

lemma pair_seqs:
  "map (\<lambda>e. (re_seq e, re_bytes e)) r = ps \<Longrightarrow> map re_seq r = map fst ps"
  "map (\<lambda>e. (te_seq e, te_bytes e)) t = ps \<Longrightarrow> map te_seq t = map fst ps"
  by (auto simp: comp_def)

lemma filter_fst: "map fst (filter (\<lambda>p. P (fst p)) ps) = filter P (map fst ps)"
  by (simp add: filter_map comp_def)

lemma adopt_shape:
  assumes inv: "replay_inv b" and asc: "sorted_wrt (<) (map fst ps)"
    and range: "\<forall>s\<in>set (map fst ps). 0 < s \<and> s \<le> highest_seq b"
  shows "replay_inv (adopt_snapshot_replay (map as_output ps) b)"
    "map (\<lambda>e. (te_seq e, te_bytes e)) (entries (adopt_snapshot_replay (map as_output ps) b)) = filter (\<lambda>p. acked_seq b < fst p) ps"
    "acked_seq (adopt_snapshot_replay (map as_output ps) b) = acked_seq b"
    "highest_seq (adopt_snapshot_replay (map as_output ps) b) = highest_seq b"
    "scrollback_bytes (adopt_snapshot_replay (map as_output ps) b) \<le> scrollback_bytes_cap b + 8"
    "scrollback_bytes_cap (adopt_snapshot_replay (map as_output ps) b) = scrollback_bytes_cap b"
    "ring_generation (adopt_snapshot_replay (map as_output ps) b) = ring_generation b + 1"
proof -
  let ?b' = "adopt_snapshot_replay (map as_output ps) b"
  obtain r t rb tb where split: "split_adopted (acked_seq b) (scrollback_bytes_cap b) (tail_cumulative_bytes b)
      (map as_output ps) ([], [], 0, 0) = (r, t, rb, tb)" by (metis prod_cases4)
  note sp = split_adopted_spec [OF split, simplified]
  let ?b1 = "b\<lparr>ring_generation := ring_generation b + 1, scrollback_ring := r, scrollback_bytes := rb, entries := t,
      tail_cumulative_bytes := tail_cumulative_bytes b + tb, retained_bytes := tb, pending_alt_reopen := None\<rparr>"
  have b': "?b' = evict_scrollback_to_fit ?b1" using split by (simp add: adopt_snapshot_replay_def)
  have trim: "ring_trim ?b1 ?b'" and cap: "scrollback_bytes ?b' \<le> scrollback_bytes_cap b + 8"
    using evict_trim [of ?b1] sp b' by simp_all
  have rs: "map re_seq r = (if 0 < scrollback_bytes_cap b then filter (\<lambda>s. s \<le> acked_seq b) (map fst ps) else [])"
    using sp pair_seqs(1) [of r] by (simp add: filter_fst [symmetric])
  have ts: "map te_seq t = filter (\<lambda>s. acked_seq b < s) (map fst ps)"
    using sp pair_seqs(2) [of t] by (simp add: filter_fst [symmetric])
  have "replay_core ?b1"
  proof (rule coreI)
    show "sorted_wrt (<) (retained_seqs ?b1)"
      using asc rs ts by (auto simp: retained_seqs_def sorted_wrt_append sorted_wrt_filter simp del: set_map)
    show "\<forall>s\<in>set (map re_seq (scrollback_ring ?b1)). 0 < s \<and> s \<le> acked_seq ?b1" using range rs by auto
    show "\<forall>s\<in>set (map te_seq (entries ?b1)). acked_seq ?b1 < s \<and> s \<le> highest_seq ?b1" using range ts by auto
    show "scrollback_bytes_cap ?b1 = 0 \<longrightarrow> scrollback_ring ?b1 = []" using rs by auto
  qed (use inv sp in \<open>auto simp: replay_inv_def replay_core_def\<close>)
  from trim_inv [OF this trim] show "replay_inv ?b'" .
  show "map (\<lambda>e. (te_seq e, te_bytes e)) (entries ?b') = filter (\<lambda>p. acked_seq b < fst p) ps"
    "acked_seq ?b' = acked_seq b" "highest_seq ?b' = highest_seq b" "scrollback_bytes_cap ?b' = scrollback_bytes_cap b"
    "ring_generation ?b' = ring_generation b + 1"
    using ring_trim_keeps [OF trim] sp by simp_all
  show "scrollback_bytes ?b' \<le> scrollback_bytes_cap b + 8" by (rule cap)
qed

end
