(* ===== verification/Replay_Run.thy ===== *)
theory Replay_Run
  imports Replay_Inv Wire_Codec
begin

text \<open>
  Runs of the replay buffer: any sequence of appends, acks, ring folds computed aside and snapshot
  adoptions, as \<open>slopdesk-hostsession\<close> drives it under its replay lock, and what holds in every state
  they reach.
\<close>

section \<open>Runs\<close>

text \<open>A fold is captured in one step and adopted in a later one, with any other steps between; a
  snapshot is composed and adopted in one, as the caller's sequence has the drain stopped.\<close>

datatype buffer_op =
    Op_Append bytes
  | Op_Ack int
  | Op_Online bool
  | Op_Capture
  | Op_Fold nat bytes
  | Op_Snapshot int bytes

type_synonym replay_run = "replay_buffer \<times> ring_fold_source list"

fun replay_op :: "env \<Rightarrow> buffer_op \<Rightarrow> replay_run \<Rightarrow> replay_run" where
  "replay_op env (Op_Append bs) (b, captured) = (snd (append_output bs b), captured)"
| "replay_op env (Op_Ack n) (b, captured) = (ack_output n b, captured)"
| "replay_op env (Op_Online v) (b, captured) = (set_client_online v b, captured)"
| "replay_op env Op_Capture (b, captured) =
    (b, captured @ (case ring_fold_source_of b of None \<Rightarrow> [] | Some src \<Rightarrow> [src]))"
| "replay_op env (Op_Fold i rendered) (b, captured) =
    (if i < length captured then (snd (adopt_folded_ring env rendered (captured ! i) b), captured) else (b, captured))"
| "replay_op env (Op_Snapshot after rendered) (b, captured) =
    (let src = snapshot_source_of after b in
     if replay_seqs src = [] then (b, captured)
     else (adopt_snapshot_replay (rechunk_snapshot env rendered (replay_seqs src)) b, captured))"

definition run_ops :: "env \<Rightarrow> buffer_op list \<Rightarrow> replay_buffer \<Rightarrow> replay_run" where
  "run_ops env ops b = fold (replay_op env) ops (b, [])"

definition buffer_after :: "env \<Rightarrow> buffer_op list \<Rightarrow> replay_buffer \<Rightarrow> replay_buffer" where
  "buffer_after env ops b = fst (run_ops env ops b)"

text \<open>The state a session starts from: explicit caps, with or without a distiller.\<close>

definition fresh_buffer :: "nat \<Rightarrow> nat \<Rightarrow> nat \<Rightarrow> (bytes \<Rightarrow> bytes) option \<Rightarrow> replay_buffer" where
  "fresh_buffer backup gate ring distiller =
    (case distiller of None \<Rightarrow> with_caps backup gate ring | Some d \<Rightarrow> distilling d (with_caps backup gate ring))"

lemma inv_fresh [simp]: "replay_inv (fresh_buffer backup gate ring d)"
  by (simp add: fresh_buffer_def split: option.split)

lemma fresh_fields [simp]:
  "entries (fresh_buffer backup gate ring d) = []" "acked_seq (fresh_buffer backup gate ring d) = 0"
  "highest_seq (fresh_buffer backup gate ring d) = 0" "scrollback_bytes (fresh_buffer backup gate ring d) = 0"
  "scrollback_bytes_cap (fresh_buffer backup gate ring d) = ring" "retained_bytes (fresh_buffer backup gate ring d) = 0"
  "max_backup_bytes_cap (fresh_buffer backup gate ring d) = backup" "scrollback_distiller (fresh_buffer backup gate ring d) = d"
  by (simp_all add: fresh_buffer_def with_caps_def distilling_def split: option.split)

text \<open>The snapshot source in closed form.\<close>

lemma snapshot_fold:
  "fold (snapshot_step n) ps src =
    \<lparr>history = history src @ concat (map snd ps), replay_seqs = replay_seqs src @ filter (\<lambda>s. n < s) (map fst ps),
     replay_bytes = replay_bytes src + sum_list (map (\<lambda>p. length (snd p)) (filter (\<lambda>p. n < fst p) ps))\<rparr>"
  by (induction ps arbitrary: src) (auto simp: snapshot_step_def Let_def split: prod.splits)

lemma snapshot_source_fields:
  "history (snapshot_source_of n b) = ring_stream (scrollback_ring b) @ tail_stream (entries b)"
  "replay_seqs (snapshot_source_of n b) = filter (\<lambda>s. n < s) (retained_seqs b)"
  by (simp_all add: snapshot_source_of_def snapshot_fold ring_stream_def tail_stream_def retained_seqs_def comp_def filter_map)

section \<open>The run invariant\<close>

text \<open>A captured fold still names the ring as long as the generation has not moved.\<close>

definition captured_ok :: "replay_buffer \<Rightarrow> ring_fold_source \<Rightarrow> bool" where
  "captured_ok b src \<longleftrightarrow>
    fold_generation src \<le> ring_generation b \<and>
    (fold_generation src = ring_generation b \<longrightarrow>
      scrollback_ring b \<noteq> [] \<and> fold_seqs src = map re_seq (scrollback_ring b) \<and> fold_bytes src = ring_stream (scrollback_ring b))"

definition run_inv :: "replay_run \<Rightarrow> bool" where
  "run_inv st \<longleftrightarrow> replay_inv (fst st) \<and> (\<forall>src\<in>set (snd st). captured_ok (fst st) src)"

lemma captured_ok_same:
  "captured_ok b src \<Longrightarrow> ring_generation b' = ring_generation b \<Longrightarrow> scrollback_ring b' = scrollback_ring b \<Longrightarrow> captured_ok b' src"
  by (simp add: captured_ok_def)

lemma captured_ok_bump: "captured_ok b src \<Longrightarrow> ring_generation b' = ring_generation b + 1 \<Longrightarrow> captured_ok b' src"
  by (simp add: captured_ok_def)

lemma evict_generation [simp]: "ring_generation (evict_scrollback_to_fit b) = ring_generation b"
  by (simp add: evict_scrollback_to_fit_def attach_pending_reopen_def Let_def split: prod.split option.split list.split)

lemma attach_generation [simp]: "ring_generation (attach_pending_reopen b) = ring_generation b"
  by (simp add: attach_pending_reopen_def split: option.split list.split)

lemma ack_generation:
  "ring_generation (ack_output n b) = ring_generation b \<and> scrollback_ring (ack_output n b) = scrollback_ring b \<or>
   ring_generation (ack_output n b) = ring_generation b + 1"
  by (simp add: ack_output_def retire_def Let_def)

lemma snapshot_range:
  assumes "replay_inv b"
  shows "sorted_wrt (<) (replay_seqs (snapshot_source_of n b))"
    "s \<in> set (replay_seqs (snapshot_source_of n b)) \<Longrightarrow> 0 < s \<and> s \<le> highest_seq b"
proof -
  have r: "\<forall>s\<in>set (retained_seqs b). 0 < s \<and> s \<le> highest_seq b"
    using assms unfolding replay_inv_def replay_core_def retained_seqs_def by (simp only: set_append ball_Un) force
  show "sorted_wrt (<) (replay_seqs (snapshot_source_of n b))"
    using assms by (simp add: snapshot_source_fields replay_inv_def replay_core_def sorted_wrt_filter)
  show "s \<in> set (replay_seqs (snapshot_source_of n b)) \<Longrightarrow> 0 < s \<and> s \<le> highest_seq b"
    using r by (auto simp: snapshot_source_fields)
qed

lemma snapshot_adopt_shape:
  fixes env n rendered
  defines "ps b \<equiv> rechunk env rendered (replay_seqs (snapshot_source_of n b)) True"
  assumes "replay_inv b"
  shows "replay_inv (adopt_snapshot_replay (map as_output (ps b)) b)"
    "map (\<lambda>e. (te_seq e, te_bytes e)) (entries (adopt_snapshot_replay (map as_output (ps b)) b)) = filter (\<lambda>p. acked_seq b < fst p) (ps b)"
    "acked_seq (adopt_snapshot_replay (map as_output (ps b)) b) = acked_seq b"
    "highest_seq (adopt_snapshot_replay (map as_output (ps b)) b) = highest_seq b"
    "scrollback_bytes (adopt_snapshot_replay (map as_output (ps b)) b) \<le> scrollback_bytes_cap b + 8"
    "scrollback_bytes_cap (adopt_snapshot_replay (map as_output (ps b)) b) = scrollback_bytes_cap b"
    "ring_generation (adopt_snapshot_replay (map as_output (ps b)) b) = ring_generation b + 1"
proof -
  note r = rechunk_seqs [OF snapshot_range(1) [OF assms(2), of n], of env rendered True]
  have "\<forall>s\<in>set (map fst (ps b)). 0 < s \<and> s \<le> highest_seq b"
    using r(2) snapshot_range(2) [OF assms(2)] unfolding ps_def by blast
  from adopt_shape [OF assms(2) r(1) [folded ps_def] this]
  show "replay_inv (adopt_snapshot_replay (map as_output (ps b)) b)"
    "map (\<lambda>e. (te_seq e, te_bytes e)) (entries (adopt_snapshot_replay (map as_output (ps b)) b)) = filter (\<lambda>p. acked_seq b < fst p) (ps b)"
    "acked_seq (adopt_snapshot_replay (map as_output (ps b)) b) = acked_seq b"
    "highest_seq (adopt_snapshot_replay (map as_output (ps b)) b) = highest_seq b"
    "scrollback_bytes (adopt_snapshot_replay (map as_output (ps b)) b) \<le> scrollback_bytes_cap b + 8"
    "scrollback_bytes_cap (adopt_snapshot_replay (map as_output (ps b)) b) = scrollback_bytes_cap b"
    "ring_generation (adopt_snapshot_replay (map as_output (ps b)) b) = ring_generation b + 1" by simp_all
qed

lemma run_inv_step: "run_inv st \<Longrightarrow> run_inv (replay_op env op st)"
proof (induction env op st rule: replay_op.induct)
  case (1 env bs b captured)
  then show ?case by (auto simp: run_inv_def captured_ok_def append_output_def Let_def intro: inv_append [unfolded append_output_def Let_def, simplified])
next
  case (2 env n b captured)
  then show ?case using inv_ack [of b n] ack_generation [of n b]
    by (auto simp: run_inv_def intro: captured_ok_same captured_ok_bump)
next
  case (3 env v b captured)
  then show ?case by (auto simp: run_inv_def captured_ok_def set_client_online_def intro: inv_online [unfolded set_client_online_def, THEN iffD2])
next
  case (4 env b captured)
  then show ?case by (auto simp: run_inv_def captured_ok_def ring_fold_source_of_def)
next
  case (5 env i rendered b captured)
  show ?case
  proof (cases "i < length captured \<and> fold_generation (captured ! i) = ring_generation b")
    case True
    then have ok: "captured_ok b (captured ! i)" using 5 by (simp add: run_inv_def)
    have "replay_inv (snd (adopt_folded_ring env rendered (captured ! i) b))"
      using 5 ok True ring_seqs_sorted [of b] by (intro inv_fold) (simp_all add: run_inv_def captured_ok_def)
    moreover have "ring_generation (snd (adopt_folded_ring env rendered (captured ! i) b)) = ring_generation b + 1"
      using True by (simp add: adopt_folded_ring_def)
    ultimately show ?thesis using 5 True captured_ok_bump by (auto simp: run_inv_def)
  next
    case False
    then show ?thesis using 5 by (auto simp: adopt_folded_ring_def)
  qed
next
  case (6 env after rendered b captured)
  then have inv: "replay_inv b" by (simp add: run_inv_def)
  note shape = snapshot_adopt_shape [OF inv, of env rendered after]
  show ?case using 6 shape(1,7) captured_ok_bump
    by (auto simp: run_inv_def rechunk_snapshot_def Let_def)
qed

lemma run_inv_ops: "run_inv st \<Longrightarrow> run_inv (fold (replay_op env) ops st)"
  by (induction ops arbitrary: st) (simp_all add: run_inv_step)

lemma run_inv_reach: "run_inv (run_ops env ops (fresh_buffer backup gate ring d))"
  unfolding run_ops_def by (rule run_inv_ops) (simp add: run_inv_def)

lemma inv_reach: "replay_inv (buffer_after env ops (fresh_buffer backup gate ring d))"
  using run_inv_reach [of env ops] by (simp add: run_inv_def buffer_after_def)

section \<open>The un-acked history\<close>

text \<open>The payloads a run appended, numbered from one.\<close>

fun number :: "int \<Rightarrow> bytes list \<Rightarrow> (int \<times> bytes) list" where
  "number n [] = []"
| "number n (x # xs) = (n, x) # number (n + 1) xs"

fun appended :: "buffer_op list \<Rightarrow> bytes list" where
  "appended [] = []"
| "appended (Op_Append bs # ops) = bs # appended ops"
| "appended (_ # ops) = appended ops"

fun adopts_snapshot :: "buffer_op \<Rightarrow> bool" where
  "adopts_snapshot (Op_Snapshot _ _) = True"
| "adopts_snapshot _ = False"

definition tail_pairs :: "replay_buffer \<Rightarrow> (int \<times> bytes) list" where
  "tail_pairs b = map (\<lambda>e. (te_seq e, te_bytes e)) (entries b)"

lemma number_append: "number n (xs @ ys) = number n xs @ number (n + int (length xs)) ys"
  by (induction xs arbitrary: n) (simp_all add: algebra_simps)

lemma number_seqs: "p \<in> set (number n xs) \<Longrightarrow> n \<le> fst p \<and> fst p < n + int (length xs)"
  by (induction xs arbitrary: n) force+

lemma number_filter: "n \<le> k + 1 \<Longrightarrow> filter (\<lambda>p. k < fst p) (number n xs) = drop (nat (k + 1 - n)) (number n xs)"
proof (induction xs arbitrary: n)
  case (Cons x xs)
  show ?case
  proof (cases "k < n")
    case True
    have "filter (\<lambda>p. k < fst p) (number (n + 1) xs) = number (n + 1) xs"
      using True number_seqs by (force simp: filter_id_conv)
    then show ?thesis using True Cons.prems by simp
  next
    case False
    then have "nat (k + 1 - n) = Suc (nat (k + 1 - (n + 1)))" by simp
    then show ?thesis using False Cons.IH [of "n + 1"] by simp
  qed
qed simp

lemma number_length [simp]: "length (number n xs) = length xs"
  by (induction xs arbitrary: n) simp_all

lemma appended_append: "appended (ops @ ops') = appended ops @ appended ops'"
  by (induction ops rule: appended.induct) simp_all

lemma appended_other: "\<not> (\<exists>bs. op = Op_Append bs) \<Longrightarrow> appended [op] = []"
  by (cases op) simp_all

lemma tail_pairs_ack:
  assumes "replay_inv b"
  shows "tail_pairs (ack_output n b) = filter (\<lambda>p. acked_seq (ack_output n b) < fst p) (tail_pairs b)"
    "acked_seq (ack_output n b) = max (acked_seq b) (min n (highest_seq b))" "highest_seq (ack_output n b) = highest_seq b"
proof -
  have keeps: "entries (retire r c) = entries c \<and> acked_seq (retire r c) = acked_seq c \<and> highest_seq (retire r c) = highest_seq c"
    if "scrollback_bytes c = ring_size (scrollback_ring c)" "pending_ok c" for r c
    using that retire_trim(1) [OF that, THEN ring_trim_keeps(3)] retire_trim(1) [OF that, THEN ring_trim_keeps(4)]
      retire_trim(1) [OF that, THEN ring_trim_keeps(5)]
    by (cases "0 < scrollback_bytes_cap c") (simp_all add: retire_def)
  let ?a = "min n (highest_seq b)"
  let ?k = "partition_point ?a (entries b)"
  let ?b1 = "b\<lparr>acked_seq := ?a, ring_generation := ring_generation b + 1, entries := drop ?k (entries b)\<rparr>"
  have k: "entries (retire r ?b1) = drop ?k (entries b) \<and> acked_seq (retire r ?b1) = ?a \<and> highest_seq (retire r ?b1) = highest_seq b" for r
    using keeps [of ?b1] assms by (simp add: replay_inv_def pending_ok_def)
  have f: "ack_output n b = (if ?a \<le> acked_seq b then b else if ?k = 0 then b\<lparr>acked_seq := ?a\<rparr>
      else (retire (take ?k (entries b)) ?b1)\<lparr>retained_bytes :=
        retained_bytes (retire (take ?k (entries b)) ?b1) - tail_size (take ?k (entries b))\<rparr>)"
    by (simp add: ack_output_def Let_def)
  have e: "entries (ack_output n b) = (if ?a \<le> acked_seq b then entries b else drop ?k (entries b))"
    "acked_seq (ack_output n b) = (if ?a \<le> acked_seq b then acked_seq b else ?a)"
    "highest_seq (ack_output n b) = highest_seq b"
    using k by (simp_all only: f split: if_split) (simp_all)
  show "acked_seq (ack_output n b) = max (acked_seq b) ?a" "highest_seq (ack_output n b) = highest_seq b"
    using e(2) e(3) by (simp_all only:) (simp only: max_def split: if_split, linarith)
  have "filter (\<lambda>e. acked_seq b < te_seq e) (entries b) = entries b"
    using assms by (simp add: filter_id_conv replay_inv_def replay_core_def)
  then show "tail_pairs (ack_output n b) = filter (\<lambda>p. acked_seq (ack_output n b) < fst p) (tail_pairs b)"
    using e partition_point_ascending(2) [OF tail_seqs_sorted [OF assms], of ?a]
    by (simp add: tail_pairs_def filter_map comp_def)
qed

definition history_inv :: "bytes list \<Rightarrow> replay_buffer \<Rightarrow> bool" where
  "history_inv produced b \<longleftrightarrow>
    highest_seq b = int (length produced) \<and> tail_pairs b = filter (\<lambda>p. acked_seq b < fst p) (number 1 produced)"

lemma history_step:
  assumes "run_inv st" "history_inv produced (fst st)" "\<not> adopts_snapshot op"
  shows "history_inv (produced @ appended [op]) (fst (replay_op env op st))"
proof -
  obtain b captured where st: "st = (b, captured)" by force
  have inv: "replay_inv b" and hist: "history_inv produced b" using assms st by (simp_all add: run_inv_def)
  show ?thesis
  proof (cases op)
    case (Op_Append bs)
    have "acked_seq b < 1 + int (length produced)" using inv hist by (simp add: replay_inv_def replay_core_def history_inv_def)
    then show ?thesis using hist st Op_Append
      by (simp add: history_inv_def append_output_def Let_def tail_pairs_def number_append add.commute)
  next
    case (Op_Ack n)
    have "acked_seq b \<le> acked_seq (ack_output n b)" using tail_pairs_ack(2) [OF inv] by simp
    then have "filter (\<lambda>p. acked_seq (ack_output n b) < fst p) (filter (\<lambda>p. acked_seq b < fst p) (number 1 produced)) =
        filter (\<lambda>p. acked_seq (ack_output n b) < fst p) (number 1 produced)"
      by (auto intro!: filter_cong)
    then show ?thesis using hist st Op_Ack tail_pairs_ack(1,3) [OF inv, of n] by (simp add: history_inv_def)
  next
    case (Op_Fold i rendered)
    then show ?thesis using hist st
      by (simp add: history_inv_def adopt_folded_ring_def tail_pairs_def)
  qed (use hist st assms(3) in \<open>simp_all add: history_inv_def set_client_online_def tail_pairs_def\<close>)
qed

lemma history_ops:
  "run_inv st \<Longrightarrow> history_inv produced (fst st) \<Longrightarrow> \<forall>op\<in>set ops. \<not> adopts_snapshot op \<Longrightarrow>
    history_inv (produced @ appended ops) (fst (fold (replay_op env) ops st))"
proof (induction ops arbitrary: st produced)
  case (Cons op ops)
  have "history_inv ((produced @ appended [op]) @ appended ops) (fst (fold (replay_op env) ops (replay_op env op st)))"
    using Cons.prems by (intro Cons.IH run_inv_step history_step) simp_all
  then show ?case using appended_append [of "[op]" ops] by simp
qed simp

lemma history_reach:
  assumes "\<forall>op\<in>set ops. \<not> adopts_snapshot op"
  shows "history_inv (appended ops) (buffer_after env ops (fresh_buffer backup gate ring d))"
  using history_ops [of "(fresh_buffer backup gate ring d, [])" "[]" ops env] assms
  by (simp add: run_inv_def history_inv_def tail_pairs_def buffer_after_def run_ops_def)

section \<open>Replays\<close>

lemma evict_distiller [simp]: "scrollback_distiller (evict_scrollback_to_fit b) = scrollback_distiller b"
  by (simp add: evict_scrollback_to_fit_def attach_pending_reopen_def Let_def split: prod.split option.split list.split)

lemma attach_distiller [simp]: "scrollback_distiller (attach_pending_reopen b) = scrollback_distiller b"
  by (simp add: attach_pending_reopen_def split: option.split list.split)

lemma evict_cap [simp]: "scrollback_bytes_cap (evict_scrollback_to_fit b) = scrollback_bytes_cap b"
  by (simp add: evict_scrollback_to_fit_def attach_pending_reopen_def Let_def split: prod.split option.split list.split)

lemma attach_cap [simp]: "scrollback_bytes_cap (attach_pending_reopen b) = scrollback_bytes_cap b"
  by (simp add: attach_pending_reopen_def split: option.split list.split)

lemma distiller_step: "scrollback_distiller (fst (replay_op env op st)) = scrollback_distiller (fst st)"
  by (induction env op st rule: replay_op.induct)
    (simp_all add: append_output_def ack_output_def retire_def set_client_online_def adopt_folded_ring_def
      adopt_snapshot_replay_def Let_def split: prod.split)

lemma distiller_ops: "scrollback_distiller (fst (fold (replay_op env) ops st)) = scrollback_distiller (fst st)"
  by (induction ops arbitrary: st) (simp_all add: distiller_step)

lemma distiller_reach: "scrollback_distiller (buffer_after env ops (fresh_buffer backup gate ring d)) = d"
  by (simp add: buffer_after_def run_ops_def distiller_ops)

lemma ring_above_acked: "replay_inv b \<Longrightarrow> acked_seq b \<le> k \<Longrightarrow> filter (\<lambda>e. k < re_seq e) (scrollback_ring b) = []"
  by (force simp: filter_empty_conv replay_inv_def replay_core_def)

lemma warm_replay:
  assumes "replay_inv b" "acked_seq b \<le> k" "0 < k \<or> scrollback_distiller b = None"
  shows "replay_messages env k b = map as_output (filter (\<lambda>p. k < fst p) (tail_pairs b))"
  using ring_above_acked [OF assms(1,2)] assms(3)
  by (auto simp: replay_messages_def Let_def tail_pairs_def filter_map comp_def as_output_def split: option.split)

lemma replay_last:
  assumes "replay_inv b" "entries b \<noteq> []" "k < te_seq (last (entries b))"
  shows "\<exists>bs. replay_messages env k b \<noteq> [] \<and> last (replay_messages env k b) = Output (te_seq (last (entries b))) bs"
proof -
  let ?s = "te_seq (last (entries b))" and ?scroll = "filter (\<lambda>e. k < re_seq e) (scrollback_ring b)"
  let ?tail = "map (\<lambda>e. Output (te_seq e) (te_bytes e)) (filter (\<lambda>e. k < te_seq e) (entries b))"
  obtain es e where es: "entries b = es @ [e]" using assms(2) by (cases "entries b" rule: rev_cases) auto
  then have tail: "?tail \<noteq> []" "last ?tail = Output ?s (te_bytes (last (entries b)))" using assms(3) by simp_all
  show ?thesis
  proof (cases "scrollback_distiller b \<noteq> None \<and> k = 0")
    case True
    then obtain d where d: "scrollback_distiller b = Some d" by auto
    let ?seqs = "map re_seq ?scroll @ map te_seq (entries b)"
    let ?r = "rechunk env (d (ring_stream ?scroll @ tail_stream (entries b))) ?seqs True"
    have r: "replay_messages env k b = map as_output ?r" using True d assms(2) by (simp add: replay_messages_def Let_def)
    have "?r \<noteq> [] \<and> fst (last ?r) = ?s" using rechunk_covers [of ?seqs env] assms(2) by (simp add: last_map)
    then show ?thesis using r by (simp add: last_map as_output_def case_prod_beta)
  next
    case False
    then show ?thesis using tail by (auto simp: replay_messages_def Let_def split: option.split)
  qed
qed

lemma ack_covers:
  assumes "replay_inv b" "\<forall>e\<in>set (entries b). te_seq e \<le> s" "s \<le> highest_seq b"
  shows "entries (ack_output s b) = [] \<and> retained_bytes (ack_output s b) = 0"
proof -
  have "tail_pairs (ack_output s b) = []"
    using tail_pairs_ack(1,2) [OF assms(1), of s] assms(2,3) by (auto simp: filter_empty_conv tail_pairs_def)
  then have "entries (ack_output s b) = []" by (simp add: tail_pairs_def)
  then show ?thesis using inv_ack [OF assms(1), of s] by (simp add: replay_inv_def replay_core_def)
qed

lemma sorted_le_last: "sorted_wrt (<) (xs :: int list) \<Longrightarrow> x \<in> set xs \<Longrightarrow> x \<le> last xs"
  by (induction xs) (auto split: if_splits intro: order.strict_implies_order)

fun largest_fold :: "buffer_op list \<Rightarrow> nat" where
  "largest_fold [] = 0"
| "largest_fold (Op_Fold _ rendered # ops) = max (length rendered) (largest_fold ops)"
| "largest_fold (_ # ops) = largest_fold ops"

lemma ring_cap_step:
  assumes "run_inv st"
  shows "scrollback_bytes (fst (replay_op env op st)) \<le>
      max (max (scrollback_bytes (fst st)) (scrollback_bytes_cap (fst st) + 8)) (largest_fold [op]) \<and>
    scrollback_bytes_cap (fst (replay_op env op st)) = scrollback_bytes_cap (fst st)"
proof -
  obtain b captured where st: "st = (b, captured)" by force
  have inv: "replay_inv b" using assms st by (simp add: run_inv_def)
  show ?thesis
  proof (cases op)
    case (Op_Ack n)
    have "scrollback_bytes_cap (ack_output n b) = scrollback_bytes_cap b"
      by (simp add: ack_output_def retire_def Let_def)
    then show ?thesis using ack_ring_size [OF inv, of n] Op_Ack st by simp
  next
    case (Op_Snapshot after rendered)
    then show ?thesis using snapshot_adopt_shape(5,6) [OF inv, of env rendered after] st
      by (simp add: rechunk_snapshot_def Let_def le_max_iff_disj)
  next
    case (Op_Fold i rendered)
    then show ?thesis using st by (simp add: adopt_folded_ring_def le_max_iff_disj)
  qed (use st in \<open>simp_all add: append_output_def Let_def set_client_online_def\<close>)
qed

lemma largest_fold_Cons: "largest_fold (op # ops) = max (largest_fold [op]) (largest_fold ops)"
  by (cases op) simp_all

lemma ring_cap_ops:
  "run_inv st \<Longrightarrow> scrollback_bytes (fst (fold (replay_op env) ops st)) \<le>
    max (max (scrollback_bytes (fst st)) (scrollback_bytes_cap (fst st) + 8)) (largest_fold ops)"
proof (induction ops arbitrary: st)
  case (Cons op ops)
  from Cons.IH [OF run_inv_step [OF Cons.prems, of env op]] ring_cap_step [OF Cons.prems, of env op]
  show ?case unfolding largest_fold_Cons [of op ops] by (simp add: le_max_iff_disj) linarith
qed simp

section \<open>The drain gate\<close>






section \<open>An eviction in front of a full payload\<close>

definition entering_alt :: bytes where
  "entering_alt = vt_stream [Csi_Seq [0x3F, 49, 48, 52, 57] [] 0x68, Text [65, 65, 65]]"

lemma entering_alt_opens: "reopen_sequence entering_alt kept = Some (vt_bytes (opener_token 1049))"
proof -
  have ok: "\<forall>t\<in>set [Csi_Seq [0x3F, 49, 48, 52, 57] [] 0x68, Text [65, 65, 65]]. vt_ok t"
    by (simp add: in_range_def ESC_def)
  have "alt_transition_param \<lparr>params = [0x3F, 49, 48, 52, 57], intermediates = [], final_byte = 0x68, csi_end = 0\<rparr> = Some 1049"
    by (simp add: alt_transition_param_def mode_values List.map_filter_def ALT_MODES_def)
  then show ?thesis using reopen_stream [OF ok, of kept]
    by (simp add: entering_alt_def alt_apply_def screen_of_def)
qed

lemma evicted_head:
  assumes "0 < n"
  shows "replay_messages env 0 (buffer_after env [Op_Append entering_alt, Op_Append (replicate n 65), Op_Ack 2]
      (fresh_buffer backup gate n None)) = [Output 2 (vt_bytes (opener_token 1049) @ replicate n 65)]"
proof -
  have len: "0 < length entering_alt" by (simp add: entering_alt_def vt_stream_def)
  have nl: "newline_at (replicate n 65) = None"
    by (simp add: newline_at_def takeWhile_eq_all_conv [THEN iffD2])
  show ?thesis using assms len nl entering_alt_opens
    by (simp add: buffer_after_def run_ops_def append_output_def ack_output_def partition_point_def retire_def
        fresh_buffer_def with_caps_def to_ring_def attach_pending_reopen_def evict_scrollback_to_fit_def align_head_def
        ring_stream_def replay_messages_def Let_def)
qed

section \<open>Properties\<close>

text \<open>In every state the buffer reaches, by appends, acks, ring folds and snapshot adoptions in any
  order, the sequence numbers of the ring and the tail together ascend strictly, the ring holds only
  acked ones and the tail only un-acked ones that were assigned, and both byte counters are the true
  totals.\<close>

theorem replay_stays_well_formed:
  "let b = buffer_after env ops (fresh_buffer backup gate ring d) in
    sorted_wrt (<) (map re_seq (scrollback_ring b) @ map te_seq (entries b)) \<and>
    list_all (\<lambda>e. 0 < re_seq e \<and> re_seq e \<le> acked_seq b) (scrollback_ring b) \<and>
    list_all (\<lambda>e. acked_seq b < te_seq e \<and> te_seq e \<le> highest_seq b) (entries b) \<and>
    scrollback_bytes b = length (ring_stream (scrollback_ring b)) \<and>
    retained_bytes b = length (tail_stream (entries b))"
  using inv_reach [of env ops backup gate ring d]
  by (simp add: replay_inv_def replay_core_def retained_seqs_def list_all_iff Let_def ring_stream_def tail_stream_def
      ring_size_def tail_size_def length_concat comp_def)

text \<open>The lag query never miscounts: in every reachable state and for every cursor,
  \<open>retained_bytes_above\<close>, a binary search and one subtraction of running totals, is the number of
  retained bytes above the cursor.\<close>

theorem retained_bytes_above_exact:
  "let b = buffer_after env ops (fresh_buffer backup gate ring d) in
    retained_bytes_above s b = length (concat (map te_bytes (filter (\<lambda>e. s < te_seq e) (entries b))))"
proof -
  define b where "b = buffer_after env ops (fresh_buffer backup gate ring d)"
  have inv: "replay_inv b" unfolding b_def by (rule inv_reach)
  let ?k = "partition_point s (entries b)"
  have size: "length (concat (map te_bytes (filter (\<lambda>e. s < te_seq e) (entries b)))) = tail_size (drop ?k (entries b))"
    using partition_point_ascending(2) [OF tail_seqs_sorted [OF inv]] by (simp add: tail_size_def length_concat comp_def)
  have "retained_bytes_above s b = tail_size (drop ?k (entries b))"
  proof (cases "?k < length (entries b)")
    case True
    then have "cumulative_before (entries b ! ?k) + tail_size (drop ?k (entries b)) = tail_cumulative_bytes b"
      using inv labels_nth by (simp add: replay_inv_def replay_core_def)
    then show ?thesis using True by (simp add: retained_bytes_above_def Let_def)
  qed (simp add: retained_bytes_above_def Let_def)
  then show ?thesis using size by (simp add: Let_def b_def)
qed

text \<open>C20. Un-acked output is never dropped: as long as no rendered snapshot replaced the history, the tail
  holds exactly the appended payloads above the acked number, in order, each under the number it was
  given when it was appended, whatever acks (stale, duplicate or beyond the head), ring evictions and
  folds happened in between.\<close>

theorem unacked_never_dropped:
  assumes "\<forall>op\<in>set ops. \<not> adopts_snapshot op"
  shows "let b = buffer_after env ops (fresh_buffer backup gate ring d) in
    map (\<lambda>e. (te_seq e, te_bytes e)) (entries b) = drop (nat (acked_seq b)) (number 1 (appended ops)) \<and>
    0 \<le> acked_seq b \<and> acked_seq b \<le> int (length (appended ops))"
  using history_reach [OF assms, of env backup gate ring d] inv_reach [of env ops backup gate ring d]
    number_filter [of 1 "acked_seq (buffer_after env ops (fresh_buffer backup gate ring d))" "appended ops"]
  by (simp add: history_inv_def tail_pairs_def Let_def replay_inv_def replay_core_def)

theorem unacked_never_dropped_witness:
  "let b = buffer_after (\<lambda>k. None) [Op_Append [65], Op_Append [66], Op_Ack 1, Op_Ack 0] (fresh_buffer 100 50 10 None) in
    map (\<lambda>e. (te_seq e, te_bytes e)) (entries b) =
      drop (nat (acked_seq b)) (number 1 (appended [Op_Append [65], Op_Append [66], Op_Ack 1, Op_Ack 0])) \<and>
    0 \<le> acked_seq b \<and> acked_seq b \<le> int (length (appended [Op_Append [65], Op_Append [66], Op_Ack 1, Op_Ack 0]))"
  by (rule unacked_never_dropped) simp

text \<open>A warm reconnect resumes byte-exact: a client that presents a number at or above the acked one is
  replayed exactly the payloads appended after it, unmodified and in order, distiller or not.\<close>

theorem warm_replay_is_the_missing_suffix:
  assumes "\<forall>op\<in>set ops. \<not> adopts_snapshot op"
    "acked_seq (buffer_after env ops (fresh_buffer backup gate ring d)) \<le> k" "0 < k"
  shows "replay_messages env k (buffer_after env ops (fresh_buffer backup gate ring d)) =
    map (\<lambda>(s, bs). Output s bs) (drop (nat k) (number 1 (appended ops)))"
proof -
  let ?b = "buffer_after env ops (fresh_buffer backup gate ring d)"
  have "filter (\<lambda>p. k < fst p) (tail_pairs ?b) = filter (\<lambda>p. k < fst p) (number 1 (appended ops))"
    using history_reach [OF assms(1), of env backup gate ring d] assms(2) by (auto simp: history_inv_def intro!: filter_cong)
  then show ?thesis
    using warm_replay [OF inv_reach assms(2), of env] assms(3) number_filter [of 1 k "appended ops"]
    by (simp add: as_output_def case_prod_beta')
qed

theorem warm_replay_is_the_missing_suffix_witness:
  "replay_messages (\<lambda>k. None) 1 (buffer_after (\<lambda>k. None) [Op_Append [65], Op_Append [66]] (fresh_buffer 100 50 10 None)) =
    map (\<lambda>(s, bs). Output s bs) (drop (nat 1) (number 1 (appended [Op_Append [65], Op_Append [66]])))"
  by (rule warm_replay_is_the_missing_suffix)
    (simp_all add: buffer_after_def run_ops_def append_output_def)

text \<open>A replay always lets the client release everything: whenever something un-acked is above the
  presented number, the last message of the replay (raw, distilled or re-chunked) carries the number of
  the newest retained entry, and an ack of it empties the tail.\<close>

theorem replay_releases_everything:
  fixes env ops backup gate ring d
  defines "b \<equiv> buffer_after env ops (fresh_buffer backup gate ring d)"
  assumes "entries b \<noteq> []" "k < te_seq (last (entries b))"
  shows "\<exists>bs. last (replay_messages env k b) = Output (te_seq (last (entries b))) bs \<and> replay_messages env k b \<noteq> [] \<and>
    entries (ack_output (te_seq (last (entries b))) b) = [] \<and> retained_bytes (ack_output (te_seq (last (entries b))) b) = 0"
proof -
  have inv: "replay_inv b" unfolding b_def by (rule inv_reach)
  have "\<forall>e\<in>set (entries b). te_seq e \<le> te_seq (last (entries b))"
    using sorted_le_last [OF tail_seqs_sorted [OF inv]] assms(2) by (simp add: last_map)
  moreover have "te_seq (last (entries b)) \<le> highest_seq b"
    using inv assms(2) by (simp add: replay_inv_def replay_core_def)
  ultimately show ?thesis using replay_last [OF inv assms(2,3)] ack_covers [OF inv] by blast
qed

theorem replay_releases_everything_witness:
  "\<exists>bs. last (replay_messages (\<lambda>k. None) 0 (buffer_after (\<lambda>k. None) [Op_Append [65], Op_Append [66]] (fresh_buffer 9 5 4 (Some (\<lambda>x. []))))) =
      Output (te_seq (last (entries (buffer_after (\<lambda>k. None) [Op_Append [65], Op_Append [66]] (fresh_buffer 9 5 4 (Some (\<lambda>x. []))))))) bs \<and>
    replay_messages (\<lambda>k. None) 0 (buffer_after (\<lambda>k. None) [Op_Append [65], Op_Append [66]] (fresh_buffer 9 5 4 (Some (\<lambda>x. [])))) \<noteq> [] \<and>
    entries (ack_output (te_seq (last (entries (buffer_after (\<lambda>k. None) [Op_Append [65], Op_Append [66]] (fresh_buffer 9 5 4 (Some (\<lambda>x. [])))))))
      (buffer_after (\<lambda>k. None) [Op_Append [65], Op_Append [66]] (fresh_buffer 9 5 4 (Some (\<lambda>x. []))))) = [] \<and>
    retained_bytes (ack_output (te_seq (last (entries (buffer_after (\<lambda>k. None) [Op_Append [65], Op_Append [66]] (fresh_buffer 9 5 4 (Some (\<lambda>x. [])))))))
      (buffer_after (\<lambda>k. None) [Op_Append [65], Op_Append [66]] (fresh_buffer 9 5 4 (Some (\<lambda>x. []))))) = 0"
  by (rule replay_releases_everything)
    (simp_all add: buffer_after_def run_ops_def append_output_def)

text \<open>C21. A stale ring fold is never merged: if the buffer accepts a fold it once captured, the ring it
  replaces is still exactly the ring that was rendered; it then holds the rendering, under numbers of the
  old ring, and the un-acked tail is untouched. A refused fold changes nothing.\<close>

theorem stale_fold_never_merged:
  fixes env ops backup gate ring d
  defines "st \<equiv> run_ops env ops (fresh_buffer backup gate ring d)"
  assumes "src \<in> set (snd st)"
  shows "case adopt_folded_ring env rendered src (fst st) of
      (True, b') \<Rightarrow> fold_bytes src = ring_stream (scrollback_ring (fst st)) \<and> ring_stream (scrollback_ring b') = rendered \<and>
        set (map re_seq (scrollback_ring b')) \<subseteq> set (map re_seq (scrollback_ring (fst st))) \<and> entries b' = entries (fst st)
    | (False, b') \<Rightarrow> b' = fst st"
proof -
  have inv: "run_inv st" unfolding st_def by (rule run_inv_reach)
  then have ok: "captured_ok (fst st) src" using assms(2) by (simp add: run_inv_def)
  show ?thesis
  proof (cases "fold_generation src = ring_generation (fst st)")
    case True
    have seqs: "fold_seqs src = map re_seq (scrollback_ring (fst st))" "fold_seqs src \<noteq> []"
      using ok True by (simp_all add: captured_ok_def)
    have "sorted_wrt (<) (fold_seqs src)" using seqs ring_seqs_sorted inv by (simp add: run_inv_def)
    note r = rechunk_seqs(2) [OF this, of env rendered True]
    have pairs: "map re_bytes (map (\<lambda>(s, bs). \<lparr>re_seq = s, re_bytes = bs\<rparr>) ps) = map snd ps"
      "map re_seq (map (\<lambda>(s, bs). \<lparr>re_seq = s, re_bytes = bs\<rparr>) ps) = map fst ps" for ps
      by (induction ps) auto
    show ?thesis using ok True r seqs rechunk_concat [OF seqs(2), of env rendered True]
      by (simp add: adopt_folded_ring_def captured_ok_def ring_stream_def pairs del: map_map set_map)
  qed (simp add: adopt_folded_ring_def)
qed

theorem stale_fold_never_merged_witness:
  "case adopt_folded_ring (\<lambda>k. None) [82] \<lparr>fold_bytes = [65], fold_seqs = [1], fold_generation = 1\<rparr>
      (fst (run_ops (\<lambda>k. None) [Op_Append [65], Op_Ack 1, Op_Capture] (fresh_buffer 9 5 4 None))) of
      (True, b') \<Rightarrow> fold_bytes \<lparr>fold_bytes = [65], fold_seqs = [1], fold_generation = 1\<rparr> =
          ring_stream (scrollback_ring (fst (run_ops (\<lambda>k. None) [Op_Append [65], Op_Ack 1, Op_Capture] (fresh_buffer 9 5 4 None)))) \<and>
        ring_stream (scrollback_ring b') = [82] \<and>
        set (map re_seq (scrollback_ring b')) \<subseteq>
          set (map re_seq (scrollback_ring (fst (run_ops (\<lambda>k. None) [Op_Append [65], Op_Ack 1, Op_Capture] (fresh_buffer 9 5 4 None))))) \<and>
        entries b' = entries (fst (run_ops (\<lambda>k. None) [Op_Append [65], Op_Ack 1, Op_Capture] (fresh_buffer 9 5 4 None)))
    | (False, b') \<Rightarrow> b' = fst (run_ops (\<lambda>k. None) [Op_Append [65], Op_Ack 1, Op_Capture] (fresh_buffer 9 5 4 None))"
  by (rule stale_fold_never_merged)
    (simp add: run_ops_def append_output_def ack_output_def retire_def partition_point_def to_ring_def
      attach_pending_reopen_def evict_scrollback_to_fit_def fresh_buffer_def with_caps_def ring_fold_source_of_def ring_stream_def Let_def)

text \<open>The ring stays within its cap: in every reachable state the scrollback holds at most its cap
  plus the eight bytes of an opener, or the size of the largest fold offered.\<close>

theorem ring_stays_capped:
  "scrollback_bytes (buffer_after env ops (fresh_buffer backup gate ring d)) \<le> max (ring + 8) (largest_fold ops)"
  using ring_cap_ops [of "(fresh_buffer backup gate ring d, [])" env ops]
  by (simp add: run_inv_def buffer_after_def run_ops_def)

text \<open>C17. An adopted snapshot behaves as if the host had sent it all along: the messages carry exactly the
  rendered bytes, in strictly ascending numbers; a client that already holds a part of them and comes back
  warm is replayed exactly the rest; and the ack of the last one empties the tail.\<close>

theorem snapshot_adopted_as_sent:
  fixes env ops backup gate ring d after rendered
  defines "b \<equiv> buffer_after env ops (fresh_buffer backup gate ring d)"
  defines "seqs \<equiv> replay_seqs (snapshot_source_of after b)"
  defines "sent \<equiv> rechunk env rendered seqs True"
  defines "b' \<equiv> adopt_snapshot_replay (rechunk_snapshot env rendered seqs) b"
  assumes "seqs \<noteq> []" "acked_seq b \<le> k" "0 < k"
  shows "rechunk_snapshot env rendered seqs = map (\<lambda>(s, bs). Output s bs) sent \<and> concat (map snd sent) = rendered \<and>
    sorted_wrt (<) (map fst sent) \<and>
    replay_messages env k b' = map (\<lambda>(s, bs). Output s bs) (filter (\<lambda>p. k < fst p) sent) \<and>
    entries (ack_output (fst (last sent)) b') = [] \<and> retained_bytes (ack_output (fst (last sent)) b') = 0"
proof -
  have inv: "replay_inv b" unfolding b_def by (rule inv_reach)
  have b': "b' = adopt_snapshot_replay (map as_output sent) b" by (simp add: b'_def rechunk_snapshot_def sent_def)
  note shape = snapshot_adopt_shape [OF inv, of env rendered after, folded seqs_def, folded sent_def, folded b']
  note asc = snapshot_range(1) [OF inv, of after, folded seqs_def]
  have r: "sorted_wrt (<) (map fst sent)" "set (map fst sent) \<subseteq> set seqs"
    using rechunk_seqs [OF asc, of env rendered True] by (simp_all add: sent_def)
  have cover: "sent \<noteq> []" "fst (last sent) = last seqs" using rechunk_covers [OF assms(5), of env rendered] by (simp_all add: sent_def)
  have "replay_messages env k b' = map as_output (filter (\<lambda>p. k < fst p) (tail_pairs b'))"
    using warm_replay [OF shape(1)] shape(3) assms(6,7) by simp
  moreover have "filter (\<lambda>p. k < fst p) (tail_pairs b') = filter (\<lambda>p. k < fst p) sent"
    using shape(2) assms(6) by (auto simp: tail_pairs_def intro!: filter_cong)
  moreover have "\<forall>e\<in>set (entries b'). te_seq e \<le> last seqs"
  proof
    fix e assume "e \<in> set (entries b')"
    then have "(te_seq e, te_bytes e) \<in> set (tail_pairs b')" by (auto simp: tail_pairs_def)
    then have "te_seq e \<in> set (map fst sent)" using shape(2) by (force simp: tail_pairs_def)
    then show "te_seq e \<le> last seqs" using r(2) sorted_le_last [OF asc] by blast
  qed
  moreover have "last seqs \<le> highest_seq b'"
    using snapshot_range(2) [OF inv, of "last seqs" after] assms(5) shape(4) by (simp add: seqs_def)
  ultimately show ?thesis
    using ack_covers [OF shape(1)] cover r(1) rechunk_concat [OF assms(5), of env rendered True]
    by (simp add: rechunk_snapshot_def as_output_def case_prod_beta' flip: sent_def)
qed

theorem snapshot_adopted_as_sent_witness:
  "let b = buffer_after (\<lambda>k. None) [Op_Append [65], Op_Append [66]] (fresh_buffer 9 5 4 None);
       seqs = replay_seqs (snapshot_source_of 0 b); sent = rechunk (\<lambda>k. None) [82, 83] seqs True;
       b' = adopt_snapshot_replay (rechunk_snapshot (\<lambda>k. None) [82, 83] seqs) b in
    rechunk_snapshot (\<lambda>k. None) [82, 83] seqs = map (\<lambda>(s, bs). Output s bs) sent \<and> concat (map snd sent) = [82, 83] \<and>
    sorted_wrt (<) (map fst sent) \<and>
    replay_messages (\<lambda>k. None) 1 b' = map (\<lambda>(s, bs). Output s bs) (filter (\<lambda>p. 1 < fst p) sent) \<and>
    entries (ack_output (fst (last sent)) b') = [] \<and> retained_bytes (ack_output (fst (last sent)) b') = 0"
  unfolding Let_def
  by (rule snapshot_adopted_as_sent)
    (simp_all add: buffer_after_def run_ops_def append_output_def snapshot_source_of_def snapshot_step_def fresh_buffer_def with_caps_def)

text \<open>The re-opener breaks the frame bound: at the default window, every payload appended within the
  output cap, there is a buffer whose raw replay sends a frame of more wire bytes than half the window,
  which is what the credit progress of a channel relies on. An eviction that cuts an open alternate
  screen puts its opener in front of a payload that already fills the cap.\<close>

theorem reopened_head_exceeds_half_window:
  fixes env :: env
  defines "env \<equiv> (\<lambda>_. None)"
  defines "filling \<equiv> replicate (frame_cap env) (65 :: u8)"
  defines "b \<equiv> buffer_after env [Op_Append entering_alt, Op_Append filling, Op_Ack 2]
    (fresh_buffer MAX_BACKUP_BYTES OFFLINE_GATE_BYTES (frame_cap env) None)"
  shows "length entering_alt \<le> frame_cap env \<and> length filling \<le> frame_cap env \<and>
    (\<exists>m\<in>set (replay_messages env 0 b). half (initial_window_bytes env) < int (wire_byte_count m))"
proof -
  have cap: "frame_cap env = 32752" "half (initial_window_bytes env) = 32768"
    by (simp_all add: env_def frame_cap_def max_output_frame_payload_bytes_def half_def initial_window_bytes_def
        host_merge_cap_bytes_def env_int_def)
  have "replay_messages env 0 b = [Output 2 (vt_bytes (opener_token 1049) @ filling)]"
    unfolding b_def filling_def by (rule evicted_head) (simp add: cap)
  moreover have "length (vt_bytes (opener_token 1049)) = 8" by (simp add: opener_token_def mode_digits)
  ultimately show ?thesis
    by (simp add: cap wire_byte_count_def filling_def entering_alt_def vt_stream_def)
qed



end
