(* ===== verification/Client_Driver.thy ===== *)
theory Client_Driver
  imports Mux_Envelope
begin

text \<open>
  One pane's client: the sequence arithmetic \<open>slopdesk-clientsession/src/seq.rs\<close>, its gates
  \<open>gates.rs\<close>, and the state transitions the driver \<open>slopdesk-clientdriver/src/driver.rs\<close>,
  \<open>state.rs\<close> makes under its lock. Each definition of the driver is one critical section of the code,
  with the effect it chooses as a result.
\<close>

section \<open>The marks\<close>

datatype resume_outcome = Undetermined | FreshShell | ResumedSession

fun resume_outcome_code :: "resume_outcome \<Rightarrow> u8" where
  "resume_outcome_code Undetermined = 0"
| "resume_outcome_code FreshShell = 1"
| "resume_outcome_code ResumedSession = 2"

definition resume_outcome_from_code :: "u8 \<Rightarrow> resume_outcome" where
  "resume_outcome_from_code code =
    (if code = 1 then FreshShell else if code = 2 then ResumedSession else Undetermined)"

datatype delivery = Duplicate | Accepted

datatype adoption = MarksKept | MarksReset

record session =
  highest_fed :: int
  highest_contiguous :: int
  presented_resume_seq :: int
  outcome :: resume_outcome
  ack_pending :: bool

definition session_seeded :: "int \<Rightarrow> session" where
  "session_seeded last_seq =
    \<lparr>highest_fed = last_seq, highest_contiguous = last_seq, presented_resume_seq = 0,
     outcome = Undetermined, ack_pending = False\<rparr>"

definition session_adopt :: "int \<Rightarrow> int \<Rightarrow> session \<Rightarrow> adoption \<times> session" where
  "session_adopt presented resume_from_seq s =
    (let (verdict, s) =
           (if resume_from_seq = 0
            then (MarksReset, s\<lparr>highest_fed := 0, highest_contiguous := 0, ack_pending := False\<rparr>)
            else (MarksKept, s))
     in (verdict, s\<lparr>presented_resume_seq := presented, outcome := Undetermined\<rparr>))"

definition session_deliver :: "int \<Rightarrow> session \<Rightarrow> delivery \<times> session" where
  "session_deliver n s =
    (let s = (if outcome s = Undetermined
              then s\<lparr>outcome := (if 0 < presented_resume_seq s \<and> presented_resume_seq s < n
                                then ResumedSession else FreshShell)\<rparr>
              else s)
     in if n \<le> highest_fed s then (Duplicate, s)
        else
          let s = s\<lparr>highest_fed := n\<rparr>;
              s = (if highest_contiguous s < n then s\<lparr>highest_contiguous := n\<rparr> else s)
          in (Accepted, s\<lparr>ack_pending := True\<rparr>))"

definition session_ack :: "session \<Rightarrow> int option \<times> session" where
  "session_ack s =
    (if \<not> ack_pending s then (None, s)
     else
       let s = s\<lparr>ack_pending := False\<rparr>
       in (if 0 < highest_contiguous s then Some (highest_contiguous s) else None, s))"

definition session_ack_failed :: "session \<Rightarrow> session" where
  "session_ack_failed s = s\<lparr>ack_pending := True\<rparr>"

definition session_stream_ended :: "session \<Rightarrow> session" where
  "session_stream_ended s = s\<lparr>outcome := Undetermined\<rparr>"

section \<open>The gates\<close>

datatype refusal = Refused_Closed | Refused_ChildExited | Refused_HostClosed

fun refusal_code :: "refusal \<Rightarrow> u8" where
  "refusal_code Refused_Closed = 1"
| "refusal_code Refused_ChildExited = 2"
| "refusal_code Refused_HostClosed = 3"

definition refusal_from_code :: "u8 \<Rightarrow> refusal option" where
  "refusal_from_code code =
    (if code = 1 then Some Refused_Closed else if code = 2 then Some Refused_ChildExited
     else if code = 3 then Some Refused_HostClosed else None)"

fun refusal_reason :: "refusal \<Rightarrow> string" where
  "refusal_reason Refused_Closed = ''connect after close''"
| "refusal_reason Refused_ChildExited = ''connect after child exit''"
| "refusal_reason Refused_HostClosed = ''connect after host closed the channel''"

definition connect_refusal :: "bool \<Rightarrow> bool \<Rightarrow> bool \<Rightarrow> refusal option" where
  "connect_refusal is_closed exited host_closed =
    (if is_closed then Some Refused_Closed else if exited then Some Refused_ChildExited
     else if host_closed then Some Refused_HostClosed else None)"

definition adopts :: "bool \<Rightarrow> bool \<Rightarrow> bool \<Rightarrow> bool \<Rightarrow> bool" where
  "adopts is_closed is_paused cancelled superseded \<longleftrightarrow> \<not> is_closed \<and> \<not> is_paused \<and> \<not> cancelled \<and> \<not> superseded"

definition announces_drop :: "bool \<Rightarrow> bool \<Rightarrow> bool \<Rightarrow> bool" where
  "announces_drop is_closed tearing_down exited \<longleftrightarrow> \<not> is_closed \<and> \<not> tearing_down \<and> \<not> exited"

definition campaign_runs :: "bool \<Rightarrow> bool \<Rightarrow> bool \<Rightarrow> bool \<Rightarrow> bool" where
  "campaign_runs is_paused is_closed exited host_closed \<longleftrightarrow> \<not> is_paused \<and> \<not> is_closed \<and> \<not> exited \<and> \<not> host_closed"

section \<open>The driver's state\<close>

record chunk =
  chunk_bytes :: bytes
  chunk_wire_bytes :: nat

record staged_output =
  staged_seq :: int
  staged_bytes :: bytes
  staged_wire_bytes :: nat

text \<open>The transport is a handle of the network layer: whether there is one is what the state decides on.\<close>

record driver =
  marks :: session
  has_transport :: bool
  epoch :: nat
  has_endpoint :: bool
  inbox :: "chunk list"
  staged :: "staged_output list"
  closed :: bool
  paused :: bool
  child_exited :: bool
  host_close_reason :: "mux_close_reason option"

text \<open>A new driver, on a fresh session or the seed of a restored pane.\<close>

definition driver_new :: "int option \<Rightarrow> driver" where
  "driver_new seed =
    \<lparr>marks = session_seeded (case seed of None \<Rightarrow> 0 | Some last_seq \<Rightarrow> last_seq), has_transport = False, epoch = 0,
     has_endpoint = False, inbox = [], staged = [], closed = False, paused = False, child_exited = False,
     host_close_reason = None\<rparr>"

text \<open>The fold of one inbound output. The results are the credit to give back at once, whether the near
  side is woken, and whether the ack ticker is armed.\<close>

definition deliver_output :: "nat \<Rightarrow> int \<Rightarrow> bytes \<Rightarrow> nat \<Rightarrow> driver \<Rightarrow> (nat option \<times> bool \<times> bool) \<times> driver" where
  "deliver_output of_epoch n bs wire_bytes d =
    (if epoch d \<noteq> of_epoch then ((None, False, False), d)
     else
       let armed_before = ack_pending (marks d) in
       if \<not> has_transport d
       then ((None, False, False),
         d\<lparr>staged := staged d @ [\<lparr>staged_seq = n, staged_bytes = bs, staged_wire_bytes = wire_bytes\<rparr>]\<rparr>)
       else
         (case session_deliver n (marks d) of
            (Accepted, s) \<Rightarrow>
              ((None, True, \<not> armed_before \<and> ack_pending s),
               d\<lparr>marks := s, inbox := inbox d @ [\<lparr>chunk_bytes = bs, chunk_wire_bytes = wire_bytes\<rparr>]\<rparr>)
          | (Duplicate, s) \<Rightarrow> ((Some wire_bytes, False, False), d\<lparr>marks := s\<rparr>)))"

definition deliver_exit :: "nat \<Rightarrow> driver \<Rightarrow> bool \<times> driver" where
  "deliver_exit of_epoch d = (if epoch d \<noteq> of_epoch then (False, d) else (True, d\<lparr>child_exited := True\<rparr>))"

text \<open>The staged outputs folded at adoption, with the credit of the duplicates and whether any was new.\<close>

fun fold_staged :: "staged_output list \<Rightarrow> (nat \<times> bool) \<times> driver \<Rightarrow> (nat \<times> bool) \<times> driver" where
  "fold_staged [] acc = acc"
| "fold_staged (e # es) ((credit, accepted), d) =
    fold_staged es
      (case session_deliver (staged_seq e) (marks d) of
         (Accepted, s) \<Rightarrow>
           ((credit, True), d\<lparr>marks := s,
             inbox := inbox d @ [\<lparr>chunk_bytes = staged_bytes e, chunk_wire_bytes = staged_wire_bytes e\<rparr>]\<rparr>)
       | (Duplicate, s) \<Rightarrow> ((credit + staged_wire_bytes e, accepted), d\<lparr>marks := s\<rparr>))"

definition driver_adopt :: "int \<Rightarrow> int \<Rightarrow> driver \<Rightarrow> (nat \<times> bool) \<times> driver" where
  "driver_adopt presented resume_from_seq d =
    (let (adoption, s) = session_adopt presented resume_from_seq (marks d);
         d = d\<lparr>has_transport := True, marks := s\<rparr>;
         d = (if adoption = MarksReset then d\<lparr>inbox := map (\<lambda>c. c\<lparr>chunk_wire_bytes := 0\<rparr>) (inbox d)\<rparr> else d)
     in fold_staged (staged d) ((0, False), d\<lparr>staged := []\<rparr>))"

section \<open>Dialling, ending, draining\<close>

text \<open>The first critical section of a connect: a refusal, or the number the open will present.\<close>

definition dial_read :: "driver \<Rightarrow> (refusal + int) \<times> driver" where
  "dial_read d =
    (case connect_refusal (closed d) (child_exited d) (host_close_reason d \<noteq> None) of
       Some r \<Rightarrow> (Inl r, d)
     | None \<Rightarrow> (Inr (highest_contiguous (marks d)), d\<lparr>has_endpoint := True\<rparr>))"

definition driver_teardown :: "driver \<Rightarrow> driver" where
  "driver_teardown d = d\<lparr>epoch := epoch d + 1, staged := [], has_transport := False\<rparr>"

text \<open>Retiring the previous transport and minting the epoch of the new one.\<close>

definition dial_start :: "driver \<Rightarrow> nat \<times> driver" where
  "dial_start d = (let d = driver_teardown d; d = d\<lparr>epoch := epoch d + 1\<rparr> in (epoch d, d))"

definition driver_discard :: "driver \<Rightarrow> driver" where
  "driver_discard d = d\<lparr>epoch := epoch d + 1, staged := []\<rparr>"

text \<open>One inbound stream ended: whether the drop is announced and whether a campaign runs, or nothing for
  the end of a transport that was replaced.\<close>

definition driver_ended :: "nat \<Rightarrow> mux_close_reason option \<Rightarrow> driver \<Rightarrow> (bool \<times> bool) option \<times> driver" where
  "driver_ended of_epoch peer_reason d =
    (if epoch d \<noteq> of_epoch then (None, d)
     else
       let d = (case peer_reason of None \<Rightarrow> d | Some reason \<Rightarrow> d\<lparr>host_close_reason := Some reason\<rparr>);
           d = d\<lparr>marks := session_stream_ended (marks d)\<rparr>;
           announced = announces_drop (closed d) False (child_exited d);
           runs = (announced \<and> campaign_runs (paused d) (closed d) (child_exited d) (host_close_reason d \<noteq> None))
       in (Some (announced, runs), d))"

definition take_output :: "driver \<Rightarrow> (bytes list \<times> nat) \<times> driver" where
  "take_output d =
    (if inbox d = [] then (([], 0), d)
     else ((map chunk_bytes (inbox d), if has_transport d then sum_list (map chunk_wire_bytes (inbox d)) else 0),
           d\<lparr>inbox := []\<rparr>))"

text \<open>The ack flush: the number to send when there is a transport and something is owed, then the outcome
  of the send.\<close>

definition flush_ack :: "bool \<Rightarrow> driver \<Rightarrow> int option \<times> driver" where
  "flush_ack sends d =
    (if \<not> has_transport d then (None, d)
     else
       (case session_ack (marks d) of
          (None, s) \<Rightarrow> (None, d\<lparr>marks := s\<rparr>)
        | (Some n, s) \<Rightarrow>
           (if sends then (Some n, d\<lparr>marks := s\<rparr>) else (None, d\<lparr>marks := session_ack_failed s\<rparr>))))"

definition driver_pause :: "bool \<Rightarrow> driver \<Rightarrow> int option \<times> driver" where
  "driver_pause sends d =
    (if paused d \<or> closed d then (None, d)
     else let (sent, d) = flush_ack sends (d\<lparr>paused := True\<rparr>) in (sent, driver_teardown d))"

definition driver_close :: "bool \<Rightarrow> driver \<Rightarrow> int option \<times> driver" where
  "driver_close sends d =
    (if closed d then (None, d)
     else let (sent, d) = flush_ack sends (d\<lparr>closed := True\<rparr>) in (sent, driver_teardown d))"

datatype resuming = Resume_Nothing | Resume_Reconnect | Resume_Nowhere

definition driver_resume :: "driver \<Rightarrow> resuming \<times> driver" where
  "driver_resume d =
    (if \<not> paused d \<or> closed d \<or> child_exited d then (Resume_Nothing, d)
     else (if has_endpoint d then Resume_Reconnect else Resume_Nowhere, d\<lparr>paused := False\<rparr>))"

section \<open>The retry campaign\<close>

definition MAX_RECONNECT_ATTEMPTS :: nat where "MAX_RECONNECT_ATTEMPTS = 20"

definition exhausted :: "nat \<Rightarrow> bool" where
  "exhausted attempt \<longleftrightarrow> MAX_RECONNECT_ATTEMPTS < attempt"

datatype dial_result = Dial_Ok | Dial_Stop | Dial_Failed

text \<open>One turn: whether a dial was made, and the attempts of the campaign that goes on. The flags are the
  four the gate reads, and \<open>dial\<close> is what the connect would answer.\<close>

definition attempt_retry :: "bool \<Rightarrow> dial_result \<Rightarrow> driver \<Rightarrow> nat option \<Rightarrow> bool \<times> nat option" where
  "attempt_retry has_schedule dial d campaign =
    (case campaign of
       None \<Rightarrow> (False, None)
     | Some attempt \<Rightarrow>
        (if \<not> has_schedule then (False, None)
         else if \<not> campaign_runs (paused d) (closed d) (child_exited d) (host_close_reason d \<noteq> None) then (False, None)
         else if \<not> has_endpoint d then (False, None)
         else
           let attempt = attempt + 1 in
           if exhausted attempt then (False, None)
           else (True, case dial of Dial_Failed \<Rightarrow> Some attempt | _ \<Rightarrow> None)))"

text \<open>Successive turns of one campaign, each with what the connect answers and the state it finds: how many
  dials were made, and the campaign that is left.\<close>

fun campaign_run :: "bool \<Rightarrow> (dial_result \<times> driver) list \<Rightarrow> nat option \<Rightarrow> nat \<times> nat option" where
  "campaign_run has_schedule [] campaign = (0, campaign)"
| "campaign_run has_schedule ((dial, d) # turns) campaign =
    (let (dialled, campaign) = attempt_retry has_schedule dial d campaign;
         (n, left) = campaign_run has_schedule turns campaign
     in ((if dialled then 1 else 0) + n, left))"

lemma attempt_retry_counts:
  "attempt_retry has_schedule dial d campaign = (dialled, campaign') \<Longrightarrow>
    (case campaign of None \<Rightarrow> \<not> dialled \<and> campaign' = None
     | Some n \<Rightarrow> (dialled \<longrightarrow> n < MAX_RECONNECT_ATTEMPTS) \<and> (campaign' \<noteq> None \<longrightarrow> dialled \<and> campaign' = Some (n + 1)))"
  by (auto simp: attempt_retry_def exhausted_def Let_def split: option.splits if_splits dial_result.splits)

lemma campaign_none: "campaign_run has_schedule turns None = (0, None)"
  by (induction turns) (auto simp: attempt_retry_def)

lemma campaign_bound:
  "campaign_run has_schedule turns (Some k) = (n, left) \<Longrightarrow> k \<le> MAX_RECONNECT_ATTEMPTS \<Longrightarrow>
    n + k \<le> MAX_RECONNECT_ATTEMPTS \<and> (left \<noteq> None \<longrightarrow> left = Some (k + length turns) \<and> n = length turns)"
proof (induction turns arbitrary: k n)
  case (Cons turn turns)
  obtain dial d where turn: "turn = (dial, d)" by force
  obtain dialled c where step: "attempt_retry has_schedule dial d (Some k) = (dialled, c)" by force
  obtain m left' where rest: "campaign_run has_schedule turns c = (m, left')" by force
  have n: "n = (if dialled then 1 else 0) + m" "left = left'" using Cons.prems(1) turn step rest by auto
  note count = attempt_retry_counts [OF step, simplified]
  show ?case
  proof (cases c)
    case None
    then show ?thesis using count n rest campaign_none Cons.prems(2) by auto
  next
    case (Some j)
    then have j: "dialled" "j = k + 1" "k < MAX_RECONNECT_ATTEMPTS" using count by auto
    then show ?thesis using Cons.IH [of j m] rest Some n by auto
  qed
qed simp

text \<open>A retry campaign ends: whatever the connects answer and whatever happens to the client meanwhile, a
  campaign makes at most twenty dials, and after twenty-one turns it is over.\<close>

theorem campaign_gives_up:
  "fst (campaign_run has_schedule turns (Some 0)) \<le> MAX_RECONNECT_ATTEMPTS \<and>
    (if length turns \<le> MAX_RECONNECT_ATTEMPTS then True else snd (campaign_run has_schedule turns (Some 0)) = None)"
proof -
  obtain n left where "campaign_run has_schedule turns (Some 0) = (n, left)" by force
  from campaign_bound [OF this] this show ?thesis by (cases left) auto
qed

end
