(* ===== verification/Host_Open.thy ===== *)
theory Host_Open
  imports Mux_Envelope
begin

text \<open>
  Where an inbound open goes, \<open>slopdesk-muxsession/src/open_route.rs\<close>: the route of a
  \<open>channelOpen\<close>, the resume verdict, the repaint, and what becomes of a pane that outlived its
  host.
\<close>

datatype incumbent = Nobody | ThisKey | OtherKey

datatype open_route =
    Route_Workspace | Route_Decline | Route_RefuseStopping | Route_ReAck | Route_Join | Route_Claim | Route_SpawnFresh

record open_facts =
  of_channel_class :: u8
  of_incumbent :: incumbent
  of_stopping :: bool
  of_real_session_id :: bool
  of_detached_store :: bool

definition route_open :: "open_facts \<Rightarrow> open_route" where
  "route_open facts =
    (case class_from_byte (of_channel_class facts) of
       Some Workspace \<Rightarrow> Route_Workspace
     | None \<Rightarrow> Route_Decline
     | Some Pane \<Rightarrow>
        (if of_stopping facts then Route_RefuseStopping
         else if of_incumbent facts = ThisKey then Route_ReAck
         else if of_incumbent facts = OtherKey \<and> of_real_session_id facts then Route_Join
         else if of_real_session_id facts \<and> of_detached_store facts then Route_Claim
         else Route_SpawnFresh))"

datatype claim = Claimed | ReapedDeadChild | NotFound

datatype settled = Settled_Reattach | Settled_ReapThenSpawn | Settled_SpawnFresh

fun settle_claim :: "claim \<Rightarrow> settled" where
  "settle_claim Claimed = Settled_Reattach"
| "settle_claim ReapedDeadChild = Settled_ReapThenSpawn"
| "settle_claim NotFound = Settled_SpawnFresh"

definition resume_from :: "int \<Rightarrow> int \<Rightarrow> int" where
  "resume_from last_received_seq highest_assigned_seq =
    (if last_received_seq < highest_assigned_seq then last_received_seq else highest_assigned_seq)"

datatype redraw = Nudge | Jiggle

definition redraw_for :: "bool \<Rightarrow> bool \<Rightarrow> redraw" where
  "redraw_for cold_client snapshot_composed = (if cold_client \<and> \<not> snapshot_composed then Jiggle else Nudge)"

definition restores_transcript :: "bool \<Rightarrow> int \<Rightarrow> bool" where
  "restores_transcript real_session_id last_received_seq \<longleftrightarrow> real_session_id \<and> last_received_seq = 0"

definition FROM_NOW_ON :: u64 where "FROM_NOW_ON = - 1"

record survivor_resume =
  sr_offset :: u64
  sr_unpositioned :: bool

definition survivor_resume_at :: "u64 \<Rightarrow> u64 option \<Rightarrow> survivor_resume" where
  "survivor_resume_at stored_bytes head =
    (if stored_bytes = 0 then \<lparr>sr_offset = 0, sr_unpositioned = False\<rparr>
     else case head of
            Some h \<Rightarrow> \<lparr>sr_offset = h, sr_unpositioned = False\<rparr>
          | None \<Rightarrow> \<lparr>sr_offset = FROM_NOW_ON, sr_unpositioned = True\<rparr>)"

definition ownership_allows_adoption :: "string \<Rightarrow> string \<Rightarrow> bool" where
  "ownership_allows_adoption owner ours \<longleftrightarrow> owner = [] \<or> owner = ours"

section \<open>Laws\<close>

lemma resume_from_min: "resume_from a b = min a b"
  by (simp add: resume_from_def)

end
