(* ===== verification/Resume.thy ===== *)
theory Resume
  imports Replay_Run Client_Driver Host_Open
begin

text \<open>
  A pane's output across dropped connections: the host's replay buffer, the channel to the client and the
  client driver, as one system of steps. The host appends, sends what it appended to the attached client
  (\<open>slopdesk-hostsession/src/shared.rs\<close>, \<open>sequence\<close>), and answers a returning client
  by the resume verdict and the replay after it (\<open>slopdesk-hostserver/src/channel.rs\<close>,
  \<open>perform_reattach\<close>); the client folds, stages, acks, drains and re-dials.
\<close>

section \<open>What a client relies on\<close>


section \<open>The host's buffer is such a store\<close>

definition host_holds :: "bytes list \<Rightarrow> replay_buffer \<Rightarrow> bool" where
  "host_holds h b \<longleftrightarrow> replay_inv b \<and> history_inv h b \<and> scrollback_distiller b = None"

text \<open>What a raw replay carries.\<close>

fun output_of :: "wire_message \<Rightarrow> (int \<times> bytes) list" where
  "output_of (Output s bs) = [(s, bs)]"
| "output_of _ = []"

definition outputs_of :: "wire_message list \<Rightarrow> (int \<times> bytes) list" where
  "outputs_of ms = concat (map output_of ms)"









section \<open>The system\<close>











section \<open>The invariant\<close>








section \<open>Preservation\<close>









lemma outputs_of_simps [simp]:
  "outputs_of [] = []" "outputs_of (Output s bs # ms) = (s, bs) # outputs_of ms"
  "outputs_of (ms @ ms') = outputs_of ms @ outputs_of ms'"
  by (simp_all add: outputs_of_def)















lemma host_online [simp]: "host_holds h (set_client_online v b) = host_holds h b"
  by (simp add: host_holds_def history_inv_def tail_pairs_def) (simp add: set_client_online_def)

lemma online_fields [simp]:
  "acked_seq (set_client_online v b) = acked_seq b" "highest_seq (set_client_online v b) = highest_seq b"
  by (simp_all add: set_client_online_def)















section \<open>Catching up\<close>

text \<open>The client of these runs is open, its child lives and the host has not closed its channel.\<close>

definition in_service :: "driver \<Rightarrow> bool" where
  "in_service d \<longleftrightarrow> \<not> closed d \<and> \<not> child_exited d \<and> host_close_reason d = None"

lemma in_service_simps [simp]:
  "in_service (d\<lparr>marks := s\<rparr>) = in_service d" "in_service (d\<lparr>inbox := cs\<rparr>) = in_service d"
  "in_service (d\<lparr>staged := es\<rparr>) = in_service d" "in_service (d\<lparr>has_transport := t\<rparr>) = in_service d"
  "in_service (d\<lparr>epoch := n\<rparr>) = in_service d" "in_service (d\<lparr>has_endpoint := p\<rparr>) = in_service d"
  by (simp_all add: in_service_def)

lemma deliver_service [simp]: "in_service (snd (deliver_output e s bs cost d)) = in_service d"
  by (simp add: deliver_output_def Let_def split: prod.split delivery.split)










section \<open>Properties\<close>









text \<open>C35. A clamped verdict silences the client: when a warm client comes back to a pane whose numbers stop
  short of its mark but are not zero, the verdict is that lower number, the client keeps its mark, and
  drops every output up to it.\<close>

theorem clamped_verdict_silences_the_client:
  assumes "0 < highest" "highest < m"
  shows "let s = snd (session_adopt m (resume_from m highest) (session_seeded m)) in
    list_all (\<lambda>n. fst (session_deliver n s) = Duplicate) [highest + 1..m]"
  using assms by (simp add: resume_from_def session_adopt_def session_seeded_def session_deliver_def list_all_iff Let_def)

theorem clamped_verdict_silences_the_client_witness:
  "let s = snd (session_adopt 4000 (resume_from 4000 12) (session_seeded 4000)) in
    list_all (\<lambda>n. fst (session_deliver n s) = Duplicate) [12 + 1..4000]"
  by (rule clamped_verdict_silences_the_client) simp_all

end
