(* ===== verification/Btree_Map.thy ===== *)
theory Btree_Map
  imports Prelude
begin

text \<open>
  \<open>BTreeMap\<close> as an association list in ascending key order: insertion, removal, an update in place, and
  the laws the components share. Iteration in key order is iteration over the list, \<open>get\<close> is \<open>map_of\<close>.
\<close>

fun bt_insert :: "'k::linorder \<Rightarrow> 'v \<Rightarrow> ('k \<times> 'v) list \<Rightarrow> ('k \<times> 'v) list" where
  "bt_insert k v [] = [(k, v)]"
| "bt_insert k v ((k', v') # xs) =
    (if k < k' then (k, v) # (k', v') # xs else if k = k' then (k, v) # xs else (k', v') # bt_insert k v xs)"

definition bt_remove :: "'k \<Rightarrow> ('k \<times> 'v) list \<Rightarrow> ('k \<times> 'v) list" where
  "bt_remove k xs = filter (\<lambda>p. fst p \<noteq> k) xs"

text \<open>\<open>get_mut\<close> and a change in place.\<close>

definition bt_update :: "'k \<Rightarrow> ('v \<Rightarrow> 'v) \<Rightarrow> ('k \<times> 'v) list \<Rightarrow> ('k \<times> 'v) list" where
  "bt_update k f xs = map (\<lambda>p. if fst p = k then (k, f (snd p)) else p) xs"

definition bt_sorted :: "('k::linorder \<times> 'v) list \<Rightarrow> bool" where
  "bt_sorted xs \<longleftrightarrow> sorted_wrt (<) (map fst xs)"

lemma bt_insert_keys: "set (map fst (bt_insert k v xs)) = insert k (set (map fst xs))"
  by (induction k v xs rule: bt_insert.induct) auto

lemma bt_insert_sorted: "bt_sorted xs \<Longrightarrow> bt_sorted (bt_insert k v xs)"
proof (induction xs)
  case (Cons p xs)
  obtain k' v' where p: "p = (k', v')" by force
  have "set (map fst (bt_insert k v xs)) = insert k (set (map fst xs))" by (rule bt_insert_keys)
  then show ?case using Cons p by (auto simp: bt_sorted_def)
qed (simp add: bt_sorted_def)

lemma bt_update_keys [simp]: "map fst (bt_update k f xs) = map fst xs"
  by (induction xs) (simp_all add: bt_update_def)

lemma bt_update_lookup: "map_of (bt_update k f xs) k' = (if k' = k then map_option f (map_of xs k') else map_of xs k')"
  by (induction xs) (auto simp: bt_update_def)

lemma bt_remove_lookup: "map_of (bt_remove k xs) k' = (if k' = k then None else map_of xs k')"
  by (induction xs) (auto simp: bt_remove_def)

lemma bt_insert_lookup: "map_of (bt_insert k v xs) k' = (if k' = k then Some v else map_of xs k')" if "bt_sorted xs"
  using that
proof (induction k v xs rule: bt_insert.induct)
  case (2 k v k0 v0 xs)
  have "k < k0 \<Longrightarrow> map_of xs k = None" using 2(2) by (force simp: bt_sorted_def map_of_eq_None_iff)
  then show ?case using 2 by (auto simp: bt_sorted_def)
qed simp

lemma bt_remove_sorted: "bt_sorted xs \<Longrightarrow> bt_sorted (bt_remove k xs)"
  by (induction xs) (auto simp: bt_sorted_def bt_remove_def)

lemma bt_update_sorted: "bt_sorted xs \<Longrightarrow> bt_sorted (bt_update k f xs)"
  by (simp add: bt_sorted_def)

lemma bt_sorted_distinct: "bt_sorted xs \<Longrightarrow> distinct (map fst xs)"
  by (simp add: bt_sorted_def strict_sorted_iff)

lemma bt_sorted_lookup: "bt_sorted xs \<Longrightarrow> (k, v) \<in> set xs \<longleftrightarrow> map_of xs k = Some v"
  by (metis bt_sorted_distinct map_of_eq_Some_iff)

text \<open>Two maps with the same answers are the same list.\<close>

lemma bt_ext:
  assumes "bt_sorted xs" "bt_sorted ys" "map_of xs = map_of ys"
  shows "xs = ys"
proof (rule map_sorted_distinct_set_unique)
  have "set xs = set ys" using assms bt_sorted_lookup by (metis subset_antisym subrelI)
  moreover have "inj_on fst (set ys)" using bt_sorted_distinct [OF assms(2)] by (simp add: distinct_map)
  ultimately show "set xs = set ys" "inj_on fst (set xs \<union> set ys)" by simp_all
qed (use assms in \<open>simp_all add: bt_sorted_def strict_sorted_iff\<close>)

lemma bt_map_filter_sorted: "bt_sorted xs \<Longrightarrow> bt_sorted (filter P xs)"
  by (induction xs) (auto simp: bt_sorted_def)

lemma bt_filter_lookup: "bt_sorted xs \<Longrightarrow> map_of (filter P xs) k = (case map_of xs k of None \<Rightarrow> None | Some v \<Rightarrow> if P (k, v) then Some v else None)"
proof (induction xs)
  case (Cons x xs)
  then have "map_of xs (fst x) = None" by (force simp: bt_sorted_def map_of_eq_None_iff)
  then show ?case using Cons by (cases x) (auto simp: bt_sorted_def)
qed simp

text \<open>Inserting a whole list: a later pair for a key wins.\<close>

lemma bt_insert_all:
  assumes "bt_sorted m"
  shows "bt_sorted (fold (\<lambda>(k, v). bt_insert k v) kvs m)"
    "map_of (fold (\<lambda>(k, v). bt_insert k v) kvs m) = map_of m ++ map_of (rev kvs)"
  using assms
proof (induction kvs arbitrary: m)
  case (Cons kv kvs)
  {
    case 1
    then show ?case using Cons.IH(1) by (simp add: case_prod_beta bt_insert_sorted)
  next
    case 2
    have "map_of (bt_insert (fst kv) (snd kv) m) = (map_of m)(fst kv \<mapsto> snd kv)"
      using 2 by (auto simp: bt_insert_lookup)
    then show ?case using 2 Cons.IH(2) [of "bt_insert (fst kv) (snd kv) m"]
      by (simp add: case_prod_beta bt_insert_sorted) (simp add: map_add_def fun_eq_iff split: option.split)
  }
qed simp_all

lemma bt_remove_all:
  "map_of (fold bt_remove ks m) k = (if k \<in> set ks then None else map_of m k)"
  "bt_sorted m \<Longrightarrow> bt_sorted (fold bt_remove ks m)"
  by (induction ks arbitrary: m) (auto simp: bt_remove_lookup bt_remove_sorted)

end
