(* ===== verification/Fanout.thy ===== *)
theory Fanout
  imports Replay_Run Btree_Map
begin

text \<open>
  The subscriber set of one pane, \<open>slopdesk-muxsession/src/fanout.rs\<close>, and how the session's shared
  state composes it with the replay buffer, \<open>slopdesk-hostsession/src/shared.rs\<close>: retention released
  to the slowest member, the laggards priced and latched for eviction. A \<open>BTreeMap\<close> is an
  association list in ascending key order.
\<close>

section \<open>The set\<close>

record member =
  m_acked :: int
  m_sent :: int
  m_has_sender :: bool
  m_exit_delivered :: bool
  m_evicting :: bool

record cursor =
  cursor_id :: u64
  cursor_acked :: int

record priced =
  priced_id :: u64
  priced_bytes :: u64

record fanout =
  members :: "(u64 \<times> member) list"
  next_id :: u64

definition fanout_new :: fanout where
  "fanout_new = \<lparr>members = [], next_id = 1\<rparr>"

definition reserve_id :: "fanout \<Rightarrow> u64 \<times> fanout" where
  "reserve_id f = (next_id f, f\<lparr>next_id := next_id f + 1\<rparr>)"

definition member_default :: member where
  "member_default = \<lparr>m_acked = 0, m_sent = 0, m_has_sender = False, m_exit_delivered = False, m_evicting = False\<rparr>"

definition fanout_join :: "u64 \<Rightarrow> int \<Rightarrow> fanout \<Rightarrow> fanout" where
  "fanout_join k acked f = f\<lparr>members := bt_insert k (member_default\<lparr>m_acked := acked\<rparr>) (members f)\<rparr>"

definition fanout_leave :: "u64 \<Rightarrow> fanout \<Rightarrow> bool \<times> fanout" where
  "fanout_leave k f = (let ms = bt_remove k (members f) in (ms = [], f\<lparr>members := ms\<rparr>))"

definition fanout_ids :: "fanout \<Rightarrow> u64 list" where
  "fanout_ids f = map fst (members f)"

text \<open>\<open>Iterator::min\<close> and \<open>Iterator::max\<close>.\<close>

definition least_of :: "int list \<Rightarrow> int option" where
  "least_of xs = (case xs of [] \<Rightarrow> None | x # ys \<Rightarrow> Some (fold min ys x))"

definition greatest_of :: "int list \<Rightarrow> int option" where
  "greatest_of xs = (case xs of [] \<Rightarrow> None | x # ys \<Rightarrow> Some (fold max ys x))"

definition retention_floor :: "fanout \<Rightarrow> int option" where
  "retention_floor f = least_of (map (\<lambda>p. m_acked (snd p)) (members f))"

definition fanout_acknowledge :: "u64 \<Rightarrow> int \<Rightarrow> fanout \<Rightarrow> int option \<times> fanout" where
  "fanout_acknowledge k n f =
    (let f = f\<lparr>members := bt_update k (\<lambda>m. m\<lparr>m_acked := n\<rparr>) (members f)\<rparr> in (retention_floor f, f))"

definition start_sender :: "u64 \<Rightarrow> int \<Rightarrow> fanout \<Rightarrow> bool \<times> fanout" where
  "start_sender k head f =
    (case map_of (members f) k of
       None \<Rightarrow> (False, f)
     | Some m \<Rightarrow>
        (if m_has_sender m then (False, f)
         else (True, f\<lparr>members := bt_update k (\<lambda>m. m\<lparr>m_has_sender := True, m_sent := head\<rparr>) (members f)\<rparr>)))"

definition clear_sender :: "u64 \<Rightarrow> fanout \<Rightarrow> fanout" where
  "clear_sender k f = f\<lparr>members := bt_update k (\<lambda>m. m\<lparr>m_has_sender := False\<rparr>) (members f)\<rparr>"

definition note_sent :: "u64 \<Rightarrow> int \<Rightarrow> fanout \<Rightarrow> fanout" where
  "note_sent k n f = f\<lparr>members := bt_update k (\<lambda>m. if m_sent m < n then m\<lparr>m_sent := n\<rparr> else m) (members f)\<rparr>"

definition frontier :: "fanout \<Rightarrow> int option" where
  "frontier f = greatest_of (map (\<lambda>p. m_sent (snd p)) (filter (\<lambda>p. m_has_sender (snd p)) (members f)))"

definition mark_exit_delivered :: "u64 \<Rightarrow> fanout \<Rightarrow> fanout" where
  "mark_exit_delivered k f = f\<lparr>members := bt_update k (\<lambda>m. m\<lparr>m_exit_delivered := True\<rparr>) (members f)\<rparr>"

definition exit_pending :: "u64 \<Rightarrow> fanout \<Rightarrow> bool" where
  "exit_pending k f = (case map_of (members f) k of None \<Rightarrow> False | Some m \<Rightarrow> \<not> m_exit_delivered m)"

definition lagging_cursors :: "u64 \<Rightarrow> fanout \<Rightarrow> cursor list" where
  "lagging_cursors lag_bytes f =
    (if lag_bytes = 0 \<or> length (members f) < 2 then []
     else case greatest_of (map (\<lambda>p. m_acked (snd p)) (members f)) of
            None \<Rightarrow> []
          | Some healthiest \<Rightarrow>
             map (\<lambda>p. \<lparr>cursor_id = fst p, cursor_acked = m_acked (snd p)\<rparr>)
               (filter (\<lambda>p. m_acked (snd p) \<noteq> healthiest) (members f)))"

fun latch_loop :: "priced list \<Rightarrow> u64 list \<times> fanout \<Rightarrow> u64 list \<times> fanout" where
  "latch_loop [] acc = acc"
| "latch_loop (e # es) (claimed, f) =
    latch_loop es
      (case map_of (members f) (priced_id e) of
         None \<Rightarrow> (claimed, f)
       | Some m \<Rightarrow>
          (if m_evicting m then (claimed, f)
           else (claimed @ [priced_id e], f\<lparr>members := bt_update (priced_id e) (\<lambda>m. m\<lparr>m_evicting := True\<rparr>) (members f)\<rparr>)))"

definition latch_evicting :: "priced list \<Rightarrow> u64 \<Rightarrow> fanout \<Rightarrow> u64 list \<times> fanout" where
  "latch_evicting offers lag_bytes f =
    (if lag_bytes = 0 then ([], f)
     else latch_loop (filter (\<lambda>e. lag_bytes < priced_bytes e) offers) ([], f))"

section \<open>The set over the buffer\<close>

text \<open>The two fields of the shared state these operations move. The pause they publish is the buffer's
  gate.\<close>

record pane =
  roster :: fanout
  buffer :: replay_buffer

definition saturating_u64 :: "nat \<Rightarrow> u64" where
  "saturating_u64 n = (if n < 2 ^ 64 then word_of_nat n else - 1)"

definition pane_sequence :: "bytes \<Rightarrow> pane \<Rightarrow> int \<times> u64 list \<times> pane" where
  "pane_sequence bs p =
    (let (s, b) = append_output bs (buffer p) in (s, fanout_ids (roster p), p\<lparr>buffer := b\<rparr>))"

definition pane_evict_lagging :: "u64 \<Rightarrow> pane \<Rightarrow> u64 list \<times> pane" where
  "pane_evict_lagging lag_bytes p =
    (let behind = lagging_cursors lag_bytes (roster p) in
     if behind = [] then ([], p)
     else
       let offers = map (\<lambda>c. \<lparr>priced_id = cursor_id c,
             priced_bytes = saturating_u64 (retained_bytes_above (cursor_acked c) (buffer p))\<rparr>) behind;
           (doomed, f) = latch_evicting offers lag_bytes (roster p)
       in (doomed, p\<lparr>roster := f\<rparr>))"

text \<open>An ack takes the locks of the set, the buffer and the set again one after the other; here they are one step.\<close>

definition pane_acknowledge :: "u64 \<Rightarrow> u64 \<Rightarrow> int \<Rightarrow> pane \<Rightarrow> bool \<times> u64 list \<times> pane" where
  "pane_acknowledge lag_bytes k n p =
    (let (least, f) = fanout_acknowledge k n (roster p);
         floor = (case least of None \<Rightarrow> n | Some m \<Rightarrow> m);
         b = ack_output floor (buffer p);
         (doomed, p) = pane_evict_lagging lag_bytes (p\<lparr>roster := f, buffer := b\<rparr>)
     in (should_pause_drain b, doomed, p))"

definition release_retention_to_minimum :: "pane \<Rightarrow> bool \<times> pane" where
  "release_retention_to_minimum p =
    (let b = (case retention_floor (roster p) of None \<Rightarrow> buffer p | Some floor \<Rightarrow> ack_output floor (buffer p))
     in (should_pause_drain b, p\<lparr>buffer := b\<rparr>))"

definition pane_admit :: "u64 \<Rightarrow> int \<Rightarrow> pane \<Rightarrow> pane" where
  "pane_admit k acked p = p\<lparr>roster := fanout_join k acked (roster p)\<rparr>"

text \<open>A join: the frames the render missed, the seed of the cursor, the member. A detached session and an
  empty set refuse it.\<close>

definition pane_admit_joiner :: "bool \<Rightarrow> u64 option \<Rightarrow> int \<Rightarrow> pane \<Rightarrow> (u64 \<times> wire_message list \<times> int) option \<times> pane" where
  "pane_admit_joiner detached reserved composed_through p =
    (if detached \<or> members (roster p) = [] then (None, p)
     else
       let catch_up = map as_output (output_messages composed_through (buffer p));
           head = highest_seq (buffer p);
           (k, f) = (case reserved of Some k \<Rightarrow> (k, roster p) | None \<Rightarrow> reserve_id (roster p))
       in (Some (k, catch_up, head), p\<lparr>roster := fanout_join k head f\<rparr>))"

text \<open>\<open>incumbent\<close>: the roster still holds the very handle that retires, not its replacement.\<close>

definition pane_retire :: "u64 \<Rightarrow> bool \<Rightarrow> pane \<Rightarrow> bool \<times> pane" where
  "pane_retire k incumbent p =
    (if \<not> incumbent then (members (roster p) = [], p)
     else let (emptied, f) = fanout_leave k (roster p) in (emptied, p\<lparr>roster := f\<rparr>))"

text \<open>The end of a member: it leaves, the online truth is re-derived from the set, and the floor moves.\<close>

definition remove_subscriber :: "u64 \<Rightarrow> pane \<Rightarrow> bool \<times> pane" where
  "remove_subscriber k p =
    (if map_of (members (roster p)) k = None then (members (roster p) = [], p)
     else
       let (emptied, p) = pane_retire k True p;
           p = p\<lparr>buffer := set_client_online (members (roster p) \<noteq> []) (buffer p)\<rparr>;
           (pause, p) = release_retention_to_minimum p
       in (emptied, p))"

section \<open>Laws\<close>

lemma least_of_le: "least_of xs = Some n \<Longrightarrow> x \<in> set xs \<Longrightarrow> n \<le> x"
  by (auto simp: least_of_def Min.set_eq_fold [symmetric] simp del: Min_insert split: list.splits)

lemma greatest_of_in: "greatest_of xs = Some n \<Longrightarrow> n \<in> set xs"
  using Max_in [OF finite_set, of xs]
  by (cases xs) (auto simp: greatest_of_def Max.set_eq_fold [symmetric] simp del: Max_insert)

lemma least_of_some: "xs \<noteq> [] \<Longrightarrow> \<exists>n. least_of xs = Some n"
  by (cases xs) (simp_all add: least_of_def)

lemma floor_below_member:
  assumes "retention_floor f = Some n" "map_of (members f) k = Some m"
  shows "n \<le> m_acked m"
proof -
  have "m_acked m \<in> set (map (\<lambda>p. m_acked (snd p)) (members f))" using map_of_SomeD [OF assms(2)] by force
  then show ?thesis using assms(1) least_of_le unfolding retention_floor_def by blast
qed

lemma floor_exists: "map_of (members f) k = Some m \<Longrightarrow> \<exists>n. retention_floor f = Some n"
  unfolding retention_floor_def by (rule least_of_some) auto

text \<open>A release to a floor keeps everything above it.\<close>

lemma ack_keeps_above:
  assumes "replay_inv b" "e \<in> set (tail_pairs b)" "n < fst e"
  shows "e \<in> set (tail_pairs (ack_output n b))"
proof -
  have "acked_seq b < fst e" using assms(1,2) by (auto simp: replay_inv_def replay_core_def tail_pairs_def)
  then show ?thesis using assms tail_pairs_ack(1,2) [OF assms(1), of n] by simp
qed

lemma evict_lagging_buffer [simp]: "buffer (snd (pane_evict_lagging lag_bytes p)) = buffer p"
  by (simp add: pane_evict_lagging_def Let_def split: prod.split)

lemma acknowledge_buffer:
  "buffer (snd (snd (pane_acknowledge lag_bytes k n p))) =
    ack_output (case fst (fanout_acknowledge k n (roster p)) of None \<Rightarrow> n | Some m \<Rightarrow> m) (buffer p)"
proof -
  obtain least f where a: "fanout_acknowledge k n (roster p) = (least, f)" by force
  let ?b = "ack_output (case least of None \<Rightarrow> n | Some m \<Rightarrow> m) (buffer p)"
  obtain doomed p' where e: "pane_evict_lagging lag_bytes (p\<lparr>roster := f, buffer := ?b\<rparr>) = (doomed, p')" by force
  have "buffer p' = ?b" using evict_lagging_buffer [of lag_bytes "p\<lparr>roster := f, buffer := ?b\<rparr>"] e by simp
  then show ?thesis using a e by (simp add: pane_acknowledge_def Let_def)
qed

lemma latch_loop_members: "members (snd (latch_loop es acc)) = [] \<longleftrightarrow> members (snd acc) = []"
  by (induction es acc rule: latch_loop.induct) (auto simp: bt_update_def split: option.splits)

lemma latch_members: "latch_evicting offers lag_bytes f = (doomed, f') \<Longrightarrow> members f' = [] \<longleftrightarrow> members f = []"
proof -
  assume e: "latch_evicting offers lag_bytes f = (doomed, f')"
  then have "f' = snd (latch_evicting offers lag_bytes f)" by simp
  then show ?thesis using latch_loop_members [of _ "([], f)"] by (simp add: latch_evicting_def)
qed

lemma evict_lagging_members: "members (roster (snd (pane_evict_lagging lag_bytes p))) = [] \<longleftrightarrow> members (roster p) = []"
proof (cases "lagging_cursors lag_bytes (roster p) = []")
  case False
  let ?offers = "map (\<lambda>c. \<lparr>priced_id = cursor_id c, priced_bytes = saturating_u64 (retained_bytes_above (cursor_acked c) (buffer p))\<rparr>)
    (lagging_cursors lag_bytes (roster p))"
  obtain doomed f where l: "latch_evicting ?offers lag_bytes (roster p) = (doomed, f)" by force
  then show ?thesis using False latch_members [OF l] by (simp add: pane_evict_lagging_def Let_def)
qed (simp add: pane_evict_lagging_def)

lemma acknowledge_members: "members (roster p) \<noteq> [] \<Longrightarrow> members (roster (snd (snd (pane_acknowledge lag_bytes k n p)))) \<noteq> []"
proof -
  assume ne: "members (roster p) \<noteq> []"
  obtain least f where a: "fanout_acknowledge k n (roster p) = (least, f)" by force
  then have f: "members f \<noteq> []" using ne by (auto simp: fanout_acknowledge_def bt_update_def Let_def)
  let ?q = "p\<lparr>roster := f, buffer := ack_output (case least of None \<Rightarrow> n | Some m \<Rightarrow> m) (buffer p)\<rparr>"
  have "snd (snd (pane_acknowledge lag_bytes k n p)) = snd (pane_evict_lagging lag_bytes ?q)"
    using a by (simp add: pane_acknowledge_def Let_def split: prod.split)
  then show ?thesis using f evict_lagging_members [of lag_bytes ?q] by simp
qed

text \<open>The latch: who is claimed, and that a claim happens once.\<close>

lemma latch_loop_claims:
  assumes "latch_loop es (claimed, f) = (claimed', f')" "distinct claimed"
    "\<forall>k\<in>set claimed. \<exists>m. map_of (members f) k = Some m \<and> m_evicting m"
  shows "distinct claimed' \<and> (\<forall>k\<in>set claimed'. k \<in> set claimed \<or> k \<in> priced_id ` set es) \<and>
    (\<forall>k\<in>set claimed' - set claimed. \<exists>m. map_of (members f) k = Some m \<and> \<not> m_evicting m) \<and>
    (\<forall>k\<in>set claimed'. \<exists>m. map_of (members f') k = Some m \<and> m_evicting m) \<and>
    (\<forall>k m. map_of (members f) k = Some m \<and> m_evicting m \<longrightarrow> (\<exists>m'. map_of (members f') k = Some m' \<and> m_evicting m'))"
  using assms
proof (induction es arbitrary: claimed f)
  case (Cons e es)
  show ?case
  proof (cases "map_of (members f) (priced_id e)")
    case None
    then show ?thesis using Cons by fastforce
  next
    case (Some m)
    show ?thesis
    proof (cases "m_evicting m")
      case True
      then show ?thesis using Cons Some by fastforce
    next
      case False
      let ?f = "f\<lparr>members := bt_update (priced_id e) (\<lambda>m. m\<lparr>m_evicting := True\<rparr>) (members f)\<rparr>"
      have new: "priced_id e \<notin> set claimed" using Cons.prems(3) Some False by fastforce
      have step: "latch_loop es (claimed @ [priced_id e], ?f) = (claimed', f')" using Cons.prems(1) Some False by simp
      have "\<forall>k\<in>set (claimed @ [priced_id e]). \<exists>m. map_of (members ?f) k = Some m \<and> m_evicting m"
        using Cons.prems(3) Some by (auto simp: bt_update_lookup)
      note ih = Cons.IH [OF step _ this]
      show ?thesis using ih Cons.prems(2) new Some False by (auto simp: bt_update_lookup split: if_splits)
    qed
  qed
qed auto

section \<open>Properties\<close>

text \<open>C13. Nobody's progress costs another member its tail: an ack from any client, known or departed, stale
  or far beyond the head, and the departure of any other member, leave every retained payload above a
  member's own cursor in the buffer.\<close>

theorem no_member_loses_its_tail:
  assumes "replay_inv (buffer p)" "map_of (members (roster p)) k = Some m" "other \<noteq> k"
    "(s, bs) \<in> set (tail_pairs (buffer p))" "m_acked m < s"
  shows "(s, bs) \<in> set (tail_pairs (buffer (snd (snd (pane_acknowledge lag_bytes other n p))))) \<and>
    (s, bs) \<in> set (tail_pairs (buffer (snd (remove_subscriber other p))))"
proof
  have acked: "map_of (members (snd (fanout_acknowledge other n (roster p)))) k = Some m"
    using assms(2,3) by (simp add: fanout_acknowledge_def Let_def bt_update_lookup)
  then obtain floor where floor: "retention_floor (snd (fanout_acknowledge other n (roster p))) = Some floor"
    using floor_exists by blast
  then have "floor < s" using floor_below_member [OF floor acked] assms(5) by simp
  moreover have "fst (fanout_acknowledge other n (roster p)) = Some floor"
    using floor by (simp add: fanout_acknowledge_def Let_def)
  then have "buffer (snd (snd (pane_acknowledge lag_bytes other n p))) = ack_output floor (buffer p)"
    by (simp add: acknowledge_buffer)
  ultimately show "(s, bs) \<in> set (tail_pairs (buffer (snd (snd (pane_acknowledge lag_bytes other n p)))))"
    using ack_keeps_above [OF assms(1,4)] by simp
next
  show "(s, bs) \<in> set (tail_pairs (buffer (snd (remove_subscriber other p))))"
  proof (cases "map_of (members (roster p)) other = None")
    case True
    then show ?thesis using assms(4) by (simp add: remove_subscriber_def)
  next
    case False
    let ?f = "(roster p)\<lparr>members := bt_remove other (members (roster p))\<rparr>"
    have left: "map_of (members ?f) k = Some m" using assms(2,3) by (simp add: bt_remove_lookup)
    obtain floor where floor: "retention_floor ?f = Some floor" using floor_exists [OF left] by blast
    have "buffer (snd (remove_subscriber other p)) =
        ack_output floor (set_client_online (bt_remove other (members (roster p)) \<noteq> []) (buffer p))"
      using False floor by (auto simp: remove_subscriber_def pane_retire_def fanout_leave_def release_retention_to_minimum_def Let_def)
    moreover have "tail_pairs (set_client_online v (buffer p)) = tail_pairs (buffer p)" for v
      by (simp add: tail_pairs_def set_client_online_def)
    ultimately show ?thesis
      using ack_keeps_above [of "set_client_online (bt_remove other (members (roster p)) \<noteq> []) (buffer p)" "(s, bs)" floor]
        assms(1,4,5) floor_below_member [OF floor left] by simp
  qed
qed

theorem no_member_loses_its_tail_witness:
  "(2, [66]) \<in> set (tail_pairs (buffer (snd (snd (pane_acknowledge 0 7 9
      \<lparr>roster = fanout_join 1 1 fanout_new, buffer = buffer_after (\<lambda>_. None) [Op_Append [65], Op_Append [66]] (fresh_buffer 9 5 4 None)\<rparr>))))) \<and>
   (2, [66]) \<in> set (tail_pairs (buffer (snd (remove_subscriber 7
      \<lparr>roster = fanout_join 1 1 fanout_new, buffer = buffer_after (\<lambda>_. None) [Op_Append [65], Op_Append [66]] (fresh_buffer 9 5 4 None)\<rparr>))))"
  by (rule no_member_loses_its_tail [where k = 1 and m = "member_default\<lparr>m_acked := 1\<rparr>"])
    (simp_all add: inv_reach fanout_join_def fanout_new_def member_default_def, simp_all add: buffer_after_def run_ops_def append_output_def tail_pairs_def)

text \<open>Eviction takes laggards only: the ids one check claims are distinct members that were not claimed
  before, each behind the furthest member and with more un-acked retained bytes than the threshold; a
  member at the front is never among them, so a pane cannot evict its way to empty; and a claimed member
  stays claimed, so no later check fires it again.\<close>

theorem eviction_spares_the_healthiest:
  assumes "bt_sorted (members (roster p))"
  shows "let (doomed, p') = pane_evict_lagging lag_bytes p in
    distinct doomed \<and>
    list_all (\<lambda>k. case map_of (members (roster p)) k of
        None \<Rightarrow> False
      | Some m \<Rightarrow> \<not> m_evicting m \<and> lag_bytes < saturating_u64 (retained_bytes_above (m_acked m) (buffer p)) \<and>
          list_ex (\<lambda>x. m_acked (snd x) \<noteq> m_acked m) (members (roster p))) doomed \<and>
    (members (roster p) \<noteq> [] \<longrightarrow> list_ex (\<lambda>x. fst x \<notin> set doomed) (members (roster p))) \<and>
    list_all (\<lambda>k. case map_of (members (roster p')) k of None \<Rightarrow> False | Some m \<Rightarrow> m_evicting m) doomed"
proof -
  let ?ms = "members (roster p)" and ?behind = "lagging_cursors lag_bytes (roster p)"
  have dist: "distinct (map fst ?ms)" using assms by (simp add: bt_sorted_def strict_sorted_iff)
  show ?thesis
  proof (cases "?behind = []")
    case True
    then have "pane_evict_lagging lag_bytes p = ([], p)" by (simp add: pane_evict_lagging_def)
    moreover have "?ms \<noteq> [] \<longrightarrow> list_ex (\<lambda>x. True) ?ms" by (cases ?ms) simp_all
    ultimately show ?thesis by simp
  next
    case False
    obtain top where top: "greatest_of (map (\<lambda>x. m_acked (snd x)) ?ms) = Some top" and lag: "lag_bytes \<noteq> 0"
      and behind: "?behind = map (\<lambda>x. \<lparr>cursor_id = fst x, cursor_acked = m_acked (snd x)\<rparr>) (filter (\<lambda>x. m_acked (snd x) \<noteq> top) ?ms)"
      using False by (auto simp: lagging_cursors_def split: if_splits option.splits)
    obtain lead where lead: "lead \<in> set ?ms" "m_acked (snd lead) = top" using greatest_of_in [OF top] by auto
    let ?offers = "map (\<lambda>c. \<lparr>priced_id = cursor_id c,
      priced_bytes = saturating_u64 (retained_bytes_above (cursor_acked c) (buffer p))\<rparr>) ?behind"
    let ?over = "filter (\<lambda>e. lag_bytes < priced_bytes e) ?offers"
    obtain doomed f where l: "latch_loop ?over ([], roster p) = (doomed, f)" by force
    have e: "pane_evict_lagging lag_bytes p = (doomed, p\<lparr>roster := f\<rparr>)"
      using False l lag by (simp add: pane_evict_lagging_def latch_evicting_def Let_def)
    note claims = latch_loop_claims [OF l, simplified]
    have one: "\<exists>m. map_of ?ms k = Some m \<and> \<not> m_evicting m \<and> m_acked m \<noteq> top \<and>
        lag_bytes < saturating_u64 (retained_bytes_above (m_acked m) (buffer p))" if "k \<in> set doomed" for k
    proof -
      have "k \<in> priced_id ` set ?over" using claims that by auto
      then obtain x where x: "x \<in> set ?ms" "fst x = k" "m_acked (snd x) \<noteq> top"
        "lag_bytes < saturating_u64 (retained_bytes_above (m_acked (snd x)) (buffer p))"
        unfolding behind by auto
      then have "map_of ?ms k = Some (snd x)" using dist by (metis map_of_is_SomeI prod.collapse)
      then show ?thesis using x claims that by force
    qed
    have "fst lead \<notin> set doomed"
    proof
      assume "fst lead \<in> set doomed"
      moreover have "map_of ?ms (fst lead) = Some (snd lead)" using lead(1) dist by (metis map_of_is_SomeI prod.collapse)
      ultimately show False using one lead(2) by force
    qed
    then have "list_ex (\<lambda>x. fst x \<notin> set doomed) ?ms" using lead(1) by (auto simp: list_ex_iff)
    moreover have "list_all (\<lambda>k. case map_of ?ms k of None \<Rightarrow> False
      | Some m \<Rightarrow> \<not> m_evicting m \<and> lag_bytes < saturating_u64 (retained_bytes_above (m_acked m) (buffer p)) \<and>
          list_ex (\<lambda>x. m_acked (snd x) \<noteq> m_acked m) ?ms) doomed"
      unfolding list_all_iff
    proof
      fix k assume "k \<in> set doomed"
      from one [OF this] show "case map_of ?ms k of None \<Rightarrow> False
        | Some m \<Rightarrow> \<not> m_evicting m \<and> lag_bytes < saturating_u64 (retained_bytes_above (m_acked m) (buffer p)) \<and>
          list_ex (\<lambda>x. m_acked (snd x) \<noteq> m_acked m) ?ms"
        using lead by (auto simp: list_ex_iff intro!: bexI [of _ lead])
    qed
    moreover have "list_all (\<lambda>k. case map_of (members f) k of None \<Rightarrow> False | Some m \<Rightarrow> m_evicting m) doomed"
      using claims by (force simp: list_all_iff)
    ultimately show ?thesis using e claims by simp
  qed
qed

theorem eviction_spares_the_healthiest_witness:
  "let p = \<lparr>roster = fanout_join 1 0 (fanout_join 2 2 fanout_new),
        buffer = buffer_after (\<lambda>_. None) [Op_Append [65, 66], Op_Append [67]] (fresh_buffer 9 5 4 None)\<rparr>;
       (doomed, p') = pane_evict_lagging 2 p in
    distinct doomed \<and>
    list_all (\<lambda>k. case map_of (members (roster p)) k of
        None \<Rightarrow> False
      | Some m \<Rightarrow> \<not> m_evicting m \<and> 2 < saturating_u64 (retained_bytes_above (m_acked m) (buffer p)) \<and>
          list_ex (\<lambda>x. m_acked (snd x) \<noteq> m_acked m) (members (roster p))) doomed \<and>
    list_ex (\<lambda>x. fst x \<notin> set doomed) (members (roster p)) \<and>
    list_all (\<lambda>k. case map_of (members (roster p')) k of None \<Rightarrow> False | Some m \<Rightarrow> m_evicting m) doomed"
proof -
  let ?p = "\<lparr>roster = fanout_join 1 0 (fanout_join 2 2 fanout_new),
        buffer = buffer_after (\<lambda>_. None) [Op_Append [65, 66], Op_Append [67]] (fresh_buffer 9 5 4 None)\<rparr>"
  have "bt_sorted (members (roster ?p))" "members (roster ?p) \<noteq> []"
    by (simp_all add: bt_sorted_def fanout_join_def fanout_new_def)
  then show ?thesis using eviction_spares_the_healthiest [of ?p 2] unfolding Let_def by (simp only: split_def) blast
qed

text \<open>C31. A joiner misses nothing and sees nothing twice: when the render it opens on covers a history up to a
  point at or above the acked one, the bridge it is sent is exactly the frames numbered after that point,
  its cursor starts at the head, and the next frame sequenced is numbered right after the head and
  addressed to it.\<close>

theorem joiner_is_bridged:
  assumes "replay_inv (buffer p)" "history_inv h (buffer p)" "members (roster p) \<noteq> []"
    "acked_seq (buffer p) \<le> covered"
  shows "case pane_admit_joiner False reserved covered p of
      (None, _) \<Rightarrow> False
    | (Some (k, catch_up, head), p') \<Rightarrow>
        catch_up = map (\<lambda>(s, bs). Output s bs) (drop (nat covered) (number 1 h)) \<and> head = int (length h) \<and>
        map_of (members (roster p')) k = Some (member_default\<lparr>m_acked := head\<rparr>) \<and>
        (case pane_sequence bs p' of (s, targets, _) \<Rightarrow> s = head + 1 \<and> k \<in> set targets)"
proof -
  have "0 \<le> covered" using assms(1,4) by (simp add: replay_inv_def replay_core_def)
  have "output_messages covered (buffer p) = filter (\<lambda>q. covered < fst q) (tail_pairs (buffer p))"
    using ring_above_acked [OF assms(1,4)] by (simp add: output_messages_def tail_pairs_def filter_map comp_def)
  also have "\<dots> = filter (\<lambda>q. covered < fst q) (number 1 h)"
    using assms(2,4) by (auto simp: history_inv_def intro!: filter_cong)
  also have "\<dots> = drop (nat covered) (number 1 h)" using number_filter [of 1 covered h] \<open>0 \<le> covered\<close> by simp
  finally have bridge: "map as_output (output_messages covered (buffer p)) = map (\<lambda>(s, bs). Output s bs) (drop (nat covered) (number 1 h))"
    by (simp add: as_output_def case_prod_beta')
  have lookup: "map_of (bt_insert k v ms) k = Some v" for k :: u64 and v :: member and ms
    by (induction k v ms rule: bt_insert.induct) auto
  have ids: "k \<in> set (map fst (bt_insert k v ms))" for k :: u64 and v :: member and ms
    unfolding bt_insert_keys by simp
  show ?thesis using assms(2,3) bridge lookup ids
    by (auto simp: pane_admit_joiner_def fanout_join_def pane_sequence_def append_output_def fanout_ids_def history_inv_def Let_def
        split: option.split prod.split)
qed

theorem joiner_is_bridged_witness:
  "case pane_admit_joiner False None 1 \<lparr>roster = fanout_join 0 0 fanout_new,
        buffer = buffer_after (\<lambda>_. None) [Op_Append [65], Op_Append [66]] (fresh_buffer 9 5 4 None)\<rparr> of
      (None, _) \<Rightarrow> False
    | (Some (k, catch_up, head), p') \<Rightarrow>
        catch_up = map (\<lambda>(s, bs). Output s bs) (drop (nat 1) (number 1 [[65], [66]])) \<and> head = int (length [[65], [66 :: u8]]) \<and>
        map_of (members (roster p')) k = Some (member_default\<lparr>m_acked := head\<rparr>) \<and>
        (case pane_sequence [67] p' of (s, targets, _) \<Rightarrow> s = head + 1 \<and> k \<in> set targets)"
  by (rule joiner_is_bridged)
    (simp_all add: inv_reach fanout_join_def fanout_new_def,
     simp_all add: buffer_after_def run_ops_def append_output_def history_inv_def tail_pairs_def fresh_buffer_def with_caps_def)

lemma ack_no_ring: "scrollback_bytes_cap b = 0 \<Longrightarrow> scrollback_ring (ack_output n b) = scrollback_ring b"
  by (simp add: ack_output_def retire_def Let_def)

text \<open>C38. Without a ring the bridge has a hole: when the scrollback is disabled, and an ack brings the least cursor of the members
  to \<open>n\<close>, past the point the joiner's screen covers, the join is still admitted, its cursor starts at the head and its bridge is
  exactly the frames after \<open>n\<close>: every frame between the two points is in neither the screen nor the bridge.\<close>

theorem join_without_ring_loses_a_frame:
  assumes "replay_inv (buffer p)" "history_inv h (buffer p)" "scrollback_bytes_cap (buffer p) = 0" "members (roster p) \<noteq> []"
    and floor: "fst (fanout_acknowledge k seq (roster p)) = Some n" and screen: "acked_seq (buffer p) \<le> covered" "covered < n" "n \<le> int (length h)"
  shows "\<exists>j p'. pane_admit_joiner False reserved covered (snd (snd (pane_acknowledge lag_bytes k seq p))) =
    (Some (j, map (\<lambda>(s, bs). Output s bs) (drop (nat n) (number 1 h)), int (length h)), p')"
proof -
  let ?p = "snd (snd (pane_acknowledge lag_bytes k seq p))"
  let ?b = "ack_output n (buffer p)"
  have b: "buffer ?p = ?b" using acknowledge_buffer [of lag_bytes k seq p] floor by simp
  note t = tail_pairs_ack [OF assms(1), of n]
  have hi: "highest_seq (buffer p) = int (length h)" "tail_pairs (buffer p) = filter (\<lambda>q. acked_seq (buffer p) < fst q) (number 1 h)" "0 \<le> acked_seq (buffer p)"
    using assms(1,2) by (simp_all add: history_inv_def replay_inv_def replay_core_def)
  have ring: "scrollback_ring ?b = []" using ack_no_ring [OF assms(3)] assms(1,3) by (simp add: replay_inv_def replay_core_def)
  have n: "0 < n" "acked_seq ?b = n" using hi screen t(2) by simp_all
  have "output_messages covered ?b = filter (\<lambda>q. covered < fst q) (tail_pairs ?b)"
    using ring by (simp add: output_messages_def tail_pairs_def filter_map comp_def)
  also have "\<dots> = filter (\<lambda>q. n < fst q) (number 1 h)" unfolding t(1) n(2) hi(2) using screen by (auto intro!: filter_cong)
  also have "\<dots> = drop (nat n) (number 1 h)" using number_filter [of 1 n h] n(1) by simp
  finally have bridge: "map as_output (output_messages covered ?b) = map (\<lambda>(s, bs). Output s bs) (drop (nat n) (number 1 h))"
    by (simp add: as_output_def case_prod_beta')
  have "members (roster ?p) \<noteq> []" using acknowledge_members [OF assms(4)] .
  moreover have "highest_seq ?b = int (length h)" using t(3) hi(1) by simp
  ultimately show ?thesis using bridge unfolding pane_admit_joiner_def b by (auto simp: Let_def split: option.split prod.split)
qed

theorem join_without_ring_loses_a_frame_witness:
  "\<exists>j p'. pane_admit_joiner False None 1 (snd (snd (pane_acknowledge 0 0 2 \<lparr>roster = fanout_join 0 0 fanout_new,
      buffer = buffer_after (\<lambda>_. None) [Op_Append [65], Op_Append [66], Op_Append [67]] (fresh_buffer 9 5 0 None)\<rparr>))) =
    (Some (j, map (\<lambda>(s, bs). Output s bs) (drop (nat 2) (number 1 [[65], [66], [67]])), int (length [[65], [66], [67 :: u8]])), p')"
proof (rule join_without_ring_loses_a_frame)
  show "replay_inv (buffer \<lparr>roster = fanout_join 0 0 fanout_new,
      buffer = buffer_after (\<lambda>_. None) [Op_Append [65], Op_Append [66], Op_Append [67]] (fresh_buffer 9 5 0 None)\<rparr>)"
    by (simp add: inv_reach)
qed (simp_all add: buffer_after_def run_ops_def append_output_def fresh_buffer_def with_caps_def history_inv_def tail_pairs_def
    fanout_join_def fanout_new_def fanout_acknowledge_def retention_floor_def least_of_def bt_update_def member_default_def)

end
