(* ===== verification/Gf256.thy ===== *)
theory Gf256
  imports Prelude
begin

text \<open>
  Arithmetic over the field of 256 elements (\<open>slopdesk-video/src/gf256.rs\<close>) and the byte-region kernels
  under it (\<open>slopdesk-gfsimd/src/lib.rs\<close>, the scalar form the vector form is required to agree with): the
  exponential and logarithm tables with the loops that fill them, multiplication and inverse by table,
  and the scaled accumulate in its three strategies. The second half shows that the tables really are
  those of a generator of the multiplicative group, and turns bytes under these operations into an
  instance of the library's class of fields, which the linear algebra of the erasure code rests on.
\<close>

unbundle bit_operations_syntax

section \<open>The tables\<close>

definition primitive_poly :: u16 where
  "primitive_poly = 0x11D"

text \<open>One turn of the first loop: multiply by the generator, reduce on overflow.\<close>

definition exp_step :: "u16 \<Rightarrow> u16" where
  "exp_step value =
    (let value = push_bit 1 value
     in if value AND 0x100 \<noteq> 0 then value XOR primitive_poly else value)"

definition build_exp :: bytes where
  "build_exp =
    (let (table, value) = fold (\<lambda>i (table, value). (table[i := ucast value], exp_step value)) [0..<255]
                            (replicate 512 0, 1)
     in fold (\<lambda>j table. table[j := table ! (j - 255)]) [255..<512] table)"

definition build_log :: "bytes \<Rightarrow> bytes" where
  "build_log exp =
    fold (\<lambda>i table. table[unat (exp ! i) := of_nat i]) [0..<255] (replicate 256 0)"

definition exp_table :: bytes where
  "exp_table = build_exp"

definition log_table :: bytes where
  "log_table = build_log exp_table"

section \<open>Multiplication and inverse\<close>

definition gf_mul :: "u8 \<Rightarrow> u8 \<Rightarrow> u8" where
  "gf_mul a b =
    (if a = 0 \<or> b = 0 then 0
     else exp_table ! (unat (log_table ! unat a) + unat (log_table ! unat b)))"

definition gf_inv :: "u8 \<Rightarrow> u8" where
  "gf_inv a = (if a = 0 then 0 else exp_table ! (255 - unat (log_table ! unat a)))"

definition exp_at :: "nat \<Rightarrow> u8" where
  "exp_at index = (if index < length exp_table then exp_table ! index else 0)"

definition log_of :: "u8 \<Rightarrow> u8" where
  "log_of value = log_table ! unat value"

section \<open>Regions\<close>

text \<open>\<open>dst.iter_mut().zip(src)\<close>: the overlap is folded, the rest of the destination is left alone.\<close>

fun zip_into :: "(u8 \<Rightarrow> u8 \<Rightarrow> u8) \<Rightarrow> bytes \<Rightarrow> bytes \<Rightarrow> bytes" where
  "zip_into f (s # src) (d # dst) = f s d # zip_into f src dst"
| "zip_into f _ dst = dst"

definition xor_add :: "bytes \<Rightarrow> bytes \<Rightarrow> bytes" where
  "xor_add src dst = zip_into (\<lambda>s d. d XOR s) src dst"

record mul_table =
  mt_lo :: bytes
  mt_hi :: bytes

definition mul_table_new :: "u8 \<Rightarrow> mul_table" where
  "mul_table_new coeff =
    \<lparr>mt_lo = map (\<lambda>nibble. gf_mul coeff (of_nat nibble)) [0..<16],
     mt_hi = map (\<lambda>nibble. gf_mul coeff (of_nat (push_bit 4 nibble))) [0..<16]\<rparr>"

definition nibble_at :: "bytes \<Rightarrow> nat \<Rightarrow> u8" where
  "nibble_at table i = (if i < length table then table ! i else 0)"

definition mul_add_scalar :: "bytes \<Rightarrow> bytes \<Rightarrow> bytes \<Rightarrow> bytes \<Rightarrow> bytes" where
  "mul_add_scalar table_lo table_hi src dst =
    zip_into (\<lambda>s d. d XOR (nibble_at table_lo (unat (s AND 0x0F)) XOR nibble_at table_hi (unat (drop_bit 4 s)))) src dst"

definition add_scaled :: "mul_table \<Rightarrow> bytes \<Rightarrow> bytes \<Rightarrow> bytes" where
  "add_scaled t src dst = mul_add_scalar (mt_lo t) (mt_hi t) src dst"

definition table_crossover_bytes :: nat where
  "table_crossover_bytes = 96"

definition gf_mul_add :: "u8 \<Rightarrow> bytes \<Rightarrow> bytes \<Rightarrow> bytes" where
  "gf_mul_add coeff src dst =
    (if coeff = 0 then dst
     else if coeff = 1 then xor_add src dst
     else if table_crossover_bytes \<le> length src then add_scaled (mul_table_new coeff) src dst
     else
       let log_coeff = unat (log_of coeff)
       in zip_into (\<lambda>s d. if s \<noteq> 0 then d XOR exp_at (log_coeff + unat (log_of s)) else d) src dst)"

section \<open>The generator\<close>

definition xt :: "u8 \<Rightarrow> u8" where
  "xt b = (if bit b 7 then push_bit 1 b XOR 0x1D else push_bit 1 b)"

definition pw :: "nat \<Rightarrow> u8" where
  "pw i = (xt ^^ i) 1"

lemma bit_1D: "bit (0x1D :: u8) n \<longleftrightarrow> n = 0 \<or> n = 2 \<or> n = 3 \<or> n = 4"
proof (cases "n < 8")
  case True
  then have "n \<in> {0,1,2,3,4,5,6,7}" by auto
  then show ?thesis by (auto simp: bit_iff_odd)
next
  case False
  then show ?thesis by (auto simp: not_less dest: bit_imp_le_length)
qed

lemma xt_xor: "xt (a XOR b) = xt a XOR xt b"
  by (rule bit_word_eqI) (auto simp: xt_def bit_simps)

lemma xt_0 [simp]: "xt 0 = 0"
  by (simp add: xt_def)

lemma xt_eq_0: "xt a = 0 \<Longrightarrow> a = 0"
proof -
  assume z: "xt a = 0"
  have "\<not> bit a 7"
  proof
    assume "bit a 7"
    then have "bit (xt a) 0" by (simp add: xt_def bit_simps bit_1D del: push_bit_Suc)
    then show False using z by simp
  qed
  then have p: "push_bit 1 a = 0" using z by (simp add: xt_def)
  show "a = 0"
  proof (rule bit_word_eqI)
    fix n assume n: "n < LENGTH(8)"
    show "bit a n = bit 0 n"
    proof (cases "n = 7")
      case True then show ?thesis using \<open>\<not> bit a 7\<close> by simp
    next
      case False
      then have "bit (push_bit 1 a) (Suc n) = bit a n" using n \<open>n \<noteq> 7\<close>
        by (simp only: bit_push_bit_iff possible_bit_word) simp
      then show ?thesis using p by simp
    qed
  qed
qed

lemma xor_zero_iff: "a XOR b = 0 \<longleftrightarrow> a = (b :: u8)"
proof
  assume "a XOR b = 0"
  then have "(a XOR b) XOR b = b" by simp
  then show "a = b" by (simp add: xor.assoc)
qed simp

lemma xt_inj: "xt a = xt b \<Longrightarrow> a = b"
proof -
  assume "xt a = xt b"
  then have "xt (a XOR b) = 0" by (simp add: xt_xor)
  then have "a XOR b = 0" by (rule xt_eq_0)
  then show ?thesis by (simp add: xor_zero_iff)
qed

lemma xtn_xor: "(xt ^^ i) (a XOR b) = (xt ^^ i) a XOR (xt ^^ i) b"
  by (induction i) (simp_all add: xt_xor)

lemma xtn_0 [simp]: "(xt ^^ i) 0 = 0"
  by (induction i) simp_all

lemma xtn_inj: "(xt ^^ i) a = (xt ^^ i) b \<Longrightarrow> a = b"
  by (induction i) (auto dest: xt_inj)

lemma pw_0 [simp]: "pw 0 = 1"
  by (simp add: pw_def)

lemma pw_Suc: "pw (Suc i) = xt (pw i)"
  by (simp add: pw_def)

lemma xtn_pw: "(xt ^^ i) (pw j) = pw (i + j)"
  by (simp add: pw_def funpow_add)

lemma pw_nonzero [simp]: "pw i \<noteq> 0"
  by (induction i) (auto simp: pw_Suc dest: xt_eq_0)

section \<open>The order of the generator\<close>

text \<open>The walk on natural numbers, where the simplifier computes: one full cycle, and no earlier return.\<close>

definition xn :: "nat \<Rightarrow> nat" where
  "xn n = (if 128 \<le> n then (2 * n - 256) XOR 29 else 2 * n)"

fun walk :: "nat \<Rightarrow> nat \<Rightarrow> nat" where
  "walk 0 v = v"
| "walk (Suc n) v = walk n (xn v)"

fun avoids_one :: "nat \<Rightarrow> nat \<Rightarrow> bool" where
  "avoids_one 0 v \<longleftrightarrow> True"
| "avoids_one (Suc n) v \<longleftrightarrow> v \<noteq> 1 \<and> avoids_one n (xn v)"

lemma walk_numeral: "walk (numeral k) v = walk (pred_numeral k) (xn v)"
  by (simp add: numeral_eq_Suc)

lemma avoids_one_numeral: "avoids_one (numeral k) v \<longleftrightarrow> v \<noteq> 1 \<and> avoids_one (pred_numeral k) (xn v)"
  by (simp add: numeral_eq_Suc)

lemma walk_cycle: "walk 255 1 = 1"
  by (simp add: xn_def walk_numeral)

lemma walk_first_return: "avoids_one 254 2"
  by (simp add: xn_def avoids_one_numeral)

lemma avoids_one_walk: "avoids_one n v \<Longrightarrow> i < n \<Longrightarrow> walk i v \<noteq> 1"
proof (induction n v arbitrary: i rule: avoids_one.induct)
  case (2 n v)
  then show ?case by (cases i) auto
qed simp

lemma bit_7_iff: "bit (b :: u8) 7 \<longleftrightarrow> 128 \<le> unat b"
proof -
  have b: "unat b < 256" using unsigned_less [of b] by simp
  have "bit b 7 \<longleftrightarrow> bit (unat b) 7" by (simp add: bit_unsigned_iff)
  also have "\<dots> \<longleftrightarrow> odd (unat b div 128)" by (simp add: bit_iff_odd)
  also have "unat b div 128 = (if 128 \<le> unat b then 1 else 0)"
    using b by (simp add: le_div_geq)
  finally show ?thesis by simp
qed

lemma unat_xt: "unat (xt b) = xn (unat b)"
proof -
  have b: "unat b < 256" using unsigned_less [of b] by simp
  have p: "unat (push_bit 1 b) = (2 * unat b) mod 256"
    by (simp only: unsigned_push_bit_eq) (simp add: take_bit_eq_mod mult.commute)
  have "unat (xt b) = (if 128 \<le> unat b then unat (push_bit 1 b) XOR 29 else unat (push_bit 1 b))"
    by (simp add: xt_def bit_7_iff unsigned_xor_eq del: push_bit_Suc)
  also have "\<dots> = xn (unat b)" unfolding p xn_def using b by (auto simp: mod_if)
  finally show ?thesis .
qed

lemma unat_xtn: "unat ((xt ^^ i) b) = walk i (unat b)"
  by (induction i arbitrary: b) (simp_all add: unat_xt funpow_Suc_right del: funpow.simps)

lemma pw_255: "pw 255 = 1"
proof -
  have "unat (pw 255) = unat (1 :: u8)" by (simp add: pw_def unat_xtn walk_cycle [unfolded One_nat_def] del: funpow.simps)
  then show ?thesis by (simp only: unsigned_word_eqI word_unat_eq_iff)
qed

lemma pw_periodic: "pw (i + 255) = pw i"
  using xtn_pw [of i 255] by (simp add: pw_255 flip: pw_def)

lemma pw_no_return: "0 < d \<Longrightarrow> d < 255 \<Longrightarrow> pw d \<noteq> 1"
proof
  assume d: "0 < d" "d < 255" and one: "pw d = 1"
  obtain e where e: "d = Suc e" using d(1) by (cases d) auto
  have "unat (pw d) = walk d 1" by (simp add: pw_def unat_xtn del: funpow.simps)
  also have "\<dots> = walk e 2" by (simp add: e xn_def)
  finally have "walk e 2 = 1" using one by simp
  moreover have "e < 254" using d(2) e by simp
  ultimately show False using avoids_one_walk [OF walk_first_return] by blast
qed

lemma pw_inj: "inj_on pw {0..<255}"
proof (rule linorder_inj_onI)
  fix i j :: nat assume "i < j" "i \<in> {0..<255}" "j \<in> {0..<255}"
  then have d: "0 < j - i" "j - i < 255" and j: "j = i + (j - i)" by auto
  show "pw i \<noteq> pw j"
  proof
    assume "pw i = pw j"
    then have "(xt ^^ i) 1 = (xt ^^ i) (pw (j - i))" using j by (metis xtn_pw pw_def)
    then have "pw (j - i) = 1" by (auto dest: xtn_inj)
    then show False using pw_no_return [OF d] by simp
  qed
qed auto

lemma pw_onto: "a \<noteq> 0 \<Longrightarrow> \<exists>i<255. a = pw i"
proof -
  assume a: "a \<noteq> 0"
  have c: "card (UNIV :: u8 set) = 256" using card_word [where 'a = 8] by simp
  have "pw ` {0..<255} = UNIV - {0}"
  proof (rule card_seteq)
    show "pw ` {0..<255} \<subseteq> UNIV - {0}" by auto
    show "card (UNIV - {0 :: u8}) \<le> card (pw ` {0..<255})"
      by (simp add: card_image [OF pw_inj] c)
  qed simp
  then have "a \<in> pw ` {0..<255}" using a by auto
  then show ?thesis by auto
qed

section \<open>The tables are those of the generator\<close>

lemma bit_11D: "bit (0x11D :: u16) n \<longleftrightarrow> n = 0 \<or> n = 2 \<or> n = 3 \<or> n = 4 \<or> n = 8"
proof (cases "n < 16")
  case True
  then have "n \<in> {0,1,2,3,4,5,6,7,8,9,10,11,12,13,14,15}" by (simp only: insert_iff empty_iff) arith
  then show ?thesis by (auto simp: bit_iff_odd)
next
  case False
  then show ?thesis by (auto simp: not_less dest: bit_imp_le_length)
qed

lemma exp_step_pw: "exp_step (ucast (b :: u8)) = ucast (xt b)"
proof -
  have "bit (push_bit 1 (ucast b :: u16)) 8 \<longleftrightarrow> bit b 7"
    by (simp only: bit_push_bit_iff) (simp add: bit_ucast_iff)
  moreover have "v AND 0x100 \<noteq> 0 \<longleftrightarrow> bit v 8" for v :: u16
    using and_exp_eq_0_iff_not_bit [of v 8] by simp
  ultimately have c: "push_bit 1 (ucast b :: u16) AND 0x100 \<noteq> 0 \<longleftrightarrow> bit b 7"
    by simp
  have high: "bit b m \<Longrightarrow> m < 8" for m using bit_imp_le_length [of b m] by simp
  show ?thesis
  proof (cases "bit b 7")
    case True
    then have l: "exp_step (ucast b) = push_bit 1 (ucast b) XOR 0x11D" and r: "xt b = push_bit 1 b XOR 0x1D"
      using c by (simp_all only: exp_step_def Let_def primitive_poly_def xt_def if_True simp_thms)
    show ?thesis unfolding l r
    proof (rule bit_word_eqI)
      fix n assume n: "n < LENGTH(16)"
      have L8: "n < LENGTH(8) \<longleftrightarrow> n < 8" for n by simp
      have "bit (push_bit 1 (ucast b) XOR 0x11D :: u16) n \<longleftrightarrow>
          (1 \<le> n \<and> bit b (n - 1)) \<noteq> (n = 0 \<or> n = 2 \<or> n = 3 \<or> n = 4 \<or> n = 8)"
        using n by (auto simp only: bit_xor_iff bit_push_bit_iff bit_ucast_iff bit_11D possible_bit_word)
      also have "\<dots> \<longleftrightarrow> n < 8 \<and> ((1 \<le> n \<and> bit b (n - 1)) \<noteq> (n = 0 \<or> n = 2 \<or> n = 3 \<or> n = 4))"
        using True high [of "n - 1"] by (cases "n = 8") auto
      also have "\<dots> \<longleftrightarrow> bit (ucast (push_bit 1 b XOR 0x1D) :: u16) n"
        using n by (simp only: bit_xor_iff bit_push_bit_iff bit_ucast_iff bit_1D possible_bit_word L8) auto
      finally show "bit (push_bit 1 (ucast b) XOR 0x11D :: u16) n \<longleftrightarrow> bit (ucast (push_bit 1 b XOR 0x1D) :: u16) n" .
    qed
  next
    case False
    then have l: "exp_step (ucast b) = push_bit 1 (ucast b)" and r: "xt b = push_bit 1 b"
      using c by (simp_all only: exp_step_def Let_def xt_def if_False simp_thms)
    show ?thesis unfolding l r
    proof (rule bit_word_eqI)
      fix n assume n: "n < LENGTH(16)"
      have L8: "n < LENGTH(8) \<longleftrightarrow> n < 8" for n by simp
      have "1 \<le> n \<and> bit b (n - 1) \<longleftrightarrow> n < 8 \<and> 1 \<le> n \<and> bit b (n - 1)"
        using False high [of "n - 1"] by (cases "n = 8") auto
      then show "bit (push_bit 1 (ucast b) :: u16) n \<longleftrightarrow> bit (ucast (push_bit 1 b) :: u16) n"
        using n by (simp only: bit_push_bit_iff bit_ucast_iff possible_bit_word L8) auto
    qed
  qed
qed

lemma fold_upt_Suc: "a \<le> n \<Longrightarrow> fold f [a..<Suc n] x = f n (fold f [a..<n] x)"
  by simp

lemma exp_fill:
  assumes "n \<le> 512"
  shows "\<exists>t. fold (\<lambda>i (table, value). (table[i := ucast value], exp_step value)) [0..<n] (replicate 512 0, 1) =
           (t, ucast (pw n)) \<and> length t = 512 \<and> (\<forall>i<n. t ! i = pw i)"
  using assms
proof (induction n)
  case 0
  then show ?case by simp
next
  case (Suc n)
  then obtain t where t: "fold (\<lambda>i (table, value). (table[i := ucast value], exp_step value)) [0..<n]
      (replicate 512 0, 1) = (t, ucast (pw n))" "length t = 512" "\<forall>i<n. t ! i = pw i" by auto
  have "ucast (ucast (pw n) :: u16) = pw n" by (rule bit_word_eqI) (simp add: bit_ucast_iff)
  then show ?case
    using t Suc.prems by (auto simp: fold_upt_Suc exp_step_pw pw_Suc less_Suc_eq nth_list_update simp del: upt_Suc)
qed

lemma exp_mirror:
  assumes "length t = 512" "\<forall>i<255. t ! i = pw i" "255 \<le> n" "n \<le> 512"
  shows "length (fold (\<lambda>j table. table[j := table ! (j - 255)]) [255..<n] t) = 512 \<and>
         (\<forall>i<n. fold (\<lambda>j table. table[j := table ! (j - 255)]) [255..<n] t ! i = pw i)"
  using assms(3,4)
proof (induction n rule: dec_induct)
  case base
  then show ?case using assms(1,2) by simp
next
  case (step n)
  then have "fold (\<lambda>j table. table[j := table ! (j - 255)]) [255..<n] t ! (n - 255) = pw n"
    using pw_periodic [of "n - 255"] by simp
  then show ?case using step by (auto simp: fold_upt_Suc less_Suc_eq nth_list_update simp del: upt_Suc)
qed

lemma exp_table_facts: "length exp_table = 512" "i < 512 \<Longrightarrow> exp_table ! i = pw i"
proof -
  obtain t where t: "fold (\<lambda>i (table, value). (table[i := ucast value], exp_step value)) [0..<255] (replicate 512 0, 1) =
      (t, ucast (pw 255))" "length t = 512" "\<forall>i<255. t ! i = pw i"
    using exp_fill [of 255] by (auto simp del: upt_Suc upt_rec_numeral)
  then have e: "exp_table = fold (\<lambda>j table. table[j := table ! (j - 255)]) [255..<512] t"
    by (simp only: exp_table_def build_exp_def prod.case Let_def)
  have "(255 :: nat) \<le> 512" "(512 :: nat) \<le> 512" by simp_all
  note m = exp_mirror [OF t(2,3) this, folded e]
  show "length exp_table = 512" "i < 512 \<Longrightarrow> exp_table ! i = pw i"
    using m by blast+
qed

lemma log_fill:
  assumes "n \<le> 255"
  shows "length (fold (\<lambda>i table. table[unat (exp_table ! i) := of_nat i]) [0..<n] (replicate 256 (0 :: u8))) = 256 \<and>
    (\<forall>i<n. fold (\<lambda>i table. table[unat (exp_table ! i) := of_nat i]) [0..<n] (replicate 256 (0 :: u8)) ! unat (pw i) = of_nat i)"
  using assms
proof (induction n)
  case 0
  then show ?case by simp
next
  case (Suc n)
  let ?t = "fold (\<lambda>i table. table[unat (exp_table ! i) := of_nat i]) [0..<n] (replicate 256 (0 :: u8))"
  have "length ?t = 256" "\<forall>i<n. ?t ! unat (pw i) = of_nat i" using Suc by auto
  moreover have "unat (pw n) < 256" using unsigned_less [of "pw n"] by simp
  moreover have "\<forall>i<n. unat (pw n) \<noteq> unat (pw i)"
  proof (intro allI impI notI)
    fix i assume i: "i < n" and "unat (pw n) = unat (pw i)"
    then have "pw n = pw i" by (simp only: word_unat_eq_iff)
    then show False using inj_onD [OF pw_inj, of n i] i Suc.prems by simp
  qed
  moreover have "exp_table ! n = pw n" using Suc.prems by (simp add: exp_table_facts)
  ultimately show ?case by (auto simp: fold_upt_Suc less_Suc_eq nth_list_update simp del: upt_Suc)
qed

lemma log_table_pw: "i < 255 \<Longrightarrow> log_table ! unat (pw i) = of_nat i"
  using log_fill [OF order_refl] unfolding log_table_def build_log_def by blast

lemma unat_of_nat_byte: "i < 256 \<Longrightarrow> unat (of_nat i :: u8) = i"
  by (simp add: unsigned_of_nat take_bit_eq_mod)

lemma log_of_pw [simp]: "i < 255 \<Longrightarrow> unat (log_of (pw i)) = i"
  by (simp add: log_of_def log_table_pw unat_of_nat_byte)

lemma exp_at_pw [simp]: "i < 512 \<Longrightarrow> exp_at i = pw i"
  by (simp add: exp_at_def exp_table_facts)

lemma gf_mul_pw: "i < 255 \<Longrightarrow> j < 255 \<Longrightarrow> gf_mul (pw i) (pw j) = pw (i + j)"
  by (simp add: gf_mul_def exp_table_facts log_table_pw unat_of_nat_byte)

section \<open>The field\<close>

lemma gf_mul_0 [simp]: "gf_mul 0 b = 0" "gf_mul a 0 = 0"
  by (simp_all add: gf_mul_def)

lemma gf_mul_walk: "i < 255 \<Longrightarrow> gf_mul (pw i) b = (xt ^^ i) b"
  by (cases "b = 0") (auto dest!: pw_onto simp: gf_mul_pw xtn_pw)

lemma gf_mul_commute: "gf_mul a b = gf_mul b a"
  by (simp add: gf_mul_def add.commute)

lemma gf_mul_xor: "gf_mul a (b XOR c) = gf_mul a b XOR gf_mul a c"
  by (cases "a = 0") (auto dest!: pw_onto simp: gf_mul_walk xtn_xor)

lemma gf_mul_assoc: "gf_mul (gf_mul a b) c = gf_mul a (gf_mul b c)"
proof (cases "a = 0 \<or> b = 0")
  case False
  then obtain i j where ij: "i < 255" "a = pw i" "j < 255" "b = pw j" by (auto dest!: pw_onto)
  obtain k where k: "k < 255" "pw (i + j) = pw k" using pw_onto [of "pw (i + j)"] by auto
  have "(xt ^^ k) c = (xt ^^ (i + j)) c"
  proof (cases "c = 0")
    case False
    then obtain l where "c = pw l" by (auto dest!: pw_onto)
    then show ?thesis using k(2) by (metis add.commute xtn_pw)
  qed simp
  then have "gf_mul (pw k) c = (xt ^^ i) ((xt ^^ j) c)" using k(1) by (simp add: gf_mul_walk funpow_add)
  moreover have "gf_mul (gf_mul a b) c = gf_mul (pw k) c" using ij k by (simp only: gf_mul_pw)
  moreover have "gf_mul a (gf_mul b c) = (xt ^^ i) ((xt ^^ j) c)" using ij by (simp only: gf_mul_walk)
  ultimately show ?thesis by simp
qed auto

lemma gf_mul_1 [simp]: "gf_mul 1 b = b" "gf_mul b 1 = b"
  using gf_mul_walk [of 0 b] gf_mul_commute [of b 1] by simp_all

lemma gf_inv_mul: "a \<noteq> 0 \<Longrightarrow> gf_mul (gf_inv a) a = 1"
proof -
  assume a: "a \<noteq> 0"
  then obtain i where i: "i < 255" "a = pw i" by (auto dest!: pw_onto)
  then have v: "gf_inv a = pw (255 - i)"
    by (simp add: gf_inv_def log_table_pw unat_of_nat_byte exp_table_facts)
  show ?thesis
  proof (cases "i = 0")
    case True
    then show ?thesis using v i pw_255 by simp
  next
    case False
    then have "gf_mul (pw (255 - i)) (pw i) = pw (255 - i + i)" using i by (intro gf_mul_pw) auto
    then show ?thesis using v i pw_255 by simp
  qed
qed

datatype gf = Gf (byte_of: u8)

instantiation gf :: field
begin

definition "0 = Gf 0"
definition "1 = Gf 1"
definition "a + b = Gf (byte_of a XOR byte_of b)"
definition "a - b = Gf (byte_of a XOR byte_of b)" for a b :: gf
definition "- a = a" for a :: gf
definition "a * b = Gf (gf_mul (byte_of a) (byte_of b))"
definition "inverse a = Gf (gf_inv (byte_of a))"
definition "a div b = a * inverse b" for a b :: gf

lemmas gf_defs = zero_gf_def one_gf_def plus_gf_def minus_gf_def uminus_gf_def times_gf_def inverse_gf_def divide_gf_def

instance
proof
  fix a b c :: gf
  show "a * b * c = a * (b * c)" by (simp add: gf_defs gf_mul_assoc)
  show "a * b = b * a" by (simp add: gf_defs gf_mul_commute)
  show "1 * a = a" by (cases a) (simp add: gf_defs)
  show "a + b + c = a + (b + c)" by (simp add: gf_defs xor.assoc)
  show "a + b = b + a" by (simp add: gf_defs xor.commute)
  show "0 + a = a" by (cases a) (simp add: gf_defs)
  show "- a + a = 0" by (simp add: gf_defs)
  show "a - b = a + - b" by (simp add: gf_defs)
  show "(a + b) * c = a * c + b * c"
    by (simp add: gf_defs gf_mul_commute [of _ "byte_of c"] gf_mul_xor)
  show "(0 :: gf) \<noteq> 1" by (simp add: gf_defs)
  show "a \<noteq> 0 \<Longrightarrow> inverse a * a = 1" by (cases a) (simp add: gf_defs gf_inv_mul)
  show "a div b = a * inverse b" by (simp add: divide_gf_def)
  show "inverse (0 :: gf) = 0" by (simp add: gf_defs gf_inv_def)
qed

end

section \<open>What the region operations compute\<close>

text \<open>The field element at a position of a region, zero past its end.\<close>

definition cell :: "bytes \<Rightarrow> nat \<Rightarrow> gf" where
  "cell bs i = (if i < length bs then Gf (bs ! i) else 0)"

lemma length_zip_into [simp]: "length (zip_into f src dst) = length dst"
  by (induction f src dst rule: zip_into.induct) simp_all

lemma zip_into_nth:
  "i < length dst \<Longrightarrow> zip_into f src dst ! i = (if i < length src then f (src ! i) (dst ! i) else dst ! i)"
  by (induction f src dst arbitrary: i rule: zip_into.induct) (auto simp: nth_Cons split: nat.split)

lemma zip_into_cong:
  "(\<And>s d. f s d = g s d) \<Longrightarrow> zip_into f src dst = zip_into g src dst"
  by (induction f src dst rule: zip_into.induct) simp_all

lemma mask_15: "(0x0F :: u8) = mask 4"
  by (simp add: mask_eq_exp_minus_1)

lemma gf_split_nibbles: "(s AND 0x0F) XOR push_bit 4 (drop_bit 4 s) = (s :: u8)"
  unfolding mask_15 by (rule bit_word_eqI) (auto simp: bit_simps bit_mask_iff)

lemma mul_table_lookup:
  "nibble_at (mt_lo (mul_table_new c)) (unat (s AND 0x0F)) XOR nibble_at (mt_hi (mul_table_new c)) (unat (drop_bit 4 s)) =
   gf_mul c s"
proof -
  have lo: "unat (s AND 0x0F) < 16"
    using take_bit_nat_less_exp [of 4 "unat s"]
    by (simp add: mask_15 unsigned_take_bit_eq flip: take_bit_eq_mask)
  have hi: "unat (drop_bit 4 s) < 16"
  proof -
    have "unat s < 256" using unsigned_less [of s] by simp
    then show ?thesis
      by (simp only: unsigned_drop_bit_eq) (simp add: drop_bit_eq_div take_bit_eq_mod less_mult_imp_div_less)
  qed
  have "push_bit 4 (of_nat (unat (drop_bit 4 s))) = push_bit 4 (drop_bit 4 s)" by simp
  then have "of_nat (push_bit 4 (unat (drop_bit 4 s))) = push_bit 4 (drop_bit 4 s)"
    by (simp only: of_nat_push_bit)
  then show ?thesis
    using lo hi gf_mul_xor [of c "s AND 0x0F" "push_bit 4 (drop_bit 4 s)"]
    by (simp add: nibble_at_def mul_table_new_def gf_split_nibbles del: of_nat_push_bit)
qed

lemma add_scaled_eq: "add_scaled (mul_table_new c) src dst = zip_into (\<lambda>s d. d XOR gf_mul c s) src dst"
  by (simp only: add_scaled_def mul_add_scalar_def mul_table_lookup)

lemma log_sum_lookup: "c \<noteq> 0 \<Longrightarrow> s \<noteq> 0 \<Longrightarrow> exp_at (unat (log_of c) + unat (log_of s)) = gf_mul c s"
  by (auto dest!: pw_onto simp: gf_mul_pw)

text \<open>The three strategies of the scaled accumulate are one function.\<close>

lemma gf_mul_add_eq: "gf_mul_add c src dst = zip_into (\<lambda>s d. d XOR gf_mul c s) src dst"
proof -
  have z: "zip_into (\<lambda>s d. d) src dst = dst"
    by (rule nth_equalityI) (simp_all add: zip_into_nth)
  show ?thesis
    by (auto simp: gf_mul_add_def xor_add_def add_scaled_eq Let_def z log_sum_lookup intro!: zip_into_cong)
qed

lemma cell_scaled:
  "i < length dst \<Longrightarrow> cell (zip_into (\<lambda>s d. d XOR gf_mul c s) src dst) i = cell dst i + Gf c * cell src i"
  by (auto simp: cell_def zip_into_nth gf_defs)

lemma length_gf_mul_add [simp]: "length (gf_mul_add c src dst) = length dst"
  by (simp add: gf_mul_add_eq)

lemma cell_gf_mul_add: "i < length dst \<Longrightarrow> cell (gf_mul_add c src dst) i = cell dst i + Gf c * cell src i"
  by (simp add: gf_mul_add_eq cell_scaled)

lemma cell_beyond [simp]: "length bs \<le> i \<Longrightarrow> cell bs i = 0"
  by (simp add: cell_def)

lemma cell_eqI:
  assumes "length xs = length ys" "\<And>i. i < length ys \<Longrightarrow> cell xs i = cell ys i"
  shows "xs = ys"
  using assms by (intro nth_equalityI) (auto simp: cell_def)

lemma length_xor_add [simp]: "length (xor_add src dst) = length dst"
  by (simp add: xor_add_def)

lemma cell_xor_add: "i < length dst \<Longrightarrow> cell (xor_add src dst) i = cell dst i + cell src i"
  by (auto simp: cell_def xor_add_def zip_into_nth gf_defs)

lemma gf_double [simp]: "(a :: gf) + a = 0"
  by (simp add: gf_defs)

end
