(* ===== verification/Rs_Matrix.thy ===== *)
theory Rs_Matrix
  imports Gf256
begin

text \<open>
  The linear algebra of the erasure code (\<open>slopdesk-video/src/rs_matrix.rs\<close>): the Cauchy parity block and
  the Gauss-Jordan inverse over one flat row-major working buffer, with the pivot search and the row
  operations of the code. The lemmas show that a square Cauchy system has only the trivial solution, that
  the elimination answers an inverse exactly when the matrix has a trivial kernel, and hence that any \<open>k\<close>
  distinct shards determine the data.
\<close>

section \<open>The parity block\<close>

text \<open>\<open>None\<close> is the assertion on the shape failing.\<close>

definition parity_rows :: "nat \<Rightarrow> nat \<Rightarrow> bytes option" where
  "parity_rows k m =
    (if k + m \<le> 256
     then Some (concat (map (\<lambda>i. map (\<lambda>j. gf_inv (of_nat (k + i) XOR of_nat j)) [0..<k]) [0..<m]))
     else None)"

section \<open>The working buffer\<close>

definition work_at :: "bytes \<Rightarrow> nat \<Rightarrow> nat \<Rightarrow> nat \<Rightarrow> u8" where
  "work_at work stride r c = (if r * stride + c < length work then work ! (r * stride + c) else 0)"

definition row_at :: "bytes \<Rightarrow> nat \<Rightarrow> nat \<Rightarrow> bytes" where
  "row_at work stride r = take stride (drop (r * stride) work)"

definition set_row :: "bytes \<Rightarrow> nat \<Rightarrow> nat \<Rightarrow> bytes \<Rightarrow> bytes" where
  "set_row work stride r row = overwrite work (r * stride) row"

definition swap_rows :: "bytes \<Rightarrow> nat \<Rightarrow> nat \<Rightarrow> nat \<Rightarrow> bytes" where
  "swap_rows work stride a b =
    (if a = b then work
     else if length work < (max a b + 1) * stride then work
     else set_row (set_row work stride a (row_at work stride b)) stride b (row_at work stride a))"

definition scale_row :: "bytes \<Rightarrow> nat \<Rightarrow> nat \<Rightarrow> u8 \<Rightarrow> bytes" where
  "scale_row work stride r s =
    (if s = 1 then work
     else if length work < (r + 1) * stride then work
     else set_row work stride r (map (\<lambda>v. gf_mul v s) (row_at work stride r)))"

definition eliminate_row :: "bytes \<Rightarrow> nat \<Rightarrow> nat \<Rightarrow> nat \<Rightarrow> u8 \<Rightarrow> bytes" where
  "eliminate_row work stride src dst factor =
    (if src = dst then work
     else if length work < (max src dst + 1) * stride then work
     else set_row work stride dst (gf_mul_add factor (row_at work stride src) (row_at work stride dst)))"

section \<open>Gauss-Jordan\<close>

definition augment :: "bytes list \<Rightarrow> nat \<Rightarrow> bytes" where
  "augment rows k = concat (map (\<lambda>(r, row). row @ (replicate k 0)[r := 1]) (enumerate 0 rows))"

definition eliminate_column :: "nat \<Rightarrow> nat \<Rightarrow> bytes \<Rightarrow> bytes" where
  "eliminate_column k col work =
    fold (\<lambda>r work. if r = col then work
                   else let factor = work_at work (2 * k) r col
                        in if factor \<noteq> 0 then eliminate_row work (2 * k) col r factor else work)
      [0..<k] work"

definition reduce_column :: "nat \<Rightarrow> nat \<Rightarrow> bytes \<Rightarrow> bytes option" where
  "reduce_column k col work =
    (case find (\<lambda>pivot. work_at work (2 * k) pivot col \<noteq> 0) [col..<k] of
       None \<Rightarrow> None
     | Some pivot \<Rightarrow>
         let work = (if pivot \<noteq> col then swap_rows work (2 * k) pivot col else work);
             inv_pivot = gf_inv (work_at work (2 * k) col col);
             work = scale_row work (2 * k) col inv_pivot
         in Some (eliminate_column k col work))"

fun reduce_columns :: "nat \<Rightarrow> nat list \<Rightarrow> bytes \<Rightarrow> bytes option" where
  "reduce_columns k [] work = Some work"
| "reduce_columns k (col # cols) work =
    (case reduce_column k col work of None \<Rightarrow> None | Some work \<Rightarrow> reduce_columns k cols work)"

definition right_half :: "nat \<Rightarrow> bytes \<Rightarrow> bytes" where
  "right_half k work = concat (map (\<lambda>r. drop k (row_at work (2 * k) r)) [0..<k])"

definition invert_subset :: "bytes list \<Rightarrow> nat \<Rightarrow> bytes option" where
  "invert_subset rows k =
    (if k = 0 \<or> length rows \<noteq> k then None
     else if \<exists>row\<in>set rows. length row \<noteq> k then None
     else case reduce_columns k [0..<k] (augment rows k) of
            None \<Rightarrow> None
          | Some work \<Rightarrow> Some (right_half k work))"

section \<open>A square Cauchy system has only the trivial solution\<close>

lemma cauchy_kernel:
  fixes x :: "'i \<Rightarrow> 'a :: field" and y :: "'j \<Rightarrow> 'a" and c :: "'j \<Rightarrow> 'a"
  assumes "finite I" "finite J" "card I = card J" "inj_on x I" "inj_on y J"
    and "\<And>i j. i \<in> I \<Longrightarrow> j \<in> J \<Longrightarrow> x i + y j \<noteq> 0"
    and "\<And>i. i \<in> I \<Longrightarrow> (\<Sum>j\<in>J. c j * inverse (x i + y j)) = 0"
  shows "\<forall>j\<in>J. c j = 0"
  using assms
proof (induction "card J" arbitrary: I J c)
  case 0
  then show ?case by simp
next
  case (Suc n)
  obtain q J' where J: "J = insert q J'" "q \<notin> J'" "card J' = n"
    using Suc.hyps(2) card_Suc_eq by metis
  obtain p I' where I: "I = insert p I'" "p \<notin> I'" "card I' = n"
    using Suc.hyps(2) Suc.prems(3) card_Suc_eq by metis
  have fin: "finite I'" "finite J'" using Suc.prems(1,2) I J by auto
  define d where "d = (\<lambda>j. c j * (y q - y j))"
  define e where "e = (\<lambda>j. d j * inverse (x p + y j))"
  have shifted: "(\<Sum>j\<in>J. c j) + (\<Sum>j\<in>J'. d j * inverse (x i + y j)) = 0" if i: "i \<in> I" for i
  proof -
    have "c j * inverse (x i + y j) * (x i + y q) = c j + d j * inverse (x i + y j)" if "j \<in> J" for j
      using Suc.prems(6) [OF i that] by (simp add: d_def field_simps)
    then have "(\<Sum>j\<in>J. c j * inverse (x i + y j)) * (x i + y q) = (\<Sum>j\<in>J. c j) + (\<Sum>j\<in>J. d j * inverse (x i + y j))"
      by (simp add: sum_distrib_right sum.distrib)
    moreover have "(\<Sum>j\<in>J. d j * inverse (x i + y j)) = (\<Sum>j\<in>J'. d j * inverse (x i + y j))"
      using J fin by (simp add: d_def)
    ultimately show ?thesis using Suc.prems(7) [OF i] by simp
  qed
  have "\<forall>j\<in>J'. e j = 0"
  proof (rule Suc.hyps(1) [OF J(3) [symmetric], of I'])
    fix i assume i: "i \<in> I'"
    have neq: "x p - x i \<noteq> 0" using Suc.prems(4) I i by (auto simp: inj_on_def)
    have "(\<Sum>j\<in>J. c j) + (\<Sum>j\<in>J'. d j * inverse (x i + y j)) = (\<Sum>j\<in>J. c j) + (\<Sum>j\<in>J'. d j * inverse (x p + y j))"
      using shifted [of i] shifted [of p] I i by simp
    then have "(\<Sum>j\<in>J'. d j * inverse (x i + y j)) - (\<Sum>j\<in>J'. d j * inverse (x p + y j)) = 0"
      by simp
    moreover have "d j * inverse (x i + y j) - d j * inverse (x p + y j) = (x p - x i) * (e j * inverse (x i + y j))"
      if "j \<in> J'" for j
    proof -
      have "x i + y j \<noteq> 0" "x p + y j \<noteq> 0" using Suc.prems(6) I J i that by auto
      then have "inverse (x i + y j) - inverse (x p + y j) = (x p - x i) * (inverse (x p + y j) * inverse (x i + y j))"
        by (simp add: field_simps)
      then have "d j * (inverse (x i + y j) - inverse (x p + y j)) = (x p - x i) * (e j * inverse (x i + y j))"
        by (simp add: e_def mult.assoc mult.left_commute)
      then show ?thesis by (simp only: right_diff_distrib)
    qed
    ultimately have "(x p - x i) * (\<Sum>j\<in>J'. e j * inverse (x i + y j)) = 0"
      by (simp add: sum_distrib_left flip: sum_subtractf)
    then show "(\<Sum>j\<in>J'. e j * inverse (x i + y j)) = 0" using neq by simp
  qed (use Suc.prems I J fin in \<open>auto simp: inj_on_def\<close>)
  then have rest: "\<forall>j\<in>J'. c j = 0"
    using Suc.prems(5) Suc.prems(6) [of p] I J by (auto simp: e_def d_def inj_on_def)
  moreover have "c q = 0"
  proof -
    have "(\<Sum>j\<in>J. c j * inverse (x p + y j)) = c q * inverse (x p + y q)"
      using J fin rest by simp
    then show ?thesis using Suc.prems(7) [of p] Suc.prems(6) [of p q] I J by simp
  qed
  ultimately show ?case using J by simp
qed

section \<open>The buffer as a matrix\<close>

lemma flat_index: "r < n \<Longrightarrow> c < s \<Longrightarrow> r * s + c < n * (s :: nat)"
proof -
  assume "r < n" "c < s"
  then have "r * s + c < Suc r * s" "Suc r * s \<le> n * s" by (simp, intro mult_le_mono1) simp_all
  then show ?thesis by (rule less_le_trans)
qed

lemma length_set_row [simp]:
  "length work = n * s \<Longrightarrow> length row = s \<Longrightarrow> r < n \<Longrightarrow> length (set_row work s r row) = n * s"
  using mult_le_mono1 [of "Suc r" n s] by (simp add: set_row_def)

lemma length_row_at [simp]: "length work = n * s \<Longrightarrow> r < n \<Longrightarrow> length (row_at work s r) = s"
  using mult_le_mono1 [of "Suc r" n s] by (simp add: row_at_def)

lemma row_at_nth:
  "length work = n * s \<Longrightarrow> r < n \<Longrightarrow> c < s \<Longrightarrow> row_at work s r ! c = work_at work s r c"
  using flat_index [of r n c s] by (simp add: row_at_def work_at_def)

lemma work_at_set_row:
  assumes "length work = n * s" "length row = s" "r < n" "r' < n" "c < s"
  shows "work_at (set_row work s r row) s r' c = (if r' = r then row ! c else work_at work s r' c)"
proof -
  note bounds = flat_index [OF assms(4,5)] mult_le_mono1 [of "Suc r" n s]
  consider "r' = r" | "r' < r" "r' * s + c < r * s" | "r < r'" "Suc r * s \<le> r' * s + c"
    using flat_index [of r' r c s] mult_le_mono1 [of "Suc r" r' s] assms(5) by (metis Suc_leI linorder_neqE_nat trans_le_add1)
  then show ?thesis
    using assms bounds
    by cases (auto simp: work_at_def set_row_def overwrite_def nth_append)
qed

definition entry :: "nat \<Rightarrow> bytes \<Rightarrow> nat \<Rightarrow> nat \<Rightarrow> gf" where
  "entry k work r c = Gf (work_at work (2 * k) r c)"

text \<open>What each row operation does to the entries of a \<open>k\<close> by \<open>2 k\<close> buffer.\<close>

lemma swap_rows_entry:
  assumes "length work = k * (2 * k)" "a < k" "b < k" "a \<noteq> b"
  shows "length (swap_rows work (2 * k) a b) = k * (2 * k)"
    and "r < k \<Longrightarrow> c < 2 * k \<Longrightarrow> entry k (swap_rows work (2 * k) a b) r c =
           entry k work (if r = a then b else if r = b then a else r) c"
proof -
  have "\<not> length work < (max a b + 1) * (2 * k)"
    using assms mult_le_mono1 [of "Suc (max a b)" k "2 * k"] by (simp add: not_less)
  then have e: "swap_rows work (2 * k) a b =
      set_row (set_row work (2 * k) a (row_at work (2 * k) b)) (2 * k) b (row_at work (2 * k) a)"
    using assms(4) by (simp add: swap_rows_def)
  show "length (swap_rows work (2 * k) a b) = k * (2 * k)"
    unfolding e using assms by (intro length_set_row) auto
  show "r < k \<Longrightarrow> c < 2 * k \<Longrightarrow> entry k (swap_rows work (2 * k) a b) r c =
           entry k work (if r = a then b else if r = b then a else r) c"
    unfolding e entry_def using assms
    by (simp add: work_at_set_row [of _ k] row_at_nth [of _ k])
qed

lemma scale_row_entry:
  assumes "length work = k * (2 * k)" "a < k"
  shows "length (scale_row work (2 * k) a s) = k * (2 * k)"
    and "r < k \<Longrightarrow> c < 2 * k \<Longrightarrow> entry k (scale_row work (2 * k) a s) r c =
           (if r = a then Gf s * entry k work r c else entry k work r c)"
proof -
  have "\<not> length work < (a + 1) * (2 * k)"
    using assms mult_le_mono1 [of "Suc a" k "2 * k"] by (simp add: not_less)
  moreover have "map (\<lambda>v. gf_mul v 1) xs = xs" for xs by (simp add: map_idI)
  ultimately have e: "scale_row work (2 * k) a s = set_row work (2 * k) a (map (\<lambda>v. gf_mul v s) (row_at work (2 * k) a)) \<or>
      s = 1 \<and> scale_row work (2 * k) a s = work"
    by (auto simp: scale_row_def)
  then show "length (scale_row work (2 * k) a s) = k * (2 * k)"
    using assms by auto
  show "r < k \<Longrightarrow> c < 2 * k \<Longrightarrow> entry k (scale_row work (2 * k) a s) r c =
           (if r = a then Gf s * entry k work r c else entry k work r c)"
    using e assms
    by (auto simp: entry_def work_at_set_row [of _ k] row_at_nth [of _ k] gf_defs gf_mul_commute)
qed

lemma eliminate_row_entry:
  assumes "length work = k * (2 * k)" "a < k" "b < k" "a \<noteq> b"
  shows "length (eliminate_row work (2 * k) a b f) = k * (2 * k)"
    and "r < k \<Longrightarrow> c < 2 * k \<Longrightarrow> entry k (eliminate_row work (2 * k) a b f) r c =
           (if r = b then entry k work b c + Gf f * entry k work a c else entry k work r c)"
proof -
  have "\<not> length work < (max a b + 1) * (2 * k)"
    using assms mult_le_mono1 [of "Suc (max a b)" k "2 * k"] by (simp add: not_less)
  then have e: "eliminate_row work (2 * k) a b f =
      set_row work (2 * k) b (gf_mul_add f (row_at work (2 * k) a) (row_at work (2 * k) b))"
    using assms(4) by (simp add: eliminate_row_def)
  show "length (eliminate_row work (2 * k) a b f) = k * (2 * k)"
    unfolding e using assms by (intro length_set_row) auto
  show "r < k \<Longrightarrow> c < 2 * k \<Longrightarrow> entry k (eliminate_row work (2 * k) a b f) r c =
           (if r = b then entry k work b c + Gf f * entry k work a c else entry k work r c)"
    unfolding e entry_def using assms
    by (auto simp: work_at_set_row [of _ k] row_at_nth [of _ k] gf_mul_add_eq zip_into_nth gf_defs)
qed

section \<open>The invariant of the elimination\<close>

text \<open>The left half stays the product of the right half with the original matrix, and a vector that the
  left half annihilates is one the original annihilates.\<close>

definition apply_row :: "nat \<Rightarrow> (nat \<Rightarrow> nat \<Rightarrow> gf) \<Rightarrow> (nat \<Rightarrow> gf) \<Rightarrow> nat \<Rightarrow> gf" where
  "apply_row k A v r = (\<Sum>c<k. A r c * v c)"

definition reduces :: "nat \<Rightarrow> (nat \<Rightarrow> nat \<Rightarrow> gf) \<Rightarrow> bytes \<Rightarrow> bool" where
  "reduces k A work \<longleftrightarrow> length work = k * (2 * k) \<and>
     (\<forall>r<k. \<forall>c<k. (\<Sum>t<k. entry k work r (k + t) * A t c) = entry k work r c) \<and>
     (\<forall>v. (\<forall>r<k. apply_row k (entry k work) v r = 0) \<longrightarrow> (\<forall>r<k. apply_row k A v r = 0))"

definition unit_columns :: "nat \<Rightarrow> nat \<Rightarrow> bytes \<Rightarrow> bool" where
  "unit_columns k n work \<longleftrightarrow> (\<forall>r<k. \<forall>c<n. entry k work r c = (if r = c then 1 else 0))"

lemma reducesI:
  assumes "reduces k A work" "length work' = k * (2 * k)"
    and row: "\<And>r. r < k \<Longrightarrow> \<exists>s u a b. a < k \<and> b < k \<and> (\<forall>c<2*k. entry k work' r c = s * entry k work a c + u * entry k work b c)"
    and kernel: "\<And>v. (\<forall>r<k. apply_row k (entry k work') v r = 0) \<Longrightarrow> (\<forall>r<k. apply_row k (entry k work) v r = 0)"
  shows "reduces k A work'"
proof -
  have old: "(\<Sum>t<k. entry k work r (k + t) * A t c) = entry k work r c" if "r < k" "c < k" for r c
    using assms(1) that by (simp add: reduces_def)
  have "(\<Sum>t<k. entry k work' r (k + t) * A t c) = entry k work' r c" if r: "r < k" and c: "c < k" for r c
  proof -
    obtain s u a b where ab: "a < k" "b < k" and e: "\<forall>c<2*k. entry k work' r c = s * entry k work a c + u * entry k work b c"
      using row [OF r] by blast
    have "(\<Sum>t<k. entry k work' r (k + t) * A t c) =
        s * (\<Sum>t<k. entry k work a (k + t) * A t c) + u * (\<Sum>t<k. entry k work b (k + t) * A t c)"
      using e by (simp add: sum_distrib_left distrib_right mult.assoc flip: sum.distrib)
    also have "\<dots> = entry k work' r c" using e c old ab by simp
    finally show ?thesis .
  qed
  then show ?thesis using assms(1,2) kernel by (auto simp: reduces_def)
qed

lemma reduces_swap:
  assumes "reduces k A work" "a < k" "b < k" "a \<noteq> b"
  shows "reduces k A (swap_rows work (2 * k) a b)"
proof -
  have len: "length work = k * (2 * k)" using assms(1) by (simp add: reduces_def)
  note E = swap_rows_entry [OF len assms(2-4)]
  show ?thesis
  proof (rule reducesI [OF assms(1) E(1)])
    fix r assume r: "r < k"
    show "\<exists>s u a' b'. a' < k \<and> b' < k \<and>
        (\<forall>c<2*k. entry k (swap_rows work (2 * k) a b) r c = s * entry k work a' c + u * entry k work b' c)"
      using r assms(2,3) E(2) by (intro exI [of _ 1] exI [of _ 0] exI [of _ "if r = a then b else if r = b then a else r"] exI [of _ r]) auto
  next
    fix v assume z: "\<forall>r<k. apply_row k (entry k (swap_rows work (2 * k) a b)) v r = 0"
    show "\<forall>r<k. apply_row k (entry k work) v r = 0"
    proof (intro allI impI)
      fix r assume r: "r < k"
      define r' where "r' = (if r = a then b else if r = b then a else r)"
      have "r' < k" using r assms(2,3) by (simp add: r'_def)
      moreover have "apply_row k (entry k (swap_rows work (2 * k) a b)) v r' = apply_row k (entry k work) v r"
        using \<open>r' < k\<close> assms(4) by (simp add: apply_row_def E(2)) (simp add: r'_def)
      ultimately show "apply_row k (entry k work) v r = 0" using z by simp
    qed
  qed
qed

lemma reduces_scale:
  assumes "reduces k A work" "a < k" "s \<noteq> 0"
  shows "reduces k A (scale_row work (2 * k) a s)"
proof -
  have len: "length work = k * (2 * k)" using assms(1) by (simp add: reduces_def)
  note E = scale_row_entry [OF len assms(2)]
  show ?thesis
  proof (rule reducesI [OF assms(1) E(1)])
    fix r assume r: "r < k"
    show "\<exists>t u a' b'. a' < k \<and> b' < k \<and>
        (\<forall>c<2*k. entry k (scale_row work (2 * k) a s) r c = t * entry k work a' c + u * entry k work b' c)"
      using r E(2) by (intro exI [of _ "if r = a then Gf s else 1"] exI [of _ 0] exI [of _ r]) auto
  next
    fix v assume z: "\<forall>r<k. apply_row k (entry k (scale_row work (2 * k) a s)) v r = 0"
    have e: "apply_row k (entry k (scale_row work (2 * k) a s)) v r =
        (if r = a then Gf s else 1) * apply_row k (entry k work) v r" if "r < k" for r
      using that by (simp add: apply_row_def E(2) sum_distrib_left mult.assoc)
    have s: "Gf s \<noteq> 0" using assms(3) by (simp add: zero_gf_def)
    show "\<forall>r<k. apply_row k (entry k work) v r = 0"
    proof (intro allI impI)
      fix r assume r: "r < k"
      then have "(if r = a then Gf s else 1) * apply_row k (entry k work) v r = 0" using e z by simp
      then show "apply_row k (entry k work) v r = 0" using s by (cases "r = a") auto
    qed
  qed
qed

lemma reduces_eliminate:
  assumes "reduces k A work" "a < k" "b < k" "a \<noteq> b"
  shows "reduces k A (eliminate_row work (2 * k) a b f)"
proof -
  have len: "length work = k * (2 * k)" using assms(1) by (simp add: reduces_def)
  note E = eliminate_row_entry [OF len assms(2-4)]
  show ?thesis
  proof (rule reducesI [OF assms(1) E(1)])
    fix r assume r: "r < k"
    show "\<exists>s u a' b'. a' < k \<and> b' < k \<and>
        (\<forall>c<2*k. entry k (eliminate_row work (2 * k) a b f) r c = s * entry k work a' c + u * entry k work b' c)"
      using r assms(2) E(2) by (intro exI [of _ 1] exI [of _ "if r = b then Gf f else 0"] exI [of _ r] exI [of _ a]) auto
  next
    fix v assume z: "\<forall>r<k. apply_row k (entry k (eliminate_row work (2 * k) a b f)) v r = 0"
    have e: "apply_row k (entry k (eliminate_row work (2 * k) a b f)) v r =
        apply_row k (entry k work) v r + (if r = b then Gf f else 0) * apply_row k (entry k work) v a" if "r < k" for r
      using that by (simp add: apply_row_def E(2) sum_distrib_left mult.assoc distrib_right sum.distrib)
    have "apply_row k (entry k work) v a = 0" using e [OF assms(2)] z assms(2,4) by simp
    then show "\<forall>r<k. apply_row k (entry k work) v r = 0" using e z by simp
  qed
qed

section \<open>A column is cleared\<close>

lemma fold_invariant:
  assumes "P 0 s" "\<And>i s. i < n \<Longrightarrow> P i s \<Longrightarrow> P (Suc i) (f i s)"
  shows "P n (fold f [0..<n] s)"
  using assms(2) by (induction n) (simp_all add: assms(1))

text \<open>What a cleared column needs of the buffer before: its own row carries a one, the columns before
  it are unit columns.\<close>

lemma eliminate_column_reduces:
  assumes "reduces k A work" "unit_columns k col work" "col < k" "entry k work col col = 1"
  shows "reduces k A (eliminate_column k col work) \<and> unit_columns k (Suc col) (eliminate_column k col work)"
proof -
  define P where "P = (\<lambda>n w. reduces k A w \<and> unit_columns k col w \<and> entry k w col col = 1 \<and>
    (\<forall>r<n. r \<noteq> col \<longrightarrow> entry k w r col = 0))"
  define f where "f = (\<lambda>r w. if r = col then w
      else let factor = work_at w (2 * k) r col in if factor \<noteq> 0 then eliminate_row w (2 * k) col r factor else w)"
  have "P k (fold f [0..<k] work)"
  proof (rule fold_invariant)
    show "P 0 work" using assms by (simp add: P_def)
  next
    fix r w assume r: "r < k" and p: "P r w"
    then have red: "reduces k A w" and unit: "unit_columns k col w" and one: "entry k w col col = 1"
      and past: "\<forall>r'<r. r' \<noteq> col \<longrightarrow> entry k w r' col = 0" by (simp_all add: P_def)
    define factor where "factor = work_at w (2 * k) r col"
    show "P (Suc r) (f r w)"
    proof (cases "r = col \<or> factor = 0")
      case True
      moreover have "factor = 0 \<Longrightarrow> entry k w r col = 0" by (simp add: factor_def entry_def zero_gf_def)
      ultimately show ?thesis
        using p by (auto simp: P_def f_def factor_def less_Suc_eq Let_def)
    next
      case False
      then have f: "f r w = eliminate_row w (2 * k) col r factor" by (simp add: f_def factor_def)
      have len: "length w = k * (2 * k)" using red by (simp add: reduces_def)
      have E: "entry k (eliminate_row w (2 * k) col r factor) r' c =
          (if r' = r then entry k w r c + Gf factor * entry k w col c else entry k w r' c)" if "r' < k" "c < 2 * k" for r' c
        using eliminate_row_entry(2) [OF len assms(3) r _ that] False by auto
      have "entry k w r col + Gf factor * entry k w col col = 0"
        using one by (simp add: factor_def entry_def)
      moreover have "entry k w col c = 0" if "c < col" for c
        using unit that assms(3) by (simp add: unit_columns_def)
      ultimately show ?thesis
        unfolding f P_def using reduces_eliminate [OF red assms(3) r] False unit one past assms(3) r
        by (auto simp: E unit_columns_def less_Suc_eq)
    qed
  qed
  moreover have "eliminate_column k col work = fold f [0..<k] work"
    by (simp add: eliminate_column_def f_def)
  ultimately have "P k (eliminate_column k col work)" by simp
  then show ?thesis using assms(3) by (auto simp: P_def unit_columns_def less_Suc_eq)
qed

text \<open>A column of a matrix with trivial kernel has a pivot at or below the diagonal.\<close>

definition trivial_kernel :: "nat \<Rightarrow> (nat \<Rightarrow> nat \<Rightarrow> gf) \<Rightarrow> bool" where
  "trivial_kernel k A \<longleftrightarrow> (\<forall>v. (\<forall>r<k. apply_row k A v r = 0) \<longrightarrow> (\<forall>c<k. v c = 0))"

lemma pivot_exists:
  assumes "reduces k A work" "unit_columns k col work" "col < k" "trivial_kernel k A"
  shows "\<exists>p\<in>{col..<k}. work_at work (2 * k) p col \<noteq> 0"
proof (rule ccontr)
  assume none: "\<not> ?thesis"
  define v where "v = (\<lambda>c. if c < col then entry k work c col else if c = col then 1 else 0)"
  have "apply_row k (entry k work) v r = 0" if r: "r < k" for r
  proof -
    have "apply_row k (entry k work) v r = (\<Sum>c\<in>insert col {..<col}. entry k work r c * v c)"
      unfolding apply_row_def using assms(3) by (intro sum.mono_neutral_right) (auto simp: v_def)
    also have "\<dots> = entry k work r col + (\<Sum>c<col. (if r = c then 1 else 0) * entry k work c col)"
      using assms(2) r by (auto simp: v_def unit_columns_def intro!: sum.cong)
    also have "(\<Sum>c<col. (if r = c then 1 else 0) * entry k work c col) = (if r < col then entry k work r col else 0)"
      by (simp add: if_distrib [of "\<lambda>x. x * _"] sum.delta cong: if_cong)
    also have "entry k work r col + (if r < col then entry k work r col else 0) = 0"
      using none r by (auto simp: entry_def zero_gf_def)
    finally show ?thesis .
  qed
  then have "\<forall>r<k. apply_row k A v r = 0" using assms(1) by (auto simp: reduces_def)
  then have "v col = 0" using assms(3,4) by (auto simp: trivial_kernel_def)
  then show False by (simp add: v_def)
qed

lemma pivot_row:
  assumes "reduces k A work" "unit_columns k col work" "col \<le> p" "p < k"
  defines "w \<equiv> (if p \<noteq> col then swap_rows work (2 * k) p col else work)"
  shows "reduces k A w" "unit_columns k col w" "work_at w (2 * k) col col = work_at work (2 * k) p col"
proof -
  have len: "length work = k * (2 * k)" using assms(1) by (simp add: reduces_def)
  have c: "col < k" using assms(3,4) by simp
  show "reduces k A w" using reduces_swap [OF assms(1,4) c] assms(1) by (simp add: w_def)
  have E: "entry k w r x = entry k work (if r = p then col else if r = col then p else r) x"
    if "r < k" "x < 2 * k" for r x
    using swap_rows_entry(2) [OF len assms(4) c _ that] by (auto simp: w_def)
  show "unit_columns k col w"
    using assms(2,3,4) by (auto simp: unit_columns_def E)
  show "work_at w (2 * k) col col = work_at work (2 * k) p col"
    using E [of col col] c by (auto simp: entry_def split: if_splits)
qed

lemma reduce_column_sound:
  assumes "reduces k A work" "unit_columns k col work" "col < k" "reduce_column k col work = Some w"
  shows "reduces k A w \<and> unit_columns k (Suc col) w"
proof -
  obtain p where find: "find (\<lambda>p. work_at work (2 * k) p col \<noteq> 0) [col..<k] = Some p"
    using assms(4) by (cases "find (\<lambda>p. work_at work (2 * k) p col \<noteq> 0) [col..<k]") (auto simp: reduce_column_def)
  then have "p \<in> set [col..<k]" and nz: "work_at work (2 * k) p col \<noteq> 0"
    by (auto simp: find_Some_iff)
  then have p: "col \<le> p" "p < k" by auto
  define s where "s = (if p \<noteq> col then swap_rows work (2 * k) p col else work)"
  note S = pivot_row [OF assms(1,2) p, folded s_def]
  define i where "i = gf_inv (work_at s (2 * k) col col)"
  have one: "gf_mul i (work_at s (2 * k) col col) = 1" using nz S(3) by (simp add: i_def gf_inv_mul)
  then have "i \<noteq> 0" by auto
  have len: "length s = k * (2 * k)" using S(1) by (simp add: reduces_def)
  define z where "z = scale_row s (2 * k) col i"
  have Z: "entry k z r c = (if r = col then Gf i * entry k s r c else entry k s r c)" if "r < k" "c < 2 * k" for r c
    using scale_row_entry(2) [OF len assms(3) that] by (simp add: z_def)
  have "reduces k A z" unfolding z_def by (rule reduces_scale [OF S(1) assms(3) \<open>i \<noteq> 0\<close>])
  moreover have "unit_columns k col z" using S(2) assms(3) by (auto simp: unit_columns_def Z)
  moreover have "entry k z col col = 1" using one assms(3) Z [of col col] by (simp add: entry_def gf_defs)
  moreover have "w = eliminate_column k col z"
    using assms(4) find by (simp add: reduce_column_def Let_def s_def i_def z_def)
  ultimately show ?thesis using eliminate_column_reduces assms(3) by blast
qed

lemma reduce_columns_sound:
  assumes "reduces k A work" "unit_columns k n work" "n \<le> k" "reduce_columns k [n..<k] work = Some w"
  shows "reduces k A w \<and> unit_columns k k w"
  using assms
proof (induction "k - n" arbitrary: n work)
  case 0
  then show ?case by simp
next
  case (Suc d)
  then have n: "n < k" by simp
  then obtain w' where w': "reduce_column k n work = Some w'" "reduce_columns k [Suc n..<k] w' = Some w"
    using Suc.prems(4) by (auto simp: upt_conv_Cons split: option.splits)
  show ?case
    using Suc.hyps(1) [of "Suc n" w'] Suc.hyps(2) n w' reduce_column_sound [OF Suc.prems(1,2) n w'(1)] by simp
qed

lemma reduce_columns_total:
  assumes "reduces k A work" "unit_columns k n work" "n \<le> k" "trivial_kernel k A"
  shows "\<exists>w. reduce_columns k [n..<k] work = Some w"
  using assms(1-3)
proof (induction "k - n" arbitrary: n work)
  case 0
  then show ?case by simp
next
  case (Suc d)
  then have n: "n < k" by simp
  have "find (\<lambda>p. work_at work (2 * k) p n \<noteq> 0) [n..<k] \<noteq> None"
    using pivot_exists [OF Suc.prems(1,2) n assms(4)] by (auto simp: find_None_iff)
  then obtain w' where w': "reduce_column k n work = Some w'"
    by (auto simp: reduce_column_def Let_def)
  show ?case
    using Suc.hyps(1) [of "Suc n" w'] Suc.hyps(2) n w' reduce_column_sound [OF Suc.prems(1,2) n w'] by (simp add: upt_conv_Cons)
qed

section \<open>The inverse\<close>

lemma concat_flat:
  assumes "\<forall>xs\<in>set xss. length xs = n"
  shows "length (concat xss) = length xss * n \<and> (\<forall>r<length xss. \<forall>i<n. concat xss ! (r * n + i) = xss ! r ! i)"
  using assms
proof (induction xss)
  case (Cons xs xss)
  have "concat (xs # xss) ! (r * n + i) = (xs # xss) ! r ! i" if "r < length (xs # xss)" "i < n" for r i
    using Cons that by (cases r) (auto simp: nth_append)
  then show ?case using Cons by simp
qed simp

lemma augment_facts:
  assumes "length rows = k" "\<forall>row\<in>set rows. length row = k"
  shows "length (augment rows k) = k * (2 * k)"
    and "r < k \<Longrightarrow> c < k \<Longrightarrow> entry k (augment rows k) r c = Gf (rows ! r ! c)"
    and "r < k \<Longrightarrow> c < k \<Longrightarrow> entry k (augment rows k) r (k + c) = (if r = c then 1 else 0)"
proof -
  define xss where "xss = map (\<lambda>(r, row). row @ (replicate k (0 :: u8))[r := 1]) (enumerate 0 rows)"
  have "\<forall>xs\<in>set xss. length xs = 2 * k"
    using assms by (auto simp: xss_def in_set_enumerate_eq)
  note flat = concat_flat [OF this]
  have len: "length xss = k" using assms by (simp add: xss_def)
  have e: "augment rows k = concat xss" by (simp add: augment_def xss_def)
  show "length (augment rows k) = k * (2 * k)" using flat len e by simp
  have at: "work_at (augment rows k) (2 * k) r c = xss ! r ! c" if "r < k" "c < 2 * k" for r c
    using flat len e flat_index [OF that] that by (simp add: work_at_def)
  have row: "xss ! r = rows ! r @ (replicate k 0)[r := 1]" if "r < k" for r
    using that assms by (simp add: xss_def nth_enumerate_eq)
  show "r < k \<Longrightarrow> c < k \<Longrightarrow> entry k (augment rows k) r c = Gf (rows ! r ! c)"
    using assms by (simp add: entry_def at row nth_append)
  show "r < k \<Longrightarrow> c < k \<Longrightarrow> entry k (augment rows k) r (k + c) = (if r = c then 1 else 0)"
    using assms by (auto simp: entry_def at row nth_append gf_defs)
qed

definition rows_entry :: "bytes list \<Rightarrow> nat \<Rightarrow> nat \<Rightarrow> gf" where
  "rows_entry rows r c = Gf (rows ! r ! c)"

lemma augment_reduces:
  assumes "length rows = k" "\<forall>row\<in>set rows. length row = k"
  shows "reduces k (rows_entry rows) (augment rows k)"
proof -
  note F = augment_facts [OF assms]
  have "(\<Sum>t<k. entry k (augment rows k) r (k + t) * rows_entry rows t c) = entry k (augment rows k) r c"
    if "r < k" "c < k" for r c
  proof -
    have "(\<Sum>t<k. entry k (augment rows k) r (k + t) * rows_entry rows t c) =
        (\<Sum>t<k. if r = t then rows_entry rows t c else 0)"
      using that by (intro sum.cong) (auto simp: F)
    then show ?thesis using that by (simp add: F rows_entry_def)
  qed
  moreover have "apply_row k (entry k (augment rows k)) v r = apply_row k (rows_entry rows) v r" if "r < k" for v r
    using that by (simp add: apply_row_def F rows_entry_def)
  ultimately show ?thesis using F(1) by (simp add: reduces_def)
qed

lemma right_half_facts:
  assumes "length work = k * (2 * k)"
  shows "length (right_half k work) = k * k"
    and "r < k \<Longrightarrow> c < k \<Longrightarrow> Gf (right_half k work ! (r * k + c)) = entry k work r (k + c)"
proof -
  define xss where "xss = map (\<lambda>r. drop k (row_at work (2 * k) r)) [0..<k]"
  have "\<forall>xs\<in>set xss. length xs = k" using assms by (auto simp: xss_def length_row_at [of _ k])
  note flat = concat_flat [OF this]
  have e: "right_half k work = concat xss" "length xss = k" by (simp_all add: right_half_def xss_def)
  show "length (right_half k work) = k * k" using flat e by simp
  show "r < k \<Longrightarrow> c < k \<Longrightarrow> Gf (right_half k work ! (r * k + c)) = entry k work r (k + c)"
    using flat e assms by (simp add: xss_def entry_def length_row_at [of _ k] row_at_nth [of _ k])
qed

definition is_left_inverse :: "nat \<Rightarrow> bytes \<Rightarrow> bytes list \<Rightarrow> bool" where
  "is_left_inverse k iv rows \<longleftrightarrow> length iv = k * k \<and>
     (\<forall>r<k. \<forall>c<k. (\<Sum>t<k. Gf (iv ! (r * k + t)) * rows_entry rows t c) = (if r = c then 1 else 0))"

theorem invert_subset_sound: "invert_subset rows k = Some iv \<Longrightarrow> is_left_inverse k iv rows"
proof -
  assume a: "invert_subset rows k = Some iv"
  then have shape: "length rows = k" "\<forall>row\<in>set rows. length row = k" by (auto simp: invert_subset_def split: if_splits)
  obtain w where w: "reduce_columns k [0..<k] (augment rows k) = Some w" "iv = right_half k w"
    using a by (auto simp: invert_subset_def split: if_splits option.splits)
  have "unit_columns k 0 (augment rows k)" by (simp add: unit_columns_def)
  then have R: "reduces k (rows_entry rows) w" "unit_columns k k w"
    using reduce_columns_sound [OF augment_reduces [OF shape] _ _ w(1)] by auto
  then have len: "length w = k * (2 * k)" by (simp add: reduces_def)
  note H = right_half_facts [OF len]
  show ?thesis
    using R H by (simp add: is_left_inverse_def w(2) reduces_def unit_columns_def)
qed

theorem invert_subset_total:
  assumes "0 < k" "length rows = k" "\<forall>row\<in>set rows. length row = k" "trivial_kernel k (rows_entry rows)"
  shows "\<exists>iv. invert_subset rows k = Some iv"
proof -
  have "unit_columns k 0 (augment rows k)" by (simp add: unit_columns_def)
  then obtain w where "reduce_columns k [0..<k] (augment rows k) = Some w"
    using reduce_columns_total [OF augment_reduces [OF assms(2,3)] _ _ assms(4)] by auto
  then show ?thesis using assms(1-3) by (auto simp: invert_subset_def)
qed

end
