(* ===== verification/Video_Fec.thy ===== *)
theory Video_Fec
  imports Rs_Matrix Framing
begin

text \<open>
  Forward error correction over the fragments of a video frame (\<open>slopdesk-video/src/fec.rs\<close>): the
  systematic Reed-Solomon code over length-prefixed, zero-padded fragments, its plain exclusive-or form
  at one parity shard, and the recovery of holes from whatever arrived. A failed assertion is the answer
  \<open>None\<close>. The theorem at the end says exactly what a recovery fills: every group whose holes are no more
  than its surviving parity shards is restored, every other entry is left as it was.
\<close>

section \<open>Slices\<close>

text \<open>\<open>slice.chunks(n)\<close>; the width is never zero.\<close>

function slice_chunks :: "nat \<Rightarrow> 'a list \<Rightarrow> 'a list list" where
  "slice_chunks n xs = (if xs = [] \<or> n = 0 then [] else take n xs # slice_chunks n (drop n xs))"
  by pat_completeness auto
termination by (relation "measure (\<lambda>(n, xs). length xs)") auto

declare slice_chunks.simps [simp del]

definition vec_resize :: "nat \<Rightarrow> bytes \<Rightarrow> bytes" where
  "vec_resize n v = take n v @ replicate (n - length v) 0"

text \<open>\<open>iter().max().unwrap_or(0)\<close>.\<close>

definition max_or_zero :: "nat list \<Rightarrow> nat" where
  "max_or_zero ns = fold max ns 0"

section \<open>The codec\<close>

record rs_fec =
  fec_group_size :: nat
  fec_parity :: nat

definition fec_default :: rs_fec where
  "fec_default = \<lparr>fec_group_size = 5, fec_parity = 1\<rparr>"

definition fec_new :: "nat \<Rightarrow> nat \<Rightarrow> rs_fec option" where
  "fec_new k m = (if 1 \<le> k \<and> 1 \<le> m \<and> k + m \<le> 255 then Some \<lparr>fec_group_size = k, fec_parity = m\<rparr> else None)"

text \<open>Without a ceiling at one parity shard, clamped to the columns of the matrix otherwise.\<close>

definition effective_group_size :: "rs_fec \<Rightarrow> nat \<Rightarrow> nat \<Rightarrow> nat" where
  "effective_group_size fec requested m =
    (let floored = (if requested < 1 then 1 else requested)
     in if m = 1 then floored else if floored < fec_group_size fec then floored else fec_group_size fec)"

section \<open>Framing of a shard\<close>

definition prefix_bytes :: nat where
  "prefix_bytes = 4"

definition truncating_u32 :: "nat \<Rightarrow> u32" where
  "truncating_u32 v = of_nat v"

definition length_prefixed :: "bytes \<Rightarrow> bytes" where
  "length_prefixed data = be_bytes 4 (truncating_u32 (length data)) @ data"

definition strip_length_prefix :: "bytes \<Rightarrow> bytes option" where
  "strip_length_prefix data =
    (case slice_get data 0 prefix_bytes of
       None \<Rightarrow> None
     | Some header \<Rightarrow> slice_get data prefix_bytes (prefix_bytes + unat (from_be_bytes header)))"

definition xor_length_prefixed :: "bytes \<Rightarrow> bytes \<Rightarrow> bytes" where
  "xor_length_prefixed member acc =
    (let acc = xor_add (be_bytes 4 (truncating_u32 (length member))) acc
     in if prefix_bytes \<le> length acc then take prefix_bytes acc @ xor_add member (drop prefix_bytes acc) else acc)"

definition xor_encoded :: "bytes list \<Rightarrow> bytes" where
  "xor_encoded grp =
    (let width = max_or_zero (map (\<lambda>m. prefix_bytes + length m) grp)
     in case grp of
          [] \<Rightarrow> []
        | first # rest \<Rightarrow>
            let acc = be_bytes 4 (truncating_u32 (length first)) @ first;
                acc = vec_resize width acc
            in fold xor_length_prefixed rest acc)"

definition xor_recover :: "bytes \<Rightarrow> bytes list \<Rightarrow> bytes" where
  "xor_recover parity survivors =
    (let widest_survivor = max_or_zero (map (\<lambda>m. prefix_bytes + length m) survivors);
         width = max (length parity) widest_survivor;
         acc = vec_resize width parity
     in fold xor_length_prefixed survivors acc)"

section \<open>Parity\<close>

definition encode_group :: "rs_fec \<Rightarrow> nat \<Rightarrow> mul_table list \<Rightarrow> bytes list \<Rightarrow> bytes list" where
  "encode_group fec m tables grp =
    (let framed = map length_prefixed grp;
         width = max_or_zero (map length framed)
     in map (\<lambda>rank.
          fold (\<lambda>(j, shard) parity.
                  if rank * fec_group_size fec + j < length tables
                  then add_scaled (tables ! (rank * fec_group_size fec + j)) shard parity else parity)
            (enumerate 0 framed) (replicate width 0))
          [0..<m])"

definition parity_m :: "rs_fec \<Rightarrow> bytes list \<Rightarrow> nat \<Rightarrow> nat \<Rightarrow> bytes list option" where
  "parity_m fec data requested m =
    (let group_size = effective_group_size fec requested m
     in if m = 1 then Some (map xor_encoded (slice_chunks group_size data))
        else
          case parity_rows (fec_group_size fec) m of
            None \<Rightarrow> None
          | Some coeffs \<Rightarrow>
              let tables = map mul_table_new coeffs
              in Some (concat (map (encode_group fec m tables) (slice_chunks group_size data))))"

definition parity_with_m :: "rs_fec \<Rightarrow> bytes list \<Rightarrow> nat \<Rightarrow> nat \<Rightarrow> bytes list option" where
  "parity_with_m fec data group_size m = parity_m fec data group_size (max m 1)"

section \<open>Recovery\<close>

definition unit_row :: "nat \<Rightarrow> nat \<Rightarrow> bytes" where
  "unit_row k slot = (replicate k 0)[slot := 1]"

definition opt_nth :: "'a option list \<Rightarrow> nat \<Rightarrow> 'a option" where
  "opt_nth xs i = (if i < length xs then xs ! i else None)"

text \<open>The parity shards that fill up the survivors: in rank order, until there are \<open>k\<close>.\<close>

definition take_parity :: "nat \<Rightarrow> nat \<Rightarrow> bytes \<Rightarrow> bytes option list \<Rightarrow> nat \<Rightarrow> (bytes \<times> bytes) list \<Rightarrow> (bytes \<times> bytes) list" where
  "take_parity k m coeffs parity parity_base survivors =
    fold (\<lambda>rank survivors.
            if length survivors < k then
              case (opt_nth parity (parity_base + rank), slice_get coeffs (rank * k) (rank * k + k)) of
                (Some parity_bytes, Some row) \<Rightarrow> survivors @ [(row, parity_bytes)]
              | _ \<Rightarrow> survivors
            else survivors)
      [0..<m] survivors"

text \<open>The holes are filled from the rows of the inverse, one accumulator per hole.\<close>

definition fill_hole :: "nat \<Rightarrow> bytes \<Rightarrow> bytes list \<Rightarrow> nat \<Rightarrow> nat \<Rightarrow> nat \<Rightarrow> bytes option list \<Rightarrow> bytes option list" where
  "fill_hole k iv survivor_bytes width index hole data =
    (let slot = hole - index;
         acc = fold (\<lambda>(t, sbytes) acc.
                       gf_mul_add (if slot * k + t < length iv then iv ! (slot * k + t) else 0) sbytes acc)
                 (enumerate 0 survivor_bytes) (replicate width 0)
     in case strip_length_prefix acc of
          None \<Rightarrow> data
        | Some bs \<Rightarrow> data[hole := Some bs])"

definition recover_xor :: "bytes option list \<Rightarrow> bytes option list \<Rightarrow> nat \<Rightarrow> nat \<Rightarrow> nat \<Rightarrow> nat list \<Rightarrow> bytes option list" where
  "recover_xor data parity index upper group_index holes =
    (case opt_nth parity group_index of
       None \<Rightarrow> data
     | Some parity_bytes \<Rightarrow>
         let survivors = List.map_filter (opt_nth data) [index..<upper]
         in case strip_length_prefix (xor_recover parity_bytes survivors) of
              None \<Rightarrow> data
            | Some bs \<Rightarrow> data[hd holes := Some bs])"

definition recover_group ::
    "rs_fec \<Rightarrow> bytes option list \<Rightarrow> nat \<Rightarrow> nat \<Rightarrow> nat \<Rightarrow> nat \<Rightarrow> bytes option list \<Rightarrow> bytes option list option" where
  "recover_group fec parity index upper group_index m data =
    (let k = fec_group_size fec;
         group_len = upper - index;
         holes = filter (\<lambda>i. i < length data \<and> data ! i = None) [index..<upper]
     in if holes = [] \<or> m < length holes then Some data
        else if m = 1 then Some (recover_xor data parity index upper group_index holes)
        else
          case parity_rows k m of
            None \<Rightarrow> None
          | Some parity_coeffs \<Rightarrow>
              let survivors =
                    List.map_filter (\<lambda>slot. map_option (\<lambda>bs. (unit_row k slot, length_prefixed bs)) (opt_nth data (index + slot)))
                      [0..<group_len];
                  survivors = survivors @ map (\<lambda>slot. (unit_row k slot, [])) [group_len..<k];
                  survivors = take_parity k m parity_coeffs parity (group_index * m) survivors
              in if length survivors < k then Some data
                 else
                   let survivors = take k survivors
                   in case invert_subset (map fst survivors) k of
                        None \<Rightarrow> Some data
                      | Some iv \<Rightarrow>
                          let width = max_or_zero (map (length \<circ> snd) survivors)
                          in Some (fold (fill_hole k iv (map snd survivors) width index) holes data))"

text \<open>The walk over the groups. A width of zero, which no codec has, would never end.\<close>

fun recover_groups :: "rs_fec \<Rightarrow> bytes option list \<Rightarrow> nat \<Rightarrow> nat \<Rightarrow> nat list \<Rightarrow> bytes option list \<Rightarrow> bytes option list option" where
  "recover_groups fec parity group_size m [] data = Some data"
| "recover_groups fec parity group_size m (group_index # rest) data =
    (let index = group_index * group_size
     in case recover_group fec parity index (min (index + group_size) (length data)) group_index m data of
          None \<Rightarrow> None
        | Some data \<Rightarrow> recover_groups fec parity group_size m rest data)"

definition div_ceil :: "nat \<Rightarrow> nat \<Rightarrow> nat" where
  "div_ceil a b = (a + b - 1) div b"

definition recover_m :: "rs_fec \<Rightarrow> bytes option list \<Rightarrow> bytes option list \<Rightarrow> nat \<Rightarrow> nat \<Rightarrow> bytes option list option" where
  "recover_m fec data parity requested m =
    (let group_size = effective_group_size fec requested m
     in if group_size = 0 \<and> data \<noteq> [] then None
        else recover_groups fec parity group_size m [0..<div_ceil (length data) group_size] data)"

definition recover_with_m :: "rs_fec \<Rightarrow> bytes option list \<Rightarrow> bytes option list \<Rightarrow> nat \<Rightarrow> nat \<Rightarrow> bytes option list option" where
  "recover_with_m fec data parity group_size m = recover_m fec data parity group_size (max m 1)"

section \<open>Laws of the pieces\<close>

lemma slice_chunks_facts:
  assumes "0 < n"
  shows "length (slice_chunks n xs) = div_ceil (length xs) n \<and>
         (\<forall>i<length (slice_chunks n xs). slice_chunks n xs ! i = take n (drop (i * n) xs))"
  using assms
proof (induction n xs rule: slice_chunks.induct)
  case (1 n xs)
  show ?case
  proof (cases "xs = [] \<or> n = 0")
    case True
    then show ?thesis using 1(2) by (auto simp: slice_chunks.simps div_ceil_def)
  next
    case False
    note IH = 1(1) [OF False 1(2)]
    have "div_ceil (length xs) n = Suc (div_ceil (length xs - n) n)"
    proof (cases "n \<le> length xs")
      case True
      then show ?thesis using False by (simp add: div_ceil_def le_div_geq)
    next
      case short: False
      then have e: "length xs + n - 1 = n + (length xs - 1)" "length xs - 1 < n" using False by (cases xs; simp)+
      have "(n + (length xs - 1)) div n = 1" using False e(2) by (subst div_add_self1) simp_all
      then have "(length xs + n - 1) div n = 1" by (simp only: e(1))
      then show ?thesis using short False by (simp add: div_ceil_def)
    qed
    moreover have "(take n xs # slice_chunks n (drop n xs)) ! i = take n (drop (i * n) xs)"
      if "i < Suc (length (slice_chunks n (drop n xs)))" for i
      using that IH by (cases i) (auto simp: add.commute)
    ultimately show ?thesis using False IH by (simp add: slice_chunks.simps [of n xs])
  qed
qed

lemma max_or_zero_le: "max_or_zero ns \<le> w \<longleftrightarrow> (\<forall>n\<in>set ns. n \<le> w)"
proof -
  have "fold max ns a \<le> w \<longleftrightarrow> a \<le> w \<and> (\<forall>n\<in>set ns. n \<le> w)" for a :: nat
    by (induction ns arbitrary: a) auto
  then show ?thesis by (simp add: max_or_zero_def)
qed

lemma max_or_zero_ge: "n \<in> set ns \<Longrightarrow> n \<le> max_or_zero ns"
  using max_or_zero_le [of ns "max_or_zero ns"] by simp

lemma length_length_prefixed [simp]: "length (length_prefixed d) = 4 + length d"
  by (simp add: length_prefixed_def)

lemma strip_padded:
  assumes "length d < 2 ^ 32"
  shows "strip_length_prefix (length_prefixed d @ z) = Some d"
proof -
  have "unat (truncating_u32 (length d)) = length d"
    using assms by (simp add: truncating_u32_def unsigned_of_nat take_bit_eq_mod)
  then show ?thesis
    by (simp add: strip_length_prefix_def length_prefixed_def slice_get_def prefix_bytes_def)
qed

lemma zip_into_append:
  "length a \<le> length dst \<Longrightarrow>
   zip_into f (a @ b) dst = take (length a) (zip_into f a dst) @ zip_into f b (drop (length a) (zip_into f a dst))"
  by (induction a dst rule: list_induct2') simp_all

lemma zip_into_long: "length dst \<le> length a \<Longrightarrow> zip_into f (a @ b) dst = zip_into f a dst"
  by (induction a dst rule: list_induct2') (cases b; simp)+

lemma xor_length_prefixed_eq: "xor_length_prefixed m acc = xor_add (length_prefixed m) acc"
proof (cases "4 \<le> length acc")
  case True
  then show ?thesis
    by (simp add: xor_length_prefixed_def length_prefixed_def prefix_bytes_def xor_add_def Let_def zip_into_append)
next
  case False
  then show ?thesis
    by (simp add: xor_length_prefixed_def length_prefixed_def prefix_bytes_def xor_add_def Let_def zip_into_long)
qed

lemma xor_fun: "xor_length_prefixed = (\<lambda>m acc. xor_add (length_prefixed m) acc)"
  by (intro ext) (rule xor_length_prefixed_eq)

lemma cell_append_zeros [simp]: "cell (xs @ replicate n 0) i = cell xs i"
  by (auto simp: cell_def nth_append zero_gf_def)

lemma cell_zeros [simp]: "cell (replicate n 0) i = 0"
  by (auto simp: cell_def zero_gf_def)

lemma fold_xor:
  "length (fold (\<lambda>m acc. xor_add (g m) acc) ms acc) = length acc \<and>
   (i < length acc \<longrightarrow> cell (fold (\<lambda>m acc. xor_add (g m) acc) ms acc) i = cell acc i + (\<Sum>m\<leftarrow>ms. cell (g m) i))"
  by (induction ms arbitrary: acc) (simp_all add: cell_xor_add add.assoc)

text \<open>The framed column of a group: position \<open>i\<close> of the framing of its \<open>j\<close>-th member, zero past the end.\<close>

definition column :: "bytes list \<Rightarrow> nat \<Rightarrow> nat \<Rightarrow> gf" where
  "column grp i j = (if j < length grp then cell (length_prefixed (grp ! j)) i else 0)"

definition group_width :: "bytes list \<Rightarrow> nat" where
  "group_width grp = max_or_zero (map (\<lambda>d. length (length_prefixed d)) grp)"

lemma column_beyond: "group_width grp \<le> i \<Longrightarrow> column grp i j = 0"
  using max_or_zero_ge [of "length (length_prefixed (grp ! j))" "map (\<lambda>d. length (length_prefixed d)) grp"]
  by (auto simp: column_def group_width_def intro!: cell_beyond)

lemma sum_list_column: "(\<Sum>m\<leftarrow>grp. cell (length_prefixed m) i) = (\<Sum>j<length grp. column grp i j)"
  by (simp add: sum_list_sum_nth column_def atLeast0LessThan)

lemma xor_encoded_cell:
  "length (xor_encoded grp) = group_width grp \<and> cell (xor_encoded grp) i = (\<Sum>j<length grp. column grp i j)"
proof (cases grp)
  case Nil
  then show ?thesis by (simp add: xor_encoded_def group_width_def max_or_zero_def)
next
  case (Cons first rest)
  define acc where "acc = vec_resize (group_width grp) (length_prefixed first)"
  have w: "length (length_prefixed first) \<le> group_width grp"
    unfolding group_width_def by (rule max_or_zero_ge) (simp add: Cons)
  then have acc: "acc = length_prefixed first @ replicate (group_width grp - length (length_prefixed first)) 0"
    by (simp add: acc_def vec_resize_def)
  have len: "length acc = group_width grp" using w by (simp add: acc)
  have "xor_encoded grp = fold xor_length_prefixed rest acc"
    by (simp add: xor_encoded_def Cons acc_def group_width_def prefix_bytes_def length_prefixed_def)
  then have e: "xor_encoded grp = fold (\<lambda>m acc. xor_add (length_prefixed m) acc) rest acc"
    by (simp only: xor_fun)
  have ci: "cell acc i = cell (length_prefixed first) i" by (simp add: acc)
  note F = fold_xor [of length_prefixed rest acc i, unfolded len]
  have "cell (xor_encoded grp) i = (\<Sum>m\<leftarrow>grp. cell (length_prefixed m) i)"
  proof (cases "i < group_width grp")
    case True
    then show ?thesis unfolding e using F ci by (simp add: Cons)
  next
    case False
    then show ?thesis unfolding e using F by (simp add: sum_list_column column_beyond)
  qed
  then show ?thesis using F by (simp add: e sum_list_column)
qed

text \<open>The accumulate loops of the encoder and of the decoder.\<close>

lemma fold_scaled:
  "length (fold (\<lambda>(j, s) acc. zip_into (\<lambda>s d. d XOR gf_mul (c j) s) s acc) (enumerate n ss) acc) = length acc \<and>
   (i < length acc \<longrightarrow>
      cell (fold (\<lambda>(j, s) acc. zip_into (\<lambda>s d. d XOR gf_mul (c j) s) s acc) (enumerate n ss) acc) i =
      cell acc i + (\<Sum>j<length ss. Gf (c (n + j)) * cell (ss ! j) i))"
proof (induction ss arbitrary: n acc)
  case (Cons s ss)
  have "(\<Sum>j<Suc (length ss). Gf (c (n + j)) * cell ((s # ss) ! j) i) =
      Gf (c n) * cell s i + (\<Sum>j<length ss. Gf (c (Suc n + j)) * cell (ss ! j) i)"
    by (subst sum.lessThan_Suc_shift) simp
  then show ?case using Cons [of "Suc n" "zip_into (\<lambda>s d. d XOR gf_mul (c n) s) s acc"]
    by (simp add: cell_scaled add.assoc)
qed simp

section \<open>Any \<open>k\<close> shards determine the data\<close>

text \<open>The Cauchy row of a parity rank.\<close>

definition cauchy_row :: "nat \<Rightarrow> nat \<Rightarrow> bytes" where
  "cauchy_row k rank = map (\<lambda>j. gf_inv (of_nat (k + rank) XOR of_nat j)) [0..<k]"

lemma length_cauchy_row [simp]: "length (cauchy_row k rank) = k"
  by (simp add: cauchy_row_def)

lemma length_unit_row [simp]: "length (unit_row k slot) = k"
  by (simp add: unit_row_def)

lemma parity_rows_facts:
  assumes "parity_rows k m = Some coeffs"
  shows "k + m \<le> 256" "length coeffs = m * k"
    and "rank < m \<Longrightarrow> j < k \<Longrightarrow> coeffs ! (rank * k + j) = cauchy_row k rank ! j"
    and "rank < m \<Longrightarrow> slice_get coeffs (rank * k) (rank * k + k) = Some (cauchy_row k rank)"
proof -
  have c: "coeffs = concat (map (cauchy_row k) [0..<m])" and "k + m \<le> 256"
    using assms by (auto simp: parity_rows_def cauchy_row_def [abs_def] split: if_splits)
  then show "k + m \<le> 256" by simp
  have "\<forall>xs\<in>set (map (cauchy_row k) [0..<m]). length xs = k" by simp
  note F = concat_flat [OF this]
  show len: "length coeffs = m * k" using F by (simp add: c)
  show at: "rank < m \<Longrightarrow> j < k \<Longrightarrow> coeffs ! (rank * k + j) = cauchy_row k rank ! j" for rank j
    using F by (simp add: c)
  show "rank < m \<Longrightarrow> slice_get coeffs (rank * k) (rank * k + k) = Some (cauchy_row k rank)"
    using mult_le_mono1 [of "Suc rank" m k] len at [of rank]
    by (auto simp: slice_get_Some intro!: nth_equalityI)
qed

lemma byte_injective: "a < 256 \<Longrightarrow> b < 256 \<Longrightarrow> (of_nat a :: u8) = of_nat b \<longleftrightarrow> a = b"
  by (metis unat_of_nat_byte)

lemma cauchy_entry: "j < k \<Longrightarrow> Gf (cauchy_row k rank ! j) = inverse (Gf (of_nat (k + rank)) + Gf (of_nat j))"
  by (simp add: cauchy_row_def gf_defs)

text \<open>The maximum-distance property: any choice of distinct data rows and distinct parity rows, \<open>k\<close> in all,
  has a trivial kernel.\<close>

lemma survivors_kernel:
  assumes "k + m \<le> 256" "distinct slots" "set slots \<subseteq> {..<k}" "distinct ranks" "set ranks \<subseteq> {..<m}"
    and "length slots + length ranks = k"
  shows "trivial_kernel k (rows_entry (map (unit_row k) slots @ map (cauchy_row k) ranks))"
  unfolding trivial_kernel_def
proof (intro allI impI)
  fix v c
  let ?A = "rows_entry (map (unit_row k) slots @ map (cauchy_row k) ranks)"
  assume z: "\<forall>r<k. apply_row k ?A v r = 0" and c: "c < k"
  have data: "v s = 0" if s0: "s \<in> set slots" for s
  proof -
    obtain r where r: "r < length slots" "slots ! r = s" using s0 by (auto simp: in_set_conv_nth)
    have s: "s < k" using s0 assms(3) by auto
    have "apply_row k ?A v r = (\<Sum>c<k. if s = c then v c else 0)"
      unfolding apply_row_def
      by (intro sum.cong) (use r in \<open>auto simp: rows_entry_def nth_append unit_row_def gf_defs nth_list_update\<close>)
    then show ?thesis using z r(1) s assms(6) by simp
  qed
  let ?H = "{..<k} - set slots"
  have "\<forall>j\<in>?H. v j = 0"
  proof (rule cauchy_kernel [of "set ranks" ?H "\<lambda>i. Gf (of_nat (k + i))" "\<lambda>j. Gf (of_nat j)"])
    have "card ?H = k - length slots"
      using assms(2,3) by (simp add: card_Diff_subset distinct_card)
    then show "card (set ranks) = card ?H" using assms(4,6) by (simp add: distinct_card)
    show "inj_on (\<lambda>i. Gf (of_nat (k + i))) (set ranks)"
    proof (rule inj_onI)
      fix a b assume "a \<in> set ranks" "b \<in> set ranks" and e: "Gf (of_nat (k + a)) = Gf (of_nat (k + b))"
      then have "k + a < 256" "k + b < 256" using assms(1,5) by auto
      then show "a = b" using e byte_injective [of "k + a" "k + b"] by (simp del: of_nat_add)
    qed
    show "inj_on (\<lambda>j. Gf (of_nat j)) ?H"
      using assms(1) by (intro inj_onI) (simp add: byte_injective)
    fix i j assume i: "i \<in> set ranks" and j: "j \<in> ?H"
    have "(of_nat (k + i) :: u8) \<noteq> of_nat j"
      using byte_injective [of "k + i" j] i j assms(1,5) by auto
    then show "Gf (of_nat (k + i)) + Gf (of_nat j) \<noteq> 0"
      by (simp add: gf_defs xor_zero_iff del: of_nat_add)
  next
    fix i assume "i \<in> set ranks"
    then obtain r where r: "r < length ranks" "ranks ! r = i" by (auto simp: in_set_conv_nth)
    have "(\<Sum>j\<in>?H. v j * inverse (Gf (of_nat (k + i)) + Gf (of_nat j))) = (\<Sum>j\<in>?H. ?A (length slots + r) j * v j)"
      by (intro sum.cong refl) (use r in \<open>simp add: rows_entry_def nth_append cauchy_entry mult.commute del: of_nat_add\<close>)
    also have "\<dots> = apply_row k ?A v (length slots + r)"
      unfolding apply_row_def by (intro sum.mono_neutral_left) (auto simp: data)
    also have "\<dots> = 0" using z r(1) assms(6) by simp
    finally show "(\<Sum>j\<in>?H. v j * inverse (Gf (of_nat (k + i)) + Gf (of_nat j))) = 0" .
  qed auto
  then show "v c = 0" using data c by (cases "c \<in> set slots") auto
qed

section \<open>What the parity shards of a group are\<close>

definition parity_cells :: "nat \<Rightarrow> nat \<Rightarrow> bytes list \<Rightarrow> nat \<Rightarrow> gf" where
  "parity_cells k rank grp i = (\<Sum>j<k. Gf (cauchy_row k rank ! j) * column grp i j)"

lemma encode_group_facts:
  assumes "parity_rows k m = Some coeffs" "fec_group_size fec = k" "length grp \<le> k" "rank < m"
  defines "shard \<equiv> encode_group fec m (map mul_table_new coeffs) grp ! rank"
  shows "length (encode_group fec m (map mul_table_new coeffs) grp) = m"
    and "length shard = group_width grp" and "cell shard i = parity_cells k rank grp i"
proof -
  note P = parity_rows_facts [OF assms(1)]
  show "length (encode_group fec m (map mul_table_new coeffs) grp) = m"
    by (simp add: encode_group_def Let_def)
  let ?c = "\<lambda>j. cauchy_row k rank ! j"
  let ?z = "replicate (group_width grp) (0 :: u8)"
  have "shard = fold (\<lambda>(j, shard) parity.
                  if rank * k + j < length (map mul_table_new coeffs)
                  then add_scaled (map mul_table_new coeffs ! (rank * k + j)) shard parity else parity)
            (enumerate 0 (map length_prefixed grp)) ?z"
    unfolding shard_def encode_group_def Let_def assms(2)
    using assms(4) by (simp add: group_width_def comp_def split_def cong: if_cong)
  also have "\<dots> = fold (\<lambda>(j, s) acc. zip_into (\<lambda>s d. d XOR gf_mul (?c j) s) s acc) (enumerate 0 (map length_prefixed grp)) ?z"
  proof (rule fold_cong)
    fix x assume mem: "x \<in> set (enumerate 0 (map length_prefixed grp))"
    obtain j s where "x = (j, s)" by (rule prod.exhaust)
    then have x: "x = (j, s)" "j < length grp" "s = length_prefixed (grp ! j)"
      using mem by (auto simp: in_set_enumerate_eq)
    have "rank * k + j < m * k" using x(2) flat_index [OF assms(4), of j k] assms(3) by simp
    then show "(case x of (j, shard) \<Rightarrow> \<lambda>parity.
           if rank * k + j < length (map mul_table_new coeffs)
           then add_scaled (map mul_table_new coeffs ! (rank * k + j)) shard parity else parity) =
         (case x of (j, s) \<Rightarrow> zip_into (\<lambda>s d. d XOR gf_mul (?c j) s) s)"
      using x P(2) P(3) [OF assms(4), of j] assms(3) by (simp add: add_scaled_eq fun_eq_iff)
  qed simp_all
  finally have e: "shard = fold (\<lambda>(j, s) acc. zip_into (\<lambda>s d. d XOR gf_mul (?c j) s) s acc) (enumerate 0 (map length_prefixed grp)) ?z" .
  note F = fold_scaled [of ?c 0 "map length_prefixed grp" ?z i, folded e]
  show "length shard = group_width grp" using F by simp
  have "parity_cells k rank grp i = (\<Sum>j<length grp. Gf (?c j) * column grp i j)"
    unfolding parity_cells_def using assms(3) by (intro sum.mono_neutral_right) (auto simp: column_def)
  also have "\<dots> = (\<Sum>j<length grp. Gf (?c j) * cell (map length_prefixed grp ! j) i)"
    by (intro sum.cong) (auto simp: column_def)
  finally have pc: "parity_cells k rank grp i = (\<Sum>j<length grp. Gf (?c j) * cell (map length_prefixed grp ! j) i)" .
  show "cell shard i = parity_cells k rank grp i"
  proof (cases "i < group_width grp")
    case True
    then show ?thesis using F pc by simp
  next
    case False
    then show ?thesis using F by (simp add: parity_cells_def column_beyond)
  qed
qed

section \<open>Recovery of one group\<close>

definition parity_held :: "nat \<Rightarrow> bytes option list \<Rightarrow> nat \<Rightarrow> nat list" where
  "parity_held m parity base = filter (\<lambda>rank. opt_nth parity (base + rank) \<noteq> None) [0..<m]"

lemma take_parity_eq:
  assumes "parity_rows k m = Some coeffs"
  shows "take_parity k m coeffs parity base surv =
    surv @ map (\<lambda>rank. (cauchy_row k rank, the (opt_nth parity (base + rank)))) (take (k - length surv) (parity_held m parity base))"
proof -
  define step where "step = (\<lambda>rank survivors.
            if length survivors < k then
              case (opt_nth parity (base + rank), slice_get coeffs (rank * k) (rank * k + k)) of
                (Some parity_bytes, Some row) \<Rightarrow> survivors @ [(row, parity_bytes)]
              | _ \<Rightarrow> survivors
            else survivors)"
  define item where "item = (\<lambda>rank. (cauchy_row k rank, the (opt_nth parity (base + rank))))"
  have "n \<le> m \<Longrightarrow> fold step [0..<n] surv = surv @ map item (take (k - length surv) (parity_held n parity base))" for n
  proof (induction n)
    case 0
    then show ?case by (simp add: parity_held_def)
  next
    case (Suc n)
    note row = parity_rows_facts(4) [OF assms, of n]
    show ?case
      using Suc row by (auto simp: step_def item_def parity_held_def min_def split: option.splits)
  qed
  then show ?thesis by (simp add: take_parity_def step_def item_def)
qed

lemma fold_fill:
  assumes "\<And>h d. h \<in> set hs \<Longrightarrow> f h d = d[h := Some (data ! h)]"
  shows "length (fold f hs d) = length d \<and>
    (\<forall>i<length d. fold f hs d ! i = (if i \<in> set hs then Some (data ! i) else d ! i))"
  using assms by (induction hs arbitrary: d) (auto simp: nth_list_update)

lemma fold_gf_mul_add:
  "fold (\<lambda>(t, s) acc. gf_mul_add (c t) s acc) (enumerate 0 bs) acc =
   fold (\<lambda>(t, s) acc. zip_into (\<lambda>s d. d XOR gf_mul (c t) s) s acc) (enumerate 0 bs) acc"
  by (simp add: gf_mul_add_eq)

text \<open>A row of the inverse applied to the survivors is the framed shard of that row.\<close>

lemma decode_row:
  assumes inv: "is_left_inverse k iv rows" and "length bs = k" "slot < length grp" "length grp \<le> k"
    and cells: "\<And>t i. t < k \<Longrightarrow> cell (bs ! t) i = (\<Sum>c<k. rows_entry rows t c * column grp i c)"
    and width: "length (length_prefixed (grp ! slot)) \<le> width"
  shows "fold (\<lambda>(t, s) acc. gf_mul_add (if slot * k + t < length iv then iv ! (slot * k + t) else 0) s acc)
           (enumerate 0 bs) (replicate width 0) =
         length_prefixed (grp ! slot) @ replicate (width - length (length_prefixed (grp ! slot))) 0"
    (is "?acc = ?framed @ _")
proof (rule cell_eqI)
  let ?c = "\<lambda>t. if slot * k + t < length iv then iv ! (slot * k + t) else 0"
  have e: "?acc = fold (\<lambda>(t, s) acc. zip_into (\<lambda>s d. d XOR gf_mul (?c t) s) s acc) (enumerate 0 bs) (replicate width 0)"
    by (rule fold_gf_mul_add)
  note F = fold_scaled [of ?c 0 bs "replicate width 0", folded e]
  show "length ?acc = length (?framed @ replicate (width - length ?framed) 0)"
    using F width by simp
  fix i assume "i < length (?framed @ replicate (width - length ?framed) 0)"
  then have i: "i < width" using width by simp
  have slot: "slot < k" using assms(3,4) by simp
  have "cell ?acc i = (\<Sum>t<k. Gf (iv ! (slot * k + t)) * (\<Sum>c<k. rows_entry rows t c * column grp i c))"
    using F [of i] i inv assms(2) cells flat_index [OF slot] by (simp add: is_left_inverse_def)
  also have "\<dots> = (\<Sum>t<k. \<Sum>c<k. Gf (iv ! (slot * k + t)) * rows_entry rows t c * column grp i c)"
    by (simp add: sum_distrib_left mult.assoc)
  also have "\<dots> = (\<Sum>c<k. \<Sum>t<k. Gf (iv ! (slot * k + t)) * rows_entry rows t c * column grp i c)"
    by (rule sum.swap)
  also have "\<dots> = (\<Sum>c<k. (\<Sum>t<k. Gf (iv ! (slot * k + t)) * rows_entry rows t c) * column grp i c)"
    by (simp add: sum_distrib_right)
  also have "\<dots> = (\<Sum>c<k. if slot = c then column grp i c else 0)"
    using inv slot by (intro sum.cong) (auto simp: is_left_inverse_def)
  also have "\<dots> = cell ?framed i" using slot assms(3) by (simp add: column_def)
  finally show "cell ?acc i = cell (?framed @ replicate (width - length ?framed) 0) i" by simp
qed

text \<open>A list of optional shards that agrees with the originals wherever it holds something.\<close>

definition masks :: "'a option list \<Rightarrow> 'a list \<Rightarrow> bool" where
  "masks xs ys \<longleftrightarrow> length xs = length ys \<and> (\<forall>i<length ys. xs ! i = None \<or> xs ! i = Some (ys ! i))"

lemma masksD: "masks xs ys \<Longrightarrow> i < length ys \<Longrightarrow> xs ! i \<noteq> None \<Longrightarrow> xs ! i = Some (ys ! i)"
  by (auto simp: masks_def)

definition holes_in :: "'a option list \<Rightarrow> nat \<Rightarrow> nat \<Rightarrow> nat list" where
  "holes_in data a b = filter (\<lambda>i. i < length data \<and> data ! i = None) [a..<b]"

definition restore :: "'a list \<Rightarrow> 'a option list \<Rightarrow> nat \<Rightarrow> nat \<Rightarrow> 'a option list" where
  "restore orig data a b = map (\<lambda>i. if a \<le> i \<and> i < b then Some (orig ! i) else data ! i) [0..<length data]"

lemma restore_by_updates:
  assumes "masks data orig" "b \<le> length orig"
    and "length d = length data" "\<And>i. i < length data \<Longrightarrow> d ! i = (if i \<in> set (holes_in data a b) then Some (orig ! i) else data ! i)"
  shows "d = restore orig data a b"
  using assms by (intro nth_equalityI) (auto simp: restore_def holes_in_def masks_def)

text \<open>What the parity shards of a group at \<open>base\<close> are required to be.\<close>

definition genuine_parity :: "nat \<Rightarrow> nat \<Rightarrow> bytes list \<Rightarrow> bytes option list \<Rightarrow> nat \<Rightarrow> bool" where
  "genuine_parity k m grp parity base \<longleftrightarrow> (\<forall>rank<m. \<forall>s. opt_nth parity (base + rank) = Some s \<longrightarrow>
     length s = group_width grp \<and>
     (\<forall>i. cell s i = (if m = 1 then \<Sum>j<length grp. column grp i j else parity_cells k rank grp i)))"

lemma sub_nth: "a + i < b \<Longrightarrow> b \<le> length xs \<Longrightarrow> take (b - a) (drop a xs) ! i = xs ! (a + i)"
  by simp

lemma map_filter_eq: "List.map_filter f xs = map (the \<circ> f) (filter (\<lambda>x. f x \<noteq> None) xs)"
  by (simp add: List.map_filter_def)

lemma sum_remove_hole:
  fixes f :: "nat \<Rightarrow> gf"
  assumes "h < n"
  shows "(\<Sum>j<n. f j) + (\<Sum>j\<in>{..<n} - {h}. f j) = f h"
proof -
  have "(\<Sum>j<n. f j) = f h + (\<Sum>j\<in>{..<n} - {h}. f j)" using assms by (simp add: sum.remove)
  then show ?thesis by (simp add: add.assoc)
qed

lemma recover_xor_exact:
  assumes "masks data orig" "a < b" "b \<le> length orig" "holes_in data a b = [h]"
    and size: "\<forall>d\<in>set orig. length d < 2 ^ 32"
    and grp: "grp = take (b - a) (drop a orig)"
    and "genuine_parity k 1 grp parity gi" "opt_nth parity gi = Some s"
  shows "recover_xor data parity a b gi [h] = data[h := Some (orig ! h)]"
proof -
  have "h \<in> set (holes_in data a b)" by (simp add: assms(4))
  then have h: "a \<le> h" "h < b" "h < length data" "data ! h = None"
    by (simp_all add: holes_in_def)
  have others: "data ! i = Some (orig ! i)" if "a \<le> i" "i < b" "i \<noteq> h" for i
  proof -
    have "i \<notin> set (holes_in data a b)" using assms(4) that by simp
    then have "data ! i \<noteq> None" using that assms(1,3) by (auto simp: holes_in_def masks_def)
    then show ?thesis using masksD [OF assms(1), of i] that assms(3) by simp
  qed
  have present: "filter (\<lambda>i. opt_nth data i \<noteq> None) [a..<b] = filter (\<lambda>i. i \<noteq> h) [a..<b]"
    using others h assms(1,3) by (intro filter_cong) (auto simp: opt_nth_def masks_def)
  define survivors where "survivors = List.map_filter (opt_nth data) [a..<b]"
  have surv: "survivors = map (\<lambda>i. orig ! i) (filter (\<lambda>i. i \<noteq> h) [a..<b])"
    unfolding survivors_def map_filter_eq present
    using others assms(1,3) by (auto simp: opt_nth_def masks_def)
  let ?w = "group_width grp"
  have s: "length s = ?w" "cell s i = (\<Sum>j<length grp. column grp i j)" for i
    using assms(7,8) by (auto simp: genuine_parity_def)
  have lgrp: "length grp = b - a" and gnth: "j < b - a \<Longrightarrow> grp ! j = orig ! (a + j)" for j
    using grp assms(2,3) by (auto simp: sub_nth)
  have inw: "length (length_prefixed (orig ! i)) \<le> ?w" if "a \<le> i" "i < b" for i
  proof -
    have "orig ! i = grp ! (i - a)" "i - a < length grp" using gnth [of "i - a"] lgrp that by auto
    then show ?thesis unfolding group_width_def by (intro max_or_zero_ge) auto
  qed
  have "max_or_zero (map (\<lambda>m. prefix_bytes + length m) survivors) \<le> ?w"
    using inw by (auto simp: max_or_zero_le surv prefix_bytes_def)
  then have x: "xor_recover s survivors = fold (\<lambda>m acc. xor_add (length_prefixed m) acc) survivors s"
    by (simp add: xor_recover_def Let_def max_def vec_resize_def s xor_fun)
  note F = fold_xor [of length_prefixed survivors s]
  let ?f = "length_prefixed (orig ! h)"
  have "xor_recover s survivors = ?f @ replicate (?w - length ?f) 0"
  proof (rule cell_eqI)
    show "length (xor_recover s survivors) = length (?f @ replicate (?w - length ?f) 0)"
      using F inw [OF h(1,2)] by (simp add: x s)
    fix i assume "i < length (?f @ replicate (?w - length ?f) 0)"
    then have i: "i < ?w" using inw [OF h(1,2)] by simp
    have "(\<Sum>m\<leftarrow>survivors. cell (length_prefixed m) i) = (\<Sum>j\<in>{a..<b} - {h}. cell (length_prefixed (orig ! j)) i)"
      unfolding surv by (simp add: comp_def sum_list_distinct_conv_sum_set set_diff_eq)
    also have "\<dots> = (\<Sum>j\<in>{..<b - a} - {h - a}. column grp i j)"
      by (rule sum.reindex_bij_witness [of _ "\<lambda>j. a + j" "\<lambda>j. j - a"]) (use h lgrp gnth in \<open>auto simp: column_def\<close>)
    finally have "cell (xor_recover s survivors) i = (\<Sum>j<b - a. column grp i j) + (\<Sum>j\<in>{..<b - a} - {h - a}. column grp i j)"
      using F [of i] i by (simp add: x s lgrp)
    also have "\<dots> = column grp i (h - a)" using h by (intro sum_remove_hole) auto
    also have "\<dots> = cell ?f i" using h lgrp gnth [of "h - a"] by (simp add: column_def)
    finally show "cell (xor_recover s survivors) i = cell (?f @ replicate (?w - length ?f) 0) i" by simp
  qed
  moreover have "length (orig ! h) < 2 ^ 32" using size h assms(3) by (auto intro!: bspec [OF size])
  ultimately show ?thesis
    using assms(8) strip_padded by (simp add: recover_xor_def Let_def survivors_def [symmetric])
qed

text \<open>The matrix case: the survivors chosen, and what each of them is.\<close>

lemma recover_matrix_exact:
  fixes k m :: nat
  assumes "1 \<le> k" "k + m \<le> 256" "2 \<le> m" "fec_group_size fec = k"
    and mask: "masks data orig" and "a < b" "b \<le> length orig" "b - a \<le> k"
    and size: "\<forall>d\<in>set orig. length d < 2 ^ 32"
    and grp: "grp = take (b - a) (drop a orig)"
    and gen: "genuine_parity k m grp parity (gi * m)"
    and some: "holes_in data a b \<noteq> []" and fit: "length (holes_in data a b) \<le> m"
  shows "recover_group fec parity a b gi m data =
    Some (if length (holes_in data a b) \<le> length (parity_held m parity (gi * m)) then restore orig data a b else data)"
proof -
  obtain coeffs where coeffs: "parity_rows k m = Some coeffs" using assms(2) by (simp add: parity_rows_def)
  have lgrp: "length grp = b - a" and gnth: "\<And>j. j < b - a \<Longrightarrow> grp ! j = orig ! (a + j)"
    using grp assms(6,7) by (auto simp: sub_nth)
  define here where "here = filter (\<lambda>slot. opt_nth data (a + slot) \<noteq> None) [0..<b - a]"
  define slots where "slots = here @ [b - a..<k]"
  define held where "held = parity_held m parity (gi * m)"
  define ranks where "ranks = take (k - length slots) held"
  define part where "part = (\<lambda>slot. if slot < length grp then length_prefixed (grp ! slot) else [])"
  define share where "share = (\<lambda>rank. the (opt_nth parity (gi * m + rank)))"
  define surv where "surv = map (\<lambda>s. (unit_row k s, part s)) slots @ map (\<lambda>r. (cauchy_row k r, share r)) ranks"
  have here_nth: "opt_nth data (a + s) = Some (grp ! s)" if "s \<in> set here" for s
    using that masksD [OF mask, of "a + s"] assms(7) mask gnth
    by (auto simp: here_def opt_nth_def masks_def split: if_splits)
  have "List.map_filter (\<lambda>slot. map_option (\<lambda>bs. (unit_row k slot, length_prefixed bs)) (opt_nth data (a + slot))) [0..<b - a] =
      map (\<lambda>s. (unit_row k s, part s)) here"
  proof -
    let ?f = "\<lambda>slot. map_option (\<lambda>bs. (unit_row k slot, length_prefixed bs)) (opt_nth data (a + slot))"
    have "filter (\<lambda>s. ?f s \<noteq> None) [0..<b - a] = here" by (simp add: here_def)
    moreover have "(the \<circ> ?f) s = (unit_row k s, part s)" if "s \<in> set here" for s
      using here_nth [OF that] that lgrp by (simp add: part_def here_def)
    ultimately show ?thesis by (simp add: map_filter_eq)
  qed
  moreover have "map (\<lambda>slot. (unit_row k slot, [])) [b - a..<k] = map (\<lambda>s. (unit_row k s, part s)) [b - a..<k]"
    using lgrp by (simp add: part_def)
  ultimately have chosen: "take_parity k m coeffs parity (gi * m)
      (List.map_filter (\<lambda>slot. map_option (\<lambda>bs. (unit_row k slot, length_prefixed bs)) (opt_nth data (a + slot))) [0..<b - a]
       @ map (\<lambda>slot. (unit_row k slot, [])) [b - a..<k]) = surv"
    by (simp add: take_parity_eq [OF coeffs] surv_def slots_def ranks_def held_def share_def)
  have holes_len: "length (holes_in data a b) + length here = b - a"
  proof -
    have "length (holes_in data a b) = length (filter (\<lambda>s. opt_nth data (a + s) = None) [0..<b - a])"
    proof -
      have "[a..<b] = map ((+) a) [0..<b - a]" by (rule nth_equalityI) auto
      then have "holes_in data a b = map ((+) a) (filter (\<lambda>s. a + s < length data \<and> data ! (a + s) = None) [0..<b - a])"
        by (simp add: holes_in_def filter_map comp_def)
      moreover have "filter (\<lambda>s. a + s < length data \<and> data ! (a + s) = None) [0..<b - a] =
          filter (\<lambda>s. opt_nth data (a + s) = None) [0..<b - a]"
        using mask assms(7) by (intro filter_cong) (auto simp: opt_nth_def masks_def)
      ultimately show ?thesis by simp
    qed
    then show ?thesis
      using sum_length_filter_compl [of "\<lambda>s. opt_nth data (a + s) = None" "[0..<b - a]"] by (simp add: here_def)
  qed
  then have slots_len: "length slots + length (holes_in data a b) = k" using assms(8) by (simp add: slots_def)
  then have surv_len: "length surv = length slots + min (length (holes_in data a b)) (length held)"
    by (simp add: surv_def ranks_def min.commute)
  have G: "recover_group fec parity a b gi m data =
      (if length surv < k then Some data
       else case invert_subset (map fst (take k surv)) k of
              None \<Rightarrow> Some data
            | Some iv \<Rightarrow> Some (fold (fill_hole k iv (map snd (take k surv)) (max_or_zero (map (length \<circ> snd) (take k surv))) a)
                             (holes_in data a b) data))"
    using some fit assms(3)
    by (simp add: recover_group_def Let_def assms(4) coeffs chosen flip: holes_in_def split: option.split)
  show ?thesis
  proof (cases "length (holes_in data a b) \<le> length held")
    case False
    then have "length surv < k" using surv_len slots_len by simp
    then show ?thesis using False by (simp add: G held_def)
  next
    case True
    then have full: "length surv = k" using surv_len slots_len by simp
    then have rk: "length slots + length ranks = k" by (simp add: surv_def)
    have dslots: "distinct slots" "set slots \<subseteq> {..<k}" using assms(8) by (auto simp: slots_def here_def)
    have dranks: "distinct ranks" "set ranks \<subseteq> {..<m}" and share: "\<And>r. r \<in> set ranks \<Longrightarrow> opt_nth parity (gi * m + r) = Some (share r)"
      by (auto simp: ranks_def held_def parity_held_def share_def dest!: in_set_takeD)
    define rows where "rows = map (unit_row k) slots @ map (cauchy_row k) ranks"
    define bs where "bs = map part slots @ map share ranks"
    have rows: "map fst (take k surv) = rows" and bs: "map snd (take k surv) = bs"
      using full by (simp_all add: surv_def rows_def bs_def comp_def)
    have kernel: "trivial_kernel k (rows_entry rows)"
      unfolding rows_def by (rule survivors_kernel [OF assms(2) dslots dranks rk])
    have "length rows = k" "\<forall>row\<in>set rows. length row = k" using rk by (auto simp: rows_def)
    then obtain iv where iv: "invert_subset rows k = Some iv"
      using invert_subset_total [of k rows] assms(1) kernel by auto
    note inverse = invert_subset_sound [OF iv]
    have lbs: "length bs = k" using rk by (simp add: bs_def)
    have cells: "cell (bs ! t) i = (\<Sum>c<k. rows_entry rows t c * column grp i c)" if t: "t < k" for t i
    proof (cases "t < length slots")
      case True
      then have s: "slots ! t < k" using dslots by (meson lessThan_iff nth_mem subsetD)
      have "(\<Sum>c<k. rows_entry rows t c * column grp i c) = (\<Sum>c<k. if slots ! t = c then column grp i c else 0)"
        by (intro sum.cong) (use True in \<open>auto simp: rows_def rows_entry_def nth_append unit_row_def gf_defs nth_list_update\<close>)
      then show ?thesis using True s by (simp add: bs_def nth_append part_def column_def)
    next
      case False
      define r where "r = ranks ! (t - length slots)"
      have r: "r \<in> set ranks" "bs ! t = share r" "rows ! t = cauchy_row k r"
        using False t rk by (auto simp: r_def bs_def rows_def nth_append)
      then have "cell (share r) i = parity_cells k r grp i"
        using gen share [OF r(1)] dranks assms(3) by (auto simp: genuine_parity_def)
      then show ?thesis using r by (simp add: parity_cells_def rows_entry_def)
    qed
    have width: "group_width grp \<le> max_or_zero (map (length \<circ> snd) (take k surv))"
    proof -
      have "ranks \<noteq> []" using some rk slots_len by (cases ranks) auto
      then have r: "hd ranks \<in> set ranks" by simp
      then have "length (share (hd ranks)) = group_width grp"
        using gen share [OF r] dranks by (auto simp: genuine_parity_def)
      moreover have "length (share (hd ranks)) \<in> set (map (length \<circ> snd) (take k surv))"
        using full r by (auto simp: surv_def image_iff)
      ultimately show ?thesis using max_or_zero_ge by metis
    qed
    have fill: "fill_hole k iv bs (max_or_zero (map (length \<circ> snd) (take k surv))) a h d = d[h := Some (orig ! h)]"
      if "h \<in> set (holes_in data a b)" for h d
    proof -
      have h: "a \<le> h" "h < b" using that by (auto simp: holes_in_def)
      have slot: "h - a < length grp" "grp ! (h - a) = orig ! h" using h lgrp gnth [of "h - a"] by auto
      have "length (length_prefixed (grp ! (h - a))) \<le> group_width grp"
        unfolding group_width_def using slot(1) by (intro max_or_zero_ge) auto
      note D = decode_row [OF inverse lbs slot(1) _ cells order.trans [OF this width]]
      have "length (orig ! h) < 2 ^ 32" using size h assms(7) by (auto intro!: bspec [OF size])
      then show ?thesis
        using D lgrp assms(8) slot(2) strip_padded by (simp add: fill_hole_def Let_def)
    qed
    have "fold (fill_hole k iv bs (max_or_zero (map (length \<circ> snd) (take k surv))) a) (holes_in data a b) data = restore orig data a b"
      using fold_fill [OF fill, of "holes_in data a b" data] by (intro restore_by_updates [OF mask assms(7)]) auto
    then show ?thesis using True full G [unfolded rows bs iv option.case] by (simp add: held_def)
  qed
qed

lemma recover_group_exact:
  assumes "1 \<le> k" "1 \<le> m" "m = 1 \<or> k + m \<le> 256" "fec_group_size fec = k"
    and mask: "masks data orig" and ab: "a < b" "b \<le> length orig" "m = 1 \<or> b - a \<le> k"
    and size: "\<forall>d\<in>set orig. length d < 2 ^ 32"
    and gen: "genuine_parity k m (take (b - a) (drop a orig)) parity (gi * m)"
  shows "recover_group fec parity a b gi m data =
    Some (if length (holes_in data a b) \<le> length (parity_held m parity (gi * m)) then restore orig data a b else data)"
proof -
  have "length (parity_held m parity (gi * m)) \<le> length [0..<m]"
    unfolding parity_held_def by (rule length_filter_le)
  then have held: "length (parity_held m parity (gi * m)) \<le> m" by simp
  have whole: "restore orig data a b = data" if "holes_in data a b = []"
    using that by (intro restore_by_updates [OF mask ab(2), symmetric]) auto
  consider "holes_in data a b = []" | "m < length (holes_in data a b)"
    | "holes_in data a b \<noteq> []" "length (holes_in data a b) \<le> m" by linarith
  then show ?thesis
  proof cases
    case 1
    then show ?thesis using whole by (simp add: recover_group_def flip: holes_in_def)
  next
    case 2
    then show ?thesis using held by (simp add: recover_group_def flip: holes_in_def)
  next
    case 3
    show ?thesis
    proof (cases "m = 1")
      case True
      then obtain h where h: "holes_in data a b = [h]" using 3 by (cases "holes_in data a b") auto
      have G: "recover_group fec parity a b gi m data = Some (recover_xor data parity a b gi [h])"
        using True h by (simp add: recover_group_def Let_def flip: holes_in_def)
      show ?thesis
      proof (cases "opt_nth parity gi")
        case None
        then show ?thesis using True G h by (simp add: recover_xor_def parity_held_def)
      next
        case (Some s)
        have X: "recover_xor data parity a b gi [h] = data[h := Some (orig ! h)]"
          using gen True by (intro recover_xor_exact [OF mask ab(1,2) h size refl _ Some]) simp
        have "h < length data" using arg_cong [OF h, of set] by (auto simp: holes_in_def)
        then have "data[h := Some (orig ! h)] = restore orig data a b"
          by (intro restore_by_updates [OF mask ab(2)]) (auto simp: h nth_list_update)
        then show ?thesis unfolding G X using True Some by (simp add: h parity_held_def)
      qed
    next
      case False
      then have "k + m \<le> 256" "2 \<le> m" "b - a \<le> k" using assms(2,3) ab(3) by auto
      then show ?thesis
        using recover_matrix_exact [OF assms(1) _ _ assms(4) mask ab(1,2) _ size refl gen 3] by simp
    qed
  qed
qed

section \<open>Recovery of a frame\<close>

definition repairable :: "nat \<Rightarrow> nat \<Rightarrow> bytes option list \<Rightarrow> bytes option list \<Rightarrow> nat \<Rightarrow> bool" where
  "repairable g m data parity gi \<longleftrightarrow>
     length (holes_in data (gi * g) (min (gi * g + g) (length data))) \<le> length (parity_held m parity (gi * m))"

lemma effective_group_size_pos: "1 \<le> fec_group_size fec \<Longrightarrow> 0 < effective_group_size fec requested m"
  by (simp add: effective_group_size_def Let_def)

lemma effective_group_size_le: "m \<noteq> 1 \<Longrightarrow> effective_group_size fec requested m \<le> fec_group_size fec"
  by (simp add: effective_group_size_def Let_def)

lemma div_ceil_less: "0 < g \<Longrightarrow> gi < div_ceil n g \<longleftrightarrow> gi * g < n"
proof -
  assume g: "0 < g"
  have "gi < (n + g - 1) div g \<longleftrightarrow> Suc gi * g \<le> n + g - 1"
    using g by (metis Suc_le_eq less_eq_div_iff_mult_less_eq)
  also have "\<dots> \<longleftrightarrow> gi * g < n" using g by auto
  finally show ?thesis by (simp add: div_ceil_def)
qed

lemma parity_of_group:
  assumes "1 \<le> fec_group_size fec" "1 \<le> m" "m = 1 \<or> fec_group_size fec + m \<le> 256"
    and g: "g = effective_group_size fec requested m"
    and shards: "parity_m fec orig requested m = Some shards" and mask: "masks parity shards"
    and gi: "gi * g < length orig"
  shows "genuine_parity (fec_group_size fec) m (take (min (gi * g + g) (length orig) - gi * g) (drop (gi * g) orig)) parity (gi * m)"
proof -
  let ?k = "fec_group_size fec"
  have pos: "0 < g" unfolding g by (rule effective_group_size_pos [OF assms(1)])
  note C = slice_chunks_facts [OF pos, of orig]
  have "gi < length (slice_chunks g orig)" using C gi pos by (simp add: div_ceil_less)
  then have chunk: "slice_chunks g orig ! gi = take (min (gi * g + g) (length orig) - gi * g) (drop (gi * g) orig)"
    and lt: "gi < length (slice_chunks g orig)"
    using C by (auto simp: min_def)
  define grp where "grp = slice_chunks g orig ! gi"
  have lg: "length grp \<le> g" by (simp add: grp_def chunk)
  show ?thesis
  proof (cases "m = 1")
    case True
    then have s: "shards = map xor_encoded (slice_chunks g orig)" using shards g by (simp add: parity_m_def)
    have "opt_nth parity gi = Some x \<Longrightarrow> x = xor_encoded grp" for x
      using mask lt masksD [OF mask, of gi] by (auto simp: opt_nth_def s grp_def masks_def split: if_splits)
    then show ?thesis
      using True xor_encoded_cell [of grp] by (auto simp: genuine_parity_def grp_def chunk)
  next
    case False
    obtain coeffs where coeffs: "parity_rows ?k m = Some coeffs"
      and s: "shards = concat (map (encode_group fec m (map mul_table_new coeffs)) (slice_chunks g orig))"
      using shards False g by (auto simp: parity_m_def Let_def split: option.splits)
    have gk: "length grp \<le> ?k" using lg effective_group_size_le [OF False] g by (simp add: order.trans)
    have "\<forall>xs\<in>set (map (encode_group fec m (map mul_table_new coeffs)) (slice_chunks g orig)). length xs = m"
      by (simp add: encode_group_def Let_def)
    note F = concat_flat [OF this, folded s]
    have shard: "opt_nth parity (gi * m + rank) = Some x \<Longrightarrow> x = encode_group fec m (map mul_table_new coeffs) grp ! rank"
      if "rank < m" for rank x
    proof -
      assume p: "opt_nth parity (gi * m + rank) = Some x"
      have "gi * m + rank < length shards" using F flat_index [OF lt that] by simp
      moreover have "shards ! (gi * m + rank) = encode_group fec m (map mul_table_new coeffs) grp ! rank"
        using F lt that by (simp add: grp_def)
      ultimately show ?thesis using p masksD [OF mask, of "gi * m + rank"] mask
        by (auto simp: opt_nth_def masks_def split: if_splits)
    qed
    have "genuine_parity ?k m grp parity (gi * m)"
      unfolding genuine_parity_def
    proof (intro allI impI)
      fix rank s assume rank: "rank < m" and "opt_nth parity (gi * m + rank) = Some s"
      then have "s = encode_group fec m (map mul_table_new coeffs) grp ! rank" by (rule shard)
      then show "length s = group_width grp \<and>
          (\<forall>i. cell s i = (if m = 1 then \<Sum>j<length grp. column grp i j else parity_cells ?k rank grp i))"
        using encode_group_facts(2,3) [OF coeffs refl gk rank] False by simp
    qed
    then show ?thesis by (simp add: grp_def chunk)
  qed
qed

lemma recover_groups_exact:
  assumes "0 < g"
    and "\<And>gi d. gi * g < length orig \<Longrightarrow> masks d orig \<Longrightarrow>
       recover_group fec parity (gi * g) (min (gi * g + g) (length orig)) gi m d =
       Some (if length (holes_in d (gi * g) (min (gi * g + g) (length orig))) \<le> length (parity_held m parity (gi * m))
             then restore orig d (gi * g) (min (gi * g + g) (length orig)) else d)"
    and "masks data orig" "n \<le> div_ceil (length orig) g"
  shows "\<exists>d. recover_groups fec parity g m [0..<n] data = Some d \<and> length d = length orig \<and>
    (\<forall>i<length orig. d ! i = (if i div g < n \<and> repairable g m data parity (i div g) then Some (orig ! i) else data ! i))"
  using assms(4)
proof (induction n)
  case 0
  then show ?case using assms(3) by (simp add: masks_def)
next
  case (Suc n)
  then obtain d where d: "recover_groups fec parity g m [0..<n] data = Some d" "length d = length orig"
    and dn: "\<forall>i<length orig. d ! i = (if i div g < n \<and> repairable g m data parity (i div g) then Some (orig ! i) else data ! i)"
    by auto
  have app: "recover_groups fec parity g m (xs @ ys) x =
      (case recover_groups fec parity g m xs x of None \<Rightarrow> None | Some x \<Rightarrow> recover_groups fec parity g m ys x)" for xs ys x
    by (induction xs arbitrary: x) (simp_all add: Let_def split: option.split)
  have ng: "n * g < length orig" using Suc.prems assms(1) by (simp add: Suc_le_eq div_ceil_less)
  let ?a = "n * g" and ?b = "min (n * g + g) (length orig)"
  have range: "?a \<le> i \<and> i < ?b \<longleftrightarrow> i div g = n" if "i < length orig" for i
    using that assms(1) by (auto simp: div_nat_eqI algebra_simps dividend_less_times_div times_div_less_eq_dividend)
  have mask: "masks d orig" using d(2) dn assms(3) by (auto simp: masks_def)
  have "holes_in d ?a ?b = holes_in data ?a ?b"
    unfolding holes_in_def using d(2) dn range assms(3) by (intro filter_cong) (auto simp: masks_def)
  moreover have "length data = length orig" using assms(3) by (simp add: masks_def)
  ultimately have rep: "length (holes_in d ?a ?b) \<le> length (parity_held m parity (n * m)) \<longleftrightarrow> repairable g m data parity n"
    by (simp add: repairable_def)
  have step: "recover_groups fec parity g m [0..<Suc n] data = Some (if repairable g m data parity n then restore orig d ?a ?b else d)"
    using app [of "[0..<n]" "[n]" data] d assms(2) [OF ng mask] rep by (simp add: Let_def)
  have "(if repairable g m data parity n then restore orig d ?a ?b else d) ! i =
      (if i div g < Suc n \<and> repairable g m data parity (i div g) then Some (orig ! i) else data ! i)" if "i < length orig" for i
    using dn range [OF that] d(2) that by (auto simp: restore_def less_Suc_eq)
  then show ?case using step d(2) by (auto simp: restore_def)
qed

lemma recover_m_exact:
  assumes "1 \<le> fec_group_size fec" "1 \<le> m" "m = 1 \<or> fec_group_size fec + m \<le> 256"
    and "\<forall>d\<in>set frags. length d < 2 ^ 32"
    and "parity_m fec frags requested m = Some shards"
    and "masks data frags" "masks parity shards"
  shows "recover_m fec data parity requested m =
    Some (map (\<lambda>i. if repairable (effective_group_size fec requested m) m data parity (i div effective_group_size fec requested m)
                   then Some (frags ! i) else data ! i) [0..<length frags])"
proof -
  define g where "g = effective_group_size fec requested m"
  have pos: "0 < g" unfolding g_def by (rule effective_group_size_pos [OF assms(1)])
  have len: "length data = length frags" using assms(6) by (simp add: masks_def)
  have group: "recover_group fec parity (gi * g) (min (gi * g + g) (length frags)) gi m d =
       Some (if length (holes_in d (gi * g) (min (gi * g + g) (length frags))) \<le> length (parity_held m parity (gi * m))
             then restore frags d (gi * g) (min (gi * g + g) (length frags)) else d)"
    if "gi * g < length frags" "masks d frags" for gi d
  proof (rule recover_group_exact [OF assms(1-3) refl that(2) _ _ _ assms(4)])
    show "m = 1 \<or> min (gi * g + g) (length frags) - gi * g \<le> fec_group_size fec"
    proof (cases "m = 1")
      case False
      then have "g \<le> fec_group_size fec" unfolding g_def by (rule effective_group_size_le)
      then show ?thesis by linarith
    qed simp
  qed (use that pos parity_of_group [OF assms(1-3) g_def assms(5,7)] in auto)
  obtain d where d: "recover_groups fec parity g m [0..<div_ceil (length frags) g] data = Some d" "length d = length frags"
    "\<forall>i<length frags. d ! i = (if i div g < div_ceil (length frags) g \<and> repairable g m data parity (i div g)
       then Some (frags ! i) else data ! i)"
    using recover_groups_exact [OF pos group assms(6) order_refl] by blast
  have "i div g < div_ceil (length frags) g" if "i < length frags" for i
    using that pos by (simp add: div_ceil_less order.strict_trans1 [OF div_times_less_eq_dividend])
  then have "d = map (\<lambda>i. if repairable g m data parity (i div g) then Some (frags ! i) else data ! i) [0..<length frags]"
    using d(2,3) by (intro nth_equalityI) auto
  then show ?thesis using d(1) pos len by (simp add: recover_m_def g_def [symmetric] Let_def)
qed

text \<open>C11. Recovery is exact: when the shards held are genuine, every group with at most as many holes as
  surviving parity shards is restored to the original fragments, byte for byte and at their original
  lengths, and every other group is left untouched; nothing is ever made up.\<close>

theorem recover_is_exact:
  assumes "1 \<le> fec_group_size fec" "1 \<le> m" "m = 1 \<or> fec_group_size fec + m \<le> 256"
    and "\<forall>d\<in>set frags. length d < 2 ^ 32"
    and "parity_m fec frags requested m = Some shards"
    and "masks data frags" "masks parity shards"
  shows "recover_m fec data parity requested m =
    Some (map (\<lambda>i. if repairable (effective_group_size fec requested m) m data parity (i div effective_group_size fec requested m)
                   then Some (frags ! i) else data ! i) [0..<length frags])"
  by (rule recover_m_exact [OF assms])

end
