(* ===== verification/Video_Wire.thy ===== *)
theory Video_Wire
  imports Framing
begin

text \<open>
  The video datagram: the big-endian reader and writer of the video path
  (\<open>slopdesk-video/src/bytes.rs\<close>, \<open>error.rs\<close>), the 19-byte fragment header with its flag bits and its codec
  (\<open>fragment.rs\<close>), and the two tables that map a wire tier to a group size and a parity count
  (\<open>adaptive_fec.rs\<close>).
\<close>

unbundle bit_operations_syntax

section \<open>Errors and bytes\<close>

datatype video_error = Video_Truncated | Video_Malformed string

type_synonym 'a video_result = "video_error + 'a"

text \<open>A writer is the bytes written so far.\<close>

definition vput_u8 :: "u8 \<Rightarrow> bytes \<Rightarrow> bytes" where
  "vput_u8 v buf = buf @ [v]"

definition vput_u16 :: "u16 \<Rightarrow> bytes \<Rightarrow> bytes" where
  "vput_u16 v buf = buf @ be_bytes 2 v"

definition vput_u32 :: "u32 \<Rightarrow> bytes \<Rightarrow> bytes" where
  "vput_u32 v buf = buf @ be_bytes 4 v"

definition vput_bytes :: "bytes \<Rightarrow> bytes \<Rightarrow> bytes" where
  "vput_bytes bs buf = buf @ bs"

record video_reader =
  vr_data :: bytes
  vr_offset :: nat

definition vreader_new :: "bytes \<Rightarrow> video_reader" where
  "vreader_new d = \<lparr>vr_data = d, vr_offset = 0\<rparr>"

type_synonym 'a vread = "video_reader \<Rightarrow> ('a \<times> video_reader) video_result"

definition vread_u8 :: "u8 vread" where
  "vread_u8 r =
    (if vr_offset r < length (vr_data r)
     then Inr (vr_data r ! vr_offset r, r\<lparr>vr_offset := vr_offset r + 1\<rparr>) else Inl Video_Truncated)"

definition vread_bytes :: "nat \<Rightarrow> bytes vread" where
  "vread_bytes count r =
    (case slice_get (vr_data r) (vr_offset r) (vr_offset r + count) of
       None \<Rightarrow> Inl Video_Truncated
     | Some s \<Rightarrow> Inr (s, r\<lparr>vr_offset := vr_offset r + count\<rparr>))"

definition be_value :: "bytes \<Rightarrow> 'a::len word" where
  "be_value bs = foldl (\<lambda>v b. push_bit 8 v OR ucast b) 0 bs"

definition vread_u16 :: "u16 vread" where
  "vread_u16 r = bind_res (vread_bytes 2 r) (\<lambda>(s, r). Inr (be_value s, r))"

definition vread_u32 :: "u32 vread" where
  "vread_u32 r = bind_res (vread_bytes 4 r) (\<lambda>(s, r). Inr (be_value s, r))"

section \<open>Sizes and flags\<close>

definition header_size :: nat where
  "header_size = 19"

definition max_datagram_size :: nat where
  "max_datagram_size = 1200"

definition max_payload_size :: nat where
  "max_payload_size = max_datagram_size - header_size - 4"

definition flag_keyframe :: u8 where "flag_keyframe = 1"
definition flag_parity :: u8 where "flag_parity = 2"
definition flag_crisp :: u8 where "flag_crisp = 4"
definition flag_is_ltr :: u8 where "flag_is_ltr = 64"
definition flag_acked_anchored :: u8 where "flag_acked_anchored = 128"

definition tier_mask :: u8 where
  "tier_mask = 0x38"

definition flags_contains :: "u8 \<Rightarrow> u8 \<Rightarrow> bool" where
  "flags_contains fl other \<longleftrightarrow> fl AND other = other"

definition flags_union :: "u8 \<Rightarrow> u8 \<Rightarrow> u8" where
  "flags_union fl other = fl OR other"

definition flags_fec_tier :: "u8 \<Rightarrow> u8" where
  "flags_fec_tier fl = drop_bit 3 (fl AND tier_mask)"

definition set_fec_tier :: "u8 \<Rightarrow> u8 \<Rightarrow> u8" where
  "set_fec_tier tier fl = (fl AND NOT tier_mask) OR push_bit 3 (tier AND 7)"

section \<open>The header and the datagram\<close>

record fragment_header =
  fh_stream_seq :: u32
  fh_frame_id :: u32
  fh_frag_index :: u16
  fh_frag_count :: u16
  fh_flags :: u8
  fh_host_send_ts_millis :: u32
  fh_payload_length :: u16

definition header_decode :: "bytes \<Rightarrow> (fragment_header \<times> bytes) video_result" where
  "header_decode datagram =
    bind_res (vread_u32 (vreader_new datagram)) (\<lambda>(stream_seq, r).
    bind_res (vread_u32 r) (\<lambda>(frame_id, r).
    bind_res (vread_u16 r) (\<lambda>(frag_index, r).
    bind_res (vread_u16 r) (\<lambda>(frag_count, r).
    bind_res (vread_u8 r) (\<lambda>(fl, r).
    bind_res (vread_u32 r) (\<lambda>(ts, r).
    bind_res (vread_u16 r) (\<lambda>(payload_length, r).
    bind_res (vread_bytes (unat payload_length) r) (\<lambda>(payload, r).
      Inr (\<lparr>fh_stream_seq = stream_seq, fh_frame_id = frame_id, fh_frag_index = frag_index, fh_frag_count = frag_count,
            fh_flags = fl, fh_host_send_ts_millis = ts, fh_payload_length = payload_length\<rparr>, payload)))))))))"

definition encode_datagram :: "fragment_header \<Rightarrow> bytes \<Rightarrow> bytes" where
  "encode_datagram h payload =
    (let out = vput_u32 (fh_stream_seq h) [];
         out = vput_u32 (fh_frame_id h) out;
         out = vput_u16 (fh_frag_index h) out;
         out = vput_u16 (fh_frag_count h) out;
         out = vput_u8 (fh_flags h) out;
         out = vput_u32 (fh_host_send_ts_millis h) out;
         out = vput_u16 (of_nat (length payload)) out
     in vput_bytes payload out)"

record frame_fragment =
  ff_header :: fragment_header
  ff_payload :: bytes

definition fragment_encode :: "frame_fragment \<Rightarrow> bytes" where
  "fragment_encode f = encode_datagram (ff_header f) (ff_payload f)"

definition fragment_decode :: "bytes \<Rightarrow> frame_fragment video_result" where
  "fragment_decode datagram =
    bind_res (header_decode datagram) (\<lambda>(h, payload). Inr \<lparr>ff_header = h, ff_payload = payload\<rparr>)"

section \<open>The tier tables\<close>

definition tier_group_size :: "u8 \<Rightarrow> nat \<Rightarrow> nat option" where
  "tier_group_size tier default_group_size =
    (if tier = 1 then None else if tier = 2 then Some 10 else if tier = 3 then Some 3
     else if tier = 4 then Some 2 else Some default_group_size)"

definition multi_loss_active :: "nat \<Rightarrow> bool" where
  "multi_loss_active parity_count \<longleftrightarrow> 2 \<le> parity_count"

definition tier_parity_count :: "u8 \<Rightarrow> nat \<Rightarrow> nat" where
  "tier_parity_count tier default_m =
    (if tier = 1 then 1
     else if multi_loss_active default_m \<and> tier = 5 then 2
     else if multi_loss_active default_m \<and> tier = 6 then 3
     else if multi_loss_active default_m \<and> tier = 7 then 5
     else default_m)"

section \<open>Laws\<close>

lemma be_value_fold:
  "foldl (\<lambda>v b. push_bit 8 v OR ucast b) v (be_bytes n w) = push_bit (8 * n) v OR take_bit (8 * n) (w :: 'a::len word)"
proof (induction n arbitrary: v)
  case (Suc n)
  have "push_bit (8 * n) (push_bit 8 v OR ucast (ucast (drop_bit (8 * n) w) :: u8)) OR take_bit (8 * n) w
      = push_bit (8 * Suc n) v OR take_bit (8 * Suc n) w"
    by (rule bit_word_eqI) (auto simp: bit_simps ac_simps)
  then show ?case using Suc.IH by simp
qed simp

lemma be_value_16 [simp]: "be_value (be_bytes 2 w) = (w :: u16)"
  by (simp add: be_value_def be_value_fold take_bit_word_eq_self)

lemma be_value_32 [simp]: "be_value (be_bytes 4 w) = (w :: u32)"
  by (simp add: be_value_def be_value_fold take_bit_word_eq_self)

definition vcursor :: "bytes \<Rightarrow> bytes \<Rightarrow> video_reader" where
  "vcursor pre rest = \<lparr>vr_data = pre @ rest, vr_offset = length pre\<rparr>"

lemma vreader_new_cursor: "vreader_new d = vcursor [] d"
  by (simp add: vreader_new_def vcursor_def)

lemma vread_bytes_cursor [simp]:
  "length bs = n \<Longrightarrow> vread_bytes n (vcursor pre (bs @ rest)) = Inr (bs, vcursor (pre @ bs) rest)"
  by (auto simp: vread_bytes_def vcursor_def slice_get_def)

lemma vread_ints [simp]:
  "vread_u16 (vcursor pre (be_bytes 2 v @ rest)) = Inr (v, vcursor (pre @ be_bytes 2 v) rest)"
  "vread_u32 (vcursor pre (be_bytes 4 w @ rest)) = Inr (w, vcursor (pre @ be_bytes 4 w) rest)"
  "vread_u8 (vcursor pre (b # rest)) = Inr (b, vcursor (pre @ [b]) rest)"
    apply (simp add: vread_u16_def)
   apply (simp add: vread_u32_def)
  apply (simp add: vread_u8_def vcursor_def nth_append)
  done

lemmas vput_defs = vput_u8_def vput_u16_def vput_u32_def vput_bytes_def

lemma encode_datagram_bytes:
  "encode_datagram h p = be_bytes 4 (fh_stream_seq h) @ be_bytes 4 (fh_frame_id h) @ be_bytes 2 (fh_frag_index h) @
     be_bytes 2 (fh_frag_count h) @ fh_flags h # be_bytes 4 (fh_host_send_ts_millis h) @ be_bytes 2 (of_nat (length p) :: u16) @ p"
  by (simp add: encode_datagram_def vput_defs)

lemma length_encode_datagram: "length (encode_datagram h p) = header_size + length p"
  by (simp add: encode_datagram_bytes header_size_def)

lemma unat_of_nat_16: "n < 65536 \<Longrightarrow> unat (of_nat n :: u16) = n"
  by (simp add: unsigned_of_nat take_bit_eq_mod)

text \<open>A datagram decodes to what was encoded, the declared length taken from the payload; bytes behind it are
  ignored.\<close>

theorem fragment_round_trip:
  assumes "length p < 65536"
  shows "fragment_decode (encode_datagram h p @ junk) = Inr \<lparr>ff_header = h\<lparr>fh_payload_length := of_nat (length p)\<rparr>, ff_payload = p\<rparr>"
proof -
  have "header_decode (encode_datagram h p @ junk) = Inr (h\<lparr>fh_payload_length := of_nat (length p)\<rparr>, p)"
    using assms by (simp add: header_decode_def encode_datagram_bytes vreader_new_cursor unat_of_nat_16)
  then show ?thesis by (simp add: fragment_decode_def)
qed

end
