(* ===== verification/Reassembler.thy ===== *)
theory Reassembler
  imports Video_Fec Video_Wire Btree_Map
begin

text \<open>
  The client receive path of video, \<open>slopdesk-video/src/reassembler.rs\<close>: the per-frame buffer with its
  constant-time completeness tally, the loss frontier with its resynchronisation, the sweep that declares
  a frame lost or asks for a retransmit, and the assembly through the erasure code. Signed wrap-around
  distance is computed on words as in the code; \<open>i32\<close> limits are integers.
\<close>

section \<open>Limits\<close>

definition max_fragments_per_frame :: nat where
  "max_fragments_per_frame = 8192"

definition max_frontier_jump :: int where
  "max_frontier_jump = 4096"

definition resync_streak :: nat where
  "resync_streak = 8"

definition resync_cluster_window :: int where
  "resync_cluster_window = 256"

definition retired_soft_cap :: nat where
  "retired_soft_cap = 512"

definition retired_keep_distance :: int where
  "retired_keep_distance = 256"

definition max_nack_fragments :: nat where
  "max_nack_fragments = 64"

definition distance_wrapped :: "u32 \<Rightarrow> u32 \<Rightarrow> int" where
  "distance_wrapped value other = sint (value - other)"

section \<open>Results\<close>

record reassembled_frame =
  rf_frame_id :: u32
  rf_keyframe :: bool
  rf_crisp :: bool
  rf_avcc :: bytes
  rf_recovered_via_fec :: bool
  rf_is_ltr :: bool
  rf_acked_anchored :: bool

datatype reassembly_result = Incomplete | Completed reassembled_frame | Dropped u32 | Stale

section \<open>One frame's buffer\<close>

record pending =
  pf_frag_count :: u16
  pf_keyframe :: bool
  pf_crisp :: bool
  pf_is_ltr :: bool
  pf_acked_anchored :: bool
  pf_data :: "u16 \<rightharpoonup> bytes"
  pf_parity :: "nat \<rightharpoonup> bytes"
  pf_observed_data_count :: "nat option"
  pf_group_size :: "nat option"
  pf_m :: nat
  pf_pinned_data_count :: nat
  pf_missing_per_group :: "nat list"
  pf_surviving_per_group :: "nat list"
  pf_hopeless_groups :: nat
  pf_recoverable_now_groups :: nat
  pf_awaiting_groups :: nat
  pf_data_present_below_boundary :: nat

text \<open>The descending scan for the data count whose fragments number \<open>n\<close> in all.\<close>

fun inverted_scan :: "nat \<Rightarrow> nat \<Rightarrow> nat \<Rightarrow> nat \<Rightarrow> nat option" where
  "inverted_scan n group_size m 0 = (if n = 0 then Some 0 else None)"
| "inverted_scan n group_size m (Suc d) =
    (let parity = m * div_ceil (Suc d) group_size
     in if Suc d + parity = n then Some (Suc d)
        else if Suc d + parity < n then None
        else inverted_scan n group_size m d)"

definition inverted_data_count :: "nat \<Rightarrow> nat \<Rightarrow> nat \<Rightarrow> nat option" where
  "inverted_data_count n group_size m =
    (if group_size < 1 \<or> m < 1 then None else inverted_scan n group_size m n)"

definition pending_default :: pending where
  "pending_default = \<lparr>pf_frag_count = 0, pf_keyframe = False, pf_crisp = False, pf_is_ltr = False,
    pf_acked_anchored = False, pf_data = Map.empty, pf_parity = Map.empty, pf_observed_data_count = None,
    pf_group_size = None, pf_m = 0, pf_pinned_data_count = 0, pf_missing_per_group = [], pf_surviving_per_group = [],
    pf_hopeless_groups = 0, pf_recoverable_now_groups = 0, pf_awaiting_groups = 0, pf_data_present_below_boundary = 0\<rparr>"

definition pending_new :: "u16 \<Rightarrow> nat option \<Rightarrow> nat \<Rightarrow> pending" where
  "pending_new frag_count group_size parity_shards_per_group =
    (let grp = (case group_size of Some sz \<Rightarrow> if 1 \<le> sz then Some sz else None | None \<Rightarrow> None);
         m = max parity_shards_per_group 1;
         n = unat frag_count;
         p = pending_default\<lparr>pf_frag_count := frag_count, pf_group_size := grp, pf_m := m, pf_pinned_data_count := n\<rparr>
     in case grp of
          None \<Rightarrow> p
        | Some sz \<Rightarrow>
            let data_count = (case inverted_data_count n sz m of None \<Rightarrow> n | Some d \<Rightarrow> d);
                groups = div_ceil data_count sz;
                missing = map (\<lambda>index. min sz (data_count - index * sz)) [0..<groups];
                hopeless = length (filter (\<lambda>missing. m < missing) missing)
            in p\<lparr>pf_pinned_data_count := data_count, pf_missing_per_group := missing,
                 pf_surviving_per_group := replicate groups 0, pf_hopeless_groups := hopeless,
                 pf_awaiting_groups := groups - hopeless\<rparr>)"

definition observed_boundary :: "pending \<Rightarrow> nat" where
  "observed_boundary p = (case pf_observed_data_count p of Some seen \<Rightarrow> seen | None \<Rightarrow> unat (pf_frag_count p))"

definition resolved_data_count :: "pending \<Rightarrow> nat" where
  "resolved_data_count p = (if pf_group_size p \<noteq> None then pf_pinned_data_count p else observed_boundary p)"

definition can_eventually_complete :: "pending \<Rightarrow> bool" where
  "can_eventually_complete p =
    (let data_count = resolved_data_count p
     in if data_count = 0 then pf_data p 0 \<noteq> None
        else if pf_group_size p = None then pf_data_present_below_boundary p = data_count
        else pf_hopeless_groups p = 0 \<and> pf_awaiting_groups p = 0)"

definition is_awaiting_recoverable_parity :: "pending \<Rightarrow> bool" where
  "is_awaiting_recoverable_parity p \<longleftrightarrow>
    pf_group_size p \<noteq> None \<and> pf_hopeless_groups p = 0 \<and> pf_recoverable_now_groups p = 0 \<and> 0 < pf_awaiting_groups p"

definition step_count :: "bool \<Rightarrow> nat \<Rightarrow> nat" where
  "step_count add n = (if add then n + 1 else n - 1)"

definition pf_tally :: "nat \<Rightarrow> bool \<Rightarrow> pending \<Rightarrow> pending" where
  "pf_tally grp add p =
    (if length (pf_missing_per_group p) \<le> grp then p
     else
       let missing = pf_missing_per_group p ! grp
       in if missing < 1 then p
          else
            let surviving = (if grp < length (pf_surviving_per_group p) then pf_surviving_per_group p ! grp else 0)
            in if pf_m p < missing then p\<lparr>pf_hopeless_groups := step_count add (pf_hopeless_groups p)\<rparr>
               else if missing \<le> surviving
               then p\<lparr>pf_recoverable_now_groups := step_count add (pf_recoverable_now_groups p)\<rparr>
               else p\<lparr>pf_awaiting_groups := step_count add (pf_awaiting_groups p)\<rparr>)"

definition note_data_arrived :: "nat \<Rightarrow> pending \<Rightarrow> pending" where
  "note_data_arrived index p =
    (case pf_group_size p of
       None \<Rightarrow> if index < observed_boundary p
               then p\<lparr>pf_data_present_below_boundary := pf_data_present_below_boundary p + 1\<rparr> else p
     | Some group_size \<Rightarrow>
         if pf_pinned_data_count p \<le> index then p
         else
           let grp = index div group_size;
               p = pf_tally grp False p;
               p = (if grp < length (pf_missing_per_group p)
                    then p\<lparr>pf_missing_per_group := (pf_missing_per_group p)[grp := pf_missing_per_group p ! grp - 1]\<rparr> else p)
           in pf_tally grp True p)"

definition note_parity_arrived :: "nat \<Rightarrow> pending \<Rightarrow> pending" where
  "note_parity_arrived slot p =
    (if pf_group_size p = None then p
     else
       let grp = slot div pf_m p
       in if length (pf_surviving_per_group p) \<le> grp then p
          else
            let p = pf_tally grp False p;
                p = p\<lparr>pf_surviving_per_group := (pf_surviving_per_group p)[grp := pf_surviving_per_group p ! grp + 1]\<rparr>
            in pf_tally grp True p)"

definition note_observed_parity_boundary :: "nat \<Rightarrow> pending \<Rightarrow> pending" where
  "note_observed_parity_boundary parity_index p =
    (let p = (if pf_group_size p = None
              then
                let old = observed_boundary p;
                    new = min old parity_index
                in fold (\<lambda>index p. if index < 65536 \<and> pf_data p (of_nat index) \<noteq> None
                                   then p\<lparr>pf_data_present_below_boundary := pf_data_present_below_boundary p - 1\<rparr> else p)
                     [new..<old] p
              else p)
     in p\<lparr>pf_observed_data_count :=
           Some (case pf_observed_data_count p of None \<Rightarrow> parity_index | Some seen \<Rightarrow> min seen parity_index)\<rparr>)"

text \<open>The ascending scan for missing fragments, given up once the request would exceed the cap.\<close>

fun missing_scan :: "(u16 \<rightharpoonup> bytes) \<Rightarrow> nat \<Rightarrow> nat list \<Rightarrow> u16 list \<Rightarrow> u16 list option" where
  "missing_scan d max_frags [] missing = (if missing = [] then None else Some missing)"
| "missing_scan d max_frags (index # rest) missing =
    (if 65536 \<le> index then None
     else if d (of_nat index) = None then
       let missing = missing @ [of_nat index]
       in if max_frags < length missing then None else missing_scan d max_frags rest missing
     else missing_scan d max_frags rest missing)"

definition missing_data_frags :: "nat \<Rightarrow> pending \<Rightarrow> u16 list option" where
  "missing_data_frags max_frags p =
    (let data_count = resolved_data_count p
     in if data_count = 0 then None else missing_scan (pf_data p) max_frags [0..<data_count] [])"

section \<open>The reassembler\<close>

record reassembler =
  fr_fec :: "rs_fec option"
  fr_pending :: "(u32 \<times> pending) list"
  fr_highest_retired :: "u32 option"
  fr_highest_seen :: "u32 option"
  fr_retired :: "u32 set"
  fr_dropped_queue :: "u32 list"
  fr_reorder_grace :: int
  fr_retransmit_grace :: int
  fr_nacked :: "u32 set"
  fr_needs_retransmit :: "(u32 \<times> u16 list) list"
  fr_nack_max_frags :: nat
  fr_jump_candidates :: "u32 list"
  fr_jump_rejected :: nat

definition reassembler_new :: "rs_fec option \<Rightarrow> int \<Rightarrow> reassembler" where
  "reassembler_new fec fec_reorder_grace =
    \<lparr>fr_fec = (case fec of Some scheme \<Rightarrow> if 1 \<le> fec_parity scheme then Some scheme else None | None \<Rightarrow> None),
     fr_pending = [], fr_highest_retired = None, fr_highest_seen = None, fr_retired = {}, fr_dropped_queue = [],
     fr_reorder_grace = max fec_reorder_grace 0, fr_retransmit_grace = 0, fr_nacked = {}, fr_needs_retransmit = [],
     fr_nack_max_frags = 0, fr_jump_candidates = [], fr_jump_rejected = 0\<rparr>"

definition enable_retransmit :: "int \<Rightarrow> nat \<Rightarrow> reassembler \<Rightarrow> reassembler" where
  "enable_retransmit grace max_frags r =
    r\<lparr>fr_retransmit_grace := max grace 0, fr_nack_max_frags := min max_frags max_nack_fragments\<rparr>"

definition next_needs_retransmit :: "reassembler \<Rightarrow> (u32 \<times> u16 list) option \<times> reassembler" where
  "next_needs_retransmit r =
    (case fr_needs_retransmit r of [] \<Rightarrow> (None, r) | x # xs \<Rightarrow> (Some x, r\<lparr>fr_needs_retransmit := xs\<rparr>))"

definition next_dropped_frame :: "reassembler \<Rightarrow> u32 option \<times> reassembler" where
  "next_dropped_frame r =
    (case fr_dropped_queue r of [] \<Rightarrow> (None, r) | x # xs \<Rightarrow> (Some x, r\<lparr>fr_dropped_queue := xs\<rparr>))"

definition resync_on_consistent_jump :: "u32 \<Rightarrow> reassembler \<Rightarrow> bool \<times> reassembler" where
  "resync_on_consistent_jump frame_id r =
    (let candidates = fr_jump_candidates r;
         candidates = (if candidates \<noteq> [] \<and> resync_cluster_window < \<bar>distance_wrapped frame_id (last candidates)\<bar>
                       then [] else candidates);
         candidates = candidates @ [frame_id]
     in if resync_streak \<le> length candidates then (True, r\<lparr>fr_jump_candidates := []\<rparr>)
        else (False, r\<lparr>fr_jump_candidates := candidates\<rparr>))"

definition advance_frontier :: "u32 \<Rightarrow> reassembler \<Rightarrow> bool \<times> reassembler" where
  "advance_frontier frame_id r =
    (case fr_highest_seen r of
       None \<Rightarrow> (True, r\<lparr>fr_highest_seen := Some frame_id\<rparr>)
     | Some seen \<Rightarrow>
         let jump = distance_wrapped frame_id seen;
             (proceed, r) =
               (if max_frontier_jump < jump
                then resync_on_consistent_jump frame_id (r\<lparr>fr_jump_rejected := fr_jump_rejected r + 1\<rparr>)
                else (True, r\<lparr>fr_jump_candidates := []\<rparr>))
         in if \<not> proceed then (False, r)
            else if 0 < jump then (True, r\<lparr>fr_highest_seen := Some frame_id\<rparr>) else (True, r))"

text \<open>The assembled bytes and whether a hole was filled; the outer \<open>None\<close> is a failed assertion of the codec.\<close>

definition assemble :: "rs_fec option \<Rightarrow> pending \<Rightarrow> (bytes \<times> bool) option option" where
  "assemble fec p =
    (let data_count = resolved_data_count p
     in if data_count = 0 then Some (map_option (\<lambda>only. (only, False)) (pf_data p 0))
        else
          let present = map (\<lambda>index. if index < 65536 then pf_data p (of_nat index) else None) [0..<data_count]
          in if None \<notin> set present then Some (Some (concat (map the present), False))
             else
               case fec of
                 None \<Rightarrow> Some None
               | Some scheme \<Rightarrow>
                   case pf_group_size p of
                     None \<Rightarrow> Some None
                   | Some group_size \<Rightarrow>
                       let parity_slots = unat (pf_frag_count p) - data_count;
                           parity = map (pf_parity p) [0..<parity_slots]
                       in case recover_with_m scheme present parity group_size (pf_m p) of
                            None \<Rightarrow> None
                          | Some d \<Rightarrow> if None \<in> set d then Some None else Some (Some (concat (map the d), True)))"

definition retire_frame :: "u32 \<Rightarrow> reassembler \<Rightarrow> reassembler" where
  "retire_frame frame_id r =
    (let r = r\<lparr>fr_pending := bt_remove frame_id (fr_pending r), fr_nacked := fr_nacked r - {frame_id},
              fr_retired := insert frame_id (fr_retired r)\<rparr>;
         ahead = (case fr_highest_retired r of None \<Rightarrow> True | Some high \<Rightarrow> 0 < distance_wrapped frame_id high);
         r = (if ahead then r\<lparr>fr_highest_retired := Some frame_id\<rparr> else r)
     in if retired_soft_cap < card (fr_retired r) then
          case fr_highest_retired r of
            None \<Rightarrow> r
          | Some high \<Rightarrow> r\<lparr>fr_retired := Set.filter (\<lambda>i. distance_wrapped high i \<le> retired_keep_distance) (fr_retired r)\<rparr>
        else r)"

definition try_complete :: "u32 \<Rightarrow> reassembler \<Rightarrow> (reassembly_result \<times> reassembler) option" where
  "try_complete frame_id r =
    (case map_of (fr_pending r) frame_id of
       None \<Rightarrow> Some (Stale, r)
     | Some p \<Rightarrow>
         if \<not> can_eventually_complete p then Some (Incomplete, r)
         else
           case assemble (fr_fec r) p of
             None \<Rightarrow> None
           | Some None \<Rightarrow> Some (Incomplete, r)
           | Some (Some (avcc, recovered_via_fec)) \<Rightarrow>
               Some (Completed \<lparr>rf_frame_id = frame_id, rf_keyframe = pf_keyframe p, rf_crisp = pf_crisp p,
                                rf_avcc = avcc, rf_recovered_via_fec = recovered_via_fec, rf_is_ltr = pf_is_ltr p,
                                rf_acked_anchored = pf_acked_anchored p\<rparr>,
                     retire_frame frame_id r))"

text \<open>What the sweep decides for one pending frame.\<close>

datatype sweep_verdict = Keep | Nack "u16 list" | Hopeless

definition sweep_verdict_of :: "u32 \<Rightarrow> reassembler \<Rightarrow> u32 \<Rightarrow> pending \<Rightarrow> sweep_verdict" where
  "sweep_verdict_of frontier r frame_id p =
    (let age = distance_wrapped frontier frame_id
     in if age \<le> 0 \<or> can_eventually_complete p then Keep
        else if is_awaiting_recoverable_parity p \<and> age \<le> fr_reorder_grace r then Keep
        else if 0 < fr_retransmit_grace r \<and> age \<le> fr_retransmit_grace r then
          if frame_id \<in> fr_nacked r then Keep
          else case missing_data_frags (fr_nack_max_frags r) p of
                 Some missing \<Rightarrow> Nack missing
               | None \<Rightarrow> Hopeless
        else Hopeless)"

text \<open>A stable sort by a comparator: an element goes before the first one it does not come after.\<close>

fun insert_by :: "('a \<Rightarrow> 'a \<Rightarrow> bool) \<Rightarrow> 'a \<Rightarrow> 'a list \<Rightarrow> 'a list" where
  "insert_by le x [] = [x]"
| "insert_by le x (y # ys) = (if le x y then x # y # ys else y # insert_by le x ys)"

definition sort_by :: "('a \<Rightarrow> 'a \<Rightarrow> bool) \<Rightarrow> 'a list \<Rightarrow> 'a list" where
  "sort_by le xs = foldr (insert_by le) xs []"

definition sweep_hopeless_frames :: "reassembler \<Rightarrow> reassembler" where
  "sweep_hopeless_frames r =
    (case fr_highest_seen r of
       None \<Rightarrow> r
     | Some frontier \<Rightarrow>
         let verdicts = map (\<lambda>(frame_id, p). (frame_id, sweep_verdict_of frontier r frame_id p)) (fr_pending r);
             nack = List.map_filter (\<lambda>(frame_id, v). case v of Nack missing \<Rightarrow> Some (frame_id, missing) | _ \<Rightarrow> None) verdicts;
             hopeless = List.map_filter (\<lambda>(frame_id, v). case v of Hopeless \<Rightarrow> Some frame_id | _ \<Rightarrow> None) verdicts;
             nack = sort_by (\<lambda>left right. distance_wrapped (fst left) (fst right) < 0 \<or>
                                 distance_wrapped (fst left) (fst right) = 0 \<and> fst left \<le> fst right) nack;
             r = fold (\<lambda>(frame_id, missing) r. r\<lparr>fr_nacked := insert frame_id (fr_nacked r),
                                  fr_needs_retransmit := fr_needs_retransmit r @ [(frame_id, missing)]\<rparr>) nack r;
             hopeless = sort_by (\<lambda>left right. distance_wrapped left right \<le> 0) hopeless
         in fold (\<lambda>frame_id r. let r = retire_frame frame_id r
                               in r\<lparr>fr_dropped_queue := fr_dropped_queue r @ [frame_id]\<rparr>) hopeless r)"

text \<open>A fragment filed into the buffer of its frame; only a first arrival counts.\<close>

definition file_fragment :: "frame_fragment \<Rightarrow> pending \<Rightarrow> pending" where
  "file_fragment f p =
    (let h = ff_header f;
         fl = fh_flags h;
         p = p\<lparr>pf_keyframe := pf_keyframe p \<or> flags_contains fl flag_keyframe,
              pf_crisp := pf_crisp p \<or> flags_contains fl flag_crisp,
              pf_is_ltr := pf_is_ltr p \<or> flags_contains fl flag_is_ltr,
              pf_acked_anchored := pf_acked_anchored p \<or> flags_contains fl flag_acked_anchored\<rparr>
     in if flags_contains fl flag_parity then
          let parity_index = unat (fh_frag_index h);
              boundary = (if pf_group_size p \<noteq> None then pf_pinned_data_count p else parity_index);
              p = note_observed_parity_boundary parity_index p;
              slot = parity_index - boundary;
              first = pf_parity p slot = None;
              p = p\<lparr>pf_parity := (pf_parity p)(slot \<mapsto> ff_payload f)\<rparr>
          in if first then note_parity_arrived slot p else p
        else
          let first = pf_data p (fh_frag_index h) = None;
              p = p\<lparr>pf_data := (pf_data p)(fh_frag_index h \<mapsto> ff_payload f)\<rparr>
          in if first then note_data_arrived (unat (fh_frag_index h)) p else p)"

definition implausible :: "frame_fragment \<Rightarrow> bool" where
  "implausible f \<longleftrightarrow> fh_frag_count (ff_header f) = 0 \<or> max_fragments_per_frame < unat (fh_frag_count (ff_header f)) \<or>
     fh_frag_count (ff_header f) \<le> fh_frag_index (ff_header f) \<or>
     max_datagram_size - header_size < length (ff_payload f)"

definition entry_for :: "frame_fragment \<Rightarrow> reassembler \<Rightarrow> pending" where
  "entry_for f r =
    (case map_of (fr_pending r) (fh_frame_id (ff_header f)) of
       Some p \<Rightarrow> p
     | None \<Rightarrow>
         let tier = flags_fec_tier (fh_flags (ff_header f))
         in pending_new (fh_frag_count (ff_header f))
              (case fr_fec r of None \<Rightarrow> None | Some scheme \<Rightarrow> tier_group_size tier (fec_group_size scheme))
              (tier_parity_count tier (case fr_fec r of None \<Rightarrow> 1 | Some scheme \<Rightarrow> fec_parity scheme)))"

definition ingest :: "frame_fragment \<Rightarrow> reassembler \<Rightarrow> (reassembly_result \<times> reassembler) option" where
  "ingest f r =
    (let frame_id = fh_frame_id (ff_header f)
     in if implausible f then Some (Stale, r)
        else if frame_id \<in> fr_retired r then Some (Stale, r)
        else if (case fr_highest_retired r of
                   None \<Rightarrow> False
                 | Some high \<Rightarrow> distance_wrapped frame_id high \<le> 0 \<and> map_of (fr_pending r) frame_id = None)
        then Some (Stale, r)
        else
          case advance_frontier frame_id r of
            (False, r) \<Rightarrow> Some (Stale, r)
          | (True, r) \<Rightarrow>
              let p = entry_for f r;
                  r = r\<lparr>fr_pending := bt_insert frame_id p (fr_pending r)\<rparr>
              in if fh_frag_count (ff_header f) \<noteq> pf_frag_count p then Some (Stale, r)
                 else
                   let r = r\<lparr>fr_pending := bt_insert frame_id (file_fragment f p) (fr_pending r)\<rparr>
                   in case try_complete frame_id r of
                        None \<Rightarrow> None
                      | Some (result, r) \<Rightarrow>
                          let r = sweep_hopeless_frames r
                          in case result of
                               Completed _ \<Rightarrow> Some (result, r)
                             | _ \<Rightarrow>
                                 if map_of (fr_pending r) frame_id = None \<and> frame_id \<in> set (fr_dropped_queue r)
                                 then Some (Dropped frame_id, r\<lparr>fr_dropped_queue := filter (\<lambda>q. q \<noteq> frame_id) (fr_dropped_queue r)\<rparr>)
                                 else Some (Incomplete, r))"

end
