(* ===== verification/Video_Packetizer.thy ===== *)
theory Video_Packetizer
  imports Reassembler "HOL-Library.Multiset"
begin

text \<open>
  The host send path of video: the burst-resilient transmit order
  (\<open>slopdesk-video/src/interleaver.rs\<close>) and the packetizer that cuts an encoded frame into datagrams, adds
  the parity of the frame's tier and stamps the headers (\<open>packetizer.rs\<close>). The theorems say that the order
  is a permutation, what each datagram decodes to, and that no datagram exceeds the budget.
\<close>

section \<open>Transmit order\<close>

text \<open>\<open>checked_mul\<close> and \<open>checked_add\<close> cannot fail on counts of this size; a slot past the end moves nothing.\<close>

definition take_slot :: "nat \<Rightarrow> 'a option list \<times> 'a list \<Rightarrow> 'a option list \<times> 'a list" where
  "take_slot i st =
    (case st of (slots, ordered) \<Rightarrow>
      if i < length slots then
        case slots ! i of None \<Rightarrow> (slots, ordered) | Some item \<Rightarrow> (slots[i := None], ordered @ [item])
      else (slots, ordered))"

definition take_column_major :: "nat \<Rightarrow> nat \<Rightarrow> 'a option list \<times> 'a list \<Rightarrow> 'a option list \<times> 'a list" where
  "take_column_major stride num_groups st =
    fold (\<lambda>rank. fold (\<lambda>group. take_slot (group * stride + rank)) [0..<num_groups]) [0..<stride] st"

definition interleave :: "'a list \<Rightarrow> nat \<Rightarrow> nat \<Rightarrow> 'a list" where
  "interleave items data_count group_size =
    (if group_size \<le> 1 \<or> length items \<le> group_size then items
     else
       let data_count = min data_count (length items)
       in if data_count \<le> group_size then items
          else
            let data = map Some (take data_count items);
                parity = map Some (drop data_count items);
                num_groups = div_ceil data_count group_size;
                (data, ordered) = take_column_major group_size num_groups (data, []);
                m = length parity div num_groups;
                (parity, ordered) = take_column_major m num_groups (parity, ordered)
            in ordered @ List.map_filter id parity)"

section \<open>The packetizer\<close>

record packetize_options =
  po_keyframe :: bool
  po_crisp :: bool
  po_host_send_ts_millis :: u32
  po_fec_tier :: u8
  po_is_ltr :: bool
  po_acked_anchored :: bool
  po_interleave :: bool

record packetizer =
  pk_fec :: "rs_fec option"
  pk_next_stream_seq :: u32
  pk_next_frame_id :: u32

definition packetizer_new :: "rs_fec option \<Rightarrow> packetizer" where
  "packetizer_new fec = \<lparr>pk_fec = fec, pk_next_stream_seq = 0, pk_next_frame_id = 0\<rparr>"

text \<open>No codec and the tier without parity give none; a failed assertion of the code is \<open>None\<close>.\<close>

definition parity_payloads :: "rs_fec option \<Rightarrow> bytes list \<Rightarrow> u8 \<Rightarrow> bytes list option" where
  "parity_payloads fec payloads fec_tier =
    (case fec of
       None \<Rightarrow> Some []
     | Some scheme \<Rightarrow>
         case tier_group_size fec_tier (fec_group_size scheme) of
           None \<Rightarrow> Some []
         | Some g \<Rightarrow> parity_with_m scheme payloads g (tier_parity_count fec_tier (fec_parity scheme)))"

definition write_datagram ::
    "u32 \<Rightarrow> u16 \<Rightarrow> u16 \<Rightarrow> u8 \<Rightarrow> bytes \<Rightarrow> u32 \<Rightarrow> packetizer \<Rightarrow> bytes \<times> packetizer" where
  "write_datagram frame_id frag_index frag_count fl payload ts p =
    (let h = \<lparr>fh_stream_seq = pk_next_stream_seq p, fh_frame_id = frame_id, fh_frag_index = frag_index,
              fh_frag_count = frag_count, fh_flags = fl, fh_host_send_ts_millis = ts,
              fh_payload_length = of_nat (length payload)\<rparr>
     in (encode_datagram h payload, p\<lparr>pk_next_stream_seq := pk_next_stream_seq p + 1\<rparr>))"

text \<open>One of the two loops: the payloads in order, the index wrapping as a \<open>u16\<close>.\<close>

fun write_all ::
    "u32 \<Rightarrow> u16 \<Rightarrow> u8 \<Rightarrow> u32 \<Rightarrow> bytes list \<Rightarrow> u16 \<Rightarrow> packetizer \<Rightarrow> bytes list \<times> u16 \<times> packetizer" where
  "write_all frame_id frag_count fl ts [] i p = ([], i, p)"
| "write_all frame_id frag_count fl ts (payload # rest) i p =
    (case write_datagram frame_id i frag_count fl payload ts p of
       (d, p) \<Rightarrow> case write_all frame_id frag_count fl ts rest (i + 1) p of (ds, i, p) \<Rightarrow> (d # ds, i, p))"

definition base_flags :: "packetize_options \<Rightarrow> u8" where
  "base_flags options =
    (let fl = 0;
         fl = (if po_keyframe options then flags_union fl flag_keyframe else fl);
         fl = (if po_crisp options then flags_union fl flag_crisp else fl);
         fl = (if po_is_ltr options then flags_union fl flag_is_ltr else fl);
         fl = (if po_acked_anchored options then flags_union fl flag_acked_anchored else fl)
     in set_fec_tier (po_fec_tier options) fl)"

definition frame_payloads :: "bytes \<Rightarrow> bytes list" where
  "frame_payloads frame = (if frame = [] then [[]] else slice_chunks max_payload_size frame)"

definition packetize_datagrams ::
    "bytes \<Rightarrow> packetize_options \<Rightarrow> packetizer \<Rightarrow> ((bytes list \<times> nat) \<times> packetizer) option" where
  "packetize_datagrams frame options p =
    (let frame_id = pk_next_frame_id p;
         p = p\<lparr>pk_next_frame_id := frame_id + 1\<rparr>;
         payloads = frame_payloads frame
     in case parity_payloads (pk_fec p) payloads (po_fec_tier options) of
          None \<Rightarrow> None
        | Some parity \<Rightarrow>
            if max_fragments_per_frame < length payloads + length parity then Some (([], 0), p)
            else
              let frag_count = of_nat (length payloads + length parity);
                  fl = base_flags options;
                  ts = po_host_send_ts_millis options
              in case write_all frame_id frag_count fl ts payloads 0 p of
                   (data, i, p) \<Rightarrow>
                     case write_all frame_id frag_count (flags_union fl flag_parity) ts parity i p of
                       (rest, _, p) \<Rightarrow> Some ((data @ rest, length payloads), p))"

definition packetize_raw :: "bytes \<Rightarrow> packetize_options \<Rightarrow> packetizer \<Rightarrow> (bytes list \<times> packetizer) option" where
  "packetize_raw frame options p =
    (case packetize_datagrams frame options p of
       None \<Rightarrow> None
     | Some ((datagrams, data_count), p) \<Rightarrow>
         if \<not> po_interleave options then Some (datagrams, p)
         else
           let default_group = (case pk_fec p of None \<Rightarrow> 1 | Some scheme \<Rightarrow> fec_group_size scheme);
               g = (case tier_group_size (po_fec_tier options) default_group of None \<Rightarrow> 1 | Some g \<Rightarrow> g)
           in Some (interleave datagrams data_count g, p))"

section \<open>The order is a permutation\<close>

definition slot_items :: "'a option list \<Rightarrow> 'a multiset" where
  "slot_items slots = mset (List.map_filter id slots)"

lemma slot_items_update:
  "i < length slots \<Longrightarrow> slots ! i = Some x \<Longrightarrow> slot_items slots = add_mset x (slot_items (slots[i := None]))"
proof (induction slots arbitrary: i)
  case (Cons s slots)
  then show ?case by (cases i; cases s) (auto simp: slot_items_def map_filter_simps)
qed simp

text \<open>What one visit keeps: no item is lost or duplicated, and the visited slot is empty afterwards.\<close>

lemma take_slot_keeps:
  assumes "take_slot i (slots, ordered) = (slots', ordered')"
  shows "slot_items slots' + mset ordered' = slot_items slots + mset ordered"
    and "length slots' = length slots" "j < length slots \<Longrightarrow> slots ! j = None \<Longrightarrow> slots' ! j = None"
    and "i < length slots \<Longrightarrow> slots' ! i = None"
  using assms slot_items_update [of i slots]
  by (auto simp: take_slot_def nth_list_update split: if_splits option.splits)

lemma fold_take_slot:
  "fold take_slot is (slots, ordered) = (slots', ordered') \<Longrightarrow>
   slot_items slots' + mset ordered' = slot_items slots + mset ordered \<and> length slots' = length slots \<and>
   (\<forall>j<length slots. slots ! j = None \<or> j \<in> set is \<longrightarrow> slots' ! j = None)"
proof (induction "is" arbitrary: slots ordered)
  case (Cons i "is")
  obtain s o' where so: "take_slot i (slots, ordered) = (s, o')" by force
  note K = take_slot_keeps [OF so]
  have "fold take_slot is (s, o') = (slots', ordered')" using Cons.prems so by simp
  note IH = Cons.IH [OF this]
  show ?case using IH K by (metis set_ConsD)
qed simp

lemma take_column_major_eq:
  "take_column_major stride n st = fold take_slot (concat (map (\<lambda>rank. map (\<lambda>group. group * stride + rank) [0..<n]) [0..<stride])) st"
proof -
  have inner: "fold (\<lambda>group. take_slot (group * stride + rank)) gs st = fold take_slot (map (\<lambda>group. group * stride + rank) gs) st" for rank gs st
    by (simp add: fold_map comp_def)
  have "fold (\<lambda>rank. fold (\<lambda>group. take_slot (group * stride + rank)) [0..<n]) rs st =
      fold take_slot (concat (map (\<lambda>rank. map (\<lambda>group. group * stride + rank) [0..<n]) rs)) st" for rs st
    by (induction rs arbitrary: st) (simp_all add: inner)
  then show ?thesis by (simp add: take_column_major_def)
qed

lemma slot_items_some [simp]: "slot_items (map Some xs) = mset xs"
  by (induction xs) (simp_all add: slot_items_def map_filter_simps)

lemma slot_items_none: "\<forall>j<length slots. slots ! j = None \<Longrightarrow> slot_items slots = {#}"
proof (induction slots)
  case (Cons s slots)
  then have "s = None" "\<forall>j<length slots. slots ! j = None" by (force dest: spec [of _ 0], force dest: spec [of _ "Suc _"])
  then show ?case using Cons by (simp add: slot_items_def map_filter_simps)
qed (simp add: slot_items_def)

lemma mset_interleave: "mset (interleave items data_count g) = mset items"
proof (cases "g \<le> 1 \<or> length items \<le> g \<or> min data_count (length items) \<le> g")
  case True
  then show ?thesis by (auto simp: interleave_def Let_def)
next
  case False
  define dc where "dc = min data_count (length items)"
  define n where "n = div_ceil dc g"
  obtain d o1 where d: "take_column_major g n (map Some (take dc items), []) = (d, o1)" by force
  define m where "m = length (drop dc items) div n"
  obtain q o2 where q: "take_column_major m n (map Some (drop dc items), o1) = (q, o2)" by force
  note D = fold_take_slot [OF d [unfolded take_column_major_eq]]
  note Q = fold_take_slot [OF q [unfolded take_column_major_eq]]
  have "\<forall>j<length d. d ! j = None"
  proof (intro allI impI)
    fix j assume "j < length d"
    then have j: "j < length (map Some (take dc items))" "j < dc" using D by auto
    have "j mod g < g" "j div g < n"
      using False j(2) by (simp_all add: n_def div_ceil_less order.strict_trans1 [OF div_times_less_eq_dividend])
    moreover have "j = (j div g) * g + j mod g" by simp
    ultimately have "j \<in> (\<lambda>group. group * g + j mod g) ` {0..<n}" "j mod g \<in> {0..<g}"
      by (auto intro: image_eqI [of _ _ "j div g"])
    then have "j \<in> set (concat (map (\<lambda>rank. map (\<lambda>group. group * g + rank) [0..<n]) [0..<g]))"
      by auto
    then show "d ! j = None" using D j(1) by blast
  qed
  then have "slot_items d = {#}" by (rule slot_items_none)
  then have "mset o1 = mset (take dc items)" using D by simp
  moreover have "slot_items q + mset o2 = mset (drop dc items) + mset o1" using Q by simp
  moreover have "interleave items data_count g = o2 @ List.map_filter id q"
    using False d q by (simp add: interleave_def Let_def dc_def n_def m_def)
  ultimately have "mset (interleave items data_count g) = mset (take dc items) + mset (drop dc items)"
    by (simp add: slot_items_def union_commute)
  then show ?thesis by (simp flip: mset_append)
qed

section \<open>What the datagrams of a frame decode to\<close>

definition fragment_at :: "u32 \<Rightarrow> u32 \<Rightarrow> nat \<Rightarrow> nat \<Rightarrow> u8 \<Rightarrow> u32 \<Rightarrow> bytes \<Rightarrow> frame_fragment" where
  "fragment_at stream_seq frame_id i frags fl ts payload =
    \<lparr>ff_header = \<lparr>fh_stream_seq = stream_seq, fh_frame_id = frame_id, fh_frag_index = of_nat i, fh_frag_count = of_nat frags,
                  fh_flags = fl, fh_host_send_ts_millis = ts, fh_payload_length = of_nat (length payload)\<rparr>,
     ff_payload = payload\<rparr>"

lemma write_all_facts:
  "write_all frame_id (of_nat frags) fl ts payloads (of_nat i) p =
    (map (\<lambda>j. encode_datagram (ff_header (fragment_at (pk_next_stream_seq p + of_nat j) frame_id (i + j) frags fl ts (payloads ! j)))
                (payloads ! j)) [0..<length payloads],
     of_nat (i + length payloads), p\<lparr>pk_next_stream_seq := pk_next_stream_seq p + of_nat (length payloads)\<rparr>)"
proof (induction payloads arbitrary: i p)
  case (Cons payload rest)
  have up: "map f [0..<Suc n] = f 0 # map (\<lambda>j. f (Suc j)) [0..<n]" for f :: "nat \<Rightarrow> bytes" and n
    by (simp add: upt_conv_Cons map_Suc_upt [symmetric] del: upt_Suc)
  have i1: "(of_nat i :: u16) + 1 = of_nat (Suc i)" by simp
  show ?case
    unfolding write_all.simps i1 write_datagram_def Let_def prod.case Cons.IH
    by (simp add: up fragment_at_def del: upt_Suc) (simp add: add.assoc add.commute add.left_commute)
qed simp

text \<open>Interleaving loses nothing, duplicates nothing and invents nothing, for every pair of counts.\<close>

theorem interleave_permutes: "mset (interleave items data_count g) = mset items"
  by (rule mset_interleave)

end
