(* ===== verification/Video_Shards.thy ===== *)
theory Video_Shards
  imports Video_Packetizer
begin

text \<open>
  What the packetizer puts on the wire for one frame: how many parity shards, how wide, which flags and
  which tier every datagram decodes to; that the datagrams respect the size budget; and that the client
  recovers the data count of the frame from the count of all fragments.
\<close>

section \<open>The shape of a frame's parity\<close>

definition frame_group :: "rs_fec option \<Rightarrow> u8 \<Rightarrow> nat option" where
  "frame_group fec tier = (case fec of None \<Rightarrow> None | Some s \<Rightarrow> tier_group_size tier (fec_group_size s))"

definition frame_m :: "rs_fec option \<Rightarrow> u8 \<Rightarrow> nat" where
  "frame_m fec tier = max (tier_parity_count tier (case fec of None \<Rightarrow> 1 | Some s \<Rightarrow> fec_parity s)) 1"

text \<open>The tiers a host may stamp under a codec: those whose groups fit the columns of its matrix.\<close>

definition tier_fits :: "rs_fec option \<Rightarrow> u8 \<Rightarrow> bool" where
  "tier_fits fec tier \<longleftrightarrow> tier < 8 \<and>
    (case fec of
       None \<Rightarrow> True
     | Some s \<Rightarrow> 1 \<le> fec_group_size s \<and> 1 \<le> fec_parity s \<and>
         (frame_m fec tier = 1 \<or>
          fec_group_size s + frame_m fec tier \<le> 256 \<and>
          (case frame_group fec tier of None \<Rightarrow> True | Some g \<Rightarrow> g \<le> fec_group_size s)))"

lemma frame_m_pos [simp]: "1 \<le> frame_m fec tier" "0 < frame_m fec tier" "frame_m fec tier \<noteq> 0"
  by (auto simp: frame_m_def max_def)

lemma frame_group_pos: "tier_fits fec tier \<Longrightarrow> frame_group fec tier = Some g \<Longrightarrow> 1 \<le> g"
  by (auto simp: frame_group_def tier_fits_def tier_group_size_def split: option.splits if_splits)

lemma parity_payloads_eq:
  "parity_payloads fec ps tier =
    (case frame_group fec tier of None \<Rightarrow> Some [] | Some g \<Rightarrow> parity_m (the fec) ps g (frame_m fec tier))"
  by (simp add: parity_payloads_def frame_group_def frame_m_def parity_with_m_def split: option.split)

lemma effective_group:
  assumes "tier_fits fec tier" "frame_group fec tier = Some g"
  shows "effective_group_size (the fec) g (frame_m fec tier) = g"
proof -
  obtain s where s: "fec = Some s" using assms(2) by (auto simp: frame_group_def split: option.splits)
  have "frame_m fec tier = 1 \<or> g \<le> fec_group_size s" using assms by (auto simp: tier_fits_def s split: option.splits)
  then show ?thesis using frame_group_pos [OF assms] by (auto simp: effective_group_size_def s)
qed

lemma xor_encoded_length: "length (xor_encoded grp) = group_width grp"
  using xor_encoded_cell by blast

lemma group_width_le: "(\<And>d. d \<in> set grp \<Longrightarrow> length d \<le> b) \<Longrightarrow> group_width grp \<le> 4 + b"
  by (simp add: group_width_def max_or_zero_le)

lemma slice_chunks_member: "c \<in> set (slice_chunks n xs) \<Longrightarrow> set c \<subseteq> set xs \<and> length c \<le> n"
proof (induction n xs rule: slice_chunks.induct)
  case (1 n xs)
  then show ?case
    by (subst (asm) (2) slice_chunks.simps) (auto split: if_splits dest: in_set_takeD in_set_dropD)
qed

text \<open>Each group brings \<open>m\<close> shards, none wider than a framed data fragment.\<close>

lemma parity_m_shape:
  assumes "1 \<le> fec_group_size s" "1 \<le> m" "m = 1 \<or> fec_group_size s + m \<le> 256" "\<And>d. d \<in> set ps \<Longrightarrow> length d \<le> b"
  obtains qs where "parity_m s ps g m = Some qs" "length qs = m * div_ceil (length ps) (effective_group_size s g m)"
    "\<And>q. q \<in> set qs \<Longrightarrow> length q \<le> 4 + b"
proof -
  define e where "e = effective_group_size s g m"
  have pos: "0 < e" unfolding e_def by (rule effective_group_size_pos [OF assms(1)])
  note C = slice_chunks_facts [OF pos, of ps]
  have narrow: "group_width c \<le> 4 + b" if "c \<in> set (slice_chunks e ps)" for c
    using slice_chunks_member [OF that] assms(4) by (intro group_width_le) blast
  show thesis
  proof (cases "m = 1")
    case True
    show thesis
      by (rule that [of "map xor_encoded (slice_chunks e ps)"])
        (use True C narrow in \<open>auto simp: parity_m_def e_def xor_encoded_length\<close>)
  next
    case False
    then obtain coeffs where coeffs: "parity_rows (fec_group_size s) m = Some coeffs"
      using assms(3) by (auto simp: parity_rows_def)
    define enc where "enc = encode_group s m (map mul_table_new coeffs)"
    have row: "length (enc c) = m \<and> (\<forall>q\<in>set (enc c). length q \<le> 4 + b)" if "c \<in> set (slice_chunks e ps)" for c
    proof -
      have "length c \<le> fec_group_size s"
        using slice_chunks_member [OF that] effective_group_size_le [OF False, of s g] by (simp add: e_def)
      note E = encode_group_facts [OF coeffs refl this, folded enc_def]
      then show ?thesis using narrow [OF that] assms(2) by (force simp: in_set_conv_nth)
    qed
    have "length (concat (map enc cs)) = m * length cs" if "\<And>c. c \<in> set cs \<Longrightarrow> length (enc c) = m" for cs
      using that by (induction cs) auto
    then have "length (concat (map enc (slice_chunks e ps))) = m * div_ceil (length ps) e"
      using row C by simp
    then show thesis
      by (intro that [of "concat (map enc (slice_chunks e ps))"])
        (use False coeffs row in \<open>auto simp: parity_m_def e_def enc_def\<close>)
  qed
qed


lemma concat_slice_chunks: "0 < n \<Longrightarrow> concat (slice_chunks n xs) = xs"
proof (induction n xs rule: slice_chunks.induct)
  case (1 n xs)
  then show ?case by (subst slice_chunks.simps) simp
qed

lemma max_payload_size_pos: "0 < max_payload_size"
  by (simp add: max_payload_size_def max_datagram_size_def header_size_def)

lemma frame_payloads_facts:
  "concat (frame_payloads frame) = frame" "frame_payloads frame \<noteq> []"
  "d \<in> set (frame_payloads frame) \<Longrightarrow> length d \<le> max_payload_size"
proof -
  show "concat (frame_payloads frame) = frame"
    using concat_slice_chunks [OF max_payload_size_pos, of frame] by (simp add: frame_payloads_def)
  show "frame_payloads frame \<noteq> []"
    using max_payload_size_pos by (simp add: frame_payloads_def slice_chunks.simps [of max_payload_size frame])
  show "length d \<le> max_payload_size" if "d \<in> set (frame_payloads frame)"
    using that slice_chunks_member [of d max_payload_size frame] by (simp add: frame_payloads_def split: if_splits)
qed

definition frame_parity :: "rs_fec option \<Rightarrow> bytes \<Rightarrow> u8 \<Rightarrow> bytes list" where
  "frame_parity fec frame tier = the (parity_payloads fec (frame_payloads frame) tier)"

lemma frame_parity_facts:
  assumes "tier_fits fec tier"
  shows "parity_payloads fec (frame_payloads frame) tier = Some (frame_parity fec frame tier)"
    and "length (frame_parity fec frame tier) =
      (case frame_group fec tier of None \<Rightarrow> 0 | Some g \<Rightarrow> frame_m fec tier * div_ceil (length (frame_payloads frame)) g)"
    and "q \<in> set (frame_parity fec frame tier) \<Longrightarrow> length q \<le> max_payload_size + 4"
proof -
  define ps where "ps = frame_payloads frame"
  obtain qs where qs: "parity_payloads fec ps tier = Some qs"
    "length qs = (case frame_group fec tier of None \<Rightarrow> 0 | Some g \<Rightarrow> frame_m fec tier * div_ceil (length ps) g)"
    "\<And>q. q \<in> set qs \<Longrightarrow> length q \<le> max_payload_size + 4"
  proof (cases "frame_group fec tier")
    case None
    then show thesis by (intro that [of "[]"]) (simp_all add: parity_payloads_eq)
  next
    case (Some g)
    then obtain s where s: "fec = Some s" by (auto simp: frame_group_def split: option.splits)
    have c: "1 \<le> fec_group_size s" "frame_m fec tier = 1 \<or> fec_group_size s + frame_m fec tier \<le> 256"
      using assms by (auto simp: tier_fits_def s)
    have b: "\<And>d. d \<in> set ps \<Longrightarrow> length d \<le> max_payload_size" unfolding ps_def by (rule frame_payloads_facts(3))
    obtain qs where "parity_m s ps g (frame_m fec tier) = Some qs"
      "length qs = frame_m fec tier * div_ceil (length ps) (effective_group_size s g (frame_m fec tier))"
      "\<And>q. q \<in> set qs \<Longrightarrow> length q \<le> 4 + max_payload_size"
      using parity_m_shape [OF c(1) _ c(2) b] by (metis frame_m_pos(1))
    then show thesis
      using effective_group [OF assms Some] Some by (intro that [of qs]) (simp_all add: parity_payloads_eq s add.commute)
  qed
  then show "parity_payloads fec (frame_payloads frame) tier = Some (frame_parity fec frame tier)"
    "length (frame_parity fec frame tier) =
      (case frame_group fec tier of None \<Rightarrow> 0 | Some g \<Rightarrow> frame_m fec tier * div_ceil (length (frame_payloads frame)) g)"
    "q \<in> set (frame_parity fec frame tier) \<Longrightarrow> length q \<le> max_payload_size + 4"
    using qs by (simp_all only: frame_parity_def ps_def option.sel)
qed

section \<open>The data count, recovered from the count of all fragments\<close>

lemma inverted_scan_finds:
  "n = d + m * div_ceil d g \<Longrightarrow> d \<le> hi \<Longrightarrow> 0 < g \<Longrightarrow> 1 \<le> m \<Longrightarrow> inverted_scan n g m hi = Some d"
proof (induction hi)
  case 0
  then show ?case by (simp add: div_ceil_def)
next
  case (Suc hi)
  show ?case
  proof (cases "d = Suc hi")
    case False
    then have d: "d \<le> hi" using Suc.prems by simp
    have "div_ceil d g \<le> div_ceil (Suc hi) g" using d by (auto simp: div_ceil_def intro!: div_le_mono)
    define a b where "a = m * div_ceil d g" and "b = m * div_ceil (Suc hi) g"
    have "a \<le> b" unfolding a_def b_def by (rule mult_le_mono2) fact
    then show ?thesis using Suc d by (simp add: Let_def a_def [symmetric] b_def [symmetric])
  qed (use Suc.prems in simp)
qed

lemma inverted_data_count_finds:
  assumes "0 < g" "1 \<le> m"
  shows "inverted_data_count (d + m * div_ceil d g) g m = Some d"
  using assms by (simp add: inverted_data_count_def) (simp add: inverted_scan_finds)

section \<open>Flags\<close>

lemma flags_contains_bit:
  "flags_contains fl flag_keyframe = bit fl 0" "flags_contains fl flag_parity = bit fl 1" "flags_contains fl flag_crisp = bit fl 2"
  "flags_contains fl flag_is_ltr = bit fl 6" "flags_contains fl flag_acked_anchored = bit fl 7"
proof -
  have one: "fl AND push_bit n 1 = push_bit n 1 \<longleftrightarrow> bit fl n" if "n < 8" for n :: nat
  proof
    assume "fl AND push_bit n 1 = push_bit n 1"
    then have "bit (fl AND push_bit n 1) n = bit (push_bit n 1 :: u8) n" by simp
    then show "bit fl n" using that by (simp add: bit_simps)
  next
    assume "bit fl n"
    then show "fl AND push_bit n 1 = push_bit n 1" by (intro bit_word_eqI) (auto simp: bit_simps)
  qed
  have c: "flag_keyframe = push_bit 0 1" "flag_parity = push_bit 1 1" "flag_crisp = push_bit 2 1" "flag_is_ltr = push_bit 6 1"
    "flag_acked_anchored = push_bit 7 1"
    by (simp_all add: flag_keyframe_def flag_parity_def flag_crisp_def flag_is_ltr_def flag_acked_anchored_def push_bit_eq_mult)
  show "flags_contains fl flag_keyframe = bit fl 0" "flags_contains fl flag_parity = bit fl 1" "flags_contains fl flag_crisp = bit fl 2"
    "flags_contains fl flag_is_ltr = bit fl 6" "flags_contains fl flag_acked_anchored = bit fl 7"
    unfolding flags_contains_def c by (rule one; simp)+
qed

text \<open>The flags of a data fragment and of a parity fragment.\<close>

definition fragment_flags :: "packetize_options \<Rightarrow> bool \<Rightarrow> u8" where
  "fragment_flags options parity = (if parity then flags_union (base_flags options) flag_parity else base_flags options)"

lemma fragment_flags_kept:
  "flags_contains (fragment_flags options parity) flag_parity = parity"
  "flags_contains (fragment_flags options parity) flag_keyframe = po_keyframe options"
  "flags_contains (fragment_flags options parity) flag_crisp = po_crisp options"
  "flags_contains (fragment_flags options parity) flag_is_ltr = po_is_ltr options"
  "flags_contains (fragment_flags options parity) flag_acked_anchored = po_acked_anchored options"
  unfolding flags_contains_bit
  by (simp_all add: fragment_flags_def base_flags_def Let_def flags_union_def set_fec_tier_def bit_simps tier_mask_def
      flag_keyframe_def flag_parity_def flag_crisp_def flag_is_ltr_def flag_acked_anchored_def)


lemma fragment_flags_tier:
  assumes "po_fec_tier options < 8"
  shows "flags_fec_tier (fragment_flags options parity) = po_fec_tier options"
proof -
  have "take_bit 3 (po_fec_tier options) = po_fec_tier options"
  proof -
    have "unat (po_fec_tier options) < 8" using assms by (simp add: word_less_nat_alt)
    then have "unat (take_bit 3 (po_fec_tier options)) = unat (po_fec_tier options)"
      by (simp add: unsigned_take_bit_eq take_bit_nat_eq_self)
    then show ?thesis by (simp only: word_unat_eq_iff)
  qed
  then have high: "\<not> bit (po_fec_tier options) n" if "3 \<le> n" for n
    using that by (metis bit_take_bit_iff linorder_not_le)
  have seven: "bit (7 :: u8) n \<longleftrightarrow> n < 3" for n
    using bit_mask_iff [of 3 n, where 'a = u8] by (auto simp: mask_eq_exp_minus_1)
  have mask: "bit tier_mask n \<longleftrightarrow> 3 \<le> n \<and> n < 6" for n
  proof -
    have "tier_mask = push_bit 3 7" by (simp add: tier_mask_def push_bit_eq_mult)
    then have "bit tier_mask n = bit (push_bit 3 (7 :: u8)) n" by simp
    also have "\<dots> \<longleftrightarrow> 3 \<le> n \<and> n < 8 \<and> bit (7 :: u8) (n - 3)" by (auto simp only: bit_push_bit_iff possible_bit_word) auto
    finally have "bit tier_mask n \<longleftrightarrow> 3 \<le> n \<and> n < 8 \<and> bit (7 :: u8) (n - 3)" .
    then show ?thesis unfolding seven by auto
  qed
  have set: "flags_fec_tier (set_fec_tier (po_fec_tier options) x) = po_fec_tier options" for x
    unfolding flags_fec_tier_def set_fec_tier_def
  proof (rule bit_word_eqI)
    fix n
    have "bit (po_fec_tier options) n \<Longrightarrow> n < 3" using high [of n] by linarith
    then show "bit (drop_bit 3 ((x AND NOT tier_mask OR push_bit 3 (po_fec_tier options AND 7)) AND tier_mask)) n = bit (po_fec_tier options) n"
      if "n < LENGTH(8)"
      using that
      by (auto simp only: bit_drop_bit_eq bit_and_iff bit_or_iff bit_not_iff bit_push_bit_iff mask seven comp_def possible_bit_word) auto
  qed
  have off: "flags_fec_tier (x OR flag_parity) = flags_fec_tier x" for x
  proof -
    have "flag_parity AND tier_mask = 0" by (simp add: flag_parity_def tier_mask_def)
    then have "(x OR flag_parity) AND tier_mask = x AND tier_mask" by (simp add: bit.conj_disj_distrib2)
    then show ?thesis by (simp add: flags_fec_tier_def)
  qed
  have base: "flags_fec_tier (base_flags options) = po_fec_tier options" by (simp add: base_flags_def Let_def set)
  show ?thesis by (simp add: fragment_flags_def flags_union_def off base)
qed

section \<open>The datagrams of one frame\<close>

definition frame_shards :: "rs_fec option \<Rightarrow> bytes \<Rightarrow> u8 \<Rightarrow> bytes list" where
  "frame_shards fec frame tier = frame_payloads frame @ frame_parity fec frame tier"

definition sent_fragment :: "rs_fec option \<Rightarrow> bytes \<Rightarrow> packetize_options \<Rightarrow> u32 \<Rightarrow> u32 \<Rightarrow> nat \<Rightarrow> frame_fragment" where
  "sent_fragment fec frame options stream_seq frame_id j =
    (let shards = frame_shards fec frame (po_fec_tier options)
     in fragment_at (stream_seq + of_nat j) frame_id j (length shards)
          (fragment_flags options (length (frame_payloads frame) \<le> j)) (po_host_send_ts_millis options) (shards ! j))"

lemma frame_shards_width:
  "tier_fits fec tier \<Longrightarrow> d \<in> set (frame_shards fec frame tier) \<Longrightarrow> length d \<le> max_datagram_size - header_size"
  using frame_payloads_facts(3) [of d frame] frame_parity_facts(3) [of fec tier d frame]
  by (auto simp: frame_shards_def max_payload_size_def max_datagram_size_def header_size_def)

lemma frame_shards_ne: "0 < length (frame_shards fec frame tier)"
  using frame_payloads_facts(2) [of frame] by (simp add: frame_shards_def)

lemma sent_fragment_decodes:
  assumes "tier_fits fec (po_fec_tier options)" "j < length (frame_shards fec frame (po_fec_tier options))"
  shows "fragment_decode (fragment_encode (sent_fragment fec frame options seq i j)) = Inr (sent_fragment fec frame options seq i j)"
    and "length (fragment_encode (sent_fragment fec frame options seq i j)) \<le> max_datagram_size"
proof -
  let ?f = "sent_fragment fec frame options seq i j"
  have w: "length (ff_payload ?f) \<le> max_datagram_size - header_size"
    using frame_shards_width [OF assms(1) nth_mem [OF assms(2)]] by (simp add: sent_fragment_def fragment_at_def Let_def)
  then have "length (ff_payload ?f) < 65536" by (simp add: max_datagram_size_def header_size_def)
  note R = fragment_round_trip [OF this, of "ff_header ?f" "[]"]
  then show "fragment_decode (fragment_encode ?f) = Inr ?f"
    by (simp add: fragment_encode_def) (simp add: sent_fragment_def fragment_at_def Let_def)
  show "length (fragment_encode ?f) \<le> max_datagram_size"
    using w by (simp add: fragment_encode_def length_encode_datagram max_datagram_size_def header_size_def)
qed

lemma packetize_datagrams_eq:
  assumes "tier_fits (pk_fec p) (po_fec_tier options)"
    and "length (frame_shards (pk_fec p) frame (po_fec_tier options)) \<le> max_fragments_per_frame"
  shows "packetize_datagrams frame options p =
    Some ((map (\<lambda>j. fragment_encode (sent_fragment (pk_fec p) frame options (pk_next_stream_seq p) (pk_next_frame_id p) j))
             [0..<length (frame_shards (pk_fec p) frame (po_fec_tier options))], length (frame_payloads frame)),
          p\<lparr>pk_next_frame_id := pk_next_frame_id p + 1,
            pk_next_stream_seq := pk_next_stream_seq p + of_nat (length (frame_shards (pk_fec p) frame (po_fec_tier options)))\<rparr>)"
proof -
  define ps where "ps = frame_payloads frame"
  define qs where "qs = frame_parity (pk_fec p) frame (po_fec_tier options)"
  define P where "P = p\<lparr>pk_next_frame_id := pk_next_frame_id p + 1\<rparr>"
  let ?n = "length ps + length qs"
  let ?frag = "sent_fragment (pk_fec p) frame options (pk_next_stream_seq p) (pk_next_frame_id p)"
  have sh: "frame_shards (pk_fec p) frame (po_fec_tier options) = ps @ qs" by (simp add: frame_shards_def ps_def qs_def)
  have data: "fragment_encode (?frag j) =
      encode_datagram (ff_header (fragment_at (pk_next_stream_seq P + of_nat j) (pk_next_frame_id p) (0 + j) ?n (base_flags options)
        (po_host_send_ts_millis options) (ps ! j))) (ps ! j)" if "j < length ps" for j
    using that unfolding fragment_encode_def sent_fragment_def sh
    by (simp add: Let_def fragment_at_def fragment_flags_def P_def nth_append flip: ps_def)
  have par: "fragment_encode (?frag (length ps + j)) =
      encode_datagram (ff_header (fragment_at (pk_next_stream_seq P + of_nat (length ps) + of_nat j) (pk_next_frame_id p) (length ps + j) ?n
        (flags_union (base_flags options) flag_parity) (po_host_send_ts_millis options) (qs ! j))) (qs ! j)" for j
    unfolding fragment_encode_def sent_fragment_def sh
    by (simp add: Let_def fragment_at_def fragment_flags_def P_def add.assoc flip: ps_def)
  have up: "map F [0..<?n] = map F [0..<length ps] @ map (\<lambda>j. F (length ps + j)) [0..<length qs]" for F :: "nat \<Rightarrow> bytes"
    by (rule nth_equalityI) (auto simp: nth_append)
  have "parity_payloads (pk_fec p) ps (po_fec_tier options) = Some qs"
    unfolding ps_def qs_def by (rule frame_parity_facts(1) [OF assms(1)])
  then have ff: "parity_payloads (pk_fec P) ps (po_fec_tier options) = Some qs" by (simp add: P_def)
  have D: "map (\<lambda>j. encode_datagram (ff_header (fragment_at (pk_next_stream_seq P + of_nat j) (pk_next_frame_id p) (0 + j) ?n (base_flags options)
        (po_host_send_ts_millis options) (ps ! j))) (ps ! j)) [0..<length ps] = map (\<lambda>j. fragment_encode (?frag j)) [0..<length ps]"
    using data by (intro map_cong) auto
  have W: "write_all (pk_next_frame_id p) (of_nat ?n) (base_flags options) (po_host_send_ts_millis options) ps 0 P =
      (map (\<lambda>j. fragment_encode (?frag j)) [0..<length ps], of_nat (length ps),
       P\<lparr>pk_next_stream_seq := pk_next_stream_seq P + of_nat (length ps)\<rparr>)"
    using write_all_facts [of "pk_next_frame_id p" ?n "base_flags options" "po_host_send_ts_millis options" ps 0 P, unfolded D]
    by simp
  have V: "write_all (pk_next_frame_id p) (of_nat ?n) (flags_union (base_flags options) flag_parity) (po_host_send_ts_millis options) qs
        (of_nat (length ps)) (P\<lparr>pk_next_stream_seq := pk_next_stream_seq P + of_nat (length ps)\<rparr>) =
      (map (\<lambda>j. fragment_encode (?frag (length ps + j))) [0..<length qs], of_nat ?n,
       P\<lparr>pk_next_stream_seq := pk_next_stream_seq P + of_nat (length ps) + of_nat (length qs)\<rparr>)"
    unfolding write_all_facts par by simp
  have "packetize_datagrams frame options p =
      Some ((map (\<lambda>j. fragment_encode (?frag j)) [0..<length ps] @ map (\<lambda>j. fragment_encode (?frag (length ps + j))) [0..<length qs], length ps),
        P\<lparr>pk_next_stream_seq := pk_next_stream_seq P + of_nat (length ps) + of_nat (length qs)\<rparr>)"
    using assms(2) unfolding packetize_datagrams_def Let_def sh ps_def [symmetric] P_def [symmetric] ff option.case length_append W V prod.case
    by simp
  then show ?thesis unfolding sh length_append up by (simp add: P_def ps_def add.assoc del: upt_Suc)
qed

lemma recover_is_exact_witness:
  "\<exists>shards. parity_m \<lparr>fec_group_size = 3, fec_parity = 2\<rparr> [[1], [2, 3], [4]] 3 2 = Some shards \<and>
     recover_m \<lparr>fec_group_size = 3, fec_parity = 2\<rparr> [None, None, Some [4]] (map Some shards) 3 2 = Some [Some [1], Some [2, 3], Some [4]]"
proof -
  let ?s = "\<lparr>fec_group_size = 3, fec_parity = 2\<rparr>" let ?d = "[[1], [2, 3], [4]] :: bytes list"
  have e: "effective_group_size ?s 3 2 = 3" by (simp add: effective_group_size_def)
  obtain shards where s: "parity_m ?s ?d 3 2 = Some shards" "length shards = 2 * div_ceil 3 3"
    by (rule parity_m_shape [of ?s 2 ?d 2 3]) (auto simp: e div_ceil_def)
  then have n: "length shards = 2" by (simp add: div_ceil_def)
  have "recover_m ?s [None, None, Some [4]] (map Some shards) 3 2 =
      Some (map (\<lambda>i. if repairable (effective_group_size ?s 3 2) 2 [None, None, Some [4]] (map Some shards) (i div effective_group_size ?s 3 2)
                   then Some (?d ! i) else [None, None, Some [4]] ! i) [0..<length ?d])"
    by (rule recover_is_exact [OF _ _ _ _ s(1)]) (auto simp: masks_def less_Suc_eq nth_Cons split: nat.split)
  moreover have "repairable 3 2 [None, None, Some [4 :: u8]] (map Some shards) 0"
    using n by (simp add: repairable_def holes_in_def parity_held_def opt_nth_def upt_rec [of 0] upt_rec [of 1] upt_rec [of 2] upt_rec [of 3] numeral_2_eq_2)
  ultimately show ?thesis using s(1) by (simp add: e upt_rec [of 0] upt_rec [of 1] upt_rec [of 2] upt_rec [of 3])
qed

end
