(* ===== verification/Reassembler_Tally.thy ===== *)
theory Reassembler_Tally
  imports Reassembler
begin

text \<open>
  The constant-time completeness decision of the reassembler against a recount: after any fragments
  whatsoever, the per-group counters and the three-way tally are what counting the buffer would give, so
  the precheck answers exactly whether every group has no more holes than surviving parity shards.
\<close>

section \<open>The recount\<close>

definition group_missing :: "pending \<Rightarrow> nat \<Rightarrow> nat \<Rightarrow> nat" where
  "group_missing p g gi =
     length (filter (\<lambda>i. pf_data p (of_nat i) = None) [gi * g..<min (gi * g + g) (pf_pinned_data_count p)])"

definition group_surviving :: "pending \<Rightarrow> nat \<Rightarrow> nat" where
  "group_surviving p gi = length (filter (\<lambda>rank. pf_parity p (gi * pf_m p + rank) \<noteq> None) [0..<pf_m p])"

definition data_present :: "pending \<Rightarrow> nat \<Rightarrow> nat" where
  "data_present p b = length (filter (\<lambda>i. pf_data p (of_nat i) \<noteq> None) [0..<b])"

text \<open>What the precheck is meant to decide.\<close>

definition complete_by_count :: "pending \<Rightarrow> bool" where
  "complete_by_count p =
    (if resolved_data_count p = 0 then pf_data p 0 \<noteq> None
     else case pf_group_size p of
            None \<Rightarrow> \<forall>i<resolved_data_count p. pf_data p (of_nat i) \<noteq> None
          | Some g \<Rightarrow> \<forall>gi<div_ceil (resolved_data_count p) g. group_missing p g gi \<le> group_surviving p gi)"

section \<open>The three buckets\<close>

definition cnt :: "nat \<Rightarrow> (nat \<Rightarrow> bool) \<Rightarrow> nat" where
  "cnt n P = card {j. j < n \<and> P j}"

lemma cnt_split: "i < n \<Longrightarrow> cnt n P = (if P i then 1 else 0) + cnt n (\<lambda>j. j \<noteq> i \<and> P j)"
proof -
  assume i: "i < n"
  have "{j. j < n \<and> P j} = (if P i then insert i {j. j < n \<and> j \<noteq> i \<and> P j} else {j. j < n \<and> j \<noteq> i \<and> P j})"
    using i by auto
  then show ?thesis by (simp add: cnt_def)
qed

lemma cnt_cong: "(\<And>j. j < n \<Longrightarrow> P j = Q j) \<Longrightarrow> cnt n P = cnt n Q"
  by (simp add: cnt_def cong: conj_cong)

lemma cnt_zero: "cnt n P = 0 \<longleftrightarrow> (\<forall>j<n. \<not> P j)"
  by (auto simp: cnt_def)

lemma cnt_full: "cnt n P = n \<longleftrightarrow> (\<forall>j<n. P j)"
proof
  assume "cnt n P = n"
  then have "card {j. j < n \<and> P j} = card {..<n}" by (simp add: cnt_def)
  then have "{j. j < n \<and> P j} = {..<n}" by (intro card_subset_eq) auto
  then show "\<forall>j<n. P j" by blast
next
  assume "\<forall>j<n. P j"
  then have "{j. j < n \<and> P j} = {..<n}" by blast
  then show "cnt n P = n" by (simp add: cnt_def)
qed

lemma length_filter_upt: "length (filter P [0..<n]) = cnt n P"
  by (simp add: cnt_def length_filter_conv_card cong: conj_cong)

definition hopeless_at :: "pending \<Rightarrow> nat \<Rightarrow> bool" where
  "hopeless_at p gi \<longleftrightarrow> pf_m p < pf_missing_per_group p ! gi"

definition recoverable_at :: "pending \<Rightarrow> nat \<Rightarrow> bool" where
  "recoverable_at p gi \<longleftrightarrow> 1 \<le> pf_missing_per_group p ! gi \<and> pf_missing_per_group p ! gi \<le> pf_m p \<and>
     pf_missing_per_group p ! gi \<le> pf_surviving_per_group p ! gi"

definition awaiting_at :: "pending \<Rightarrow> nat \<Rightarrow> bool" where
  "awaiting_at p gi \<longleftrightarrow> 1 \<le> pf_missing_per_group p ! gi \<and> pf_missing_per_group p ! gi \<le> pf_m p \<and>
     pf_surviving_per_group p ! gi < pf_missing_per_group p ! gi"

lemmas bucket_defs = hopeless_at_def recoverable_at_def awaiting_at_def

text \<open>The three counters agree with the per-group lists, for the groups that satisfy \<open>P\<close>.\<close>

definition tallied :: "nat \<Rightarrow> (nat \<Rightarrow> bool) \<Rightarrow> pending \<Rightarrow> bool" where
  "tallied n P p \<longleftrightarrow> length (pf_missing_per_group p) = n \<and> length (pf_surviving_per_group p) = n \<and>
     pf_hopeless_groups p = cnt n (\<lambda>j. P j \<and> hopeless_at p j) \<and>
     pf_recoverable_now_groups p = cnt n (\<lambda>j. P j \<and> recoverable_at p j) \<and>
     pf_awaiting_groups p = cnt n (\<lambda>j. P j \<and> awaiting_at p j)"

lemma pf_tally_fields [simp]:
  "pf_m (pf_tally gi add p) = pf_m p" "pf_missing_per_group (pf_tally gi add p) = pf_missing_per_group p"
  "pf_surviving_per_group (pf_tally gi add p) = pf_surviving_per_group p" "pf_data (pf_tally gi add p) = pf_data p"
  "pf_parity (pf_tally gi add p) = pf_parity p" "pf_group_size (pf_tally gi add p) = pf_group_size p"
  "pf_pinned_data_count (pf_tally gi add p) = pf_pinned_data_count p" "pf_frag_count (pf_tally gi add p) = pf_frag_count p"
  "pf_observed_data_count (pf_tally gi add p) = pf_observed_data_count p"
  "pf_data_present_below_boundary (pf_tally gi add p) = pf_data_present_below_boundary p"
  by (simp_all add: pf_tally_def Let_def)

lemma bucket_tally [simp]:
  "hopeless_at (pf_tally gi add p) = hopeless_at p" "recoverable_at (pf_tally gi add p) = recoverable_at p"
  "awaiting_at (pf_tally gi add p) = awaiting_at p"
  by (simp_all add: fun_eq_iff bucket_defs)

lemma pf_tally_counters:
  assumes "gi < length (pf_missing_per_group p)" "gi < length (pf_surviving_per_group p)" "1 \<le> pf_m p"
  shows "pf_hopeless_groups (pf_tally gi add p) =
           (if hopeless_at p gi then step_count add (pf_hopeless_groups p) else pf_hopeless_groups p)"
    and "pf_recoverable_now_groups (pf_tally gi add p) =
           (if recoverable_at p gi then step_count add (pf_recoverable_now_groups p) else pf_recoverable_now_groups p)"
    and "pf_awaiting_groups (pf_tally gi add p) =
           (if awaiting_at p gi then step_count add (pf_awaiting_groups p) else pf_awaiting_groups p)"
  using assms by (auto simp: pf_tally_def Let_def bucket_defs)

lemma tally_out:
  assumes "tallied n (\<lambda>_. True) p" "gi < n" "1 \<le> pf_m p"
  shows "tallied n (\<lambda>j. j \<noteq> gi) (pf_tally gi False p)"
  using assms cnt_split [OF assms(2), of "hopeless_at p"] cnt_split [OF assms(2), of "recoverable_at p"]
    cnt_split [OF assms(2), of "awaiting_at p"]
  by (simp add: tallied_def pf_tally_counters step_count_def)

lemma tally_in:
  assumes "tallied n (\<lambda>j. j \<noteq> gi) p" "gi < n" "1 \<le> pf_m p"
  shows "tallied n (\<lambda>_. True) (pf_tally gi True p)"
  using assms cnt_split [OF assms(2), of "hopeless_at p"] cnt_split [OF assms(2), of "recoverable_at p"]
    cnt_split [OF assms(2), of "awaiting_at p"]
  by (simp add: tallied_def pf_tally_counters step_count_def)

lemma tallied_update:
  assumes "tallied n (\<lambda>j. j \<noteq> gi) p"
  shows "tallied n (\<lambda>j. j \<noteq> gi) (p\<lparr>pf_missing_per_group := (pf_missing_per_group p)[gi := x]\<rparr>)"
    and "tallied n (\<lambda>j. j \<noteq> gi) (p\<lparr>pf_surviving_per_group := (pf_surviving_per_group p)[gi := x]\<rparr>)"
  using assms by (auto simp: tallied_def bucket_defs intro!: cnt_cong)

section \<open>The invariant of one buffer\<close>

definition tally_ok :: "pending \<Rightarrow> bool" where
  "tally_ok p \<longleftrightarrow> 1 \<le> pf_m p \<and>
    (case pf_group_size p of
       None \<Rightarrow> observed_boundary p \<le> unat (pf_frag_count p) \<and> pf_data_present_below_boundary p = data_present p (observed_boundary p)
     | Some g \<Rightarrow> 1 \<le> g \<and> pf_pinned_data_count p \<le> unat (pf_frag_count p) \<and>
         pf_missing_per_group p = map (group_missing p g) [0..<div_ceil (pf_pinned_data_count p) g] \<and>
         pf_surviving_per_group p = map (group_surviving p) [0..<div_ceil (pf_pinned_data_count p) g] \<and>
         tallied (div_ceil (pf_pinned_data_count p) g) (\<lambda>_. True) p)"

lemma group_surviving_le: "group_surviving p gi \<le> pf_m p"
proof -
  have "group_surviving p gi \<le> length [0..<pf_m p]" unfolding group_surviving_def by (rule length_filter_le)
  then show ?thesis by simp
qed

text \<open>Under the invariant the constant-time answer is the recount.\<close>

lemma precheck_recounts:
  assumes "tally_ok p"
  shows "can_eventually_complete p \<longleftrightarrow> complete_by_count p"
proof (cases "pf_group_size p")
  case None
  have "data_present p b = b \<longleftrightarrow> (\<forall>i<b. pf_data p (of_nat i) \<noteq> None)" for b
    by (simp add: data_present_def length_filter_upt cnt_full)
  then show ?thesis
    using assms None by (simp add: can_eventually_complete_def complete_by_count_def tally_ok_def resolved_data_count_def Let_def)
next
  case (Some g)
  define n where "n = div_ceil (pf_pinned_data_count p) g"
  have T: "pf_missing_per_group p = map (group_missing p g) [0..<n]" "pf_surviving_per_group p = map (group_surviving p) [0..<n]"
    "tallied n (\<lambda>_. True) p" using assms Some by (simp_all add: tally_ok_def n_def)
  have "pf_hopeless_groups p = 0 \<and> pf_awaiting_groups p = 0 \<longleftrightarrow> (\<forall>gi<n. \<not> hopeless_at p gi \<and> \<not> awaiting_at p gi)"
    using T(3) by (auto simp: tallied_def cnt_zero)
  also have "\<dots> \<longleftrightarrow> (\<forall>gi<n. group_missing p g gi \<le> group_surviving p gi)"
  proof -
    have "\<not> hopeless_at p gi \<and> \<not> awaiting_at p gi \<longleftrightarrow> group_missing p g gi \<le> group_surviving p gi" if "gi < n" for gi
      using that T(1,2) group_surviving_le [of p gi] by (auto simp: bucket_defs)
    then show ?thesis by auto
  qed
  finally show ?thesis
    using Some by (simp add: can_eventually_complete_def complete_by_count_def resolved_data_count_def Let_def n_def)
qed

section \<open>A fresh buffer\<close>

lemma inverted_scan_le: "inverted_scan n g m d = Some d' \<Longrightarrow> d' \<le> d"
proof (induction d)
  case (Suc d)
  then show ?case by (auto simp: Let_def split: if_splits)
qed (auto split: if_splits)

lemma cnt_compl: "cnt n (\<lambda>j. \<not> P j) = n - cnt n P"
proof -
  have "{j. j < n \<and> \<not> P j} = {..<n} - {j. j < n \<and> P j}" by auto
  then show ?thesis by (simp add: cnt_def card_Diff_subset subset_eq)
qed

lemma pending_new_ok: "tally_ok (pending_new frag_count group_size k)"
proof (cases "\<exists>g. group_size = Some g \<and> 1 \<le> g")
  case False
  then have "(case group_size of Some sz \<Rightarrow> if 1 \<le> sz then Some sz else None | None \<Rightarrow> None) = None"
    by (cases group_size) auto
  then show ?thesis
    by (simp add: pending_new_def Let_def tally_ok_def pending_default_def observed_boundary_def data_present_def)
next
  case True
  then obtain g where g: "group_size = Some g" "1 \<le> g" by blast
  define m where "m = max k 1"
  define d where "d = (case inverted_data_count (unat frag_count) g m of None \<Rightarrow> unat frag_count | Some d \<Rightarrow> d)"
  define n where "n = div_ceil d g"
  define missing where "missing = map (\<lambda>index. min g (d - index * g)) [0..<n]"
  define p where "p = pending_new frag_count group_size k"
  have d: "d \<le> unat frag_count"
    by (auto simp: d_def inverted_data_count_def split: option.splits if_splits dest: inverted_scan_le)
  have whole: "p = pending_default\<lparr>pf_frag_count := frag_count, pf_group_size := Some g, pf_m := m,
      pf_pinned_data_count := unat frag_count, pf_pinned_data_count := d, pf_missing_per_group := missing,
      pf_surviving_per_group := replicate n 0, pf_hopeless_groups := length (filter (\<lambda>x. m < x) missing),
      pf_awaiting_groups := n - length (filter (\<lambda>x. m < x) missing)\<rparr>"
    using g(2) by (simp only: p_def pending_new_def g(1) option.case if_True Let_def m_def d_def n_def missing_def)
  have p: "pf_m p = m" "pf_group_size p = Some g" "pf_pinned_data_count p = d" "pf_frag_count p = frag_count"
    "pf_missing_per_group p = missing" "pf_surviving_per_group p = replicate n 0"
    "pf_data p = Map.empty" "pf_parity p = Map.empty" "pf_recoverable_now_groups p = 0"
    "pf_hopeless_groups p = length (filter (\<lambda>x. m < x) missing)"
    "pf_awaiting_groups p = n - length (filter (\<lambda>x. m < x) missing)"
    by (simp_all add: whole pending_default_def)
  have gm: "map (group_missing p g) [0..<n] = missing"
    by (auto simp: group_missing_def p missing_def min_def)
  have gs: "map (group_surviving p) [0..<n] = replicate n 0"
    by (rule nth_equalityI) (simp_all add: group_surviving_def p)
  have pos: "\<forall>j<n. 0 < missing ! j"
    using g by (simp add: missing_def n_def div_ceil_less)
  have len: "length missing = n" by (simp add: missing_def)
  have hop: "length (filter (\<lambda>x. m < x) missing) = cnt n (hopeless_at p)"
    by (auto simp: length_filter_conv_card cnt_def len bucket_defs p intro!: arg_cong [where f = card])
  have "tallied n (\<lambda>_. True) p"
  proof -
    have "cnt n (\<lambda>j. True \<and> recoverable_at p j) = 0"
      using pos by (simp add: cnt_zero bucket_defs p)
    moreover have "cnt n (\<lambda>j. True \<and> awaiting_at p j) = cnt n (\<lambda>j. \<not> hopeless_at p j)"
      using pos by (intro cnt_cong) (auto simp: bucket_defs p)
    ultimately show ?thesis by (simp add: tallied_def p len hop cnt_compl)
  qed
  then have "tally_ok p" using g d gm gs by (simp add: tally_ok_def p n_def [symmetric]) (simp add: m_def)
  then show ?thesis by (simp only: p_def)
qed

section \<open>A fragment is filed\<close>

lemma filter_drop_one:
  "length (filter (\<lambda>i. i \<noteq> x \<and> P i) [a..<b]) =
   (if a \<le> x \<and> x < b \<and> P x then length (filter P [a..<b]) - 1 else length (filter P [a..<b]))"
proof -
  have c: "length (filter Q [a..<b]) = card {i. a \<le> i \<and> i < b \<and> Q i}" for Q
  proof -
    have "length (filter Q [a..<b]) = card (set (filter Q [a..<b]))"
      by (rule distinct_card [symmetric]) simp
    also have "set (filter Q [a..<b]) = {i. a \<le> i \<and> i < b \<and> Q i}" by auto
    finally show ?thesis .
  qed
  have "{i. a \<le> i \<and> i < b \<and> i \<noteq> x \<and> P i} = {i. a \<le> i \<and> i < b \<and> P i} - {x}" by auto
  then show ?thesis by (auto simp: c card_Diff_singleton_if)
qed

lemma unat_u16_less: "unat (w :: u16) < 65536"
  using unsigned_less [of w] by simp

lemma of_nat_16_eq: "i < 65536 \<Longrightarrow> (of_nat i :: u16) = w \<longleftrightarrow> i = unat w"
  by (auto simp: unat_of_nat_16)

lemma group_missing_insert:
  assumes "1 \<le> g" "pf_pinned_data_count p \<le> 65536" "pf_data p w = None"
  shows "group_missing (p\<lparr>pf_data := (pf_data p)(w \<mapsto> x)\<rparr>) g gi =
    (if unat w div g = gi \<and> unat w < pf_pinned_data_count p then group_missing p g gi - 1 else group_missing p g gi)"
proof -
  let ?b = "min (gi * g + g) (pf_pinned_data_count p)"
  have "filter (\<lambda>i. ((pf_data p)(w \<mapsto> x)) (of_nat i) = None) [gi * g..<?b] =
      filter (\<lambda>i. i \<noteq> unat w \<and> pf_data p (of_nat i) = None) [gi * g..<?b]"
    using assms(2) by (intro filter_cong) (auto simp: of_nat_16_eq)
  moreover have "gi * g \<le> unat w \<and> unat w < ?b \<longleftrightarrow> unat w div g = gi \<and> unat w < pf_pinned_data_count p"
    using assms(1) by (auto simp: div_nat_eqI algebra_simps dividend_less_times_div times_div_less_eq_dividend)
  ultimately show ?thesis
    using assms(3) by (auto simp: group_missing_def filter_drop_one)
qed

lemma group_missing_again:
  "pf_data p w \<noteq> None \<Longrightarrow> group_missing (p\<lparr>pf_data := (pf_data p)(w \<mapsto> x)\<rparr>) g gi = group_missing p g gi"
  by (auto simp: group_missing_def intro!: arg_cong [where f = length] filter_cong)

lemma group_surviving_insert:
  assumes "1 \<le> pf_m p" "pf_parity p slot = None"
  shows "group_surviving (p\<lparr>pf_parity := (pf_parity p)(slot \<mapsto> x)\<rparr>) gi =
    (if slot div pf_m p = gi then group_surviving p gi + 1 else group_surviving p gi)"
proof -
  let ?m = "pf_m p"
  have r: "gi * ?m + rank = slot \<longleftrightarrow> slot div ?m = gi \<and> rank = slot mod ?m" if "rank < ?m" for rank
    using that by (auto simp: div_nat_eqI minus_div_mult_eq_mod [symmetric])
  have "length (filter (\<lambda>rank. pf_parity p (gi * ?m + rank) \<noteq> None) [0..<?m]) =
      length (filter (\<lambda>rank. rank \<noteq> slot mod ?m \<and> (((pf_parity p)(slot \<mapsto> x)) (gi * ?m + rank)) \<noteq> None) [0..<?m])"
    if "slot div ?m = gi"
    using r that assms(2) by (intro arg_cong [where f = length] filter_cong) auto
  moreover have "filter (\<lambda>rank. ((pf_parity p)(slot \<mapsto> x)) (gi * ?m + rank) \<noteq> None) [0..<?m] =
      filter (\<lambda>rank. pf_parity p (gi * ?m + rank) \<noteq> None) [0..<?m]" if "slot div ?m \<noteq> gi"
    using r that by (intro filter_cong) auto
  moreover have "((pf_parity p)(slot \<mapsto> x)) (gi * ?m + slot mod ?m) \<noteq> None" "slot mod ?m < ?m" if "slot div ?m = gi"
    using that assms(1) r [of "slot mod ?m"] by auto
  moreover have "0 < length (filter P [0..<?m])" if "r < ?m" "P r" for r P
    using that by (auto simp: filter_empty_conv)
  ultimately show ?thesis
    by (auto simp: group_surviving_def filter_drop_one)
qed

lemma group_surviving_again:
  "pf_parity p slot \<noteq> None \<Longrightarrow> group_surviving (p\<lparr>pf_parity := (pf_parity p)(slot \<mapsto> x)\<rparr>) gi = group_surviving p gi"
  by (auto simp: group_surviving_def intro!: arg_cong [where f = length] filter_cong)

lemma tally_ok_fec:
  assumes "pf_group_size p = Some g"
  shows "tally_ok p \<longleftrightarrow> 1 \<le> pf_m p \<and> 1 \<le> g \<and> pf_pinned_data_count p \<le> unat (pf_frag_count p) \<and>
    pf_missing_per_group p = map (group_missing p g) [0..<div_ceil (pf_pinned_data_count p) g] \<and>
    pf_surviving_per_group p = map (group_surviving p) [0..<div_ceil (pf_pinned_data_count p) g] \<and>
    tallied (div_ceil (pf_pinned_data_count p) g) (\<lambda>_. True) p"
  using assms by (simp add: tally_ok_def)

text \<open>The group functions and the buckets read only the fields they name.\<close>

lemma group_missing_cong:
  "pf_data p = pf_data q \<Longrightarrow> pf_pinned_data_count p = pf_pinned_data_count q \<Longrightarrow> group_missing p = group_missing q"
  by (simp add: group_missing_def fun_eq_iff)

lemma group_surviving_cong: "pf_parity p = pf_parity q \<Longrightarrow> pf_m p = pf_m q \<Longrightarrow> group_surviving p = group_surviving q"
  by (simp add: group_surviving_def fun_eq_iff)

lemma tallied_cong:
  assumes "pf_missing_per_group p = pf_missing_per_group q" "pf_surviving_per_group p = pf_surviving_per_group q" "pf_m p = pf_m q"
    "pf_hopeless_groups p = pf_hopeless_groups q" "pf_recoverable_now_groups p = pf_recoverable_now_groups q"
    "pf_awaiting_groups p = pf_awaiting_groups q"
  shows "tallied n P p = tallied n P q"
  using assms by (simp add: tallied_def bucket_defs)

text \<open>The arrival of a data fragment, with the erasure code.\<close>

lemma data_arrival_fec:
  assumes "tally_ok p" "pf_group_size p = Some g" "pf_data p w = None"
  shows "tally_ok (note_data_arrived (unat w) (p\<lparr>pf_data := (pf_data p)(w \<mapsto> x)\<rparr>))"
proof -
  define q where "q = p\<lparr>pf_data := (pf_data p)(w \<mapsto> x)\<rparr>"
  define n where "n = div_ceil (pf_pinned_data_count p) g"
  note I = assms(1) [unfolded tally_ok_fec [OF assms(2)]]
  have g: "1 \<le> g" and m: "1 \<le> pf_m p" and D: "pf_pinned_data_count p \<le> 65536"
    using I unat_u16_less [of "pf_frag_count p"] by auto
  note GM = group_missing_insert [OF g D assms(3), of x, folded q_def]
  have gs: "group_surviving q = group_surviving p" by (rule group_surviving_cong) (simp_all add: q_def)
  have tq: "tallied n (\<lambda>_. True) q" using I by (simp add: q_def n_def tallied_def bucket_defs)
  show ?thesis
  proof (cases "unat w < pf_pinned_data_count p")
    case False
    then have "note_data_arrived (unat w) q = q" using assms(2) by (simp add: note_data_arrived_def q_def)
    moreover have "tally_ok q"
      using I False GM gs tq assms(2) by (simp add: tally_ok_fec [of _ g] q_def n_def)
    ultimately show ?thesis by (simp add: q_def)
  next
    case True
    define gi where "gi = unat w div g"
    have gi: "gi < n" using True g
      by (simp add: gi_def n_def div_ceil_less order.strict_trans1 [OF div_times_less_eq_dividend])
    define s where "s = pf_tally gi False q"
    define u where "u = s\<lparr>pf_missing_per_group := (pf_missing_per_group s)[gi := pf_missing_per_group s ! gi - 1]\<rparr>"
    define v where "v = pf_tally gi True u"
    have mq: "1 \<le> pf_m q" using m by (simp add: q_def)
    have len: "gi < length (pf_missing_per_group s)" using gi I by (simp add: s_def q_def n_def)
    have V: "note_data_arrived (unat w) q = v"
      using assms(2) True len by (simp add: note_data_arrived_def q_def v_def u_def s_def gi_def Let_def)
    have "tallied n (\<lambda>j. j \<noteq> gi) s" unfolding s_def by (rule tally_out [OF tq gi mq])
    then have "tallied n (\<lambda>j. j \<noteq> gi) u" unfolding u_def by (rule tallied_update)
    then have "tallied n (\<lambda>_. True) v" unfolding v_def using gi mq by (intro tally_in) (simp_all add: u_def s_def)
    moreover have "group_missing v = group_missing q" "group_surviving v = group_surviving q"
      by (rule group_missing_cong group_surviving_cong; simp add: v_def u_def s_def)+
    moreover have "pf_missing_per_group v = map (group_missing q g) [0..<n]"
    proof (rule nth_equalityI)
      fix i assume "i < length (pf_missing_per_group v)"
      then show "pf_missing_per_group v ! i = map (group_missing q g) [0..<n] ! i"
        using I GM [of i] True by (auto simp: v_def u_def s_def q_def n_def gi_def nth_list_update)
    qed (use I in \<open>simp add: v_def u_def s_def q_def n_def\<close>)
    ultimately show ?thesis
      using I assms(2) gs V by (simp add: tally_ok_fec [of _ g] v_def u_def s_def q_def n_def)
  qed
qed

text \<open>The arrival of a parity shard, with the erasure code.\<close>

lemma parity_arrival_fec:
  assumes "tally_ok p" "pf_group_size p = Some g" "pf_parity p slot = None"
  shows "tally_ok (note_parity_arrived slot (p\<lparr>pf_parity := (pf_parity p)(slot \<mapsto> x)\<rparr>))"
proof -
  define q where "q = p\<lparr>pf_parity := (pf_parity p)(slot \<mapsto> x)\<rparr>"
  define n where "n = div_ceil (pf_pinned_data_count p) g"
  note I = assms(1) [unfolded tally_ok_fec [OF assms(2)]]
  have m: "1 \<le> pf_m p" using I by simp
  note GS = group_surviving_insert [OF m assms(3), of x, folded q_def]
  have gm: "group_missing q = group_missing p" by (rule group_missing_cong) (simp_all add: q_def)
  have tq: "tallied n (\<lambda>_. True) q" using I by (simp add: q_def n_def tallied_def bucket_defs)
  define gi where "gi = slot div pf_m p"
  show ?thesis
  proof (cases "gi < n")
    case False
    then have "note_parity_arrived slot q = q"
      using assms(2) I by (simp add: note_parity_arrived_def q_def gi_def n_def)
    moreover have "tally_ok q"
      using I False GS gm tq assms(2) by (simp add: tally_ok_fec [of _ g] q_def n_def gi_def)
    ultimately show ?thesis by (simp add: q_def)
  next
    case gi: True
    define s where "s = pf_tally gi False q"
    define u where "u = s\<lparr>pf_surviving_per_group := (pf_surviving_per_group s)[gi := pf_surviving_per_group s ! gi + 1]\<rparr>"
    define v where "v = pf_tally gi True u"
    have mq: "1 \<le> pf_m q" using m by (simp add: q_def)
    have V: "note_parity_arrived slot q = v"
      using assms(2) gi I by (simp add: note_parity_arrived_def q_def v_def u_def s_def gi_def n_def Let_def)
    have "tallied n (\<lambda>j. j \<noteq> gi) s" unfolding s_def by (rule tally_out [OF tq gi mq])
    then have "tallied n (\<lambda>j. j \<noteq> gi) u" unfolding u_def by (rule tallied_update)
    then have "tallied n (\<lambda>_. True) v" unfolding v_def using gi mq by (intro tally_in) (simp_all add: u_def s_def)
    moreover have "group_missing v = group_missing q" "group_surviving v = group_surviving q"
      by (rule group_missing_cong group_surviving_cong; simp add: v_def u_def s_def)+
    moreover have "pf_surviving_per_group v = map (group_surviving q) [0..<n]"
    proof (rule nth_equalityI)
      fix i assume "i < length (pf_surviving_per_group v)"
      then show "pf_surviving_per_group v ! i = map (group_surviving q) [0..<n] ! i"
        using I GS [of i] by (auto simp: v_def u_def s_def q_def n_def gi_def nth_list_update)
    qed (use I in \<open>simp add: v_def u_def s_def q_def n_def\<close>)
    ultimately show ?thesis
      using I assms(2) gm V by (simp add: tally_ok_fec [of _ g] v_def u_def s_def q_def n_def)
  qed
qed

text \<open>Without the code: the boundary is the lowest parity index seen.\<close>

lemma tally_ok_plain:
  assumes "pf_group_size p = None"
  shows "tally_ok p \<longleftrightarrow> 1 \<le> pf_m p \<and> observed_boundary p \<le> unat (pf_frag_count p) \<and>
    pf_data_present_below_boundary p = data_present p (observed_boundary p)"
  using assms by (simp add: tally_ok_def)

lemma observed_boundary_fields [simp]:
  "observed_boundary (p\<lparr>pf_data := d\<rparr>) = observed_boundary p" "observed_boundary (p\<lparr>pf_parity := y\<rparr>) = observed_boundary p"
  "observed_boundary (p\<lparr>pf_data_present_below_boundary := b\<rparr>) = observed_boundary p"
  by (simp_all add: observed_boundary_def split: option.split)

lemma data_present_fields [simp]:
  "data_present (p\<lparr>pf_parity := y\<rparr>) = data_present p" "data_present (p\<lparr>pf_data_present_below_boundary := b\<rparr>) = data_present p"
  by (simp_all add: data_present_def fun_eq_iff)

lemma data_arrival_plain:
  assumes "tally_ok p" "pf_group_size p = None" "pf_data p w = None"
  shows "tally_ok (note_data_arrived (unat w) (p\<lparr>pf_data := (pf_data p)(w \<mapsto> x)\<rparr>))"
proof -
  define q where "q = p\<lparr>pf_data := (pf_data p)(w \<mapsto> x)\<rparr>"
  define b where "b = observed_boundary p"
  note I = assms(1) [unfolded tally_ok_plain [OF assms(2)]]
  have b: "observed_boundary q = b" by (simp add: q_def b_def observed_boundary_def split: option.split)
  have small: "b \<le> 65536" using I unat_u16_less [of "pf_frag_count p"] by (simp add: b_def)
  have "filter (\<lambda>i. pf_data p (of_nat i) \<noteq> None) [0..<b] =
      filter (\<lambda>i. i \<noteq> unat w \<and> pf_data q (of_nat i) \<noteq> None) [0..<b]"
    using small assms(3) by (intro filter_cong) (auto simp: of_nat_16_eq q_def)
  then have "data_present p b = (if unat w < b then data_present q b - 1 else data_present q b)"
    by (auto simp: data_present_def filter_drop_one q_def)
  moreover have "0 < data_present q b" if "unat w < b"
    using that by (auto simp: data_present_def q_def filter_empty_conv intro!: bexI [of _ "unat w"])
  ultimately have "data_present q b = (if unat w < b then data_present p b + 1 else data_present p b)" by auto
  moreover have "data_present (q\<lparr>pf_data_present_below_boundary := y\<rparr>) b' = data_present q b'"
    "observed_boundary (q\<lparr>pf_data_present_below_boundary := y\<rparr>) = observed_boundary q" for y b'
    by (simp_all add: data_present_def observed_boundary_def split: option.split)
  ultimately have "tally_ok (note_data_arrived (unat w) q)"
    using I assms(2) b by (auto simp: note_data_arrived_def tally_ok_plain b_def) (simp_all add: q_def tally_ok_plain)
  then show ?thesis by (simp add: q_def)
qed

lemma boundary_fold:
  "fold (\<lambda>index p. if index < 65536 \<and> pf_data p (of_nat index) \<noteq> None
                 then p\<lparr>pf_data_present_below_boundary := pf_data_present_below_boundary p - 1\<rparr> else p) is p =
   p\<lparr>pf_data_present_below_boundary := pf_data_present_below_boundary p -
       length (filter (\<lambda>i. i < 65536 \<and> pf_data p (of_nat i) \<noteq> None) is)\<rparr>"
proof (induction "is" arbitrary: p)
  case (Cons i "is")
  show ?case by (simp add: Cons del: not_None_eq)
qed simp

lemma boundary_plain:
  assumes "tally_ok p" "pf_group_size p = None" "i < unat (pf_frag_count p)"
  shows "tally_ok (note_observed_parity_boundary i p)"
proof -
  define b where "b = observed_boundary p"
  note I = assms(1) [unfolded tally_ok_plain [OF assms(2)]]
  have small: "b \<le> 65536" using I unat_u16_less [of "pf_frag_count p"] by (simp add: b_def)
  define q where "q = note_observed_parity_boundary i p"
  have q: "q = p\<lparr>pf_data_present_below_boundary := data_present p b -
        length (filter (\<lambda>i. i < 65536 \<and> pf_data p (of_nat i) \<noteq> None) [min b i..<b]),
      pf_observed_data_count := Some (case pf_observed_data_count p of None \<Rightarrow> i | Some seen \<Rightarrow> min seen i)\<rparr>"
    using assms(2) I by (simp add: q_def note_observed_parity_boundary_def Let_def boundary_fold b_def del: not_None_eq)
  have nb: "observed_boundary q = min b i"
    using assms(3) by (simp add: q b_def observed_boundary_def split: option.split)
  have "[0..<b] = [0..<min b i] @ [min b i..<b]" using upt_add_eq_append [of 0 "min b i" "b - min b i"] by simp
  then have "data_present p b = data_present p (min b i) + length (filter (\<lambda>i. pf_data p (of_nat i) \<noteq> None) [min b i..<b])"
    unfolding data_present_def by (metis filter_append length_append)
  moreover have "filter (\<lambda>i. i < 65536 \<and> pf_data p (of_nat i) \<noteq> None) [min b i..<b] =
      filter (\<lambda>i. pf_data p (of_nat i) \<noteq> None) [min b i..<b]"
    using small by (intro filter_cong) auto
  ultimately have "pf_data_present_below_boundary q = data_present p (min b i)" by (simp add: q)
  then have "tally_ok q"
    using I assms(2,3) nb by (simp add: tally_ok_plain q b_def) (simp add: data_present_def)
  then show ?thesis by (simp add: q_def)
qed

section \<open>Every buffer keeps its tally\<close>

definition with_flags :: "bool \<Rightarrow> bool \<Rightarrow> bool \<Rightarrow> bool \<Rightarrow> pending \<Rightarrow> pending" where
  "with_flags a b c d p = p\<lparr>pf_keyframe := a, pf_crisp := b, pf_is_ltr := c, pf_acked_anchored := d\<rparr>"

lemma with_flags_fields [simp]:
  "pf_group_size (with_flags a b c d p) = pf_group_size p" "pf_frag_count (with_flags a b c d p) = pf_frag_count p"
  "pf_data (with_flags a b c d p) = pf_data p" "pf_parity (with_flags a b c d p) = pf_parity p"
  "pf_pinned_data_count (with_flags a b c d p) = pf_pinned_data_count p" "pf_m (with_flags a b c d p) = pf_m p"
  by (simp_all add: with_flags_def)

lemma tally_ok_flags [simp]: "tally_ok (with_flags a b c d p) = tally_ok p"
  by (simp add: with_flags_def tally_ok_def observed_boundary_def data_present_def
      group_missing_def [abs_def] group_surviving_def [abs_def] tallied_def bucket_defs cong: option.case_cong)

lemma boundary_fec: "pf_group_size p = Some g \<Longrightarrow> tally_ok (note_observed_parity_boundary i p) = tally_ok p"
  by (simp add: note_observed_parity_boundary_def Let_def tally_ok_def
      group_missing_def [abs_def] group_surviving_def [abs_def] tallied_def bucket_defs)

lemma boundary_fields [simp]:
  "pf_group_size (note_observed_parity_boundary i p) = pf_group_size p"
  "pf_parity (note_observed_parity_boundary i p) = pf_parity p"
  "pf_pinned_data_count (note_observed_parity_boundary i p) = pf_pinned_data_count p"
  "pf_data (note_observed_parity_boundary i p) = pf_data p" "pf_m (note_observed_parity_boundary i p) = pf_m p"
  "pf_frag_count (note_observed_parity_boundary i p) = pf_frag_count p"
  by (simp_all add: note_observed_parity_boundary_def Let_def boundary_fold del: not_None_eq)

lemma parity_plain:
  "pf_group_size p = None \<Longrightarrow> tally_ok (p\<lparr>pf_parity := f\<rparr>) = tally_ok p"
  by (simp add: tally_ok_def)

lemma parity_again:
  assumes "pf_parity p slot \<noteq> None"
  shows "tally_ok (p\<lparr>pf_parity := (pf_parity p)(slot \<mapsto> x)\<rparr>) = tally_ok p"
proof (cases "pf_group_size p")
  case None
  then show ?thesis by (rule parity_plain)
next
  case (Some g)
  define q where "q = p\<lparr>pf_parity := (pf_parity p)(slot \<mapsto> x)\<rparr>"
  have "group_surviving q = group_surviving p" using group_surviving_again [OF assms, of x] by (simp add: q_def fun_eq_iff)
  moreover have "group_missing q = group_missing p" by (rule group_missing_cong) (simp_all add: q_def)
  moreover have "tallied n P q = tallied n P p" for n P by (rule tallied_cong) (simp_all add: q_def)
  ultimately have "tally_ok q = tally_ok p" using Some by (simp add: tally_ok_fec [of _ g] q_def)
  then show ?thesis by (simp add: q_def)
qed

lemma data_again:
  assumes "pf_data p w \<noteq> None"
  shows "tally_ok (p\<lparr>pf_data := (pf_data p)(w \<mapsto> x)\<rparr>) = tally_ok p"
proof -
  define q where "q = p\<lparr>pf_data := (pf_data p)(w \<mapsto> x)\<rparr>"
  have "tally_ok q = tally_ok p"
  proof (cases "pf_group_size p")
    case None
    have "data_present q b = data_present p b" for b
      using assms by (auto simp: data_present_def q_def intro!: arg_cong [where f = length] filter_cong)
    then show ?thesis using None by (simp add: tally_ok_plain q_def)
  next
    case (Some g)
    have "group_missing q = group_missing p" using group_missing_again [OF assms, of x] by (simp add: q_def fun_eq_iff)
    moreover have "group_surviving q = group_surviving p" by (rule group_surviving_cong) (simp_all add: q_def)
    moreover have "tallied n P q = tallied n P p" for n P by (rule tallied_cong) (simp_all add: q_def)
    ultimately show ?thesis using Some by (simp add: tally_ok_fec [of _ g] q_def)
  qed
  then show ?thesis by (simp add: q_def)
qed

lemma file_fragment_cases:
  obtains (parity) q slot where "flags_contains (fh_flags (ff_header f)) flag_parity"
      "q = note_observed_parity_boundary (unat (fh_frag_index (ff_header f)))
         (with_flags (pf_keyframe p \<or> flags_contains (fh_flags (ff_header f)) flag_keyframe)
           (pf_crisp p \<or> flags_contains (fh_flags (ff_header f)) flag_crisp)
           (pf_is_ltr p \<or> flags_contains (fh_flags (ff_header f)) flag_is_ltr)
           (pf_acked_anchored p \<or> flags_contains (fh_flags (ff_header f)) flag_acked_anchored) p)"
      "slot = unat (fh_frag_index (ff_header f)) - (if pf_group_size p \<noteq> None then pf_pinned_data_count p else unat (fh_frag_index (ff_header f)))"
      "file_fragment f p = (let p = q\<lparr>pf_parity := (pf_parity q)(slot \<mapsto> ff_payload f)\<rparr>
         in if pf_parity q slot = None then note_parity_arrived slot p else p)"
  | (data) q where "\<not> flags_contains (fh_flags (ff_header f)) flag_parity"
      "q = with_flags (pf_keyframe p \<or> flags_contains (fh_flags (ff_header f)) flag_keyframe)
           (pf_crisp p \<or> flags_contains (fh_flags (ff_header f)) flag_crisp)
           (pf_is_ltr p \<or> flags_contains (fh_flags (ff_header f)) flag_is_ltr)
           (pf_acked_anchored p \<or> flags_contains (fh_flags (ff_header f)) flag_acked_anchored) p"
      "file_fragment f p = (let p = q\<lparr>pf_data := (pf_data q)(fh_frag_index (ff_header f) \<mapsto> ff_payload f)\<rparr>
         in if pf_data q (fh_frag_index (ff_header f)) = None then note_data_arrived (unat (fh_frag_index (ff_header f))) p else p)"
proof (cases "flags_contains (fh_flags (ff_header f)) flag_parity")
  case True
  show thesis by (rule parity [OF True refl refl]) (simp add: file_fragment_def Let_def True with_flags_def cong: if_cong)
next
  case False
  show thesis by (rule data [OF False refl]) (simp add: file_fragment_def Let_def False with_flags_def)
qed

lemma file_fragment_ok:
  assumes "tally_ok p" "fh_frag_index (ff_header f) < pf_frag_count p"
  shows "tally_ok (file_fragment f p)"
proof (cases rule: file_fragment_cases [of f p])
  case (parity q slot)
  have i: "unat (fh_frag_index (ff_header f)) < unat (pf_frag_count p)" using assms(2) by (simp add: word_less_nat_alt)
  have q: "tally_ok q"
  proof (cases "pf_group_size p")
    case None
    then show ?thesis unfolding parity(2) using assms(1) i by (intro boundary_plain) simp_all
  next
    case (Some g)
    then show ?thesis unfolding parity(2) using assms(1) by (subst boundary_fec [of _ g]) simp_all
  qed
  show ?thesis
  proof (cases "pf_parity q slot = None")
    case True
    show ?thesis
    proof (cases "pf_group_size q")
      case None
      then show ?thesis using True parity(4) q by (simp add: note_parity_arrived_def parity_plain)
    next
      case (Some g)
      then show ?thesis using True parity(4) parity_arrival_fec [OF q Some True] by simp
    qed
  next
    case False
    then show ?thesis using parity(4) q parity_again [OF False] by (simp add: Let_def del: not_None_eq)
  qed
next
  case (data q)
  have q: "tally_ok q" using assms(1) by (simp add: data(2))
  show ?thesis
  proof (cases "pf_data q (fh_frag_index (ff_header f)) = None")
    case True
    then show ?thesis
      using data(3) data_arrival_fec [OF q _ True] data_arrival_plain [OF q _ True] by (cases "pf_group_size q") simp_all
  next
    case False
    then show ?thesis using data(3) q data_again [OF False] by (simp add: Let_def del: not_None_eq)
  qed
qed

end
