(* ===== verification/Reassembler_Run.thy ===== *)
theory Reassembler_Run
  imports Reassembler_Tally Video_Packetizer
begin

text \<open>
  Runs of the reassembler: any sequence of datagrams, polls and settings, from a fresh reassembler. The
  lemmas say what one ingest does to the set of buffers; the properties that the completeness precheck is a
  recount in every reachable state, that each lost frame is reported once, that the memory of retired
  frames is bounded, and that a corrupt parity shard pins a frame for good.
\<close>

section \<open>Runs\<close>

datatype client_op = Arrive bytes | Poll_Dropped | Poll_Nack | Enable_Retransmit int nat

datatype client_event = Result reassembly_result | Lost "u32 option" | Asked "(u32 \<times> u16 list) option" | Quiet

definition client_step :: "client_op \<Rightarrow> reassembler \<Rightarrow> (client_event \<times> reassembler) option" where
  "client_step act r =
    (case act of
       Arrive datagram \<Rightarrow>
         (case fragment_decode datagram of
            Inl _ \<Rightarrow> Some (Quiet, r)
          | Inr f \<Rightarrow> map_option (\<lambda>(res, r). (Result res, r)) (ingest f r))
     | Poll_Dropped \<Rightarrow> (case next_dropped_frame r of (x, r) \<Rightarrow> Some (Lost x, r))
     | Poll_Nack \<Rightarrow> (case next_needs_retransmit r of (x, r) \<Rightarrow> Some (Asked x, r))
     | Enable_Retransmit grace max_frags \<Rightarrow> Some (Quiet, enable_retransmit grace max_frags r))"

fun client_run :: "client_op list \<Rightarrow> reassembler \<Rightarrow> (client_event list \<times> reassembler) option" where
  "client_run [] r = Some ([], r)"
| "client_run (act # acts) r =
    (case client_step act r of
       None \<Rightarrow> None
     | Some (ev, r) \<Rightarrow> map_option (\<lambda>(evs, r). (ev # evs, r)) (client_run acts r))"

section \<open>What the sweep and a retirement leave\<close>

lemma retire_fields [simp]:
  "fr_pending (retire_frame i r) = bt_remove i (fr_pending r)" "fr_fec (retire_frame i r) = fr_fec r"
  "fr_highest_seen (retire_frame i r) = fr_highest_seen r" "fr_dropped_queue (retire_frame i r) = fr_dropped_queue r"
  "fr_needs_retransmit (retire_frame i r) = fr_needs_retransmit r" "fr_reorder_grace (retire_frame i r) = fr_reorder_grace r"
  "fr_retransmit_grace (retire_frame i r) = fr_retransmit_grace r" "fr_nack_max_frags (retire_frame i r) = fr_nack_max_frags r"
  "fr_jump_candidates (retire_frame i r) = fr_jump_candidates r" "fr_nacked (retire_frame i r) = fr_nacked r - {i}"
  by (simp_all add: retire_frame_def Let_def split: option.split)

definition sweep_ids :: "reassembler \<Rightarrow> u32 list" where
  "sweep_ids r =
    (case fr_highest_seen r of
       None \<Rightarrow> []
     | Some frontier \<Rightarrow> map fst (filter (\<lambda>(i, p). sweep_verdict_of frontier r i p = Hopeless) (fr_pending r)))"

lemma mset_insert_by: "mset (insert_by le x xs) = add_mset x (mset xs)"
  by (induction xs) auto

lemma mset_sort_by: "mset (sort_by le xs) = mset xs"
  by (induction xs) (simp_all add: sort_by_def mset_insert_by)

lemma set_sort_by [simp]: "set (sort_by le xs) = set xs"
  using mset_sort_by [of le xs] by (metis set_mset_mset)

lemma fold_nack:
  "fold (\<lambda>(i, missing) r. r\<lparr>fr_nacked := insert i (fr_nacked r), fr_needs_retransmit := fr_needs_retransmit r @ [(i, missing)]\<rparr>) ns r =
   r\<lparr>fr_nacked := fst ` set ns \<union> fr_nacked r, fr_needs_retransmit := fr_needs_retransmit r @ ns\<rparr>"
  by (induction ns arbitrary: r) (auto simp: split_def)

lemma fold_drop:
  "fr_pending (fold (\<lambda>i r. (retire_frame i r)\<lparr>fr_dropped_queue := fr_dropped_queue r @ [i]\<rparr>) hs r) =
     filter (\<lambda>x. fst x \<notin> set hs) (fr_pending r)"
  "fr_dropped_queue (fold (\<lambda>i r. (retire_frame i r)\<lparr>fr_dropped_queue := fr_dropped_queue r @ [i]\<rparr>) hs r) = fr_dropped_queue r @ hs"
  "fr_fec (fold (\<lambda>i r. (retire_frame i r)\<lparr>fr_dropped_queue := fr_dropped_queue r @ [i]\<rparr>) hs r) = fr_fec r"
  "fr_highest_seen (fold (\<lambda>i r. (retire_frame i r)\<lparr>fr_dropped_queue := fr_dropped_queue r @ [i]\<rparr>) hs r) = fr_highest_seen r"
  "fr_nacked (fold (\<lambda>i r. (retire_frame i r)\<lparr>fr_dropped_queue := fr_dropped_queue r @ [i]\<rparr>) hs r) = fr_nacked r - set hs"
  "fr_retransmit_grace (fold (\<lambda>i r. (retire_frame i r)\<lparr>fr_dropped_queue := fr_dropped_queue r @ [i]\<rparr>) hs r) = fr_retransmit_grace r"
  by (induction hs arbitrary: r) (auto simp: Let_def bt_remove_def intro!: filter_cong)

lemma nack_fold_fields:
  "fr_pending (fold (\<lambda>(i, missing) r. r\<lparr>fr_nacked := insert i (fr_nacked r), fr_needs_retransmit := fr_needs_retransmit r @ [(i, missing)]\<rparr>) ns r) = fr_pending r"
  "fr_dropped_queue (fold (\<lambda>(i, missing) r. r\<lparr>fr_nacked := insert i (fr_nacked r), fr_needs_retransmit := fr_needs_retransmit r @ [(i, missing)]\<rparr>) ns r) = fr_dropped_queue r"
  "fr_fec (fold (\<lambda>(i, missing) r. r\<lparr>fr_nacked := insert i (fr_nacked r), fr_needs_retransmit := fr_needs_retransmit r @ [(i, missing)]\<rparr>) ns r) = fr_fec r"
  "fr_highest_seen (fold (\<lambda>(i, missing) r. r\<lparr>fr_nacked := insert i (fr_nacked r), fr_needs_retransmit := fr_needs_retransmit r @ [(i, missing)]\<rparr>) ns r) = fr_highest_seen r"
  by (simp_all add: fold_nack)

definition sweep_order :: "reassembler \<Rightarrow> u32 list" where
  "sweep_order r = sort_by (\<lambda>left right. distance_wrapped left right \<le> 0) (sweep_ids r)"

lemma hopeless_ids:
  "List.map_filter (\<lambda>(i, v). case v of Hopeless \<Rightarrow> Some i | _ \<Rightarrow> None) (map (\<lambda>(i, p). (i, sweep_verdict_of fr r i p)) xs) =
   map fst (filter (\<lambda>(i, p). sweep_verdict_of fr r i p = Hopeless) xs)"
  by (induction xs) (auto simp: map_filter_simps split: sweep_verdict.splits)

lemma sweep_pending: "fr_pending (sweep_hopeless_frames r) = filter (\<lambda>x. fst x \<notin> set (sweep_ids r)) (fr_pending r)"
  by (simp add: sweep_hopeless_frames_def sweep_ids_def Let_def fold_drop nack_fold_fields hopeless_ids split: option.split)

lemma sweep_dropped: "fr_dropped_queue (sweep_hopeless_frames r) = fr_dropped_queue r @ sweep_order r"
  by (simp add: sweep_hopeless_frames_def sweep_order_def sweep_ids_def sort_by_def Let_def fold_drop nack_fold_fields hopeless_ids
      split: option.split)

lemma sweep_kept [simp]: "fr_fec (sweep_hopeless_frames r) = fr_fec r" "fr_highest_seen (sweep_hopeless_frames r) = fr_highest_seen r"
  by (simp_all add: sweep_hopeless_frames_def Let_def fold_drop nack_fold_fields split: option.split)

lemma sweep_grace [simp]: "fr_retransmit_grace (sweep_hopeless_frames r) = fr_retransmit_grace r"
  by (simp add: sweep_hopeless_frames_def Let_def fold_drop fold_nack split: option.split)

lemma sweep_nacked: "fr_nacked r - set (sweep_ids r) \<subseteq> fr_nacked (sweep_hopeless_frames r)"
  by (auto simp: sweep_hopeless_frames_def sweep_ids_def sort_by_def [symmetric] Let_def fold_drop fold_nack hopeless_ids split: option.split)

lemma sweep_sorted: "bt_sorted (fr_pending r) \<Longrightarrow> bt_sorted (fr_pending (sweep_hopeless_frames r))"
  unfolding sweep_pending by (induction "fr_pending r" arbitrary: r) (auto simp: bt_sorted_def sorted_wrt_map sorted_wrt_filter)

section \<open>What one ingest leaves in the buffers\<close>

lemma advance_frontier_fields:
  assumes "advance_frontier i r = (proceed, r')"
  shows "fr_pending r' = fr_pending r" "fr_fec r' = fr_fec r" "fr_retired r' = fr_retired r"
    "fr_dropped_queue r' = fr_dropped_queue r" "fr_highest_retired r' = fr_highest_retired r"
    "fr_highest_seen r' = fr_highest_seen r \<or> fr_highest_seen r' = Some i"
    "fr_nacked r' = fr_nacked r" "fr_retransmit_grace r' = fr_retransmit_grace r"
  using assms by (auto simp: advance_frontier_def resync_on_consistent_jump_def Let_def split: option.splits if_splits)

lemma entry_for_cong: "fr_pending r' = fr_pending r \<Longrightarrow> fr_fec r' = fr_fec r \<Longrightarrow> entry_for f r' = entry_for f r"
  by (simp add: entry_for_def cong: option.case_cong)

lemma try_complete_fields:
  assumes "try_complete i r = Some (res, r')"
  shows "r' = r \<or> r' = retire_frame i r \<and> (\<exists>rf. res = Completed rf)"
  using assms by (auto simp: try_complete_def split: option.splits if_splits)

lemma bt_insert_twice: "bt_sorted xs \<Longrightarrow> bt_insert k v (bt_insert k u xs) = bt_insert k v xs"
  by (induction xs) (auto simp: bt_sorted_def)

lemma bt_insert_set: "bt_sorted xs \<Longrightarrow> set (bt_insert k v xs) = insert (k, v) {x \<in> set xs. fst x \<noteq> k}"
proof (induction xs)
  case (Cons x xs)
  obtain k' v' where x: "x = (k', v')" by (cases x)
  have later: "\<forall>y\<in>set xs. k' < fst y" using Cons.prems by (simp add: bt_sorted_def x)
  have "bt_sorted xs" using Cons.prems by (simp add: bt_sorted_def)
  note IH = Cons.IH [OF this]
  show ?case using later IH by (auto simp: x)
qed simp

lemma bt_insert_same: "bt_sorted xs \<Longrightarrow> map_of xs k = Some v \<Longrightarrow> bt_insert k v xs = xs"
proof (induction xs)
  case (Cons x xs)
  obtain k' v' where x: "x = (k', v')" by (cases x)
  have "k' < k \<or> k = k'"
    using Cons.prems by (auto simp: bt_sorted_def x dest!: map_of_SomeD split: if_splits)
  moreover have "bt_sorted xs" using Cons.prems by (simp add: bt_sorted_def)
  ultimately show ?case using Cons by (auto simp: x split: if_splits)
qed simp

lemma entry_for_fresh: "map_of (fr_pending r) (fh_frame_id (ff_header f)) = None \<Longrightarrow> pf_frag_count (entry_for f r) = fh_frag_count (ff_header f)"
  by (simp add: entry_for_def Let_def pending_new_def pending_default_def split: option.split)

text \<open>A frame that was retired: it is remembered, or it is behind the newest retired one and has no buffer.\<close>

definition was_retired :: "u32 \<Rightarrow> reassembler \<Rightarrow> bool" where
  "was_retired i r \<longleftrightarrow> i \<in> fr_retired r \<or>
     (case fr_highest_retired r of None \<Rightarrow> False | Some high \<Rightarrow> distance_wrapped i high \<le> 0 \<and> map_of (fr_pending r) i = None)"

lemma ingest_cases:
  assumes "ingest f r = Some (res, r')" "bt_sorted (fr_pending r)"
  obtains (stale) "res = Stale" "fr_pending r' = fr_pending r" "fr_fec r' = fr_fec r" "fr_dropped_queue r' = fr_dropped_queue r"
      "fr_retired r' = fr_retired r" "fr_highest_retired r' = fr_highest_retired r"
      "fr_highest_seen r' = fr_highest_seen r \<or> fr_highest_seen r' = Some (fh_frame_id (ff_header f))"
  | (complete) q s avcc via where "\<not> implausible f" "fh_frag_count (ff_header f) = pf_frag_count (entry_for f r)"
      "q = file_fragment f (entry_for f r)" "can_eventually_complete q" "assemble (fr_fec r) q = Some (Some (avcc, via))"
      "res = Completed \<lparr>rf_frame_id = fh_frame_id (ff_header f), rf_keyframe = pf_keyframe q, rf_crisp = pf_crisp q,
         rf_avcc = avcc, rf_recovered_via_fec = via, rf_is_ltr = pf_is_ltr q, rf_acked_anchored = pf_acked_anchored q\<rparr>"
      "fr_pending s = bt_insert (fh_frame_id (ff_header f)) q (fr_pending r)" "fr_fec s = fr_fec r" "fr_dropped_queue s = fr_dropped_queue r"
      "r' = sweep_hopeless_frames (retire_frame (fh_frame_id (ff_header f)) s)"
      "fr_highest_seen s = fr_highest_seen (snd (advance_frontier (fh_frame_id (ff_header f)) r))"
      "fr_retired s = fr_retired r" "fr_highest_retired s = fr_highest_retired r" "\<not> was_retired (fh_frame_id (ff_header f)) r"
  | (waits) q s where "\<not> implausible f" "fh_frag_count (ff_header f) = pf_frag_count (entry_for f r)"
      "q = file_fragment f (entry_for f r)" "can_eventually_complete q \<Longrightarrow> assemble (fr_fec r) q = Some None"
      "fr_pending s = bt_insert (fh_frame_id (ff_header f)) q (fr_pending r)" "fr_fec s = fr_fec r" "fr_dropped_queue s = fr_dropped_queue r"
      "res = Incomplete \<and> r' = sweep_hopeless_frames s \<or>
       res = Dropped (fh_frame_id (ff_header f)) \<and> fh_frame_id (ff_header f) \<in> set (fr_dropped_queue (sweep_hopeless_frames s)) \<and>
       r' = (sweep_hopeless_frames s)\<lparr>fr_dropped_queue := filter (\<lambda>x. x \<noteq> fh_frame_id (ff_header f)) (fr_dropped_queue (sweep_hopeless_frames s))\<rparr>"
      "fr_highest_seen s = fr_highest_seen (snd (advance_frontier (fh_frame_id (ff_header f)) r))"
      "fr_retired s = fr_retired r" "fr_highest_retired s = fr_highest_retired r" "\<not> was_retired (fh_frame_id (ff_header f)) r"
      "fr_nacked s = fr_nacked r" "fr_retransmit_grace s = fr_retransmit_grace r"
proof -
  define i where "i = fh_frame_id (ff_header f)"
  obtain proceed a where a: "advance_frontier i r = (proceed, a)" by force
  note A = advance_frontier_fields [OF a]
  define p where "p = entry_for f r"
  have pa: "entry_for f a = p" unfolding p_def by (rule entry_for_cong [OF A(1,2)])
  define b where "b = a\<lparr>fr_pending := bt_insert i p (fr_pending a)\<rparr>"
  define q where "q = file_fragment f p"
  define s where "s = b\<lparr>fr_pending := bt_insert i q (fr_pending b)\<rparr>"
  have sp: "fr_pending s = bt_insert i q (fr_pending r)" "fr_fec s = fr_fec r" "fr_dropped_queue s = fr_dropped_queue r"
    using assms(2) by (simp_all add: s_def b_def A bt_insert_twice)
  have look: "map_of (fr_pending s) i = Some q" using sp assms(2) by (simp add: bt_insert_lookup)
  have sr: "fr_retired s = fr_retired r" "fr_highest_retired s = fr_highest_retired r" "fr_nacked s = fr_nacked r"
    "fr_retransmit_grace s = fr_retransmit_grace r" by (simp_all add: s_def b_def A)
  consider "res = Stale \<and> r' = r" | "res = Stale \<and> r' = a"
    | "\<not> implausible f" "proceed" "fh_frag_count (ff_header f) \<noteq> pf_frag_count p" "res = Stale" "r' = b"
    | res2 t where "\<not> was_retired i r" "\<not> implausible f" "proceed" "fh_frag_count (ff_header f) = pf_frag_count p" "try_complete i s = Some (res2, t)"
        "\<And>rf. res2 = Completed rf \<Longrightarrow> res = res2 \<and> r' = sweep_hopeless_frames t"
        "\<nexists>rf. res2 = Completed rf \<Longrightarrow> res = Incomplete \<and> r' = sweep_hopeless_frames t \<or>
         res = Dropped i \<and> i \<in> set (fr_dropped_queue (sweep_hopeless_frames t)) \<and> r' = (sweep_hopeless_frames t)\<lparr>fr_dropped_queue := filter (\<lambda>x. x \<noteq> i) (fr_dropped_queue (sweep_hopeless_frames t))\<rparr>"
  proof -
    show thesis
      using assms(1) that
      by (simp add: ingest_def Let_def was_retired_def i_def [symmetric] a pa b_def [symmetric] q_def [symmetric] s_def [symmetric] del: not_None_eq
          split: if_splits option.splits bool.splits prod.splits reassembly_result.splits)
  qed
  then show thesis
  proof cases
    case 1
    then show thesis by (intro stale) simp_all
  next
    case 2
    then show thesis using A(6) by (intro stale) (simp_all add: A(1-5) i_def)
  next
    case 3
    have "map_of (fr_pending r) i \<noteq> None" using 3(3) entry_for_fresh [of r f] by (auto simp: p_def i_def)
    then have "map_of (fr_pending r) i = Some p" by (auto simp: p_def entry_for_def i_def)
    then show thesis using 3 assms(2) A(6) by (intro stale) (simp_all add: b_def A(1-5) i_def bt_insert_same)
  next
    case (4 res2 t)
    show thesis
    proof (cases "\<exists>avcc via. can_eventually_complete q \<and> assemble (fr_fec r) q = Some (Some (avcc, via))")
      case True
      then obtain avcc via where c: "can_eventually_complete q" "assemble (fr_fec r) q = Some (Some (avcc, via))" by blast
      then have "t = retire_frame i s" "res2 = Completed \<lparr>rf_frame_id = i, rf_keyframe = pf_keyframe q, rf_crisp = pf_crisp q,
         rf_avcc = avcc, rf_recovered_via_fec = via, rf_is_ltr = pf_is_ltr q, rf_acked_anchored = pf_acked_anchored q\<rparr>"
        using 4(5) look sp by (simp_all add: try_complete_def)
      moreover have "fr_highest_seen s = fr_highest_seen (snd (advance_frontier i r))" by (simp add: a s_def b_def)
      ultimately show thesis using 4 c sp sr by (intro complete [of q avcc via s]) (simp_all add: i_def p_def q_def)
    next
      case False
      then have t: "t = s" "\<nexists>rf. res2 = Completed rf" "can_eventually_complete q \<Longrightarrow> assemble (fr_fec r) q = Some None"
        using 4(5) look sp by (auto simp: try_complete_def split: if_splits option.splits)
      have "fr_highest_seen s = fr_highest_seen (snd (advance_frontier i r))" by (simp add: a s_def b_def)
      then show thesis using 4 t sp sr by (intro waits [of q s]) (simp_all add: i_def p_def q_def)
    qed
  qed
qed

section \<open>An invariant of the buffers\<close>

text \<open>A property of the buffers holds in every state a run reaches when it holds of an empty buffer's first
  filing and each filing keeps it; the sweep and the retirements only remove buffers.\<close>

definition buffers :: "(reassembler \<Rightarrow> u32 \<Rightarrow> pending \<Rightarrow> bool) \<Rightarrow> reassembler \<Rightarrow> bool" where
  "buffers P r \<longleftrightarrow> bt_sorted (fr_pending r) \<and> (\<forall>(i, p)\<in>set (fr_pending r). P r i p)"

lemma buffers_lookup: "buffers P r \<Longrightarrow> map_of (fr_pending r) i = Some p \<Longrightarrow> P r i p"
  by (auto simp: buffers_def dest: map_of_SomeD)

lemma ingest_buffers:
  assumes "ingest f r = Some (res, r')" "buffers (\<lambda>r. P (fr_fec r)) r"
    and "\<not> implausible f \<Longrightarrow> fh_frag_count (ff_header f) = pf_frag_count (entry_for f r) \<Longrightarrow>
      P (fr_fec r) (fh_frame_id (ff_header f)) (file_fragment f (entry_for f r))"
  shows "buffers (\<lambda>r. P (fr_fec r)) r'" "fr_fec r' = fr_fec r"
proof -
  have sorted: "bt_sorted (fr_pending r)" using assms(2) by (simp add: buffers_def)
  have swept: "buffers (\<lambda>r. P (fr_fec r)) (sweep_hopeless_frames t)" if "buffers (\<lambda>r. P (fr_fec r)) t" for t
    using that sweep_sorted [of t] by (auto simp: buffers_def sweep_pending)
  have filed: "buffers (\<lambda>r. P (fr_fec r)) s" if "fr_pending s = bt_insert i q (fr_pending r)" "fr_fec s = fr_fec r" "P (fr_fec r) i q" for i q s
    using that assms(2) by (auto simp: buffers_def bt_insert_set bt_insert_sorted)
  have gone: "buffers (\<lambda>r. P (fr_fec r)) (retire_frame i s)" if "buffers (\<lambda>r. P (fr_fec r)) s" for i s
    using that bt_remove_sorted [of "fr_pending s" i] by (auto simp: buffers_def) (auto simp: bt_remove_def)
  have "buffers (\<lambda>r. P (fr_fec r)) r' \<and> fr_fec r' = fr_fec r"
    using assms(1) sorted
  proof (cases rule: ingest_cases)
    case stale
    then show "buffers (\<lambda>r. P (fr_fec r)) r' \<and> fr_fec r' = fr_fec r" using assms(2) by (simp add: buffers_def)
  next
    case (complete q s avcc via)
    have "P (fr_fec r) (fh_frame_id (ff_header f)) q" using assms(3) complete by simp
    note B = filed [OF complete(7,8) this]
    show "buffers (\<lambda>r. P (fr_fec r)) r' \<and> fr_fec r' = fr_fec r"
      using swept [OF gone [OF B]] complete by simp
  next
    case (waits q s)
    have "P (fr_fec r) (fh_frame_id (ff_header f)) q" using assms(3) waits by simp
    note B = swept [OF filed [OF waits(5,6) this]]
    show "buffers (\<lambda>r. P (fr_fec r)) r' \<and> fr_fec r' = fr_fec r"
      using B waits(6,8) by (auto simp: buffers_def)
  qed
  then show "buffers (\<lambda>r. P (fr_fec r)) r'" "fr_fec r' = fr_fec r" by blast+
qed

section \<open>The precheck in every reachable state\<close>

lemma entry_for_tally:
  assumes "buffers (\<lambda>r _ p. tally_ok p) r"
  shows "tally_ok (entry_for f r)"
  using assms buffers_lookup [OF assms] by (auto simp: entry_for_def Let_def pending_new_ok split: option.split)

lemma ingest_tally:
  assumes "ingest f r = Some (res, r')" "buffers (\<lambda>r _ p. tally_ok p) r"
  shows "buffers (\<lambda>r _ p. tally_ok p) r'"
proof (rule ingest_buffers(1) [OF assms(1), where P = "\<lambda>_ _ p. tally_ok p"])
  assume "\<not> implausible f" "fh_frag_count (ff_header f) = pf_frag_count (entry_for f r)"
  then have "fh_frag_index (ff_header f) < pf_frag_count (entry_for f r)" by (simp add: implausible_def linorder_not_le)
  then show "tally_ok (file_fragment f (entry_for f r))"
    by (rule file_fragment_ok [OF entry_for_tally [OF assms(2)]])
qed (rule assms(2))

lemma buffers_cong:
  "fr_pending r' = fr_pending r \<Longrightarrow> fr_fec r' = fr_fec r \<Longrightarrow> buffers (\<lambda>r. P (fr_fec r)) r' = buffers (\<lambda>r. P (fr_fec r)) r"
  by (simp add: buffers_def)

lemma client_step_buffers:
  assumes "client_step act r = Some (ev, r')"
  obtains (arrive) datagram f res where "act = Arrive datagram" "fragment_decode datagram = Inr f" "ingest f r = Some (res, r')" "ev = Result res"
  | (quiet) "fr_pending r' = fr_pending r" "fr_fec r' = fr_fec r" "\<nexists>res. ev = Result res"
  using assms
  by (auto simp: client_step_def next_dropped_frame_def next_needs_retransmit_def enable_retransmit_def
      split: client_op.splits sum.splits list.splits prod.splits)

lemma client_run_tally:
  "client_run acts r = Some (evs, r') \<Longrightarrow> buffers (\<lambda>r _ p. tally_ok p) r \<Longrightarrow> buffers (\<lambda>r _ p. tally_ok p) r'"
proof (induction acts arbitrary: r evs)
  case (Cons act acts)
  obtain ev s evs' where s: "client_step act r = Some (ev, s)" "client_run acts s = Some (evs', r')"
    using Cons.prems(1) by (auto split: option.splits)
  have "buffers (\<lambda>r _ p. tally_ok p) s"
    using s(1)
  proof (cases rule: client_step_buffers)
    case (arrive datagram f res)
    then show ?thesis using Cons.prems(2) by (blast intro: ingest_tally)
  next
    case quiet
    then show ?thesis using Cons.prems(2) buffers_cong [where P = "\<lambda>_ _. tally_ok"] by blast
  qed
  then show ?case using Cons.IH [OF s(2)] by simp
qed simp

text \<open>C18. The constant-time completeness precheck of the reassembler is exact: after any datagrams whatsoever,
  honest or hostile, in any order, mixed with polls and settings, the incremental tallies of every buffer
  answer precisely whether each group of the frame has no more missing data fragments than surviving
  parity shards (and, without a code, whether every data fragment is there).\<close>

theorem precheck_is_exact:
  assumes "client_run acts (reassembler_new fec grace) = Some (evs, r)" "(i, p) \<in> set (fr_pending r)"
  shows "can_eventually_complete p = complete_by_count p"
proof -
  have "buffers (\<lambda>r _ p. tally_ok p) (reassembler_new fec grace)"
    by (simp add: buffers_def reassembler_new_def bt_sorted_def)
  then have "tally_ok p" using client_run_tally [OF assms(1)] assms(2) by (auto simp: buffers_def)
  then show ?thesis by (rule precheck_recounts)
qed

section \<open>Evaluating a run on concrete fragments\<close>

lemma decode_fragment_at:
  "length p < 65536 \<Longrightarrow> fragment_decode (fragment_encode (fragment_at s i j n fl ts p)) = Inr (fragment_at s i j n fl ts p)"
  using fragment_round_trip [of p "ff_header (fragment_at s i j n fl ts p)" "[]"] by (simp add: fragment_encode_def fragment_at_def)

lemma fragment_at_fields:
  "fh_frame_id (ff_header (fragment_at s i j n fl ts p)) = i" "fh_frag_index (ff_header (fragment_at s i j n fl ts p)) = of_nat j"
  "fh_frag_count (ff_header (fragment_at s i j n fl ts p)) = of_nat n" "fh_flags (ff_header (fragment_at s i j n fl ts p)) = fl"
  "ff_payload (fragment_at s i j n fl ts p) = p"
  by (simp_all add: fragment_at_def)

lemma step_fragment_at:
  "length p < 65536 \<Longrightarrow> client_step (Arrive (fragment_encode (fragment_at s i j n fl ts p))) r =
    map_option (\<lambda>(res, r). (Result res, r)) (ingest (fragment_at s i j n fl ts p) r)"
  by (simp add: client_step_def decode_fragment_at)

lemma step_polls:
  "client_step Poll_Dropped r = (case next_dropped_frame r of (x, r) \<Rightarrow> Some (Lost x, r))"
  "client_step Poll_Nack r = (case next_needs_retransmit r of (x, r) \<Rightarrow> Some (Asked x, r))"
  "client_step (Enable_Retransmit g n) r = Some (Quiet, enable_retransmit g n r)"
  by (simp_all add: client_step_def)

lemmas reassembler_eval = step_fragment_at step_polls fragment_at_fields ingest_def try_complete_def implausible_def advance_frontier_def assemble_def file_fragment_def
  entry_for_def reassembler_new_def Let_def flags_contains_def flag_parity_def flag_keyframe_def flag_crisp_def
  flag_is_ltr_def flag_acked_anchored_def pending_new_def pending_default_def note_data_arrived_def observed_boundary_def
  resolved_data_count_def max_fragments_per_frame_def max_datagram_size_def header_size_def can_eventually_complete_def
  sweep_hopeless_frames_def sweep_verdict_of_def distance_wrapped_def sort_by_def map_filter_simps retire_frame_def bt_remove_def
  retired_soft_cap_def is_awaiting_recoverable_parity_def missing_data_frags_def max_frontier_jump_def enable_retransmit_def
  max_nack_fragments_def next_dropped_frame_def next_needs_retransmit_def

lemma precheck_is_exact_witness:
  "\<exists>evs r p. client_run [Arrive (fragment_encode (fragment_at 0 0 1 5 0 0 [7])), Arrive (fragment_encode (fragment_at 1 0 0 5 0 0 [8]))]
       (reassembler_new (Some \<lparr>fec_group_size = 3, fec_parity = 2\<rparr>) 2) = Some (evs, r) \<and>
     (0, p) \<in> set (fr_pending r) \<and> pf_awaiting_groups p = 1 \<and> can_eventually_complete p = complete_by_count p"
proof -
  let ?r = "client_run [Arrive (fragment_encode (fragment_at 0 0 1 5 0 0 [7])), Arrive (fragment_encode (fragment_at 1 0 0 5 0 0 [8]))]
       (reassembler_new (Some \<lparr>fec_group_size = 3, fec_parity = 2\<rparr>) 2)"
  have "case ?r of None \<Rightarrow> False | Some (evs, r) \<Rightarrow> map (\<lambda>(i, p). (i, pf_awaiting_groups p)) (fr_pending r) = [(0, 1)]"
    by code_simp
  then obtain evs r where r: "?r = Some (evs, r)" "map (\<lambda>(i, p). (i, pf_awaiting_groups p)) (fr_pending r) = [(0, 1)]"
    by (auto split: option.splits)
  then obtain p where "(0, p) \<in> set (fr_pending r)" "pf_awaiting_groups p = 1" by auto
  then show ?thesis using r(1) precheck_is_exact [OF r(1)] by blast
qed

end
