(* ===== verification/Video_Delivery.thy ===== *)
theory Video_Delivery
  imports Video_Shards Reassembler_Run
begin

text \<open>
  The video transport end to end: frames cut and protected by the packetizer, a network that loses,
  reorders and duplicates datagrams, and the reassembler. Only genuine frames complete, byte for byte; a
  frame whose surviving datagrams suffice for its code completes; and nothing the network does makes an
  assertion of the code fail.
\<close>

section \<open>The datagrams a host sends\<close>

text \<open>A host packetizes a list of frames with their options.\<close>

fun send_frames :: "(bytes \<times> packetize_options) list \<Rightarrow> packetizer \<Rightarrow> (bytes list list \<times> packetizer) option" where
  "send_frames [] p = Some ([], p)"
| "send_frames ((frame, options) # rest) p =
    (case packetize_raw frame options p of
       None \<Rightarrow> None
     | Some (ds, p) \<Rightarrow> map_option (\<lambda>(dss, p). (ds # dss, p)) (send_frames rest p))"

definition sent_datagrams :: "rs_fec option \<Rightarrow> bytes \<times> packetize_options \<Rightarrow> u32 \<Rightarrow> u32 \<Rightarrow> bytes list" where
  "sent_datagrams fec x stream_seq frame_id =
     map (\<lambda>j. fragment_encode (sent_fragment fec (fst x) (snd x) stream_seq frame_id j))
       [0..<length (frame_shards fec (fst x) (po_fec_tier (snd x)))]"

definition frame_fits :: "rs_fec option \<Rightarrow> bytes \<times> packetize_options \<Rightarrow> bool" where
  "frame_fits fec x \<longleftrightarrow> length (frame_shards fec (fst x) (po_fec_tier (snd x))) \<le> max_fragments_per_frame"

text \<open>What the packetizer emits is the frame's datagrams in some order; a frame too large for the client's
  bound is not sent at all.\<close>

lemma packetize_raw_facts:
  assumes "tier_fits (pk_fec p) (po_fec_tier (snd x))"
  obtains ds q where "packetize_raw (fst x) (snd x) p = Some (ds, q)" "pk_fec q = pk_fec p" "pk_next_frame_id q = pk_next_frame_id p + 1"
    "mset ds = (if frame_fits (pk_fec p) x then mset (sent_datagrams (pk_fec p) x (pk_next_stream_seq p) (pk_next_frame_id p)) else {#})"
proof (cases "frame_fits (pk_fec p) x")
  case True
  note E = packetize_datagrams_eq [OF assms True [unfolded frame_fits_def], folded sent_datagrams_def]
  define ds where "ds = sent_datagrams (pk_fec p) x (pk_next_stream_seq p) (pk_next_frame_id p)"
  obtain n where "packetize_raw (fst x) (snd x) p = Some (if po_interleave (snd x) then interleave ds (length (frame_payloads (fst x))) n else ds,
      p\<lparr>pk_next_frame_id := pk_next_frame_id p + 1,
        pk_next_stream_seq := pk_next_stream_seq p + of_nat (length (frame_shards (pk_fec p) (fst x) (po_fec_tier (snd x))))\<rparr>)"
    by (cases "po_interleave (snd x)") (simp_all add: packetize_raw_def E Let_def ds_def)
  then show thesis by (rule that) (simp_all add: mset_interleave True ds_def)
next
  case False
  then show thesis
    using frame_parity_facts(1) [OF assms, of "fst x"]
    by (intro that [of "[]" "p\<lparr>pk_next_frame_id := pk_next_frame_id p + 1\<rparr>"]) (simp_all add: packetize_raw_def packetize_datagrams_def Let_def frame_fits_def frame_shards_def interleave_def)
qed

definition sent_as :: "rs_fec option \<Rightarrow> bytes \<times> packetize_options \<Rightarrow> u32 \<Rightarrow> bytes list \<Rightarrow> bool" where
  "sent_as fec x frame_id ds \<longleftrightarrow>
     (\<exists>seq. mset ds = (if frame_fits fec x then mset (sent_datagrams fec x seq frame_id) else {#}))"

lemma send_frames_facts:
  "\<forall>x\<in>set xs. tier_fits (pk_fec p) (po_fec_tier (snd x)) \<Longrightarrow>
   \<exists>dss p'. send_frames xs p = Some (dss, p') \<and> length dss = length xs \<and>
     (\<forall>k<length xs. sent_as (pk_fec p) (xs ! k) (pk_next_frame_id p + of_nat k) (dss ! k))"
proof (induction xs arbitrary: p)
  case (Cons x xs)
  have "tier_fits (pk_fec p) (po_fec_tier (snd x))" using Cons.prems by simp
  then obtain ds q where q: "packetize_raw (fst x) (snd x) p = Some (ds, q)" "pk_fec q = pk_fec p" "pk_next_frame_id q = pk_next_frame_id p + 1"
    and ds: "sent_as (pk_fec p) x (pk_next_frame_id p) ds"
    unfolding sent_as_def by (rule packetize_raw_facts) blast
  obtain dss p' where IH: "send_frames xs q = Some (dss, p')" "length dss = length xs"
     "\<forall>k<length xs. sent_as (pk_fec p) (xs ! k) (pk_next_frame_id q + of_nat k) (dss ! k)"
    using Cons.IH [of q] Cons.prems q(2) by auto
  show ?case
  proof (intro exI conjI allI impI)
    show "send_frames (x # xs) p = Some (ds # dss, p')" using q(1) IH(1) by (cases x) simp
    fix k assume "k < length (x # xs)"
    then show "sent_as (pk_fec p) ((x # xs) ! k) (pk_next_frame_id p + of_nat k) ((ds # dss) ! k)"
      using ds IH(3) q(3) by (cases k) (simp_all add: add.assoc)
  qed (use IH in simp)
qed simp

text \<open>A datagram that was sent decodes to a fragment of one of the frames.\<close>

lemma sent_datagram_decodes:
  assumes "\<forall>x\<in>set xs. tier_fits (pk_fec p) (po_fec_tier (snd x))" "send_frames xs p = Some (dss, p')" "ds \<in> set dss" "d \<in> set ds"
  obtains k seq j where "k < length xs" "j < length (frame_shards (pk_fec p) (fst (xs ! k)) (po_fec_tier (snd (xs ! k))))"
    "frame_fits (pk_fec p) (xs ! k)" "length d \<le> max_datagram_size"
    "fragment_decode d = Inr (sent_fragment (pk_fec p) (fst (xs ! k)) (snd (xs ! k)) seq (pk_next_frame_id p + of_nat k) j)"
proof -
  have S: "length dss = length xs" "\<forall>k<length xs. sent_as (pk_fec p) (xs ! k) (pk_next_frame_id p + of_nat k) (dss ! k)"
    using send_frames_facts [OF assms(1)] assms(2) by auto
  obtain k where k: "k < length xs" "ds = dss ! k" using assms(3) S(1) by (auto simp: in_set_conv_nth)
  obtain seq where seq: "mset ds = (if frame_fits (pk_fec p) (xs ! k) then mset (sent_datagrams (pk_fec p) (xs ! k) seq (pk_next_frame_id p + of_nat k)) else {#})"
    using S(2) k by (auto simp: sent_as_def)
  have fits: "frame_fits (pk_fec p) (xs ! k)" using seq assms(4) by (auto split: if_splits)
  then have "set ds = set (sent_datagrams (pk_fec p) (xs ! k) seq (pk_next_frame_id p + of_nat k))" using seq by (metis mset_eq_setD)
  then obtain j where j: "j < length (frame_shards (pk_fec p) (fst (xs ! k)) (po_fec_tier (snd (xs ! k))))"
    "d = fragment_encode (sent_fragment (pk_fec p) (fst (xs ! k)) (snd (xs ! k)) seq (pk_next_frame_id p + of_nat k) j)"
    using assms(4) by (auto simp: sent_datagrams_def)
  have "tier_fits (pk_fec p) (po_fec_tier (snd (xs ! k)))" using assms(1) k by simp
  then show thesis using that [OF k(1) j(1) fits] sent_fragment_decodes [OF _ j(1)] j(2) by blast
qed

section \<open>A buffer of genuine shards\<close>

definition pf_flags :: "pending \<Rightarrow> bool \<times> bool \<times> bool \<times> bool" where
  "pf_flags p = (pf_keyframe p, pf_crisp p, pf_is_ltr p, pf_acked_anchored p)"

definition po_flags :: "packetize_options \<Rightarrow> bool \<times> bool \<times> bool \<times> bool" where
  "po_flags o' = (po_keyframe o', po_crisp o', po_is_ltr o', po_acked_anchored o')"

text \<open>The fixed part of a frame's buffer, and its contents.\<close>

definition shaped_for :: "rs_fec option \<Rightarrow> bytes \<times> packetize_options \<Rightarrow> pending \<Rightarrow> bool" where
  "shaped_for fec x p \<longleftrightarrow>
     pf_frag_count p = of_nat (length (frame_shards fec (fst x) (po_fec_tier (snd x)))) \<and>
     pf_group_size p = frame_group fec (po_fec_tier (snd x)) \<and> pf_m p = frame_m fec (po_fec_tier (snd x)) \<and>
     (if frame_group fec (po_fec_tier (snd x)) = None then pf_observed_data_count p = None
      else pf_pinned_data_count p = length (frame_payloads (fst x)))"

definition holds_shards :: "rs_fec option \<Rightarrow> bytes \<times> packetize_options \<Rightarrow> pending \<Rightarrow> bool" where
  "holds_shards fec x p \<longleftrightarrow>
     (\<forall>w b. pf_data p w = Some b \<longrightarrow> unat w < length (frame_payloads (fst x)) \<and> b = frame_payloads (fst x) ! unat w) \<and>
     (\<forall>s b. pf_parity p s = Some b \<longrightarrow>
       s < length (frame_parity fec (fst x) (po_fec_tier (snd x))) \<and> b = frame_parity fec (fst x) (po_fec_tier (snd x)) ! s)"

lemma tally_more_fields [simp]:
  "pf_keyframe (pf_tally gi add p) = pf_keyframe p" "pf_crisp (pf_tally gi add p) = pf_crisp p"
  "pf_is_ltr (pf_tally gi add p) = pf_is_ltr p" "pf_acked_anchored (pf_tally gi add p) = pf_acked_anchored p"
  by (simp_all add: pf_tally_def Let_def)

lemma arrival_fields [simp]:
  "pf_flags (note_data_arrived i p) = pf_flags p" "pf_flags (note_parity_arrived i p) = pf_flags p"
  "pf_data (note_data_arrived i p) = pf_data p" "pf_data (note_parity_arrived i p) = pf_data p"
  "pf_parity (note_data_arrived i p) = pf_parity p" "pf_parity (note_parity_arrived i p) = pf_parity p"
  "shaped_for fec x (note_data_arrived i p) = shaped_for fec x p" "shaped_for fec x (note_parity_arrived i p) = shaped_for fec x p"
  by (auto simp: note_data_arrived_def note_parity_arrived_def Let_def shaped_for_def split: option.split) (simp_all add: pf_flags_def)

lemma fresh_shape:
  assumes "tier_fits fec (po_fec_tier (snd x))" "frame_fits fec x"
  shows "shaped_for fec x (pending_new (of_nat (length (frame_shards fec (fst x) (po_fec_tier (snd x)))))
           (frame_group fec (po_fec_tier (snd x))) (frame_m fec (po_fec_tier (snd x))))"
proof -
  let ?n = "length (frame_shards fec (fst x) (po_fec_tier (snd x)))"
  have n: "unat (of_nat ?n :: u16) = ?n"
    using assms(2) by (intro unat_of_nat_16) (simp add: frame_fits_def max_fragments_per_frame_def)
  have mx: "max (frame_m fec (po_fec_tier (snd x))) 1 = frame_m fec (po_fec_tier (snd x))" by (rule max_absorb1 [OF frame_m_pos(1)])
  show ?thesis
  proof (cases "frame_group fec (po_fec_tier (snd x))")
    case None
    then show ?thesis using mx by (simp add: shaped_for_def pending_new_def pending_default_def Let_def)
  next
    case (Some g)
    have g: "1 \<le> g" by (rule frame_group_pos [OF assms(1) Some])
    have "?n = length (frame_payloads (fst x)) + frame_m fec (po_fec_tier (snd x)) * div_ceil (length (frame_payloads (fst x))) g"
      using frame_parity_facts(2) [OF assms(1)] Some by (simp add: frame_shards_def)
    then have "inverted_data_count ?n g (frame_m fec (po_fec_tier (snd x))) = Some (length (frame_payloads (fst x)))"
      using inverted_data_count_finds [OF _ frame_m_pos(1), of g] g by simp
    then show ?thesis using Some g n by (simp add: shaped_for_def pending_new_def pending_default_def Let_def mx [unfolded One_nat_def])
  qed
qed

lemma entry_for_sent:
  assumes "fr_fec r = fec" "tier_fits fec (po_fec_tier (snd x))" "frame_fits fec x" "map_of (fr_pending r) i = None"
  shows "entry_for (sent_fragment fec (fst x) (snd x) seq i j) r =
    pending_new (of_nat (length (frame_shards fec (fst x) (po_fec_tier (snd x))))) (frame_group fec (po_fec_tier (snd x)))
      (frame_m fec (po_fec_tier (snd x)))"
proof -
  have m: "pending_new n g (max k (Suc 0)) = pending_new n g k" for n g k by (simp add: pending_new_def)
  have "po_fec_tier (snd x) < 8" using assms(2) by (simp add: tier_fits_def)
  then show ?thesis
    using assms(1,4)
    by (simp add: entry_for_def sent_fragment_def fragment_at_def Let_def fragment_flags_tier frame_group_def frame_m_def m)
qed

lemma pending_new_empty [simp]: "pf_data (pending_new n g k) = Map.empty" "pf_parity (pending_new n g k) = Map.empty"
  "pf_flags (pending_new n g k) = (False, False, False, False)"
  by (simp_all add: pending_new_def pending_default_def Let_def pf_flags_def split: option.split)

text \<open>Filing a genuine fragment keeps the buffer genuine and stamps the frame's flags.\<close>

lemma file_sent:
  fixes seq i :: u32
  assumes "tier_fits fec (po_fec_tier (snd x))" "frame_fits fec x" "j < length (frame_shards fec (fst x) (po_fec_tier (snd x)))"
    and "shaped_for fec x p" "holds_shards fec x p" "pf_flags p = (False, False, False, False) \<or> pf_flags p = po_flags (snd x)"
  defines "f \<equiv> sent_fragment fec (fst x) (snd x) seq i j"
  shows "shaped_for fec x (file_fragment f p)" "holds_shards fec x (file_fragment f p)" "pf_flags (file_fragment f p) = po_flags (snd x)"
    and "dom (pf_data (file_fragment f p)) = dom (pf_data p) \<union> (if j < length (frame_payloads (fst x)) then {of_nat j} else {})"
    and "dom (pf_parity (file_fragment f p)) = dom (pf_parity p) \<union> (if j < length (frame_payloads (fst x)) then {} else {j - length (frame_payloads (fst x))})"
proof -
  let ?h = "ff_header f" let ?ps = "frame_payloads (fst x)" let ?qs = "frame_parity fec (fst x) (po_fec_tier (snd x))"
  define q where "q = with_flags (pf_keyframe p \<or> po_keyframe (snd x)) (pf_crisp p \<or> po_crisp (snd x)) (pf_is_ltr p \<or> po_is_ltr (snd x))
           (pf_acked_anchored p \<or> po_acked_anchored (snd x)) p"
  have fl: "flags_contains (fh_flags ?h) flag_parity = (length ?ps \<le> j)" "flags_contains (fh_flags ?h) flag_keyframe = po_keyframe (snd x)"
    "flags_contains (fh_flags ?h) flag_crisp = po_crisp (snd x)" "flags_contains (fh_flags ?h) flag_is_ltr = po_is_ltr (snd x)"
    "flags_contains (fh_flags ?h) flag_acked_anchored = po_acked_anchored (snd x)"
    by (simp_all add: f_def sent_fragment_def fragment_at_def Let_def fragment_flags_kept)
  have small: "j < 65536" using assms(2,3) by (simp add: frame_fits_def max_fragments_per_frame_def)
  have idx: "fh_frag_index ?h = of_nat j" "unat (of_nat j :: u16) = j" "ff_payload f = (?ps @ ?qs) ! j"
    using small by (simp_all add: f_def sent_fragment_def fragment_at_def Let_def frame_shards_def unat_of_nat_16)
  have qf: "pf_flags q = po_flags (snd x)"
    using assms(6) by (auto simp: q_def with_flags_def pf_flags_def po_flags_def)
  have q: "shaped_for fec x q" "pf_data q = pf_data p" "pf_parity q = pf_parity p"
    using assms(4) by (simp_all add: q_def with_flags_def shaped_for_def)
  have "shaped_for fec x (file_fragment f p) \<and> holds_shards fec x (file_fragment f p) \<and> pf_flags (file_fragment f p) = po_flags (snd x) \<and>
      dom (pf_data (file_fragment f p)) = dom (pf_data p) \<union> (if j < length ?ps then {of_nat j} else {}) \<and>
      dom (pf_parity (file_fragment f p)) = dom (pf_parity p) \<union> (if j < length ?ps then {} else {j - length ?ps})"
  proof (cases rule: file_fragment_cases [of f p])
    case (parity u slot)
    have j: "length ?ps \<le> j" using parity(1) fl by simp
    then have "?qs \<noteq> []" using assms(3) by (auto simp: frame_shards_def)
    then obtain g where g: "frame_group fec (po_fec_tier (snd x)) = Some g"
      using frame_parity_facts(2) [OF assms(1), of "fst x"] by (cases "frame_group fec (po_fec_tier (snd x))") auto
    have u: "u = note_observed_parity_boundary j q" using parity(2) by (simp add: fl idx q_def)
    have sl: "slot = j - length ?ps" using parity(3) assms(4) g by (simp add: idx shaped_for_def)
    have us: "shaped_for fec x (u\<lparr>pf_parity := y\<rparr>)" "pf_data u = pf_data p" "pf_parity u = pf_parity p" "pf_flags (u\<lparr>pf_parity := y\<rparr>) = po_flags (snd x)" for y
      using q qf g by (simp_all add: u note_observed_parity_boundary_def Let_def shaped_for_def pf_flags_def)
    have y: "slot < length ?qs" "(?ps @ ?qs) ! j = ?qs ! slot" using assms(3) j by (auto simp: sl frame_shards_def nth_append)
    have "file_fragment f p = note_parity_arrived slot (u\<lparr>pf_parity := (pf_parity p)(slot \<mapsto> ?qs ! slot)\<rparr>) \<or>
        file_fragment f p = u\<lparr>pf_parity := (pf_parity p)(slot \<mapsto> ?qs ! slot)\<rparr>"
      using parity(4) us(3) idx(3) y(2) by (auto simp: Let_def)
    then show ?thesis using us assms(5) y(1) j by (auto simp: holds_shards_def sl split: if_splits)
  next
    case (data u)
    have j: "j < length ?ps" using data(1) fl by simp
    have u: "u = q" using data(2) by (simp add: fl q_def)
    have y: "(?ps @ ?qs) ! j = ?ps ! j" using j by (simp add: nth_append)
    have us: "shaped_for fec x (q\<lparr>pf_data := y\<rparr>)" "pf_flags (q\<lparr>pf_data := y\<rparr>) = po_flags (snd x)" for y
      using q(1) qf by (simp_all add: shaped_for_def pf_flags_def)
    have "file_fragment f p = note_data_arrived j (q\<lparr>pf_data := (pf_data p)(of_nat j \<mapsto> ?ps ! j)\<rparr>) \<or>
        file_fragment f p = q\<lparr>pf_data := (pf_data p)(of_nat j \<mapsto> ?ps ! j)\<rparr>"
      using data(3) q(2) idx y by (auto simp: Let_def u)
    then show ?thesis using us q assms(5) j idx(2) by (auto simp: holds_shards_def split: if_splits)
  qed
  then show "shaped_for fec x (file_fragment f p)" "holds_shards fec x (file_fragment f p)" "pf_flags (file_fragment f p) = po_flags (snd x)"
    "dom (pf_data (file_fragment f p)) = dom (pf_data p) \<union> (if j < length ?ps then {of_nat j} else {})"
    "dom (pf_parity (file_fragment f p)) = dom (pf_parity p) \<union> (if j < length ?ps then {} else {j - length ?ps})"
    by blast+
qed


section \<open>A genuine buffer that suffices is assembled exactly\<close>

lemma shaped_counts:
  assumes "shaped_for fec x p" "frame_fits fec x" "tier_fits fec (po_fec_tier (snd x))"
  shows "resolved_data_count p = length (frame_payloads (fst x))"
    and "unat (pf_frag_count p) = length (frame_shards fec (fst x) (po_fec_tier (snd x)))"
proof -
  show n: "unat (pf_frag_count p) = length (frame_shards fec (fst x) (po_fec_tier (snd x)))"
    using assms(1,2) by (simp add: shaped_for_def frame_fits_def max_fragments_per_frame_def unat_of_nat_16)
  show "resolved_data_count p = length (frame_payloads (fst x))"
  proof (cases "frame_group fec (po_fec_tier (snd x))")
    case None
    then show ?thesis
      using assms(1) n frame_parity_facts(2) [OF assms(3), of "fst x"]
      by (simp add: shaped_for_def resolved_data_count_def observed_boundary_def frame_shards_def)
  next
    case (Some g)
    then show ?thesis using assms(1) by (simp add: shaped_for_def resolved_data_count_def)
  qed
qed

text \<open>How much of a group is missing and how much parity of it is there, in terms of the recovery.\<close>

lemma group_missing_holes:
  assumes "pf_pinned_data_count p = n" "n \<le> 65536"
  shows "group_missing p g gi =
    length (holes_in (map (\<lambda>i. if i < 65536 then pf_data p (of_nat i) else None) [0..<n]) (gi * g) (min (gi * g + g) n))"
proof -
  let ?d = "map (\<lambda>i. if i < 65536 then pf_data p (of_nat i) else None) [0..<n]"
  have "filter (\<lambda>i. i < length ?d \<and> ?d ! i = None) [gi * g..<min (gi * g + g) n] =
      filter (\<lambda>i. pf_data p (of_nat i) = None) [gi * g..<min (gi * g + g) n]"
    using assms(2) by (intro filter_cong) auto
  then show ?thesis by (simp add: group_missing_def holes_in_def assms(1))
qed

lemma group_surviving_held:
  assumes "\<And>s. pf_parity p s \<noteq> None \<Longrightarrow> s < slots"
  shows "group_surviving p gi = length (parity_held (pf_m p) (map (pf_parity p) [0..<slots]) (gi * pf_m p))"
proof -
  have beyond: "\<not> s < slots \<Longrightarrow> pf_parity p s = None" for s using assms [of s] by blast
  have "filter (\<lambda>rank. opt_nth (map (pf_parity p) [0..<slots]) (gi * pf_m p + rank) \<noteq> None) [0..<pf_m p] =
      filter (\<lambda>rank. pf_parity p (gi * pf_m p + rank) \<noteq> None) [0..<pf_m p]"
    using beyond by (intro filter_cong) (auto simp: opt_nth_def)
  then show ?thesis by (simp add: group_surviving_def parity_held_def)
qed

lemma assemble_genuine:
  assumes "tier_fits fec (po_fec_tier (snd x))" "frame_fits fec x" "shaped_for fec x p" "holds_shards fec x p" "complete_by_count p"
  shows "\<exists>via. assemble fec p = Some (Some (fst x, via))"
proof -
  define ps where "ps = frame_payloads (fst x)"
  define qs where "qs = frame_parity fec (fst x) (po_fec_tier (snd x))"
  define n where "n = length ps"
  define present where "present = map (\<lambda>i. if i < 65536 then pf_data p (of_nat i) else None) [0..<n]"
  note C = shaped_counts [OF assms(3,2,1)]
  have n: "0 < n" "n \<le> 8192" "resolved_data_count p = n" "unat (pf_frag_count p) = n + length qs"
  proof -
    have len: "length (frame_shards fec (fst x) (po_fec_tier (snd x))) = n + length qs"
      by (simp add: frame_shards_def n_def ps_def qs_def)
    show "0 < n" using frame_payloads_facts(2) [of "fst x"] by (simp add: n_def ps_def)
    show "n \<le> 8192" using assms(2) unfolding frame_fits_def len max_fragments_per_frame_def by simp
    show "resolved_data_count p = n" using C(1) by (simp add: n_def ps_def)
    show "unat (pf_frag_count p) = n + length qs" using C(2) by (simp only: len)
  qed
  have frame: "concat ps = fst x" by (simp add: ps_def frame_payloads_facts)
  have held: "pf_data p w = Some b \<Longrightarrow> unat w < n \<and> b = ps ! unat w" "pf_parity p s = Some c \<Longrightarrow> s < length qs \<and> c = qs ! s" for w b s c
    using assms(4) by (auto simp: holds_shards_def n_def ps_def qs_def)
  have un: "i < n \<Longrightarrow> unat (of_nat i :: u16) = i" for i using n by (intro unat_of_nat_16) simp
  have mask: "masks present ps"
    unfolding masks_def
  proof (intro conjI allI impI)
    show "length present = length ps" by (simp add: present_def n_def)
    fix i assume "i < length ps"
    then have i: "i < n" "present ! i = pf_data p (of_nat i)" using n(2) by (simp_all add: present_def n_def)
    then show "present ! i = None \<or> present ! i = Some (ps ! i)"
      using held(1) [of "of_nat i"] un [OF i(1)] by (cases "pf_data p (of_nat i)") auto
  qed
  have all: "assemble fec p = Some (Some (fst x, False))" if "None \<notin> set present"
  proof -
    have "map the present = ps"
    proof (rule nth_equalityI)
      fix i assume i: "i < length (map the present)"
      then have p: "i < length present" "present ! i \<noteq> None" using that by (simp, metis length_map nth_mem)
      have "i < length ps" using p(1) by (simp add: present_def n_def)
      from masksD [OF mask this p(2)] show "map the present ! i = ps ! i" using p(1) by simp
    qed (simp add: present_def n_def)
    then show ?thesis using that n frame by (simp add: assemble_def Let_def present_def [symmetric])
  qed
  show ?thesis
  proof (cases "None \<in> set present")
    case hole: True
    show ?thesis
    proof (cases "frame_group fec (po_fec_tier (snd x))")
      case None
      then have "\<forall>i<n. pf_data p (of_nat i) \<noteq> None" using assms(3,5) n by (simp add: complete_by_count_def shaped_for_def)
      then show ?thesis using hole n(2) by (auto simp: present_def split: if_splits)
    next
      case (Some g)
      then obtain s where s: "fec = Some s" by (auto simp: frame_group_def split: option.splits)
      define m where "m = frame_m fec (po_fec_tier (snd x))"
      have sh: "pf_group_size p = Some g" "pf_m p = m" "pf_pinned_data_count p = n"
        using assms(3) Some by (simp_all add: shaped_for_def m_def n_def ps_def)
      have g: "0 < g" using frame_group_pos [OF assms(1) Some] by simp
      have e: "effective_group_size s g m = g" using effective_group [OF assms(1) Some] by (simp add: s m_def)
      define par where "par = map (pf_parity p) [0..<length qs]"
      have "pf_parity p i = None \<or> pf_parity p i = Some (qs ! i)" for i using held(2) [of i] by (cases "pf_parity p i") auto
      then have pm: "masks par qs" by (simp add: masks_def par_def)
      have shards: "parity_m s ps g m = Some qs"
        using frame_parity_facts(1) [OF assms(1), of "fst x"] Some by (simp add: parity_payloads_eq s ps_def qs_def m_def)
      have ok: "1 \<le> fec_group_size s" "1 \<le> m" "m = 1 \<or> fec_group_size s + m \<le> 256"
        using assms(1) frame_m_pos(1) [of fec] by (auto simp: tier_fits_def s m_def)
      have short: "\<forall>d\<in>set ps. length d < 2 ^ 32"
        using frame_payloads_facts(3) [of _ "fst x"] by (fastforce simp: ps_def max_payload_size_def max_datagram_size_def header_size_def)
      have rep: "repairable g m present par gi" if "gi < div_ceil n g" for gi
      proof -
        have "group_missing p g gi \<le> group_surviving p gi"
          using assms(5) n that by (simp add: complete_by_count_def sh)
        moreover have "group_missing p g gi = length (holes_in present (gi * g) (min (gi * g + g) n))"
          unfolding present_def by (rule group_missing_holes [OF sh(3)]) (use n in simp)
        moreover have "group_surviving p gi = length (parity_held m par (gi * m))"
          using group_surviving_held [of p "length qs" gi] held(2) by (auto simp: par_def sh)
        ultimately show ?thesis by (simp add: repairable_def) (simp add: present_def)
      qed
      have "i div g < div_ceil n g" if "i < n" for i
        using that g by (simp add: div_ceil_less order.strict_trans1 [OF div_times_less_eq_dividend])
      then have "recover_m s present par g m = Some (map (\<lambda>i. Some (ps ! i)) [0..<n])"
        unfolding recover_m_exact [OF ok short shards mask pm] e using rep by (auto simp: n_def)
      moreover have "map (\<lambda>i. Some (ps ! i)) [0..<n] = map Some ps" by (rule nth_equalityI) (simp_all add: n_def)
      ultimately have "recover_with_m s present par g m = Some (map Some ps)" using ok(2) by (simp add: recover_with_m_def max_absorb1)
      then have "assemble fec p = Some (Some (concat ps, True))"
        using hole n sh by (simp add: assemble_def Let_def present_def [symmetric] par_def [symmetric] s comp_def)
      then show ?thesis using frame by (intro exI [of _ True]) simp
    qed
  qed (use all in blast)
qed


section \<open>The client, fed with what the host sent\<close>

definition genuine_buffer :: "(bytes \<times> packetize_options) list \<Rightarrow> rs_fec option \<Rightarrow> u32 \<Rightarrow> pending \<Rightarrow> bool" where
  "genuine_buffer xs fec i p \<longleftrightarrow>
     (\<exists>k<length xs. i = of_nat k \<and> frame_fits fec (xs ! k) \<and> shaped_for fec (xs ! k) p \<and> holds_shards fec (xs ! k) p \<and>
        pf_flags p = po_flags (snd (xs ! k)) \<and> tally_ok p)"

definition genuine :: "(bytes \<times> packetize_options) list \<Rightarrow> rs_fec option \<Rightarrow> reassembler \<Rightarrow> bool" where
  "genuine xs fec r \<longleftrightarrow> fr_fec r = fec \<and> buffers (\<lambda>r. genuine_buffer xs (fr_fec r)) r"

lemma ingest_total:
  assumes "bt_sorted (fr_pending r)"
    and "can_eventually_complete (file_fragment f (entry_for f r)) \<Longrightarrow> assemble (fr_fec r) (file_fragment f (entry_for f r)) \<noteq> None"
  shows "ingest f r \<noteq> None"
proof -
  let ?i = "fh_frame_id (ff_header f)"
  obtain proceed a where a: "advance_frontier ?i r = (proceed, a)" by force
  note A = advance_frontier_fields [OF a]
  have e: "entry_for f a = entry_for f r" by (rule entry_for_cong [OF A(1,2)])
  have "try_complete ?i (a\<lparr>fr_pending := bt_insert ?i (file_fragment f (entry_for f r)) (bt_insert ?i (entry_for f r) (fr_pending a))\<rparr>) \<noteq> None"
    using assms by (auto simp: try_complete_def A bt_insert_twice bt_insert_lookup split: option.split)
  then show ?thesis by (auto simp: ingest_def Let_def a e split: bool.split option.splits reassembly_result.splits)
qed

lemma of_nat_32_inj:
  assumes "k < 2 ^ 32" "k' < 2 ^ 32"
  shows "(of_nat k :: u32) = of_nat k' \<longleftrightarrow> k = k'"
proof -
  have "unat (of_nat i :: u32) = i" if "i < 2 ^ 32" for i using that by (simp add: unsigned_of_nat take_bit_eq_mod)
  then show ?thesis using assms by metis
qed

text \<open>A genuine fragment arrives: its buffer, before the completion is tried, is genuine.\<close>

lemma genuine_filed:
  fixes seq :: u32
  assumes "genuine xs fec r" "k < length xs" "length xs < 2 ^ 32" "frame_fits fec (xs ! k)" "tier_fits fec (po_fec_tier (snd (xs ! k)))"
    and j: "j < length (frame_shards fec (fst (xs ! k)) (po_fec_tier (snd (xs ! k))))"
  defines "f \<equiv> sent_fragment fec (fst (xs ! k)) (snd (xs ! k)) seq (of_nat k) j"
  shows "shaped_for fec (xs ! k) (file_fragment f (entry_for f r))" "holds_shards fec (xs ! k) (file_fragment f (entry_for f r))"
    "pf_flags (file_fragment f (entry_for f r)) = po_flags (snd (xs ! k))" "tally_ok (file_fragment f (entry_for f r))"
    "\<not> implausible f" "fh_frag_count (ff_header f) = pf_frag_count (entry_for f r)"
    "dom (pf_data (file_fragment f (entry_for f r))) = dom (pf_data (entry_for f r)) \<union> (if j < length (frame_payloads (fst (xs ! k))) then {of_nat j} else {})"
    "dom (pf_parity (file_fragment f (entry_for f r))) = dom (pf_parity (entry_for f r)) \<union>
       (if j < length (frame_payloads (fst (xs ! k))) then {} else {j - length (frame_payloads (fst (xs ! k)))})"
proof -
  let ?x = "xs ! k" let ?n = "length (frame_shards fec (fst (xs ! k)) (po_fec_tier (snd (xs ! k))))"
  let ?e = "entry_for f r"
  have fec: "fr_fec r = fec" and B: "buffers (\<lambda>r. genuine_buffer xs (fr_fec r)) r" using assms(1) by (simp_all add: genuine_def)
  have i: "fh_frame_id (ff_header f) = of_nat k" by (simp add: f_def sent_fragment_def fragment_at_def Let_def)
  have e: "shaped_for fec ?x ?e \<and> holds_shards fec ?x ?e \<and> (pf_flags ?e = (False, False, False, False) \<or> pf_flags ?e = po_flags (snd ?x)) \<and> tally_ok ?e"
  proof (cases "map_of (fr_pending r) (of_nat k)")
    case None
    have "?e = pending_new (of_nat ?n) (frame_group fec (po_fec_tier (snd ?x))) (frame_m fec (po_fec_tier (snd ?x)))"
      unfolding f_def by (rule entry_for_sent [OF fec assms(5,4) None])
    then show ?thesis using fresh_shape [OF assms(5,4)] by (simp add: pending_new_ok holds_shards_def)
  next
    case (Some p)
    then have p: "?e = p" by (simp add: entry_for_def i)
    have "genuine_buffer xs fec (of_nat k) p" using buffers_lookup [OF B Some] fec by simp
    then obtain k' where k': "k' < length xs" "(of_nat k :: u32) = of_nat k'" "shaped_for fec (xs ! k') p" "holds_shards fec (xs ! k') p"
      "pf_flags p = po_flags (snd (xs ! k'))" "tally_ok p" by (auto simp: genuine_buffer_def)
    then have "k' = k" using of_nat_32_inj [of k k'] assms(2,3) by simp
    then show ?thesis using k' by (simp add: p)
  qed
  note S = file_sent [OF assms(5,4) j, of ?e seq "of_nat k", folded f_def]
  show "shaped_for fec ?x (file_fragment f ?e)" "holds_shards fec ?x (file_fragment f ?e)" "pf_flags (file_fragment f ?e) = po_flags (snd ?x)"
    "dom (pf_data (file_fragment f (entry_for f r))) = dom (pf_data (entry_for f r)) \<union> (if j < length (frame_payloads (fst (xs ! k))) then {of_nat j} else {})"
    "dom (pf_parity (file_fragment f (entry_for f r))) = dom (pf_parity (entry_for f r)) \<union>
       (if j < length (frame_payloads (fst (xs ! k))) then {} else {j - length (frame_payloads (fst (xs ! k)))})"
    using S e by blast+
  have n: "?n \<le> 8192" "0 < ?n" using assms(4) frame_shards_ne by (simp_all add: frame_fits_def max_fragments_per_frame_def)
  have un: "unat (of_nat ?n :: u16) = ?n" "unat (of_nat j :: u16) = j" using n j by (simp_all add: unat_of_nat_16)
  have h: "fh_frag_count (ff_header f) = of_nat ?n" "fh_frag_index (ff_header f) = of_nat j"
    by (simp_all add: f_def sent_fragment_def fragment_at_def Let_def)
  show c: "fh_frag_count (ff_header f) = pf_frag_count ?e" using e h by (simp add: shaped_for_def)
  have less: "fh_frag_index (ff_header f) < fh_frag_count (ff_header f)" using j un by (simp add: h word_less_nat_alt)
  show "tally_ok (file_fragment f ?e)" using e less c by (intro file_fragment_ok) simp_all
  have "length (ff_payload f) \<le> max_datagram_size - header_size"
    using frame_shards_width [OF assms(5) nth_mem [OF j]] by (simp add: f_def sent_fragment_def fragment_at_def Let_def)
  moreover have "fh_frag_count (ff_header f) \<noteq> 0" using less by auto
  moreover have "unat (fh_frag_count (ff_header f)) \<le> max_fragments_per_frame" using n un by (simp add: h max_fragments_per_frame_def)
  ultimately show "\<not> implausible f" using less by (simp add: implausible_def)
qed

definition shows_frame :: "(bytes \<times> packetize_options) list \<Rightarrow> reassembled_frame \<Rightarrow> bool" where
  "shows_frame xs rf \<longleftrightarrow> (\<exists>k<length xs. rf_frame_id rf = of_nat k \<and> rf_avcc rf = fst (xs ! k) \<and>
     rf_keyframe rf = po_keyframe (snd (xs ! k)) \<and> rf_crisp rf = po_crisp (snd (xs ! k)) \<and>
     rf_is_ltr rf = po_is_ltr (snd (xs ! k)) \<and> rf_acked_anchored rf = po_acked_anchored (snd (xs ! k)))"

lemma ingest_genuine:
  assumes "genuine xs fec r" "k < length xs" "length xs < 2 ^ 32" "frame_fits fec (xs ! k)" "tier_fits fec (po_fec_tier (snd (xs ! k)))"
    and j: "j < length (frame_shards fec (fst (xs ! k)) (po_fec_tier (snd (xs ! k))))"
  obtains res r' where "ingest (sent_fragment fec (fst (xs ! k)) (snd (xs ! k)) seq (of_nat k) j) r = Some (res, r')" "genuine xs fec r'"
    "\<And>rf. res = Completed rf \<Longrightarrow> shows_frame xs rf"
proof -
  define f where "f = sent_fragment fec (fst (xs ! k)) (snd (xs ! k)) seq (of_nat k) j"
  note F = genuine_filed [OF assms, of seq, folded f_def]
  have fec: "fr_fec r = fec" and B: "buffers (\<lambda>r. genuine_buffer xs (fr_fec r)) r" using assms(1) by (simp_all add: genuine_def)
  have sorted: "bt_sorted (fr_pending r)" using B by (simp add: buffers_def)
  have i: "fh_frame_id (ff_header f) = of_nat k" by (simp add: f_def sent_fragment_def fragment_at_def Let_def)
  have exact: "\<exists>via. assemble fec (file_fragment f (entry_for f r)) = Some (Some (fst (xs ! k), via))"
    if "can_eventually_complete (file_fragment f (entry_for f r))"
    by (rule assemble_genuine [OF assms(5,4) F(1,2)]) (use that precheck_recounts [OF F(4)] in simp)
  obtain res r' where ok: "ingest f r = Some (res, r')"
    using ingest_total [OF sorted, of f] exact fec by (cases "ingest f r") fastforce+
  have gb: "genuine_buffer xs fec (of_nat k) (file_fragment f (entry_for f r))"
    using F assms(2,4) by (auto simp: genuine_buffer_def)
  then have "genuine xs fec r'"
    using ingest_buffers [where P = "genuine_buffer xs", OF ok B] fec i by (simp add: genuine_def)
  moreover have "shows_frame xs rf" if "res = Completed rf" for rf
    using ok sorted
  proof (cases rule: ingest_cases)
    case stale
    then show ?thesis using that by simp
  next
    case (complete q s avcc via)
    then show ?thesis
      using exact that F(3) assms(2) fec i
      by (auto simp: shows_frame_def pf_flags_def po_flags_def)
  next
    case (waits q s)
    then show ?thesis using that by auto
  qed
  ultimately show thesis using that ok f_def by blast
qed


lemma packetizer_new_fields [simp]: "pk_fec (packetizer_new fec) = fec" "pk_next_frame_id (packetizer_new fec) = 0"
  by (simp_all add: packetizer_new_def)

lemma client_run_genuine:
  assumes "\<forall>x\<in>set xs. tier_fits fec (po_fec_tier (snd x))" "length xs < 2 ^ 32"
    and sent: "send_frames xs (packetizer_new fec) = Some (dss, p)"
  shows "\<forall>d. Arrive d \<in> set acts \<longrightarrow> (\<exists>ds\<in>set dss. d \<in> set ds) \<Longrightarrow> genuine xs fec r \<Longrightarrow>
    \<exists>evs r'. client_run acts r = Some (evs, r') \<and> genuine xs fec r' \<and> (\<forall>rf. Result (Completed rf) \<in> set evs \<longrightarrow> shows_frame xs rf)"
proof (induction acts arbitrary: r)
  case (Cons act acts)
  have "\<exists>ev s. client_step act r = Some (ev, s) \<and> genuine xs fec s \<and> (\<forall>rf. ev = Result (Completed rf) \<longrightarrow> shows_frame xs rf)"
  proof (cases "\<exists>d. act = Arrive d")
    case True
    then obtain d where d: "act = Arrive d" by blast
    then obtain ds where "ds \<in> set dss" "d \<in> set ds" using Cons.prems(1) by auto
    then obtain k seq j where k: "k < length xs" "j < length (frame_shards fec (fst (xs ! k)) (po_fec_tier (snd (xs ! k))))"
      "frame_fits fec (xs ! k)" and dec: "fragment_decode d = Inr (sent_fragment fec (fst (xs ! k)) (snd (xs ! k)) seq (of_nat k) j)"
      using sent_datagram_decodes [of xs "packetizer_new fec" dss p ds d, unfolded packetizer_new_fields add_0, OF assms(1) sent] by blast
    have "tier_fits fec (po_fec_tier (snd (xs ! k)))" using assms(1) k by simp
    from ingest_genuine [OF Cons.prems(2) k(1) assms(2) k(3) this k(2), of seq]
    obtain res r' where "ingest (sent_fragment fec (fst (xs ! k)) (snd (xs ! k)) seq (of_nat k) j) r = Some (res, r')"
      "genuine xs fec r'" "\<And>rf. res = Completed rf \<Longrightarrow> shows_frame xs rf" by blast
    then show ?thesis using dec by (simp add: client_step_def d)
  next
    case False
    then obtain ev s where s: "client_step act r = Some (ev, s)" by (cases act) (auto simp: client_step_def split_def)
    then show ?thesis
    proof (cases rule: client_step_buffers)
      case quiet
      then show ?thesis using s Cons.prems(2) buffers_cong [of s r "genuine_buffer xs"] by (auto simp: genuine_def)
    qed (use False in blast)
  qed
  then obtain ev s where s: "client_step act r = Some (ev, s)" "genuine xs fec s" "\<forall>rf. ev = Result (Completed rf) \<longrightarrow> shows_frame xs rf" by blast
  from Cons.IH [OF _ s(2)] Cons.prems(1) obtain evs r' where
    "client_run acts s = Some (evs, r')" "genuine xs fec r'" "\<forall>rf. Result (Completed rf) \<in> set evs \<longrightarrow> shows_frame xs rf" by auto
  then show ?case using s by auto
qed simp

lemma genuine_new:
  assumes "fec = None \<or> fec = fec_new g m"
  shows "genuine xs fec (reassembler_new fec grace)"
  using assms by (auto simp: genuine_def buffers_def bt_sorted_def reassembler_new_def fec_new_def split: option.split if_splits)

text \<open>C2. Video frames arrive intact: the host packetizes any frames, with any options whose tier fits its codec;
  the network delivers any selection of the datagrams, in any order and any number of times, between any
  polls and settings of the client. Then no assertion of the code fails, and every frame the client
  completes is one of the frames sent, under its number, byte for byte and with its flags.\<close>

theorem video_frames_arrive_intact:
  assumes "fec = None \<or> fec = fec_new g m"
    and "\<forall>x\<in>set xs. tier_fits fec (po_fec_tier (snd x))" "length xs < 2 ^ 32"
    and "send_frames xs (packetizer_new fec) = Some (dss, p)"
    and "\<forall>d. Arrive d \<in> set acts \<longrightarrow> (\<exists>ds\<in>set dss. d \<in> set ds)"
  shows "\<exists>evs r. client_run acts (reassembler_new fec grace) = Some (evs, r) \<and>
    (\<forall>rf. Result (Completed rf) \<in> set evs \<longrightarrow>
      (\<exists>k<length xs. rf_frame_id rf = of_nat k \<and> rf_avcc rf = fst (xs ! k) \<and>
        rf_keyframe rf = po_keyframe (snd (xs ! k)) \<and> rf_crisp rf = po_crisp (snd (xs ! k)) \<and>
        rf_is_ltr rf = po_is_ltr (snd (xs ! k)) \<and> rf_acked_anchored rf = po_acked_anchored (snd (xs ! k))))"
  using client_run_genuine [OF assms(2-5) genuine_new [OF assms(1)]] unfolding shows_frame_def by blast

text \<open>The host never fails on a frame, and every datagram it sends, of data or parity, fits the size budget.\<close>

theorem datagrams_fit_the_budget:
  assumes "\<forall>x\<in>set xs. tier_fits fec (po_fec_tier (snd x))"
  shows "\<exists>dss p. send_frames xs (packetizer_new fec) = Some (dss, p) \<and> length dss = length xs \<and>
    (\<forall>ds\<in>set dss. \<forall>d\<in>set ds. length d \<le> max_datagram_size)"
proof -
  obtain dss p where S: "send_frames xs (packetizer_new fec) = Some (dss, p)" "length dss = length xs"
    using send_frames_facts [of xs "packetizer_new fec"] assms by auto
  have "length d \<le> max_datagram_size" if "ds \<in> set dss" "d \<in> set ds" for ds d
    using sent_datagram_decodes [OF _ S(1) that] assms by (metis packetizer_new_fields(1))
  then show ?thesis using S by blast
qed

text \<open>Two small frames, the second with its parity: what the witnesses run on.\<close>

definition demo_options :: packetize_options where
  "demo_options = \<lparr>po_keyframe = True, po_crisp = False, po_host_send_ts_millis = 9, po_fec_tier = 0, po_is_ltr = False,
    po_acked_anchored = False, po_interleave = True\<rparr>"

definition demo_data :: bytes where
  "demo_data = [0, 0, 0, 0, 0, 0, 0, 0, 0, 0, 0, 2, 1, 0, 0, 0, 9, 0, 3, 1, 2, 3]"

definition demo_parity :: bytes where
  "demo_parity = [0, 0, 0, 1, 0, 0, 0, 0, 0, 1, 0, 2, 3, 0, 0, 0, 9, 0, 7, 0, 0, 0, 3, 1, 2, 3]"

lemma demo_sent: "\<exists>p. send_frames [([1, 2, 3], demo_options)] (packetizer_new (fec_new 5 1)) = Some ([[demo_data, demo_parity]], p)"
proof -
  have "case send_frames [([1, 2, 3], demo_options)] (packetizer_new (fec_new 5 1)) of None \<Rightarrow> False | Some (dss, p) \<Rightarrow> dss = [[demo_data, demo_parity]]"
    by code_simp
  then show ?thesis by (auto split: option.splits)
qed

lemma demo_fits: "\<forall>x\<in>set [([1, 2, 3], demo_options)]. tier_fits (fec_new 5 1) (po_fec_tier (snd x))"
  by code_simp

lemma video_frames_arrive_intact_witness:
  "\<exists>evs r. client_run [Arrive demo_parity, Arrive demo_data, Arrive demo_parity] (reassembler_new (fec_new 5 1) 2) = Some (evs, r) \<and>
     (\<forall>rf. Result (Completed rf) \<in> set evs \<longrightarrow> rf_frame_id rf = 0 \<and> rf_avcc rf = [1, 2, 3])"
proof -
  obtain p where p: "send_frames [([1, 2, 3], demo_options)] (packetizer_new (fec_new 5 1)) = Some ([[demo_data, demo_parity]], p)"
    using demo_sent by blast
  have "\<forall>d. Arrive d \<in> set [Arrive demo_parity, Arrive demo_data, Arrive demo_parity] \<longrightarrow> (\<exists>ds\<in>set [[demo_data, demo_parity]]. d \<in> set ds)"
    by auto
  from video_frames_arrive_intact [OF disjI2 [OF refl] demo_fits _ p this, of 2] obtain evs r where
    r: "client_run [Arrive demo_parity, Arrive demo_data, Arrive demo_parity] (reassembler_new (fec_new 5 1) 2) = Some (evs, r)"
    and a: "\<forall>rf. Result (Completed rf) \<in> set evs \<longrightarrow>
      (\<exists>k<length [([1, 2, 3], demo_options)]. rf_frame_id rf = of_nat k \<and> rf_avcc rf = fst ([([1, 2, 3], demo_options)] ! k))"
    by (simp del: client_run.simps) blast
  have "\<forall>rf. Result (Completed rf) \<in> set evs \<longrightarrow> rf_frame_id rf = 0 \<and> rf_avcc rf = [1, 2, 3]" using a by simp
  then show ?thesis using r by blast
qed

lemma datagrams_fit_the_budget_witness:
  "\<exists>dss p. send_frames [([1, 2, 3], demo_options)] (packetizer_new (fec_new 5 1)) = Some (dss, p) \<and> length dss = 1 \<and>
     (\<forall>ds\<in>set dss. \<forall>d\<in>set ds. length d \<le> max_datagram_size)"
  using datagrams_fit_the_budget [OF demo_fits] by simp

end
