(* ===== verification/Reassembler_Once.thy ===== *)
theory Reassembler_Once
  imports Reassembler_Run
begin

text \<open>
  Each frame is resolved at most once: over any run whose frame numbers stay in the first half of their
  range, no frame is completed twice, reported lost twice, or completed and reported lost. What carries it
  is the memory of retired frames, which forgets only frames far behind the newest retired one.
\<close>

section \<open>Wrap-around distance in the first half\<close>

lemma distance_small:
  assumes "unat a < 2 ^ 31" "unat b < 2 ^ 31"
  shows "distance_wrapped a b = int (unat a) - int (unat b)"
proof -
  have s: "sint a = int (unat a)" "sint b = int (unat b)"
  proof -
    have "sint w = int (unat w)" if "unat w < 2 ^ 31" for w :: u32
    proof -
      have u: "uint w = int (unat w)" by simp
      have "signed_take_bit 31 (uint w) = uint w"
        by (rule signed_take_bit_int_eq_self) (use that in \<open>simp_all add: u del: unat_eq_nat_uint of_nat_unat nat_uint_eq\<close>)
      then show ?thesis by (simp add: sint_uint)
    qed
    then show "sint a = int (unat a)" "sint b = int (unat b)" using assms by blast+
  qed
  have "sint (a - b) = signed_take_bit 31 (sint a - sint b)" by (simp add: sint_word_diff)
  also have "\<dots> = sint a - sint b"
  proof -
    have "unat a < 2147483648" "unat b < 2147483648" using assms by simp_all
    then have "- 2147483648 \<le> sint a - sint b" "sint a - sint b < 2147483648" unfolding s by linarith+
    then show ?thesis by (intro signed_take_bit_int_eq_self) simp_all
  qed
  finally show ?thesis by (simp add: distance_wrapped_def s)
qed

section \<open>Retired for good\<close>

definition gone :: "u32 \<Rightarrow> reassembler \<Rightarrow> bool" where
  "gone i r \<longleftrightarrow> i \<in> fr_retired r \<or> (\<exists>h. fr_highest_retired r = Some h \<and> unat i < unat h)"

definition low :: "reassembler \<Rightarrow> bool" where
  "low r \<longleftrightarrow> (\<forall>i\<in>fr_retired r \<union> set_option (fr_highest_retired r) \<union> set (map fst (fr_pending r)). unat i < 2 ^ 31)"

lemma retire_gone:
  assumes "low r" "unat j < 2 ^ 31"
  shows "low (retire_frame j r)" "gone j (retire_frame j r)" "gone i r \<Longrightarrow> gone i (retire_frame j r)"
proof -
  define high where "high = (case fr_highest_retired r of None \<Rightarrow> j | Some h \<Rightarrow> if unat h < unat j then j else h)"
  have d: "0 < distance_wrapped j h \<longleftrightarrow> unat h < unat j" if "fr_highest_retired r = Some h" for h
  proof -
    have "distance_wrapped j h = int (unat j) - int (unat h)" using that assms by (intro distance_small) (simp_all add: low_def)
    then show ?thesis by linarith
  qed
  have H: "fr_highest_retired (retire_frame j r) = Some high"
    using d by (auto simp: retire_frame_def Let_def high_def split: option.split)
  have lh: "unat high < 2 ^ 31" "unat j \<le> unat high" "\<And>h. fr_highest_retired r = Some h \<Longrightarrow> unat h \<le> unat high"
    using assms by (auto simp: low_def high_def split: option.split)
  have R: "fr_retired (retire_frame j r) = insert j (fr_retired r) \<or>
      fr_retired (retire_frame j r) = Set.filter (\<lambda>i. distance_wrapped high i \<le> retired_keep_distance) (insert j (fr_retired r))"
    using H by (auto simp: retire_frame_def Let_def split: option.splits)
  show "low (retire_frame j r)" using R assms lh H by (auto simp: low_def bt_remove_def)
  have kept: "i \<in> fr_retired (retire_frame j r) \<or> unat i < unat high" if "i \<in> insert j (fr_retired r)" for i
  proof -
    have "unat i < 2 ^ 31" using that assms by (auto simp: low_def)
    then have "distance_wrapped high i = int (unat high) - int (unat i)" by (rule distance_small [OF lh(1)])
    then have "distance_wrapped high i \<le> retired_keep_distance \<or> unat i < unat high"
      unfolding retired_keep_distance_def by linarith
    then show ?thesis using R that by (elim disjE) simp_all
  qed
  show "gone j (retire_frame j r)" using kept H by (auto simp: gone_def)
  show "gone i (retire_frame j r)" if "gone i r"
    using that kept [of i] lh(3) H by (force simp: gone_def)
qed

lemma drop_fold_gone:
  "low r \<Longrightarrow> \<forall>j\<in>set hs. unat j < 2 ^ 31 \<Longrightarrow>
   low (fold (\<lambda>i r. (retire_frame i r)\<lparr>fr_dropped_queue := fr_dropped_queue r @ [i]\<rparr>) hs r) \<and>
   (\<forall>i. gone i r \<or> i \<in> set hs \<longrightarrow> gone i (fold (\<lambda>i r. (retire_frame i r)\<lparr>fr_dropped_queue := fr_dropped_queue r @ [i]\<rparr>) hs r))"
proof (induction hs arbitrary: r)
  case (Cons j hs)
  define u where "u = (retire_frame j r)\<lparr>fr_dropped_queue := fr_dropped_queue r @ [j]\<rparr>"
  have q: "low (x\<lparr>fr_dropped_queue := y\<rparr>) = low x" "gone i (x\<lparr>fr_dropped_queue := y\<rparr>) = gone i x" for x y i by (simp_all add: low_def gone_def)
  have "low u" "gone j u" "\<And>i. gone i r \<Longrightarrow> gone i u" unfolding u_def q using retire_gone [of r j] Cons.prems by auto
  then show ?case using Cons.IH [of u] Cons.prems by (auto simp: u_def)
qed simp

text \<open>The sweep's retirements are a fold of drops from a state with the same memory.\<close>

lemma sweep_as_fold:
  obtains s where "sweep_hopeless_frames r = fold (\<lambda>i r. (retire_frame i r)\<lparr>fr_dropped_queue := fr_dropped_queue r @ [i]\<rparr>) (sweep_order r) s"
    "fr_retired s = fr_retired r" "fr_highest_retired s = fr_highest_retired r" "fr_pending s = fr_pending r"
proof (cases "fr_highest_seen r")
  case None
  then show thesis by (intro that [of r]) (simp_all add: sweep_hopeless_frames_def sweep_order_def sweep_ids_def sort_by_def)
next
  case (Some frontier)
  have "\<exists>ns. sweep_hopeless_frames r = fold (\<lambda>i r. (retire_frame i r)\<lparr>fr_dropped_queue := fr_dropped_queue (retire_frame i r) @ [i]\<rparr>) (sweep_order r)
      (fold (\<lambda>(i, missing) r. r\<lparr>fr_nacked := insert i (fr_nacked r), fr_needs_retransmit := fr_needs_retransmit r @ [(i, missing)]\<rparr>) ns r)"
    unfolding sweep_hopeless_frames_def Some Let_def option.case hopeless_ids sweep_order_def sweep_ids_def by (rule exI, rule refl)
  then show thesis by (elim exE) (rule that, simp, simp_all add: fold_nack)
qed

lemma sweep_gone:
  assumes "low r"
  shows "low (sweep_hopeless_frames r)" "gone i r \<or> i \<in> set (sweep_order r) \<Longrightarrow> gone i (sweep_hopeless_frames r)"
proof -
  obtain s where s: "sweep_hopeless_frames r = fold (\<lambda>i r. (retire_frame i r)\<lparr>fr_dropped_queue := fr_dropped_queue r @ [i]\<rparr>) (sweep_order r) s"
    "fr_retired s = fr_retired r" "fr_highest_retired s = fr_highest_retired r" "fr_pending s = fr_pending r" by (rule sweep_as_fold)
  have "low s" using assms s by (simp add: low_def)
  moreover have "\<forall>j\<in>set (sweep_order r). unat j < 2 ^ 31"
    using assms by (auto simp: sweep_order_def sweep_ids_def low_def split: option.splits)
  ultimately show "low (sweep_hopeless_frames r)" "gone i r \<or> i \<in> set (sweep_order r) \<Longrightarrow> gone i (sweep_hopeless_frames r)"
    using drop_fold_gone [of s "sweep_order r"] s by (auto simp: gone_def)
qed


section \<open>What a run has resolved\<close>

fun resolved_by :: "client_event \<Rightarrow> u32 list" where
  "resolved_by (Result (Completed rf)) = [rf_frame_id rf]"
| "resolved_by (Result (Dropped i)) = [i]"
| "resolved_by (Lost (Some i)) = [i]"
| "resolved_by _ = []"

definition resolved :: "client_event list \<Rightarrow> u32 list" where
  "resolved evs = concat (map resolved_by evs)"

lemma resolved_simps [simp]: "resolved [] = []" "resolved (ev # evs) = resolved_by ev @ resolved evs"
  by (simp_all add: resolved_def)

text \<open>Every number ever resolved is gone for good and has no buffer; the queue of unreported losses is part
  of what is resolved.\<close>

definition settled :: "u32 multiset \<Rightarrow> reassembler \<Rightarrow> bool" where
  "settled R r \<longleftrightarrow> low r \<and> bt_sorted (fr_pending r) \<and> (\<forall>i. count R i + count (mset (fr_dropped_queue r)) i \<le> 1) \<and>
     (\<forall>i. i \<in># R + mset (fr_dropped_queue r) \<longrightarrow> gone i r \<and> i \<notin> fst ` set (fr_pending r))"

lemma distinct_sweep_order: "bt_sorted (fr_pending r) \<Longrightarrow> distinct (sweep_order r)"
proof -
  assume "bt_sorted (fr_pending r)"
  then have "distinct (map fst (fr_pending r))" by (rule bt_sorted_distinct)
  then have "distinct (sweep_ids r)" by (auto simp: sweep_ids_def distinct_map_filter split: option.split)
  then show ?thesis unfolding sweep_order_def by (metis mset_sort_by mset_eq_imp_distinct_iff)
qed

lemma set_sweep_order: "set (sweep_order r) = set (sweep_ids r)"
  by (simp add: sweep_order_def)

lemma sweep_ids_pending: "set (sweep_ids r) \<subseteq> fst ` set (fr_pending r)"
  by (auto simp: sweep_ids_def split: option.split)

lemma settled_sweep:
  assumes "settled R r"
  shows "settled R (sweep_hopeless_frames r)"
proof -
  have S: "low r" "bt_sorted (fr_pending r)" "\<And>i. count R i + count (mset (fr_dropped_queue r)) i \<le> 1"
    "\<And>i. i \<in># R + mset (fr_dropped_queue r) \<Longrightarrow> gone i r \<and> i \<notin> fst ` set (fr_pending r)"
    using assms by (auto simp: settled_def)
  have D: "distinct (sweep_order r)" by (rule distinct_sweep_order [OF S(2)])
  have out: "i \<in> set (sweep_order r) \<Longrightarrow> i \<in> fst ` set (fr_pending r)" for i
    using sweep_ids_pending by (auto simp: set_sweep_order)
  have one: "count R i + count (mset (fr_dropped_queue r @ sweep_order r)) i \<le> 1" for i
  proof (cases "i \<in> set (sweep_order r)")
    case True
    then have "i \<notin># R + mset (fr_dropped_queue r)" using out S(4) by blast
    then have "count R i = 0" "count (mset (fr_dropped_queue r)) i = 0" by (auto simp: count_eq_zero_iff)
    then show ?thesis using D True by (simp add: distinct_count_atmost_1)
  next
    case False
    then have "count (mset (sweep_order r)) i = 0" by (simp add: count_eq_zero_iff)
    then show ?thesis unfolding mset_append count_union using S(3) [of i] by linarith
  qed
  have "gone i (sweep_hopeless_frames r) \<and> i \<notin> fst ` set (fr_pending (sweep_hopeless_frames r))"
    if "i \<in># R + mset (fr_dropped_queue r @ sweep_order r)" for i
  proof (cases "i \<in> set (sweep_order r)")
    case True
    then show ?thesis using sweep_gone(2) [OF S(1), of i] by (auto simp: sweep_pending set_sweep_order)
  next
    case False
    then have "gone i r \<and> i \<notin> fst ` set (fr_pending r)" using that S(4) by auto
    then show ?thesis using sweep_gone(2) [OF S(1), of i] by (auto simp: sweep_pending)
  qed
  then show ?thesis using one sweep_gone(1) [OF S(1)] sweep_sorted [OF S(2)] by (simp add: settled_def sweep_dropped)
qed


lemma settled_cong:
  assumes "fr_pending r' = fr_pending r" "fr_retired r' = fr_retired r" "fr_highest_retired r' = fr_highest_retired r"
    and "R' + mset (fr_dropped_queue r') = R + mset (fr_dropped_queue r)"
  shows "settled R' r' = settled R r"
proof -
  have "count R' i + count (mset (fr_dropped_queue r')) i = count R i + count (mset (fr_dropped_queue r)) i" for i
    using arg_cong [OF assms(4), of "\<lambda>M. count M i"] by simp
  then show ?thesis using assms(1-3) unfolding settled_def assms(4) by (simp add: low_def gone_def)
qed

lemma settled_fresh:
  assumes "settled R r" "\<not> was_retired i r" "unat i < 2 ^ 31"
  shows "i \<notin># R + mset (fr_dropped_queue r)"
proof
  assume "i \<in># R + mset (fr_dropped_queue r)"
  then have G: "gone i r" "i \<notin> fst ` set (fr_pending r)" using assms(1) by (auto simp: settled_def)
  then obtain h where h: "fr_highest_retired r = Some h" "unat i < unat h" using assms(2) by (auto simp: gone_def was_retired_def)
  then have "distance_wrapped i h = int (unat i) - int (unat h)"
    using assms(1,3) by (intro distance_small) (auto simp: settled_def low_def)
  then have "distance_wrapped i h \<le> 0" using h by linarith
  moreover have "map_of (fr_pending r) i = None" using G(2) by (simp add: map_of_eq_None_iff)
  ultimately show False using assms(2) h by (simp add: was_retired_def)
qed

lemma settled_filed:
  assumes "settled R r" "\<not> was_retired i r" "unat i < 2 ^ 31"
    and "fr_pending s = bt_insert i q (fr_pending r)" "fr_retired s = fr_retired r" "fr_highest_retired s = fr_highest_retired r"
      "fr_dropped_queue s = fr_dropped_queue r"
  shows "settled R s"
  using assms settled_fresh [OF assms(1-3)]
  by (auto simp: settled_def low_def gone_def bt_insert_sorted bt_insert_set)

lemma settled_retired:
  assumes "settled R s" "i \<notin># R + mset (fr_dropped_queue s)" "unat i < 2 ^ 31"
  shows "settled (add_mset i R) (retire_frame i s)"
proof -
  have S: "low s" "bt_sorted (fr_pending s)" "\<And>j. count R j + count (mset (fr_dropped_queue s)) j \<le> 1"
    "\<And>j. j \<in># R + mset (fr_dropped_queue s) \<Longrightarrow> gone j s \<and> j \<notin> fst ` set (fr_pending s)"
    using assms(1) by (auto simp: settled_def)
  note G = retire_gone [OF S(1) assms(3)]
  have one: "count (add_mset i R) j + count (mset (fr_dropped_queue s)) j \<le> 1" for j
  proof (cases "j = i")
    case True
    have "count (R + mset (fr_dropped_queue s)) i = 0" using assms(2) by (simp only: count_eq_zero_iff not_False_eq_True)
    then show ?thesis using True by simp
  qed (use S(3) in simp)
  have "gone j (retire_frame i s) \<and> j \<notin> fst ` set (bt_remove i (fr_pending s))" if "j \<in># add_mset i R + mset (fr_dropped_queue s)" for j
  proof (cases "j = i")
    case True
    then show ?thesis using G(2) by (auto simp: bt_remove_def)
  next
    case False
    then have "gone j s \<and> j \<notin> fst ` set (fr_pending s)" using that S(4) by auto
    then show ?thesis using G(3) by (auto simp: bt_remove_def)
  qed
  then show ?thesis using one G(1) bt_remove_sorted [OF S(2)] by (simp add: settled_def)
qed

lemma ingest_settled:
  assumes "ingest f r = Some (res, r')" "settled R r" "unat (fh_frame_id (ff_header f)) < 2 ^ 31"
  shows "settled (mset (resolved_by (Result res)) + R) r'"
proof -
  let ?i = "fh_frame_id (ff_header f)"
  have sorted: "bt_sorted (fr_pending r)" using assms(2) by (simp add: settled_def)
  show ?thesis
    using assms(1) sorted
  proof (cases rule: ingest_cases)
    case stale
    then show ?thesis using assms(2) settled_cong [of r' r R R] by simp
  next
    case (complete q s avcc via)
    note S = settled_filed [OF assms(2) complete(14) assms(3) complete(7,12,13,9)]
    have "?i \<notin># R + mset (fr_dropped_queue s)" using settled_fresh [OF assms(2) complete(14) assms(3)] complete(9) by simp
    then have "settled (add_mset ?i R) r'" unfolding complete(10) by (intro settled_sweep settled_retired S assms(3))
    then show ?thesis by (simp add: complete(6))
  next
    case (waits q s)
    note S = settled_sweep [OF settled_filed [OF assms(2) waits(12) assms(3) waits(5,10,11,7)]]
    from waits(8) show ?thesis
    proof
      assume "res = Incomplete \<and> r' = sweep_hopeless_frames s"
      then show ?thesis using S by simp
    next
      assume d: "res = Dropped ?i \<and> ?i \<in> set (fr_dropped_queue (sweep_hopeless_frames s)) \<and>
        r' = (sweep_hopeless_frames s)\<lparr>fr_dropped_queue := filter (\<lambda>x. x \<noteq> ?i) (fr_dropped_queue (sweep_hopeless_frames s))\<rparr>"
      define Q where "Q = mset (fr_dropped_queue (sweep_hopeless_frames s))"
      have "count R ?i + count Q ?i \<le> 1" "?i \<in># Q" using S d by (simp_all add: settled_def Q_def)
      then have "count Q ?i = 1" by (metis add_leD2 count_greater_eq_one_iff le_antisym)
      then have "Q = add_mset ?i (filter_mset (\<lambda>x. x \<noteq> ?i) Q)" by (intro multiset_eqI) auto
      then have "mset (resolved_by (Result res)) + R + mset (fr_dropped_queue r') = R + mset (fr_dropped_queue (sweep_hopeless_frames s))"
        using d by (simp add: Q_def)
      then show ?thesis using S d settled_cong [of r' "sweep_hopeless_frames s" "mset (resolved_by (Result res)) + R" R] by simp
    qed
  qed
qed

lemma client_step_settled:
  assumes "client_step act r = Some (ev, r')" "settled R r"
    and "\<And>d f. act = Arrive d \<Longrightarrow> fragment_decode d = Inr f \<Longrightarrow> unat (fh_frame_id (ff_header f)) < 2 ^ 31"
  shows "settled (mset (resolved_by ev) + R) r'"
proof (cases act)
  case (Arrive d)
  then show ?thesis
    using assms ingest_settled by (auto simp: client_step_def split: sum.splits)
next
  case Poll_Dropped
  then show ?thesis
    using assms(1,2) settled_cong [of r' r "mset (resolved_by ev) + R" R]
    by (auto simp: client_step_def next_dropped_frame_def split: list.splits)
next
  case Poll_Nack
  then show ?thesis
    using assms(1,2) settled_cong [of r' r R R]
    by (auto simp: client_step_def next_needs_retransmit_def split: list.splits)
next
  case (Enable_Retransmit grace n)
  then show ?thesis
    using assms(1,2) settled_cong [of r' r R R] by (auto simp: client_step_def enable_retransmit_def)
qed

lemma client_run_settled:
  "client_run acts r = Some (evs, r') \<Longrightarrow> settled R r \<Longrightarrow>
   \<forall>d f. Arrive d \<in> set acts \<longrightarrow> fragment_decode d = Inr f \<longrightarrow> unat (fh_frame_id (ff_header f)) < 2 ^ 31 \<Longrightarrow>
   settled (mset (resolved evs) + R) r'"
proof (induction acts arbitrary: r evs R)
  case (Cons act acts)
  obtain ev s evs' where s: "client_step act r = Some (ev, s)" "client_run acts s = Some (evs', r')" "evs = ev # evs'"
    using Cons.prems(1) by (auto split: option.splits)
  have "settled (mset (resolved_by ev) + R) s"
    by (rule client_step_settled [OF s(1) Cons.prems(2)]) (use Cons.prems(3) in auto)
  then have "settled (mset (resolved evs') + (mset (resolved_by ev) + R)) r'"
    using Cons.IH [OF s(2)] Cons.prems(3) by auto
  then show ?case by (simp add: s(3) ac_simps)
qed simp

text \<open>C19. No frame is resolved twice: over any run of the reassembler, whatever the datagrams, their order and
  their duplicates, as long as the frame numbers stay in the first half of their range, the completed
  frames, the frames reported lost and the losses still queued are all different.\<close>

theorem frames_resolve_once:
  assumes "client_run acts (reassembler_new fec grace) = Some (evs, r)"
    and "\<forall>d f. Arrive d \<in> set acts \<longrightarrow> fragment_decode d = Inr f \<longrightarrow> unat (fh_frame_id (ff_header f)) < 2 ^ 31"
  shows "distinct (resolved evs @ fr_dropped_queue r)"
proof -
  have "settled {#} (reassembler_new fec grace)"
    by (simp add: settled_def low_def reassembler_new_def bt_sorted_def)
  from client_run_settled [OF assms(1) this assms(2)] have "count (mset (resolved evs @ fr_dropped_queue r)) i \<le> 1" for i
    by (simp add: settled_def)
  then show ?thesis by (auto simp: distinct_count_atmost_1 count_mset_0_iff le_Suc_eq intro: le_antisym)
qed

lemma frames_resolve_once_witness:
  "\<exists>evs r. client_run [Arrive (fragment_encode (fragment_at 0 0 0 1 0 0 [7])), Arrive (fragment_encode (fragment_at 1 1 0 2 0 0 [8])),
        Arrive (fragment_encode (fragment_at 2 2 0 1 0 0 [9])), Arrive (fragment_encode (fragment_at 1 1 0 2 0 0 [8])), Poll_Dropped]
      (reassembler_new None 2) = Some (evs, r) \<and> resolved evs = [0, 2, 1] \<and> distinct (resolved evs @ fr_dropped_queue r)"
proof -
  let ?acts = "[Arrive (fragment_encode (fragment_at 0 0 0 1 0 0 [7])), Arrive (fragment_encode (fragment_at 1 1 0 2 0 0 [8])),
        Arrive (fragment_encode (fragment_at 2 2 0 1 0 0 [9])), Arrive (fragment_encode (fragment_at 1 1 0 2 0 0 [8])), Poll_Dropped]"
  have "\<exists>evs r. client_run ?acts (reassembler_new None 2) = Some (evs, r) \<and> resolved evs = [0, 2, 1]" by (simp add: reassembler_eval)
  then obtain evs r where r: "client_run ?acts (reassembler_new None 2) = Some (evs, r)" "resolved evs = [0, 2, 1]" by blast
  have "\<forall>d f. Arrive d \<in> set ?acts \<longrightarrow> fragment_decode d = Inr f \<longrightarrow> unat (fh_frame_id (ff_header f)) < 2 ^ 31"
    by (auto simp: decode_fragment_at fragment_at_fields)
  from frames_resolve_once [OF r(1) this] r show ?thesis by blast
qed

end
