(* ===== verification/Video_Live.thy ===== *)
theory Video_Live
  imports Video_Delivery Reassembler_Once
begin

text \<open>
  Liveness of the video transport: when, after any traffic about older frames, enough fragments of the
  newest frame arrive for its code, in any order and with any duplicates, the client shows that frame. And
  the limit of it: a buffer whose precheck passes is never given up, even when its assembly fails.
\<close>

section \<open>Enough of a frame\<close>

text \<open>The fragments of frame \<open>x\<close> with indices in \<open>J\<close> suffice: no group misses more data fragments than it has
  parity shards.\<close>

definition enough :: "rs_fec option \<Rightarrow> bytes \<times> packetize_options \<Rightarrow> nat set \<Rightarrow> bool" where
  "enough fec x J \<longleftrightarrow>
     (let n = length (frame_payloads (fst x)); m = frame_m fec (po_fec_tier (snd x))
      in case frame_group fec (po_fec_tier (snd x)) of
           None \<Rightarrow> \<forall>j<n. j \<in> J
         | Some g \<Rightarrow> \<forall>gi<div_ceil n g. length (filter (\<lambda>j. j \<notin> J) [gi * g..<min (gi * g + g) n]) \<le>
             length (filter (\<lambda>rank. n + (gi * m + rank) \<in> J) [0..<m]))"

definition holds_exactly :: "bytes \<times> packetize_options \<Rightarrow> nat set \<Rightarrow> pending \<Rightarrow> bool" where
  "holds_exactly x J p \<longleftrightarrow>
     dom (pf_data p) = of_nat ` {j \<in> J. j < length (frame_payloads (fst x))} \<and>
     dom (pf_parity p) = {s. length (frame_payloads (fst x)) + s \<in> J}"

lemma enough_completes:
  assumes "shaped_for fec x p" "frame_fits fec x" "tier_fits fec (po_fec_tier (snd x))" "holds_exactly x J p" "enough fec x J"
  shows "complete_by_count p"
proof -
  define n where "n = length (frame_payloads (fst x))"
  have n: "0 < n" "n \<le> 8192" "resolved_data_count p = n"
  proof -
    show "0 < n" using frame_payloads_facts(2) [of "fst x"] by (simp add: n_def)
    show "n \<le> 8192" using assms(2) unfolding frame_fits_def frame_shards_def max_fragments_per_frame_def n_def by simp
    show "resolved_data_count p = n" using shaped_counts(1) [OF assms(1-3)] by (simp add: n_def)
  qed
  have here: "pf_data p (of_nat i) \<noteq> None \<longleftrightarrow> i \<in> J" if "i < n" for i
  proof -
    have eq: "(of_nat i :: u16) = of_nat j \<longleftrightarrow> i = j" if "j < n" for j
      using that \<open>i < n\<close> n(2) by (simp add: of_nat_16_eq unat_of_nat_16)
    have "pf_data p (of_nat i) \<noteq> None \<longleftrightarrow> of_nat i \<in> dom (pf_data p)" by (rule domIff [symmetric])
    also have "\<dots> \<longleftrightarrow> of_nat i \<in> (of_nat :: nat \<Rightarrow> u16) ` {j \<in> J. j < n}"
      using assms(4) by (simp only: holds_exactly_def n_def)
    finally have "pf_data p (of_nat i) \<noteq> None \<longleftrightarrow> of_nat i \<in> (of_nat :: nat \<Rightarrow> u16) ` {j \<in> J. j < n}" .
    then show ?thesis using that eq by auto
  qed
  have absent: "pf_data p (of_nat i) = None \<longleftrightarrow> i \<notin> J" if "i < n" for i using here [OF that] by blast
  have par: "pf_parity p s \<noteq> None \<longleftrightarrow> n + s \<in> J" for s
  proof -
    have "pf_parity p s \<noteq> None \<longleftrightarrow> s \<in> dom (pf_parity p)" by (rule domIff [symmetric])
    also have "\<dots> \<longleftrightarrow> n + s \<in> J" using assms(4) by (simp only: holds_exactly_def n_def mem_Collect_eq)
    finally show ?thesis .
  qed
  show ?thesis
  proof (cases "frame_group fec (po_fec_tier (snd x))")
    case None
    then have "pf_group_size p = None" "\<forall>i<n. pf_data p (of_nat i) \<noteq> None"
      using assms(1,5) here by (auto simp: shaped_for_def enough_def n_def Let_def)
    then show ?thesis using n by (simp add: complete_by_count_def)
  next
    case (Some g)
    then have sh: "pf_group_size p = Some g" "pf_m p = frame_m fec (po_fec_tier (snd x))" "pf_pinned_data_count p = n"
      using assms(1) by (simp_all add: shaped_for_def n_def)
    have "group_missing p g gi \<le> group_surviving p gi" if "gi < div_ceil n g" for gi
    proof -
      have "group_missing p g gi = length (filter (\<lambda>j. j \<notin> J) [gi * g..<min (gi * g + g) n])"
        unfolding group_missing_def sh using absent by (intro arg_cong [where f = length] filter_cong) auto
      moreover have "group_surviving p gi = length (filter (\<lambda>rank. n + (gi * pf_m p + rank) \<in> J) [0..<pf_m p])"
        unfolding group_surviving_def par ..
      ultimately show ?thesis using assms(5) Some that by (simp add: enough_def Let_def n_def sh)
    qed
    then show ?thesis using n sh by (simp add: complete_by_count_def)
  qed
qed

section \<open>Nothing newer than frame \<open>k\<close>\<close>

definition frame_ids :: "nat \<Rightarrow> u32 set" where
  "frame_ids k = of_nat ` {..<k}"

definition up_to :: "nat \<Rightarrow> nat \<Rightarrow> reassembler \<Rightarrow> bool" where
  "up_to k K r \<longleftrightarrow> fr_retired r \<subseteq> frame_ids k \<and> set_option (fr_highest_retired r) \<subseteq> frame_ids k \<and>
     fst ` set (fr_pending r) \<subseteq> frame_ids K \<and> set_option (fr_highest_seen r) \<subseteq> frame_ids K"

lemma up_to_fields:
  "up_to k K (r\<lparr>fr_dropped_queue := q\<rparr>) = up_to k K r" "up_to k K (r\<lparr>fr_needs_retransmit := ns\<rparr>) = up_to k K r"
  "up_to k K (r\<lparr>fr_retransmit_grace := a, fr_nack_max_frags := b\<rparr>) = up_to k K r"
  by (simp_all add: up_to_def)

lemma frame_ids_mono: "k \<le> K \<Longrightarrow> frame_ids k \<subseteq> frame_ids K"
  by (auto simp: frame_ids_def)

lemma retire_ids:
  "fr_retired (retire_frame j r) \<subseteq> insert j (fr_retired r)"
  "set_option (fr_highest_retired (retire_frame j r)) \<subseteq> insert j (set_option (fr_highest_retired r))"
  by (auto simp: retire_frame_def Let_def split: option.splits if_splits)

lemma drop_fold_ids:
  "fr_retired (fold (\<lambda>i r. (retire_frame i r)\<lparr>fr_dropped_queue := fr_dropped_queue r @ [i]\<rparr>) hs r) \<subseteq> set hs \<union> fr_retired r \<and>
   set_option (fr_highest_retired (fold (\<lambda>i r. (retire_frame i r)\<lparr>fr_dropped_queue := fr_dropped_queue r @ [i]\<rparr>) hs r)) \<subseteq>
     set hs \<union> set_option (fr_highest_retired r)"
proof (induction hs arbitrary: r)
  case (Cons j hs)
  define u where "u = (retire_frame j r)\<lparr>fr_dropped_queue := fr_dropped_queue r @ [j]\<rparr>"
  have "fr_retired u \<subseteq> insert j (fr_retired r)" "set_option (fr_highest_retired u) \<subseteq> insert j (set_option (fr_highest_retired r))"
    using retire_ids [of j r] by (simp_all add: u_def)
  moreover have "fold (\<lambda>i r. (retire_frame i r)\<lparr>fr_dropped_queue := fr_dropped_queue r @ [i]\<rparr>) (j # hs) r =
      fold (\<lambda>i r. (retire_frame i r)\<lparr>fr_dropped_queue := fr_dropped_queue r @ [i]\<rparr>) hs u" by (simp add: u_def)
  ultimately show ?case using Cons.IH [of u] by (simp only: list.set) blast
qed simp

lemma sweep_ids_facts:
  "fr_retired (sweep_hopeless_frames r) \<subseteq> set (sweep_ids r) \<union> fr_retired r"
  "set_option (fr_highest_retired (sweep_hopeless_frames r)) \<subseteq> set (sweep_ids r) \<union> set_option (fr_highest_retired r)"
proof -
  obtain s where s: "sweep_hopeless_frames r = fold (\<lambda>i r. (retire_frame i r)\<lparr>fr_dropped_queue := fr_dropped_queue r @ [i]\<rparr>) (sweep_order r) s"
    "fr_retired s = fr_retired r" "fr_highest_retired s = fr_highest_retired r" "fr_pending s = fr_pending r" by (rule sweep_as_fold)
  then show "fr_retired (sweep_hopeless_frames r) \<subseteq> set (sweep_ids r) \<union> fr_retired r"
    "set_option (fr_highest_retired (sweep_hopeless_frames r)) \<subseteq> set (sweep_ids r) \<union> set_option (fr_highest_retired r)"
    using drop_fold_ids [of "sweep_order r" s] by (simp_all add: set_sweep_order)
qed

text \<open>The sweep never touches the frame at the frontier.\<close>

lemma sweep_spares_frontier: "fr_highest_seen r = Some i \<Longrightarrow> i \<notin> set (sweep_ids r)"
  by (auto simp: sweep_ids_def sweep_verdict_of_def distance_wrapped_def)

lemma up_to_sweep:
  assumes "fr_retired r \<subseteq> frame_ids k" "set_option (fr_highest_retired r) \<subseteq> frame_ids k" "set (sweep_ids r) \<subseteq> frame_ids k"
    and "fst ` set (fr_pending r) \<subseteq> frame_ids K" "set_option (fr_highest_seen r) \<subseteq> frame_ids K"
  shows "up_to k K (sweep_hopeless_frames r)"
  using assms sweep_ids_facts [of r] unfolding up_to_def by (auto simp: sweep_pending)


lemma advance_frontier_ids:
  "set_option (fr_highest_seen (snd (advance_frontier i r))) \<subseteq> insert i (set_option (fr_highest_seen r))"
  using advance_frontier_fields(6) [of i r "fst (advance_frontier i r)" "snd (advance_frontier i r)"] by auto

lemma ingest_older:
  assumes "ingest f r = Some (res, r')" "bt_sorted (fr_pending r)" "up_to k k r" "fh_frame_id (ff_header f) \<in> frame_ids k"
  shows "up_to k k r'"
  using assms(1,2)
proof (cases rule: ingest_cases)
  case stale
  then show ?thesis using assms(3,4) by (auto simp: up_to_def)
next
  case (complete q s avcc via)
  have s: "fst ` set (fr_pending s) \<subseteq> frame_ids k" "set_option (fr_highest_seen s) \<subseteq> frame_ids k"
    "fr_retired s \<subseteq> frame_ids k" "set_option (fr_highest_retired s) \<subseteq> frame_ids k"
    using complete assms(2-4) advance_frontier_ids [of "fh_frame_id (ff_header f)" r] by (auto simp: up_to_def bt_insert_set)
  let ?t = "retire_frame (fh_frame_id (ff_header f)) s"
  have keys: "fst ` set (fr_pending ?t) \<subseteq> frame_ids k" using s(1) by (auto simp: bt_remove_def)
  moreover have "fr_retired ?t \<subseteq> frame_ids k" "set_option (fr_highest_retired ?t) \<subseteq> frame_ids k"
    using retire_ids [of "fh_frame_id (ff_header f)" s] s(3,4) assms(4) by blast+
  moreover have "set (sweep_ids ?t) \<subseteq> frame_ids k" using sweep_ids_pending [of ?t] keys by blast
  ultimately show ?thesis unfolding complete(10) using s(2) by (intro up_to_sweep) simp_all
next
  case (waits q s)
  have s: "fst ` set (fr_pending s) \<subseteq> frame_ids k" "set_option (fr_highest_seen s) \<subseteq> frame_ids k"
    "fr_retired s \<subseteq> frame_ids k" "set_option (fr_highest_retired s) \<subseteq> frame_ids k"
    using waits assms(2-4) advance_frontier_ids [of "fh_frame_id (ff_header f)" r] by (auto simp: up_to_def bt_insert_set)
  have "set (sweep_ids s) \<subseteq> frame_ids k" using sweep_ids_pending [of s] s(1) by blast
  then have "up_to k k (sweep_hopeless_frames s)" using s by (intro up_to_sweep) simp_all
  then show ?thesis using waits(8) unfolding up_to_def by (elim disjE conjE) simp_all
qed

section \<open>Fragments of the newest frame\<close>

lemma frame_distance:
  assumes "k < 2 ^ 31" "h \<in> frame_ids (Suc k)"
  shows "0 \<le> distance_wrapped (of_nat k) h" "distance_wrapped (of_nat k) h = 0 \<longleftrightarrow> h = of_nat k" "h \<in> frame_ids k \<longleftrightarrow> h \<noteq> of_nat k"
proof -
  obtain j where j: "j \<le> k" "h = of_nat j" using assms(2) by (auto simp: frame_ids_def less_Suc_eq_le)
  have u: "unat (of_nat i :: u32) = i" if "i < 2 ^ 31" for i using that by (simp add: unsigned_of_nat take_bit_eq_mod)
  have uj: "unat h = j" "unat (of_nat k :: u32) = k" using u j assms(1) by simp_all
  have "distance_wrapped (of_nat k) h = int (unat (of_nat k :: u32)) - int (unat h)"
    by (rule distance_small) (use uj j assms(1) in simp_all)
  then have "distance_wrapped (of_nat k) h = int k - int j" unfolding uj .
  moreover have "h = of_nat k \<longleftrightarrow> j = k" using uj by auto
  moreover have "h \<in> frame_ids k \<longleftrightarrow> j < k"
  proof
    assume "h \<in> frame_ids k"
    then obtain i where "i < k" "h = of_nat i" by (auto simp: frame_ids_def)
    then show "j < k" using u [of i] uj assms(1) by simp
  qed (auto simp: frame_ids_def j(2))
  ultimately show "0 \<le> distance_wrapped (of_nat k) h" "distance_wrapped (of_nat k) h = 0 \<longleftrightarrow> h = of_nat k" "h \<in> frame_ids k \<longleftrightarrow> h \<noteq> of_nat k"
    using j(1) by auto
qed

definition near :: "nat \<Rightarrow> reassembler \<Rightarrow> bool" where
  "near k r \<longleftrightarrow> (\<forall>h. fr_highest_seen r = Some h \<longrightarrow> distance_wrapped (of_nat k) h \<le> max_frontier_jump)"

lemma advance_to_newest:
  assumes "k < 2 ^ 31" "set_option (fr_highest_seen r) \<subseteq> frame_ids (Suc k)" "near k r"
  shows "fst (advance_frontier (of_nat k) r)" "fr_highest_seen (snd (advance_frontier (of_nat k) r)) = Some (of_nat k)"
proof -
  have "fst (advance_frontier (of_nat k) r) \<and> fr_highest_seen (snd (advance_frontier (of_nat k) r)) = Some (of_nat k)"
  proof (cases "fr_highest_seen r")
    case None
    then show ?thesis by (simp add: advance_frontier_def)
  next
    case (Some h)
    then have h: "h \<in> frame_ids (Suc k)" "\<not> max_frontier_jump < distance_wrapped (of_nat k) h" using assms(2,3) by (auto simp: near_def)
    then show ?thesis using Some frame_distance [OF assms(1) h(1)] by (auto simp: advance_frontier_def Let_def)
  qed
  then show "fst (advance_frontier (of_nat k) r)" "fr_highest_seen (snd (advance_frontier (of_nat k) r)) = Some (of_nat k)" by blast+
qed

lemma ingest_not_stale:
  assumes "ingest f r = Some (res, r')" "\<not> implausible f" "\<not> was_retired (fh_frame_id (ff_header f)) r"
    and "fst (advance_frontier (fh_frame_id (ff_header f)) r)" "fh_frag_count (ff_header f) = pf_frag_count (entry_for f r)"
  shows "res \<noteq> Stale"
proof -
  obtain a where a: "advance_frontier (fh_frame_id (ff_header f)) r = (True, a)" using assms(4) by (metis prod.collapse)
  have e: "entry_for f a = entry_for f r" using advance_frontier_fields [OF a] by (intro entry_for_cong) simp_all
  show ?thesis
    using assms(1-3,5)
    by (auto simp: ingest_def Let_def was_retired_def a e split: option.splits if_splits reassembly_result.splits)
qed

text \<open>What has arrived of frame \<open>k\<close>, and that it does not suffice.\<close>

definition arrived :: "bytes list \<Rightarrow> nat set" where
  "arrived ds = {unat (fh_frag_index (ff_header f)) | f. \<exists>d\<in>set ds. fragment_decode d = Inr f}"

definition waiting_with :: "(bytes \<times> packetize_options) list \<Rightarrow> nat \<Rightarrow> nat set \<Rightarrow> reassembler \<Rightarrow> bool" where
  "waiting_with xs k J r \<longleftrightarrow>
     (case map_of (fr_pending r) (of_nat k) of
        None \<Rightarrow> J = {}
      | Some p \<Rightarrow> holds_exactly (xs ! k) J p \<and> \<not> complete_by_count p)"

definition newest :: "(bytes \<times> packetize_options) list \<Rightarrow> rs_fec option \<Rightarrow> nat \<Rightarrow> nat set \<Rightarrow> reassembler \<Rightarrow> bool" where
  "newest xs fec k J r \<longleftrightarrow> genuine xs fec r \<and> up_to k (Suc k) r \<and> near k r \<and> waiting_with xs k J r"

lemma newest_step:
  fixes seq :: u32
  assumes "k < length xs" "length xs < 2 ^ 31" "frame_fits fec (xs ! k)" "tier_fits fec (po_fec_tier (snd (xs ! k)))"
    and j: "j < length (frame_shards fec (fst (xs ! k)) (po_fec_tier (snd (xs ! k))))"
    and N: "newest xs fec k J r"
    and ok: "ingest (sent_fragment fec (fst (xs ! k)) (snd (xs ! k)) seq (of_nat k) j) r = Some (res, r')"
  obtains (shown) rf where "res = Completed rf" "rf_frame_id rf = of_nat k" "rf_avcc rf = fst (xs ! k)"
  | (waits) "newest xs fec k (insert j J) r'" "\<nexists>rf. res = Completed rf"
proof -
  define f where "f = sent_fragment fec (fst (xs ! k)) (snd (xs ! k)) seq (of_nat k) j"
  define n where "n = length (frame_payloads (fst (xs ! k)))"
  have k31: "k < 2 ^ 31" "length xs < 2 ^ 32" using assms(1,2) by simp_all
  have G: "genuine xs fec r" "up_to k (Suc k) r" "near k r" "waiting_with xs k J r" using N by (simp_all add: newest_def)
  note F = genuine_filed [OF G(1) assms(1) k31(2) assms(3,4) j, of seq, folded f_def]
  have i: "fh_frame_id (ff_header f) = of_nat k" by (simp add: f_def sent_fragment_def fragment_at_def Let_def)
  have fec: "fr_fec r = fec" and sorted: "bt_sorted (fr_pending r)" using G(1) by (simp_all add: genuine_def buffers_def)
  have high: "set_option (fr_highest_seen r) \<subseteq> frame_ids (Suc k)" using G(2) by (simp add: up_to_def)
  note A = advance_to_newest [OF k31(1) high G(3)]
  have fresh: "\<not> was_retired (of_nat k) r"
  proof -
    have out: "of_nat k \<notin> frame_ids k" using frame_distance(3) [OF k31(1), of "of_nat k"] by (auto simp: frame_ids_def)
    moreover have "0 < distance_wrapped (of_nat k) h" if "fr_highest_retired r = Some h" for h
    proof -
      have "h \<in> frame_ids k" using G(2) that by (simp add: up_to_def)
      then have "h \<in> frame_ids (Suc k)" "h \<noteq> of_nat k" using frame_ids_mono [of k "Suc k"] out by auto
      then show ?thesis using frame_distance [OF k31(1)] by (simp add: order_less_le)
    qed
    ultimately show ?thesis using G(2) by (auto simp: was_retired_def up_to_def split: option.split)
  qed
  have exact: "\<exists>via. assemble fec (file_fragment f (entry_for f r)) = Some (Some (fst (xs ! k), via))"
    if "complete_by_count (file_fragment f (entry_for f r))"
    by (rule assemble_genuine [OF assms(4,3) F(1,2) that])
  have gr: "genuine xs fec r'"
    using ingest_genuine [OF G(1) assms(1) k31(2) assms(3,4) j, of seq] ok by (metis Pair_inject option.inject)
  have ok': "ingest f r = Some (res, r')" using ok by (simp add: f_def)
  have "res \<noteq> Stale" by (rule ingest_not_stale [OF ok' F(5)]) (use fresh A(1) F(6) i in simp_all)
  from ok' sorted show thesis
  proof (cases rule: ingest_cases)
    case stale
    then show thesis using \<open>res \<noteq> Stale\<close> by simp
  next
    case (complete q s avcc via)
    have "complete_by_count (file_fragment f (entry_for f r))" using complete(3,4) precheck_recounts [OF F(4)] by simp
    then have "avcc = fst (xs ! k)" using exact complete(3,5) fec by auto
    then show thesis using shown complete(6) i by simp
  next
    case (waits q s)
    have seen: "fr_highest_seen s = Some (of_nat k)" using waits(9) A(2) i by simp
    have notyet: "\<not> complete_by_count q" using exact waits(3,4) precheck_recounts [OF F(4)] fec by auto
    have keys: "fst ` set (fr_pending s) \<subseteq> frame_ids (Suc k)"
      using waits(5) sorted G(2) i by (auto simp: up_to_def bt_insert_set frame_ids_def)
    have sw: "set (sweep_ids s) \<subseteq> frame_ids k"
    proof
      fix h assume h: "h \<in> set (sweep_ids s)"
      then have "h \<in> frame_ids (Suc k)" "h \<noteq> of_nat k" using sweep_ids_pending [of s] keys sweep_spares_frontier [OF seen] by auto
      then show "h \<in> frame_ids k" using frame_distance(3) [OF k31(1)] by blast
    qed
    have "up_to k (Suc k) (sweep_hopeless_frames s)"
      using waits(10,11) G(2) seen keys sw by (intro up_to_sweep) (auto simp: up_to_def frame_ids_def)
    then have up: "up_to k (Suc k) r'" using waits(8) unfolding up_to_def by (elim disjE conjE) simp_all
    have "fr_highest_seen r' = Some (of_nat k)" using waits(8) seen by (elim disjE conjE) simp_all
    then have nr: "near k r'" by (simp add: near_def distance_wrapped_def max_frontier_jump_def)
    have "fr_pending r' = filter (\<lambda>x. fst x \<notin> set (sweep_ids s)) (fr_pending s)" using waits(8) sweep_pending [of s] by (elim disjE conjE) simp_all
    moreover have "map_of (filter (\<lambda>x. fst x \<notin> A) ys) a = (if a \<notin> A then map_of ys a else None)" for A and ys :: "(u32 \<times> pending) list" and a
      by (induction ys) auto
    ultimately have look: "map_of (fr_pending r') (of_nat k) = Some q"
      using waits(5) sorted sweep_spares_frontier [OF seen] i by (simp add: bt_insert_lookup)
    have "holds_exactly (xs ! k) J (entry_for f r)"
    proof (cases "map_of (fr_pending r) (of_nat k)")
      case None
      then have "J = {}" "pf_data (entry_for f r) = Map.empty" "pf_parity (entry_for f r) = Map.empty"
        using G(4) by (simp_all add: waiting_with_def entry_for_def i Let_def)
      then show ?thesis by (simp add: holds_exactly_def)
    next
      case (Some p)
      then show ?thesis using G(4) by (simp add: waiting_with_def entry_for_def i)
    qed
    then have "holds_exactly (xs ! k) (insert j J) q"
      using F(7,8) waits(3) by (auto simp: holds_exactly_def split: if_splits)
    then have "waiting_with xs k (insert j J) r'" using look notyet by (simp add: waiting_with_def)
    then show thesis using gr up nr that(2) waits(8) by (auto simp: newest_def)
  qed
qed

lemma not_enough_empty:
  assumes "tier_fits fec (po_fec_tier (snd x))"
  shows "\<not> enough fec x {}"
proof -
  have n: "0 < length (frame_payloads (fst x))" using frame_payloads_facts(2) [of "fst x"] by simp
  show ?thesis
  proof (cases "frame_group fec (po_fec_tier (snd x))")
    case None
    then show ?thesis using n by (auto simp: enough_def Let_def)
  next
    case (Some g)
    have g: "0 < g" using frame_group_pos [OF assms Some] by simp
    then have "0 < div_ceil (length (frame_payloads (fst x))) g" using n by (simp add: div_ceil_less)
    moreover have "0 < length (filter (\<lambda>j. j \<notin> {}) [0 * g..<min (0 * g + g) (length (frame_payloads (fst x)))])" using g n by simp
    ultimately show ?thesis using Some unfolding enough_def Let_def by (auto intro!: exI [of _ 0] simp: min_def split: if_splits)
  qed
qed

lemma newest_run:
  assumes "k < length xs" "length xs < 2 ^ 31" "frame_fits fec (xs ! k)" "tier_fits fec (po_fec_tier (snd (xs ! k)))"
  shows "newest xs fec k J r \<Longrightarrow>
    \<forall>d\<in>set ds. \<exists>seq j. j < length (frame_shards fec (fst (xs ! k)) (po_fec_tier (snd (xs ! k)))) \<and>
      fragment_decode d = Inr (sent_fragment fec (fst (xs ! k)) (snd (xs ! k)) seq (of_nat k) j) \<Longrightarrow>
    client_run (map Arrive ds) r = Some (evs, r') \<Longrightarrow>
    \<nexists>rf. Result (Completed rf) \<in> set evs \<and> rf_frame_id rf = of_nat k \<and> rf_avcc rf = fst (xs ! k) \<Longrightarrow>
    newest xs fec k (J \<union> arrived ds) r'"
proof (induction ds arbitrary: J r evs)
  case Nil
  then show ?case by (simp add: arrived_def)
next
  case (Cons d ds)
  obtain seq j where d: "j < length (frame_shards fec (fst (xs ! k)) (po_fec_tier (snd (xs ! k))))"
    "fragment_decode d = Inr (sent_fragment fec (fst (xs ! k)) (snd (xs ! k)) seq (of_nat k) j)" using Cons.prems(2) by auto
  obtain res s evs' where s: "ingest (sent_fragment fec (fst (xs ! k)) (snd (xs ! k)) seq (of_nat k) j) r = Some (res, s)"
    "client_run (map Arrive ds) s = Some (evs', r')" "evs = Result res # evs'"
    using Cons.prems(3) d(2) by (auto simp: client_step_def split: option.splits)
  have "newest xs fec k (insert j J) s"
    using assms d(1) Cons.prems(1) s(1)
  proof (cases rule: newest_step)
    case (shown rf)
    then show ?thesis using Cons.prems(4) s(3) by auto
  qed
  moreover have "\<nexists>rf. Result (Completed rf) \<in> set evs' \<and> rf_frame_id rf = of_nat k \<and> rf_avcc rf = fst (xs ! k)"
    using Cons.prems(4) s(3) by auto
  ultimately have "newest xs fec k (insert j J \<union> arrived ds) r'" using Cons.IH [OF _ _ s(2), of "insert j J"] Cons.prems(2) by simp
  moreover have "unat (fh_frag_index (ff_header (sent_fragment fec (fst (xs ! k)) (snd (xs ! k)) seq (of_nat k) j))) = j"
    using d(1) assms(3) by (simp add: sent_fragment_def fragment_at_def Let_def frame_fits_def max_fragments_per_frame_def unat_of_nat_16)
  then have "arrived (d # ds) = insert j (arrived ds)" using d(2) unfolding arrived_def by (auto 4 4) metis+
  ultimately show ?case by simp
qed

lemma client_run_older:
  assumes "\<forall>x\<in>set xs. tier_fits fec (po_fec_tier (snd x))" "length xs < 2 ^ 31" "k \<le> length xs"
    and sent: "send_frames xs (packetizer_new fec) = Some (dss, p)"
  shows "\<forall>d. Arrive d \<in> set acts \<longrightarrow> (\<exists>j<k. d \<in> set (dss ! j)) \<Longrightarrow> bt_sorted (fr_pending r) \<Longrightarrow> up_to k k r \<Longrightarrow>
    client_run acts r = Some (evs, r') \<Longrightarrow> up_to k k r'"
proof (induction acts arbitrary: r evs)
  case (Cons act acts)
  obtain ev s evs' where s: "client_step act r = Some (ev, s)" "client_run acts s = Some (evs', r')"
    using Cons.prems(4) by (auto split: option.splits)
  have "bt_sorted (fr_pending s) \<and> up_to k k s"
  proof (cases act)
    case (Arrive d)
    obtain j where j: "j < k" "d \<in> set (dss ! j)" using Cons.prems(1) Arrive by auto
    have "length dss = length xs" "sent_as fec (xs ! j) (of_nat j) (dss ! j)"
      using send_frames_facts [of xs "packetizer_new fec"] assms(1,3) sent j(1) by auto
    then obtain seq where seq: "mset (dss ! j) = (if frame_fits fec (xs ! j) then mset (sent_datagrams fec (xs ! j) seq (of_nat j)) else {#})"
      by (auto simp: sent_as_def)
    have "d \<in># mset (dss ! j)" using j(2) by simp
    then have "d \<in> set (sent_datagrams fec (xs ! j) seq (of_nat j))" unfolding seq by (simp split: if_splits)
    then obtain i where i: "i < length (frame_shards fec (fst (xs ! j)) (po_fec_tier (snd (xs ! j))))"
      "d = fragment_encode (sent_fragment fec (fst (xs ! j)) (snd (xs ! j)) seq (of_nat j) i)"
      by (auto simp: sent_datagrams_def)
    have "tier_fits fec (po_fec_tier (snd (xs ! j)))" using assms(1,3) j(1) by simp
    note dec = sent_fragment_decodes(1) [OF this i(1), of seq "of_nat j", folded i(2)]
    have id: "fh_frame_id (ff_header (sent_fragment fec (fst (xs ! j)) (snd (xs ! j)) seq (of_nat j) i)) \<in> frame_ids k"
      using j(1) by (simp add: sent_fragment_def fragment_at_def Let_def frame_ids_def)
    from s(1) Arrive dec obtain res where I: "ingest (sent_fragment fec (fst (xs ! j)) (snd (xs ! j)) seq (of_nat j) i) r = Some (res, s)"
      by (auto simp: client_step_def)
    have "buffers (\<lambda>r i p. True) s"
      by (rule ingest_buffers(1) [where P = "\<lambda>_ _ _. True", OF I]) (use Cons.prems(2) in \<open>auto simp: buffers_def\<close>)
    then show ?thesis using ingest_older [OF I Cons.prems(2,3) id] by (simp add: buffers_def)
  qed (use s(1) Cons.prems(2,3) in \<open>auto simp: client_step_def next_dropped_frame_def next_needs_retransmit_def
         enable_retransmit_def up_to_fields split: list.splits\<close>)
  then show ?case using Cons.IH [OF _ _ _ s(2)] Cons.prems(1) by auto
qed simp

text \<open>C5. The newest frame is shown as soon as enough of it arrives: after any traffic about older frames (lost,
  reordered, duplicated, with polls and settings between), when frame \<open>k\<close> is at most \<open>max_frontier_jump\<close> past the
  highest number seen and within the client's bound on fragments, and the datagrams that arrive of it, in
  any order and with any duplicates, leave no group with more missing data fragments than surviving
  parity shards, the client completes frame \<open>k\<close> with exactly the bytes the host was given.\<close>

theorem newest_frame_is_shown:
  assumes "fec = None \<or> fec = fec_new g m"
    and "\<forall>x\<in>set xs. tier_fits fec (po_fec_tier (snd x))" "length xs < 2 ^ 31"
    and sent: "send_frames xs (packetizer_new fec) = Some (dss, p)"
    and k: "k < length xs" "frame_fits fec (xs ! k)"
    and before: "\<forall>d. Arrive d \<in> set acts \<longrightarrow> (\<exists>j<k. d \<in> set (dss ! j))"
      "client_run acts (reassembler_new fec grace) = Some (evs0, r)"
    and jump: "\<forall>h. fr_highest_seen r = Some h \<longrightarrow> distance_wrapped (of_nat k) h \<le> max_frontier_jump"
    and now: "set ds \<subseteq> set (dss ! k)" "enough fec (xs ! k) (arrived ds)"
  shows "\<exists>evs r'. client_run (map Arrive ds) r = Some (evs, r') \<and>
    (\<exists>rf. Result (Completed rf) \<in> set evs \<and> rf_frame_id rf = of_nat k \<and> rf_avcc rf = fst (xs ! k))"
proof -
  have len: "length dss = length xs" "length xs < 2 ^ 32"
    using send_frames_facts [of xs "packetizer_new fec"] assms(2,3) sent by auto
  have tier: "tier_fits fec (po_fec_tier (snd (xs ! k)))" using assms(2) k by simp
  note new = genuine_new [OF assms(1), of xs grace]
  have "\<forall>d. Arrive d \<in> set acts \<longrightarrow> (\<exists>ds\<in>set dss. d \<in> set ds)"
    using before(1) len k by (metis dual_order.strict_trans nth_mem)
  from client_run_genuine [OF assms(2) len(2) sent this new] have G: "genuine xs fec r" using before(2) by auto
  have "up_to k k (reassembler_new fec grace)" "bt_sorted (fr_pending (reassembler_new fec grace))"
    by (simp_all add: up_to_def reassembler_new_def bt_sorted_def)
  with client_run_older [OF assms(2,3) _ sent before(1)] have U: "up_to k k r" using k before(2) by simp
  have "of_nat k \<notin> frame_ids k"
    using frame_distance(3) [of k "of_nat k"] k assms(3) by (auto simp: frame_ids_def)
  then have "map_of (fr_pending r) (of_nat k) = None" using U by (auto simp: up_to_def map_of_eq_None_iff)
  then have N: "newest xs fec k {} r"
    using G U jump frame_ids_mono [of k "Suc k"] by (auto simp: newest_def waiting_with_def near_def up_to_def)
  have S: "sent_as fec (xs ! k) (of_nat k) (dss ! k)"
    using send_frames_facts [of xs "packetizer_new fec"] assms(2) sent k(1) by auto
  have each: "\<forall>d\<in>set ds. \<exists>seq j. j < length (frame_shards fec (fst (xs ! k)) (po_fec_tier (snd (xs ! k)))) \<and>
      fragment_decode d = Inr (sent_fragment fec (fst (xs ! k)) (snd (xs ! k)) seq (of_nat k) j)"
  proof
    fix d assume "d \<in> set ds"
    then have d: "d \<in># mset (dss ! k)" using now(1) by auto
    obtain seq where "mset (dss ! k) = mset (sent_datagrams fec (xs ! k) seq (of_nat k))" using S k(2) by (auto simp: sent_as_def)
    then have "d \<in> set (sent_datagrams fec (xs ! k) seq (of_nat k))" using d by simp
    then obtain j where "j < length (frame_shards fec (fst (xs ! k)) (po_fec_tier (snd (xs ! k))))"
      "d = fragment_encode (sent_fragment fec (fst (xs ! k)) (snd (xs ! k)) seq (of_nat k) j)" by (auto simp: sent_datagrams_def)
    then show "\<exists>seq j. j < length (frame_shards fec (fst (xs ! k)) (po_fec_tier (snd (xs ! k)))) \<and>
      fragment_decode d = Inr (sent_fragment fec (fst (xs ! k)) (snd (xs ! k)) seq (of_nat k) j)"
      using sent_fragment_decodes(1) [OF tier] by blast
  qed
  have "\<forall>d. Arrive d \<in> set (map Arrive ds) \<longrightarrow> (\<exists>ds\<in>set dss. d \<in> set ds)"
    using now(1) k(1) len(1) by (auto intro!: bexI [of _ "dss ! k"])
  from client_run_genuine [OF assms(2) len(2) sent this G] obtain evs r' where run: "client_run (map Arrive ds) r = Some (evs, r')" by blast
  have "\<exists>rf. Result (Completed rf) \<in> set evs \<and> rf_frame_id rf = of_nat k \<and> rf_avcc rf = fst (xs ! k)"
  proof (rule ccontr)
    assume "\<nexists>rf. Result (Completed rf) \<in> set evs \<and> rf_frame_id rf = of_nat k \<and> rf_avcc rf = fst (xs ! k)"
    from newest_run [OF k(1) assms(3) k(2) tier N each run this] have W: "waiting_with xs k (arrived ds) r'" and G': "genuine xs fec r'"
      by (simp_all add: newest_def)
    obtain q where q: "map_of (fr_pending r') (of_nat k) = Some q" "holds_exactly (xs ! k) (arrived ds) q" "\<not> complete_by_count q"
      using W now(2) not_enough_empty [OF tier] by (auto simp: waiting_with_def split: option.splits)
    have "genuine_buffer xs fec (of_nat k) q" using buffers_lookup [OF _ q(1)] G' unfolding genuine_def by blast
    then obtain k' where "k' < length xs" "(of_nat k :: u32) = of_nat k'" "shaped_for fec (xs ! k') q" by (auto simp: genuine_buffer_def)
    moreover from this have "k' = k" using of_nat_32_inj [of k k'] len(2) k(1) by simp
    ultimately show False using enough_completes [OF _ k(2) tier q(2) now(2)] q(3) by simp
  qed
  then show ?thesis using run by blast
qed
lemma demo_upt: "[0..<2] = [0, 1 :: nat]" "[0..<Suc 0] = [0 :: nat]"
  by (simp_all add: upt_rec)

lemma newest_frame_is_shown_witness:
  "\<exists>evs r'. client_run (map Arrive [demo_parity]) (reassembler_new (fec_new 5 1) 2) = Some (evs, r') \<and>
     (\<exists>rf. Result (Completed rf) \<in> set evs \<and> rf_frame_id rf = 0 \<and> rf_avcc rf = [1, 2, 3])"
proof -
  obtain p where p: "send_frames [([1, 2, 3], demo_options)] (packetizer_new (fec_new 5 1)) = Some ([[demo_data, demo_parity]], p)"
    using demo_sent by blast
  have d: "fragment_decode demo_parity = Inr (fragment_at 1 0 1 2 3 9 [0, 0, 0, 3, 1, 2, 3])" by code_simp
  have a: "arrived [demo_parity] = {1}" by (auto simp: arrived_def d fragment_at_fields)
  have n: "length (frame_payloads [1, 2, 3]) = 1" "frame_group (fec_new 5 1) 0 = Some 5" "frame_m (fec_new 5 1) 0 = 1" "div_ceil 1 5 = 1"
    by code_simp+
  have fits: "frame_fits (fec_new 5 1) ([([1, 2, 3], demo_options)] ! 0)" by code_simp
  have e: "enough (fec_new 5 1) ([([1, 2, 3], demo_options)] ! 0) (arrived [demo_parity])"
    using n by (simp add: enough_def a demo_options_def demo_upt)
  have run: "client_run [] (reassembler_new (fec_new 5 1) 2) = Some ([], reassembler_new (fec_new 5 1) 2)" by simp
  have seen: "\<forall>h. fr_highest_seen (reassembler_new (fec_new 5 1) 2) = Some h \<longrightarrow> distance_wrapped (of_nat 0) h \<le> max_frontier_jump"
    by (simp add: reassembler_new_def)
  show ?thesis
    using newest_frame_is_shown [OF disjI2 [OF refl] demo_fits _ p _ fits _ run seen _ e] by simp
qed

section \<open>A frame whose precheck passes is never given up\<close>

lemma sweep_keeps_complete:
  assumes "can_eventually_complete p" "map_of (fr_pending r) i = Some p" "bt_sorted (fr_pending r)"
  shows "i \<notin> set (sweep_ids r)"
proof
  assume "i \<in> set (sweep_ids r)"
  then obtain h q where q: "(i, q) \<in> set (fr_pending r)" "sweep_verdict_of h r i q = Hopeless"
    by (cases "fr_highest_seen r") (auto simp: sweep_ids_def)
  then have "q = p" using assms(2,3) bt_sorted_lookup [of "fr_pending r" i q] by simp
  then show False using q(2) assms(1) by (simp add: sweep_verdict_of_def Let_def)
qed

lemma map_of_filter_fst: "map_of (filter (\<lambda>x. fst x \<notin> A) ys) a = (if a \<in> A then None else map_of ys a)"
  by (induction ys) auto

lemma ingest_keeps_complete:
  assumes "ingest f r = Some (res, r')" "bt_sorted (fr_pending r)" "fh_frame_id (ff_header f) \<noteq> i"
    and "map_of (fr_pending r) i = Some p" "can_eventually_complete p" "i \<notin> set (fr_dropped_queue r)"
  shows "map_of (fr_pending r') i = Some p \<and> i \<notin> set (resolved_by (Result res)) \<and> i \<notin> set (fr_dropped_queue r')"
proof -
  have swept: "map_of (fr_pending (sweep_hopeless_frames s)) i = Some p \<and> i \<notin> set (fr_dropped_queue (sweep_hopeless_frames s))"
    if "map_of (fr_pending s) i = Some p" "bt_sorted (fr_pending s)" "i \<notin> set (fr_dropped_queue s)" for s
    using sweep_keeps_complete [OF assms(5) that(1,2)] that by (simp add: sweep_pending map_of_filter_fst sweep_dropped set_sweep_order)
  from assms(1,2) show ?thesis
  proof (cases rule: ingest_cases)
    case stale
    then show ?thesis using assms(4,6) by simp
  next
    case (complete q s avcc via)
    let ?t = "retire_frame (fh_frame_id (ff_header f)) s"
    have "map_of (fr_pending ?t) i = Some p" "bt_sorted (fr_pending ?t)" "i \<notin> set (fr_dropped_queue ?t)"
      using complete(7,9) assms by (simp_all add: bt_remove_lookup bt_insert_lookup bt_remove_sorted bt_insert_sorted)
    from swept [OF this] show ?thesis using complete(6,10) assms(3) by simp
  next
    case (waits q s)
    have "map_of (fr_pending s) i = Some p" "bt_sorted (fr_pending s)" "i \<notin> set (fr_dropped_queue s)"
      using waits(5,7) assms by (simp_all add: bt_insert_lookup bt_insert_sorted)
    from swept [OF this] show ?thesis using waits(8) assms(3) by (elim disjE conjE) simp_all
  qed
qed

text \<open>C34. A buffer whose precheck passes is never given up: from any reachable state, as long as no further datagram
  of that frame arrives, the frame stays buffered as it is and is neither completed nor dropped nor reported lost, however far the
  stream moves on. When its assembly fails, as it does after a corrupt parity shard, no loss of that frame is ever reported, and
  only such a report makes the client request recovery.\<close>

theorem passing_frame_is_never_given_up:
  assumes "client_run acts0 (reassembler_new fec grace) = Some (evs0, r)"
    and "map_of (fr_pending r) i = Some p" "can_eventually_complete p" "i \<notin> set (fr_dropped_queue r)"
    and "client_run acts r = Some (evs, r')"
    and "\<forall>d f. Arrive d \<in> set acts \<longrightarrow> fragment_decode d = Inr f \<longrightarrow> fh_frame_id (ff_header f) \<noteq> i"
  shows "map_of (fr_pending r') i = Some p \<and> i \<notin> set (resolved evs)"
proof -
  have step: "bt_sorted (fr_pending s')" if "client_step act s = Some (ev, s')" "bt_sorted (fr_pending s)" for act s ev s'
    using that(1)
  proof (cases rule: client_step_buffers)
    case (arrive d f res)
    have "buffers (\<lambda>r i p. True) s'"
      by (rule ingest_buffers(1) [where P = "\<lambda>_ _ _. True", OF arrive(3)]) (use that(2) in \<open>auto simp: buffers_def\<close>)
    then show ?thesis by (simp add: buffers_def)
  qed (use that(2) in simp)
  have sorted: "client_run acts s = Some (evs, s') \<Longrightarrow> bt_sorted (fr_pending s) \<Longrightarrow> bt_sorted (fr_pending s')" for acts s evs s'
    by (induction acts arbitrary: s evs) (auto split: option.splits dest: step)
  have "map_of (fr_pending s') i = Some p \<and> i \<notin> set (resolved evs)"
    if "client_run acts s = Some (evs, s')" "bt_sorted (fr_pending s)" "map_of (fr_pending s) i = Some p" "i \<notin> set (fr_dropped_queue s)"
      "\<forall>d f. Arrive d \<in> set acts \<longrightarrow> fragment_decode d = Inr f \<longrightarrow> fh_frame_id (ff_header f) \<noteq> i" for acts s evs s'
    using that
  proof (induction acts arbitrary: s evs)
    case (Cons act acts)
    obtain ev u evs' where u: "client_step act s = Some (ev, u)" "client_run acts u = Some (evs', s')" "evs = ev # evs'"
      using Cons.prems(1) by (auto split: option.splits)
    have "map_of (fr_pending u) i = Some p \<and> i \<notin> set (resolved_by ev) \<and> i \<notin> set (fr_dropped_queue u)"
    proof (cases act)
      case (Arrive d)
      then show ?thesis
        using u(1) Cons.prems ingest_keeps_complete [OF _ Cons.prems(2) _ Cons.prems(3) assms(3) Cons.prems(4)]
        by (auto simp: client_step_def split: sum.splits)
    qed (use u(1) Cons.prems in \<open>auto simp: client_step_def next_dropped_frame_def next_needs_retransmit_def
           enable_retransmit_def split: list.splits\<close>)
    then show ?case using Cons.IH [OF u(2) step [OF u(1) Cons.prems(2)]] Cons.prems(5) u(3) by auto
  qed simp
  from this [OF assms(5) sorted [OF assms(1)] assms(2,4,6)] show ?thesis by (simp add: reassembler_new_def bt_sorted_def)
qed

text \<open>A frame of two data fragments at \<open>k = 2\<close>, \<open>m = 1\<close>: one data fragment arrives, and a parity shard whose
  length prefix is garbage. The precheck passes, the assembly fails, and a later frame changes nothing.\<close>

definition demo_p0 :: pending where
  "demo_p0 = pending_default\<lparr>pf_frag_count := 3, pf_group_size := Some 2, pf_m := 1, pf_pinned_data_count := 2,
   pf_data := [0 \<mapsto> [1]],
   pf_missing_per_group := [1], pf_surviving_per_group := [0], pf_hopeless_groups := 0, pf_awaiting_groups := 1\<rparr>"

definition demo_p1 :: pending where
  "demo_p1 = pending_default\<lparr>pf_frag_count := 3, pf_group_size := Some 2, pf_m := 1, pf_pinned_data_count := 2,
   pf_data := [0 \<mapsto> [1]], pf_parity := [0 \<mapsto> [255, 255, 255, 255]], pf_observed_data_count := Some 2,
   pf_missing_per_group := [1], pf_surviving_per_group := [1], pf_hopeless_groups := 0, pf_awaiting_groups := 0, pf_recoverable_now_groups := 1\<rparr>"

lemma demo_inverted: "inverted_data_count 3 2 1 = Some 2" by code_simp

lemma demo_tier: "flags_fec_tier 0 = 0" "flags_fec_tier 2 = 0" by (simp_all add: flags_fec_tier_def tier_mask_def)

lemma demo_groups: "div_ceil 2 2 = 1" by (simp add: div_ceil_def)

lemma demo_fresh: "pending_new 3 (Some 2) 1 = pending_default\<lparr>pf_frag_count := 3, pf_group_size := Some 2, pf_m := 1, pf_pinned_data_count := 2,
   pf_missing_per_group := [2], pf_surviving_per_group := [0], pf_hopeless_groups := 1, pf_awaiting_groups := 0\<rparr>"
  by (simp add: pending_new_def demo_inverted [unfolded One_nat_def] demo_groups Let_def)

lemma demo_first: "file_fragment (fragment_at s i 0 3 0 0 [1]) (pending_new 3 (Some 2) 1) = demo_p0"
  by (simp add: demo_fresh [unfolded One_nat_def] file_fragment_def fragment_at_fields Let_def flags_contains_bit note_data_arrived_def pf_tally_def step_count_def pending_default_def demo_p0_def)

lemma demo_second: "file_fragment (fragment_at 2 0 2 3 2 0 [255, 255, 255, 255]) demo_p0 = demo_p1"
  by (simp add: file_fragment_def fragment_at_fields Let_def flags_contains_bit note_parity_arrived_def pf_tally_def step_count_def pending_default_def note_observed_parity_boundary_def demo_p0_def demo_p1_def)

lemma demo_xor: "xor_recover [255, 255, 255, 255] [[1]] = [255, 255, 255, 254, 1]" by code_simp

lemma demo_length: "from_be_bytes [255, 255, 255, 254] = 4294967294" by code_simp

lemma demo_strip: "strip_length_prefix [255, 255, 255, 254, 1] = None"
  by (simp add: strip_length_prefix_def slice_get_def prefix_bytes_def demo_length)

lemma demo_recovery: "recover_with_m \<lparr>fec_group_size = 2, fec_parity = 1\<rparr> [Some [1], None] [Some [255, 255, 255, 255]] 2 1 = Some [Some [1], None]"
  by (simp add: recover_with_m_def recover_m_def effective_group_size_def Let_def div_ceil_def recover_group_def upt_rec
      recover_xor_def opt_nth_def map_filter_simps demo_xor demo_strip)

lemma demo_assembly: "assemble (Some \<lparr>fec_group_size = 2, fec_parity = 1\<rparr>) demo_p1 = Some None"
  using demo_recovery by (simp add: assemble_def demo_p1_def pending_default_def resolved_data_count_def Let_def demo_upt)

lemma demo_flags: "can_eventually_complete demo_p1" "\<not> can_eventually_complete demo_p0" "pf_frag_count demo_p0 = 3"
  by (simp_all add: can_eventually_complete_def resolved_data_count_def demo_p0_def demo_p1_def pending_default_def)

definition demo_state :: "u32 option \<Rightarrow> (u32 \<times> pending) list \<Rightarrow> reassembler" where
  "demo_state seen ps = (reassembler_new (Some \<lparr>fec_group_size = 2, fec_parity = 1\<rparr>) 0)\<lparr>fr_highest_seen := seen, fr_pending := ps\<rparr>"

lemma demo_sweep: "sweep_hopeless_frames (demo_state (Some 0) [(0, p)]) = demo_state (Some 0) [(0, p)]"
  by (simp add: sweep_hopeless_frames_def demo_state_def sweep_verdict_of_def distance_wrapped_def map_filter_simps sort_by_def)

lemma demo_run:
  "client_run [Arrive (fragment_encode (fragment_at 0 0 0 3 0 0 [1])), Arrive (fragment_encode (fragment_at 2 0 2 3 2 0 [255, 255, 255, 255]))]
     (reassembler_new (Some \<lparr>fec_group_size = 2, fec_parity = 1\<rparr>) 0) = Some ([Result Incomplete, Result Incomplete], demo_state (Some 0) [(0, demo_p1)])"
proof -
  let ?f0 = "fragment_at 0 0 0 3 0 0 [1]" let ?f1 = "fragment_at 2 0 2 3 2 0 [255, 255, 255, 255]"
  have n: "reassembler_new (Some \<lparr>fec_group_size = 2, fec_parity = 1\<rparr>) 0 = demo_state None []" by (simp add: demo_state_def reassembler_new_def)
  have imp: "\<not> implausible ?f0" "\<not> implausible ?f1"
    by (simp_all add: implausible_def fragment_at_fields max_fragments_per_frame_def max_datagram_size_def header_size_def)
  have adv: "advance_frontier 0 (demo_state None []) = (True, demo_state (Some 0) [])"
    "advance_frontier 0 (demo_state (Some 0) [(0, demo_p0)]) = (True, demo_state (Some 0) [(0, demo_p0)])"
    by (simp_all add: advance_frontier_def demo_state_def reassembler_new_def distance_wrapped_def max_frontier_jump_def)
  have e: "entry_for ?f0 (demo_state (Some 0) []) = pending_new 3 (Some 2) 1" "entry_for ?f1 (demo_state (Some 0) [(0, demo_p0)]) = demo_p0"
    by (simp_all add: entry_for_def fragment_at_fields demo_state_def reassembler_new_def Let_def demo_tier tier_group_size_def tier_parity_count_def multi_loss_active_def)
  have c: "pf_frag_count (pending_new 3 (Some 2) 1) = 3" by (simp add: demo_fresh [unfolded One_nat_def] pending_default_def)
  have upd: "(demo_state s ps)\<lparr>fr_pending := qs\<rparr> = demo_state s qs" for s ps qs by (simp add: demo_state_def)
  have flds: "fr_retired (demo_state s ps) = {}" "fr_highest_retired (demo_state s ps) = None" "fr_pending (demo_state s ps) = ps"
    "fr_fec (demo_state s ps) = Some \<lparr>fec_group_size = 2, fec_parity = 1\<rparr>" "fr_dropped_queue (demo_state s ps) = []" for s ps
    by (simp_all add: demo_state_def reassembler_new_def)
  have i0: "ingest ?f0 (demo_state None []) = Some (Incomplete, demo_state (Some 0) [(0, demo_p0)])"
    unfolding ingest_def Let_def fragment_at_fields adv prod.case
    by (simp add: imp flds e c demo_first upd try_complete_def demo_flags demo_sweep del: One_nat_def)
  have i1: "ingest ?f1 (demo_state (Some 0) [(0, demo_p0)]) = Some (Incomplete, demo_state (Some 0) [(0, demo_p1)])"
    unfolding ingest_def Let_def fragment_at_fields adv prod.case
    by (simp add: imp flds e c demo_second upd try_complete_def demo_flags demo_sweep demo_assembly [unfolded One_nat_def])
  show ?thesis unfolding n by (simp add: step_fragment_at i0 i1)
qed

lemma passing_frame_is_never_given_up_witness:
  "\<exists>evs0 r p evs r'. client_run [Arrive (fragment_encode (fragment_at 0 0 0 3 0 0 [1])), Arrive (fragment_encode (fragment_at 2 0 2 3 2 0 [255, 255, 255, 255]))]
      (reassembler_new (Some \<lparr>fec_group_size = 2, fec_parity = 1\<rparr>) 0) = Some (evs0, r) \<and> evs0 = [Result Incomplete, Result Incomplete] \<and>
    map_of (fr_pending r) 0 = Some p \<and> assemble (Some \<lparr>fec_group_size = 2, fec_parity = 1\<rparr>) p = Some None \<and>
    client_run [Arrive (fragment_encode (fragment_at 3 900 0 3 0 0 [1]))] r = Some (evs, r') \<and>
    map_of (fr_pending r') 0 = Some p \<and> 0 \<notin> set (resolved evs)"
proof -
  let ?r = "demo_state (Some 0) [(0, demo_p1)]" let ?d = "fragment_encode (fragment_at 3 900 0 3 0 0 [1])"
  have l: "map_of (fr_pending ?r) 0 = Some demo_p1" "0 \<notin> set (fr_dropped_queue ?r)" by (simp_all add: demo_state_def reassembler_new_def)
  have "ingest (fragment_at 3 900 0 3 0 0 [1]) ?r \<noteq> None"
  proof (rule ingest_total)
    have "entry_for (fragment_at 3 900 0 3 0 0 [1]) ?r = pending_new 3 (Some 2) 1"
      by (simp add: entry_for_def fragment_at_fields demo_state_def reassembler_new_def Let_def demo_tier tier_group_size_def tier_parity_count_def multi_loss_active_def)
    then show "assemble (fr_fec ?r) (file_fragment (fragment_at 3 900 0 3 0 0 [1]) (entry_for (fragment_at 3 900 0 3 0 0 [1]) ?r)) \<noteq> None"
      if "can_eventually_complete (file_fragment (fragment_at 3 900 0 3 0 0 [1]) (entry_for (fragment_at 3 900 0 3 0 0 [1]) ?r))"
      using that demo_flags(2) by (simp only: demo_first)
  qed (simp add: demo_state_def bt_sorted_def)
  then obtain evs r' where run: "client_run [Arrive ?d] ?r = Some (evs, r')" by (auto simp: step_fragment_at)
  have "\<forall>d f. Arrive d \<in> set [Arrive ?d] \<longrightarrow> fragment_decode d = Inr f \<longrightarrow> fh_frame_id (ff_header f) \<noteq> 0"
    by (auto simp: decode_fragment_at fragment_at_fields)
  from passing_frame_is_never_given_up [OF demo_run l(1) demo_flags(1) l(2) run this]
  show ?thesis using demo_run l(1) demo_assembly run by blast
qed

end
