(* ===== verification/Retransmit_Ring.thy ===== *)
theory Retransmit_Ring
  imports Video_Live
begin

text \<open>
  The host's bounded send history (\<open>slopdesk-video/src/retransmit_ring.rs\<close>) and the selective retransmit
  it answers: the history stays within its ceilings, and the repair of a frame the client holds on to
  completes that frame.
\<close>

section \<open>The ring\<close>

record retransmit_ring =
  rt_order :: "u32 list"
  rt_by_frame :: "(u32 \<times> bytes list) list"
  rt_total_bytes :: nat
  rt_max_frames :: nat
  rt_max_bytes :: nat

definition ring_new :: "nat \<Rightarrow> nat \<Rightarrow> retransmit_ring" where
  "ring_new max_frames max_bytes =
    \<lparr>rt_order = [], rt_by_frame = [], rt_total_bytes = 0,
     rt_max_frames = (if 1 < max_frames then max_frames else 1), rt_max_bytes = (if 1 < max_bytes then max_bytes else 1)\<rparr>"

definition bytes_of :: "bytes list \<Rightarrow> nat" where
  "bytes_of ds = sum_list (map length ds)"

text \<open>The eviction loop, oldest first.\<close>

function evict_over :: "retransmit_ring \<Rightarrow> retransmit_ring" where
  "evict_over t =
    (if rt_max_frames t < length (rt_order t) \<or> rt_max_bytes t < rt_total_bytes t \<and> 1 < length (rt_order t) then
       case rt_order t of
         [] \<Rightarrow> t
       | evicted # rest \<Rightarrow>
           let t = t\<lparr>rt_order := rest\<rparr>
           in case map_of (rt_by_frame t) evicted of
                None \<Rightarrow> evict_over t
              | Some lost \<Rightarrow> evict_over (t\<lparr>rt_by_frame := bt_remove evicted (rt_by_frame t), rt_total_bytes := rt_total_bytes t - bytes_of lost\<rparr>)
     else t)"
  by pat_completeness auto
termination by (relation "measure (\<lambda>t. length (rt_order t))") auto

declare evict_over.simps [simp del]

definition record_frame :: "u32 \<Rightarrow> bytes list \<Rightarrow> retransmit_ring \<Rightarrow> retransmit_ring" where
  "record_frame frame_id datagrams t =
    (if map_of (rt_by_frame t) frame_id \<noteq> None then t
     else
       evict_over (t\<lparr>rt_total_bytes := rt_total_bytes t + bytes_of datagrams, rt_order := rt_order t @ [frame_id],
                     rt_by_frame := bt_insert frame_id datagrams (rt_by_frame t)\<rparr>))"

definition ring_fragments :: "u32 \<Rightarrow> u16 list \<Rightarrow> retransmit_ring \<Rightarrow> bytes list" where
  "ring_fragments frame_id frag_indices t =
    (case map_of (rt_by_frame t) frame_id of
       None \<Rightarrow> []
     | Some datagrams \<Rightarrow>
         filter (\<lambda>d. case fragment_decode d of Inl _ \<Rightarrow> False | Inr f \<Rightarrow> fh_frag_index (ff_header f) \<in> set frag_indices) datagrams)"

section \<open>The history stays bounded\<close>

text \<open>The order lists the recorded frames once each, and the byte count is what they hold.\<close>

definition ring_ok :: "retransmit_ring \<Rightarrow> bool" where
  "ring_ok t \<longleftrightarrow> bt_sorted (rt_by_frame t) \<and> distinct (rt_order t) \<and> set (rt_order t) = fst ` set (rt_by_frame t) \<and>
     rt_total_bytes t = sum_list (map (bytes_of \<circ> snd) (rt_by_frame t)) \<and> 1 \<le> rt_max_frames t"

lemma sum_bt_remove:
  "bt_sorted xs \<Longrightarrow> map_of xs k = Some v \<Longrightarrow>
   sum_list (map (f \<circ> snd) (bt_remove k xs)) + f v = sum_list (map (f \<circ> snd) xs)" for f :: "'v \<Rightarrow> nat"
proof (induction xs)
  case (Cons x xs)
  obtain a b where x: "x = (a, b)" by (cases x)
  have s: "bt_sorted xs" "\<forall>y\<in>set xs. a < fst y" using Cons.prems(1) by (auto simp: bt_sorted_def x)
  show ?case
  proof (cases "a = k")
    case True
    then have "bt_remove k xs = xs" using s(2) by (auto simp: bt_remove_def filter_id_conv)
    then show ?thesis using Cons.prems(2) True by (simp add: x bt_remove_def)
  next
    case False
    then show ?thesis using Cons.IH s(1) Cons.prems(2) by (simp add: x bt_remove_def)
  qed
qed simp

lemma sum_bt_insert:
  "map_of xs k = None \<Longrightarrow> sum_list (map (f \<circ> snd) (bt_insert k v xs)) = sum_list (map (f \<circ> snd) xs) + f v" for f :: "'v \<Rightarrow> nat"
  by (induction xs) (auto split: if_splits)

lemma evict_over_ok:
  "ring_ok t \<Longrightarrow> ring_ok (evict_over t) \<and> rt_max_frames (evict_over t) = rt_max_frames t \<and> rt_max_bytes (evict_over t) = rt_max_bytes t \<and>
   length (rt_order (evict_over t)) \<le> rt_max_frames t \<and>
   (rt_total_bytes (evict_over t) \<le> rt_max_bytes t \<or> length (rt_order (evict_over t)) \<le> 1) \<and>
   (\<forall>i ds. map_of (rt_by_frame (evict_over t)) i = Some ds \<longrightarrow> map_of (rt_by_frame t) i = Some ds)"
proof (induction t rule: evict_over.induct)
  case (1 t)
  show ?case
  proof (cases "rt_max_frames t < length (rt_order t) \<or> rt_max_bytes t < rt_total_bytes t \<and> 1 < length (rt_order t)")
    case False
    then show ?thesis using 1(3) by (subst (1 2 3 4 5 6 7) evict_over.simps) auto
  next
    case True
    then obtain e rest where o': "rt_order t = e # rest" by (cases "rt_order t") auto
    have "e \<in> fst ` set (rt_by_frame t)" using 1(3) o' by (auto simp: ring_ok_def)
    then obtain lost where l: "map_of (rt_by_frame t) e = Some lost" by (cases "map_of (rt_by_frame t) e") (auto simp: map_of_eq_None_iff)
    define u where "u = t\<lparr>rt_order := rest, rt_by_frame := bt_remove e (rt_by_frame t), rt_total_bytes := rt_total_bytes t - bytes_of lost\<rparr>"
    have step: "evict_over t = evict_over u" using True o' l by (subst evict_over.simps) (simp add: u_def)
    have "ring_ok u"
    proof -
      have I: "bt_sorted (rt_by_frame t)" "distinct (e # rest)" "set (e # rest) = fst ` set (rt_by_frame t)"
        "rt_total_bytes t = sum_list (map (bytes_of \<circ> snd) (rt_by_frame t))" "1 \<le> rt_max_frames t"
        using 1(3) o' by (simp_all add: ring_ok_def)
      have "fst ` set (bt_remove e (rt_by_frame t)) = fst ` set (rt_by_frame t) - {e}" by (auto simp: bt_remove_def)
      then have "set rest = fst ` set (bt_remove e (rt_by_frame t))" using I(2,3) by auto
      then show ?thesis using I sum_bt_remove [OF I(1) l, of bytes_of] by (simp add: ring_ok_def u_def bt_remove_sorted)
    qed
    moreover have "map_of (rt_by_frame u) i = Some ds \<Longrightarrow> map_of (rt_by_frame t) i = Some ds" for i ds
      by (simp add: u_def bt_remove_lookup split: if_splits)
    moreover have "rt_max_frames u = rt_max_frames t" "rt_max_bytes u = rt_max_bytes t" by (simp_all add: u_def)
    ultimately show ?thesis using 1(2) [OF True o' refl, of lost] l unfolding step by (simp add: u_def)
  qed
qed

lemma record_ok:
  assumes "ring_ok t"
  shows "ring_ok (record_frame i ds t)" "rt_max_frames (record_frame i ds t) = rt_max_frames t" "rt_max_bytes (record_frame i ds t) = rt_max_bytes t"
    and "length (rt_order t) \<le> rt_max_frames t \<Longrightarrow> rt_total_bytes t \<le> rt_max_bytes t \<or> length (rt_order t) \<le> 1 \<Longrightarrow>
      length (rt_order (record_frame i ds t)) \<le> rt_max_frames t \<and>
      (rt_total_bytes (record_frame i ds t) \<le> rt_max_bytes t \<or> length (rt_order (record_frame i ds t)) \<le> 1)"
proof -
  define u where "u = t\<lparr>rt_total_bytes := rt_total_bytes t + bytes_of ds, rt_order := rt_order t @ [i], rt_by_frame := bt_insert i ds (rt_by_frame t)\<rparr>"
  have "ring_ok u" if "map_of (rt_by_frame t) i = None"
    using assms that bt_insert_keys [of i ds "rt_by_frame t"]
    by (auto simp: ring_ok_def u_def bt_insert_sorted sum_bt_insert map_of_eq_None_iff)
  from evict_over_ok [OF this]
  show "ring_ok (record_frame i ds t)" "rt_max_frames (record_frame i ds t) = rt_max_frames t" "rt_max_bytes (record_frame i ds t) = rt_max_bytes t"
    "length (rt_order t) \<le> rt_max_frames t \<Longrightarrow> rt_total_bytes t \<le> rt_max_bytes t \<or> length (rt_order t) \<le> 1 \<Longrightarrow>
      length (rt_order (record_frame i ds t)) \<le> rt_max_frames t \<and>
      (rt_total_bytes (record_frame i ds t) \<le> rt_max_bytes t \<or> length (rt_order (record_frame i ds t)) \<le> 1)"
    using assms by (auto simp: record_frame_def u_def [symmetric]) (simp_all add: u_def)
qed

text \<open>The retransmit history is bounded: whatever frames are recorded, it holds at most the configured number of
  frames, and more bytes than the ceiling only when they are one frame's; its byte count is exact.\<close>

theorem retransmit_history_bounded:
  "let t = fold (\<lambda>(i, ds). record_frame i ds) xs (ring_new max_frames max_bytes)
   in length (rt_order t) \<le> max 1 max_frames \<and> (rt_total_bytes t \<le> max 1 max_bytes \<or> length (rt_order t) \<le> 1) \<and>
    rt_total_bytes t = sum_list (map (bytes_of \<circ> snd) (rt_by_frame t)) \<and> length (rt_order t) = length (rt_by_frame t)"
proof -
  define t where "t = fold (\<lambda>(i, ds). record_frame i ds) xs (ring_new max_frames max_bytes)"
  define P where "P u \<longleftrightarrow> ring_ok u \<and> rt_max_frames u = max 1 max_frames \<and> rt_max_bytes u = max 1 max_bytes \<and>
      length (rt_order u) \<le> max 1 max_frames \<and> (rt_total_bytes u \<le> max 1 max_bytes \<or> length (rt_order u) \<le> 1)" for u
  have "P u \<Longrightarrow> P (fold (\<lambda>(i, ds). record_frame i ds) xs u)" for u
  proof (induction xs arbitrary: u)
    case (Cons x xs)
    have "P (record_frame (fst x) (snd x) u)" using Cons.prems record_ok [of u "fst x" "snd x"] by (simp add: P_def)
    then show ?case using Cons.IH by (simp add: case_prod_beta)
  qed simp
  moreover have "P (ring_new max_frames max_bytes)" by (auto simp: P_def ring_new_def ring_ok_def bt_sorted_def)
  ultimately have "P t" unfolding t_def by blast
  moreover have "length (rt_order u) = length (rt_by_frame u)" if "ring_ok u" for u
  proof -
    have "card (set (rt_order u)) = length (rt_order u)" "card (fst ` set (rt_by_frame u)) = length (rt_by_frame u)"
      using that bt_sorted_distinct [of "rt_by_frame u"] distinct_card [of "map fst (rt_by_frame u)"] distinct_card [of "rt_order u"]
      unfolding ring_ok_def by simp_all
    then show ?thesis using that unfolding ring_ok_def by simp
  qed
  ultimately show ?thesis unfolding Let_def t_def [symmetric] by (auto simp: P_def ring_ok_def)
qed


section \<open>A retransmit repairs the frame\<close>

text \<open>A frame with a buffer was not retired.\<close>

definition unretired :: "reassembler \<Rightarrow> bool" where
  "unretired r \<longleftrightarrow> bt_sorted (fr_pending r) \<and> (\<forall>i p. (i, p) \<in> set (fr_pending r) \<longrightarrow> i \<notin> fr_retired r)"

lemma unretired_fields:
  "unretired (r\<lparr>fr_dropped_queue := q\<rparr>) = unretired r" "unretired (r\<lparr>fr_needs_retransmit := ns\<rparr>) = unretired r"
  "unretired (r\<lparr>fr_retransmit_grace := a, fr_nack_max_frags := b\<rparr>) = unretired r"
  by (simp_all add: unretired_def)

lemma unretired_sweep: "unretired r \<Longrightarrow> unretired (sweep_hopeless_frames r)"
  using sweep_ids_facts(1) [of r] sweep_sorted [of r] by (auto simp: unretired_def sweep_pending)

lemma ingest_unretired:
  assumes "ingest f r = Some (res, r')" "unretired r"
  shows "unretired r'"
proof -
  have sorted: "bt_sorted (fr_pending r)" using assms(2) by (simp add: unretired_def)
  have filed: "unretired s" if "fr_pending s = bt_insert i q (fr_pending r)" "fr_retired s = fr_retired r" "\<not> was_retired i r" for i q s
    using assms(2) that by (auto simp: unretired_def bt_insert_sorted bt_insert_set was_retired_def)
  show ?thesis
    using assms(1) sorted
  proof (cases rule: ingest_cases)
    case stale
    then show ?thesis using assms(2) by (simp add: unretired_def)
  next
    case (complete q s avcc via)
    have "unretired (retire_frame (fh_frame_id (ff_header f)) s)"
      using filed [OF complete(7,12,14)] retire_ids(1) [of "fh_frame_id (ff_header f)" s] bt_remove_sorted [of "fr_pending s" "fh_frame_id (ff_header f)"]
      by (auto simp: unretired_def) (auto simp: bt_remove_def)
    then show ?thesis unfolding complete(10) by (rule unretired_sweep)
  next
    case (waits q s)
    have "unretired (sweep_hopeless_frames s)" by (rule unretired_sweep [OF filed [OF waits(5,10,12)]])
    then show ?thesis using waits(8) unfolding unretired_def by (elim disjE conjE) simp_all
  qed
qed

lemma client_run_unretired:
  "client_run acts r = Some (evs, r') \<Longrightarrow> unretired r \<Longrightarrow> unretired r'"
proof (induction acts arbitrary: r evs)
  case (Cons act acts)
  obtain ev s evs' where s: "client_step act r = Some (ev, s)" "client_run acts s = Some (evs', r')"
    using Cons.prems(1) by (auto split: option.splits)
  have "unretired s"
  proof (cases act)
    case (Arrive d)
    then show ?thesis using s(1) Cons.prems(2) by (auto simp: client_step_def intro: ingest_unretired split: sum.splits)
  qed (use s(1) Cons.prems(2) in \<open>auto simp: client_step_def next_dropped_frame_def next_needs_retransmit_def
         enable_retransmit_def unretired_fields split: list.splits\<close>)
  then show ?case using Cons.IH [OF s(2)] by simp
qed simp

text \<open>A frame held for its retransmit: older than the frontier, inside the window, and asked for.\<close>

definition held :: "nat \<Rightarrow> reassembler \<Rightarrow> bool" where
  "held k r \<longleftrightarrow> of_nat k \<in> fr_nacked r \<and> 0 < fr_retransmit_grace r \<and>
     (\<exists>h. fr_highest_seen r = Some h \<and> distance_wrapped (of_nat k) h \<le> 0 \<and> distance_wrapped h (of_nat k) \<le> fr_retransmit_grace r)"

definition repairing :: "(bytes \<times> packetize_options) list \<Rightarrow> rs_fec option \<Rightarrow> nat \<Rightarrow> nat set \<Rightarrow> reassembler \<Rightarrow> bool" where
  "repairing xs fec k J r \<longleftrightarrow> genuine xs fec r \<and> unretired r \<and> held k r \<and>
     (\<exists>p. map_of (fr_pending r) (of_nat k) = Some p \<and> holds_exactly (xs ! k) J p)"

lemma held_not_swept:
  assumes "held k s" "map_of (fr_pending s) (of_nat k) = Some q" "bt_sorted (fr_pending s)"
  shows "of_nat k \<notin> set (sweep_ids s)"
proof
  assume "of_nat k \<in> set (sweep_ids s)"
  then obtain h p where hp: "fr_highest_seen s = Some h" "(of_nat k, p) \<in> set (fr_pending s)" "sweep_verdict_of h s (of_nat k) p = Hopeless"
    by (cases "fr_highest_seen s") (auto simp: sweep_ids_def)
  then show False using assms(1) by (auto simp: sweep_verdict_of_def held_def Let_def split: if_splits)
qed

lemma repair_step:
  fixes seq :: u32
  assumes "k < length xs" "length xs < 2 ^ 31" "frame_fits fec (xs ! k)" "tier_fits fec (po_fec_tier (snd (xs ! k)))"
    and j: "j < length (frame_shards fec (fst (xs ! k)) (po_fec_tier (snd (xs ! k))))"
    and R: "repairing xs fec k J r"
    and ok: "ingest (sent_fragment fec (fst (xs ! k)) (snd (xs ! k)) seq (of_nat k) j) r = Some (res, r')"
  obtains (shown) rf where "res = Completed rf" "rf_frame_id rf = of_nat k" "rf_avcc rf = fst (xs ! k)"
  | (waits) "repairing xs fec k (insert j J) r'" "\<not> enough fec (xs ! k) (insert j J)"
proof -
  define f where "f = sent_fragment fec (fst (xs ! k)) (snd (xs ! k)) seq (of_nat k) j"
  have k32: "length xs < 2 ^ 32" using assms(2) by simp
  have G: "genuine xs fec r" "unretired r" "held k r" using R by (simp_all add: repairing_def)
  obtain p where p: "map_of (fr_pending r) (of_nat k) = Some p" "holds_exactly (xs ! k) J p" using R by (auto simp: repairing_def)
  note F = genuine_filed [OF G(1) assms(1) k32 assms(3,4) j, of seq, folded f_def]
  have i: "fh_frame_id (ff_header f) = of_nat k" by (simp add: f_def sent_fragment_def fragment_at_def Let_def)
  have fec: "fr_fec r = fec" and sorted: "bt_sorted (fr_pending r)" using G(1) by (simp_all add: genuine_def buffers_def)
  have e: "entry_for f r = p" using p(1) by (simp add: entry_for_def i)
  obtain h where h: "fr_highest_seen r = Some h" "distance_wrapped (of_nat k) h \<le> 0" "distance_wrapped h (of_nat k) \<le> fr_retransmit_grace r"
    using G(3) by (auto simp: held_def)
  have adv: "fst (advance_frontier (of_nat k) r)" "fr_highest_seen (snd (advance_frontier (of_nat k) r)) = Some h"
    using h(2) by (simp_all add: advance_frontier_def h(1) Let_def max_frontier_jump_def)
  have "of_nat k \<notin> fr_retired r" using G(2) map_of_SomeD [OF p(1)] by (auto simp: unretired_def)
  then have fresh: "\<not> was_retired (of_nat k) r" using p(1) by (auto simp: was_retired_def split: option.split)
  have exact: "\<exists>via. assemble fec (file_fragment f (entry_for f r)) = Some (Some (fst (xs ! k), via))"
    if "complete_by_count (file_fragment f (entry_for f r))"
    by (rule assemble_genuine [OF assms(4,3) F(1,2) that])
  have gr: "genuine xs fec r'"
    using ingest_genuine [OF G(1) assms(1) k32 assms(3,4) j, of seq] ok by (metis Pair_inject option.inject)
  have ok': "ingest f r = Some (res, r')" using ok by (simp add: f_def)
  have "res \<noteq> Stale" by (rule ingest_not_stale [OF ok' F(5)]) (use fresh adv(1) F(6) i in simp_all)
  from ok' sorted show thesis
  proof (cases rule: ingest_cases)
    case stale
    then show thesis using \<open>res \<noteq> Stale\<close> by simp
  next
    case (complete q s avcc via)
    have "complete_by_count (file_fragment f (entry_for f r))" using complete(3,4) precheck_recounts [OF F(4)] by simp
    then have "avcc = fst (xs ! k)" using exact complete(3,5) fec by auto
    then show thesis using shown complete(6) i by simp
  next
    case (waits q s)
    have hs: "held k s" using waits(9,13,14) adv(2) i h G(3) by (auto simp: held_def)
    have lq: "map_of (fr_pending s) (of_nat k) = Some q" "bt_sorted (fr_pending s)"
      using waits(5) sorted i by (simp_all add: bt_insert_lookup bt_insert_sorted)
    note out = held_not_swept [OF hs lq]
    have notyet: "\<not> complete_by_count q" using exact waits(3,4) precheck_recounts [OF F(4)] fec by auto
    have "fr_pending r' = filter (\<lambda>x. fst x \<notin> set (sweep_ids s)) (fr_pending s)" using waits(8) sweep_pending [of s] by (elim disjE conjE) simp_all
    moreover have "map_of (filter (\<lambda>x. fst x \<notin> A) ys) a = (if a \<notin> A then map_of ys a else None)" for A and ys :: "(u32 \<times> pending) list" and a
      by (induction ys) auto
    ultimately have look: "map_of (fr_pending r') (of_nat k) = Some q" using lq(1) out by simp
    have "of_nat k \<in> fr_nacked (sweep_hopeless_frames s)" using sweep_nacked [of s] out hs by (auto simp: held_def)
    then have "held k (sweep_hopeless_frames s)" using hs by (simp add: held_def)
    then have hr: "held k r'" using waits(8) unfolding held_def by (elim disjE conjE) simp_all
    have hq: "holds_exactly (xs ! k) (insert j J) q"
      using F(7,8) waits(3) p(2) by (auto simp: holds_exactly_def e split: if_splits)
    have sh: "shaped_for fec (xs ! k) q" using F(1) waits(3) by simp
    have "\<not> enough fec (xs ! k) (insert j J)" using enough_completes [OF sh assms(3,4) hq] notyet by blast
    then show thesis using gr hr look hq ingest_unretired [OF ok' G(2)] that(2) by (auto simp: repairing_def)
  qed
qed

lemma repair_run:
  assumes "k < length xs" "length xs < 2 ^ 31" "frame_fits fec (xs ! k)" "tier_fits fec (po_fec_tier (snd (xs ! k)))"
  shows "repairing xs fec k J r \<Longrightarrow>
    \<forall>d\<in>set ds. \<exists>seq j. j < length (frame_shards fec (fst (xs ! k)) (po_fec_tier (snd (xs ! k)))) \<and>
      fragment_decode d = Inr (sent_fragment fec (fst (xs ! k)) (snd (xs ! k)) seq (of_nat k) j) \<Longrightarrow>
    client_run (map Arrive ds) r = Some (evs, r') \<Longrightarrow> ds \<noteq> [] \<Longrightarrow>
    enough fec (xs ! k) (J \<union> arrived ds) \<Longrightarrow>
    \<exists>rf. Result (Completed rf) \<in> set evs \<and> rf_frame_id rf = of_nat k \<and> rf_avcc rf = fst (xs ! k)"
proof (induction ds arbitrary: J r evs)
  case (Cons d ds)
  obtain seq j where d: "j < length (frame_shards fec (fst (xs ! k)) (po_fec_tier (snd (xs ! k))))"
    "fragment_decode d = Inr (sent_fragment fec (fst (xs ! k)) (snd (xs ! k)) seq (of_nat k) j)" using Cons.prems(2) by auto
  obtain res s evs' where s: "ingest (sent_fragment fec (fst (xs ! k)) (snd (xs ! k)) seq (of_nat k) j) r = Some (res, s)"
    "client_run (map Arrive ds) s = Some (evs', r')" "evs = Result res # evs'"
    using Cons.prems(3) d(2) by (auto simp: client_step_def split: option.splits)
  have "unat (fh_frag_index (ff_header (sent_fragment fec (fst (xs ! k)) (snd (xs ! k)) seq (of_nat k) j))) = j"
    using d(1) assms(3) by (simp add: sent_fragment_def fragment_at_def Let_def frame_fits_def max_fragments_per_frame_def unat_of_nat_16)
  then have arr: "arrived (d # ds) = insert j (arrived ds)" using d(2) unfolding arrived_def by (auto 4 4) metis+
  from assms d(1) Cons.prems(1) s(1) show ?case
  proof (cases rule: repair_step)
    case (shown rf)
    then show ?thesis using s(3) by auto
  next
    case waits
    have en: "enough fec (xs ! k) (insert j J \<union> arrived ds)" using Cons.prems(5) by (simp add: arr)
    then have "ds \<noteq> []" using waits(2) by (auto simp: arrived_def)
    from Cons.IH [OF waits(1) _ s(2) this en] Cons.prems(2) show ?thesis using s(3) by auto
  qed
qed simp


lemma missing_scan_set:
  "missing_scan d cap is acc = Some out \<Longrightarrow> set out = set acc \<union> {of_nat i | i. i \<in> set is \<and> d (of_nat i) = None} \<and> out \<noteq> []"
  by (induction "is" arbitrary: acc) (auto simp: Let_def split: if_splits)

lemma enough_all_data: "\<forall>j<length (frame_payloads (fst x)). j \<in> J \<Longrightarrow> enough fec x J"
  by (auto simp: enough_def Let_def split: option.split)

text \<open>What a genuine buffer holds.\<close>

definition held_indices :: "bytes \<times> packetize_options \<Rightarrow> pending \<Rightarrow> nat set" where
  "held_indices x q = {j. j < length (frame_payloads (fst x)) \<and> pf_data q (of_nat j) \<noteq> None} \<union>
     (\<lambda>s. length (frame_payloads (fst x)) + s) ` dom (pf_parity q)"

lemma holds_held_indices:
  assumes "holds_shards fec x q"
  shows "holds_exactly x (held_indices x q) q"
proof -
  have "w \<in> of_nat ` {j. j < length (frame_payloads (fst x)) \<and> pf_data q (of_nat j) \<noteq> None}" if "w \<in> dom (pf_data q)" for w
  proof -
    have "unat w < length (frame_payloads (fst x))" using assms that by (auto simp: holds_shards_def)
    moreover have "of_nat (unat w) = w" by simp
    ultimately show ?thesis using that by (intro image_eqI [of _ _ "unat w"]) auto
  qed
  then have "dom (pf_data q) = of_nat ` {j. j < length (frame_payloads (fst x)) \<and> pf_data q (of_nat j) \<noteq> None}" by auto
  moreover have "{j \<in> held_indices x q. j < length (frame_payloads (fst x))} = {j. j < length (frame_payloads (fst x)) \<and> pf_data q (of_nat j) \<noteq> None}"
    by (auto simp: held_indices_def)
  moreover have "{s. length (frame_payloads (fst x)) + s \<in> held_indices x q} = dom (pf_parity q)"
    by (auto simp: held_indices_def)
  ultimately show ?thesis unfolding holds_exactly_def by simp
qed

text \<open>C15. A selective retransmit repairs the frame: after any honest traffic, when the client holds an older frame for
  its retransmit and asks for the fragments its buffer misses, the datagrams the host's history answers
  with, arriving in any order and with any duplicates, complete that frame with exactly its bytes.\<close>

theorem retransmit_repairs_the_frame:
  assumes "fec = None \<or> fec = fec_new g m"
    and "\<forall>x\<in>set xs. tier_fits fec (po_fec_tier (snd x))" "length xs < 2 ^ 31"
    and sent: "send_frames xs (packetizer_new fec) = Some (dss, p)"
    and before: "\<forall>d. Arrive d \<in> set acts \<longrightarrow> (\<exists>ds\<in>set dss. d \<in> set ds)"
      "client_run acts (reassembler_new fec grace) = Some (evs0, r)"
    and k: "k < length xs" "frame_fits fec (xs ! k)" "map_of (fr_pending r) (of_nat k) = Some q"
    and asked: "of_nat k \<in> fr_nacked r" "missing_data_frags cap q = Some idx" "0 < fr_retransmit_grace r"
    and window: "fr_highest_seen r = Some h" "distance_wrapped (of_nat k) h \<le> 0" "distance_wrapped h (of_nat k) \<le> fr_retransmit_grace r"
    and ring: "map_of (rt_by_frame t) (of_nat k) = Some (dss ! k)" "set ds = set (ring_fragments (of_nat k) idx t)"
  shows "\<exists>evs r'. client_run (map Arrive ds) r = Some (evs, r') \<and>
    (\<exists>rf. Result (Completed rf) \<in> set evs \<and> rf_frame_id rf = of_nat k \<and> rf_avcc rf = fst (xs ! k))"
proof -
  define n where "n = length (frame_payloads (fst (xs ! k)))"
  have len: "length dss = length xs" "length xs < 2 ^ 32"
    using send_frames_facts [of xs "packetizer_new fec"] assms(2,3) sent by auto
  have tier: "tier_fits fec (po_fec_tier (snd (xs ! k)))" using assms(2) k by simp
  from client_run_genuine [OF assms(2) len(2) sent before(1) genuine_new [OF assms(1), of xs grace]] before(2) have G: "genuine xs fec r" by auto
  have U: "unretired r"
    using client_run_unretired [OF before(2)] by (simp add: unretired_def reassembler_new_def bt_sorted_def)
  have "genuine_buffer xs fec (of_nat k) q" using buffers_lookup [OF _ k(3)] G unfolding genuine_def by blast
  then obtain k' where k': "k' < length xs" "(of_nat k :: u32) = of_nat k'" "shaped_for fec (xs ! k') q" "holds_shards fec (xs ! k') q"
    by (auto simp: genuine_buffer_def)
  then have "k' = k" using of_nat_32_inj [of k k'] len(2) k(1) by simp
  note Q = k'(3,4) [unfolded this]
  define J where "J = held_indices (xs ! k) q"
  have R: "repairing xs fec k J r"
    using G U asked(1,3) window k(3) holds_held_indices [OF Q(2)] by (auto simp: repairing_def held_def J_def)
  have "n \<le> 8192" using k(2) unfolding frame_fits_def frame_shards_def max_fragments_per_frame_def n_def by simp
  then have un: "unat (of_nat j :: u16) = j" if "j < n" for j using that by (intro unat_of_nat_16) simp
  have idx: "set idx = {of_nat i | i. i < n \<and> pf_data q (of_nat i) = None}" "idx \<noteq> []"
    using asked(2) shaped_counts(1) [OF Q(1) k(2) tier] missing_scan_set [of "pf_data q" cap "[0..<n]" "[]" idx]
    by (auto simp: missing_data_frags_def n_def Let_def split: if_splits)
  have S: "sent_as fec (xs ! k) (of_nat k) (dss ! k)"
    using send_frames_facts [of xs "packetizer_new fec"] assms(2) sent k(1) by auto
  obtain seq where "mset (dss ! k) = mset (sent_datagrams fec (xs ! k) seq (of_nat k))" using S k(2) by (auto simp: sent_as_def)
  then have ds: "set (dss ! k) = set (sent_datagrams fec (xs ! k) seq (of_nat k))" by (metis set_mset_mset)
  let ?n = "length (frame_shards fec (fst (xs ! k)) (po_fec_tier (snd (xs ! k))))"
  let ?f = "sent_fragment fec (fst (xs ! k)) (snd (xs ! k)) seq (of_nat k)"
  have dec: "fragment_decode (fragment_encode (?f j)) = Inr (?f j)" if "j < ?n" for j by (rule sent_fragment_decodes(1) [OF tier that])
  have ix: "fh_frag_index (ff_header (?f j)) = of_nat j" for j by (simp add: sent_fragment_def fragment_at_def Let_def)
  have answer: "set ds = {fragment_encode (?f j) | j. j < ?n \<and> of_nat j \<in> set idx}"
    using dec ix by (auto simp: ring(2) ring_fragments_def ring(1) ds sent_datagrams_def)
  have each: "\<forall>d\<in>set ds. \<exists>seq j. j < ?n \<and> fragment_decode d = Inr (sent_fragment fec (fst (xs ! k)) (snd (xs ! k)) seq (of_nat k) j)"
    unfolding answer using dec by blast
  have nn: "n \<le> ?n" by (simp add: frame_shards_def n_def)
  have came: "j \<in> arrived ds" if "j < n" "pf_data q (of_nat j) = None" for j
  proof -
    have "j < ?n" using that nn by simp
    moreover have "(of_nat j :: u16) \<in> set idx" using that idx by blast
    ultimately have "fragment_encode (?f j) \<in> set ds" unfolding answer by blast
    then show ?thesis using dec [OF \<open>j < ?n\<close>] un [OF that(1)] ix [of j] unfolding arrived_def
      by (intro CollectI exI [of _ "?f j"]) auto
  qed
  obtain i where "i < n" "pf_data q (of_nat i) = None" using idx by (cases idx) auto
  then have ne: "ds \<noteq> []" using came by (auto simp: arrived_def)
  have "enough fec (xs ! k) (J \<union> arrived ds)"
    using came by (intro enough_all_data) (auto simp: J_def held_indices_def n_def)
  note done' = repair_run [OF k(1) assms(3) k(2) tier R each _ ne this]
  have "set ds \<subseteq> set (dss ! k)" unfolding ring(2) ring_fragments_def ring(1) by auto
  then have "\<forall>d. Arrive d \<in> set (map Arrive ds) \<longrightarrow> (\<exists>ds\<in>set dss. d \<in> set ds)"
    using k(1) len(1) by (auto intro!: bexI [of _ "dss ! k"])
  from client_run_genuine [OF assms(2) len(2) sent this G] obtain evs r' where run: "client_run (map Arrive ds) r = Some (evs, r')" by blast
  then show ?thesis using done' by blast
qed

section \<open>The repair on two frames\<close>

definition demo_chunk :: bytes where "demo_chunk = replicate 1177 0"

definition demo_frames :: "(bytes \<times> packetize_options) list" where
  "demo_frames = [(demo_chunk @ [7], demo_options), ([9], demo_options)]"

lemma demo_chunks: "length demo_chunk = 1177" "frame_payloads (demo_chunk @ [7]) = [demo_chunk, [7]]" "frame_payloads [9] = [[9]]"
proof -
  show l: "length demo_chunk = 1177" by (simp add: demo_chunk_def)
  then show "frame_payloads (demo_chunk @ [7]) = [demo_chunk, [7]]"
    by (simp add: frame_payloads_def max_payload_size_def max_datagram_size_def header_size_def
        slice_chunks.simps [of 1177 "demo_chunk @ [7]"] slice_chunks.simps [of 1177 "[7]"] slice_chunks.simps [of 1177 "[]"])
  show "frame_payloads [9] = [[9]]"
    by (simp add: frame_payloads_def max_payload_size_def max_datagram_size_def header_size_def
        slice_chunks.simps [of 1177 "[9]"] slice_chunks.simps [of 1177 "[]"])
qed

lemma demo_shards: "frame_shards None f t = frame_payloads f"
  by (simp add: frame_shards_def frame_parity_def parity_payloads_def)

definition demo_fragment :: "u32 \<Rightarrow> u32 \<Rightarrow> nat \<Rightarrow> nat \<Rightarrow> bytes \<Rightarrow> bytes" where
  "demo_fragment seq i j n payload = fragment_encode (fragment_at seq i j n 1 9 payload)"

lemma demo_fragments:
  "sent_datagrams None (demo_frames ! 0) seq 0 = [demo_fragment seq 0 0 2 demo_chunk, demo_fragment (seq + 1) 0 1 2 [7]]"
  "sent_datagrams None (demo_frames ! Suc 0) seq 1 = [demo_fragment seq 1 0 1 [9]]"
proof -
  have fl: "fragment_flags demo_options False = 1" by code_simp
  show "sent_datagrams None (demo_frames ! 0) seq 0 = [demo_fragment seq 0 0 2 demo_chunk, demo_fragment (seq + 1) 0 1 2 [7]]"
    "sent_datagrams None (demo_frames ! Suc 0) seq 1 = [demo_fragment seq 1 0 1 [9]]"
    by (simp_all add: sent_datagrams_def demo_frames_def demo_shards demo_chunks sent_fragment_def Let_def fl demo_fragment_def demo_upt)
      (simp_all add: demo_options_def numeral_2_eq_2)
qed

lemma demo_sent_frames:
  obtains dss p s t where "send_frames demo_frames (packetizer_new None) = Some (dss, p)"
    "set (dss ! 0) = {demo_fragment s 0 0 2 demo_chunk, demo_fragment (s + 1) 0 1 2 [7]}" "set (dss ! 1) = {demo_fragment t 1 0 1 [9]}"
proof -
  have tier: "\<forall>x\<in>set demo_frames. tier_fits (pk_fec (packetizer_new None)) (po_fec_tier (snd x))"
    by (simp add: demo_frames_def demo_options_def tier_fits_def)
  obtain dss p where d: "send_frames demo_frames (packetizer_new None) = Some (dss, p)"
    "\<forall>k<length demo_frames. sent_as None (demo_frames ! k) (of_nat k) (dss ! k)"
    using send_frames_facts [OF tier] by auto
  have "sent_as None (demo_frames ! 0) 0 (dss ! 0)" "sent_as None (demo_frames ! Suc 0) 1 (dss ! 1)"
    using d(2) by (auto simp: demo_frames_def dest: spec [of _ 0] spec [of _ "Suc 0"])
  moreover have "frame_fits None (demo_frames ! 0)" "frame_fits None (demo_frames ! Suc 0)"
    by (simp_all add: frame_fits_def demo_shards demo_frames_def demo_chunks max_fragments_per_frame_def)
  ultimately obtain s t where "mset (dss ! 0) = mset (sent_datagrams None (demo_frames ! 0) s 0)"
      "mset (dss ! 1) = mset (sent_datagrams None (demo_frames ! Suc 0) t 1)"
    unfolding sent_as_def by auto
  then have "set (dss ! 0) = {demo_fragment s 0 0 2 demo_chunk, demo_fragment (s + 1) 0 1 2 [7]}" "set (dss ! 1) = {demo_fragment t 1 0 1 [9]}"
    unfolding demo_fragments by (simp_all add: mset_eq_setD flip: set_mset_mset)
  then show thesis using that d(1) by blast
qed

lemma demo_held:
  obtains evs r q where "client_run [Enable_Retransmit 5 8, Arrive (demo_fragment s 0 0 2 demo_chunk), Arrive (demo_fragment t 1 0 1 [9])] (reassembler_new None 2) = Some (evs, r)"
    "map_of (fr_pending r) 0 = Some q" "0 \<in> fr_nacked r" "missing_data_frags 8 q = Some [1]" "fr_highest_seen r = Some 1" "fr_retransmit_grace r = 5"
  using demo_chunks(1)
  by (simp add: demo_fragment_def reassembler_eval demo_upt)

lemma retransmit_repairs_the_frame_witness:
  "\<exists>dss p d0 d1 evs0 r evs r'. send_frames demo_frames (packetizer_new None) = Some (dss, p) \<and> d0 \<in> set (dss ! 0) \<and> d1 \<in> set (dss ! 1) \<and>
     client_run [Enable_Retransmit 5 8, Arrive d0, Arrive d1] (reassembler_new None 2) = Some (evs0, r) \<and>
     client_run (map Arrive (ring_fragments 0 [1] (record_frame 0 (dss ! 0) (ring_new 4 8000)))) r = Some (evs, r') \<and>
     (\<exists>rf. Result (Completed rf) \<in> set evs \<and> rf_frame_id rf = 0 \<and> rf_avcc rf = demo_chunk @ [7])"
proof -
  obtain dss p s t where d: "send_frames demo_frames (packetizer_new None) = Some (dss, p)"
    "set (dss ! 0) = {demo_fragment s 0 0 2 demo_chunk, demo_fragment (s + 1) 0 1 2 [7]}" "set (dss ! 1) = {demo_fragment t 1 0 1 [9]}"
    by (rule demo_sent_frames)
  have tier: "\<forall>x\<in>set demo_frames. tier_fits None (po_fec_tier (snd x))"
    by (simp add: demo_frames_def demo_options_def tier_fits_def)
  have len: "length dss = 2" using send_frames_facts [of demo_frames "packetizer_new None"] tier d(1) by (auto simp: demo_frames_def)
  let ?acts = "[Enable_Retransmit 5 8, Arrive (demo_fragment s 0 0 2 demo_chunk), Arrive (demo_fragment t 1 0 1 [9])]"
  obtain evs0 r q where r: "client_run ?acts (reassembler_new None 2) = Some (evs0, r)"
    "map_of (fr_pending r) 0 = Some q" "0 \<in> fr_nacked r" "missing_data_frags 8 q = Some [1]" "fr_highest_seen r = Some 1" "fr_retransmit_grace r = 5"
    by (rule demo_held)
  have "dss ! 0 \<in> set dss" "dss ! 1 \<in> set dss" using len by simp_all
  then have honest: "\<forall>x. Arrive x \<in> set ?acts \<longrightarrow> (\<exists>ds\<in>set dss. x \<in> set ds)" using d(2,3) by auto
  have ring: "map_of (rt_by_frame (record_frame 0 (dss ! 0) (ring_new 4 8000))) (of_nat 0) = Some (dss ! 0)"
    by (simp add: record_frame_def ring_new_def evict_over.simps)
  have fits: "frame_fits None (demo_frames ! 0)"
    by (simp add: frame_fits_def demo_shards demo_frames_def demo_chunks max_fragments_per_frame_def)
  have "\<exists>evs r'. client_run (map Arrive (ring_fragments (of_nat 0) [1] (record_frame 0 (dss ! 0) (ring_new 4 8000)))) r = Some (evs, r') \<and>
      (\<exists>rf. Result (Completed rf) \<in> set evs \<and> rf_frame_id rf = of_nat 0 \<and> rf_avcc rf = fst (demo_frames ! 0))"
    by (rule retransmit_repairs_the_frame [where fec = None and h = 1 and cap = 8, OF disjI1 [OF refl] tier _ d(1) honest r(1) _ fits _ _ r(4) _ r(5) _ _ ring refl])
      (use r in \<open>simp_all add: demo_frames_def distance_wrapped_def\<close>)
  then show ?thesis using d r(1) by (fastforce simp: demo_frames_def)
qed

end
