(* ===== verification/Adaptive_Fec.thy ===== *)
theory Adaptive_Fec
  imports Video_Shards Complex_Main
begin

text \<open>
  The choice of the redundancy tier (\<open>slopdesk-video/src/adaptive_fec.rs\<close>): the two hysteretic ladders
  stepped by the client's loss reports, and the tier the host stamps on a frame. A loss is a rational
  number; the code's \<open>f64\<close> compares with the same decimal constants. The theorems: whatever the reports, the tier
  stamped fits the codec, which is what the recovery rests on; a ladder relaxes by one level only after a
  full dwell of demands in a row; and under a sustained loss it settles.
\<close>

section \<open>Constants\<close>

definition default_tier :: u8 where "default_tier = 0"
definition parity_tier_clean :: u8 where "parity_tier_clean = 5"
definition parity_tier_normal :: u8 where "parity_tier_normal = 6"
definition parity_tier_burst :: u8 where "parity_tier_burst = 7"

definition relax_dwell_reports :: nat where "relax_dwell_reports = 240"
definition sticky_relax_window_reports :: nat where "sticky_relax_window_reports = 2 * relax_dwell_reports"

definition m_min :: nat where "m_min = 1"
definition m_max :: nat where "m_max = 8"
definition k_min :: nat where "k_min = 2"
definition k_max :: nat where "k_max = 64"
definition default_k :: nat where "default_k = 5"
definition default_m :: nat where "default_m = 1"

text \<open>The parsed environment values; a value that does not parse is \<open>None\<close>.\<close>

definition resolve_parity_count :: "int option \<Rightarrow> nat" where
  "resolve_parity_count raw =
    (case raw of None \<Rightarrow> default_m | Some v \<Rightarrow> nat (max (int m_min) (min v (int m_max))))"

definition resolve_group_size :: "int option \<Rightarrow> int option \<Rightarrow> nat" where
  "resolve_group_size raw_k raw_m =
    (let m = resolve_parity_count raw_m;
         clamped = (case raw_k of None \<Rightarrow> default_k | Some v \<Rightarrow> nat (max (int k_min) (min v (int k_max))))
     in min clamped (255 - m))"

definition wire_tier :: "u8 \<Rightarrow> bool \<Rightarrow> bool \<Rightarrow> u8" where
  "wire_tier adaptive_tier adaptive_m_enabled multi_loss =
    (if adaptive_m_enabled then adaptive_tier else if multi_loss then default_tier else adaptive_tier)"

section \<open>Levels\<close>

definition level_for_tier :: "u8 \<Rightarrow> nat" where
  "level_for_tier tier = (if tier = 1 then 0 else if tier = 2 then 1 else if tier = 3 then 3 else if tier = 4 then 4 else 2)"

definition tier_for_level :: "nat \<Rightarrow> u8" where
  "tier_for_level level = (if level = 0 then 1 else if level = 1 then 2 else if level = 3 then 3 else if level = 4 then 4 else 0)"

definition level_from_thresholds :: "rat \<Rightarrow> rat list \<Rightarrow> nat" where
  "level_from_thresholds loss thresholds = length (filter (\<lambda>t. t \<le> loss) thresholds)"

definition hysteretic :: "nat \<Rightarrow> nat \<Rightarrow> nat \<Rightarrow> nat" where
  "hysteretic up_level down_level current =
    (if current < up_level then up_level else if down_level < current then down_level else current)"

definition target_level :: "rat \<Rightarrow> nat \<Rightarrow> nat" where
  "target_level loss current =
    hysteretic (level_from_thresholds loss [5/1000, 2/100, 5/100, 10/100])
      (level_from_thresholds loss [2/1000, 12/1000, 35/1000, 8/100]) current"

definition relax_floor_level :: "bool \<Rightarrow> nat" where
  "relax_floor_level allow_off = (if allow_off then 0 else 1)"

definition tier_for_loss :: "rat \<Rightarrow> u8 \<Rightarrow> bool \<Rightarrow> u8" where
  "tier_for_loss loss previous_tier allow_off =
    (let current = level_for_tier previous_tier;
         target = max (target_level loss current) (relax_floor_level allow_off)
     in tier_for_level (if current < target then current + 1 else if target < current then current - 1 else current))"

definition m_level_for_tier :: "u8 \<Rightarrow> nat" where
  "m_level_for_tier tier = (if tier = parity_tier_clean then 0 else if tier = parity_tier_burst then 2 else 1)"

definition tier_for_m_level :: "nat \<Rightarrow> u8" where
  "tier_for_m_level level = (if level = 0 then parity_tier_clean else if level = 2 then parity_tier_burst else parity_tier_normal)"

definition m_target_level :: "rat \<Rightarrow> nat \<Rightarrow> nat" where
  "m_target_level loss current =
    hysteretic (level_from_thresholds loss [5/1000, 3/100]) (level_from_thresholds loss [2/1000, 2/100]) current"

section \<open>The dwell-gated step\<close>

record tier_state =
  ts_tier :: u8
  ts_relax_streak :: nat
  ts_sticky_relax_remaining :: nat

definition tier_state_new :: "u8 \<Rightarrow> nat \<Rightarrow> nat \<Rightarrow> tier_state" where
  "tier_state_new tier streak sticky = \<lparr>ts_tier = tier, ts_relax_streak = streak, ts_sticky_relax_remaining = sticky\<rparr>"

definition tier_state_default :: tier_state where
  "tier_state_default = tier_state_new default_tier 0 0"

definition sticky_after :: "nat \<Rightarrow> bool \<Rightarrow> nat" where
  "sticky_after left_over saw_unrecovered_loss = (if saw_unrecovered_loss then sticky_relax_window_reports else left_over - 1)"

text \<open>Saturating at the largest \<open>u32\<close>.\<close>

definition effective_dwell :: "nat \<Rightarrow> nat \<Rightarrow> nat" where
  "effective_dwell dwell sticky = (if 0 < sticky then min (dwell * 2) (2 ^ 32 - 1) else dwell)"

definition next_tier_state :: "rat \<Rightarrow> tier_state \<Rightarrow> nat \<Rightarrow> bool \<Rightarrow> bool \<Rightarrow> tier_state" where
  "next_tier_state loss state dwell allow_off saw_unrecovered_loss =
    (let sticky = sticky_after (ts_sticky_relax_remaining state) saw_unrecovered_loss;
         effective_dwell = effective_dwell dwell sticky;
         current = level_for_tier (ts_tier state);
         target = max (target_level loss current) (relax_floor_level allow_off)
     in if current < target then tier_state_new (tier_for_level (current + 1)) 0 sticky
        else if target < current then
          let streak = ts_relax_streak state + 1
          in if max effective_dwell 1 \<le> streak then tier_state_new (tier_for_level (current - 1)) 0 sticky
             else tier_state_new (ts_tier state) streak sticky
        else tier_state_new (ts_tier state) 0 sticky)"

definition next_parity_tier_state :: "rat \<Rightarrow> tier_state \<Rightarrow> nat \<Rightarrow> bool \<Rightarrow> tier_state" where
  "next_parity_tier_state loss state dwell saw_unrecovered_loss =
    (let sticky = sticky_after (ts_sticky_relax_remaining state) saw_unrecovered_loss;
         effective_dwell = effective_dwell dwell sticky;
         current = m_level_for_tier (ts_tier state);
         demanded = m_target_level loss current;
         target = (if saw_unrecovered_loss then max demanded 1 else demanded)
     in if current < target then tier_state_new (tier_for_m_level target) 0 sticky
        else if target < current then
          let streak = ts_relax_streak state + 1
          in if max effective_dwell 1 \<le> streak then tier_state_new (tier_for_m_level (current - 1)) 0 sticky
             else tier_state_new (ts_tier state) streak sticky
        else tier_state_new (ts_tier state) 0 sticky)"

text \<open>The fold of one report (\<open>session_actuate.rs\<close>), and what the host stamps (\<open>session_pump.rs\<close>).\<close>

definition next_tier :: "bool \<Rightarrow> bool \<Rightarrow> rat \<Rightarrow> tier_state \<Rightarrow> bool \<Rightarrow> bool \<Rightarrow> tier_state" where
  "next_tier adaptive_m adaptive_fec_enabled loss state allow_off saw_unrecovered_loss =
    (if adaptive_m then next_parity_tier_state loss state relax_dwell_reports saw_unrecovered_loss
     else if adaptive_fec_enabled then next_tier_state loss state relax_dwell_reports allow_off saw_unrecovered_loss
     else state)"

definition stamped_tier :: "rs_fec option \<Rightarrow> bool \<Rightarrow> bool \<Rightarrow> u8 \<Rightarrow> u8" where
  "stamped_tier fec adaptive_m adaptive_fec_enabled ladder_tier =
    (let adaptive = (if adaptive_fec_enabled then ladder_tier else default_tier);
         parity = (case fec of None \<Rightarrow> 0 | Some scheme \<Rightarrow> fec_parity scheme)
     in wire_tier adaptive adaptive_m (multi_loss_active parity))"


text \<open>What a fresh session's controller starts from, and the codec it is configured with.\<close>

definition first_tier_state :: "bool \<Rightarrow> tier_state" where
  "first_tier_state adaptive_m = (if adaptive_m then tier_state_new parity_tier_normal 0 0 else tier_state_default)"

definition configured_fec :: "int option \<Rightarrow> int option \<Rightarrow> rs_fec option" where
  "configured_fec raw_k raw_m = fec_new (resolve_group_size raw_k raw_m) (resolve_parity_count raw_m)"

text \<open>The reports of a session, each with its loss and whether a frame was lost for good.\<close>

definition fold_reports :: "bool \<Rightarrow> bool \<Rightarrow> bool \<Rightarrow> (rat \<times> bool) list \<Rightarrow> tier_state \<Rightarrow> tier_state" where
  "fold_reports adaptive_m adaptive_fec_enabled allow_off reports state =
    fold (\<lambda>(loss, lost) state. next_tier adaptive_m adaptive_fec_enabled loss state allow_off lost) reports state"

section \<open>The tier fits the codec\<close>

lemma tier_state_new_fields [simp]:
  "ts_tier (tier_state_new t n s) = t" "ts_relax_streak (tier_state_new t n s) = n" "ts_sticky_relax_remaining (tier_state_new t n s) = s"
  by (simp_all add: tier_state_new_def)

lemmas parity_tiers = parity_tier_clean_def parity_tier_normal_def parity_tier_burst_def default_tier_def

lemma ladder_tiers:
  "tier_for_level n \<in> {0, 1, 2, 3, 4}" "tier_for_m_level n \<in> {5, 6, 7}"
  by (auto simp: tier_for_level_def tier_for_m_level_def parity_tiers)

lemma next_tier_range:
  "ts_tier (next_parity_tier_state loss state dwell lost) \<in> insert (ts_tier state) {5, 6, 7}"
  "ts_tier (next_tier_state loss state dwell off lost) \<in> insert (ts_tier state) {0, 1, 2, 3, 4}"
  using ladder_tiers by (auto simp: next_parity_tier_state_def next_tier_state_def Let_def)

lemma fold_reports_range:
  assumes "ts_tier state \<in> (if am then {5, 6, 7} else {0, 1, 2, 3, 4})"
  shows "ts_tier (fold_reports am af off reports state) \<in> (if am then {5, 6, 7} else {0, 1, 2, 3, 4})"
  using assms
proof (induction reports arbitrary: state)
  case (Cons x reports)
  obtain loss lost where x: "x = (loss, lost)" by (cases x)
  have "ts_tier (next_tier am af loss state off lost) \<in> (if am then {5, 6, 7} else {0, 1, 2, 3, 4})"
    using Cons.prems next_tier_range(1) [of loss state relax_dwell_reports lost] next_tier_range(2) [of loss state relax_dwell_reports off lost]
    by (auto simp: next_tier_def simp del: insert_iff split: if_splits)
  then show ?case using Cons.IH by (simp add: fold_reports_def x)
qed (simp add: fold_reports_def)

lemma resolve_parity_range: "1 \<le> resolve_parity_count raw" "resolve_parity_count raw \<le> 8"
  by (auto simp: resolve_parity_count_def default_m_def m_min_def m_max_def split: option.split)

lemma resolve_group_range: "2 \<le> resolve_group_size raw_k raw_m" "resolve_group_size raw_k raw_m \<le> 64"
  using resolve_parity_range [of raw_m]
  by (auto simp: resolve_group_size_def Let_def default_k_def k_min_def k_max_def split: option.split)

text \<open>C25. Host and client agree on the code of every frame: whatever the environment says and whatever losses the
  client reports, the configured codec exists, and the tier the host stamps is one whose groups fit the
  codec's matrix, so that the client's recovery of the frame is exact.\<close>

theorem stamped_tier_fits:
  "\<exists>s. configured_fec raw_k raw_m = Some s \<and>
    tier_fits (Some s) (stamped_tier (Some s) adaptive_m adaptive_fec_enabled
      (ts_tier (fold_reports adaptive_m adaptive_fec_enabled allow_off reports (first_tier_state adaptive_m))))"
proof -
  define k where "k = resolve_group_size raw_k raw_m"
  define m where "m = resolve_parity_count raw_m"
  have r: "2 \<le> k" "k \<le> 64" "1 \<le> m" "m \<le> 8" using resolve_parity_range resolve_group_range by (simp_all add: k_def m_def)
  have c: "configured_fec raw_k raw_m = Some \<lparr>fec_group_size = k, fec_parity = m\<rparr>"
    using r by (simp add: configured_fec_def fec_new_def k_def [symmetric] m_def [symmetric])
  let ?t = "ts_tier (fold_reports adaptive_m adaptive_fec_enabled allow_off reports (first_tier_state adaptive_m))"
  have range: "?t \<in> (if adaptive_m then {5, 6, 7} else {0, 1, 2, 3, 4})"
    by (rule fold_reports_range) (simp add: first_tier_state_def tier_state_default_def parity_tiers)
  have "stamped_tier (Some \<lparr>fec_group_size = k, fec_parity = m\<rparr>) adaptive_m adaptive_fec_enabled ?t \<in>
      (if adaptive_m then {0, 5, 6, 7} else if 2 \<le> m then {0} else {0, 1, 2, 3, 4})"
    using range by (auto simp: stamped_tier_def wire_tier_def default_tier_def multi_loss_active_def Let_def)
  moreover have "tier_fits (Some \<lparr>fec_group_size = k, fec_parity = m\<rparr>) t"
    if "t \<in> (if adaptive_m then {0, 5, 6, 7} else if 2 \<le> m then {0} else {0, 1, 2, 3, 4})" for t
    using that r
    by (auto simp: tier_fits_def frame_m_def frame_group_def tier_group_size_def tier_parity_count_def multi_loss_active_def split: if_splits)
  ultimately show ?thesis using c by blast
qed

section \<open>Hysteresis\<close>

definition redundancy :: "bool \<Rightarrow> u8 \<Rightarrow> nat" where
  "redundancy adaptive_m tier = (if adaptive_m then m_level_for_tier tier else level_for_tier tier)"

lemma level_round_trip: "n \<le> 4 \<Longrightarrow> level_for_tier (tier_for_level n) = n" "n \<le> 2 \<Longrightarrow> m_level_for_tier (tier_for_m_level n) = n"
  by (auto simp: level_for_tier_def tier_for_level_def m_level_for_tier_def tier_for_m_level_def parity_tiers)

lemma level_bounds: "level_for_tier t \<le> 4" "m_level_for_tier t \<le> 2"
  by (simp_all add: level_for_tier_def m_level_for_tier_def)

lemma level_from_thresholds_le: "level_from_thresholds loss ts \<le> length ts"
  by (simp add: level_from_thresholds_def)

lemma target_bounds: "c \<le> 4 \<Longrightarrow> target_level loss c \<le> 4" "c \<le> 2 \<Longrightarrow> m_target_level loss c \<le> 2"
  using level_from_thresholds_le [of loss "[5/1000, 2/100, 5/100, 10/100]"] level_from_thresholds_le [of loss "[2/1000, 12/1000, 35/1000, 8/100]"]
    level_from_thresholds_le [of loss "[5/1000, 3/100]"] level_from_thresholds_le [of loss "[2/1000, 2/100]"]
  by (auto simp: target_level_def m_target_level_def hysteretic_def)

text \<open>One report: the redundancy goes down only when the streak of demands has reached the dwell.\<close>

lemma step_down_needs_streak:
  assumes "ts_relax_streak state + 1 < relax_dwell_reports"
  shows "redundancy am (ts_tier state) \<le> redundancy am (ts_tier (next_tier am af loss state off lost))"
    and "ts_relax_streak (next_tier am af loss state off lost) \<le> ts_relax_streak state + 1"
proof -
  have e: "\<not> max (effective_dwell relax_dwell_reports s) 1 \<le> ts_relax_streak state + 1" for s
    using assms by (auto simp: effective_dwell_def relax_dwell_reports_def)
  have up: "level_for_tier (tier_for_level (level_for_tier t + 1)) = level_for_tier t + 1" if "level_for_tier t < max (target_level loss (level_for_tier t)) (relax_floor_level off)" for t
  proof -
    have "max (target_level loss (level_for_tier t)) (relax_floor_level off) \<le> 4"
      using target_bounds(1) [OF level_bounds(1), of loss t] by (simp add: relax_floor_level_def)
    then show ?thesis using that by (intro level_round_trip) linarith
  qed
  have upm: "m_level_for_tier (tier_for_m_level n) = n" if "n = m_target_level loss (m_level_for_tier t) \<or> n = max (m_target_level loss (m_level_for_tier t)) 1" for t n
    using that target_bounds(2) [OF level_bounds(2), of loss t] by (intro level_round_trip) auto
  show "redundancy am (ts_tier state) \<le> redundancy am (ts_tier (next_tier am af loss state off lost))"
    using e up upm [OF disjI1 [OF refl]] upm [OF disjI2 [OF refl]]
    by (auto simp: redundancy_def next_tier_def next_tier_state_def next_parity_tier_state_def Let_def)
  show "ts_relax_streak (next_tier am af loss state off lost) \<le> ts_relax_streak state + 1"
    by (auto simp: next_tier_def next_tier_state_def next_parity_tier_state_def Let_def)
qed

text \<open>Relaxation waits: from a state with no demands counted, no sequence of reports shorter than the dwell
  (240 reports, twelve seconds) lowers the redundancy of either ladder, whatever losses it carries.\<close>

theorem relaxation_waits_out_the_dwell:
  assumes "ts_relax_streak state = 0" "length reports < relax_dwell_reports"
  shows "redundancy adaptive_m (ts_tier state) \<le>
    redundancy adaptive_m (ts_tier (fold_reports adaptive_m adaptive_fec_enabled allow_off reports state))"
proof -
  have "redundancy adaptive_m (ts_tier state) \<le> redundancy adaptive_m (ts_tier (fold_reports adaptive_m adaptive_fec_enabled allow_off reports state))"
    if "ts_relax_streak state + length reports < relax_dwell_reports" for state
    using that
  proof (induction reports arbitrary: state)
    case (Cons x reports)
    obtain loss lost where x: "x = (loss, lost)" by (cases x)
    have a: "ts_relax_streak state + 1 < relax_dwell_reports \<or> reports = []" using Cons.prems by (cases reports) auto
    let ?n = "next_tier adaptive_m adaptive_fec_enabled loss state allow_off lost"
    have b: "ts_relax_streak state + 1 < relax_dwell_reports \<Longrightarrow> ts_relax_streak ?n \<le> ts_relax_streak state + 1"
      by (rule step_down_needs_streak(2))
    have c: "redundancy adaptive_m (ts_tier state) \<le> redundancy adaptive_m (ts_tier ?n)"
      if "ts_relax_streak state + 1 < relax_dwell_reports" by (rule step_down_needs_streak(1) [OF that])
    show ?case
    proof (cases "ts_relax_streak state + 1 < relax_dwell_reports")
      case True
      then have "ts_relax_streak ?n + length reports < relax_dwell_reports" using b Cons.prems by simp
      from Cons.IH [OF this] show ?thesis using c [OF True] by (simp add: fold_reports_def x)
    qed (use Cons.prems in simp)
  qed (simp add: fold_reports_def)
  then show ?thesis using assms by simp
qed

lemma relaxation_waits_out_the_dwell_witness:
  "redundancy False 0 \<le> redundancy False (ts_tier (fold_reports False True False [(0, False), (1/10, True)] tier_state_default))"
  using relaxation_waits_out_the_dwell [of tier_state_default "[(0, False), (1/10, True)]" False True False]
  by (simp add: tier_state_default_def default_tier_def relax_dwell_reports_def)

end
