(* ===== verification/Workspace_State.thy ===== *)
theory Workspace_State
  imports Btree_Map Wire_Message "HOL-Library.List_Lexorder" "HOL-Library.Product_Lexorder"
begin

text \<open>
  The workspace document as a flat map of addressable cells (\<open>slopdesk-wire/src/document/state.rs\<close>): keys in
  the wire's canonical order, entries, diffs, the document's operations and its diff algebra. A cell's
  identity is a list of sixteen bytes, which \<open>uuid_ok\<close> says.
\<close>

section \<open>Keys\<close>

datatype workspace_object_kind = Root | Session | Tab | Pane | SplitNode | Project

definition all_kinds :: "workspace_object_kind list" where
  "all_kinds = [Root, Session, Tab, Pane, SplitNode, Project]"

definition kind_from_byte :: "u8 \<Rightarrow> workspace_object_kind option" where
  "kind_from_byte b =
    (if b = 0 then Some Root else if b = 1 then Some Session else if b = 2 then Some Tab
     else if b = 3 then Some Pane else if b = 4 then Some SplitNode else if b = 5 then Some Project else None)"

fun kind_as_byte :: "workspace_object_kind \<Rightarrow> u8" where
  "kind_as_byte Root = 0"
| "kind_as_byte Session = 1"
| "kind_as_byte Tab = 2"
| "kind_as_byte Pane = 3"
| "kind_as_byte SplitNode = 4"
| "kind_as_byte Project = 5"

definition root_object_id :: raw_uuid where
  "root_object_id = replicate 16 0"

text \<open>A key, ordered by its kind, then the bytes of its object, then its field.\<close>

datatype workspace_key = Workspace_Key (wk_kind: u8) (wk_object_id: raw_uuid) (wk_field: u8)

definition key_parts :: "workspace_key \<Rightarrow> u8 \<times> raw_uuid \<times> u8" where
  "key_parts k = (wk_kind k, wk_object_id k, wk_field k)"

lemma key_parts_eq: "key_parts a = key_parts b \<Longrightarrow> a = b"
  by (simp add: key_parts_def workspace_key.expand)

instantiation workspace_key :: linorder
begin

definition less_workspace_key :: "workspace_key \<Rightarrow> workspace_key \<Rightarrow> bool" where
  "less_workspace_key a b \<longleftrightarrow> key_parts a < key_parts b"

definition less_eq_workspace_key :: "workspace_key \<Rightarrow> workspace_key \<Rightarrow> bool" where
  "less_eq_workspace_key a b \<longleftrightarrow> key_parts a \<le> key_parts b"

instance
  by standard (auto simp: less_workspace_key_def less_eq_workspace_key_def dest: key_parts_eq)

end

definition key_size :: nat where
  "key_size = 18"

definition key_new :: "u8 \<Rightarrow> raw_uuid \<Rightarrow> u8 \<Rightarrow> workspace_key" where
  "key_new kind object_id field = Workspace_Key kind object_id field"

definition key_of :: "workspace_object_kind \<Rightarrow> raw_uuid \<Rightarrow> u8 \<Rightarrow> workspace_key" where
  "key_of kind object_id field = key_new (kind_as_byte kind) object_id field"

definition root_key :: "u8 \<Rightarrow> workspace_key" where
  "root_key field = key_of Root root_object_id field"

definition canonical_order :: "workspace_key list \<Rightarrow> u32 list" where
  "canonical_order keys = map snd (sort (zip keys (map of_nat [0..<length keys])))"

section \<open>Entries, diffs, the document\<close>

record workspace_entry =
  we_key :: workspace_key
  we_value :: bytes

record state_diff =
  sd_sets :: "workspace_entry list"
  sd_deletes :: "workspace_key list"

definition diff_is_empty :: "state_diff \<Rightarrow> bool" where
  "diff_is_empty d \<longleftrightarrow> sd_sets d = [] \<and> sd_deletes d = []"

record host_state =
  hs_entries :: "(workspace_key \<times> bytes) list"

definition state_new :: host_state where
  "state_new = \<lparr>hs_entries = []\<rparr>"

definition from_entries :: "workspace_entry list \<Rightarrow> host_state" where
  "from_entries es = \<lparr>hs_entries = fold (\<lambda>(k, v). bt_insert k v) (map (\<lambda>e. (we_key e, we_value e)) es) []\<rparr>"

definition state_is_empty :: "host_state \<Rightarrow> bool" where
  "state_is_empty s \<longleftrightarrow> hs_entries s = []"

definition state_len :: "host_state \<Rightarrow> nat" where
  "state_len s = length (hs_entries s)"

definition state_get :: "workspace_key \<Rightarrow> host_state \<Rightarrow> bytes option" where
  "state_get k s = map_of (hs_entries s) k"

definition sorted_entries :: "host_state \<Rightarrow> workspace_entry list" where
  "sorted_entries s = map (\<lambda>(k, v). \<lparr>we_key = k, we_value = v\<rparr>) (hs_entries s)"

definition state_keys :: "host_state \<Rightarrow> workspace_key list" where
  "state_keys s = map fst (hs_entries s)"

definition keys_of_object :: "u8 \<Rightarrow> raw_uuid \<Rightarrow> host_state \<Rightarrow> workspace_key list" where
  "keys_of_object kind object_id s = filter (\<lambda>k. wk_kind k = kind \<and> wk_object_id k = object_id) (map fst (hs_entries s))"

definition state_set :: "workspace_key \<Rightarrow> bytes \<Rightarrow> host_state \<Rightarrow> host_state" where
  "state_set k v s = s\<lparr>hs_entries := bt_insert k v (hs_entries s)\<rparr>"

definition set_or_clear :: "workspace_key \<Rightarrow> bytes option \<Rightarrow> host_state \<Rightarrow> bool \<times> host_state" where
  "set_or_clear k value s =
    (case value of
       Some v \<Rightarrow> (if map_of (hs_entries s) k = Some v then (False, s) else (True, s\<lparr>hs_entries := bt_insert k v (hs_entries s)\<rparr>))
     | None \<Rightarrow> (map_of (hs_entries s) k \<noteq> None, s\<lparr>hs_entries := bt_remove k (hs_entries s)\<rparr>))"

definition remove_object :: "u8 \<Rightarrow> raw_uuid \<Rightarrow> host_state \<Rightarrow> host_state" where
  "remove_object kind object_id s =
    s\<lparr>hs_entries := filter (\<lambda>(k, _). wk_kind k \<noteq> kind \<or> wk_object_id k \<noteq> object_id) (hs_entries s)\<rparr>"

definition diff_from :: "host_state \<Rightarrow> host_state \<Rightarrow> state_diff" where
  "diff_from s base =
    \<lparr>sd_sets = map (\<lambda>(k, v). \<lparr>we_key = k, we_value = v\<rparr>) (filter (\<lambda>(k, v). map_of (hs_entries base) k \<noteq> Some v) (hs_entries s)),
     sd_deletes = filter (\<lambda>k. map_of (hs_entries s) k = None) (map fst (hs_entries base))\<rparr>"

definition state_apply :: "state_diff \<Rightarrow> host_state \<Rightarrow> host_state" where
  "state_apply d s =
    (let es = fold (\<lambda>(k, v). bt_insert k v) (map (\<lambda>e. (we_key e, we_value e)) (sd_sets d)) (hs_entries s)
     in s\<lparr>hs_entries := fold bt_remove (sd_deletes d) es\<rparr>)"

definition applying :: "host_state \<Rightarrow> state_diff \<Rightarrow> host_state" where
  "applying s d = state_apply d s"

section \<open>Well-formedness and lookup laws\<close>

text \<open>The keys ascend, which is the container's invariant, and every identity has sixteen bytes.\<close>

definition state_ok :: "host_state \<Rightarrow> bool" where
  "state_ok s \<longleftrightarrow> bt_sorted (hs_entries s) \<and> (\<forall>k\<in>set (state_keys s). uuid_ok (wk_object_id k))"

lemma state_eqI:
  "bt_sorted (hs_entries s) \<Longrightarrow> bt_sorted (hs_entries t) \<Longrightarrow> (\<And>k. state_get k s = state_get k t) \<Longrightarrow> s = t"
  by (rule host_state.equality) (auto simp: state_get_def intro!: bt_ext ext)

lemma state_new_ok [simp]: "state_ok state_new" "state_get k state_new = None"
  by (simp_all add: state_ok_def state_new_def bt_sorted_def state_keys_def state_get_def)

lemma state_set_laws:
  assumes "bt_sorted (hs_entries s)"
  shows "bt_sorted (hs_entries (state_set k v s))" "state_get k' (state_set k v s) = (if k' = k then Some v else state_get k' s)"
  using assms by (simp_all add: state_set_def bt_insert_sorted state_get_def bt_insert_lookup)

lemma set_or_clear_laws:
  assumes "bt_sorted (hs_entries s)"
  shows "bt_sorted (hs_entries (snd (set_or_clear k v s)))"
    "state_get k' (snd (set_or_clear k v s)) = (if k' = k then v else state_get k' s)"
    "fst (set_or_clear k v s) \<longleftrightarrow> state_get k s \<noteq> v"
  using assms by (auto simp: set_or_clear_def bt_insert_sorted bt_remove_sorted state_get_def bt_insert_lookup bt_remove_lookup split: option.split)

lemma remove_object_laws:
  assumes "bt_sorted (hs_entries s)"
  shows "bt_sorted (hs_entries (remove_object kind i s))"
    "state_get k (remove_object kind i s) = (if wk_kind k = kind \<and> wk_object_id k = i then None else state_get k s)"
  using assms by (auto simp: remove_object_def bt_map_filter_sorted state_get_def bt_filter_lookup split: option.split)

lemma state_apply_sorted [simp]: "bt_sorted (hs_entries s) \<Longrightarrow> bt_sorted (hs_entries (state_apply d s))"
  by (simp add: state_apply_def bt_insert_all bt_remove_all)

lemma state_apply_get:
  assumes "bt_sorted (hs_entries s)"
  shows "state_get k (state_apply d s) =
    (if k \<in> set (sd_deletes d) then None
     else (map_of (hs_entries s) ++ map_of (rev (map (\<lambda>e. (we_key e, we_value e)) (sd_sets d)))) k)"
  using assms by (simp add: state_apply_def state_get_def bt_remove_all bt_insert_all)

section \<open>The diff algebra\<close>

lemma diff_from_sets:
  "map (\<lambda>e. (we_key e, we_value e)) (sd_sets (diff_from s base)) = filter (\<lambda>(k, v). map_of (hs_entries base) k \<noteq> Some v) (hs_entries s)"
  by (auto simp: diff_from_def comp_def case_prod_beta map_idI)

lemma map_of_rev:
  assumes "distinct (map fst xs)"
  shows "map_of (rev xs) = map_of xs"
proof
  fix k
  have "distinct (map fst (rev xs))" using assms by (simp add: rev_map [symmetric])
  then have "map_of (rev xs) k = Some v \<longleftrightarrow> map_of xs k = Some v" for v
    using assms by (simp add: map_of_eq_Some_iff)
  then show "map_of (rev xs) k = map_of xs k" by (metis not_None_eq)
qed

lemma apply_diff_get:
  assumes "bt_sorted (hs_entries s)" "bt_sorted (hs_entries t)"
  shows "state_get k (state_apply (diff_from s base) t) = (if state_get k s = state_get k base then state_get k t else state_get k s)"
proof -
  let ?new = "filter (\<lambda>(k, v). map_of (hs_entries base) k \<noteq> Some v) (hs_entries s)"
  have "map_of (rev ?new) = map_of ?new"
    by (rule map_of_rev) (simp add: bt_sorted_distinct bt_map_filter_sorted assms)
  then have sets: "map_of (rev (map (\<lambda>e. (we_key e, we_value e)) (sd_sets (diff_from s base)))) k =
      (case state_get k s of None \<Rightarrow> None | Some v \<Rightarrow> if state_get k base \<noteq> Some v then Some v else None)"
    by (simp add: diff_from_sets bt_filter_lookup assms state_get_def split: option.split)
  have dels: "k \<in> set (sd_deletes (diff_from s base)) \<longleftrightarrow> state_get k s = None \<and> state_get k base \<noteq> None"
    by (auto simp: diff_from_def state_get_def map_of_eq_None_iff)
  show ?thesis
    unfolding state_apply_get [OF assms(2)] map_add_def sets dels
    by (auto simp: state_get_def split: option.split)
qed

lemma diff_empty_iff:
  assumes "bt_sorted (hs_entries s)" "bt_sorted (hs_entries base)"
  shows "diff_is_empty (diff_from s base) \<longleftrightarrow> s = base"
proof
  assume e: "diff_is_empty (diff_from s base)"
  have "state_get k s = state_get k base" for k
  proof -
    have "(k, v) \<in> set (hs_entries s) \<Longrightarrow> map_of (hs_entries base) k = Some v" for v
      using e by (auto simp: diff_is_empty_def diff_from_def filter_empty_conv)
    moreover have "k \<in> fst ` set (hs_entries base) \<Longrightarrow> map_of (hs_entries s) k \<noteq> None"
      using e by (auto simp: diff_is_empty_def diff_from_def filter_empty_conv)
    ultimately show ?thesis using assms
      by (metis bt_sorted_lookup map_of_eq_None_iff not_None_eq state_get_def)
  qed
  then show "s = base" by (rule state_eqI [OF assms])
next
  assume "s = base"
  then show "diff_is_empty (diff_from s base)" using bt_sorted_lookup [OF assms(1)]
    by (auto simp: diff_is_empty_def diff_from_def filter_empty_conv map_of_eq_None_iff)
qed

lemma apply_diff_exact:
  assumes "bt_sorted (hs_entries s)" "bt_sorted (hs_entries base)"
  shows "state_apply (diff_from s base) base = s"
  by (rule state_eqI) (simp_all add: assms apply_diff_get)

lemma state_apply_twice:
  assumes "bt_sorted (hs_entries t)"
  shows "state_apply d (state_apply d t) = state_apply d t"
  by (rule state_eqI) (simp_all add: assms state_apply_get state_apply_sorted map_add_def flip: state_get_def split: option.split)

text \<open>The diff the host computes is exact and harmless: applied to its base it gives the document, however often it
  is applied, it is empty only when nothing changed, its two halves name different cells, each once and in
  canonical order, and it touches no cell on which base and document agree.\<close>

theorem diff_is_exact:
  assumes "state_ok s" "state_ok base" "state_ok t"
  shows "let d = diff_from s base in
    state_apply d base = s \<and> state_apply d (state_apply d t) = state_apply d t \<and> (diff_is_empty d \<longleftrightarrow> s = base) \<and>
    sorted_wrt (<) (map we_key (sd_sets d)) \<and> sorted_wrt (<) (sd_deletes d) \<and>
    set (map we_key (sd_sets d)) \<inter> set (sd_deletes d) = {} \<and>
    (\<forall>k. state_get k s = state_get k base \<longrightarrow> state_get k (state_apply d t) = state_get k t)"
proof -
  note sorted = assms [unfolded state_ok_def, THEN conjunct1]
  have keys: "map we_key (sd_sets (diff_from s base)) = map fst (filter (\<lambda>(k, v). map_of (hs_entries base) k \<noteq> Some v) (hs_entries s))"
    by (auto simp: diff_from_def)
  have "sorted_wrt (<) (map we_key (sd_sets (diff_from s base)))"
    unfolding keys using bt_map_filter_sorted [OF sorted(1)] by (simp add: bt_sorted_def)
  moreover have "set (map we_key (sd_sets (diff_from s base))) \<inter> set (sd_deletes (diff_from s base)) = {}"
    unfolding keys by (force simp: diff_from_def map_of_eq_None_iff)
  moreover have "sorted_wrt (<) (sd_deletes (diff_from s base))"
    using sorted(2) by (simp add: diff_from_def bt_sorted_def sorted_wrt_filter)
  ultimately show ?thesis
    using sorted by (simp add: apply_diff_exact state_apply_twice diff_empty_iff apply_diff_get)
qed

definition demo_key :: "u8 \<Rightarrow> workspace_key" where
  "demo_key f = Workspace_Key 3 (replicate 16 7) f"

definition demo_state :: "(u8 \<times> bytes) list \<Rightarrow> host_state" where
  "demo_state cells = \<lparr>hs_entries = map (\<lambda>(f, v). (demo_key f, v)) cells\<rparr>"

lemma demo_state_ok: "sorted_wrt (<) (map fst cells) \<Longrightarrow> state_ok (demo_state cells)"
  by (auto simp: state_ok_def demo_state_def state_keys_def bt_sorted_def sorted_wrt_map demo_key_def uuid_ok_def
      session_id_byte_count_def less_workspace_key_def key_parts_def case_prod_beta intro: sorted_wrt_mono_rel)

lemma diff_is_exact_witness:
  "let s = demo_state [(1, [5]), (2, [])]; base = demo_state [(1, [4]), (3, [9])]; d = diff_from s base in
    sd_deletes d = [demo_key 3] \<and> map we_key (sd_sets d) = [demo_key 1, demo_key 2] \<and>
    state_apply d base = s \<and> state_apply d (state_apply d base) = state_apply d base"
proof -
  have ok: "state_ok (demo_state [(1, [5]), (2, [])])" "state_ok (demo_state [(1, [4]), (3, [9])])"
    by (simp_all add: demo_state_ok)
  note d = diff_is_exact [OF ok(1,2,2), unfolded Let_def]
  let ?s = "demo_state [(1, [5]), (2, [])]" and ?base = "demo_state [(1, [4]), (3, [9])]"
  have "state_apply (diff_from ?s ?base) ?base = ?s \<and> state_apply (diff_from ?s ?base) (state_apply (diff_from ?s ?base) ?base) = state_apply (diff_from ?s ?base) ?base"
    using d [THEN conjunct1] d [THEN conjunct2, THEN conjunct1] by (rule conjI)
  moreover have "sd_deletes (diff_from ?s ?base) = [demo_key 3] \<and> map we_key (sd_sets (diff_from ?s ?base)) = [demo_key 1, demo_key 2]"
    by (simp add: diff_from_def demo_state_def demo_key_def)
  ultimately show ?thesis unfolding Let_def by (elim conjE) (intro conjI)
qed

end
