(* ===== verification/Workspace_Codec.thy ===== *)
theory Workspace_Codec
  imports Workspace_State Wire_Codec
begin

text \<open>
  The bytes of the workspace document (\<open>slopdesk-wire/src/document/codec.rs\<close>): keys, entries, snapshots,
  diffs, the shape of a tab's layout (\<open>SplitAxis\<close> from \<open>slopdesk-tree/src/split_tree.rs\<close>) and the single-cell
  values. A float travels as its bit pattern and is modelled by it. Snapshots, diffs and layouts come back
  exactly, and what does not fit the limits of the decoder is refused by it.
\<close>

section \<open>Keys and entries\<close>

definition max_entry_count :: u32 where
  "max_entry_count = 65536"

definition entry_floor_bytes :: nat where
  "entry_floor_bytes = key_size + 4"

definition max_entry_value_bytes :: nat where
  "max_entry_value_bytes = 2147483647"

definition max_layout_depth :: nat where
  "max_layout_depth = 12"

definition max_string_bytes :: nat where
  "max_string_bytes = 65535"

definition put_key :: "workspace_key \<Rightarrow> byte_writer \<Rightarrow> byte_writer" where
  "put_key k w = put_u8 (wk_field k) (put_bytes (wk_object_id k) (put_u8 (wk_kind k) w))"

definition encode_key :: "workspace_key \<Rightarrow> bytes" where
  "encode_key k = into_vec (put_key k (writer_with_capacity key_size))"

definition read_object_id :: "raw_uuid reader" where
  "read_object_id = rbind (read_bytes session_id_byte_count) (\<lambda>bs r. if length bs = 16 then Inr (bs, r) else Inl Truncated)"

definition read_key :: "workspace_key reader" where
  "read_key = rbind read_u8 (\<lambda>kind. rbind read_object_id (\<lambda>object_id. rbind read_u8 (\<lambda>field. rreturn (key_new kind object_id field))))"

definition put_entry :: "workspace_entry \<Rightarrow> byte_writer \<Rightarrow> byte_writer" where
  "put_entry e w = put_bytes (we_value e) (put_u32 (u32_try_or_max (length (we_value e))) (put_key (we_key e) w))"

definition read_entry :: "workspace_entry reader" where
  "read_entry =
    rbind read_key (\<lambda>key. rbind read_u32 (\<lambda>len r.
      let declared = unat len in
      if max_entry_value_bytes < declared \<or> bytes_remaining r < declared
      then Inl (malformed (''workspace entry: value '' @ show_nat declared @ '' exceeds the '' @ show_nat (bytes_remaining r) @ '' bytes left''))
      else rmap (\<lambda>value. \<lparr>we_key = key, we_value = value\<rparr>) (read_bytes declared) r))"

text \<open>\<open>for _ in 0..count\<close> with one read each.\<close>

fun read_times :: "nat \<Rightarrow> 'a reader \<Rightarrow> 'a list reader" where
  "read_times 0 m = rreturn []"
| "read_times (Suc n) m = rbind m (\<lambda>x. rbind (read_times n m) (\<lambda>xs. rreturn (x # xs)))"

definition read_entries :: "u32 \<Rightarrow> workspace_entry list reader" where
  "read_entries n r =
    (if max_entry_count < n
     then Inl (malformed (''workspace entries: count '' @ show_nat (unat n) @ '' > '' @ show_nat (unat max_entry_count)))
     else if bytes_remaining r < unat n * entry_floor_bytes
     then Inl (malformed (''workspace entries: '' @ show_nat (unat n) @ '' entries need at least '' @ show_nat (unat n * entry_floor_bytes) @ '' bytes''))
     else read_times (unat n) read_entry r)"

section \<open>Snapshots and diffs\<close>

definition encode_snapshot :: "host_state \<Rightarrow> bytes" where
  "encode_snapshot s =
    (let entries = sorted_entries s;
         out = writer_with_capacity (4 + length entries * entry_floor_bytes);
         out = put_u32 (u32_try_or_max (length entries)) out
     in into_vec (fold put_entry entries out))"

definition decode_snapshot :: "bytes \<Rightarrow> wire_error + host_state" where
  "decode_snapshot data =
    bind_res (read_u32 (reader_new data)) (\<lambda>(n, r).
    bind_res (read_entries n r) (\<lambda>(entries, r).
    if bytes_remaining r \<noteq> 0 then Inl (malformed ''workspace snapshot: trailing bytes'') else Inr (from_entries entries)))"

definition encode_diff :: "state_diff \<Rightarrow> bytes" where
  "encode_diff d =
    (let out = writer_with_capacity (8 + length (sd_sets d) * entry_floor_bytes + length (sd_deletes d) * key_size);
         out = put_u32 (u32_try_or_max (length (sd_sets d))) out;
         out = fold put_entry (sd_sets d) out;
         out = put_u32 (u32_try_or_max (length (sd_deletes d))) out
     in into_vec (fold put_key (sd_deletes d) out))"

definition decode_diff :: "bytes \<Rightarrow> wire_error + state_diff" where
  "decode_diff data =
    bind_res (read_u32 (reader_new data)) (\<lambda>(set_count, r).
    bind_res (read_entries set_count r) (\<lambda>(sets, r).
    bind_res (read_u32 r) (\<lambda>(delete_count, r).
    if max_entry_count < delete_count
    then Inl (malformed (''workspace diff: delete count '' @ show_nat (unat delete_count) @ '' > '' @ show_nat (unat max_entry_count)))
    else if bytes_remaining r < unat delete_count * key_size
    then Inl (malformed (''workspace diff: '' @ show_nat (unat delete_count) @ '' deletes need '' @ show_nat (unat delete_count * key_size) @ '' bytes''))
    else
      bind_res (read_times (unat delete_count) read_key r) (\<lambda>(deletes, r).
      if bytes_remaining r \<noteq> 0 then Inl (malformed ''workspace diff: trailing bytes'')
      else Inr \<lparr>sd_sets = sets, sd_deletes = deletes\<rparr>))))"

section \<open>The shape of a layout\<close>

datatype split_axis = Horizontal | Vertical

definition axis_from_byte :: "u8 \<Rightarrow> split_axis" where
  "axis_from_byte b = (if b = 0 then Horizontal else Vertical)"

fun axis_as_byte :: "split_axis \<Rightarrow> u8" where
  "axis_as_byte Horizontal = 0"
| "axis_as_byte Vertical = 1"

datatype layout_node =
    Leaf raw_uuid
  | Split (ln_id: raw_uuid) (ln_axis: split_axis) (ln_children: "layout_node list")

definition u8_try_or_max :: "nat \<Rightarrow> u8" where
  "u8_try_or_max n = (if n < 2 ^ 8 then word_of_nat n else 0xFF)"

primrec put_layout :: "layout_node \<Rightarrow> byte_writer \<Rightarrow> byte_writer" where
  "put_layout (Leaf pane_id) = (\<lambda>w. put_bytes pane_id (put_u8 0 w))"
| "put_layout (Split i axis children) =
    (\<lambda>w. let w = put_u8 (u8_try_or_max (length children)) (put_u8 (axis_as_byte axis) (put_bytes i (put_u8 1 w)))
         in fold id (take 255 (map put_layout children)) w)"

definition encode_layout :: "layout_node \<Rightarrow> bytes" where
  "encode_layout node = into_vec (put_layout node writer_new)"

function read_layout_node :: "nat \<Rightarrow> layout_node reader" where
  "read_layout_node depth =
    (if max_layout_depth < depth
     then (\<lambda>r. Inl (malformed (''workspace layout: nested past depth '' @ show_nat max_layout_depth)))
     else rbind read_u8 (\<lambda>tag.
       if tag = 0 then rbind read_object_id (\<lambda>i. rreturn (Leaf i))
       else if tag = 1 then
         rbind read_object_id (\<lambda>i. rbind read_u8 (\<lambda>axis. rbind read_u8 (\<lambda>child_count r.
           if bytes_remaining r < unat child_count
           then Inl (malformed (''workspace layout: '' @ show_nat (unat child_count) @ '' children need at least that many bytes''))
           else rbind (read_times (unat child_count) (read_layout_node (Suc depth)))
                  (\<lambda>children. rreturn (Split i (axis_from_byte axis) children)) r)))
       else (\<lambda>r. Inl (malformed (''workspace layout: unknown node tag '' @ show_nat (unat tag))))))"
  by pat_completeness auto
termination
  by (relation "measure (\<lambda>depth. Suc max_layout_depth - depth)") auto

declare read_layout_node.simps [simp del]

definition decode_layout :: "bytes \<Rightarrow> wire_error + layout_node" where
  "decode_layout data =
    bind_res (read_layout_node 0 (reader_new data)) (\<lambda>(node, r).
    if bytes_remaining r \<noteq> 0 then Inl (malformed ''workspace layout: trailing bytes'') else Inr node)"

section \<open>Single cells\<close>

datatype split_weight = Flex u64 | Fixed u64

fun put_weight :: "split_weight \<Rightarrow> byte_writer \<Rightarrow> byte_writer" where
  "put_weight (Flex bits) w = put_u64 bits (put_u8 0 w)"
| "put_weight (Fixed bits) w = put_u64 bits (put_u8 1 w)"

definition encode_weight :: "split_weight \<Rightarrow> bytes" where
  "encode_weight weight = into_vec (put_weight weight (writer_with_capacity 9))"

definition read_weight :: "split_weight reader" where
  "read_weight = rbind read_u8 (\<lambda>kind. rbind read_u64 (\<lambda>bits. rreturn (if kind = 0 then Flex bits else Fixed bits)))"

definition decode_weight :: "bytes \<Rightarrow> wire_error + split_weight" where
  "decode_weight data =
    bind_res (read_weight (reader_new data)) (\<lambda>(weight, r).
    if bytes_remaining r \<noteq> 0 then Inl (malformed ''workspace weight: trailing bytes'') else Inr weight)"

text \<open>\<open>.ok()?\<close> on a read.\<close>

definition ok_value :: "wire_error + 'a \<times> byte_reader \<Rightarrow> ('a \<times> byte_reader) option" where
  "ok_value m = (case m of Inl _ \<Rightarrow> None | Inr p \<Rightarrow> Some p)"

definition encode_weights :: "split_weight list \<Rightarrow> bytes" where
  "encode_weights weights =
    (let n = min (length weights) 255;
         out = put_u8 (u8_try_or_max n) (writer_with_capacity (1 + n * 9))
     in into_vec (fold put_weight (take n weights) out))"

definition decode_weights :: "bytes \<Rightarrow> split_weight list option" where
  "decode_weights data =
    Option.bind (ok_value (read_u8 (reader_new data))) (\<lambda>(n, r).
    if bytes_remaining r \<noteq> unat n * 9 then None
    else map_option fst (ok_value (read_times (unat n) read_weight r)))"

definition encode_uuid :: "raw_uuid \<Rightarrow> bytes" where
  "encode_uuid i = i"

definition decode_uuid :: "bytes \<Rightarrow> raw_uuid option" where
  "decode_uuid data = (if length data = 16 then Some data else None)"

definition encode_detached_panes :: "(raw_uuid \<times> raw_uuid option) list \<Rightarrow> bytes" where
  "encode_detached_panes panes =
    (let n = min (length panes) 65535;
         out = put_u16 (u16_try_or_max n) (writer_with_capacity (2 + n * 32))
     in into_vec (fold (\<lambda>(pane, origin) out. put_bytes (case origin of None \<Rightarrow> root_object_id | Some o' \<Rightarrow> o') (put_bytes pane out))
                   (take n panes) out))"

definition read_detached_pane :: "(raw_uuid \<times> raw_uuid option) reader" where
  "read_detached_pane = rbind read_object_id (\<lambda>pane. rbind read_object_id (\<lambda>origin.
     rreturn (pane, if origin \<noteq> root_object_id then Some origin else None)))"

definition decode_detached_panes :: "bytes \<Rightarrow> (raw_uuid \<times> raw_uuid option) list option" where
  "decode_detached_panes data =
    Option.bind (ok_value (read_u16 (reader_new data))) (\<lambda>(n, r).
    if bytes_remaining r \<noteq> unat n * 32 then None
    else map_option fst (ok_value (read_times (unat n) read_detached_pane r)))"

definition encode_uuid_list :: "raw_uuid list \<Rightarrow> bytes" where
  "encode_uuid_list ids =
    (let n = min (length ids) 65535;
         out = put_u16 (u16_try_or_max n) (writer_with_capacity (2 + n * 16))
     in into_vec (fold put_bytes (take n ids) out))"

definition decode_uuid_list :: "bytes \<Rightarrow> raw_uuid list option" where
  "decode_uuid_list data =
    Option.bind (ok_value (read_u16 (reader_new data))) (\<lambda>(n, r).
    if bytes_remaining r \<noteq> unat n * 16 then None
    else map_option fst (ok_value (read_times (unat n) read_object_id r)))"

record video_endpoint =
  ve_window_id :: u32
  ve_title :: rstring
  ve_app_name :: rstring
  ve_display_id :: "u32 option"

definition encode_video_target :: "video_endpoint \<Rightarrow> bytes" where
  "encode_video_target e =
    (let out = put_u32 (ve_window_id e) (writer_with_capacity 64);
         out = put_bool (ve_display_id e \<noteq> None) out;
         out = put_u32 (case ve_display_id e of None \<Rightarrow> 0 | Some d \<Rightarrow> d) out
     in into_vec (fold (\<lambda>text out. let bs = as_bytes (clamp_utf8 text max_string_bytes)
                                  in put_bytes bs (put_u16 (u16_try_or_max (length bs)) out))
                   [ve_title e, ve_app_name e] out))"

definition read_u16_prefixed_string :: "byte_reader \<Rightarrow> (rstring \<times> byte_reader) option" where
  "read_u16_prefixed_string r =
    Option.bind (ok_value (read_u16 r)) (\<lambda>(len, r).
    Option.bind (ok_value (read_bytes (unat len) r)) (\<lambda>(bs, r).
    map_option (\<lambda>s. (s, r)) (from_utf8 bs)))"

definition decode_video_target :: "bytes \<Rightarrow> video_endpoint option" where
  "decode_video_target data =
    Option.bind (ok_value (read_u32 (reader_new data))) (\<lambda>(window_id, r).
    Option.bind (ok_value (read_bool r)) (\<lambda>(has_display, r).
    Option.bind (ok_value (read_u32 r)) (\<lambda>(display_id, r).
    Option.bind (read_u16_prefixed_string r) (\<lambda>(title, r).
    Option.bind (read_u16_prefixed_string r) (\<lambda>(app_name, r).
    if bytes_remaining r \<noteq> 0 then None
    else Some \<lparr>ve_window_id = window_id, ve_title = title, ve_app_name = app_name,
               ve_display_id = (if has_display then Some display_id else None)\<rparr>)))))"

section \<open>The bytes written\<close>

definition key_bytes :: "workspace_key \<Rightarrow> bytes" where
  "key_bytes k = [wk_kind k] @ wk_object_id k @ [wk_field k]"

definition entry_bytes :: "workspace_entry \<Rightarrow> bytes" where
  "entry_bytes e = key_bytes (we_key e) @ be_bytes 4 (u32_try_or_max (length (we_value e))) @ we_value e"

text \<open>An owned writer is what it holds.\<close>

definition owned :: "bytes \<Rightarrow> byte_writer" where
  "owned bs = \<lparr>bw_sink = Owned bs\<rparr>"

lemma owned_simps [simp]:
  "put_slice bs (owned b) = owned (b @ bs)" "into_vec (owned b) = b" "writer_new = owned []" "writer_with_capacity n = owned []"
  by (simp_all add: put_slice_def into_vec_def writer_new_def writer_with_capacity_def owned_def)

lemma fold_put:
  assumes "\<And>x b. put x (owned b) = owned (b @ bs x)"
  shows "fold put xs (owned b) = owned (b @ concat (map bs xs))"
  by (induction xs arbitrary: b) (simp_all add: assms)

lemma put_key_owned [simp]: "put_key k (owned b) = owned (b @ key_bytes k)"
  by (simp add: put_key_def put_defs key_bytes_def)

lemma put_entry_owned [simp]: "put_entry e (owned b) = owned (b @ entry_bytes e)"
  by (simp add: put_entry_def put_defs entry_bytes_def)

lemma encode_snapshot_bytes:
  "encode_snapshot s = be_bytes 4 (u32_try_or_max (state_len s)) @ concat (map entry_bytes (sorted_entries s))"
  by (simp add: encode_snapshot_def Let_def put_u32_def fold_put [of put_entry entry_bytes] sorted_entries_def state_len_def)

lemma encode_diff_bytes:
  "encode_diff d = be_bytes 4 (u32_try_or_max (length (sd_sets d))) @ concat (map entry_bytes (sd_sets d)) @
     be_bytes 4 (u32_try_or_max (length (sd_deletes d))) @ concat (map key_bytes (sd_deletes d))"
  by (simp add: encode_diff_def Let_def put_u32_def fold_put [of put_entry entry_bytes] fold_put [of put_key key_bytes])

section \<open>Reading them back\<close>

lemma read_object_id_raw: "read_object_id = read_bytes 16"
  by (auto simp: fun_eq_iff read_object_id_def rbind_def session_id_byte_count_def read_bytes_def slice_get_def split: sum.splits option.splits)

lemma read_object_id_put [simp]:
  "uuid_ok i \<Longrightarrow> read_object_id (cursor pre (i @ post)) = Inr (i, cursor (pre @ i) post)"
  unfolding read_object_id_raw uuid_ok_def session_id_byte_count_def by (rule fraw.get_put)

lemma read_key_put [simp]:
  "uuid_ok (wk_object_id k) \<Longrightarrow> read_key (cursor pre (key_bytes k @ post)) = Inr (k, cursor (pre @ key_bytes k) post)"
  by (simp add: read_key_def key_bytes_def read_u8_def key_new_def)

lemma read_entry_put:
  assumes "uuid_ok (wk_object_id (we_key e))"
  shows "length (we_value e) \<le> max_entry_value_bytes \<Longrightarrow>
      read_entry (cursor pre (entry_bytes e @ post)) = Inr (e, cursor (pre @ entry_bytes e) post)"
    "\<not> length (we_value e) \<le> max_entry_value_bytes \<Longrightarrow> \<exists>x. read_entry (cursor pre (entry_bytes e @ post)) = Inl x"
  using assms by (auto simp: read_entry_def entry_bytes_def u32_try_or_max_def max_entry_value_bytes_def unat_of_nat take_bit_eq_mod
      rmap_def fraw.get_put Let_def)

lemma read_times_put:
  assumes "\<And>x pre post. x \<in> set xs \<Longrightarrow> get (cursor pre (put x @ post)) = Inr (x, cursor (pre @ put x) post)"
  shows "read_times (length xs) get (cursor pre (concat (map put xs) @ post)) = Inr (xs, cursor (pre @ concat (map put xs)) post)"
  using assms by (induction xs arbitrary: pre) simp_all

lemma read_times_fail:
  assumes "\<And>x pre post. x \<in> set xs \<Longrightarrow> ok x \<Longrightarrow> get (cursor pre (put x @ post)) = Inr (x, cursor (pre @ put x) post)"
    and "\<And>x pre post. x \<in> set xs \<Longrightarrow> \<not> ok x \<Longrightarrow> \<exists>e. get (cursor pre (put x @ post)) = Inl e"
    and "\<exists>x\<in>set xs. \<not> ok x"
  shows "\<exists>e. read_times (length xs) get (cursor pre (concat (map put xs) @ post)) = Inl e"
  using assms
proof (induction xs arbitrary: pre)
  case (Cons x xs)
  show ?case
  proof (cases "ok x")
    case True
    then have "\<exists>e. read_times (length xs) get (cursor (pre @ put x) (concat (map put xs) @ post)) = Inl e"
      using Cons.prems by (intro Cons.IH) auto
    then show ?thesis using True Cons.prems(1) by auto
  qed (use Cons.prems(2) [of x pre "concat (map put xs) @ post"] in auto)
qed simp

text \<open>What the decoder takes: at most 65,536 entries, values of at most \<open>i32::MAX\<close> bytes.\<close>

definition entries_fit :: "workspace_entry list \<Rightarrow> bool" where
  "entries_fit es \<longleftrightarrow> length es \<le> 65536 \<and> (\<forall>e\<in>set es. length (we_value e) \<le> max_entry_value_bytes)"

lemma length_entries_bytes:
  assumes "\<forall>e\<in>set es. uuid_ok (wk_object_id (we_key e))"
  shows "length es * entry_floor_bytes \<le> length (concat (map entry_bytes es))"
  using assms by (induction es) (auto simp: entry_bytes_def key_bytes_def entry_floor_bytes_def key_size_def uuid_ok_def session_id_byte_count_def)

lemma length_keys_bytes:
  assumes "\<forall>k\<in>set ks. uuid_ok (wk_object_id k)"
  shows "length (concat (map key_bytes ks)) = length ks * key_size"
  using assms by (induction ks) (auto simp: key_bytes_def key_size_def uuid_ok_def session_id_byte_count_def)

lemma count_refused: "max_entry_count < u32_try_or_max n \<longleftrightarrow> 65536 < n"
  by (simp add: max_entry_count_def u32_try_or_max_def word_less_nat_alt unat_of_nat take_bit_eq_mod)

lemma count_read: "n \<le> 65536 \<Longrightarrow> unat (u32_try_or_max n) = n"
  by (simp add: u32_try_or_max_def unat_of_nat take_bit_eq_mod)

lemma read_entries_put:
  assumes "\<forall>e\<in>set es. uuid_ok (wk_object_id (we_key e))"
  shows "entries_fit es \<Longrightarrow> read_entries (u32_try_or_max (length es)) (cursor pre (concat (map entry_bytes es) @ post)) =
      Inr (es, cursor (pre @ concat (map entry_bytes es)) post)"
    "\<not> entries_fit es \<Longrightarrow> \<exists>x. read_entries (u32_try_or_max (length es)) (cursor pre (concat (map entry_bytes es) @ post)) = Inl x"
proof -
  have floor: "\<not> length (concat (map entry_bytes es) @ post) < length es * entry_floor_bytes"
    using length_entries_bytes [OF assms] by simp
  show "read_entries (u32_try_or_max (length es)) (cursor pre (concat (map entry_bytes es) @ post)) =
      Inr (es, cursor (pre @ concat (map entry_bytes es)) post)" if "entries_fit es"
    using that floor read_entry_put(1) assms
    by (simp add: read_entries_def count_refused count_read entries_fit_def read_times_put del: length_append)
  assume no: "\<not> entries_fit es"
  show "\<exists>x. read_entries (u32_try_or_max (length es)) (cursor pre (concat (map entry_bytes es) @ post)) = Inl x"
  proof (cases "65536 < length es")
    case False
    then have "\<exists>e\<in>set es. \<not> length (we_value e) \<le> max_entry_value_bytes" using no by (simp add: entries_fit_def)
    then have "\<exists>x. read_times (length es) read_entry (cursor pre (concat (map entry_bytes es) @ post)) = Inl x"
      using assms read_entry_put by (intro read_times_fail [where ok = "\<lambda>e. length (we_value e) \<le> max_entry_value_bytes"]) auto
    then show ?thesis using False floor by (simp add: read_entries_def count_refused count_read del: length_append)
  qed (simp add: read_entries_def count_refused)
qed

section \<open>Snapshots and diffs come back exactly\<close>

definition state_fits :: "host_state \<Rightarrow> bool" where
  "state_fits s \<longleftrightarrow> entries_fit (sorted_entries s)"

definition diff_fits :: "state_diff \<Rightarrow> bool" where
  "diff_fits d \<longleftrightarrow> entries_fit (sd_sets d) \<and> length (sd_deletes d) \<le> 65536"

definition diff_ids_ok :: "state_diff \<Rightarrow> bool" where
  "diff_ids_ok d \<longleftrightarrow> (\<forall>k\<in>set (map we_key (sd_sets d)) \<union> set (sd_deletes d). uuid_ok (wk_object_id k))"

lemma sorted_entries_keys: "state_ok s \<Longrightarrow> \<forall>e\<in>set (sorted_entries s). uuid_ok (wk_object_id (we_key e))"
  by (force simp: state_ok_def sorted_entries_def state_keys_def)

lemma from_sorted_entries:
  assumes "bt_sorted (hs_entries s)"
  shows "from_entries (sorted_entries s) = s"
proof (rule state_eqI [OF _ assms])
  have "map (\<lambda>e. (we_key e, we_value e)) (sorted_entries s) = hs_entries s"
    by (simp add: sorted_entries_def comp_def case_prod_beta)
  then show "bt_sorted (hs_entries (from_entries (sorted_entries s)))" "state_get k (from_entries (sorted_entries s)) = state_get k s" for k
    using bt_insert_all [of "[]" "hs_entries s"] map_of_rev [OF bt_sorted_distinct [OF assms]]
    by (simp_all add: from_entries_def state_get_def bt_sorted_def)
qed

lemma sorted_entries_map: "map (\<lambda>e. (we_key e, we_value e)) (sorted_entries s) = hs_entries s"
  by (simp add: sorted_entries_def comp_def case_prod_beta)

lemma decode_snapshot_bytes:
  assumes "\<forall>e\<in>set es. uuid_ok (wk_object_id (we_key e))"
  defines "data \<equiv> be_bytes 4 (u32_try_or_max (length es)) @ concat (map entry_bytes es)"
  shows "entries_fit es \<Longrightarrow> decode_snapshot data = Inr (from_entries es)"
    "\<not> entries_fit es \<Longrightarrow> \<exists>e. decode_snapshot data = Inl e"
  using read_entries_put [OF assms(1), of "be_bytes 4 (u32_try_or_max (length es))" "[]"]
  by (auto simp: decode_snapshot_def data_def reader_new_cursor)

lemma snapshot_round_trip:
  assumes "state_ok s"
  shows "state_fits s \<Longrightarrow> decode_snapshot (encode_snapshot s) = Inr s"
    "\<not> state_fits s \<Longrightarrow> \<exists>e. decode_snapshot (encode_snapshot s) = Inl e"
proof -
  have len: "length (sorted_entries s) = state_len s" by (simp add: sorted_entries_def state_len_def)
  note d = decode_snapshot_bytes [OF sorted_entries_keys [OF assms], unfolded len]
  show "state_fits s \<Longrightarrow> decode_snapshot (encode_snapshot s) = Inr s" "\<not> state_fits s \<Longrightarrow> \<exists>e. decode_snapshot (encode_snapshot s) = Inl e"
    using d from_sorted_entries assms by (simp_all add: encode_snapshot_bytes state_fits_def state_ok_def)
qed

lemma diff_round_trip:
  assumes "diff_ids_ok d"
  shows "diff_fits d \<Longrightarrow> decode_diff (encode_diff d) = Inr d"
    "\<not> diff_fits d \<Longrightarrow> \<exists>e. decode_diff (encode_diff d) = Inl e"
proof -
  let ?n = "be_bytes 4 (u32_try_or_max (length (sd_sets d)))" and ?es = "concat (map entry_bytes (sd_sets d))"
  let ?m = "be_bytes 4 (u32_try_or_max (length (sd_deletes d)))" and ?ks = "concat (map key_bytes (sd_deletes d))"
  have ids: "\<forall>e\<in>set (sd_sets d). uuid_ok (wk_object_id (we_key e))" "\<forall>k\<in>set (sd_deletes d). uuid_ok (wk_object_id k)"
    using assms by (auto simp: diff_ids_ok_def)
  note sets = read_entries_put [OF ids(1), of ?n "?m @ ?ks"]
  have dels: "read_times (length (sd_deletes d)) read_key (cursor pre ?ks) = Inr (sd_deletes d, cursor (pre @ ?ks) [])" for pre
    using read_times_put [of "sd_deletes d" read_key key_bytes pre "[]"] ids(2) by simp
  have len: "length ?ks = length (sd_deletes d) * key_size" by (rule length_keys_bytes [OF ids(2)])
  show "decode_diff (encode_diff d) = Inr d" if "diff_fits d"
    using that sets(1) dels len
    by (simp add: decode_diff_def encode_diff_bytes reader_new_cursor diff_fits_def count_refused count_read del: length_concat)
  assume no: "\<not> diff_fits d"
  show "\<exists>e. decode_diff (encode_diff d) = Inl e"
  proof (cases "entries_fit (sd_sets d)")
    case True
    then show ?thesis using no sets(1)
      by (simp add: decode_diff_def encode_diff_bytes reader_new_cursor diff_fits_def count_refused)
  next
    case False
    then show ?thesis using sets(2) by (auto simp: decode_diff_def encode_diff_bytes reader_new_cursor)
  qed
qed

text \<open>C14. Snapshots and diffs cross the wire exactly: within the decoder's limits they come back as they were, in any
  document whatsoever; beyond them they are refused, never misread.\<close>

theorem document_codec_exact:
  assumes "state_ok s" "state_ok base"
  shows "(if state_fits s then decode_snapshot (encode_snapshot s) = Inr s else \<exists>e. decode_snapshot (encode_snapshot s) = Inl e) \<and>
    (let d = diff_from s base
     in if diff_fits d then map_res (\<lambda>d. state_apply d base) (decode_diff (encode_diff d)) = Inr s else \<exists>e. decode_diff (encode_diff d) = Inl e)"
proof -
  let ?d = "diff_from s base"
  have "diff_ids_ok ?d" using assms by (force simp: diff_ids_ok_def diff_from_def state_ok_def state_keys_def)
  then show ?thesis
    using snapshot_round_trip [OF assms(1)] diff_round_trip [of ?d] assms
    by (simp add: Let_def apply_diff_exact state_ok_def)
qed

section \<open>Layouts come back exactly\<close>

primrec layout_bytes :: "layout_node \<Rightarrow> bytes" where
  "layout_bytes (Leaf i) = [0] @ i"
| "layout_bytes (Split i axis children) =
    [1] @ i @ [axis_as_byte axis, u8_try_or_max (length children)] @ concat (take 255 (map layout_bytes children))"

primrec layout_wf :: "layout_node \<Rightarrow> bool" where
  "layout_wf (Leaf i) = uuid_ok i"
| "layout_wf (Split i axis children) = (uuid_ok i \<and> length children \<le> 255 \<and> list_all id (map layout_wf children))"

primrec layout_depth :: "layout_node \<Rightarrow> nat" where
  "layout_depth (Leaf i) = 0"
| "layout_depth (Split i axis children) = (if children = [] then 0 else Suc (fold max (map layout_depth children) 0))"

lemma fold_max_le: "fold max xs (m :: nat) \<le> n \<longleftrightarrow> m \<le> n \<and> (\<forall>x\<in>set xs. x \<le> n)"
  by (induction xs arbitrary: m) auto

lemma put_layout_owned: "put_layout n (owned b) = owned (b @ layout_bytes n)"
proof (induction n arbitrary: b)
  case (Split i axis children)
  have "fold id (map put_layout cs) (owned b) = owned (b @ concat (map layout_bytes cs))" if "set cs \<subseteq> set children" for cs b
    using that Split.IH by (induction cs arbitrary: b) auto
  from this [of "take 255 children"] show ?case
    by (simp add: put_defs Let_def take_map set_take_subset)
qed (simp add: put_defs)

lemma axis_round_trip [simp]: "axis_from_byte (axis_as_byte a) = a"
  by (cases a) (simp_all add: axis_from_byte_def)

lemma u8_try_read: "n \<le> 255 \<Longrightarrow> unat (u8_try_or_max n) = n"
  by (simp add: u8_try_or_max_def unat_of_nat take_bit_eq_mod)

lemma layout_bytes_nonempty: "length xs \<le> length (concat (map layout_bytes xs))"
proof (induction xs)
  case (Cons x xs)
  then show ?case by (cases x) simp_all
qed simp

lemma read_layout_put:
  "layout_wf n \<Longrightarrow>
    if d + layout_depth n \<le> max_layout_depth
    then read_layout_node d (cursor pre (layout_bytes n @ post)) = Inr (n, cursor (pre @ layout_bytes n) post)
    else \<exists>e. read_layout_node d (cursor pre (layout_bytes n @ post)) = Inl e"
proof (induction n arbitrary: d pre post)
  case (Leaf i)
  then show ?case by (simp add: read_layout_node.simps [of d] read_u8_def)
next
  case (Split i axis cs)
  have wf: "uuid_ok i" "length cs \<le> 255" "\<forall>c\<in>set cs. layout_wf c" using Split.prems by (auto simp: list_all_iff)
  have room: "\<not> length (concat (map layout_bytes cs)) + length post < length cs" for post :: bytes
    using layout_bytes_nonempty [of cs] by simp
  have deep: "d + layout_depth (Split i axis cs) \<le> max_layout_depth \<longleftrightarrow>
      \<not> max_layout_depth < d \<and> (\<forall>c\<in>set cs. Suc d + layout_depth c \<le> max_layout_depth)"
    using fold_max_le [of "map layout_depth cs" 0 "max_layout_depth - Suc d"] by (cases cs) auto
  show ?case
  proof (cases "max_layout_depth < d")
    case False
    note unfold = read_layout_node.simps [of d] read_u8_def u8_try_read
    show ?thesis
    proof (cases "\<forall>c\<in>set cs. Suc d + layout_depth c \<le> max_layout_depth")
      case True
      have "read_times (length cs) (read_layout_node (Suc d)) (cursor p (concat (map layout_bytes cs) @ post)) =
          Inr (cs, cursor (p @ concat (map layout_bytes cs)) post)" for p
        using Split.IH wf(3) True by (intro read_times_put) auto
      then show ?thesis using wf False room deep True by (simp add: unfold)
    next
      case no: False
      then have "\<exists>e. read_times (length cs) (read_layout_node (Suc d)) (cursor p (concat (map layout_bytes cs) @ post)) = Inl e" for p
        using Split.IH wf(3) by (intro read_times_fail [where ok = "\<lambda>c. Suc d + layout_depth c \<le> max_layout_depth"]) auto
      then obtain e where "read_times (length cs) (read_layout_node (Suc d))
          (cursor (pre @ 1 # i @ [axis_as_byte axis, u8_try_or_max (length cs)]) (concat (map layout_bytes cs) @ post)) = Inl e" by blast
      moreover have "\<not> d + layout_depth (Split i axis cs) \<le> max_layout_depth" using deep no by blast
      ultimately show ?thesis using wf False room by (auto simp: unfold)
    qed
  qed (simp add: read_layout_node.simps [of d])
qed

text \<open>C29. The shape of a layout crosses the wire exactly when it nests at most twelve deep, whatever its fan-out up to
  255; a deeper one is refused before the decoder descends into it.\<close>

theorem layout_codec_exact:
  assumes "layout_wf n"
  shows "if layout_depth n \<le> max_layout_depth then decode_layout (encode_layout n) = Inr n else \<exists>e. decode_layout (encode_layout n) = Inl e"
  using read_layout_put [OF assms, of 0 "[]" "[]"]
  by (auto simp: decode_layout_def encode_layout_def put_layout_owned reader_new_cursor split: if_splits)

lemma layout_codec_exact_witness:
  "let n = Split (replicate 16 1) Vertical [Leaf (replicate 16 2), Split (replicate 16 3) Horizontal [Leaf (replicate 16 4)]]
   in layout_depth n = 2 \<and> decode_layout (encode_layout n) = Inr n"
  using layout_codec_exact [of "Split (replicate 16 1) Vertical [Leaf (replicate 16 2), Split (replicate 16 3) Horizontal [Leaf (replicate 16 4)]]"]
  by (simp add: uuid_ok_def session_id_byte_count_def max_layout_depth_def)

lemma document_codec_exact_witness:
  "let s = demo_state [(1, [5]), (2, [])]; base = demo_state [(1, [4]), (3, [9])] in
    decode_snapshot (encode_snapshot s) = Inr s \<and>
    map_res (\<lambda>d. state_apply d base) (decode_diff (encode_diff (diff_from s base))) = Inr s"
proof -
  have ok: "state_ok (demo_state [(1, [5]), (2, [])])" "state_ok (demo_state [(1, [4]), (3, [9])])"
    by (simp_all add: demo_state_ok)
  have "state_fits (demo_state [(1, [5]), (2, [])])" "diff_fits (diff_from (demo_state [(1, [5]), (2, [])]) (demo_state [(1, [4]), (3, [9])]))"
    by (simp_all add: state_fits_def diff_fits_def entries_fit_def sorted_entries_def demo_state_def diff_from_def max_entry_value_bytes_def)
  then show ?thesis using document_codec_exact [OF ok] by (simp add: Let_def)
qed

end
