(* ===== verification/Workspace_Channel.thy ===== *)
theory Workspace_Channel
  imports Workspace_Codec
begin

text \<open>
  The bodies of the workspace channel (\<open>slopdesk-wire/src/workspace.rs\<close>): subscribe, presence, intent, intent result
  and the presence roster, with their codecs. Bytes behind a body are ignored, as the source does.
\<close>

section \<open>Vocabulary\<close>

datatype request_verb = Verb_Subscribe | Verb_Ack | Verb_Presence | Verb_Intent

definition verb_from_byte :: "u8 \<Rightarrow> request_verb option" where
  "verb_from_byte b = (if b = 0 then Some Verb_Subscribe else if b = 1 then Some Verb_Ack else if b = 2 then Some Verb_Presence
     else if b = 3 then Some Verb_Intent else None)"

fun verb_as_byte :: "request_verb \<Rightarrow> u8" where
  "verb_as_byte Verb_Subscribe = 0"
| "verb_as_byte Verb_Ack = 1"
| "verb_as_byte Verb_Presence = 2"
| "verb_as_byte Verb_Intent = 3"

datatype event_kind = Event_Snapshot | Event_Diff | Event_Presence | Event_Intent_Result | Event_Reset

definition event_from_byte :: "u8 \<Rightarrow> event_kind option" where
  "event_from_byte b = (if b = 0 then Some Event_Snapshot else if b = 1 then Some Event_Diff else if b = 2 then Some Event_Presence
     else if b = 3 then Some Event_Intent_Result else if b = 4 then Some Event_Reset else None)"

fun event_as_byte :: "event_kind \<Rightarrow> u8" where
  "event_as_byte Event_Snapshot = 0"
| "event_as_byte Event_Diff = 1"
| "event_as_byte Event_Presence = 2"
| "event_as_byte Event_Intent_Result = 3"
| "event_as_byte Event_Reset = 4"

datatype intent_status = Intent_Applied | Rejected_Stale | Rejected_Invalid | Unknown_Op | Rejected_Not_Found

definition status_from_byte :: "u8 \<Rightarrow> intent_status option" where
  "status_from_byte b = (if b = 0 then Some Intent_Applied else if b = 1 then Some Rejected_Stale else if b = 2 then Some Rejected_Invalid
     else if b = 3 then Some Unknown_Op else if b = 4 then Some Rejected_Not_Found else None)"

fun status_as_byte :: "intent_status \<Rightarrow> u8" where
  "status_as_byte Intent_Applied = 0"
| "status_as_byte Rejected_Stale = 1"
| "status_as_byte Rejected_Invalid = 2"
| "status_as_byte Unknown_Op = 3"
| "status_as_byte Rejected_Not_Found = 4"

section \<open>Labels\<close>

definition put_capped_label :: "rstring \<Rightarrow> nat \<Rightarrow> byte_writer \<Rightarrow> byte_writer" where
  "put_capped_label label max_bytes w =
    (let bs = as_bytes (clamp_utf8 label max_bytes) in put_bytes bs (put_u16 (u16_try_or_max (length bs)) w))"

definition read_capped_label :: "nat \<Rightarrow> string \<Rightarrow> rstring reader" where
  "read_capped_label max_bytes ctxt =
    rbind read_u16 (\<lambda>len.
      if max_bytes < unat len
      then (\<lambda>r. Inl (malformed (ctxt @ '': label '' @ show_nat (unat len) @ '' > '' @ show_nat max_bytes)))
      else rbind (read_bytes (unat len)) (\<lambda>bs r.
        case from_utf8 bs of None \<Rightarrow> Inl (malformed (ctxt @ '': label is not valid UTF-8'')) | Some s \<Rightarrow> Inr (s, r)))"

section \<open>Subscribe, presence, intents\<close>

record workspace_subscribe =
  ws_client_instance_id :: raw_uuid
  ws_client_kind :: u8
  ws_known_epoch :: raw_uuid
  ws_known_state_num :: int
  ws_flags :: u8
  ws_label :: rstring

definition flag_contributes_size :: u8 where
  "flag_contributes_size = 1"

definition flag_follows_focus :: u8 where
  "flag_follows_focus = 2"

definition max_label_bytes :: nat where
  "max_label_bytes = 64"

definition subscribe_contributes_size :: "workspace_subscribe \<Rightarrow> bool" where
  "subscribe_contributes_size s \<longleftrightarrow> and (ws_flags s) flag_contributes_size \<noteq> 0"

definition subscribe_follows_focus :: "workspace_subscribe \<Rightarrow> bool" where
  "subscribe_follows_focus s \<longleftrightarrow> and (ws_flags s) flag_follows_focus \<noteq> 0"

definition subscribe_encode_into :: "workspace_subscribe \<Rightarrow> byte_writer \<Rightarrow> byte_writer" where
  "subscribe_encode_into s w =
    (let w = put_bytes (ws_client_instance_id s) w;
         w = put_u8 (ws_client_kind s) w;
         w = put_bytes (ws_known_epoch s) w;
         w = put_i64 (ws_known_state_num s) w;
         w = put_u8 (ws_flags s) w
     in put_capped_label (ws_label s) max_label_bytes w)"

definition subscribe_encode :: "workspace_subscribe \<Rightarrow> bytes" where
  "subscribe_encode s = into_vec (subscribe_encode_into s (writer_with_capacity (16 + 1 + 16 + 8 + 1 + 2 + str_len (ws_label s))))"

definition subscribe_decode :: "bytes \<Rightarrow> wire_error + workspace_subscribe" where
  "subscribe_decode payload = map_res fst
    (rbind read_object_id (\<lambda>client_instance_id. rbind read_u8 (\<lambda>client_kind. rbind read_object_id (\<lambda>known_epoch.
     rbind read_i64 (\<lambda>known_state_num. rbind read_u8 (\<lambda>flags. rbind (read_capped_label max_label_bytes ''workspace subscribe'') (\<lambda>label.
       rreturn \<lparr>ws_client_instance_id = client_instance_id, ws_client_kind = client_kind, ws_known_epoch = known_epoch,
         ws_known_state_num = known_state_num, ws_flags = flags, ws_label = label\<rparr>)))))) (reader_new payload))"

record presence_update =
  pu_presence_clock :: int
  pu_viewing_tab_id :: raw_uuid
  pu_viewing_pane_id :: raw_uuid
  pu_cols :: u16
  pu_rows :: u16
  pu_flags :: u8

definition update_contributes_size :: "presence_update \<Rightarrow> bool" where
  "update_contributes_size u \<longleftrightarrow> and (pu_flags u) flag_contributes_size \<noteq> 0"

definition update_encode :: "presence_update \<Rightarrow> bytes" where
  "update_encode u =
    into_vec (let w = put_i64 (pu_presence_clock u) (writer_with_capacity (8 + 16 + 16 + 2 + 2 + 1));
                  w = put_bytes (pu_viewing_tab_id u) w;
                  w = put_bytes (pu_viewing_pane_id u) w;
                  w = put_u16 (pu_cols u) w;
                  w = put_u16 (pu_rows u) w
              in put_u8 (pu_flags u) w)"

definition update_decode :: "bytes \<Rightarrow> wire_error + presence_update" where
  "update_decode payload = map_res fst
    (rbind read_i64 (\<lambda>presence_clock. rbind read_object_id (\<lambda>tab. rbind read_object_id (\<lambda>pane. rbind read_u16 (\<lambda>cols.
     rbind read_u16 (\<lambda>rows. rbind read_u8 (\<lambda>flags.
       rreturn \<lparr>pu_presence_clock = presence_clock, pu_viewing_tab_id = tab, pu_viewing_pane_id = pane, pu_cols = cols, pu_rows = rows,
         pu_flags = flags\<rparr>)))))) (reader_new payload))"

record workspace_intent =
  wi_intent_id :: raw_uuid
  wi_op :: u8
  wi_args :: bytes

definition max_u32_length :: nat where
  "max_u32_length = 4294967295"

definition max_intent_arg_bytes :: nat where
  "max_intent_arg_bytes = 2147483647"

definition intent_encode_parts_into :: "raw_uuid \<Rightarrow> u8 \<Rightarrow> bytes \<Rightarrow> byte_writer \<Rightarrow> byte_writer" where
  "intent_encode_parts_into intent_id op args w =
    (let n = min (length args) max_u32_length;
         w = put_bytes intent_id w;
         w = put_u8 op w;
         w = put_u32 (u32_try_or_max n) w
     in put_bytes (take n args) w)"

definition intent_encode :: "workspace_intent \<Rightarrow> bytes" where
  "intent_encode i = into_vec (intent_encode_parts_into (wi_intent_id i) (wi_op i) (wi_args i) (writer_with_capacity (16 + 1 + 4 + min (length (wi_args i)) max_u32_length)))"

definition intent_decode_leaving_args :: "bytes \<Rightarrow> wire_error + (raw_uuid \<times> u8 \<times> nat \<times> nat)" where
  "intent_decode_leaving_args payload = map_res fst
    (rbind read_object_id (\<lambda>intent_id. rbind read_u8 (\<lambda>op. rbind read_u32 (\<lambda>len r.
       if max_intent_arg_bytes < unat len \<or> bytes_remaining r < unat len then Inl Truncated
       else let start = position r
            in rbind (read_bytes (unat len)) (\<lambda>_. rreturn (intent_id, op, start, start + unat len)) r))) (reader_new payload))"

definition intent_decode :: "bytes \<Rightarrow> wire_error + workspace_intent" where
  "intent_decode payload =
    bind_res (intent_decode_leaving_args payload) (\<lambda>(intent_id, op, a, b).
      Inr \<lparr>wi_intent_id = intent_id, wi_op = op, wi_args = (case slice_get payload a b of Some s \<Rightarrow> s | None \<Rightarrow> [])\<rparr>)"

record intent_result =
  ir_intent_id :: raw_uuid
  ir_status :: u8

definition result_encode :: "intent_result \<Rightarrow> bytes" where
  "result_encode x = into_vec (put_u8 (ir_status x) (put_bytes (ir_intent_id x) (writer_with_capacity 17)))"

definition result_decode :: "bytes \<Rightarrow> wire_error + intent_result" where
  "result_decode payload = map_res fst
    (rbind read_object_id (\<lambda>i. rbind read_u8 (\<lambda>s. rreturn \<lparr>ir_intent_id = i, ir_status = s\<rparr>)) (reader_new payload))"

section \<open>The roster\<close>

record roster_client =
  rc_client_instance_id :: raw_uuid
  rc_client_kind :: u8
  rc_flags :: u8
  rc_viewing_tab_id :: raw_uuid
  rc_viewing_pane_id :: raw_uuid
  rc_cols :: u16
  rc_rows :: u16
  rc_label :: rstring

record roster_attachment =
  rat_client_instance_id :: raw_uuid
  rat_contributes :: bool
  rat_cols :: u16
  rat_rows :: u16

record roster_pane =
  rp_pane_id :: raw_uuid
  rp_resolved_cols :: u16
  rp_resolved_rows :: u16
  rp_attachments :: "roster_attachment list"

record presence_roster =
  ro_clients :: "roster_client list"
  ro_panes :: "roster_pane list"

definition roster_client_min_bytes :: nat where
  "roster_client_min_bytes = 42"

definition roster_pane_min_bytes :: nat where
  "roster_pane_min_bytes = 16 + 2 + 2 + 2"

definition roster_attachment_bytes :: nat where
  "roster_attachment_bytes = 16 + 1 + 2 + 2"

definition max_records :: nat where
  "max_records = 4096"

definition put_roster_client :: "roster_client \<Rightarrow> byte_writer \<Rightarrow> byte_writer" where
  "put_roster_client c w =
    (let w = put_bytes (rc_client_instance_id c) w;
         w = put_u8 (rc_client_kind c) w;
         w = put_u8 (rc_flags c) w;
         w = put_bytes (rc_viewing_tab_id c) w;
         w = put_bytes (rc_viewing_pane_id c) w;
         w = put_u16 (rc_cols c) w;
         w = put_u16 (rc_rows c) w
     in put_capped_label (rc_label c) max_label_bytes w)"

definition put_attachment :: "roster_attachment \<Rightarrow> byte_writer \<Rightarrow> byte_writer" where
  "put_attachment a w =
    put_u16 (rat_rows a) (put_u16 (rat_cols a) (put_bool (rat_contributes a) (put_bytes (rat_client_instance_id a) w)))"

definition put_roster_pane :: "roster_pane \<Rightarrow> byte_writer \<Rightarrow> byte_writer" where
  "put_roster_pane p w =
    (let n = min (length (rp_attachments p)) max_records;
         w = put_bytes (rp_pane_id p) w;
         w = put_u16 (rp_resolved_cols p) w;
         w = put_u16 (rp_resolved_rows p) w;
         w = put_u16 (u16_try_or_max n) w
     in fold put_attachment (take n (rp_attachments p)) w)"

definition roster_encode_into :: "presence_roster \<Rightarrow> byte_writer \<Rightarrow> byte_writer" where
  "roster_encode_into ro w =
    (let n = min (length (ro_clients ro)) max_records;
         m = min (length (ro_panes ro)) max_records;
         w = put_u16 (u16_try_or_max n) w;
         w = fold put_roster_client (take n (ro_clients ro)) w;
         w = put_u16 (u16_try_or_max m) w
     in fold put_roster_pane (take m (ro_panes ro)) w)"

definition roster_encode :: "presence_roster \<Rightarrow> bytes" where
  "roster_encode ro = into_vec (roster_encode_into ro (writer_with_capacity
     (2 + min (length (ro_clients ro)) max_records * roster_client_min_bytes + 2 + min (length (ro_panes ro)) max_records * roster_pane_min_bytes)))"

definition read_roster_client :: "roster_client reader" where
  "read_roster_client =
    rbind read_object_id (\<lambda>i. rbind read_u8 (\<lambda>kind. rbind read_u8 (\<lambda>flags. rbind read_object_id (\<lambda>tab. rbind read_object_id (\<lambda>pane.
    rbind read_u16 (\<lambda>cols. rbind read_u16 (\<lambda>rows. rbind (read_capped_label max_label_bytes ''workspace roster'') (\<lambda>label.
      rreturn \<lparr>rc_client_instance_id = i, rc_client_kind = kind, rc_flags = flags, rc_viewing_tab_id = tab, rc_viewing_pane_id = pane,
        rc_cols = cols, rc_rows = rows, rc_label = label\<rparr>))))))))"

definition read_attachment :: "roster_attachment reader" where
  "read_attachment =
    rbind read_object_id (\<lambda>i. rbind read_bool (\<lambda>contributes. rbind read_u16 (\<lambda>cols. rbind read_u16 (\<lambda>rows.
      rreturn \<lparr>rat_client_instance_id = i, rat_contributes = contributes, rat_cols = cols, rat_rows = rows\<rparr>))))"

text \<open>A count within the cap whose records could be there at all, and then the records.\<close>

definition read_records :: "nat \<Rightarrow> string \<Rightarrow> 'a reader \<Rightarrow> 'a list reader" where
  "read_records min_bytes what m =
    rbind read_u16 (\<lambda>n r.
      if max_records < unat n then Inl (malformed (''workspace roster: '' @ what @ '' count over the cap''))
      else if bytes_remaining r < unat n * min_bytes then Inl Truncated
      else read_times (unat n) m r)"

definition read_roster_pane :: "roster_pane reader" where
  "read_roster_pane =
    rbind read_object_id (\<lambda>i. rbind read_u16 (\<lambda>cols. rbind read_u16 (\<lambda>rows.
    rbind (read_records roster_attachment_bytes ''attachment'' read_attachment) (\<lambda>attachments.
      rreturn \<lparr>rp_pane_id = i, rp_resolved_cols = cols, rp_resolved_rows = rows, rp_attachments = attachments\<rparr>))))"

definition roster_decode :: "bytes \<Rightarrow> wire_error + presence_roster" where
  "roster_decode payload = map_res fst
    (rbind (read_records roster_client_min_bytes ''client'' read_roster_client) (\<lambda>clients.
     rbind (read_records roster_pane_min_bytes ''pane'' read_roster_pane) (\<lambda>panes.
       rreturn \<lparr>ro_clients = clients, ro_panes = panes\<rparr>)) (reader_new payload))"

section \<open>Bodies come back\<close>

definition label_ok :: "rstring \<Rightarrow> bool" where
  "label_ok s \<longleftrightarrow> wf_str s \<and> str_len s \<le> max_label_bytes"

definition subscribe_ok :: "workspace_subscribe \<Rightarrow> bool" where
  "subscribe_ok s \<longleftrightarrow> uuid_ok (ws_client_instance_id s) \<and> uuid_ok (ws_known_epoch s) \<and> i64_ok (ws_known_state_num s) \<and> label_ok (ws_label s)"

definition update_ok :: "presence_update \<Rightarrow> bool" where
  "update_ok u \<longleftrightarrow> i64_ok (pu_presence_clock u) \<and> uuid_ok (pu_viewing_tab_id u) \<and> uuid_ok (pu_viewing_pane_id u)"

definition client_ok :: "roster_client \<Rightarrow> bool" where
  "client_ok c \<longleftrightarrow> uuid_ok (rc_client_instance_id c) \<and> uuid_ok (rc_viewing_tab_id c) \<and> uuid_ok (rc_viewing_pane_id c) \<and> label_ok (rc_label c)"

definition pane_ok :: "roster_pane \<Rightarrow> bool" where
  "pane_ok p \<longleftrightarrow> uuid_ok (rp_pane_id p) \<and> length (rp_attachments p) \<le> max_records \<and> (\<forall>a\<in>set (rp_attachments p). uuid_ok (rat_client_instance_id a))"

definition roster_ok :: "presence_roster \<Rightarrow> bool" where
  "roster_ok ro \<longleftrightarrow> length (ro_clients ro) \<le> max_records \<and> length (ro_panes ro) \<le> max_records \<and>
     (\<forall>c\<in>set (ro_clients ro). client_ok c) \<and> (\<forall>p\<in>set (ro_panes ro). pane_ok p)"

definition label_bytes :: "rstring \<Rightarrow> bytes" where
  "label_bytes s = (let bs = as_bytes (clamp_utf8 s max_label_bytes) in be_bytes 2 (u16_try_or_max (length bs)) @ bs)"

lemma put_capped_label_owned [simp]: "put_capped_label s max_label_bytes (owned b) = owned (b @ label_bytes s)"
  by (simp add: put_capped_label_def label_bytes_def put_defs Let_def)

lemma read_label_put [simp]:
  assumes "label_ok s"
  shows "read_capped_label max_label_bytes c (cursor pre (label_bytes s @ post)) = Inr (s, cursor (pre @ label_bytes s) post)"
    "read_capped_label max_label_bytes c (cursor pre (label_bytes s)) = Inr (s, cursor (pre @ label_bytes s) [])"
proof -
  have s: "wf_str s" "str_len s \<le> 64" using assms by (auto simp: label_ok_def max_label_bytes_def)
  then have l: "label_bytes s = be_bytes 2 (word_of_nat (str_len s) :: u16) @ as_bytes s" "length (as_bytes s) = str_len s"
    by (simp_all add: label_bytes_def max_label_bytes_def u16_try_or_max_def)
  show "read_capped_label max_label_bytes c (cursor pre (label_bytes s @ post)) = Inr (s, cursor (pre @ label_bytes s) post)" for post
    using s by (simp add: read_capped_label_def l max_label_bytes_def read_bytes_cursor)
  from this [of "[]"] show "read_capped_label max_label_bytes c (cursor pre (label_bytes s)) = Inr (s, cursor (pre @ label_bytes s) [])" by simp
qed

lemma read_i64_put [simp]:
  assumes "i64_ok x"
  shows "read_i64 (cursor pre (be_bytes 8 (word_of_int x :: u64) @ post)) = Inr (x, cursor (pre @ be_bytes 8 (word_of_int x :: u64)) post)"
    "read_i64 (cursor pre (be_bytes 8 (word_of_int x :: u64))) = Inr (x, cursor (pre @ be_bytes 8 (word_of_int x :: u64)) [])"
  using fi64.get_put [OF assms, of pre] fi64.get_put [OF assms, of pre "[]"] by (simp_all add: i64_bytes_def)

lemma subscribe_round_trip: "subscribe_ok s \<Longrightarrow> subscribe_decode (subscribe_encode s @ extra) = Inr s"
  by (simp add: subscribe_ok_def subscribe_encode_def subscribe_encode_into_def subscribe_decode_def Let_def put_defs
      reader_new_cursor read_u8_def)

lemma update_round_trip: "update_ok u \<Longrightarrow> update_decode (update_encode u @ extra) = Inr u"
  by (simp add: update_ok_def update_encode_def update_decode_def Let_def put_defs reader_new_cursor read_u8_def)

lemma result_round_trip: "uuid_ok (ir_intent_id x) \<Longrightarrow> result_decode (result_encode x @ extra) = Inr x"
  by (simp add: result_encode_def result_decode_def put_defs reader_new_cursor read_u8_def)

definition intent_ok :: "workspace_intent \<Rightarrow> bool" where
  "intent_ok i \<longleftrightarrow> uuid_ok (wi_intent_id i) \<and> length (wi_args i) \<le> max_intent_arg_bytes"

lemma intent_bytes:
  assumes "intent_ok i"
  shows "intent_encode i = wi_intent_id i @ [wi_op i] @ be_bytes 4 (word_of_nat (length (wi_args i)) :: u32) @ wi_args i"
proof -
  have "length (wi_args i) \<le> max_u32_length" using assms by (simp add: intent_ok_def max_intent_arg_bytes_def max_u32_length_def)
  then show ?thesis
    by (simp add: intent_encode_def intent_encode_parts_into_def Let_def put_defs u32_try_or_max_def max_u32_length_def)
qed

lemma intent_args_span:
  assumes "intent_ok i"
  shows "intent_decode_leaving_args (intent_encode i @ extra) = Inr (wi_intent_id i, wi_op i, 21, 21 + length (wi_args i))"
proof -
  have "unat (word_of_nat (length (wi_args i)) :: u32) = length (wi_args i)"
    using assms by (simp add: intent_ok_def max_intent_arg_bytes_def unat_of_nat take_bit_eq_mod)
  then show ?thesis using assms
    by (simp add: intent_bytes intent_decode_leaving_args_def reader_new_cursor read_u8_def read_bytes_cursor
        intent_ok_def uuid_ok_def session_id_byte_count_def Let_def)
qed

lemma intent_round_trip: "intent_ok i \<Longrightarrow> intent_decode (intent_encode i @ extra) = Inr i"
  using intent_args_span [of i extra]
  by (simp add: intent_decode_def bind_res_def slice_get_def intent_bytes)
    (simp add: intent_ok_def uuid_ok_def session_id_byte_count_def)

definition client_bytes :: "roster_client \<Rightarrow> bytes" where
  "client_bytes c = rc_client_instance_id c @ [rc_client_kind c, rc_flags c] @ rc_viewing_tab_id c @ rc_viewing_pane_id c @
     be_bytes 2 (rc_cols c) @ be_bytes 2 (rc_rows c) @ label_bytes (rc_label c)"

definition attachment_bytes :: "roster_attachment \<Rightarrow> bytes" where
  "attachment_bytes a = rat_client_instance_id a @ [if rat_contributes a then 1 else 0] @ be_bytes 2 (rat_cols a) @ be_bytes 2 (rat_rows a)"

definition pane_bytes :: "roster_pane \<Rightarrow> bytes" where
  "pane_bytes p = rp_pane_id p @ be_bytes 2 (rp_resolved_cols p) @ be_bytes 2 (rp_resolved_rows p) @
     be_bytes 2 (u16_try_or_max (min (length (rp_attachments p)) max_records)) @
     concat (map attachment_bytes (take (min (length (rp_attachments p)) max_records) (rp_attachments p)))"

lemma put_roster_client_owned: "put_roster_client c (owned b) = owned (b @ client_bytes c)"
  by (simp add: put_roster_client_def client_bytes_def Let_def put_defs)

lemma put_attachment_owned: "put_attachment a (owned b) = owned (b @ attachment_bytes a)"
  by (simp add: put_attachment_def attachment_bytes_def put_defs)

lemma put_roster_pane_owned: "put_roster_pane p (owned b) = owned (b @ pane_bytes p)"
  by (simp add: put_roster_pane_def pane_bytes_def Let_def put_defs fold_put [of put_attachment attachment_bytes, OF put_attachment_owned])

lemma read_roster_client_put:
  "client_ok c \<Longrightarrow> read_roster_client (cursor pre (client_bytes c @ post)) = Inr (c, cursor (pre @ client_bytes c) post)"
  by (simp add: client_ok_def read_roster_client_def client_bytes_def read_u8_def)

lemma read_attachment_put:
  "uuid_ok (rat_client_instance_id a) \<Longrightarrow>
     read_attachment (cursor pre (attachment_bytes a @ post)) = Inr (a, cursor (pre @ attachment_bytes a) post)"
  by (simp add: read_attachment_def attachment_bytes_def read_bool_def)

text \<open>A list within the cap comes back when every record does, and no record is shorter than its floor.\<close>

lemma read_records_put:
  assumes n: "length xs \<le> max_records"
    and get: "\<And>x pre post. x \<in> set xs \<Longrightarrow> get (cursor pre (put x @ post)) = Inr (x, cursor (pre @ put x) post)"
    and floor: "\<And>x. x \<in> set xs \<Longrightarrow> k \<le> length (put x)"
  shows "read_records k what get (cursor pre (be_bytes 2 (u16_try_or_max (min (length xs) max_records)) @ concat (map put (take (min (length xs) max_records) xs)) @ post)) =
    Inr (xs, cursor (pre @ be_bytes 2 (u16_try_or_max (min (length xs) max_records)) @ concat (map put (take (min (length xs) max_records) xs))) post)"
proof -
  have u: "unat (u16_try_or_max (length xs)) = length xs" "min (length xs) max_records = length xs"
    using n by (simp_all add: u16_try_or_max_def max_records_def unat_of_nat take_bit_eq_mod)
  have "length xs * k \<le> length (concat (map put xs))"
    using floor by (induction xs) (auto intro: add_mono)
  then show ?thesis using n read_times_put [of xs get put, OF get]
    by (simp add: read_records_def u max_records_def)
qed

lemma read_roster_pane_put:
  assumes "pane_ok p"
  shows "read_roster_pane (cursor pre (pane_bytes p @ post)) = Inr (p, cursor (pre @ pane_bytes p) post)"
proof -
  have "read_records roster_attachment_bytes ''attachment'' read_attachment
      (cursor pre' (be_bytes 2 (u16_try_or_max (min (length (rp_attachments p)) max_records)) @
        concat (map attachment_bytes (take (min (length (rp_attachments p)) max_records) (rp_attachments p))) @ post)) =
      Inr (rp_attachments p, cursor (pre' @ be_bytes 2 (u16_try_or_max (min (length (rp_attachments p)) max_records)) @
        concat (map attachment_bytes (take (min (length (rp_attachments p)) max_records) (rp_attachments p)))) post)" for pre'
    using assms by (intro read_records_put read_attachment_put)
      (auto simp: pane_ok_def attachment_bytes_def roster_attachment_bytes_def uuid_ok_def session_id_byte_count_def)
  then show ?thesis using assms by (simp add: pane_ok_def read_roster_pane_def pane_bytes_def del: append_assoc) (simp add: pane_ok_def)
qed

lemma roster_round_trip:
  assumes "roster_ok ro"
  shows "roster_decode (roster_encode ro @ extra) = Inr ro"
proof -
  let ?cs = "be_bytes 2 (u16_try_or_max (min (length (ro_clients ro)) max_records)) @
    concat (map client_bytes (take (min (length (ro_clients ro)) max_records) (ro_clients ro)))"
  let ?ps = "be_bytes 2 (u16_try_or_max (min (length (ro_panes ro)) max_records)) @
    concat (map pane_bytes (take (min (length (ro_panes ro)) max_records) (ro_panes ro)))"
  have cs: "read_records roster_client_min_bytes ''client'' read_roster_client (cursor pre (?cs @ post)) =
      Inr (ro_clients ro, cursor (pre @ ?cs) post)" for pre post
    unfolding append_assoc using assms by (intro read_records_put read_roster_client_put)
      (auto simp: roster_ok_def client_ok_def client_bytes_def roster_client_min_bytes_def uuid_ok_def session_id_byte_count_def label_bytes_def Let_def)
  have ps: "read_records roster_pane_min_bytes ''pane'' read_roster_pane (cursor pre (?ps @ post)) =
      Inr (ro_panes ro, cursor (pre @ ?ps) post)" for pre post
    unfolding append_assoc using assms by (intro read_records_put read_roster_pane_put)
      (auto simp: roster_ok_def pane_ok_def pane_bytes_def roster_pane_min_bytes_def uuid_ok_def session_id_byte_count_def)
  have "roster_encode ro = ?cs @ ?ps"
    by (simp add: roster_encode_def roster_encode_into_def Let_def put_defs fold_put [of put_roster_client client_bytes, OF put_roster_client_owned]
        fold_put [of put_roster_pane pane_bytes, OF put_roster_pane_owned])
  then show ?thesis
    unfolding roster_decode_def reader_new_cursor using cs [of "[]" "?ps @ extra"] ps [of "?cs" extra] by simp
qed

text \<open>Every well-formed body of the workspace channel decodes to what was encoded, whatever a later version appended behind it: the
  subscription, the presence update, the intent with its opaque arguments, its answer and the whole roster. Well-formed is a label
  within the cap the encoder cuts at, records within the count and arguments within the length field.\<close>

theorem channel_bodies_round_trip:
  assumes "subscribe_ok s" "update_ok u" "intent_ok i" "uuid_ok (ir_intent_id x)" "roster_ok ro"
  shows "subscribe_decode (subscribe_encode s @ extra) = Inr s \<and> update_decode (update_encode u @ extra) = Inr u \<and>
    intent_decode (intent_encode i @ extra) = Inr i \<and> result_decode (result_encode x @ extra) = Inr x \<and>
    roster_decode (roster_encode ro @ extra) = Inr ro"
  using assms by (simp add: subscribe_round_trip update_round_trip intent_round_trip result_round_trip roster_round_trip)

definition demo_uuid :: raw_uuid where
  "demo_uuid = replicate 15 0 @ [7]"

definition demo_roster :: presence_roster where
  "demo_roster = \<lparr>ro_clients = [\<lparr>rc_client_instance_id = demo_uuid, rc_client_kind = 2, rc_flags = 3, rc_viewing_tab_id = demo_uuid,
      rc_viewing_pane_id = demo_uuid, rc_cols = 80, rc_rows = 24, rc_label = [104, 233]\<rparr>],
    ro_panes = [\<lparr>rp_pane_id = demo_uuid, rp_resolved_cols = 80, rp_resolved_rows = 24,
      rp_attachments = [\<lparr>rat_client_instance_id = demo_uuid, rat_contributes = True, rat_cols = 80, rat_rows = 24\<rparr>]\<rparr>]\<rparr>"

definition demo_subscribe :: workspace_subscribe where
  "demo_subscribe = \<lparr>ws_client_instance_id = demo_uuid, ws_client_kind = 2, ws_known_epoch = demo_uuid, ws_known_state_num = - 1,
     ws_flags = 1, ws_label = [104, 233]\<rparr>"

definition demo_update :: presence_update where
  "demo_update = \<lparr>pu_presence_clock = 5, pu_viewing_tab_id = demo_uuid, pu_viewing_pane_id = demo_uuid, pu_cols = 80, pu_rows = 24, pu_flags = 0\<rparr>"

definition demo_intent :: workspace_intent where
  "demo_intent = \<lparr>wi_intent_id = demo_uuid, wi_op = 9, wi_args = [1, 2, 3]\<rparr>"

lemma demo_bodies_ok:
  "uuid_ok demo_uuid" "label_ok [104, 233]" "subscribe_ok demo_subscribe" "update_ok demo_update" "intent_ok demo_intent" "roster_ok demo_roster"
proof -
  show u: "uuid_ok demo_uuid" by (simp add: demo_uuid_def uuid_ok_def session_id_byte_count_def)
  show l: "label_ok [104, 233]" by (simp add: label_ok_def wf_str_def is_scalar_def max_label_bytes_def str_len_def len_utf8_def)
  show "subscribe_ok demo_subscribe" using u l by (simp add: subscribe_ok_def demo_subscribe_def i64_ok_def)
  show "update_ok demo_update" using u by (simp add: update_ok_def demo_update_def i64_ok_def)
  show "intent_ok demo_intent" using u by (simp add: intent_ok_def demo_intent_def max_intent_arg_bytes_def)
  show "roster_ok demo_roster" using u l by (simp add: roster_ok_def demo_roster_def client_ok_def pane_ok_def max_records_def)
qed

theorem channel_bodies_round_trip_witness:
  "subscribe_decode (subscribe_encode demo_subscribe @ [9]) = Inr demo_subscribe \<and> update_decode (update_encode demo_update @ [9]) = Inr demo_update \<and>
    intent_decode (intent_encode demo_intent @ [9]) = Inr demo_intent \<and>
    result_decode (result_encode \<lparr>ir_intent_id = demo_uuid, ir_status = 1\<rparr> @ [9]) = Inr \<lparr>ir_intent_id = demo_uuid, ir_status = 1\<rparr> \<and>
    roster_decode (roster_encode demo_roster @ [9]) = Inr demo_roster"
  by (rule channel_bodies_round_trip) (simp_all add: demo_bodies_ok)

end
