(* ===== verification/Sync_Ladder.thy ===== *)
theory Sync_Ladder
  imports Btree_Map Wire_Message "HOL-Library.Multiset"
begin

text \<open>
  One subscriber's document-sync ladder (\<open>slopdesk-workspace/src/sync_ladder.rs\<close>): the window of sent states that
  are not acked, the acked base, the frame in flight, what an offer may become, and the payloads that are
  retained under the slots the ladder mints. A fixed array with a length is the list of its used cells.
\<close>

section \<open>Slots\<close>

definition retained_sent_states :: nat where
  "retained_sent_states = 4"

definition max_released :: nat where
  "max_released = retained_sent_states + 1"

definition no_slot :: u32 where
  "no_slot = 0xFFFFFFFF"

record retained =
  re_state_num :: int
  re_slot :: u32

type_synonym released = "u32 list"

definition released_push :: "u32 \<Rightarrow> released \<Rightarrow> released" where
  "released_push slot rel = (if length rel < max_released then rel @ [slot] else rel)"

text \<open>The window's operations give the window and what they release.\<close>

definition window_find :: "int \<Rightarrow> retained list \<Rightarrow> retained option" where
  "window_find n w = find (\<lambda>e. re_state_num e = n) w"

definition drop_through :: "int \<Rightarrow> u32 \<Rightarrow> released \<Rightarrow> retained list \<Rightarrow> released \<times> retained list" where
  "drop_through n promoted rel w =
    (fold released_push (map re_slot (filter (\<lambda>e. \<not> n < re_state_num e \<and> re_slot e \<noteq> promoted) w)) rel,
     filter (\<lambda>e. n < re_state_num e) w)"

definition window_clear :: "u32 \<Rightarrow> released \<Rightarrow> retained list \<Rightarrow> released \<times> retained list" where
  "window_clear promoted rel w =
    (fold released_push (map re_slot (filter (\<lambda>e. re_slot e \<noteq> promoted) w)) rel, [])"

definition evict_oldest :: "released \<Rightarrow> retained list \<Rightarrow> released \<times> retained list" where
  "evict_oldest rel w = (case w of [] \<Rightarrow> (rel, []) | oldest # rest \<Rightarrow> (released_push (re_slot oldest) rel, rest))"

definition window_push :: "retained \<Rightarrow> released \<Rightarrow> retained list \<Rightarrow> released \<times> retained list" where
  "window_push e rel w =
    (let rel = fold released_push (map re_slot (filter (\<lambda>held. re_state_num held = re_state_num e) w)) rel;
         w = filter (\<lambda>held. re_state_num held \<noteq> re_state_num e) w;
         (rel, w) = (if length w = retained_sent_states then evict_oldest rel w else (rel, w))
     in (rel, if length w < retained_sent_states then w @ [e] else w))"

section \<open>The ladder\<close>

record presence =
  pr_presence_clock :: int
  pr_viewing_tab_id :: raw_uuid
  pr_viewing_pane_id :: raw_uuid
  pr_cols :: u16
  pr_rows :: u16
  pr_contributes_size :: bool
  pr_follows_focus :: bool

definition presence_default :: presence where
  "presence_default = \<lparr>pr_presence_clock = 0, pr_viewing_tab_id = replicate 16 0, pr_viewing_pane_id = replicate 16 0,
     pr_cols = 0, pr_rows = 0, pr_contributes_size = False, pr_follows_focus = False\<rparr>"

record frame_plan =
  fp_reset_first :: bool
  fp_snapshot :: bool
  fp_base_state_num :: int
  fp_base_slot :: u32
  fp_released :: released

datatype plan = Hold | Send frame_plan

record sync_ladder =
  sl_window :: "retained list"
  sl_next_slot :: u32
  sl_base_slot :: "u32 option"
  sl_acked_state_num :: int
  sl_sent_epoch :: "raw_uuid option"
  sl_outstanding :: "int option"
  sl_pending_ack :: "int option"
  sl_presence :: "presence option"
  sl_needs_snapshot :: bool
  sl_contributes_size :: bool
  sl_follows_focus :: bool

definition ladder_new :: "bool \<Rightarrow> bool \<Rightarrow> sync_ladder" where
  "ladder_new contributes_size follows_focus =
    \<lparr>sl_window = [], sl_next_slot = 0, sl_base_slot = None, sl_acked_state_num = 0, sl_sent_epoch = None, sl_outstanding = None,
     sl_pending_ack = None, sl_presence = None, sl_needs_snapshot = True, sl_contributes_size = contributes_size,
     sl_follows_focus = follows_focus\<rparr>"

definition ladder_note_ack :: "int \<Rightarrow> sync_ladder \<Rightarrow> sync_ladder" where
  "ladder_note_ack n l =
    l\<lparr>sl_pending_ack := Some (case sl_pending_ack l of Some held \<Rightarrow> (if n \<le> held then held else n) | None \<Rightarrow> n)\<rparr>"

definition has_pending_ack :: "sync_ladder \<Rightarrow> bool" where
  "has_pending_ack l \<longleftrightarrow> sl_pending_ack l \<noteq> None"

definition adopt_base :: "u32 option \<Rightarrow> int \<Rightarrow> released \<Rightarrow> sync_ladder \<Rightarrow> released \<times> sync_ladder" where
  "adopt_base slot n rel l =
    (case sl_base_slot l of
       Some old \<Rightarrow> if Some old \<noteq> slot then released_push old rel else rel
     | None \<Rightarrow> rel,
     l\<lparr>sl_base_slot := slot, sl_acked_state_num := n\<rparr>)"

definition ladder_apply_pending_ack :: "sync_ladder \<Rightarrow> released \<times> sync_ladder" where
  "ladder_apply_pending_ack l =
    (case sl_pending_ack l of
       None \<Rightarrow> ([], l)
     | Some n \<Rightarrow>
         let l = l\<lparr>sl_pending_ack := None\<rparr> in
         case window_find n (sl_window l) of
           None \<Rightarrow>
             let l = (if n \<noteq> sl_acked_state_num l then l\<lparr>sl_needs_snapshot := True\<rparr> else l)
             in ([], l\<lparr>sl_outstanding := None\<rparr>)
         | Some e \<Rightarrow>
             let (rel, w) = drop_through n (re_slot e) [] (sl_window l);
                 (rel, l) = adopt_base (Some (re_slot e)) n rel (l\<lparr>sl_window := w\<rparr>)
             in (rel, if sl_outstanding l = Some n then l\<lparr>sl_outstanding := None\<rparr> else l))"

definition ladder_resubscribe :: "raw_uuid \<Rightarrow> int \<Rightarrow> bool \<Rightarrow> bool \<Rightarrow> sync_ladder \<Rightarrow> released \<times> sync_ladder" where
  "ladder_resubscribe known_epoch known_state_num contributes_size follows_focus l =
    (let l = l\<lparr>sl_contributes_size := contributes_size, sl_follows_focus := follows_focus, sl_outstanding := None\<rparr>;
         claimed = (if sl_sent_epoch l = Some known_epoch \<and> known_state_num \<noteq> 0 then window_find known_state_num (sl_window l) else None)
     in case claimed of
          Some e \<Rightarrow>
            let (rel, w) = window_clear (re_slot e) [] (sl_window l);
                (rel, l) = adopt_base (Some (re_slot e)) (re_state_num e) rel (l\<lparr>sl_window := w\<rparr>)
            in (rel, l\<lparr>sl_needs_snapshot := False\<rparr>)
        | None \<Rightarrow>
            let (rel, w) = window_clear no_slot [] (sl_window l);
                (rel, l) = adopt_base None 0 rel (l\<lparr>sl_window := w\<rparr>)
            in (rel, l\<lparr>sl_needs_snapshot := True\<rparr>))"

definition ladder_plan :: "raw_uuid \<Rightarrow> sync_ladder \<Rightarrow> plan \<times> sync_ladder" where
  "ladder_plan epoch l =
    (if sl_outstanding l \<noteq> None then (Hold, l)
     else
       let reset_first = (case sl_sent_epoch l of Some sent \<Rightarrow> sent \<noteq> epoch | None \<Rightarrow> False);
           (rel, l) = (if reset_first
                       then let (rel, w) = window_clear no_slot [] (sl_window l);
                                (rel, l) = adopt_base None 0 rel (l\<lparr>sl_window := w\<rparr>)
                            in (rel, l\<lparr>sl_needs_snapshot := True\<rparr>)
                       else ([], l));
           l = l\<lparr>sl_sent_epoch := Some epoch\<rparr>;
           snapshot = (sl_needs_snapshot l \<or> sl_acked_state_num l = 0 \<or> sl_base_slot l = None)
       in (Send \<lparr>fp_reset_first = reset_first, fp_snapshot = snapshot,
                 fp_base_state_num = (if snapshot then 0 else sl_acked_state_num l),
                 fp_base_slot = (if snapshot then no_slot else case sl_base_slot l of Some s \<Rightarrow> s | None \<Rightarrow> no_slot),
                 fp_released = rel\<rparr>, l))"

definition mint_slot :: "sync_ladder \<Rightarrow> u32 \<times> sync_ladder" where
  "mint_slot l =
    (let slot = sl_next_slot l; after = slot + 1
     in (slot, l\<lparr>sl_next_slot := (if after = no_slot then 0 else after)\<rparr>))"

definition ladder_commit :: "int \<Rightarrow> sync_ladder \<Rightarrow> (u32 \<times> released) \<times> sync_ladder" where
  "ladder_commit n l =
    (let l = l\<lparr>sl_needs_snapshot := False, sl_outstanding := Some n\<rparr>;
         (slot, l) = mint_slot l;
         (rel, w) = window_push \<lparr>re_state_num = n, re_slot = slot\<rparr> [] (sl_window l)
     in ((slot, rel), l\<lparr>sl_window := w\<rparr>))"

definition ladder_loose_epoch :: "sync_ladder \<Rightarrow> raw_uuid" where
  "ladder_loose_epoch l = (case sl_sent_epoch l of Some e \<Rightarrow> e | None \<Rightarrow> replicate 16 0)"

definition ladder_note_presence :: "presence \<Rightarrow> sync_ladder \<Rightarrow> bool \<times> sync_ladder" where
  "ladder_note_presence update l =
    (if (case sl_presence l of Some current \<Rightarrow> pr_presence_clock update \<le> pr_presence_clock current | None \<Rightarrow> False)
     then (False, l) else (True, l\<lparr>sl_presence := Some update\<rparr>))"

definition ladder_roster_view :: "sync_ladder \<Rightarrow> presence" where
  "ladder_roster_view l =
    (let seen = (case sl_presence l of Some p \<Rightarrow> p | None \<Rightarrow> presence_default)
     in seen\<lparr>pr_contributes_size := (case sl_presence l of Some p \<Rightarrow> pr_contributes_size p | None \<Rightarrow> sl_contributes_size l),
             pr_follows_focus := sl_follows_focus l\<rparr>)"

section \<open>The payloads\<close>

datatype 'a planned = Planned_Hold | Planned_Snapshot bool | Planned_Diff int 'a

record 'a retention =
  rn_ladder :: sync_ladder
  rn_held :: "(u32 \<times> 'a) list"

definition retention_new :: "bool \<Rightarrow> bool \<Rightarrow> 'a retention" where
  "retention_new contributes_size follows_focus = \<lparr>rn_ladder = ladder_new contributes_size follows_focus, rn_held = []\<rparr>"

definition drop_released :: "released \<Rightarrow> 'a retention \<Rightarrow> 'a retention" where
  "drop_released rel r = r\<lparr>rn_held := fold bt_remove rel (rn_held r)\<rparr>"

definition retention_note_ack :: "int \<Rightarrow> 'a retention \<Rightarrow> 'a retention" where
  "retention_note_ack n r = r\<lparr>rn_ladder := ladder_note_ack n (rn_ladder r)\<rparr>"

definition retention_apply_pending_ack :: "'a retention \<Rightarrow> 'a retention" where
  "retention_apply_pending_ack r =
    (let (rel, l) = ladder_apply_pending_ack (rn_ladder r) in drop_released rel (r\<lparr>rn_ladder := l\<rparr>))"

definition retention_resubscribe :: "raw_uuid \<Rightarrow> int \<Rightarrow> bool \<Rightarrow> bool \<Rightarrow> 'a retention \<Rightarrow> 'a retention" where
  "retention_resubscribe known_epoch known_state_num contributes_size follows_focus r =
    (let (rel, l) = ladder_resubscribe known_epoch known_state_num contributes_size follows_focus (rn_ladder r)
     in drop_released rel (r\<lparr>rn_ladder := l\<rparr>))"

definition retention_plan :: "raw_uuid \<Rightarrow> 'a retention \<Rightarrow> 'a planned \<times> 'a retention" where
  "retention_plan epoch r =
    (case ladder_plan epoch (rn_ladder r) of
       (Hold, l) \<Rightarrow> (Planned_Hold, r\<lparr>rn_ladder := l\<rparr>)
     | (Send f, l) \<Rightarrow>
         let r = drop_released (fp_released f) (r\<lparr>rn_ladder := l\<rparr>)
         in if fp_snapshot f then (Planned_Snapshot (fp_reset_first f), r)
            else (case map_of (rn_held r) (fp_base_slot f) of
                    None \<Rightarrow> Planned_Snapshot (fp_reset_first f)
                  | Some base \<Rightarrow> Planned_Diff (fp_base_state_num f) base, r))"

definition retention_commit :: "int \<Rightarrow> 'a \<Rightarrow> 'a retention \<Rightarrow> 'a retention" where
  "retention_commit n payload r =
    (let ((slot, rel), l) = ladder_commit n (rn_ladder r);
         r = drop_released rel (r\<lparr>rn_ladder := l\<rparr>)
     in if slot \<noteq> no_slot then r\<lparr>rn_held := bt_insert slot payload (rn_held r)\<rparr> else r)"

definition retention_clear :: "'a retention \<Rightarrow> 'a retention" where
  "retention_clear r = r\<lparr>rn_held := []\<rparr>"

definition retention_loose_epoch :: "'a retention \<Rightarrow> raw_uuid" where
  "retention_loose_epoch r = ladder_loose_epoch (rn_ladder r)"

definition retention_note_presence :: "presence \<Rightarrow> 'a retention \<Rightarrow> bool \<times> 'a retention" where
  "retention_note_presence update r =
    (let (ok, l) = ladder_note_presence update (rn_ladder r) in (ok, r\<lparr>rn_ladder := l\<rparr>))"

definition retention_roster_view :: "'a retention \<Rightarrow> presence" where
  "retention_roster_view r = ladder_roster_view (rn_ladder r)"

definition retention_outstanding :: "'a retention \<Rightarrow> int option" where
  "retention_outstanding r = sl_outstanding (rn_ladder r)"

definition retained_count :: "'a retention \<Rightarrow> nat" where
  "retained_count r = length (rn_held r)"

section \<open>Nothing leaks, nothing is missing\<close>

text \<open>The slots the ladder can still reach.\<close>

definition live :: "sync_ladder \<Rightarrow> u32 list" where
  "live l = (case sl_base_slot l of None \<Rightarrow> [] | Some s \<Rightarrow> [s]) @ map re_slot (sl_window l)"

definition ladder_ok :: "sync_ladder \<Rightarrow> bool" where
  "ladder_ok l \<longleftrightarrow> distinct (live l) \<and> length (sl_window l) \<le> retained_sent_states"

text \<open>After \<open>n\<close> commits a retention holds exactly the payloads of the live slots: every state in the window under its
  number (\<open>Q\<close>) and the base under the acked number (\<open>B\<close>).\<close>

definition retains :: "(int \<Rightarrow> 'a \<Rightarrow> bool) \<Rightarrow> (int \<Rightarrow> 'a \<Rightarrow> bool) \<Rightarrow> nat \<Rightarrow> 'a retention \<Rightarrow> bool" where
  "retains Q B n r \<longleftrightarrow>
    (let l = rn_ladder r in
     bt_sorted (rn_held r) \<and> fst ` set (rn_held r) = set (live l) \<and> ladder_ok l \<and>
     unat (sl_next_slot l) = n \<and> n < 2 ^ 32 - 1 \<and> (\<forall>s\<in>set (live l). unat s < n) \<and>
     (\<forall>e\<in>set (sl_window l). \<exists>p. map_of (rn_held r) (re_slot e) = Some p \<and> Q (re_state_num e) p) \<and>
     (\<forall>s. sl_base_slot l = Some s \<longrightarrow> (\<exists>p. map_of (rn_held r) s = Some p \<and> B (sl_acked_state_num l) p)))"

lemma fold_released_push: "length rel + length xs \<le> max_released \<Longrightarrow> fold released_push xs rel = rel @ xs"
  by (induction xs arbitrary: rel) (simp_all add: released_push_def)

lemma held_after_release:
  "bt_sorted held \<Longrightarrow> bt_sorted (fold bt_remove rel held)"
  "fst ` set (fold bt_remove rel held) = fst ` set held - set rel"
  "map_of (fold bt_remove rel held) s = (if s \<in> set rel then None else map_of held s)"
proof -
  show "fst ` set (fold bt_remove rel held) = fst ` set held - set rel"
    by (induction rel arbitrary: held) (auto simp: bt_remove_def)
qed (simp_all add: bt_remove_all)

lemma retains_shrink:
  assumes r: "retains Q B n r"
    and live: "set (live l) \<subseteq> set (live (rn_ladder r))" "set rel = set (live (rn_ladder r)) - set (live l)" "ladder_ok l"
    and window: "set (sl_window l) \<subseteq> set (sl_window (rn_ladder r))" "sl_next_slot l = sl_next_slot (rn_ladder r)"
    and base: "\<And>s. sl_base_slot l = Some s \<Longrightarrow>
      sl_base_slot (rn_ladder r) = Some s \<and> sl_acked_state_num l = sl_acked_state_num (rn_ladder r) \<or>
      (\<exists>e\<in>set (sl_window (rn_ladder r)). re_slot e = s \<and> re_state_num e = sl_acked_state_num l \<and> (\<forall>p. Q (re_state_num e) p \<longrightarrow> B (re_state_num e) p))"
  shows "retains Q B n (drop_released rel (r\<lparr>rn_ladder := l\<rparr>))"
proof -
  have keep: "s \<in> set (live l) \<Longrightarrow> map_of (fold bt_remove rel (rn_held r)) s = map_of (rn_held r) s" for s
    using live(2) by (simp add: held_after_release(3))
  have "\<exists>p. map_of (fold bt_remove rel (rn_held r)) (re_slot e) = Some p \<and> Q (re_state_num e) p" if "e \<in> set (sl_window l)" for e
    using that window(1) r keep [of "re_slot e"] by (auto simp: retains_def Let_def live_def)
  moreover have "\<exists>p. map_of (fold bt_remove rel (rn_held r)) s = Some p \<and> B (sl_acked_state_num l) p" if "sl_base_slot l = Some s" for s
  proof -
    have "s \<in> set (live l)" using that by (simp add: live_def)
    with base [OF that] r keep [of s] show ?thesis by (fastforce simp: retains_def Let_def)
  qed
  moreover have "fst ` set (fold bt_remove rel (rn_held r)) = set (live l)"
    using r live(1,2) by (auto simp: retains_def Let_def held_after_release(2))
  ultimately show ?thesis using r live window(2) held_after_release(1) [of "rn_held r" rel]
    by (auto simp: retains_def Let_def drop_released_def)
qed

lemma retains_new: "retains Q B 0 (retention_new c f)"
  by (simp add: retains_def retention_new_def ladder_new_def live_def ladder_ok_def bt_sorted_def)

lemma window_find_Some: "window_find m w = Some e \<Longrightarrow> e \<in> set w \<and> re_state_num e = m"
  by (auto simp: window_find_def find_Some_iff)

lemma retains_same:
  assumes "retains Q B n r" "rn_held r' = rn_held r"
    "sl_window (rn_ladder r') = sl_window (rn_ladder r)" "sl_next_slot (rn_ladder r') = sl_next_slot (rn_ladder r)"
    "sl_base_slot (rn_ladder r') = sl_base_slot (rn_ladder r)" "sl_acked_state_num (rn_ladder r') = sl_acked_state_num (rn_ladder r)"
  shows "retains Q B n r'"
  using assms(1) unfolding retains_def ladder_ok_def live_def Let_def assms(2-6) .

lemma retains_note_ack: "retains Q B n r \<Longrightarrow> retains Q B n (retention_note_ack m r)"
  by (erule retains_same) (simp_all add: retention_note_ack_def ladder_note_ack_def)

lemma retains_note_presence: "retains Q B n r \<Longrightarrow> retains Q B n (snd (retention_note_presence u r))"
  by (erule retains_same) (auto simp: retention_note_presence_def ladder_note_presence_def Let_def split: prod.splits if_splits)

text \<open>Promoting a window state to the base: what both an ack and a resubscribe do.\<close>

lemma retains_promote:
  assumes r: "retains Q B n r" and e: "e \<in> set (sl_window (rn_ladder r))" "\<And>p. Q (re_state_num e) p \<Longrightarrow> B (re_state_num e) p"
    and w: "w = filter P (sl_window (rn_ladder r))" "\<not> P e"
    and rel: "rel = fold released_push (map re_slot (filter (\<lambda>x. \<not> P x \<and> re_slot x \<noteq> re_slot e) (sl_window (rn_ladder r)))) []"
    and l: "adopt_base (Some (re_slot e)) (re_state_num e) rel l0 = (rel', l)"
      "sl_window l0 = w" "sl_next_slot l0 = sl_next_slot (rn_ladder r)" "sl_base_slot l0 = sl_base_slot (rn_ladder r)"
  shows "retains Q B n (drop_released rel' (r\<lparr>rn_ladder := l\<rparr>))"
proof (rule retains_shrink [OF r])
  let ?w = "sl_window (rn_ladder r)"
  have ok: "ladder_ok (rn_ladder r)" using r by (simp add: retains_def Let_def)
  then have inj: "inj_on re_slot (set ?w)" and len: "length ?w \<le> 4"
    and old: "\<And>s. sl_base_slot (rn_ladder r) = Some s \<Longrightarrow> s \<notin> re_slot ` set ?w"
    by (auto simp: ladder_ok_def live_def distinct_map retained_sent_states_def split: option.splits)
  have dw: "distinct (map re_slot ?w)" using ok by (auto simp: ladder_ok_def live_def)
  have few: "length (filter (\<lambda>x. \<not> P x \<and> re_slot x \<noteq> re_slot e) ?w) \<le> 4" by (rule order.trans [OF length_filter_le len])
  then have rel_eq: "rel = map re_slot (filter (\<lambda>x. \<not> P x \<and> re_slot x \<noteq> re_slot e) ?w)"
    by (simp add: rel fold_released_push max_released_def retained_sent_states_def)
  have old': "s \<noteq> re_slot e" if "sl_base_slot (rn_ladder r) = Some s" for s using old [OF that] e(1) by blast
  have short: "length rel \<le> 4" using few by (simp add: rel_eq)
  have l': "sl_base_slot l = Some (re_slot e)" "sl_acked_state_num l = re_state_num e" "sl_window l = w"
    "sl_next_slot l = sl_next_slot (rn_ladder r)"
    "rel' = rel @ (case sl_base_slot (rn_ladder r) of None \<Rightarrow> [] | Some s \<Rightarrow> [s])"
    using l old' short by (auto simp: adopt_base_def released_push_def max_released_def retained_sent_states_def split: option.splits)
  have slots: "re_slot ` set ?w = insert (re_slot e) (set rel \<union> re_slot ` set w)" "re_slot e \<notin> set rel" "set rel \<inter> re_slot ` set w = {}"
    "re_slot e \<notin> re_slot ` set w"
    using e(1) w inj by (auto simp: rel_eq inj_on_def)
  show "set (live l) \<subseteq> set (live (rn_ladder r))" "set rel' = set (live (rn_ladder r)) - set (live l)"
    using slots old by (cases "sl_base_slot (rn_ladder r)"; auto simp: live_def l')+
  show "ladder_ok l"
    using slots dw len order.trans [OF length_filter_le len]
    by (auto simp: ladder_ok_def live_def l' w(1) retained_sent_states_def distinct_map_filter)
  show "set (sl_window l) \<subseteq> set ?w" by (auto simp: l' w)
  show "sl_next_slot l = sl_next_slot (rn_ladder r)" by (simp add: l')
qed (use e l in \<open>auto simp: adopt_base_def\<close>)

lemma retains_apply_pending_ack:
  assumes "retains Q B n r" "\<And>m p. sl_pending_ack (rn_ladder r) = Some m \<Longrightarrow> Q m p \<Longrightarrow> B m p"
  shows "retains Q B n (retention_apply_pending_ack r)"
proof (cases "sl_pending_ack (rn_ladder r)")
  case None
  then show ?thesis using assms(1)
    by (simp add: retention_apply_pending_ack_def ladder_apply_pending_ack_def drop_released_def)
next
  case (Some m)
  let ?l = "(rn_ladder r)\<lparr>sl_pending_ack := None\<rparr>"
  show ?thesis
  proof (cases "window_find m (sl_window (rn_ladder r))")
    case None
    show ?thesis
      by (rule retains_same [OF assms(1)])
        (simp_all add: retention_apply_pending_ack_def ladder_apply_pending_ack_def drop_released_def Some None Let_def)
  next
    case e: (Some e)
    let ?w = "sl_window (rn_ladder r)"
    have e': "e \<in> set ?w" "re_state_num e = m" using window_find_Some [OF e] by auto
    obtain rel w where dt: "drop_through m (re_slot e) [] ?w = (rel, w)" by force
    obtain rel' l where ab: "adopt_base (Some (re_slot e)) m rel (?l\<lparr>sl_window := w\<rparr>) = (rel', l)" by force
    have "retains Q B n (drop_released rel' (r\<lparr>rn_ladder := l\<rparr>))"
      by (rule retains_promote [OF assms(1) e'(1) _ _ _ _ ab [folded e'(2)], where P = "\<lambda>x. m < re_state_num x"])
        (use dt e'(2) assms(2) [OF Some] in \<open>auto simp: drop_through_def\<close>)
    then have "retains Q B n (drop_released rel' (r\<lparr>rn_ladder := if sl_outstanding l = Some m then l\<lparr>sl_outstanding := None\<rparr> else l\<rparr>))"
      by (rule retains_same) (simp_all add: drop_released_def)
    then show ?thesis using Some e dt ab
      by (simp add: retention_apply_pending_ack_def ladder_apply_pending_ack_def Let_def)
  qed
qed

text \<open>Dropping everything: a reset, and a resubscribe that claims nothing held.\<close>

lemma retains_empty:
  assumes r: "retains Q B n r"
    and w: "window_clear no_slot [] (sl_window (rn_ladder r)) = (rel, w)"
    and l: "adopt_base None 0 rel l0 = (rel', l)" "sl_window l0 = w" "sl_next_slot l0 = sl_next_slot (rn_ladder r)"
      "sl_base_slot l0 = sl_base_slot (rn_ladder r)"
  shows "retains Q' B' n (drop_released rel' (r\<lparr>rn_ladder := l\<rparr>))"
proof -
  let ?w = "sl_window (rn_ladder r)"
  have ok: "ladder_ok (rn_ladder r)" and small: "\<forall>e\<in>set ?w. unat (re_slot e) < n" "n < 2 ^ 32 - 1"
    and keys: "fst ` set (rn_held r) = set (live (rn_ladder r))" "bt_sorted (rn_held r)" "unat (sl_next_slot (rn_ladder r)) = n"
    using r by (auto simp: retains_def Let_def live_def)
  have len: "length ?w \<le> 4" using ok by (simp add: ladder_ok_def retained_sent_states_def)
  have "\<forall>e\<in>set ?w. re_slot e \<noteq> no_slot" using small by (auto simp: no_slot_def)
  then have "filter (\<lambda>e. re_slot e \<noteq> no_slot) ?w = ?w" by (simp add: filter_id_conv)
  then have rel: "rel = map re_slot ?w" "w = []"
    using w len by (auto simp: window_clear_def fold_released_push max_released_def retained_sent_states_def)
  have l': "sl_base_slot l = None" "sl_window l = []" "sl_next_slot l = sl_next_slot (rn_ladder r)"
    "set rel' = set (live (rn_ladder r))"
    using l len by (auto simp: adopt_base_def rel released_push_def max_released_def retained_sent_states_def live_def split: option.splits)
  have "fst ` set (fold bt_remove rel' (rn_held r)) = {}" using keys(1) l'(4) by (simp add: held_after_release(2))
  moreover have "bt_sorted ([] :: (u32 \<times> 'a) list)" by (simp add: bt_sorted_def)
  ultimately show ?thesis using keys small(2) l' held_after_release(1) [OF keys(2)]
    by (simp add: retains_def drop_released_def live_def ladder_ok_def)
qed

lemma retains_resubscribe:
  assumes "retains Q B n r" "\<And>p. sl_sent_epoch (rn_ladder r) = Some ep \<Longrightarrow> Q m p \<Longrightarrow> B m p"
  shows "retains Q B n (retention_resubscribe ep m c f r)"
proof -
  let ?l = "(rn_ladder r)\<lparr>sl_contributes_size := c, sl_follows_focus := f, sl_outstanding := None\<rparr>"
  let ?w = "sl_window (rn_ladder r)"
  show ?thesis
  proof (cases "sl_sent_epoch (rn_ladder r) = Some ep \<and> m \<noteq> 0 \<and> window_find m ?w \<noteq> None")
    case True
    then obtain e where e: "window_find m ?w = Some e" by blast
    have e': "e \<in> set ?w" "re_state_num e = m" using window_find_Some [OF e] by auto
    obtain rel w where dt: "window_clear (re_slot e) [] ?w = (rel, w)" by force
    obtain rel' l where ab: "adopt_base (Some (re_slot e)) (re_state_num e) rel (?l\<lparr>sl_window := w\<rparr>) = (rel', l)" by force
    have "retains Q B n (drop_released rel' (r\<lparr>rn_ladder := l\<rparr>))"
      by (rule retains_promote [OF assms(1) e'(1) _ _ _ _ ab, where P = "\<lambda>_. False"])
        (use dt e'(2) assms(2) True in \<open>auto simp: window_clear_def\<close>)
    then have "retains Q B n (drop_released rel' (r\<lparr>rn_ladder := l\<lparr>sl_needs_snapshot := False\<rparr>\<rparr>))"
      by (rule retains_same) (simp_all add: drop_released_def)
    then show ?thesis using True e dt ab
      by (simp add: retention_resubscribe_def ladder_resubscribe_def Let_def)
  next
    case False
    obtain rel w where dt: "window_clear no_slot [] ?w = (rel, w)" by force
    obtain rel' l where ab: "adopt_base None 0 rel (?l\<lparr>sl_window := w\<rparr>) = (rel', l)" by force
    have "retains Q B n (drop_released rel' (r\<lparr>rn_ladder := l\<rparr>))"
      by (rule retains_empty [OF assms(1) dt ab]) simp_all
    then have "retains Q B n (drop_released rel' (r\<lparr>rn_ladder := l\<lparr>sl_needs_snapshot := True\<rparr>\<rparr>))"
      by (rule retains_same) (simp_all add: drop_released_def)
    moreover have "retention_resubscribe ep m c f r = drop_released rel' (r\<lparr>rn_ladder := l\<lparr>sl_needs_snapshot := True\<rparr>\<rparr>)"
      using dt ab False by (auto simp: retention_resubscribe_def ladder_resubscribe_def Let_def split: option.split)
    ultimately show ?thesis by simp
  qed
qed

text \<open>A plan holds, asks for a snapshot, or names a base that is held under the acked number, in the epoch of the
  offer; after a change of epoch nothing is retained.\<close>

lemma retention_plan_hold: "sl_outstanding (rn_ladder r) \<noteq> None \<Longrightarrow> retention_plan ep r = (Planned_Hold, r)"
  by (auto simp: retention_plan_def ladder_plan_def)

lemma retention_plan_reset:
  assumes r: "retains Q B n r" and idle: "sl_outstanding (rn_ladder r) = None"
    and e: "sl_sent_epoch (rn_ladder r) = Some sent" "sent \<noteq> ep"
  obtains r' where "retention_plan ep r = (Planned_Snapshot True, r')" "\<And>Q' B'. retains Q' B' n r'"
    "sl_sent_epoch (rn_ladder r') = Some ep" "sl_pending_ack (rn_ladder r') = sl_pending_ack (rn_ladder r)"
    "sl_outstanding (rn_ladder r') = None" "sl_window (rn_ladder r') = []" "sl_base_slot (rn_ladder r') = None"
    "sl_needs_snapshot (rn_ladder r')"
proof -
  obtain rel w where dt: "window_clear no_slot [] (sl_window (rn_ladder r)) = (rel, w)" by force
  obtain rel' l where ab: "adopt_base None 0 rel ((rn_ladder r)\<lparr>sl_window := w\<rparr>) = (rel', l)" by force
  let ?r = "drop_released rel' (r\<lparr>rn_ladder := l\<lparr>sl_needs_snapshot := True, sl_sent_epoch := Some ep\<rparr>\<rparr>)"
  have "retains Q' B' n (drop_released rel' (r\<lparr>rn_ladder := l\<rparr>))" for Q' B'
    by (rule retains_empty [OF r dt ab]) simp_all
  then have "retains Q' B' n ?r" for Q' B' by (rule retains_same) (simp_all add: drop_released_def)
  moreover have "l = (rn_ladder r)\<lparr>sl_window := [], sl_base_slot := None, sl_acked_state_num := 0\<rparr>"
    using ab dt by (auto simp: adopt_base_def window_clear_def)
  moreover have "retention_plan ep r = (Planned_Snapshot True, ?r)"
    using idle e dt ab by (simp add: retention_plan_def ladder_plan_def Let_def drop_released_def)
  ultimately show thesis using that idle by (simp add: drop_released_def)
qed

lemma retention_plan_same_epoch:
  assumes r: "retains Q B n r" and idle: "sl_outstanding (rn_ladder r) = None"
    and e: "sl_sent_epoch (rn_ladder r) = None \<or> sl_sent_epoch (rn_ladder r) = Some ep"
  defines "r' \<equiv> r\<lparr>rn_ladder := (rn_ladder r)\<lparr>sl_sent_epoch := Some ep\<rparr>\<rparr>"
  shows "retains Q B n r'" "sl_needs_snapshot (rn_ladder r) \<or> sl_acked_state_num (rn_ladder r) = 0 \<or> sl_base_slot (rn_ladder r) = None \<Longrightarrow>
      retention_plan ep r = (Planned_Snapshot False, r')"
    "\<not> (sl_needs_snapshot (rn_ladder r) \<or> sl_acked_state_num (rn_ladder r) = 0 \<or> sl_base_slot (rn_ladder r) = None) \<Longrightarrow>
      \<exists>base. retention_plan ep r = (Planned_Diff (sl_acked_state_num (rn_ladder r)) base, r') \<and> B (sl_acked_state_num (rn_ladder r)) base"
proof -
  show "retains Q B n r'" by (rule retains_same [OF r]) (simp_all add: r'_def)
  have ladder: "ladder_plan ep (rn_ladder r) =
      (let snapshot = (sl_needs_snapshot (rn_ladder r) \<or> sl_acked_state_num (rn_ladder r) = 0 \<or> sl_base_slot (rn_ladder r) = None)
       in (Send \<lparr>fp_reset_first = False, fp_snapshot = snapshot, fp_base_state_num = (if snapshot then 0 else sl_acked_state_num (rn_ladder r)),
             fp_base_slot = (if snapshot then no_slot else case sl_base_slot (rn_ladder r) of Some s \<Rightarrow> s | None \<Rightarrow> no_slot), fp_released = []\<rparr>,
          (rn_ladder r)\<lparr>sl_sent_epoch := Some ep\<rparr>))"
    using idle e by (auto simp: ladder_plan_def Let_def)
  show "sl_needs_snapshot (rn_ladder r) \<or> sl_acked_state_num (rn_ladder r) = 0 \<or> sl_base_slot (rn_ladder r) = None \<Longrightarrow>
      retention_plan ep r = (Planned_Snapshot False, r')"
    by (simp add: retention_plan_def ladder r'_def drop_released_def Let_def)
  assume no: "\<not> (sl_needs_snapshot (rn_ladder r) \<or> sl_acked_state_num (rn_ladder r) = 0 \<or> sl_base_slot (rn_ladder r) = None)"
  then obtain s where s: "sl_base_slot (rn_ladder r) = Some s" by blast
  then obtain p where "map_of (rn_held r) s = Some p" "B (sl_acked_state_num (rn_ladder r)) p" using r by (auto simp: retains_def Let_def)
  then show "\<exists>base. retention_plan ep r = (Planned_Diff (sl_acked_state_num (rn_ladder r)) base, r') \<and> B (sl_acked_state_num (rn_ladder r)) base"
    using no s by (simp add: retention_plan_def ladder r'_def drop_released_def Let_def)
qed

text \<open>A commit files its payload under a fresh slot.\<close>

lemma window_push_eq:
  assumes "length w \<le> retained_sent_states"
  shows "\<exists>old. window_push e [] w = (map re_slot (filter (\<lambda>x. re_state_num x = re_state_num e) w @ old),
      drop (length old) (filter (\<lambda>x. re_state_num x \<noteq> re_state_num e) w) @ [e]) \<and>
    old = take (length old) (filter (\<lambda>x. re_state_num x \<noteq> re_state_num e) w) \<and>
    length (drop (length old) (filter (\<lambda>x. re_state_num x \<noteq> re_state_num e) w)) < retained_sent_states"
proof -
  let ?f = "filter (\<lambda>x. re_state_num x \<noteq> re_state_num e) w" and ?g = "filter (\<lambda>x. re_state_num x = re_state_num e) w"
  have sum: "length ?g + length ?f = length w"
    using sum_length_filter_compl [of "\<lambda>x. re_state_num x = re_state_num e" w] by simp
  then have g: "fold released_push (map re_slot ?g) [] = map re_slot ?g"
    using assms by (simp add: fold_released_push max_released_def)
  show ?thesis
  proof (cases "length ?f = retained_sent_states")
    case True
    then obtain o' rest where f: "?f = o' # rest" by (cases ?f) (auto simp: retained_sent_states_def)
    have "length ?g = 0" using sum assms True by linarith
    then have "?g = []" by blast
    then show ?thesis using True f g
      by (intro exI [of _ "[o']"]) (auto simp: window_push_def Let_def evict_oldest_def released_push_def max_released_def retained_sent_states_def)
  next
    case False
    then show ?thesis using sum assms g
      by (intro exI [of _ "[]"]) (auto simp: window_push_def Let_def)
  qed
qed

lemma retains_commit:
  assumes r: "retains Q B n r" and q: "Q m payload" and room: "Suc n < 2 ^ 32 - 1"
  shows "retains Q B (Suc n) (retention_commit m payload r)"
proof -
  let ?w = "sl_window (rn_ladder r)" and ?slot = "sl_next_slot (rn_ladder r)"
  let ?e = "\<lparr>re_state_num = m, re_slot = ?slot\<rparr>"
  have ok: "ladder_ok (rn_ladder r)" and keys: "bt_sorted (rn_held r)" "fst ` set (rn_held r) = set (live (rn_ladder r))"
    and n: "unat ?slot = n" "n < 2 ^ 32 - 1" and small: "\<forall>s\<in>set (live (rn_ladder r)). unat s < n"
    and win: "\<And>e. e \<in> set ?w \<Longrightarrow> \<exists>p. map_of (rn_held r) (re_slot e) = Some p \<and> Q (re_state_num e) p"
    and base: "\<And>s. sl_base_slot (rn_ladder r) = Some s \<Longrightarrow> \<exists>p. map_of (rn_held r) s = Some p \<and> B (sl_acked_state_num (rn_ladder r)) p"
    using r by (auto simp: retains_def Let_def)
  let ?f = "filter (\<lambda>x. re_state_num x \<noteq> m) ?w"
  obtain old where push: "window_push ?e [] ?w = (map re_slot (filter (\<lambda>x. re_state_num x = m) ?w @ old), drop (length old) ?f @ [?e])"
    and old: "old = take (length old) ?f" "length (drop (length old) ?f) < retained_sent_states"
    using window_push_eq [of ?w ?e] ok by (auto simp: ladder_ok_def)
  define rest where "rest = drop (length old) ?f"
  have f: "?f = old @ rest" using old(1) by (metis append_take_drop_id rest_def)
  define rel where "rel = map re_slot (filter (\<lambda>x. re_state_num x = m) ?w @ old)"
  have dw: "distinct (map re_slot ?w)" "\<And>s. sl_base_slot (rn_ladder r) = Some s \<Longrightarrow> s \<notin> re_slot ` set ?w"
    using ok by (auto simp: ladder_ok_def live_def split: option.splits)
  have slots: "re_slot ` set ?w = set rel \<union> re_slot ` set rest" "set rel \<inter> re_slot ` set rest = {}" "distinct (map re_slot rest)" "set rest \<subseteq> set ?w"
  proof -
    have "set ?f = set old \<union> set rest" using f by simp
    then show "re_slot ` set ?w = set rel \<union> re_slot ` set rest" by (auto simp: rel_def)
    have d: "distinct (map re_slot (old @ rest))" unfolding f [symmetric] using dw(1) by (rule distinct_map_filter)
    then show "distinct (map re_slot rest)" by simp
    show sub: "set rest \<subseteq> set ?w" using \<open>set ?f = _\<close> by auto
    have "x \<noteq> y" if "x \<in> set (filter (\<lambda>x. re_state_num x = m) ?w)" "y \<in> set rest" for x y
      using that \<open>set ?f = _\<close> by auto
    moreover have "inj_on re_slot (set ?w)" using dw(1) by (simp add: distinct_map)
    ultimately show "set rel \<inter> re_slot ` set rest = {}" using d sub by (auto simp: rel_def inj_on_def)
  qed
  have fresh: "?slot \<notin> set (live (rn_ladder r))" "?slot \<noteq> no_slot" "unat (?slot + 1) = Suc n" "?slot + 1 \<noteq> no_slot"
    using n small room by (auto simp: no_slot_def unat_word_ariths word_unat_eq_iff)
  have r': "rn_held (retention_commit m payload r) = bt_insert ?slot payload (fold bt_remove rel (rn_held r))"
    "sl_window (rn_ladder (retention_commit m payload r)) = rest @ [?e]"
    "sl_next_slot (rn_ladder (retention_commit m payload r)) = ?slot + 1"
    "sl_base_slot (rn_ladder (retention_commit m payload r)) = sl_base_slot (rn_ladder r)"
    "sl_acked_state_num (rn_ladder (retention_commit m payload r)) = sl_acked_state_num (rn_ladder r)"
    using push fresh(2,4) by (simp_all add: retention_commit_def ladder_commit_def mint_slot_def Let_def drop_released_def rel_def rest_def)
  have look: "map_of (rn_held (retention_commit m payload r)) s = (if s = ?slot then Some payload else if s \<in> set rel then None else map_of (rn_held r) s)" for s
    by (simp add: r' bt_insert_lookup held_after_release keys)
  have live': "set (live (rn_ladder (retention_commit m payload r))) = insert ?slot (set (live (rn_ladder r)) - set rel)"
    "ladder_ok (rn_ladder (retention_commit m payload r))"
    using slots dw(2) fresh(1) old(2) by (auto simp: live_def r' ladder_ok_def rest_def split: option.splits)
  have "fst ` set (rn_held (retention_commit m payload r)) = insert ?slot (set (live (rn_ladder r)) - set rel)"
    using bt_insert_keys [of ?slot payload "fold bt_remove rel (rn_held r)"] by (simp add: r' held_after_release(2) keys(2))
  moreover have "\<exists>p. map_of (rn_held (retention_commit m payload r)) (re_slot x) = Some p \<and> Q (re_state_num x) p" if "x \<in> set (rest @ [?e])" for x
  proof (cases "x = ?e")
    case False
    then have "x \<in> set rest" using that by simp
    then have "x \<in> set ?w" "re_slot x \<notin> set rel" "re_slot x \<in> set (live (rn_ladder r))" using slots by (auto simp: live_def)
    then show ?thesis using win fresh(1) look by auto
  qed (use q look in simp)
  moreover have "\<exists>p. map_of (rn_held (retention_commit m payload r)) s = Some p \<and> B (sl_acked_state_num (rn_ladder r)) p"
    if "sl_base_slot (rn_ladder r) = Some s" for s
  proof -
    have "s \<in> set (live (rn_ladder r))" "s \<notin> set rel" using that dw(2) slots(1) by (auto simp: live_def)
    then show ?thesis using base [OF that] fresh(1) look by auto
  qed
  ultimately show ?thesis
    using live' fresh(3) room small keys(1)
    by (auto simp: retains_def Let_def r' bt_insert_sorted held_after_release(1) n(1) less_SucI)
qed

section \<open>Any use of a ladder\<close>

datatype 'a ladder_op =
    Note_Ack int
  | Apply_Ack
  | Resubscribe raw_uuid int bool bool
  | Plan raw_uuid
  | Commit int 'a
  | Note_Presence presence

fun ladder_step :: "'a ladder_op \<Rightarrow> 'a retention \<Rightarrow> 'a retention" where
  "ladder_step (Note_Ack n) r = retention_note_ack n r"
| "ladder_step Apply_Ack r = retention_apply_pending_ack r"
| "ladder_step (Resubscribe e n c f) r = retention_resubscribe e n c f r"
| "ladder_step (Plan e) r = snd (retention_plan e r)"
| "ladder_step (Commit n p) r = retention_commit n p r"
| "ladder_step (Note_Presence u) r = snd (retention_note_presence u r)"

definition ladder_run :: "'a ladder_op list \<Rightarrow> 'a retention \<Rightarrow> 'a retention" where
  "ladder_run ops r = fold ladder_step ops r"

fun commits :: "'a ladder_op list \<Rightarrow> nat" where
  "commits [] = 0"
| "commits (Commit n p # ops) = Suc (commits ops)"
| "commits (_ # ops) = commits ops"

lemma commits_append [simp]: "commits (xs @ ys) = commits xs + commits ys"
  by (induction xs rule: commits.induct) simp_all

lemma retains_mono:
  "retains Q B n r \<Longrightarrow> (\<And>m p. Q m p \<Longrightarrow> Q' m p) \<Longrightarrow> (\<And>m p. B m p \<Longrightarrow> B' m p) \<Longrightarrow> retains Q' B' n r"
  unfolding retains_def Let_def by meson

lemma pending_note_ack:
  "sl_pending_ack (rn_ladder (retention_note_ack n r)) =
    Some (case sl_pending_ack (rn_ladder r) of Some held \<Rightarrow> (if n \<le> held then held else n) | None \<Rightarrow> n)"
  by (simp add: retention_note_ack_def ladder_note_ack_def)

lemma pending_ack_step:
  "sl_pending_ack (rn_ladder (retention_resubscribe e n c f r)) = sl_pending_ack (rn_ladder r)"
  "sl_pending_ack (rn_ladder (snd (retention_plan ep r))) = sl_pending_ack (rn_ladder r)"
  "sl_pending_ack (rn_ladder (retention_commit n p r)) = sl_pending_ack (rn_ladder r)"
  "sl_pending_ack (rn_ladder (snd (retention_note_presence u r))) = sl_pending_ack (rn_ladder r)"
  "sl_pending_ack (rn_ladder (retention_apply_pending_ack r)) = None"
  by (auto simp: retention_resubscribe_def ladder_resubscribe_def retention_plan_def ladder_plan_def retention_commit_def ladder_commit_def
      mint_slot_def retention_note_presence_def ladder_note_presence_def retention_apply_pending_ack_def ladder_apply_pending_ack_def
      drop_released_def adopt_base_def Let_def split: prod.splits option.splits)

lemma retains_plan: "retains Q B n r \<Longrightarrow> retains Q B n (snd (retention_plan ep r))"
proof (cases "sl_outstanding (rn_ladder r) = None")
  case True
  assume r: "retains Q B n r"
  show ?thesis
  proof (cases "sl_sent_epoch (rn_ladder r) = None \<or> sl_sent_epoch (rn_ladder r) = Some ep")
    case same: True
    then show ?thesis using retention_plan_same_epoch [OF r True same] by (metis snd_conv)
  next
    case False
    then show ?thesis using retention_plan_reset [OF r True] by (metis not_Some_eq snd_conv)
  qed
qed (simp add: retention_plan_hold)

definition committed :: "'a ladder_op list \<Rightarrow> int \<Rightarrow> 'a \<Rightarrow> bool" where
  "committed ops n p \<longleftrightarrow> Commit n p \<in> set ops"

definition claimed :: "'a ladder_op list \<Rightarrow> int \<Rightarrow> 'a \<Rightarrow> bool" where
  "claimed ops n p \<longleftrightarrow> Commit n p \<in> set ops \<and> (Note_Ack n \<in> set ops \<or> (\<exists>e c f. Resubscribe e n c f \<in> set ops))"

lemma ladder_run_retains:
  assumes "commits ops < 2 ^ 32 - 1"
  shows "retains (committed ops) (claimed ops) (commits ops) (ladder_run ops (retention_new c f)) \<and>
    (\<forall>m. sl_pending_ack (rn_ladder (ladder_run ops (retention_new c f))) = Some m \<longrightarrow> Note_Ack m \<in> set ops)"
  using assms
proof (induction ops rule: rev_induct)
  case Nil
  then show ?case using retains_new [of _ _ c f] by (simp add: ladder_run_def retention_new_def ladder_new_def)
next
  case (snoc op ops)
  let ?r = "ladder_run ops (retention_new c f)"
  have step: "ladder_run (ops @ [op]) (retention_new c f) = ladder_step op ?r" by (simp add: ladder_run_def)
  have ih: "retains (committed ops) (claimed ops) (commits ops) ?r" and ack: "\<And>m. sl_pending_ack (rn_ladder ?r) = Some m \<Longrightarrow> Note_Ack m \<in> set ops"
    using snoc by auto
  have r: "retains (committed (ops @ [op])) (claimed (ops @ [op])) (commits ops) ?r"
    by (rule retains_mono [OF ih]) (auto simp: committed_def claimed_def)
  show ?case
  proof (cases op)
    case (Note_Ack n)
    then show ?thesis using retains_note_ack [OF r, of n] ack unfolding step
      by (auto simp: pending_note_ack split: option.splits if_splits)
  next
    case Apply_Ack
    have "retains (committed (ops @ [op])) (claimed (ops @ [op])) (commits ops) (retention_apply_pending_ack ?r)"
      by (rule retains_apply_pending_ack [OF r]) (auto simp: committed_def claimed_def dest: ack)
    then show ?thesis using Apply_Ack unfolding step by (simp add: pending_ack_step)
  next
    case (Resubscribe e n c f)
    have "retains (committed (ops @ [op])) (claimed (ops @ [op])) (commits ops) (retention_resubscribe e n c f ?r)"
      by (rule retains_resubscribe [OF r]) (auto simp: committed_def claimed_def Resubscribe)
    then show ?thesis using Resubscribe ack unfolding step by (simp add: pending_ack_step)
  next
    case (Plan e)
    then show ?thesis using retains_plan [OF r] ack unfolding step by (simp add: pending_ack_step)
  next
    case (Commit n p)
    have "retains (committed (ops @ [op])) (claimed (ops @ [op])) (Suc (commits ops)) (retention_commit n p ?r)"
      by (rule retains_commit [OF r]) (use snoc.prems in \<open>auto simp: committed_def Commit\<close>)
    then show ?thesis using Commit ack unfolding step by (simp add: pending_ack_step)
  next
    case (Note_Presence u)
    then show ?thesis using retains_note_presence [OF r] ack unfolding step by (simp add: pending_ack_step)
  qed
qed

text \<open>A diff is computed from a state the client said it holds: whatever acks, claims, offers and commits a ladder
  has seen, in any order, the base it names for a diff is the payload that was committed under that number,
  and the client acked that number or claimed it when it subscribed again.\<close>

theorem diff_base_is_what_the_client_holds:
  assumes "commits ops < 2 ^ 32 - 1"
    and "retention_plan ep (ladder_run ops (retention_new c f)) = (Planned_Diff n base, r)"
  shows "Commit n base \<in> set ops \<and> (Note_Ack n \<in> set ops \<or> (\<exists>e c f. Resubscribe e n c f \<in> set ops))"
proof -
  let ?r = "ladder_run ops (retention_new c f)"
  note r = ladder_run_retains [OF assms(1), THEN conjunct1]
  have idle: "sl_outstanding (rn_ladder ?r) = None" using assms(2) retention_plan_hold [of ?r ep] by (metis Pair_inject planned.distinct(3))
  have same: "sl_sent_epoch (rn_ladder ?r) = None \<or> sl_sent_epoch (rn_ladder ?r) = Some ep"
    using retention_plan_reset [OF r idle, of _ ep] assms(2) by (metis Pair_inject not_Some_eq planned.distinct(5))
  have "claimed ops n base"
    using retention_plan_same_epoch(2,3) [OF r idle same] assms(2) by (metis Pair_inject planned.distinct(5) planned.inject(2))
  then show ?thesis by (simp add: claimed_def)
qed

text \<open>C28. Retained documents never leak: after any use, exactly the payloads a later call can still reach are held, at
  most five of them, and none a later call needs is missing.\<close>

theorem retention_holds_exactly_what_is_live:
  assumes "commits ops < 2 ^ 32 - 1"
  shows "let r = ladder_run ops (retention_new c f) in
    fst ` set (rn_held r) = set (live (rn_ladder r)) \<and> retained_count r = length (live (rn_ladder r)) \<and> retained_count r \<le> max_released"
proof -
  let ?r = "ladder_run ops (retention_new c f)"
  have r: "bt_sorted (rn_held ?r)" "fst ` set (rn_held ?r) = set (live (rn_ladder ?r))" "ladder_ok (rn_ladder ?r)"
    using ladder_run_retains [OF assms, of c f] by (auto simp: retains_def Let_def)
  have "length (rn_held ?r) = card (fst ` set (rn_held ?r))"
    using bt_sorted_distinct [OF r(1)] by (metis distinct_card length_map set_map)
  also have "\<dots> = length (live (rn_ladder ?r))" using r by (simp add: distinct_card ladder_ok_def)
  finally have len: "length (rn_held ?r) = length (live (rn_ladder ?r))" .
  moreover have "length (live (rn_ladder ?r)) \<le> max_released"
    using r(3) by (auto simp: ladder_ok_def live_def max_released_def split: option.split)
  ultimately show ?thesis using r(2) by (simp add: Let_def retained_count_def)
qed

definition demo_ops :: "nat ladder_op list" where
  "demo_ops = [Plan (replicate 16 1), Commit 1 10, Note_Ack 1, Apply_Ack, Plan (replicate 16 1), Commit 2 20, Note_Ack 2, Apply_Ack]"

lemmas ladder_eval = ladder_run_def demo_ops_def retention_new_def ladder_new_def retention_plan_def ladder_plan_def retention_commit_def
  ladder_commit_def mint_slot_def window_push_def retention_note_ack_def ladder_note_ack_def retention_apply_pending_ack_def
  ladder_apply_pending_ack_def window_find_def drop_through_def adopt_base_def drop_released_def released_push_def no_slot_def
  retained_sent_states_def max_released_def bt_remove_def

lemma demo_ops_plan: "\<exists>r. retention_plan (replicate 16 1) (ladder_run demo_ops (retention_new True False)) = (Planned_Diff 2 20, r)"
  by (simp add: ladder_eval)

lemma diff_base_is_what_the_client_holds_witness: "Commit 2 20 \<in> set demo_ops \<and> Note_Ack 2 \<in> set demo_ops"
proof -
  obtain r where "retention_plan (replicate 16 1) (ladder_run demo_ops (retention_new True False)) = (Planned_Diff 2 20, r)"
    using demo_ops_plan by blast
  from diff_base_is_what_the_client_holds [OF _ this] show ?thesis by (auto simp: demo_ops_def)
qed

lemma retention_holds_exactly_what_is_live_witness:
  "let r = ladder_run demo_ops (retention_new True False) in rn_held r = [(1, 20)] \<and> fst ` set (rn_held r) = set (live (rn_ladder r))"
proof -
  have "commits demo_ops < 2 ^ 32 - 1" by (simp add: demo_ops_def)
  from retention_holds_exactly_what_is_live [OF this, of True False]
  have "fst ` set (rn_held (ladder_run demo_ops (retention_new True False))) = set (live (rn_ladder (ladder_run demo_ops (retention_new True False))))"
    by (simp add: Let_def)
  moreover have "rn_held (ladder_run demo_ops (retention_new True False)) = [(1, 20)]" by (simp add: ladder_eval)
  ultimately show ?thesis by (simp add: Let_def)
qed

end
