(* ===== verification/Workspace_Subscriber.thy ===== *)
theory Workspace_Subscriber
  imports Workspace_Codec Workspace_Channel Sync_Ladder
begin

text \<open>
  One subscribed connection (\<open>slopdesk-hostserver/src/subscriber.rs\<close>): the inbox, the coalescing slot of the freshest
  document, the roster and the answers, the ladder behind one lock, and the pump thread that drains them. The pump
  is a program counter: every step is one critical section or one send, so whatever another thread does between two of
  them is a step of its own.
\<close>

section \<open>The subscriber\<close>

record offer =
  of_epoch :: raw_uuid
  of_state_num :: int
  of_state :: host_state

record inbox =
  ib_subscribe :: "workspace_subscribe option"
  ib_roster :: "presence_roster option"
  ib_results :: "intent_result list"
  ib_offer :: "offer option"

text \<open>Where the pump thread stands. \<open>Parked\<close> is the head of its loop, where it waits; the others are the points of
  \<open>drain\<close> between two locked sections or sends.\<close>

datatype pump_at =
    Unstarted
  | Parked
  | Draining
  | Resubscribing inbox
  | Acking inbox
  | Loosening inbox
  | Answering raw_uuid "intent_result list" "presence_roster option" "offer option" bool
  | Planning "offer option" bool
  | Claiming offer "host_state planned"
  | Sending offer "host_state planned"
  | Committing offer
  | Stopped

record subscriber =
  sb_client_instance_id :: raw_uuid
  sb_client_kind :: u8
  sb_label :: rstring
  sb_retention :: "host_state retention"
  sb_pending_state :: "offer option"
  sb_pending_roster :: "presence_roster option"
  sb_pending_subscribe :: "workspace_subscribe option"
  sb_pending_results :: "intent_result list"
  sb_closed :: bool
  sb_pumping :: bool
  sb_pump :: pump_at

definition has_work :: "subscriber \<Rightarrow> bool" where
  "has_work s \<longleftrightarrow> sb_pending_state s \<noteq> None \<or> sb_pending_roster s \<noteq> None \<or> sb_pending_subscribe s \<noteq> None \<or> sb_pending_results s \<noteq> []"

definition subscriber_new :: "workspace_subscribe \<Rightarrow> subscriber" where
  "subscriber_new request =
    \<lparr>sb_client_instance_id = ws_client_instance_id request, sb_client_kind = ws_client_kind request, sb_label = ws_label request,
     sb_retention = retention_new (subscribe_contributes_size request) (subscribe_follows_focus request),
     sb_pending_state = None, sb_pending_roster = None, sb_pending_subscribe = None, sb_pending_results = [], sb_closed = False,
     sb_pumping = False, sb_pump = Unstarted\<rparr>"

definition start_pump :: "subscriber \<Rightarrow> subscriber" where
  "start_pump s = (if sb_pumping s \<or> sb_closed s then s else s\<lparr>sb_pumping := True, sb_pump := Parked\<rparr>)"

definition close_subscriber :: "subscriber \<Rightarrow> subscriber" where
  "close_subscriber s =
    (if sb_closed s then s
     else s\<lparr>sb_closed := True, sb_pending_state := None, sb_pending_roster := None, sb_pending_subscribe := None,
            sb_pending_results := [], sb_retention := retention_clear (sb_retention s)\<rparr>)"

section \<open>Inputs\<close>

definition deliver_state :: "raw_uuid \<Rightarrow> int \<Rightarrow> host_state \<Rightarrow> subscriber \<Rightarrow> subscriber" where
  "deliver_state epoch state_num state s =
    (if sb_closed s then s
     else s\<lparr>sb_pending_state := Some \<lparr>of_epoch = epoch, of_state_num = state_num, of_state = state\<rparr>\<rparr>)"

definition deliver_roster :: "presence_roster \<Rightarrow> subscriber \<Rightarrow> subscriber" where
  "deliver_roster roster s = (if sb_closed s then s else s\<lparr>sb_pending_roster := Some roster\<rparr>)"

definition deliver_result :: "intent_result \<Rightarrow> subscriber \<Rightarrow> subscriber" where
  "deliver_result r s = (if sb_closed s then s else s\<lparr>sb_pending_results := sb_pending_results s @ [r]\<rparr>)"

definition note_ack :: "int \<Rightarrow> subscriber \<Rightarrow> subscriber" where
  "note_ack n s = (if sb_closed s then s else s\<lparr>sb_retention := retention_note_ack n (sb_retention s)\<rparr>)"

definition note_presence :: "presence_update \<Rightarrow> subscriber \<Rightarrow> bool \<times> subscriber" where
  "note_presence u s =
    (if sb_closed s then (False, s)
     else let (newer, r) = retention_note_presence
                \<lparr>pr_presence_clock = pu_presence_clock u, pr_viewing_tab_id = pu_viewing_tab_id u, pr_viewing_pane_id = pu_viewing_pane_id u,
                 pr_cols = pu_cols u, pr_rows = pu_rows u, pr_contributes_size = update_contributes_size u,
                 pr_follows_focus = (and (pu_flags u) flag_follows_focus \<noteq> 0)\<rparr> (sb_retention s)
          in (newer, s\<lparr>sb_retention := r\<rparr>))"

definition note_resubscribe :: "workspace_subscribe \<Rightarrow> subscriber \<Rightarrow> subscriber" where
  "note_resubscribe request s = (if sb_closed s then s else s\<lparr>sb_pending_subscribe := Some request\<rparr>)"

definition roster_record :: "subscriber \<Rightarrow> roster_client" where
  "roster_record s =
    (let view = retention_roster_view (sb_retention s);
         flags = (if pr_contributes_size view then flag_contributes_size else 0);
         flags = (if pr_follows_focus view then or flags flag_follows_focus else flags)
     in \<lparr>rc_client_instance_id = sb_client_instance_id s, rc_client_kind = sb_client_kind s, rc_flags = flags,
         rc_viewing_tab_id = pr_viewing_tab_id view, rc_viewing_pane_id = pr_viewing_pane_id view, rc_cols = pr_cols view,
         rc_rows = pr_rows view, rc_label = sb_label s\<rparr>)"

section \<open>The drain\<close>

definition take_inbox :: "subscriber \<Rightarrow> inbox option \<times> subscriber" where
  "take_inbox s =
    (if sb_closed s then (None, s)
     else (Some \<lparr>ib_subscribe = sb_pending_subscribe s, ib_roster = sb_pending_roster s, ib_results = sb_pending_results s,
                 ib_offer = sb_pending_state s\<rparr>,
           s\<lparr>sb_pending_subscribe := None, sb_pending_roster := None, sb_pending_results := []\<rparr>))"

definition claim_pending_state :: "subscriber \<Rightarrow> subscriber" where
  "claim_pending_state s = s\<lparr>sb_pending_state := None\<rparr>"

definition apply_resubscribe :: "workspace_subscribe \<Rightarrow> subscriber \<Rightarrow> subscriber" where
  "apply_resubscribe request s =
    s\<lparr>sb_client_instance_id := ws_client_instance_id request, sb_client_kind := ws_client_kind request, sb_label := ws_label request,
      sb_retention := retention_resubscribe (ws_known_epoch request) (ws_known_state_num request)
        (and (ws_flags request) flag_contributes_size \<noteq> 0) (and (ws_flags request) flag_follows_focus \<noteq> 0) (sb_retention s)\<rparr>"

definition plan_offer :: "offer \<Rightarrow> subscriber \<Rightarrow> host_state planned \<times> subscriber" where
  "plan_offer off s = (let (p, r) = retention_plan (of_epoch off) (sb_retention s) in (p, s\<lparr>sb_retention := r\<rparr>))"

definition event_frame :: "event_kind \<Rightarrow> raw_uuid \<Rightarrow> int \<Rightarrow> int \<Rightarrow> bytes \<Rightarrow> wire_message" where
  "event_frame kind epoch base new payload = WorkspaceEvent (event_as_byte kind) epoch base new payload"

text \<open>A send either puts the frame on the link or finds the link gone, which closes the subscriber and ends the pump.\<close>

definition send_frame :: "bool \<Rightarrow> wire_message \<Rightarrow> pump_at \<Rightarrow> subscriber \<Rightarrow> wire_message list \<times> subscriber" where
  "send_frame alive frame nxt s =
    (if alive then ([frame], s\<lparr>sb_pump := nxt\<rparr>) else ([], (close_subscriber s)\<lparr>sb_pumping := False, sb_pump := Stopped\<rparr>))"

definition again :: "bool \<Rightarrow> pump_at" where
  "again did_send = (if did_send then Draining else Parked)"

fun send_document :: "bool \<Rightarrow> offer \<Rightarrow> host_state planned \<Rightarrow> subscriber \<Rightarrow> wire_message list \<times> subscriber" where
  "send_document alive off Planned_Hold s = ([], s\<lparr>sb_pump := Draining\<rparr>)"
| "send_document alive off (Planned_Snapshot reset_first) s =
    (if reset_first then send_frame alive (event_frame Event_Reset (of_epoch off) 0 0 []) (Sending off (Planned_Snapshot False)) s
     else send_frame alive (event_frame Event_Snapshot (of_epoch off) 0 (of_state_num off) (encode_snapshot (of_state off))) (Committing off) s)"
| "send_document alive off (Planned_Diff base_state_num base) s =
    (let d = diff_from (of_state off) base
     in if diff_is_empty d then ([], s\<lparr>sb_pump := Draining\<rparr>)
        else send_frame alive (event_frame Event_Diff (of_epoch off) base_state_num (of_state_num off) (encode_diff d)) (Committing off) s)"

text \<open>One step of the pump thread: what it puts on the link, and the subscriber after it.\<close>

fun pump_from :: "bool \<Rightarrow> pump_at \<Rightarrow> subscriber \<Rightarrow> wire_message list \<times> subscriber" where
  "pump_from alive Unstarted s = ([], s)"
| "pump_from alive Parked s =
    ([], if sb_closed s then s\<lparr>sb_pumping := False, sb_pump := Stopped\<rparr> else if has_work s then s\<lparr>sb_pump := Draining\<rparr> else s)"
| "pump_from alive Draining s =
    (case take_inbox s of
       (None, s) \<Rightarrow> ([], s\<lparr>sb_pumping := False, sb_pump := Stopped\<rparr>)
     | (Some ib, s) \<Rightarrow> ([], s\<lparr>sb_pump := Resubscribing ib\<rparr>))"
| "pump_from alive (Resubscribing ib) s =
    ([], (case ib_subscribe ib of None \<Rightarrow> s | Some request \<Rightarrow> apply_resubscribe request s)\<lparr>sb_pump := Acking ib\<rparr>)"
| "pump_from alive (Acking ib) s =
    ([], s\<lparr>sb_retention := retention_apply_pending_ack (sb_retention s), sb_pump := Loosening ib\<rparr>)"
| "pump_from alive (Loosening ib) s =
    ([], s\<lparr>sb_pump := Answering (retention_loose_epoch (sb_retention s)) (ib_results ib) (ib_roster ib) (ib_offer ib) False\<rparr>)"
| "pump_from alive (Answering loose (r # rs) roster offer did_send) s =
    send_frame alive (event_frame Event_Intent_Result loose 0 0 (result_encode r)) (Answering loose rs roster offer True) s"
| "pump_from alive (Answering loose [] (Some roster) offer did_send) s =
    send_frame alive (event_frame Event_Presence loose 0 0 (roster_encode roster)) (Planning offer True) s"
| "pump_from alive (Answering loose [] None offer did_send) s = ([], s\<lparr>sb_pump := Planning offer did_send\<rparr>)"
| "pump_from alive (Planning None did_send) s = ([], s\<lparr>sb_pump := again did_send\<rparr>)"
| "pump_from alive (Planning (Some off) did_send) s =
    (case plan_offer off s of
       (Planned_Hold, s) \<Rightarrow> ([], s\<lparr>sb_pump := again did_send\<rparr>)
     | (planned, s) \<Rightarrow> ([], s\<lparr>sb_pump := Claiming off planned\<rparr>))"
| "pump_from alive (Claiming off planned) s = ([], (claim_pending_state s)\<lparr>sb_pump := Sending off planned\<rparr>)"
| "pump_from alive (Sending off planned) s = send_document alive off planned s"
| "pump_from alive (Committing off) s =
    ([], s\<lparr>sb_retention := retention_commit (of_state_num off) (of_state off) (sb_retention s), sb_pump := Draining\<rparr>)"
| "pump_from alive Stopped s = ([], s)"

definition pump_step :: "bool \<Rightarrow> subscriber \<Rightarrow> wire_message list \<times> subscriber" where
  "pump_step alive s = pump_from alive (sb_pump s) s"

section \<open>What a subscriber sends is what was published\<close>

text \<open>\<open>pub e n\<close> is the document published as version \<open>n\<close> under epoch \<open>e\<close>.\<close>

type_synonym history = "raw_uuid \<Rightarrow> int \<Rightarrow> host_state option"

definition history_le :: "history \<Rightarrow> history \<Rightarrow> bool" where
  "history_le pub pub' \<longleftrightarrow> (\<forall>e n st. pub e n = Some st \<longrightarrow> pub' e n = Some st)"

definition offer_ok :: "history \<Rightarrow> offer \<Rightarrow> bool" where
  "offer_ok pub off \<longleftrightarrow> pub (of_epoch off) (of_state_num off) = Some (of_state off)"

definition planned_ok :: "history \<Rightarrow> raw_uuid \<Rightarrow> host_state planned \<Rightarrow> bool" where
  "planned_ok pub e p \<longleftrightarrow> (case p of Planned_Diff b base \<Rightarrow> pub e b = Some base | _ \<Rightarrow> True)"

definition sent_as :: "history \<Rightarrow> raw_uuid option \<Rightarrow> int \<Rightarrow> host_state \<Rightarrow> bool" where
  "sent_as pub ep n st \<longleftrightarrow> (\<exists>e. ep = Some e \<and> pub e n = Some st)"

abbreviation sent_epoch :: "'a retention \<Rightarrow> raw_uuid option" where
  "sent_epoch r \<equiv> sl_sent_epoch (rn_ladder r)"

definition holds_sent :: "history \<Rightarrow> nat \<Rightarrow> host_state retention \<Rightarrow> bool" where
  "holds_sent pub N r \<longleftrightarrow> (\<exists>n\<le>N. retains (sent_as pub (sent_epoch r)) (sent_as pub (sent_epoch r)) n r)"

fun pump_ok :: "history \<Rightarrow> bool \<Rightarrow> raw_uuid option \<Rightarrow> pump_at \<Rightarrow> bool" where
  "pump_ok pub closed ep (Resubscribing ib) = pred_option (offer_ok pub) (ib_offer ib)"
| "pump_ok pub closed ep (Acking ib) = pred_option (offer_ok pub) (ib_offer ib)"
| "pump_ok pub closed ep (Loosening ib) = pred_option (offer_ok pub) (ib_offer ib)"
| "pump_ok pub closed ep (Answering loose rs roster off did) = pred_option (offer_ok pub) off"
| "pump_ok pub closed ep (Planning off did) = pred_option (offer_ok pub) off"
| "pump_ok pub closed ep (Claiming off p) = (offer_ok pub off \<and> planned_ok pub (of_epoch off) p \<and> (closed \<or> ep = Some (of_epoch off)))"
| "pump_ok pub closed ep (Sending off p) = (offer_ok pub off \<and> planned_ok pub (of_epoch off) p \<and> (closed \<or> ep = Some (of_epoch off)))"
| "pump_ok pub closed ep (Committing off) = (offer_ok pub off \<and> (closed \<or> ep = Some (of_epoch off)))"
| "pump_ok pub closed ep _ = True"

definition subscriber_ok :: "history \<Rightarrow> nat \<Rightarrow> subscriber \<Rightarrow> bool" where
  "subscriber_ok pub N s \<longleftrightarrow>
     pred_option (offer_ok pub) (sb_pending_state s) \<and> pump_ok pub (sb_closed s) (sent_epoch (sb_retention s)) (sb_pump s) \<and>
     (if sb_closed s then rn_held (sb_retention s) = [] \<or> sb_pump s \<in> {Draining, Stopped} else holds_sent pub N (sb_retention s))"

definition frame_true :: "history \<Rightarrow> wire_message \<Rightarrow> bool" where
  "frame_true pub f \<longleftrightarrow>
     (\<exists>k e b n p. f = WorkspaceEvent k e b n p \<and>
        (k = 0 \<longrightarrow> (\<exists>st. pub e n = Some st \<and> p = encode_snapshot st)) \<and>
        (k = 1 \<longrightarrow> (\<exists>st base. pub e n = Some st \<and> pub e b = Some base \<and> p = encode_diff (diff_from st base))))"

lemma history_le_refl [simp]: "history_le pub pub"
  by (simp add: history_le_def)

lemma offer_ok_mono: "history_le pub pub' \<Longrightarrow> offer_ok pub off \<Longrightarrow> offer_ok pub' off"
  by (simp add: history_le_def offer_ok_def)

lemma planned_ok_mono: "history_le pub pub' \<Longrightarrow> planned_ok pub e p \<Longrightarrow> planned_ok pub' e p"
  by (cases p) (simp_all add: planned_ok_def history_le_def)

lemma pump_ok_mono:
  assumes "history_le pub pub'" "pump_ok pub c ep a"
  shows "pump_ok pub' c ep a"
proof -
  have "pred_option (offer_ok pub) x \<Longrightarrow> pred_option (offer_ok pub') x" for x
    using offer_ok_mono [OF assms(1)] by (cases x) simp_all
  then show ?thesis using assms(2) offer_ok_mono [OF assms(1)] planned_ok_mono [OF assms(1)] by (cases a) simp_all
qed

lemma holds_sent_mono:
  assumes "history_le pub pub'" "N \<le> N'" "holds_sent pub N r"
  shows "holds_sent pub' N' r"
proof -
  have q: "sent_as pub ep n st \<Longrightarrow> sent_as pub' ep n st" for ep n st
    using assms(1) by (auto simp: sent_as_def history_le_def)
  obtain n where "n \<le> N" "retains (sent_as pub (sent_epoch r)) (sent_as pub (sent_epoch r)) n r" using assms(3) by (auto simp: holds_sent_def)
  then have "n \<le> N'" "retains (sent_as pub' (sent_epoch r)) (sent_as pub' (sent_epoch r)) n r"
    using assms(2) q by (auto intro: retains_mono)
  then show ?thesis unfolding holds_sent_def by blast
qed

lemma subscriber_ok_mono:
  assumes "history_le pub pub'" "N \<le> N'" "subscriber_ok pub N s"
  shows "subscriber_ok pub' N' s"
proof -
  have "pred_option (offer_ok pub) x \<Longrightarrow> pred_option (offer_ok pub') x" for x
    using offer_ok_mono [OF assms(1)] by (cases x) simp_all
  then show ?thesis
    using assms(3) pump_ok_mono [OF assms(1)] holds_sent_mono [OF assms(1,2)] by (simp add: subscriber_ok_def split: if_splits)
qed

lemma frame_true_mono: "history_le pub pub' \<Longrightarrow> frame_true pub f \<Longrightarrow> frame_true pub' f"
  unfolding frame_true_def history_le_def by fastforce

lemma ladder_epoch [simp]:
  "sl_sent_epoch (snd (adopt_base slot n rel l)) = sl_sent_epoch l"
  "sl_sent_epoch (snd (ladder_apply_pending_ack l)) = sl_sent_epoch l"
  "sl_sent_epoch (snd (ladder_resubscribe e n c f l)) = sl_sent_epoch l"
  "sl_sent_epoch (snd (ladder_commit n l)) = sl_sent_epoch l"
proof -
  show a: "sl_sent_epoch (snd (adopt_base slot n rel l)) = sl_sent_epoch l" for slot n rel l by (simp add: adopt_base_def)
  show "sl_sent_epoch (snd (ladder_apply_pending_ack l)) = sl_sent_epoch l"
    by (simp add: ladder_apply_pending_ack_def a Let_def split_beta split: option.split)
  show "sl_sent_epoch (snd (ladder_resubscribe e n c f l)) = sl_sent_epoch l"
    by (simp add: ladder_resubscribe_def a Let_def split_beta split: option.split)
  show "sl_sent_epoch (snd (ladder_commit n l)) = sl_sent_epoch l"
    by (simp add: ladder_commit_def mint_slot_def Let_def split_beta)
qed

lemma sent_epoch_ops [simp]:
  "sent_epoch (retention_note_ack n r) = sent_epoch r"
  "sent_epoch (retention_apply_pending_ack r) = sent_epoch r"
  "sent_epoch (retention_resubscribe e n c f r) = sent_epoch r"
  "sent_epoch (retention_commit n p r) = sent_epoch r"
  "sent_epoch (retention_clear r) = sent_epoch r"
  "sent_epoch (snd (retention_note_presence u r)) = sent_epoch r"
  by (simp_all add: retention_note_ack_def ladder_note_ack_def retention_apply_pending_ack_def
      retention_resubscribe_def retention_commit_def retention_clear_def drop_released_def retention_note_presence_def
      ladder_note_presence_def Let_def split_beta)

lemma fold_remove_nil [simp]: "fold bt_remove rel [] = []"
  by (induction rel) (simp_all add: bt_remove_def)

lemma empty_ops [simp]:
  "rn_held r = [] \<Longrightarrow> rn_held (retention_note_ack n r) = []"
  "rn_held r = [] \<Longrightarrow> rn_held (retention_apply_pending_ack r) = []"
  "rn_held r = [] \<Longrightarrow> rn_held (retention_resubscribe e n c f r) = []"
  "rn_held (retention_clear r) = []"
  "rn_held r = [] \<Longrightarrow> rn_held (snd (retention_note_presence u r)) = []"
  by (simp_all add: retention_note_ack_def retention_apply_pending_ack_def retention_resubscribe_def retention_clear_def drop_released_def
      retention_note_presence_def split: prod.split)

lemma empty_plan:
  assumes "rn_held r = []" "retention_plan ep r = (p, r')"
  shows "rn_held r' = []" "planned_ok pub e p"
  using assms by (auto simp: retention_plan_def drop_released_def planned_ok_def Let_def split: prod.splits plan.splits if_splits)

lemma holds_ops:
  "holds_sent pub N r \<Longrightarrow> holds_sent pub N (retention_note_ack n r)"
  "holds_sent pub N r \<Longrightarrow> holds_sent pub N (retention_apply_pending_ack r)"
  "holds_sent pub N r \<Longrightarrow> holds_sent pub N (retention_resubscribe e n c f r)"
  "holds_sent pub N r \<Longrightarrow> holds_sent pub N (snd (retention_note_presence u r))"
  unfolding holds_sent_def
  by (auto intro: retains_note_ack retains_apply_pending_ack retains_resubscribe retains_note_presence)

lemma holds_new: "holds_sent pub N (retention_new c f)"
  unfolding holds_sent_def using retains_new by blast

lemma holds_commit:
  assumes "holds_sent pub N r" "sent_epoch r = Some (of_epoch off)" "offer_ok pub off" "Suc N < 2 ^ 32 - 1"
  shows "holds_sent pub (Suc N) (retention_commit (of_state_num off) (of_state off) r)"
proof -
  obtain n where n: "n \<le> N" "retains (sent_as pub (sent_epoch r)) (sent_as pub (sent_epoch r)) n r"
    using assms(1) by (auto simp: holds_sent_def)
  have "sent_as pub (sent_epoch r) (of_state_num off) (of_state off)" using assms by (simp add: sent_as_def offer_ok_def)
  from retains_commit [OF n(2) this] n(1) assms(4) show ?thesis unfolding holds_sent_def by (intro exI [of _ "Suc n"]) simp
qed

text \<open>Planning under an offer: nothing, a snapshot, or a diff against the acked document of that epoch.\<close>

lemma holds_plan:
  assumes h: "holds_sent pub N r" and p: "retention_plan e r = (p, r')"
  shows "holds_sent pub N r'" "planned_ok pub e p" "p \<noteq> Planned_Hold \<Longrightarrow> sent_epoch r' = Some e"
proof -
  let ?q = "sent_as pub (sent_epoch r)"
  obtain n where n: "n \<le> N" "retains ?q ?q n r" using h by (auto simp: holds_sent_def)
  have "holds_sent pub N r' \<and> planned_ok pub e p \<and> (p \<noteq> Planned_Hold \<longrightarrow> sent_epoch r' = Some e)"
  proof (cases "sl_outstanding (rn_ladder r) = None")
    case False
    then show ?thesis using p h by (simp add: retention_plan_hold planned_ok_def)
  next
    case idle: True
    show ?thesis
    proof (cases "sent_epoch r = None \<or> sent_epoch r = Some e")
      case True
      let ?r = "r\<lparr>rn_ladder := (rn_ladder r)\<lparr>sl_sent_epoch := Some e\<rparr>\<rparr>"
      note same = retention_plan_same_epoch [OF n(2) idle True]
      have r': "r' = ?r" "planned_ok pub e p"
        using same(2,3) p True by (cases "sl_needs_snapshot (rn_ladder r) \<or> sl_acked_state_num (rn_ladder r) = 0 \<or> sl_base_slot (rn_ladder r) = None";
            force simp: planned_ok_def sent_as_def)+
      have "retains (sent_as pub (Some e)) (sent_as pub (Some e)) n ?r"
        by (rule retains_mono [OF same(1)]) (use True in \<open>auto simp: sent_as_def\<close>)
      then show ?thesis using r' n(1) by (auto simp: holds_sent_def)
    next
      case False
      then obtain sent where sent: "sent_epoch r = Some sent" "sent \<noteq> e" by auto
      obtain r2 where "retention_plan e r = (Planned_Snapshot True, r2)" "\<And>Q B. retains Q B n r2" "sent_epoch r2 = Some e"
        using retention_plan_reset [OF n(2) idle sent] by metis
      then show ?thesis using p n(1) by (auto simp: holds_sent_def planned_ok_def)
    qed
  qed
  then show "holds_sent pub N r'" "planned_ok pub e p" "p \<noteq> Planned_Hold \<Longrightarrow> sent_epoch r' = Some e" by auto
qed

section \<open>Every operation keeps it\<close>

lemma subscriber_new_ok: "subscriber_ok pub N (subscriber_new request)"
  by (simp add: subscriber_ok_def subscriber_new_def holds_new)

lemma start_pump_ok: "subscriber_ok pub N s \<Longrightarrow> subscriber_ok pub N (start_pump s)"
  by (cases "sb_closed s") (auto simp: subscriber_ok_def start_pump_def)

lemma close_subscriber_ok:
  assumes "subscriber_ok pub N s"
  shows "subscriber_ok pub N (close_subscriber s)"
proof -
  have "pump_ok pub True ep a" if "pump_ok pub c ep a" for c ep a using that by (cases a) simp_all
  then show ?thesis using assms by (auto simp: subscriber_ok_def close_subscriber_def)
qed

lemma close_and_stop_ok:
  "subscriber_ok pub N s \<Longrightarrow> subscriber_ok pub N ((close_subscriber s)\<lparr>sb_pumping := b, sb_pump := Stopped\<rparr>)"
  by (cases "sb_closed s") (auto simp: subscriber_ok_def close_subscriber_def)

lemma inputs_ok:
  assumes "subscriber_ok pub N s"
  shows "pub epoch n = Some st \<Longrightarrow> subscriber_ok pub N (deliver_state epoch n st s)"
    and "subscriber_ok pub N (deliver_roster roster s)"
    and "subscriber_ok pub N (deliver_result r s)"
    and "subscriber_ok pub N (note_ack m s)"
    and "subscriber_ok pub N (note_resubscribe request s)"
    and "subscriber_ok pub N (snd (note_presence u s))"
  using assms holds_ops
  by (auto simp: subscriber_ok_def deliver_state_def deliver_roster_def deliver_result_def note_ack_def note_resubscribe_def
      note_presence_def offer_ok_def split_beta)

definition sound_step :: "history \<Rightarrow> nat \<Rightarrow> wire_message list \<times> subscriber \<Rightarrow> bool" where
  "sound_step pub N x \<longleftrightarrow> subscriber_ok pub N (snd x) \<and> list_all (frame_true pub) (fst x)"

lemma send_frame_ok:
  assumes "subscriber_ok pub N s" "frame_true pub frame" "pump_ok pub (sb_closed s) (sent_epoch (sb_retention s)) nxt"
    "sb_closed s \<longrightarrow> rn_held (sb_retention s) = []"
  shows "sound_step pub N (send_frame alive frame nxt s)"
  using assms close_and_stop_ok [OF assms(1)] by (simp add: send_frame_def sound_step_def) (auto simp: subscriber_ok_def)

text \<open>One step of the pump keeps the subscriber sound, and puts nothing on the link but what was published.\<close>

lemma pump_step_ok:
  assumes s: "subscriber_ok pub N s" and room: "Suc N < 2 ^ 32 - 1"
  shows "sound_step pub (Suc N) (pump_step alive s)"
proof -
  have up: "subscriber_ok pub N s' \<Longrightarrow> subscriber_ok pub (Suc N) s'" for s' by (rule subscriber_ok_mono) simp_all
  have ups: "sound_step pub N x \<Longrightarrow> sound_step pub (Suc N) x" for x using up by (simp add: sound_step_def)
  have quiet: "subscriber_ok pub N (snd x) \<and> fst x = [] \<Longrightarrow> sound_step pub (Suc N) x" for x using up by (simp add: sound_step_def)
  have p: "pump_ok pub (sb_closed s) (sent_epoch (sb_retention s)) (sb_pump s)"
    and pend: "pred_option (offer_ok pub) (sb_pending_state s)"
    and held: "sb_closed s \<Longrightarrow> rn_held (sb_retention s) = [] \<or> sb_pump s \<in> {Draining, Stopped}"
      "\<not> sb_closed s \<Longrightarrow> holds_sent pub N (sb_retention s)"
    using s unfolding subscriber_ok_def by presburger+
  show ?thesis
  proof (cases "sb_pump s")
    case Unstarted
    then show ?thesis using quiet [of "pump_step alive s"] s by (simp add: pump_step_def)
  next
    case Parked
    then show ?thesis using s quiet [of "pump_step alive s"] by (auto simp: pump_step_def subscriber_ok_def)
  next
    case Draining
    have "subscriber_ok pub N (snd (pump_step alive s)) \<and> fst (pump_step alive s) = []"
      using s Draining by (cases "sb_closed s") (auto simp: pump_step_def subscriber_ok_def take_inbox_def)
    then show ?thesis by (rule quiet)
  next
    case (Resubscribing ib)
    have "subscriber_ok pub N (snd (pump_step alive s)) \<and> fst (pump_step alive s) = []"
      using p pend held Resubscribing holds_ops(3)
      by (auto simp: pump_step_def subscriber_ok_def apply_resubscribe_def split: option.split)
    then show ?thesis by (rule quiet)
  next
    case (Acking ib)
    have "subscriber_ok pub N (snd (pump_step alive s)) \<and> fst (pump_step alive s) = []"
      using p pend held Acking holds_ops(2) by (auto simp: pump_step_def subscriber_ok_def)
    then show ?thesis by (rule quiet)
  next
    case (Loosening ib)
    have "subscriber_ok pub N (snd (pump_step alive s)) \<and> fst (pump_step alive s) = []"
      using p pend held Loosening by (auto simp: pump_step_def subscriber_ok_def)
    then show ?thesis by (rule quiet)
  next
    case (Answering loose rs roster off did)
    have loose: "frame_true pub (event_frame Event_Intent_Result loose 0 0 b)" "frame_true pub (event_frame Event_Presence loose 0 0 b)" for b
      by (simp_all add: frame_true_def event_frame_def)
    have closed: "sb_closed s \<longrightarrow> rn_held (sb_retention s) = []" using held Answering by simp
    consider r rest where "rs = r # rest" | ro where "rs = []" "roster = Some ro" | "rs = []" "roster = None"
      by (cases rs; cases roster) auto
    then have "sound_step pub N (pump_step alive s)"
    proof cases
      case 1
      show ?thesis using send_frame_ok [where nxt = "Answering loose rest roster off True", OF s loose(1) _ closed] p by (simp add: pump_step_def Answering 1)
    next
      case 2
      show ?thesis using send_frame_ok [where nxt = "Planning off True", OF s loose(2) _ closed] p by (simp add: pump_step_def Answering 2)
    next
      case 3
      show ?thesis using p pend held Answering by (auto simp: pump_step_def 3 subscriber_ok_def sound_step_def)
    qed
    then show ?thesis by (rule ups)
  next
    case (Planning off did)
    have a: "pump_ok pub c ep (again did)" for c ep by (simp add: again_def)
    have "subscriber_ok pub N (snd (pump_step alive s)) \<and> fst (pump_step alive s) = []"
    proof (cases off)
      case None
      then show ?thesis using pend held Planning a by (auto simp: pump_step_def subscriber_ok_def)
    next
      case (Some x)
      obtain pl r where pl: "retention_plan (of_epoch x) (sb_retention s) = (pl, r)" by force
      have x: "offer_ok pub x" using p Planning Some by simp
      have "rn_held r = [] \<and> planned_ok pub (of_epoch x) pl" if "sb_closed s"
        using that held Planning empty_plan [OF _ pl] by simp
      moreover have "holds_sent pub N r \<and> planned_ok pub (of_epoch x) pl \<and> (pl \<noteq> Planned_Hold \<longrightarrow> sent_epoch r = Some (of_epoch x))" if "\<not> sb_closed s"
        using that held holds_plan [OF _ pl] by simp
      ultimately show ?thesis using pend a x
        by (cases pl; cases "sb_closed s") (simp_all add: pump_step_def Planning Some plan_offer_def pl subscriber_ok_def)
    qed
    then show ?thesis by (rule quiet)
  next
    case (Claiming off pl)
    have "subscriber_ok pub N (snd (pump_step alive s)) \<and> fst (pump_step alive s) = []"
      using p held Claiming by (auto simp: pump_step_def subscriber_ok_def claim_pending_state_def)
    then show ?thesis by (rule quiet)
  next
    case (Sending off pl)
    have closed: "sb_closed s \<longrightarrow> rn_held (sb_retention s) = []" using held Sending by simp
    have off: "pub (of_epoch off) (of_state_num off) = Some (of_state off)" using p Sending by (simp add: offer_ok_def)
    have "sound_step pub N (send_document alive off pl s)"
    proof (cases pl)
      case Planned_Hold
      then show ?thesis using pend held Sending by (auto simp: subscriber_ok_def sound_step_def)
    next
      case (Planned_Snapshot first)
      have "frame_true pub (event_frame Event_Reset (of_epoch off) 0 0 [])"
        "frame_true pub (event_frame Event_Snapshot (of_epoch off) 0 (of_state_num off) (encode_snapshot (of_state off)))"
        using off by (simp_all add: frame_true_def event_frame_def)
      then show ?thesis using send_frame_ok [OF s _ _ closed] p Planned_Snapshot Sending by (simp add: planned_ok_def)
    next
      case (Planned_Diff b base)
      have "frame_true pub (event_frame Event_Diff (of_epoch off) b (of_state_num off) (encode_diff (diff_from (of_state off) base)))"
        using off p Planned_Diff Sending by (auto simp: frame_true_def event_frame_def planned_ok_def)
      moreover have "subscriber_ok pub N (s\<lparr>sb_pump := Draining\<rparr>)" using pend held Sending by (auto simp: subscriber_ok_def)
      ultimately show ?thesis using send_frame_ok [OF s _ _ closed] p Planned_Diff Sending by (simp add: Let_def sound_step_def)
    qed
    then show ?thesis using ups by (simp add: pump_step_def Sending)
  next
    case (Committing off)
    have "subscriber_ok pub (Suc N) (snd (pump_step alive s))"
      using p pend held Committing holds_commit [OF _ _ _ room] by (auto simp: pump_step_def subscriber_ok_def)
    then show ?thesis by (simp add: pump_step_def Committing sound_step_def)
  next
    case Stopped
    then show ?thesis using quiet [of "pump_step alive s"] s by (simp add: pump_step_def)
  qed
qed

end
