(* ===== verification/Workspace_Cells.thy ===== *)
theory Workspace_Cells
  imports Workspace_Codec
begin

text \<open>
  The scalar cells of the document: texts, flags, pairs and fixed-width integers
  (\<open>slopdesk-wire/src/document/codec.rs\<close>, the scalar field values). A cell of the wrong width reads as nothing.
\<close>

definition encode_string :: "rstring \<Rightarrow> nat \<Rightarrow> bytes" where
  "encode_string t max_bytes = as_bytes (clamp_utf8 t max_bytes)"

definition decode_string :: "bytes \<Rightarrow> rstring option" where
  "decode_string data = from_utf8 data"

definition encode_cell_u8 :: "u8 \<Rightarrow> bytes" where
  "encode_cell_u8 v = [v]"

definition decode_cell_u8 :: "bytes \<Rightarrow> u8 option" where
  "decode_cell_u8 data = (case data of [b] \<Rightarrow> Some b | _ \<Rightarrow> None)"

definition encode_cell_bool :: "bool \<Rightarrow> bytes" where
  "encode_cell_bool v = encode_cell_u8 (if v then 1 else 0)"

definition decode_cell_bool :: "bytes \<Rightarrow> bool option" where
  "decode_cell_bool data = map_option (\<lambda>b. b \<noteq> 0) (decode_cell_u8 data)"

definition encode_u8_pair :: "u8 \<Rightarrow> u8 \<Rightarrow> bytes" where
  "encode_u8_pair a b = [a, b]"

definition decode_u8_pair :: "bytes \<Rightarrow> (u8 \<times> u8) option" where
  "decode_u8_pair data = (case data of [a, b] \<Rightarrow> Some (a, b) | _ \<Rightarrow> None)"

definition encode_u16_pair :: "u16 \<Rightarrow> u16 \<Rightarrow> bytes" where
  "encode_u16_pair a b = into_vec (put_u16 b (put_u16 a (writer_with_capacity 4)))"

text \<open>A whole cell as one big-endian field: its bytes when the width is right.\<close>

definition exact_width :: "nat \<Rightarrow> 'a reader \<Rightarrow> bytes \<Rightarrow> 'a option" where
  "exact_width n m data = (if length data = n then map_option fst (ok_value (m (reader_new data))) else None)"

definition decode_u16_pair :: "bytes \<Rightarrow> (u16 \<times> u16) option" where
  "decode_u16_pair = exact_width 4 (rbind read_u16 (\<lambda>a. rbind read_u16 (\<lambda>b. rreturn (a, b))))"

definition encode_cell_u32 :: "u32 \<Rightarrow> bytes" where
  "encode_cell_u32 v = be_bytes 4 v"

definition decode_cell_u32 :: "bytes \<Rightarrow> u32 option" where
  "decode_cell_u32 = exact_width 4 read_u32"

definition encode_cell_i32 :: "int \<Rightarrow> bytes" where
  "encode_cell_i32 v = be_bytes 4 (word_of_int v :: u32)"

definition decode_cell_i32 :: "bytes \<Rightarrow> int option" where
  "decode_cell_i32 = exact_width 4 read_i32"

definition encode_cell_i64 :: "int \<Rightarrow> bytes" where
  "encode_cell_i64 v = be_bytes 8 (word_of_int v :: u64)"

definition decode_cell_i64 :: "bytes \<Rightarrow> int option" where
  "decode_cell_i64 = exact_width 8 read_i64"

section \<open>Cells come back\<close>

definition text_ok :: "rstring \<Rightarrow> bool" where
  "text_ok t \<longleftrightarrow> wf_str t \<and> str_len t \<le> max_string_bytes"

lemma string_cell [simp]: "text_ok t \<Longrightarrow> decode_string (encode_string t max_string_bytes) = Some t"
  by (simp add: text_ok_def encode_string_def decode_string_def)

text \<open>What a text cell reads as goes back to a cell that reads the same, however long the bytes were.\<close>

lemma string_cell_settles:
  assumes "decode_string b = Some t"
  shows "encode_string t max_string_bytes = as_bytes (clamp_utf8 t max_string_bytes)"
    "text_ok (clamp_utf8 t max_string_bytes)"
    "encode_string (clamp_utf8 t max_string_bytes) max_string_bytes = encode_string t max_string_bytes"
  using from_utf8_Some [of b t] assms clamp_utf8_le [of t max_string_bytes]
  by (simp_all add: encode_string_def decode_string_def text_ok_def wf_str_clamp)

lemma fixed_cells [simp]:
  "decode_cell_u8 (encode_cell_u8 v8) = Some v8"
  "decode_cell_bool (encode_cell_bool vb) = Some vb"
  "decode_u8_pair (encode_u8_pair a b) = Some (a, b)"
  "decode_u16_pair (encode_u16_pair c d) = Some (c, d)"
  "decode_cell_u32 (encode_cell_u32 v32) = Some v32"
  "i32_ok i \<Longrightarrow> decode_cell_i32 (encode_cell_i32 i) = Some i"
  "i64_ok j \<Longrightarrow> decode_cell_i64 (encode_cell_i64 j) = Some j"
  using fi32.get_put [of i "[]" "[]"] fi64.get_put [of j "[]" "[]"]
  by (simp_all add: decode_cell_u8_def encode_cell_u8_def decode_cell_bool_def encode_cell_bool_def decode_u8_pair_def encode_u8_pair_def
      decode_u16_pair_def encode_u16_pair_def exact_width_def put_u16_def reader_new_cursor ok_value_def decode_cell_u32_def encode_cell_u32_def
      decode_cell_i32_def encode_cell_i32_def decode_cell_i64_def encode_cell_i64_def i32_bytes_def i64_bytes_def)

end
