(* ===== verification/Pane_Liveness.thy ===== *)
theory Pane_Liveness
  imports Workspace_Cells Complex_Main
begin

text \<open>
  What the host knows of one running pane, as a value (\<open>slopdesk-wire/src/document/liveness.rs\<close>, with the field
  numbers of \<open>fields.rs\<close>): the record, its cells, the way back, the merge into a document, and the
  reconciler that decides for every pane whether it is alive, dead or gone.
\<close>

section \<open>Fields\<close>

datatype pane_liveness_state = Live_Attached | Live_Detached | Live_Dead

definition liveness_from_byte :: "u8 \<Rightarrow> pane_liveness_state" where
  "liveness_from_byte b = (if b = 0 then Live_Attached else if b = 1 then Live_Detached else Live_Dead)"

fun liveness_as_byte :: "pane_liveness_state \<Rightarrow> u8" where
  "liveness_as_byte Live_Attached = 0"
| "liveness_as_byte Live_Detached = 1"
| "liveness_as_byte Live_Dead = 2"

fun is_live :: "pane_liveness_state \<Rightarrow> bool" where
  "is_live Live_Attached = True"
| "is_live Live_Detached = True"
| "is_live Live_Dead = False"

text \<open>An instant is a rational number where the code has a float.\<close>

definition title_is_fresh :: "rat option \<Rightarrow> rat option \<Rightarrow> pane_liveness_state \<Rightarrow> bool" where
  "title_is_fresh title_stamped_at command_started_at liveness =
    (if \<not> is_live liveness then False
     else case title_stamped_at of
       None \<Rightarrow> False
     | Some stamped \<Rightarrow> (case command_started_at of None \<Rightarrow> True | Some started \<Rightarrow> started \<le> stamped))"

definition field_kind :: u8 where "field_kind = 0"
definition field_title :: u8 where "field_title = 1"
definition field_user_renamed :: u8 where "field_user_renamed = 2"
definition field_live_title :: u8 where "field_live_title = 3"
definition field_title_fresh :: u8 where "field_title_fresh = 4"
definition field_cwd :: u8 where "field_cwd = 5"
definition field_project_key :: u8 where "field_project_key = 6"
definition field_foreground_process :: u8 where "field_foreground_process = 7"
definition field_running_command :: u8 where "field_running_command = 8"
definition field_agent_state :: u8 where "field_agent_state = 9"
definition field_agent_label :: u8 where "field_agent_label = 10"
definition field_agent_intent :: u8 where "field_agent_intent = 11"
definition field_progress :: u8 where "field_progress = 12"
definition field_command_running :: u8 where "field_command_running = 13"
definition field_last_exit_code :: u8 where "field_last_exit_code = 14"
definition field_last_duration_ms :: u8 where "field_last_duration_ms = 15"
definition field_grid :: u8 where "field_grid = 16"
definition field_liveness :: u8 where "field_liveness = 17"
definition field_completion_epoch :: u8 where "field_completion_epoch = 18"
definition field_last_activity_ms :: u8 where "field_last_activity_ms = 19"
definition field_video_target :: u8 where "field_video_target = 20"
definition field_spawn_cwd :: u8 where "field_spawn_cwd = 21"

lemmas field_defs = field_kind_def field_title_def field_user_renamed_def field_live_title_def field_title_fresh_def field_cwd_def
  field_project_key_def field_foreground_process_def field_running_command_def field_agent_state_def field_agent_label_def
  field_agent_intent_def field_progress_def field_command_running_def field_last_exit_code_def field_last_duration_ms_def field_grid_def
  field_liveness_def field_completion_epoch_def field_last_activity_ms_def field_video_target_def field_spawn_cwd_def

definition liveness_fields :: "u8 list" where
  "liveness_fields =
    [field_live_title, field_title_fresh, field_cwd, field_project_key, field_foreground_process, field_running_command, field_agent_state,
     field_agent_label, field_agent_intent, field_progress, field_command_running, field_last_exit_code, field_last_duration_ms, field_grid,
     field_liveness, field_completion_epoch, field_last_activity_ms]"

definition topology_fields :: "u8 list" where
  "topology_fields = [field_kind, field_title, field_user_renamed, field_video_target, field_spawn_cwd]"

section \<open>The record\<close>

record liveness_record =
  pl_pane_id :: raw_uuid
  pl_liveness :: pane_liveness_state
  pl_live_title :: "rstring option"
  pl_title_fresh :: bool
  pl_cwd :: "rstring option"
  pl_project_key :: "rstring option"
  pl_foreground_process :: "rstring option"
  pl_running_command :: "rstring option"
  pl_agent_state :: "(u8 \<times> u8) option"
  pl_agent_label :: "rstring option"
  pl_agent_intent :: "rstring option"
  pl_progress :: "(u8 \<times> u8) option"
  pl_command_running :: bool
  pl_last_exit_code :: "int option"
  pl_last_duration_ms :: "u32 option"
  pl_grid :: "(u16 \<times> u16) option"
  pl_completion_epoch :: u32
  pl_last_activity_ms :: int

definition liveness_new :: "raw_uuid \<Rightarrow> pane_liveness_state \<Rightarrow> liveness_record" where
  "liveness_new pane_id liveness =
    \<lparr>pl_pane_id = pane_id, pl_liveness = liveness, pl_live_title = None, pl_title_fresh = False, pl_cwd = None, pl_project_key = None,
     pl_foreground_process = None, pl_running_command = None, pl_agent_state = None, pl_agent_label = None, pl_agent_intent = None,
     pl_progress = None, pl_command_running = False, pl_last_exit_code = None, pl_last_duration_ms = None, pl_grid = None,
     pl_completion_epoch = 0, pl_last_activity_ms = 0\<rparr>"

definition pane_key :: "raw_uuid \<Rightarrow> u8 \<Rightarrow> workspace_key" where
  "pane_key pane_id field = key_of Pane pane_id field"

definition text_cell :: "rstring option \<Rightarrow> bytes option" where
  "text_cell v = map_option (\<lambda>t. encode_string t max_string_bytes) v"

text \<open>What each field carries, in canonical order; a default carries nothing, the liveness is always there.\<close>

definition liveness_cells :: "liveness_record \<Rightarrow> (u8 \<times> bytes option) list" where
  "liveness_cells r =
    [(field_live_title, text_cell (pl_live_title r)),
     (field_title_fresh, if pl_title_fresh r then Some (encode_cell_bool True) else None),
     (field_cwd, text_cell (pl_cwd r)),
     (field_project_key, text_cell (pl_project_key r)),
     (field_foreground_process, text_cell (pl_foreground_process r)),
     (field_running_command, text_cell (pl_running_command r)),
     (field_agent_state, map_option (\<lambda>(a, b). encode_u8_pair a b) (pl_agent_state r)),
     (field_agent_label, text_cell (pl_agent_label r)),
     (field_agent_intent, text_cell (pl_agent_intent r)),
     (field_progress, map_option (\<lambda>(a, b). encode_u8_pair a b) (pl_progress r)),
     (field_command_running, if pl_command_running r then Some (encode_cell_bool True) else None),
     (field_last_exit_code, map_option encode_cell_i32 (pl_last_exit_code r)),
     (field_last_duration_ms, map_option encode_cell_u32 (pl_last_duration_ms r)),
     (field_grid, map_option (\<lambda>(a, b). encode_u16_pair a b) (pl_grid r)),
     (field_liveness, Some (encode_cell_u8 (liveness_as_byte (pl_liveness r)))),
     (field_completion_epoch, if pl_completion_epoch r \<noteq> 0 then Some (encode_cell_u32 (pl_completion_epoch r)) else None),
     (field_last_activity_ms, if pl_last_activity_ms r \<noteq> 0 then Some (encode_cell_i64 (pl_last_activity_ms r)) else None)]"

definition liveness_entries :: "liveness_record \<Rightarrow> workspace_entry list" where
  "liveness_entries r =
    concat (map (\<lambda>(f, v). case v of None \<Rightarrow> [] | Some b \<Rightarrow> [\<lparr>we_key = pane_key (pl_pane_id r) f, we_value = b\<rparr>]) (liveness_cells r))"

definition or_default :: "'a \<Rightarrow> 'a option \<Rightarrow> 'a" where
  "or_default d v = (case v of None \<Rightarrow> d | Some x \<Rightarrow> x)"

definition liveness_from_document :: "raw_uuid \<Rightarrow> host_state \<Rightarrow> liveness_record option" where
  "liveness_from_document pane_id s =
    (let value = (\<lambda>f. state_get (pane_key pane_id f) s);
         txt = (\<lambda>f. Option.bind (value f) decode_string)
     in Option.bind (Option.bind (value field_liveness) decode_cell_u8) (\<lambda>liveness.
        Some \<lparr>pl_pane_id = pane_id, pl_liveness = liveness_from_byte liveness, pl_live_title = txt field_live_title,
          pl_title_fresh = or_default False (Option.bind (value field_title_fresh) decode_cell_bool),
          pl_cwd = txt field_cwd, pl_project_key = txt field_project_key, pl_foreground_process = txt field_foreground_process,
          pl_running_command = txt field_running_command, pl_agent_state = Option.bind (value field_agent_state) decode_u8_pair,
          pl_agent_label = txt field_agent_label, pl_agent_intent = txt field_agent_intent,
          pl_progress = Option.bind (value field_progress) decode_u8_pair,
          pl_command_running = or_default False (Option.bind (value field_command_running) decode_cell_bool),
          pl_last_exit_code = Option.bind (value field_last_exit_code) decode_cell_i32,
          pl_last_duration_ms = Option.bind (value field_last_duration_ms) decode_cell_u32,
          pl_grid = Option.bind (value field_grid) decode_u16_pair,
          pl_completion_epoch = or_default 0 (Option.bind (value field_completion_epoch) decode_cell_u32),
          pl_last_activity_ms = or_default 0 (Option.bind (value field_last_activity_ms) decode_cell_i64)\<rparr>))"

section \<open>Merging and reconciling\<close>

fun merge_fields :: "raw_uuid \<Rightarrow> workspace_entry list \<Rightarrow> u8 list \<Rightarrow> bool \<times> host_state \<Rightarrow> bool \<times> host_state" where
  "merge_fields pane_id entries [] x = x"
| "merge_fields pane_id entries (f # fs) (changed, s) =
    (let key = pane_key pane_id f;
         incoming = map_option we_value (find (\<lambda>e. we_key e = key) entries);
         (c, s) = set_or_clear key incoming s
     in merge_fields pane_id entries fs (changed \<or> c, s))"

definition merge_pane_liveness :: "host_state \<Rightarrow> liveness_record \<Rightarrow> bool \<times> host_state" where
  "merge_pane_liveness s r = merge_fields (pl_pane_id r) (liveness_entries r) liveness_fields (False, s)"

definition dead_record :: "host_state \<Rightarrow> raw_uuid \<Rightarrow> liveness_record" where
  "dead_record s pane_id =
    (liveness_new pane_id Live_Dead)
      \<lparr>pl_cwd := Option.bind (state_get (pane_key pane_id field_cwd) s) decode_string,
       pl_project_key := Option.bind (state_get (pane_key pane_id field_project_key) s) decode_string\<rparr>"

definition mark_pane_dead :: "host_state \<Rightarrow> raw_uuid \<Rightarrow> bool \<times> host_state" where
  "mark_pane_dead s pane_id = merge_pane_liveness s (dead_record s pane_id)"

text \<open>An ordered set of ids is its ascending list: what the keys, which ascend, give when repetitions are dropped.\<close>

definition pane_inventory :: "host_state \<Rightarrow> raw_uuid list \<times> raw_uuid list" where
  "pane_inventory s =
    (let panes = filter (\<lambda>k. wk_kind k = kind_as_byte Pane) (state_keys s)
     in (remdups (map wk_object_id panes),
         remdups (map wk_object_id (filter (\<lambda>k. wk_field k \<in> set topology_fields) panes))))"

definition merge_captured :: "liveness_record \<Rightarrow> bool \<times> host_state \<Rightarrow> bool \<times> host_state" where
  "merge_captured r x = (let (c, s) = merge_pane_liveness (snd x) r in (fst x \<or> c, s))"

definition settle_pane :: "raw_uuid list \<Rightarrow> raw_uuid \<Rightarrow> bool \<times> host_state \<Rightarrow> bool \<times> host_state" where
  "settle_pane arranged pane_id x =
    (if pane_id \<in> set arranged then let (c, s) = mark_pane_dead (snd x) pane_id in (fst x \<or> c, s)
     else (True, remove_object (kind_as_byte Pane) pane_id (snd x)))"

definition reconcile :: "host_state \<Rightarrow> liveness_record list \<Rightarrow> bool \<times> host_state" where
  "reconcile s captured =
    (let (changed, s) = fold merge_captured captured (False, s);
         alive = map pl_pane_id captured;
         (known, arranged) = pane_inventory s
     in fold (settle_pane arranged) (filter (\<lambda>i. i \<notin> set alive) known) (changed, s))"

section \<open>Passes over panes\<close>

text \<open>The cells of one pane.\<close>

definition pane_cell :: "raw_uuid \<Rightarrow> workspace_key \<Rightarrow> bool" where
  "pane_cell i k \<longleftrightarrow> wk_kind k = kind_as_byte Pane \<and> wk_object_id k = i"

abbreviation sorted_state :: "host_state \<Rightarrow> bool" where
  "sorted_state s \<equiv> bt_sorted (hs_entries s)"

lemma state_differ: "sorted_state s \<Longrightarrow> sorted_state t \<Longrightarrow> s \<noteq> t \<longleftrightarrow> (\<exists>k. state_get k s \<noteq> state_get k t)"
  using state_eqI by metis

text \<open>A step over one pane touches that pane's cells alone, by looking at them alone, and says whether it changed
  anything. A pass of such steps then does to every pane what its step would have done first, and says whether the
  whole pass changed anything.\<close>

locale pane_pass =
  fixes step :: "'i \<Rightarrow> bool \<times> host_state \<Rightarrow> bool \<times> host_state" and owner :: "'i \<Rightarrow> raw_uuid" and pre :: "'i \<Rightarrow> host_state \<Rightarrow> bool"
  assumes sorted: "sorted_state s \<Longrightarrow> sorted_state (snd (step i (c, s)))"
    and frame: "sorted_state s \<Longrightarrow> \<not> pane_cell (owner i) k \<Longrightarrow> state_get k (snd (step i (c, s))) = state_get k s"
    and near: "sorted_state s \<Longrightarrow> sorted_state t \<Longrightarrow> (\<And>k. pane_cell (owner i) k \<Longrightarrow> state_get k s = state_get k t) \<Longrightarrow>
      pane_cell (owner i) k \<Longrightarrow> state_get k (snd (step i (c, s))) = state_get k (snd (step i (d, t)))"
    and flag: "sorted_state s \<Longrightarrow> pre i s \<Longrightarrow> fst (step i (c, s)) \<longleftrightarrow> c \<or> snd (step i (c, s)) \<noteq> s"
    and pre_near: "(\<And>k. pane_cell (owner i) k \<Longrightarrow> state_get k s = state_get k t) \<Longrightarrow> pre i s \<Longrightarrow> pre i t"
begin

lemma pass_cells:
  assumes "distinct (map owner xs)" "sorted_state s"
  shows "sorted_state (snd (fold step xs (c, s)))"
    "state_get k (snd (fold step xs (c, s))) =
      (case find (\<lambda>i. pane_cell (owner i) k) xs of None \<Rightarrow> state_get k s | Some i \<Rightarrow> state_get k (snd (step i (c, s))))"
proof -
  have "sorted_state (snd (fold step xs (c, s))) \<and> (\<forall>k. state_get k (snd (fold step xs (c, s))) =
      (case find (\<lambda>i. pane_cell (owner i) k) xs of None \<Rightarrow> state_get k s | Some i \<Rightarrow> state_get k (snd (step i (c, s)))))"
    using assms
  proof (induction xs arbitrary: c s)
    case (Cons i xs)
    obtain c1 s1 where st: "step i (c, s) = (c1, s1)" by force
    have s1: "sorted_state s1" using sorted [OF Cons.prems(2), of i c] st by simp
    note IH = Cons.IH [OF _ s1, of c1]
    have d: "distinct (map owner xs)" "owner i \<notin> owner ` set xs" using Cons.prems(1) by auto
    have "state_get k (snd (fold step (i # xs) (c, s))) =
        (case find (\<lambda>i. pane_cell (owner i) k) (i # xs) of None \<Rightarrow> state_get k s | Some i \<Rightarrow> state_get k (snd (step i (c, s))))" for k
    proof (cases "pane_cell (owner i) k")
      case True
      then have "find (\<lambda>i. pane_cell (owner i) k) xs = None" using d(2) by (auto simp: find_None_iff pane_cell_def)
      then show ?thesis using IH d(1) True st by simp
    next
      case False
      have s: "state_get k' s1 = state_get k' s" if "\<not> pane_cell (owner i) k'" for k'
        using frame [OF Cons.prems(2) that] st by (metis snd_conv)
      have "state_get k (snd (step j (c1, s1))) = state_get k (snd (step j (c, s)))" if j: "find (\<lambda>i. pane_cell (owner i) k) xs = Some j" for j
      proof -
        have "j \<in> set xs" "pane_cell (owner j) k" using j by (auto simp: find_Some_iff)
        moreover from this have "owner j \<noteq> owner i" using d(2) by (metis imageI)
        ultimately show ?thesis using s by (intro near s1 Cons.prems(2)) (auto simp: pane_cell_def)
      qed
      then show ?thesis using IH d(1) False st s [OF False] by (auto split: option.split)
    qed
    then show ?case using IH d(1) st by simp
  qed simp
  then show "sorted_state (snd (fold step xs (c, s)))"
    "state_get k (snd (fold step xs (c, s))) =
      (case find (\<lambda>i. pane_cell (owner i) k) xs of None \<Rightarrow> state_get k s | Some i \<Rightarrow> state_get k (snd (step i (c, s))))" by auto
qed

lemma pass_flag:
  assumes "distinct (map owner xs)" "sorted_state s" "\<forall>i\<in>set xs. pre i s"
  shows "fst (fold step xs (c, s)) \<longleftrightarrow> c \<or> snd (fold step xs (c, s)) \<noteq> s"
  using assms
proof (induction xs arbitrary: c s)
  case (Cons i xs)
  obtain c1 s1 where st: "step i (c, s) = (c1, s1)" by force
  have s1: "sorted_state s1" using sorted [OF Cons.prems(2), of i c] st by simp
  have d: "distinct (map owner xs)" "owner i \<notin> owner ` set xs" using Cons.prems(1) by auto
  have other: "state_get k s1 = state_get k s" if "\<not> pane_cell (owner i) k" for k using frame [OF Cons.prems(2) that] st by (metis snd_conv)
  have "\<forall>j\<in>set xs. pre j s1"
  proof
    fix j assume j: "j \<in> set xs"
    then have "owner j \<noteq> owner i" using d(2) by (metis imageI)
    then have "state_get k s = state_get k s1" if "pane_cell (owner j) k" for k using that other [of k] by (auto simp: pane_cell_def)
    from pre_near [OF this] show "pre j s1" using Cons.prems(3) j by simp
  qed
  then have IH: "fst (fold step xs (c1, s1)) \<longleftrightarrow> c1 \<or> snd (fold step xs (c1, s1)) \<noteq> s1" using Cons.IH d(1) s1 by blast
  have c1: "c1 \<longleftrightarrow> c \<or> s1 \<noteq> s" using flag [OF Cons.prems(2), of i c] Cons.prems(3) st by simp
  have "snd (fold step xs (c1, s1)) \<noteq> s" if ne: "s1 \<noteq> s"
  proof
    assume eq: "snd (fold step xs (c1, s1)) = s"
    obtain k where k: "state_get k s1 \<noteq> state_get k s" using ne state_differ [OF s1 Cons.prems(2)] by blast
    then have "pane_cell (owner i) k" using other by blast
    then have "find (\<lambda>i. pane_cell (owner i) k) xs = None" using d(2) by (auto simp: find_None_iff pane_cell_def)
    then show False using pass_cells(2) [OF d(1) s1, of k c1] eq k by simp
  qed
  then show ?case using IH c1 st by auto
qed simp

end

section \<open>The merge\<close>

definition cell_of :: "liveness_record \<Rightarrow> u8 \<Rightarrow> bytes option" where
  "cell_of r f = Option.bind (map_of (liveness_cells r) f) (\<lambda>x. x)"

lemma pane_key_eq [simp]: "pane_key i f = pane_key j g \<longleftrightarrow> i = j \<and> f = g"
  by (auto simp: pane_key_def key_of_def key_new_def)

lemma pane_key_parts [simp]: "wk_kind (pane_key i f) = kind_as_byte Pane" "wk_object_id (pane_key i f) = i" "wk_field (pane_key i f) = f"
  by (simp_all add: pane_key_def key_of_def key_new_def)

lemma pane_cell_key: "pane_cell i k \<longleftrightarrow> k = pane_key i (wk_field k)"
  by (metis pane_cell_def pane_key_parts workspace_key.expand)

lemma liveness_cells_fields: "map fst (liveness_cells r) = liveness_fields"
  by (simp add: liveness_cells_def liveness_fields_def)

lemma liveness_fields_distinct: "distinct liveness_fields" "set liveness_fields \<inter> set topology_fields = {}"
  by (simp_all add: liveness_fields_def topology_fields_def field_defs)

lemma find_entry:
  "map_option we_value (find (\<lambda>e. we_key e = pane_key (pl_pane_id r) f) (liveness_entries r)) = cell_of r f"
proof -
  have "map_option we_value (find (\<lambda>e. we_key e = pane_key i f)
      (concat (map (\<lambda>(f, v). case v of None \<Rightarrow> [] | Some b \<Rightarrow> [\<lparr>we_key = pane_key i f, we_value = b\<rparr>]) cs))) =
      Option.bind (map_of cs f) (\<lambda>x. x)" if "distinct (map fst cs)" for i cs
    using that
  proof (induction cs)
    case (Cons c cs)
    have none: "map_of cs (fst c) = None" using Cons.prems by (simp add: map_of_eq_None_iff)
    obtain g v where "c = (g, v)" by force
    then show ?case using Cons none by (cases v) auto
  qed simp
  from this [of "liveness_cells r" "pl_pane_id r"] show ?thesis
    by (simp add: liveness_cells_fields liveness_fields_distinct liveness_entries_def cell_of_def)
qed

lemma merge_fields_laws:
  assumes "sorted_state s" "distinct fs" "\<And>f. map_option we_value (find (\<lambda>e. we_key e = pane_key i f) es) = g f"
  shows "sorted_state (snd (merge_fields i es fs (c, s)))"
    "state_get k (snd (merge_fields i es fs (c, s))) = (if pane_cell i k \<and> wk_field k \<in> set fs then g (wk_field k) else state_get k s)"
    "fst (merge_fields i es fs (c, s)) \<longleftrightarrow> c \<or> (\<exists>f\<in>set fs. state_get (pane_key i f) s \<noteq> g f)"
proof -
  have "sorted_state (snd (merge_fields i es fs (c, s))) \<and>
    (\<forall>k. state_get k (snd (merge_fields i es fs (c, s))) = (if pane_cell i k \<and> wk_field k \<in> set fs then g (wk_field k) else state_get k s)) \<and>
    (fst (merge_fields i es fs (c, s)) \<longleftrightarrow> c \<or> (\<exists>f\<in>set fs. state_get (pane_key i f) s \<noteq> g f))"
    using assms(1,2)
  proof (induction fs arbitrary: c s)
    case (Cons f fs)
    obtain c1 s1 where sc: "set_or_clear (pane_key i f) (g f) s = (c1, s1)" by force
    note laws = set_or_clear_laws [OF Cons.prems(1), where k = "pane_key i f" and v = "g f", unfolded sc, simplified]
    have IH: "sorted_state (snd (merge_fields i es fs (c \<or> c1, s1)))"
      "\<And>k. state_get k (snd (merge_fields i es fs (c \<or> c1, s1))) = (if pane_cell i k \<and> wk_field k \<in> set fs then g (wk_field k) else state_get k s1)"
      "fst (merge_fields i es fs (c \<or> c1, s1)) \<longleftrightarrow> (c \<or> c1) \<or> (\<exists>f\<in>set fs. state_get (pane_key i f) s1 \<noteq> g f)"
      using Cons.IH [OF laws(1), of "c \<or> c1"] Cons.prems(2) by simp_all
    have "state_get (pane_key i h) s1 = state_get (pane_key i h) s" if "h \<in> set fs" for h
      using laws(2) [of "pane_key i h"] that Cons.prems(2) by auto
    moreover have "(if pane_cell i k \<and> wk_field k \<in> set fs then g (wk_field k) else state_get k s1) =
        (if pane_cell i k \<and> wk_field k \<in> set (f # fs) then g (wk_field k) else state_get k s)" for k
      using laws(2) [of k] by (auto simp: pane_cell_key)
    ultimately show ?case using IH laws(3) sc assms(3) [of f] by simp
  qed simp
  then show "sorted_state (snd (merge_fields i es fs (c, s)))"
    "state_get k (snd (merge_fields i es fs (c, s))) = (if pane_cell i k \<and> wk_field k \<in> set fs then g (wk_field k) else state_get k s)"
    "fst (merge_fields i es fs (c, s)) \<longleftrightarrow> c \<or> (\<exists>f\<in>set fs. state_get (pane_key i f) s \<noteq> g f)" by blast+
qed

lemma merge_laws:
  assumes "sorted_state s"
  shows "sorted_state (snd (merge_pane_liveness s r))"
    "state_get k (snd (merge_pane_liveness s r)) =
      (if pane_cell (pl_pane_id r) k \<and> wk_field k \<in> set liveness_fields then cell_of r (wk_field k) else state_get k s)"
    "fst (merge_pane_liveness s r) \<longleftrightarrow> snd (merge_pane_liveness s r) \<noteq> s"
proof -
  note laws = merge_fields_laws [OF assms liveness_fields_distinct(1) find_entry [of r], where c = False, folded merge_pane_liveness_def]
  show a: "sorted_state (snd (merge_pane_liveness s r))" and b: "state_get k (snd (merge_pane_liveness s r)) =
      (if pane_cell (pl_pane_id r) k \<and> wk_field k \<in> set liveness_fields then cell_of r (wk_field k) else state_get k s)" for k
    by (rule laws)+
  show "fst (merge_pane_liveness s r) \<longleftrightarrow> snd (merge_pane_liveness s r) \<noteq> s"
  proof
    assume "fst (merge_pane_liveness s r)"
    then obtain f where "f \<in> set liveness_fields" "state_get (pane_key (pl_pane_id r) f) s \<noteq> cell_of r f" using laws(3) by auto
    then show "snd (merge_pane_liveness s r) \<noteq> s" using b [of "pane_key (pl_pane_id r) f"] by (auto simp: pane_cell_def)
  next
    assume ne: "snd (merge_pane_liveness s r) \<noteq> s"
    show "fst (merge_pane_liveness s r)"
    proof (rule ccontr)
      assume "\<not> fst (merge_pane_liveness s r)"
      then have "\<forall>f\<in>set liveness_fields. state_get (pane_key (pl_pane_id r) f) s = cell_of r f" using laws(3) by auto
      then have "state_get k (snd (merge_pane_liveness s r)) = state_get k s" for k using b [of k] by (auto simp: pane_cell_key)
      then show False using ne state_eqI [OF a assms] by blast
    qed
  qed
qed

section \<open>Reading back\<close>

definition record_ok :: "liveness_record \<Rightarrow> bool" where
  "record_ok r \<longleftrightarrow> uuid_ok (pl_pane_id r) \<and>
     (\<forall>t\<in>{pl_live_title r, pl_cwd r, pl_project_key r, pl_foreground_process r, pl_running_command r, pl_agent_label r, pl_agent_intent r}.
        pred_option text_ok t) \<and>
     pred_option i32_ok (pl_last_exit_code r) \<and> i64_ok (pl_last_activity_ms r)"

lemma text_reads: "pred_option text_ok t \<Longrightarrow> Option.bind (text_cell t) decode_string = t"
  by (cases t) (simp_all add: text_cell_def)

lemma cells_read:
  assumes "record_ok r" "\<And>f. f \<in> set liveness_fields \<Longrightarrow> state_get (pane_key (pl_pane_id r) f) s = cell_of r f"
  shows "liveness_from_document (pl_pane_id r) s = Some r"
proof -
  have c: "state_get (pane_key (pl_pane_id r) f) s = cell_of r f" if "f \<in> set liveness_fields" for f using assms(2) that .
  note g = c [of field_live_title] c [of field_title_fresh] c [of field_cwd] c [of field_project_key] c [of field_foreground_process]
    c [of field_running_command] c [of field_agent_state] c [of field_agent_label] c [of field_agent_intent] c [of field_progress]
    c [of field_command_running] c [of field_last_exit_code] c [of field_last_duration_ms] c [of field_grid] c [of field_liveness]
    c [of field_completion_epoch] c [of field_last_activity_ms]
  note g' = g [unfolded liveness_fields_def cell_of_def liveness_cells_def, simplified field_defs, simplified]
  have live: "liveness_from_byte (liveness_as_byte l) = l" for l by (cases l) (simp_all add: liveness_from_byte_def)
  have pair: "Option.bind (map_option (\<lambda>(a, b). encode_u8_pair a b) x) decode_u8_pair = x"
    "Option.bind (map_option (\<lambda>(a, b). encode_u16_pair a b) y) decode_u16_pair = y" for x y
    by (cases x; auto) (cases y; auto)
  have ex: "Option.bind (map_option encode_cell_i32 (pl_last_exit_code r)) decode_cell_i32 = pl_last_exit_code r"
    using assms(1) by (cases "pl_last_exit_code r") (simp_all add: record_ok_def)
  have du: "Option.bind (map_option encode_cell_u32 x) decode_cell_u32 = x" for x by (cases x) simp_all
  have t: "Option.bind (text_cell t) decode_string = t"
    if "t \<in> {pl_live_title r, pl_cwd r, pl_project_key r, pl_foreground_process r, pl_running_command r, pl_agent_label r, pl_agent_intent r}" for t
    using that assms(1) text_reads by (auto simp: record_ok_def)
  have act: "i64_ok (pl_last_activity_ms r)" using assms(1) by (simp add: record_ok_def)
  show ?thesis
    unfolding liveness_from_document_def Let_def field_defs
    by (rule trans [OF _ arg_cong [where f = Some, OF liveness_record.surjective [symmetric]]])
      (simp add: g' live pair ex du t act or_default_def)
qed

section \<open>The two passes of the reconciler\<close>

definition has_pane :: "raw_uuid \<Rightarrow> host_state \<Rightarrow> bool" where
  "has_pane i s \<longleftrightarrow> (\<exists>k. pane_cell i k \<and> state_get k s \<noteq> None)"

definition is_arranged :: "raw_uuid \<Rightarrow> host_state \<Rightarrow> bool" where
  "is_arranged i s \<longleftrightarrow> (\<exists>f\<in>set topology_fields. state_get (pane_key i f) s \<noteq> None)"

lemma state_keys_get: "k \<in> set (state_keys s) \<longleftrightarrow> state_get k s \<noteq> None"
  by (simp add: state_keys_def state_get_def map_of_eq_None_iff)

lemma inventory_sets:
  "i \<in> set (fst (pane_inventory s)) \<longleftrightarrow> has_pane i s" "distinct (fst (pane_inventory s))"
  "i \<in> set (snd (pane_inventory s)) \<longleftrightarrow> is_arranged i s"
proof -
  show "i \<in> set (fst (pane_inventory s)) \<longleftrightarrow> has_pane i s"
    by (auto simp: pane_inventory_def Let_def has_pane_def pane_cell_def state_keys_get)
  show "i \<in> set (snd (pane_inventory s)) \<longleftrightarrow> is_arranged i s"
  proof
    assume "i \<in> set (snd (pane_inventory s))"
    then obtain k where "pane_cell i k" "wk_field k \<in> set topology_fields" "state_get k s \<noteq> None"
      by (auto simp: pane_inventory_def Let_def pane_cell_def state_keys_get)
    then show "is_arranged i s" by (auto simp: is_arranged_def pane_cell_key intro!: bexI [of _ "wk_field k"])
  next
    assume "is_arranged i s"
    then obtain f where "f \<in> set topology_fields" "pane_key i f \<in> set (state_keys s)" by (auto simp: is_arranged_def state_keys_get)
    then show "i \<in> set (snd (pane_inventory s))"
      by (force simp: pane_inventory_def Let_def intro!: image_eqI [where x = "pane_key i f"])
  qed
qed (simp add: pane_inventory_def Let_def)

interpretation captured: pane_pass merge_captured pl_pane_id "\<lambda>_ _. True"
proof
  show "sorted_state s \<Longrightarrow> sorted_state (snd (merge_captured r (c, s)))" for s r c
    by (simp add: merge_captured_def merge_laws split_beta)
  show "sorted_state s \<Longrightarrow> \<not> pane_cell (pl_pane_id r) k \<Longrightarrow> state_get k (snd (merge_captured r (c, s))) = state_get k s" for s r k c
    by (simp add: merge_captured_def merge_laws split_beta)
  show "sorted_state s \<Longrightarrow> sorted_state t \<Longrightarrow> (\<And>k. pane_cell (pl_pane_id r) k \<Longrightarrow> state_get k s = state_get k t) \<Longrightarrow>
      pane_cell (pl_pane_id r) k \<Longrightarrow> state_get k (snd (merge_captured r (c, s))) = state_get k (snd (merge_captured r (d, t)))" for s t r k c d
    by (simp add: merge_captured_def merge_laws split_beta)
  show "sorted_state s \<Longrightarrow> fst (merge_captured r (c, s)) \<longleftrightarrow> c \<or> snd (merge_captured r (c, s)) \<noteq> s" for s r c
    by (simp add: merge_captured_def merge_laws split_beta)
qed simp

lemma dead_record_id [simp]: "pl_pane_id (dead_record s i) = i"
  by (simp add: dead_record_def liveness_new_def)

lemma dead_record_near: "(\<And>k. pane_cell i k \<Longrightarrow> state_get k s = state_get k t) \<Longrightarrow> dead_record s i = dead_record t i"
  by (simp add: dead_record_def pane_cell_def)

lemma settle_pane_laws:
  assumes "sorted_state s"
  shows "sorted_state (snd (settle_pane arranged i (c, s)))"
    "state_get k (snd (settle_pane arranged i (c, s))) =
      (if \<not> pane_cell i k then state_get k s
       else if i \<notin> set arranged then None
       else if wk_field k \<in> set liveness_fields then cell_of (dead_record s i) (wk_field k) else state_get k s)"
    "i \<in> set arranged \<or> has_pane i s \<Longrightarrow> fst (settle_pane arranged i (c, s)) \<longleftrightarrow> c \<or> snd (settle_pane arranged i (c, s)) \<noteq> s"
proof -
  have gone: "remove_object (kind_as_byte Pane) i s \<noteq> s" if "has_pane i s"
    using that remove_object_laws(2) [OF assms] unfolding has_pane_def pane_cell_def by metis
  show "sorted_state (snd (settle_pane arranged i (c, s)))"
    using assms by (simp add: settle_pane_def mark_pane_dead_def merge_laws remove_object_laws split_beta)
  show "state_get k (snd (settle_pane arranged i (c, s))) =
      (if \<not> pane_cell i k then state_get k s
       else if i \<notin> set arranged then None
       else if wk_field k \<in> set liveness_fields then cell_of (dead_record s i) (wk_field k) else state_get k s)"
    using assms by (simp add: settle_pane_def mark_pane_dead_def merge_laws remove_object_laws split_beta pane_cell_def)
  show "fst (settle_pane arranged i (c, s)) \<longleftrightarrow> c \<or> snd (settle_pane arranged i (c, s)) \<noteq> s" if "i \<in> set arranged \<or> has_pane i s"
    using assms that gone by (auto simp: settle_pane_def mark_pane_dead_def merge_laws split_beta)
qed

interpretation settled: pane_pass "settle_pane arranged" "\<lambda>i. i" "\<lambda>i s. i \<in> set arranged \<or> has_pane i s" for arranged
proof
  show "sorted_state s \<Longrightarrow> sorted_state t \<Longrightarrow> (\<And>k. pane_cell i k \<Longrightarrow> state_get k s = state_get k t) \<Longrightarrow> pane_cell i k \<Longrightarrow>
      state_get k (snd (settle_pane arranged i (c, s))) = state_get k (snd (settle_pane arranged i (d, t)))" for s t i k c d
    using dead_record_near [of i s t] by (simp add: settle_pane_laws)
  show "(\<And>k. pane_cell i k \<Longrightarrow> state_get k s = state_get k t) \<Longrightarrow> i \<in> set arranged \<or> has_pane i s \<Longrightarrow> i \<in> set arranged \<or> has_pane i t" for i s t
    unfolding has_pane_def by metis
qed (simp_all add: settle_pane_laws)

text \<open>What a reconciled document holds of every pane, and that the flag tells whether it is another document.\<close>

lemma reconcile_cells:
  assumes s: "sorted_state s" and d: "distinct (map pl_pane_id captured)"
  shows "sorted_state (snd (reconcile s captured))"
    and "r \<in> set captured \<Longrightarrow> state_get (pane_key (pl_pane_id r) f) (snd (reconcile s captured)) =
      (if f \<in> set liveness_fields then cell_of r f else state_get (pane_key (pl_pane_id r) f) s)"
    and "i \<notin> pl_pane_id ` set captured \<Longrightarrow> state_get (pane_key i f) (snd (reconcile s captured)) =
      (if \<not> is_arranged i s then None
       else if f \<in> set liveness_fields then cell_of (dead_record s i) f else state_get (pane_key i f) s)"
    and "wk_kind k \<noteq> kind_as_byte Pane \<Longrightarrow> state_get k (snd (reconcile s captured)) = state_get k s"
    and "fst (reconcile s captured) \<longleftrightarrow> snd (reconcile s captured) \<noteq> s"
proof -
  obtain c1 s1 where p1: "fold merge_captured captured (False, s) = (c1, s1)" by force
  obtain known arranged where inv: "pane_inventory s1 = (known, arranged)" by force
  note k = inventory_sets [where s = s1, unfolded inv fst_conv snd_conv]
  define lost where "lost = filter (\<lambda>i. i \<notin> set (map pl_pane_id captured)) known"
  have rec: "reconcile s captured = fold (settle_pane arranged) lost (c1, s1)" by (simp add: reconcile_def p1 inv lost_def Let_def)
  have s1: "sorted_state s1" using captured.pass_cells(1) [OF d s, of False] p1 by simp
  have lost: "distinct (map (\<lambda>i. i) lost)" "i \<in> set lost \<longleftrightarrow> has_pane i s1 \<and> i \<notin> pl_pane_id ` set captured" for i
    using k(2) by (auto simp: lost_def k(1))
  have get1: "state_get k s1 = (case find (\<lambda>r. pane_cell (pl_pane_id r) k) captured of None \<Rightarrow> state_get k s
      | Some r \<Rightarrow> state_get k (snd (merge_captured r (False, s))))" for k
    using captured.pass_cells(2) [OF d s, of k False] p1 by simp
  have pre: "\<forall>i\<in>set lost. i \<in> set arranged \<or> has_pane i s1" using lost(2) by simp
  have get2: "state_get k (snd (reconcile s captured)) = (case find (\<lambda>i. pane_cell i k) lost of None \<Rightarrow> state_get k s1
      | Some i \<Rightarrow> state_get k (snd (settle_pane arranged i (c1, s1))))" for k
    using settled.pass_cells(2) [where arranged = arranged and k = k and c = c1, OF lost(1) s1] by (simp add: rec)
  show s': "sorted_state (snd (reconcile s captured))" using settled.pass_cells(1) [where arranged = arranged and c = c1, OF lost(1) s1] by (simp add: rec)
  have find1: "find (\<lambda>r. pane_cell (pl_pane_id r) (pane_key i f)) captured = None" if "i \<notin> pl_pane_id ` set captured" for i f
    using that by (auto simp: find_None_iff pane_cell_def)
  have find2: "find (\<lambda>i. pane_cell i k) lost = (if wk_kind k = kind_as_byte Pane \<and> wk_object_id k \<in> set lost then Some (wk_object_id k) else None)" for k
  proof (cases "wk_kind k = kind_as_byte Pane \<and> wk_object_id k \<in> set lost")
    case True
    then obtain i where i: "find (\<lambda>i. pane_cell i k) lost = Some i"
      by (cases "find (\<lambda>i. pane_cell i k) lost") (auto simp: find_None_iff pane_cell_def)
    then have "pane_cell i k" by (auto simp: find_Some_iff)
    then show ?thesis using i True by (simp add: pane_cell_def)
  qed (auto simp: find_None_iff pane_cell_def)
  have same: "state_get (pane_key i f) s1 = state_get (pane_key i f) s" if "i \<notin> pl_pane_id ` set captured" for i f
    using get1 find1 [OF that] by simp
  show "state_get (pane_key (pl_pane_id r) f) (snd (reconcile s captured)) =
      (if f \<in> set liveness_fields then cell_of r f else state_get (pane_key (pl_pane_id r) f) s)" if r: "r \<in> set captured"
  proof -
    obtain q where q: "find (\<lambda>r'. pane_cell (pl_pane_id r') (pane_key (pl_pane_id r) f)) captured = Some q"
      using r by (cases "find (\<lambda>r'. pane_cell (pl_pane_id r') (pane_key (pl_pane_id r) f)) captured") (auto simp: find_None_iff pane_cell_def)
    then have "q \<in> set captured" "pl_pane_id q = pl_pane_id r" by (auto simp: find_Some_iff pane_cell_def)
    then have "q = r" using d r by (meson distinct_map inj_onD)
    moreover have "find (\<lambda>i. pane_cell i (pane_key (pl_pane_id r) f)) lost = None" using r by (simp add: find2 lost(2))
    ultimately show ?thesis using q s by (simp add: get2 get1 merge_captured_def merge_laws split_beta pane_cell_def)
  qed
  show "state_get (pane_key i f) (snd (reconcile s captured)) =
      (if \<not> is_arranged i s then None
       else if f \<in> set liveness_fields then cell_of (dead_record s i) f else state_get (pane_key i f) s)"
    if i: "i \<notin> pl_pane_id ` set captured"
  proof -
    have arr: "i \<in> set arranged \<longleftrightarrow> is_arranged i s" using same [OF i] by (simp add: k(3) is_arranged_def)
    have near: "dead_record s1 i = dead_record s i" using same [OF i] by (intro dead_record_near) (simp add: pane_cell_key, metis)
    have hp: "is_arranged i s \<Longrightarrow> has_pane i s1"
      using same [OF i] unfolding is_arranged_def has_pane_def by (metis pane_cell_key pane_key_parts(3))
    have no: "\<not> has_pane i s1 \<Longrightarrow> state_get (pane_key i f) s1 = None"
      unfolding has_pane_def by (metis pane_cell_key pane_key_parts(3))
    have "state_get (pane_key i f) (snd (reconcile s captured)) =
        (if has_pane i s1 then state_get (pane_key i f) (snd (settle_pane arranged i (c1, s1))) else state_get (pane_key i f) s1)"
      unfolding get2 find2 using i lost(2) by simp
    then show ?thesis
      using arr near hp no same [OF i] by (auto simp: settle_pane_laws [OF s1] pane_cell_def)
  qed
  show "state_get k (snd (reconcile s captured)) = state_get k s" if "wk_kind k \<noteq> kind_as_byte Pane"
  proof -
    have "find (\<lambda>r. pane_cell (pl_pane_id r) k) captured = None" using that by (auto simp: find_None_iff pane_cell_def)
    then show ?thesis using that by (simp add: get2 find2 get1)
  qed
  show "fst (reconcile s captured) \<longleftrightarrow> snd (reconcile s captured) \<noteq> s"
  proof -
    have c1: "c1 \<longleftrightarrow> s1 \<noteq> s" using captured.pass_flag [OF d s, of False] p1 by simp
    have c2: "fst (reconcile s captured) \<longleftrightarrow> c1 \<or> snd (reconcile s captured) \<noteq> s1"
      using settled.pass_flag [OF lost(1) s1 pre] by (simp add: rec)
    have "snd (reconcile s captured) \<noteq> s" if ne: "s1 \<noteq> s"
    proof
      assume eq: "snd (reconcile s captured) = s"
      obtain k where k: "state_get k s1 \<noteq> state_get k s" using ne state_differ [OF s1 s] by blast
      then obtain r where r: "r \<in> set captured" "pane_cell (pl_pane_id r) k"
        using get1 [of k] by (auto simp: find_Some_iff split: option.splits) (metis nth_mem)
      then have "find (\<lambda>i. pane_cell i k) lost = None" unfolding find2 by (auto simp: lost(2) pane_cell_def)
      then show False using get2 [of k] k eq by simp
    qed
    then show ?thesis using c1 c2 by auto
  qed
qed

definition clamp_text :: "rstring option \<Rightarrow> rstring option" where
  "clamp_text t = map_option (\<lambda>t. clamp_utf8 t max_string_bytes) t"

text \<open>A pane without a process as the document shows it: dead, with the directory and the project it had.\<close>

definition dead_view :: "host_state \<Rightarrow> raw_uuid \<Rightarrow> liveness_record" where
  "dead_view s i = (dead_record s i)\<lparr>pl_cwd := clamp_text (pl_cwd (dead_record s i)), pl_project_key := clamp_text (pl_project_key (dead_record s i))\<rparr>"

lemma decoded_text: "Option.bind v decode_string = Some t \<Longrightarrow> text_ok (clamp_utf8 t max_string_bytes)"
  using string_cell_settles(2) by (cases v) auto

lemma dead_view_ok: "uuid_ok i \<Longrightarrow> record_ok (dead_view s i)"
  using decoded_text [of "state_get (pane_key i field_cwd) s"] decoded_text [of "state_get (pane_key i field_project_key) s"]
  by (cases "Option.bind (state_get (pane_key i field_cwd) s) decode_string";
      cases "Option.bind (state_get (pane_key i field_project_key) s) decode_string")
    (simp_all add: record_ok_def dead_view_def dead_record_def liveness_new_def clamp_text_def i64_ok_def)

lemma text_cell_clamped: "text_cell (clamp_text t) = text_cell t"
  by (cases t) (simp_all add: text_cell_def clamp_text_def encode_string_def clamp_utf8_le)

lemma cell_of_dead_view: "cell_of (dead_view s i) f = cell_of (dead_record s i) f"
proof -
  have "liveness_cells (dead_view s i) = liveness_cells (dead_record s i)"
    by (simp add: liveness_cells_def dead_view_def text_cell_clamped)
  then show ?thesis by (simp add: cell_of_def)
qed

text \<open>After a pass there is nothing left to do: the next pass over the same capture is silent.\<close>

lemma reconcile_settles:
  assumes s: "sorted_state s" and d: "distinct (map pl_pane_id captured)"
  shows "reconcile (snd (reconcile s captured)) captured = (False, snd (reconcile s captured))"
proof -
  let ?t = "snd (reconcile s captured)"
  note a = reconcile_cells [OF s d] and b = reconcile_cells [OF reconcile_cells(1) [OF s d] d]
  have topo: "f \<in> set topology_fields \<Longrightarrow> f \<notin> set liveness_fields" for f using liveness_fields_distinct(2) by auto
  have arranged: "is_arranged i ?t = is_arranged i s" if i: "i \<notin> pl_pane_id ` set captured" for i
    using a(3) [OF i] topo by (auto simp: is_arranged_def)
  have dead: "cell_of (dead_record ?t i) f = cell_of (dead_record s i) f"
    if i: "i \<notin> pl_pane_id ` set captured" "is_arranged i s" for i f
  proof -
    have mem: "field_cwd \<in> set liveness_fields" "field_project_key \<in> set liveness_fields" by (simp_all add: liveness_fields_def)
    have reread: "Option.bind (text_cell (Option.bind v decode_string)) decode_string = clamp_text (Option.bind v decode_string)" for v
      using decoded_text [of v] by (cases "Option.bind v decode_string")
        (simp_all add: text_cell_def clamp_text_def decode_string_def encode_string_def text_ok_def)
    have "state_get (pane_key i field_cwd) ?t = text_cell (pl_cwd (dead_record s i))"
      "state_get (pane_key i field_project_key) ?t = text_cell (pl_project_key (dead_record s i))"
      using a(3) [OF i(1)] i(2) mem by (simp_all add: cell_of_def liveness_cells_def field_defs)
    then have "dead_record ?t i = dead_view s i" by (simp add: dead_record_def dead_view_def reread)
    then show ?thesis by (simp add: cell_of_dead_view)
  qed
  have "state_get k (snd (reconcile ?t captured)) = state_get k ?t" for k
  proof (cases "wk_kind k = kind_as_byte Pane")
    case True
    define i where "i = wk_object_id k"
    have k: "k = pane_key i (wk_field k)" using True by (simp add: i_def flip: pane_cell_key) (simp add: pane_cell_def)
    show ?thesis
    proof (cases "i \<in> pl_pane_id ` set captured")
      case True
      then obtain r where "r \<in> set captured" "i = pl_pane_id r" by auto
      then show ?thesis using a(2) [of r "wk_field k"] b(2) [of r "wk_field k"] k by auto
    next
      case False
      then show ?thesis using a(3) [of i "wk_field k"] b(3) [of i "wk_field k"] arranged [of i] dead [of i] k by auto
    qed
  qed (rule b(4))
  then have "snd (reconcile ?t captured) = ?t" using b(1) a(1) by (intro state_eqI) simp_all
  then show ?thesis using b(5) by (metis prod.collapse)
qed

text \<open>C26. 
  One reconciler pass tells the truth about every pane. A captured pane reads back exactly as captured; a pane the
  layout names but nobody captured reads as dead with the directory and project it had; a pane in neither is gone;
  nothing outside the liveness cells of those panes moves. The answer says whether the document changed, so a second
  pass over the same capture is silent.
\<close>
theorem reconcile_tells_the_truth:
  assumes "sorted_state s" "distinct (map pl_pane_id captured)" "\<forall>r\<in>set captured. record_ok r"
  shows "case reconcile s captured of (changed, t) \<Rightarrow>
    (\<forall>r\<in>set captured. liveness_from_document (pl_pane_id r) t = Some r) \<and>
    (\<forall>i. uuid_ok i \<and> i \<notin> pl_pane_id ` set captured \<and> is_arranged i s \<longrightarrow> liveness_from_document i t = Some (dead_view s i)) \<and>
    (\<forall>i. i \<notin> pl_pane_id ` set captured \<and> \<not> is_arranged i s \<longrightarrow> \<not> has_pane i t) \<and>
    (\<forall>k. wk_kind k \<noteq> kind_as_byte Pane \<or> wk_field k \<in> set topology_fields \<longrightarrow> state_get k t = state_get k s) \<and>
    (changed \<longleftrightarrow> t \<noteq> s) \<and> reconcile t captured = (False, t)"
proof -
  let ?t = "snd (reconcile s captured)"
  note a = reconcile_cells [OF assms(1,2)]
  have topo: "f \<in> set topology_fields \<Longrightarrow> f \<notin> set liveness_fields" for f using liveness_fields_distinct(2) by auto
  have 1: "liveness_from_document (pl_pane_id r) ?t = Some r" if "r \<in> set captured" for r
    using that assms(3) by (intro cells_read) (simp_all add: a(2))
  have 2: "liveness_from_document i ?t = Some (dead_view s i)" if "uuid_ok i" "i \<notin> pl_pane_id ` set captured" "is_arranged i s" for i
    using cells_read [OF dead_view_ok [OF that(1)], of s ?t] a(3) [OF that(2)] that(3)
    by (simp add: cell_of_dead_view) (simp add: dead_view_def)
  have 3: "\<not> has_pane i ?t" if "i \<notin> pl_pane_id ` set captured" "\<not> is_arranged i s" for i
    using a(3) [OF that(1)] that(2) unfolding has_pane_def by (metis pane_cell_key)
  have 4: "state_get k ?t = state_get k s" if "wk_kind k \<noteq> kind_as_byte Pane \<or> wk_field k \<in> set topology_fields" for k
  proof (cases "wk_kind k = kind_as_byte Pane")
    case True
    define i where "i = wk_object_id k"
    have k: "k = pane_key i (wk_field k)" using True by (simp add: i_def flip: pane_cell_key) (simp add: pane_cell_def)
    have f: "wk_field k \<in> set topology_fields" using that True by simp
    have no: "\<not> is_arranged i s \<Longrightarrow> state_get (pane_key i (wk_field k)) s = None" using f by (auto simp: is_arranged_def)
    show ?thesis
    proof (cases "i \<in> pl_pane_id ` set captured")
      case True
      then obtain r where "r \<in> set captured" "i = pl_pane_id r" by auto
      then show ?thesis using a(2) [of r "wk_field k"] topo [OF f] k by auto
    next
      case False
      then show ?thesis using a(3) [of i "wk_field k"] topo [OF f] no k by auto
    qed
  qed (rule a(4))
  have "reconcile s captured = (fst (reconcile s captured), ?t)" by simp
  then show ?thesis using 1 2 3 4 a(5) reconcile_settles [OF assms(1,2)] by (auto simp: split_beta)
qed

definition demo_pane :: "u8 \<Rightarrow> raw_uuid" where
  "demo_pane b = replicate 15 0 @ [b]"

definition demo_record :: liveness_record where
  "demo_record = (liveness_new (demo_pane 1) Live_Attached)\<lparr>pl_running_command := Some [109, 233], pl_grid := Some (120, 40), pl_last_exit_code := Some (- 1)\<rparr>"

text \<open>A captured pane, a pane the layout names, and a pane nobody owns.\<close>

definition demo_document :: host_state where
  "demo_document = state_set (pane_key (demo_pane 3) field_running_command) [1]
     (state_set (pane_key (demo_pane 2) field_title) [116] (state_set (pane_key (demo_pane 1) field_agent_label) [97] state_new))"

lemma state_new_sorted: "sorted_state state_new"
  using state_new_ok(1) by (simp add: state_ok_def)

lemma demo_document_ok: "sorted_state demo_document"
  by (simp add: demo_document_def state_set_laws state_new_sorted)

lemma demo_record_ok: "record_ok demo_record"
  by (simp add: record_ok_def demo_record_def liveness_new_def demo_pane_def uuid_ok_def session_id_byte_count_def text_ok_def wf_str_def
      is_scalar_def str_len_def len_utf8_def max_string_bytes_def i32_ok_def i64_ok_def)

theorem reconcile_tells_the_truth_witness:
  "\<exists>t. reconcile demo_document [demo_record] = (True, t) \<and> liveness_from_document (demo_pane 1) t = Some demo_record \<and>
     liveness_from_document (demo_pane 2) t = Some (liveness_new (demo_pane 2) Live_Dead) \<and> \<not> has_pane (demo_pane 3) t"
proof -
  have g: "state_get k demo_document = (if k = pane_key (demo_pane 3) field_running_command then Some [1]
      else if k = pane_key (demo_pane 2) field_title then Some [116]
      else if k = pane_key (demo_pane 1) field_agent_label then Some [97] else None)" for k
    by (simp add: demo_document_def state_set_laws state_new_sorted)
  have d: "demo_pane 1 \<noteq> demo_pane 2" "demo_pane 2 \<noteq> demo_pane 3" "demo_pane 1 \<noteq> demo_pane 3" "uuid_ok (demo_pane 2)"
    by (simp_all add: demo_pane_def uuid_ok_def session_id_byte_count_def)
  have i: "pl_pane_id demo_record = demo_pane 1" by (simp add: demo_record_def liveness_new_def)
  have a: "is_arranged (demo_pane 2) demo_document" "\<not> is_arranged (demo_pane 3) demo_document"
    using d by (simp_all add: is_arranged_def g topology_fields_def field_defs)
  have v: "dead_view demo_document (demo_pane 2) = liveness_new (demo_pane 2) Live_Dead"
    using d by (simp add: dead_view_def dead_record_def g clamp_text_def field_defs liveness_new_def)
  obtain c t where r: "reconcile demo_document [demo_record] = (c, t)" by force
  have h: "distinct (map pl_pane_id [demo_record])" "\<forall>r\<in>set [demo_record]. record_ok r" using demo_record_ok by simp_all
  note th = reconcile_tells_the_truth [OF demo_document_ok h, unfolded r prod.case]
  have three: "\<not> has_pane (demo_pane 3) t" and two: "liveness_from_document (demo_pane 2) t = Some (liveness_new (demo_pane 2) Live_Dead)"
    and one: "liveness_from_document (demo_pane 1) t = Some demo_record"
    using th a d i v by auto
  have "has_pane (demo_pane 3) demo_document"
    unfolding has_pane_def by (rule exI [of _ "pane_key (demo_pane 3) field_running_command"]) (simp add: g pane_cell_def)
  then have c using three th by auto
  then show ?thesis using r one two three by auto
qed

end
