(* ===== verification/Workspace_Document.thy ===== *)
theory Workspace_Document
  imports Workspace_Subscriber Pane_Liveness
begin

text \<open>
  The host's one copy of the workspace (\<open>slopdesk-hostserver/src/workspace.rs\<close>) and the channel service in front of it
  (\<open>wsserve.rs\<close>). A subscriber is shared: the document files it by its id, the service by its connection, its pump
  runs on its own. So the subscribers live in one store under their ids, and both sides hold ids.
\<close>

section \<open>The document\<close>

record workspace_document =
  wd_epoch :: raw_uuid
  wd_state_num :: int
  wd_state :: host_state
  wd_subscribers :: "raw_uuid list"
  wd_pristine :: bool
  wd_reconciling :: bool
  wd_kicked :: bool

type_synonym subscriber_store = "raw_uuid \<Rightarrow> subscriber option"

definition on_subscriber :: "raw_uuid \<Rightarrow> (subscriber \<Rightarrow> subscriber) \<Rightarrow> subscriber_store \<Rightarrow> subscriber_store" where
  "on_subscriber i f st = (case st i of None \<Rightarrow> st | Some s \<Rightarrow> st(i := Some (f s)))"

definition document_new :: "raw_uuid \<Rightarrow> workspace_document" where
  "document_new epoch =
    \<lparr>wd_epoch = epoch, wd_state_num = 1, wd_state = state_new, wd_subscribers = [], wd_pristine = True, wd_reconciling = False, wd_kicked = False\<rparr>"

definition install :: "host_state \<Rightarrow> bool \<Rightarrow> workspace_document \<Rightarrow> workspace_document" where
  "install restored pristine d = d\<lparr>wd_state := restored, wd_pristine := pristine\<rparr>"

definition install_from :: "bool \<Rightarrow> host_state \<Rightarrow> workspace_document \<Rightarrow> workspace_document" where
  "install_from has_stored loaded d = install loaded (\<not> has_stored) d"

definition bump :: "workspace_document \<Rightarrow> subscriber_store \<Rightarrow> workspace_document \<times> subscriber_store" where
  "bump d st =
    (let n = min i64_max (wd_state_num d + 1)
     in (d\<lparr>wd_state_num := n\<rparr>, fold (\<lambda>i. on_subscriber i (deliver_state (wd_epoch d) n (wd_state d))) (wd_subscribers d) st))"

definition mutate :: "(host_state \<Rightarrow> host_state) \<Rightarrow> workspace_document \<Rightarrow> subscriber_store \<Rightarrow> bool \<times> workspace_document \<times> subscriber_store" where
  "mutate body d st =
    (let next_state = body (wd_state d)
     in if next_state = wd_state d then (False, d, st) else (True, bump (d\<lparr>wd_state := next_state\<rparr>) st))"

definition doc_reconcile :: "liveness_record list \<Rightarrow> workspace_document \<Rightarrow> subscriber_store \<Rightarrow> bool \<times> workspace_document \<times> subscriber_store" where
  "doc_reconcile captured = mutate (\<lambda>s. snd (reconcile s captured))"

definition doc_mark_pane_dead :: "raw_uuid \<Rightarrow> workspace_document \<Rightarrow> subscriber_store \<Rightarrow> bool \<times> workspace_document \<times> subscriber_store" where
  "doc_mark_pane_dead pane = mutate (\<lambda>s. snd (mark_pane_dead s pane))"

definition stale_panes :: "raw_uuid list \<Rightarrow> host_state \<Rightarrow> raw_uuid list" where
  "stale_panes keeping s =
    filter (\<lambda>i. i \<notin> set keeping) (map wk_object_id (filter (\<lambda>k. wk_kind k = kind_as_byte Pane) (state_keys s)))"

definition remove_panes :: "raw_uuid list \<Rightarrow> workspace_document \<Rightarrow> subscriber_store \<Rightarrow> bool \<times> workspace_document \<times> subscriber_store" where
  "remove_panes keeping d st =
    (let stale = stale_panes keeping (wd_state d)
     in if stale = [] then (False, d, st) else mutate (fold (remove_object (kind_as_byte Pane)) stale) d st)"

definition project_key_field :: u8 where
  "project_key_field = 0"

definition project_git_summary :: u8 where
  "project_git_summary = 1"

definition set_project :: "raw_uuid \<Rightarrow> rstring \<Rightarrow> bytes option \<Rightarrow> workspace_document \<Rightarrow> subscriber_store \<Rightarrow> bool \<times> workspace_document \<times> subscriber_store" where
  "set_project project key git_summary =
    mutate (\<lambda>s. snd (set_or_clear (key_of Project project project_git_summary) git_summary
                      (state_set (key_of Project project project_key_field) (encode_string key max_string_bytes) s)))"

section \<open>Reconciling only one pass at a time\<close>

definition begin_reconcile :: "bool \<Rightarrow> workspace_document \<Rightarrow> bool \<times> workspace_document" where
  "begin_reconcile has_panes d =
    (if wd_reconciling d then (False, d\<lparr>wd_kicked := True\<rparr>)
     else if has_panes then (True, d\<lparr>wd_reconciling := True\<rparr>)
     else (False, d\<lparr>wd_reconciling := False, wd_kicked := False\<rparr>))"

definition finish_reconcile :: "workspace_document \<Rightarrow> bool \<times> workspace_document" where
  "finish_reconcile d = (wd_kicked d, d\<lparr>wd_reconciling := False, wd_kicked := False\<rparr>)"

text \<open>Nothing else kicks while one pass runs here, so the loop of the code ends after it.\<close>

definition reconcile_now :: "liveness_record list option \<Rightarrow> workspace_document \<Rightarrow> subscriber_store \<Rightarrow> workspace_document \<times> subscriber_store" where
  "reconcile_now capture d st =
    (if wd_subscribers d = [] then (d, st)
     else case begin_reconcile (capture \<noteq> None) d of
       (False, d) \<Rightarrow> (d, st)
     | (True, d) \<Rightarrow>
         let (_, d, st) = doc_reconcile (case capture of None \<Rightarrow> [] | Some c \<Rightarrow> c) d st;
             (_, d) = finish_reconcile d
         in (d, st))"

text \<open>An intent, once the applier has decided on the present document: its status and, when applied, the document it
  asks for.\<close>

definition apply_decided :: "intent_status \<Rightarrow> host_state \<Rightarrow> workspace_document \<Rightarrow> subscriber_store \<Rightarrow> workspace_document \<times> subscriber_store" where
  "apply_decided status written d st =
    (if status \<noteq> Intent_Applied then (d, st)
     else let d = d\<lparr>wd_pristine := False\<rparr>
          in if written \<noteq> wd_state d then bump (d\<lparr>wd_state := written\<rparr>) st else (d, st))"

section \<open>Subscribers\<close>

text \<open>The roster is sorted by the client's identity, bytewise; the pane half is what the server's pane maps answer.\<close>

definition roster_of :: "roster_pane list \<Rightarrow> workspace_document \<Rightarrow> subscriber_store \<Rightarrow> presence_roster" where
  "roster_of panes d st =
    \<lparr>ro_clients = sort_key rc_client_instance_id (concat (map (\<lambda>i. case st i of None \<Rightarrow> [] | Some s \<Rightarrow> [roster_record s]) (wd_subscribers d))),
     ro_panes = panes\<rparr>"

definition broadcast_roster :: "roster_pane list \<Rightarrow> workspace_document \<Rightarrow> subscriber_store \<Rightarrow> subscriber_store" where
  "broadcast_roster panes d st = fold (\<lambda>i. on_subscriber i (deliver_roster (roster_of panes d st))) (wd_subscribers d) st"

definition offer_current :: "raw_uuid \<Rightarrow> workspace_document \<Rightarrow> subscriber_store \<Rightarrow> subscriber_store" where
  "offer_current i d st = on_subscriber i (deliver_state (wd_epoch d) (wd_state_num d) (wd_state d)) st"

definition add_subscriber :: "raw_uuid \<Rightarrow> roster_pane list \<Rightarrow> workspace_document \<Rightarrow> subscriber_store \<Rightarrow> workspace_document \<times> subscriber_store" where
  "add_subscriber i panes d st =
    (let d = d\<lparr>wd_subscribers := wd_subscribers d @ [i]\<rparr> in (d, broadcast_roster panes d (offer_current i d st)))"

definition doc_remove_subscriber :: "raw_uuid \<Rightarrow> roster_pane list \<Rightarrow> workspace_document \<Rightarrow> subscriber_store \<Rightarrow> workspace_document \<times> subscriber_store" where
  "doc_remove_subscriber i panes d st =
    (if i \<notin> set (wd_subscribers d) then (d, st)
     else let d = d\<lparr>wd_subscribers := remove1 i (wd_subscribers d)\<rparr>
          in (d, broadcast_roster panes d (on_subscriber i close_subscriber st)))"

definition doc_note_ack :: "raw_uuid \<Rightarrow> int \<Rightarrow> workspace_document \<Rightarrow> subscriber_store \<Rightarrow> subscriber_store" where
  "doc_note_ack i n d st = (if i \<in> set (wd_subscribers d) then on_subscriber i (note_ack n) st else st)"

definition doc_note_resubscribe :: "raw_uuid \<Rightarrow> workspace_subscribe \<Rightarrow> roster_pane list \<Rightarrow> workspace_document \<Rightarrow> subscriber_store \<Rightarrow> subscriber_store" where
  "doc_note_resubscribe i request panes d st =
    (if i \<in> set (wd_subscribers d)
     then broadcast_roster panes d (offer_current i d (on_subscriber i (note_resubscribe request) st)) else st)"

definition doc_shutdown :: "workspace_document \<Rightarrow> subscriber_store \<Rightarrow> workspace_document \<times> subscriber_store" where
  "doc_shutdown d st = (d\<lparr>wd_subscribers := []\<rparr>, fold (\<lambda>i. on_subscriber i close_subscriber) (wd_subscribers d) st)"

section \<open>The channel service\<close>

record workspace_service =
  sv_document :: workspace_document
  sv_store :: subscriber_store
  sv_subscribed :: "raw_uuid \<Rightarrow> raw_uuid option"

definition service_new :: "workspace_document \<Rightarrow> workspace_service" where
  "service_new d = \<lparr>sv_document = d, sv_store = (\<lambda>_. None), sv_subscribed = (\<lambda>_. None)\<rparr>"

text \<open>What a handler gets from outside: the id minted for a fresh subscriber, which may fail; the pane maps' roster and,
  when a server is wired in, their capture; and what the intent applier decides.\<close>

record outside =
  os_minted :: "raw_uuid option"
  os_roster :: "roster_pane list"
  os_capture :: "liveness_record list option"
  os_decided :: "intent_status \<times> host_state"

definition apply_subscribe :: "raw_uuid \<Rightarrow> workspace_subscribe \<Rightarrow> outside \<Rightarrow> workspace_service \<Rightarrow> workspace_service" where
  "apply_subscribe connection request x sv =
    (case sv_subscribed sv connection of
       Some i \<Rightarrow> sv\<lparr>sv_store := doc_note_resubscribe i request (os_roster x) (sv_document sv) (sv_store sv)\<rparr>
     | None \<Rightarrow>
         (case os_minted x of
            None \<Rightarrow> sv
          | Some i \<Rightarrow>
              let st = (sv_store sv)(i := Some (start_pump (subscriber_new request)));
                  (d, st) = add_subscriber i (os_roster x) (sv_document sv) st;
                  (d, st) = reconcile_now (os_capture x) d st
              in sv\<lparr>sv_document := d, sv_store := st, sv_subscribed := (sv_subscribed sv)(connection := Some i)\<rparr>))"

definition drop_subscriber :: "raw_uuid \<Rightarrow> roster_pane list \<Rightarrow> workspace_service \<Rightarrow> workspace_service" where
  "drop_subscriber connection panes sv =
    (case sv_subscribed sv connection of
       None \<Rightarrow> sv
     | Some i \<Rightarrow>
         let (d, st) = doc_remove_subscriber i panes (sv_document sv) (sv_store sv)
         in sv\<lparr>sv_document := d, sv_store := st, sv_subscribed := (sv_subscribed sv)(connection := None)\<rparr>)"

text \<open>The dispatch of a request: malformed bodies, unknown verbs and connections without a subscriber are dropped.\<close>

definition handle_request :: "raw_uuid \<Rightarrow> u8 \<Rightarrow> bytes \<Rightarrow> outside \<Rightarrow> workspace_service \<Rightarrow> workspace_service" where
  "handle_request connection verb payload x sv =
    (case verb_from_byte verb of
       Some Verb_Subscribe \<Rightarrow>
         (case subscribe_decode payload of Inl _ \<Rightarrow> sv | Inr request \<Rightarrow> apply_subscribe connection request x sv)
     | Some Verb_Ack \<Rightarrow>
         (case (decode_cell_i64 payload, sv_subscribed sv connection) of
            (Some n, Some i) \<Rightarrow> sv\<lparr>sv_store := doc_note_ack i n (sv_document sv) (sv_store sv)\<rparr>
          | _ \<Rightarrow> sv)
     | Some Verb_Presence \<Rightarrow>
         (case (update_decode payload, sv_subscribed sv connection) of
            (Inr update, Some i) \<Rightarrow>
              (case sv_store sv i of
                 None \<Rightarrow> sv
               | Some s \<Rightarrow>
                   let (newer, s) = note_presence update s;
                       st = (sv_store sv)(i := Some s)
                   in sv\<lparr>sv_store := (if newer then broadcast_roster (os_roster x) (sv_document sv) st else st)\<rparr>)
          | _ \<Rightarrow> sv)
     | Some Verb_Intent \<Rightarrow>
         (case (intent_decode payload, sv_subscribed sv connection) of
            (Inr intent, Some i) \<Rightarrow>
              (let (status, written) = os_decided x;
                   (d, st) = apply_decided status written (sv_document sv) (sv_store sv);
                   st = on_subscriber i (deliver_result \<lparr>ir_intent_id = wi_intent_id intent, ir_status = status_as_byte status\<rparr>) st;
                   (d, st) = (if status = Intent_Applied then reconcile_now (os_capture x) d st else (d, st))
               in sv\<lparr>sv_document := d, sv_store := st\<rparr>)
          | _ \<Rightarrow> sv)
     | None \<Rightarrow> sv)"

definition service_shutdown :: "workspace_service \<Rightarrow> workspace_service" where
  "service_shutdown sv =
    (let (d, st) = doc_shutdown (sv_document sv) (sv_store sv)
     in sv\<lparr>sv_document := d, sv_store := st, sv_subscribed := (\<lambda>_. None)\<rparr>)"

section \<open>Every version is published once, and offers name published versions\<close>

definition record_version :: "workspace_document \<Rightarrow> history \<Rightarrow> history" where
  "record_version d pub = (\<lambda>e n. if e = wd_epoch d \<and> n = wd_state_num d then Some (wd_state d) else pub e n)"

definition history_ok :: "history \<Rightarrow> bool" where
  "history_ok pub \<longleftrightarrow> (\<forall>e n st. pub e n = Some st \<longrightarrow> 0 < n \<and> state_ok st)"

definition document_ok :: "history \<Rightarrow> int \<Rightarrow> workspace_document \<Rightarrow> bool" where
  "document_ok pub M d \<longleftrightarrow> pub (wd_epoch d) (wd_state_num d) = Some (wd_state d) \<and> wd_state_num d \<le> M \<and>
     (\<forall>n>wd_state_num d. pub (wd_epoch d) n = None)"

definition store_ok :: "history \<Rightarrow> nat \<Rightarrow> subscriber_store \<Rightarrow> bool" where
  "store_ok pub N st \<longleftrightarrow> (\<forall>i s. st i = Some s \<longrightarrow> subscriber_ok pub N s)"

definition host_ok :: "history \<Rightarrow> nat \<Rightarrow> int \<Rightarrow> workspace_document \<Rightarrow> subscriber_store \<Rightarrow> bool" where
  "host_ok pub N M d st \<longleftrightarrow> history_ok pub \<and> document_ok pub M d \<and> store_ok pub N st"

definition evolves :: "history \<Rightarrow> nat \<Rightarrow> int \<Rightarrow> workspace_document \<Rightarrow> workspace_document \<times> subscriber_store \<Rightarrow> bool" where
  "evolves pub N M d x \<longleftrightarrow>
     history_le pub (record_version (fst x) pub) \<and> host_ok (record_version (fst x) pub) N M (fst x) (snd x) \<and> wd_epoch (fst x) = wd_epoch d"

lemma store_ok_mono: "history_le pub pub' \<Longrightarrow> N \<le> N' \<Longrightarrow> store_ok pub N st \<Longrightarrow> store_ok pub' N' st"
  using subscriber_ok_mono by (auto simp: store_ok_def)

lemma store_ok_upd: "store_ok pub N st \<Longrightarrow> subscriber_ok pub N s \<Longrightarrow> store_ok pub N (st(i := Some s))"
  by (simp add: store_ok_def)

lemma on_subscriber_ok:
  "store_ok pub N st \<Longrightarrow> (\<And>s. subscriber_ok pub N s \<Longrightarrow> subscriber_ok pub N (f s)) \<Longrightarrow> store_ok pub N (on_subscriber i f st)"
  by (auto simp: store_ok_def on_subscriber_def split: option.split)

lemma fold_on_subscriber_ok:
  assumes "store_ok pub N st" "\<And>s. subscriber_ok pub N s \<Longrightarrow> subscriber_ok pub N (f s)"
  shows "store_ok pub N (fold (\<lambda>i. on_subscriber i f) is st)"
  using assms(1) by (induction "is" arbitrary: st) (simp_all add: on_subscriber_ok assms(2))

lemma record_same: "document_ok pub M d \<Longrightarrow> record_version d pub = pub"
  by (auto simp: record_version_def document_ok_def fun_eq_iff)

lemma record_cong:
  "wd_epoch d = wd_epoch d' \<Longrightarrow> wd_state_num d = wd_state_num d' \<Longrightarrow> wd_state d = wd_state d' \<Longrightarrow> record_version d pub = record_version d' pub"
  by (simp add: record_version_def cong: if_cong)

text \<open>A change of bookkeeping alone, with a sound store, is no new version.\<close>

lemma evolves_same:
  assumes "host_ok pub N M d st" "store_ok pub N st'" "wd_epoch d' = wd_epoch d" "wd_state_num d' = wd_state_num d" "wd_state d' = wd_state d"
  shows "evolves pub N M d (d', st')"
proof -
  have "record_version d' pub = record_version d pub" using assms(3-5) by (rule record_cong)
  also have "\<dots> = pub" by (rule record_same [of pub M]) (use assms(1) in \<open>simp add: host_ok_def\<close>)
  finally show ?thesis using assms by (simp add: evolves_def host_ok_def document_ok_def)
qed

lemma bump_evolves:
  assumes h: "host_ok pub N M d st" and d: "wd_epoch d0 = wd_epoch d" "wd_state_num d0 = wd_state_num d" "state_ok (wd_state d0)"
    and room: "M < i64_max"
  shows "evolves pub N (M + 1) d (bump d0 st)"
proof -
  let ?n = "wd_state_num d + 1" and ?d = "d0\<lparr>wd_state_num := wd_state_num d + 1\<rparr>"
  let ?st = "fold (\<lambda>i. on_subscriber i (deliver_state (wd_epoch d) ?n (wd_state d0))) (wd_subscribers d0) st"
  have n: "min i64_max ?n = ?n" "wd_state_num d \<le> M" "0 < wd_state_num d" using h room by (auto simp: host_ok_def document_ok_def history_ok_def)
  have b: "bump d0 st = (?d, ?st)" using n d by (simp add: bump_def Let_def)
  let ?pub = "record_version ?d pub"
  have fresh: "pub (wd_epoch d) ?n = None" using h by (simp add: host_ok_def document_ok_def)
  then have le: "history_le pub ?pub" using d by (auto simp: history_le_def record_version_def)
  have now: "?pub (wd_epoch d) ?n = Some (wd_state d0)" using d by (simp add: record_version_def)
  have "store_ok ?pub N ?st"
    using store_ok_mono [OF le order_refl] h inputs_ok(1) [where epoch = "wd_epoch d" and n = ?n and st = "wd_state d0" and pub = ?pub] now
    by (intro fold_on_subscriber_ok) (simp_all add: host_ok_def)
  moreover have "history_ok ?pub" using h n d by (auto simp: host_ok_def history_ok_def record_version_def)
  moreover have "document_ok ?pub (M + 1) ?d" using h n d by (auto simp: host_ok_def document_ok_def record_version_def)
  ultimately show ?thesis using le d by (simp add: evolves_def b host_ok_def)
qed

lemma host_ok_bound: "host_ok pub N M d st \<Longrightarrow> M \<le> M' \<Longrightarrow> host_ok pub N M' d st"
  by (auto simp: host_ok_def document_ok_def)

lemma evolves_bound: "evolves pub N M d x \<Longrightarrow> M \<le> M' \<Longrightarrow> evolves pub N M' d x"
  using host_ok_bound by (auto simp: evolves_def)

lemma mutate_evolves:
  assumes h: "host_ok pub N M d st" and body: "state_ok (wd_state d) \<Longrightarrow> state_ok (body (wd_state d))" and room: "M < i64_max"
  shows "evolves pub N (M + 1) d (snd (mutate body d st))"
proof (cases "body (wd_state d) = wd_state d")
  case True
  have "evolves pub N M d (d, st)" using h by (intro evolves_same) (auto simp: host_ok_def)
  then show ?thesis using True evolves_bound [of pub N M d "(d, st)" "M + 1"] by (simp add: mutate_def)
next
  case False
  have "state_ok (wd_state d)" using h by (auto simp: host_ok_def document_ok_def history_ok_def)
  then show ?thesis using False bump_evolves [OF h _ _ _ room, of "d\<lparr>wd_state := body (wd_state d)\<rparr>"] body by (simp add: mutate_def Let_def)
qed

section \<open>What the bodies keep\<close>

lemma state_ok_get: "state_ok s \<longleftrightarrow> sorted_state s \<and> (\<forall>k. state_get k s \<noteq> None \<longrightarrow> uuid_ok (wk_object_id k))"
  by (auto simp: state_ok_def state_keys_get)

lemma merge_ok: "state_ok s \<Longrightarrow> uuid_ok (pl_pane_id r) \<Longrightarrow> state_ok (snd (merge_pane_liveness s r))"
  by (auto simp: state_ok_get merge_laws pane_cell_def)

lemma reconcile_ok:
  assumes "state_ok s" "\<forall>r\<in>set captured. uuid_ok (pl_pane_id r)"
  shows "state_ok (snd (reconcile s captured))"
proof -
  have 1: "state_ok (snd (fold merge_captured captured x))" if "state_ok (snd x)" for x
    using that assms(2) by (induction captured arbitrary: x) (simp_all add: merge_captured_def merge_ok split_beta)
  have 2: "state_ok (snd (fold (settle_pane arranged) is x))" if "state_ok (snd x)" "\<forall>i\<in>set is. uuid_ok i" for "is" arranged x
    using that
  proof (induction "is" arbitrary: x)
    case (Cons i "is")
    have "state_ok (remove_object (kind_as_byte Pane) i (snd x))"
      using Cons.prems(1) by (simp add: state_ok_get remove_object_laws)
    then show ?case using Cons merge_ok [of "snd x" "dead_record (snd x) i"]
      by (simp add: settle_pane_def mark_pane_dead_def split_beta)
  qed simp
  obtain c1 s1 where p: "fold merge_captured captured (False, s) = (c1, s1)" by force
  have s1: "state_ok s1" using 1 [of "(False, s)"] assms(1) p by simp
  obtain known arranged where inv: "pane_inventory s1 = (known, arranged)" by force
  have "\<forall>i\<in>set known. uuid_ok i"
    using s1 inventory_sets(1) [where s = s1] inv by (force simp: state_ok_get has_pane_def pane_cell_def)
  then show ?thesis using 2 [of "(c1, s1)"] s1 by (simp add: reconcile_def p inv Let_def)
qed

section \<open>Handlers\<close>

lemma broadcast_ok: "store_ok pub N st \<Longrightarrow> store_ok pub N (broadcast_roster panes d st)"
  unfolding broadcast_roster_def by (rule fold_on_subscriber_ok) (simp_all add: inputs_ok)

lemma offer_current_ok: "document_ok pub M d \<Longrightarrow> store_ok pub N st \<Longrightarrow> store_ok pub N (offer_current i d st)"
  unfolding offer_current_def by (rule on_subscriber_ok) (simp_all add: inputs_ok document_ok_def)

lemma add_subscriber_evolves:
  assumes "host_ok pub N M d st"
  shows "evolves pub N M d (add_subscriber i panes d st)"
proof -
  have "document_ok pub M (d\<lparr>wd_subscribers := wd_subscribers d @ [i]\<rparr>)" using assms by (simp add: host_ok_def document_ok_def)
  then have "store_ok pub N (broadcast_roster panes (d\<lparr>wd_subscribers := wd_subscribers d @ [i]\<rparr>) (offer_current i (d\<lparr>wd_subscribers := wd_subscribers d @ [i]\<rparr>) st))"
    using assms by (intro broadcast_ok offer_current_ok) (simp_all add: host_ok_def)
  then show ?thesis using evolves_same [OF assms] by (simp add: add_subscriber_def Let_def)
qed

lemma doc_remove_subscriber_evolves:
  assumes "host_ok pub N M d st"
  shows "evolves pub N M d (doc_remove_subscriber i panes d st)"
proof -
  have "store_ok pub N (broadcast_roster panes (d\<lparr>wd_subscribers := remove1 i (wd_subscribers d)\<rparr>) (on_subscriber i close_subscriber st))"
    using assms by (intro broadcast_ok on_subscriber_ok close_subscriber_ok) (simp_all add: host_ok_def)
  moreover have "store_ok pub N st" using assms by (simp add: host_ok_def)
  ultimately show ?thesis using evolves_same [OF assms] by (simp add: doc_remove_subscriber_def Let_def)
qed

lemma doc_note_resubscribe_ok:
  assumes "host_ok pub N M d st"
  shows "store_ok pub N (doc_note_resubscribe i request panes d st)"
proof -
  have "store_ok pub N (on_subscriber i (note_resubscribe request) st)" using assms by (intro on_subscriber_ok inputs_ok) (simp_all add: host_ok_def)
  then show ?thesis using assms unfolding doc_note_resubscribe_def by (auto intro!: broadcast_ok offer_current_ok simp: host_ok_def)
qed

lemma reconcile_now_evolves:
  assumes h: "host_ok pub N M d st" and c: "\<forall>r\<in>set (case capture of None \<Rightarrow> [] | Some c \<Rightarrow> c). uuid_ok (pl_pane_id r)" and room: "M < i64_max"
  shows "evolves pub N (M + 1) d (reconcile_now capture d st)"
proof -
  have same: "evolves pub N (M + 1) d (d', st)" if "wd_epoch d' = wd_epoch d" "wd_state_num d' = wd_state_num d" "wd_state d' = wd_state d" for d'
    using evolves_bound [OF evolves_same [OF h _ that], of st "M + 1"] h by (simp add: host_ok_def)
  show ?thesis
  proof (cases "wd_subscribers d = [] \<or> wd_reconciling d \<or> capture = None")
    case True
    then show ?thesis using same by (auto simp: reconcile_now_def begin_reconcile_def)
  next
    case False
    then obtain cs where cs: "capture = Some cs" by blast
    let ?d = "d\<lparr>wd_reconciling := True\<rparr>"
    have h': "host_ok pub N M ?d st" using h by (simp add: host_ok_def document_ok_def)
    obtain b d2 st2 where m: "doc_reconcile cs ?d st = (b, d2, st2)" by (metis prod_cases3)
    have e: "evolves pub N (M + 1) ?d (d2, st2)"
      using mutate_evolves [OF h' _ room, of "\<lambda>s. snd (reconcile s cs)"] reconcile_ok c m cs by (simp add: doc_reconcile_def)
    let ?d3 = "d2\<lparr>wd_reconciling := False, wd_kicked := False\<rparr>"
    have "record_version ?d3 pub = record_version d2 pub" by (rule record_cong) simp_all
    then have "evolves pub N (M + 1) d (?d3, st2)" using e by (auto simp: evolves_def host_ok_def document_ok_def)
    then show ?thesis using False m cs by (simp add: reconcile_now_def begin_reconcile_def finish_reconcile_def)
  qed
qed

lemma apply_decided_evolves:
  assumes h: "host_ok pub N M d st" and w: "state_ok written" and room: "M < i64_max"
  shows "evolves pub N (M + 1) d (apply_decided status written d st)"
proof -
  have same: "evolves pub N (M + 1) d (d', st)" if "wd_epoch d' = wd_epoch d" "wd_state_num d' = wd_state_num d" "wd_state d' = wd_state d" for d'
    using evolves_bound [OF evolves_same [OF h _ that], of st "M + 1"] h by (simp add: host_ok_def)
  show ?thesis
    using same bump_evolves [OF h _ _ _ room, of "d\<lparr>wd_pristine := False, wd_state := written\<rparr>"] w
    by (simp add: apply_decided_def Let_def)
qed

end
