(* ===== verification/Workspace_Mirror.thy ===== *)
theory Workspace_Mirror
  imports Workspace_Codec Complex_Main
begin

text \<open>
  A client's replica of the workspace document (\<open>slopdesk-wire/src/document/mirror.rs\<close>): host truth, the overlay
  that control pushes write, and the optimistic patches of unanswered intents; what a frame does to them, and
  the reads through the layers. Clock readings are rational numbers. The topology a person arranged
  and the rule that applies an intent to it are not modelled: staging takes the two topology projections, before
  and after, that the code computes with them.
\<close>

section \<open>The replica\<close>

definition pending_timeout :: rat where
  "pending_timeout = 3"

datatype apply_outcome = Applied int | Ignored | NeedsResubscribe | Dropped | Reset

fun outcome_tag :: "apply_outcome \<Rightarrow> u8" where
  "outcome_tag (Applied _) = 0"
| "outcome_tag Ignored = 1"
| "outcome_tag NeedsResubscribe = 2"
| "outcome_tag Dropped = 3"
| "outcome_tag Reset = 4"

fun outcome_state_num :: "apply_outcome \<Rightarrow> int" where
  "outcome_state_num (Applied n) = n"
| "outcome_state_num _ = 0"

record pending_patch =
  pp_intent_id :: raw_uuid
  pp_sets :: "(workspace_key \<times> bytes) list"
  pp_deletes :: "workspace_key list"
  pp_issued_at :: rat
  pp_retire_at_frame :: "u64 option"

record workspace_mirror =
  wm_epoch :: "raw_uuid option"
  wm_state_num :: int
  wm_entries :: host_state
  wm_fast_path :: "(workspace_key \<times> bytes) list"
  wm_pending :: "pending_patch list"
  wm_frames_applied :: u64

definition mirror_new :: workspace_mirror where
  "mirror_new = \<lparr>wm_epoch = None, wm_state_num = 0, wm_entries = state_new, wm_fast_path = [], wm_pending = [], wm_frames_applied = 0\<rparr>"

definition known_state_num :: "workspace_mirror \<Rightarrow> int" where
  "known_state_num m = (if wm_epoch m \<noteq> None then wm_state_num m else 0)"

section \<open>Frames\<close>

definition retire_fast_path :: "workspace_key list \<Rightarrow> workspace_mirror \<Rightarrow> workspace_mirror" where
  "retire_fast_path supplied m =
    (if wm_fast_path m = [] then m else m\<lparr>wm_fast_path := fold bt_remove supplied (wm_fast_path m)\<rparr>)"

definition note_document_frame :: "workspace_mirror \<Rightarrow> workspace_mirror" where
  "note_document_frame m =
    (let watermark = wm_frames_applied m + 1
     in m\<lparr>wm_frames_applied := watermark,
          wm_pending := filter (\<lambda>p. case pp_retire_at_frame p of None \<Rightarrow> True | Some frame \<Rightarrow> watermark < frame) (wm_pending m)\<rparr>)"

definition apply_snapshot :: "raw_uuid \<Rightarrow> int \<Rightarrow> bytes \<Rightarrow> workspace_mirror \<Rightarrow> apply_outcome \<times> workspace_mirror" where
  "apply_snapshot epoch new_state_num payload m =
    (case decode_snapshot payload of
       Inl _ \<Rightarrow> (Dropped, m)
     | Inr decoded \<Rightarrow>
         let supplied = state_keys decoded;
             m = m\<lparr>wm_entries := decoded, wm_epoch := Some epoch, wm_state_num := new_state_num\<rparr>
         in (Applied new_state_num, note_document_frame (retire_fast_path supplied m)))"

definition apply_diff_frame :: "raw_uuid \<Rightarrow> int \<Rightarrow> int \<Rightarrow> bytes \<Rightarrow> workspace_mirror \<Rightarrow> apply_outcome \<times> workspace_mirror" where
  "apply_diff_frame epoch base new payload m =
    (if wm_epoch m \<noteq> Some epoch then (NeedsResubscribe, m)
     else if new \<le> wm_state_num m then (Ignored, m)
     else if base \<noteq> wm_state_num m then (NeedsResubscribe, m)
     else case decode_diff payload of
       Inl _ \<Rightarrow> (Dropped, m)
     | Inr d \<Rightarrow>
         let supplied = map we_key (sd_sets d) @ sd_deletes d;
             m = m\<lparr>wm_entries := state_apply d (wm_entries m), wm_state_num := new\<rparr>
         in (Applied new, note_document_frame (retire_fast_path supplied m)))"

definition apply_reset :: "raw_uuid \<Rightarrow> workspace_mirror \<Rightarrow> apply_outcome \<times> workspace_mirror" where
  "apply_reset epoch m =
    (Reset, m\<lparr>wm_entries := state_new, wm_epoch := Some epoch, wm_state_num := 0, wm_pending := []\<rparr>)"

definition mirror_apply :: "u8 \<Rightarrow> raw_uuid \<Rightarrow> int \<Rightarrow> int \<Rightarrow> bytes \<Rightarrow> workspace_mirror \<Rightarrow> apply_outcome \<times> workspace_mirror" where
  "mirror_apply kind epoch base_state_num new_state_num payload m =
    (if kind = 0 then apply_snapshot epoch new_state_num payload m
     else if kind = 1 then apply_diff_frame epoch base_state_num new_state_num payload m
     else if kind = 4 then apply_reset epoch m
     else (Dropped, m))"

definition forget :: "workspace_mirror \<Rightarrow> workspace_mirror" where
  "forget m = mirror_new"

section \<open>The overlay\<close>

definition pane_kind :: u8 where
  "pane_kind = kind_as_byte Pane"

definition pane_liveness :: u8 where
  "pane_liveness = 17"

definition write_fast_path :: "workspace_key \<Rightarrow> bytes option \<Rightarrow> workspace_mirror \<Rightarrow> bool \<times> workspace_mirror" where
  "write_fast_path key value m =
    (if state_get key (wm_entries m) \<noteq> None then (False, m)
     else case value of
       Some bs \<Rightarrow>
         if map_of (wm_fast_path m) key = Some bs then (False, m)
         else (True, m\<lparr>wm_fast_path := bt_insert key bs (wm_fast_path m)\<rparr>)
     | None \<Rightarrow> (map_of (wm_fast_path m) key \<noteq> None, m\<lparr>wm_fast_path := bt_remove key (wm_fast_path m)\<rparr>))"

definition clear_fast_path :: "raw_uuid \<Rightarrow> workspace_mirror \<Rightarrow> workspace_mirror" where
  "clear_fast_path pane_id m =
    m\<lparr>wm_fast_path := filter (\<lambda>(key, _). \<not> (wk_kind key = pane_kind \<and> wk_object_id key = pane_id)) (wm_fast_path m)\<rparr>"

definition fast_path_holds :: "workspace_key \<Rightarrow> workspace_mirror \<Rightarrow> bool" where
  "fast_path_holds key m \<longleftrightarrow> map_of (wm_fast_path m) key \<noteq> None"

definition fast_path_pane_ids :: "workspace_mirror \<Rightarrow> raw_uuid list" where
  "fast_path_pane_ids m = remdups_adj (map wk_object_id (filter (\<lambda>key. wk_kind key = pane_kind) (map fst (wm_fast_path m))))"

section \<open>Optimistic patches\<close>

definition stage_patch :: "raw_uuid \<Rightarrow> host_state \<Rightarrow> host_state \<Rightarrow> rat \<Rightarrow> workspace_mirror \<Rightarrow> workspace_mirror" where
  "stage_patch intent_id before after issued_at m =
    (let d = diff_from after before;
         kept = filter (\<lambda>p. pp_intent_id p \<noteq> intent_id) (wm_pending m)
     in m\<lparr>wm_pending := kept @
            [\<lparr>pp_intent_id = intent_id,
              pp_sets = fold (\<lambda>(k, v). bt_insert k v) (map (\<lambda>e. (we_key e, we_value e)) (sd_sets d)) [],
              pp_deletes = remdups (sort (sd_deletes d)), pp_issued_at = issued_at, pp_retire_at_frame = None\<rparr>]\<rparr>)"

definition u64_saturating_succ :: "u64 \<Rightarrow> u64" where
  "u64_saturating_succ n = (if n = - 1 then - 1 else n + 1)"

text \<open>The position of the first match, and what happens there.\<close>

definition note_intent_result :: "raw_uuid \<Rightarrow> bool \<Rightarrow> workspace_mirror \<Rightarrow> bool \<times> workspace_mirror" where
  "note_intent_result intent_id applied m =
    (let index = length (takeWhile (\<lambda>p. pp_intent_id p \<noteq> intent_id) (wm_pending m)) in
     if length (wm_pending m) \<le> index then (False, m)
     else if \<not> applied then (True, m\<lparr>wm_pending := take index (wm_pending m) @ drop (Suc index) (wm_pending m)\<rparr>)
     else (True, m\<lparr>wm_pending := (wm_pending m)[index := (wm_pending m ! index)\<lparr>pp_retire_at_frame := Some (u64_saturating_succ (wm_frames_applied m))\<rparr>]\<rparr>))"

definition expire_pending :: "rat \<Rightarrow> rat \<Rightarrow> workspace_mirror \<Rightarrow> bool \<times> workspace_mirror" where
  "expire_pending now timeout m =
    (let kept = filter (\<lambda>p. pp_retire_at_frame p \<noteq> None \<or> now - pp_issued_at p < timeout) (wm_pending m)
     in (length kept \<noteq> length (wm_pending m), m\<lparr>wm_pending := kept\<rparr>))"

definition drop_pending :: "raw_uuid \<Rightarrow> workspace_mirror \<Rightarrow> bool \<times> workspace_mirror" where
  "drop_pending intent_id m =
    (let kept = filter (\<lambda>p. pp_intent_id p \<noteq> intent_id) (wm_pending m)
     in (length kept \<noteq> length (wm_pending m), m\<lparr>wm_pending := kept\<rparr>))"

definition pending_count :: "workspace_mirror \<Rightarrow> nat" where
  "pending_count m = length (wm_pending m)"

definition is_pending :: "raw_uuid \<Rightarrow> workspace_mirror \<Rightarrow> bool" where
  "is_pending intent_id m \<longleftrightarrow> (\<exists>p\<in>set (wm_pending m). pp_intent_id p = intent_id)"

section \<open>Reads\<close>

text \<open>The newest patch that names the cell decides; otherwise host truth, then the overlay.\<close>

fun pending_value :: "workspace_key \<Rightarrow> pending_patch list \<Rightarrow> bytes option option" where
  "pending_value key [] = None"
| "pending_value key (p # ps) =
    (case map_of (pp_sets p) key of
       Some v \<Rightarrow> Some (Some v)
     | None \<Rightarrow> if key \<in> set (pp_deletes p) then Some None else pending_value key ps)"

definition mirror_value :: "workspace_key \<Rightarrow> workspace_mirror \<Rightarrow> bytes option" where
  "mirror_value key m =
    (case pending_value key (rev (wm_pending m)) of
       Some answer \<Rightarrow> answer
     | None \<Rightarrow> (case state_get key (wm_entries m) of Some v \<Rightarrow> Some v | None \<Rightarrow> map_of (wm_fast_path m) key))"

definition resolved :: "workspace_mirror \<Rightarrow> host_state" where
  "resolved m =
    (let out = wm_entries m;
         out = fold (\<lambda>(key, v) out. if state_get key out = None then state_set key v out else out) (wm_fast_path m) out
     in fold (\<lambda>p out. fold (\<lambda>key out. snd (set_or_clear key None out)) (pp_deletes p)
                       (fold (\<lambda>(key, v) out. state_set key v out) (pp_sets p) out))
          (wm_pending m) out)"

definition mirror_pane_ids :: "workspace_mirror \<Rightarrow> raw_uuid list" where
  "mirror_pane_ids m = map wk_object_id (filter (\<lambda>key. wk_kind key = pane_kind \<and> wk_field key = pane_liveness) (state_keys (wm_entries m)))"

section \<open>Any use of a replica\<close>

datatype mirror_op =
    Frame u8 raw_uuid int int bytes
  | Forget
  | Push workspace_key "bytes option"
  | Close_Pane raw_uuid
  | Stage raw_uuid host_state host_state rat
  | Verdict raw_uuid bool
  | Expire rat rat
  | Drop raw_uuid

fun mirror_step :: "mirror_op \<Rightarrow> workspace_mirror \<Rightarrow> workspace_mirror" where
  "mirror_step (Frame k e b n p) m = snd (mirror_apply k e b n p m)"
| "mirror_step Forget m = forget m"
| "mirror_step (Push k v) m = snd (write_fast_path k v m)"
| "mirror_step (Close_Pane i) m = clear_fast_path i m"
| "mirror_step (Stage i before after issued) m = stage_patch i before after issued m"
| "mirror_step (Verdict i ok) m = snd (note_intent_result i ok m)"
| "mirror_step (Expire now timeout) m = snd (expire_pending now timeout m)"
| "mirror_step (Drop i) m = snd (drop_pending i m)"

text \<open>The layers of a replica: sorted maps, an overlay only where host truth has nothing, patches that do not both
  set and delete a cell.\<close>

definition patch_ok :: "pending_patch \<Rightarrow> bool" where
  "patch_ok p \<longleftrightarrow> bt_sorted (pp_sets p) \<and> fst ` set (pp_sets p) \<inter> set (pp_deletes p) = {}"

definition mirror_ok :: "workspace_mirror \<Rightarrow> bool" where
  "mirror_ok m \<longleftrightarrow> bt_sorted (hs_entries (wm_entries m)) \<and> bt_sorted (wm_fast_path m) \<and>
     (\<forall>k. map_of (wm_fast_path m) k \<noteq> None \<longrightarrow> state_get k (wm_entries m) = None) \<and> (\<forall>p\<in>set (wm_pending m). patch_ok p)"

lemma from_entries_sorted [simp]: "bt_sorted (hs_entries (from_entries es))"
  using bt_insert_all(1) [of "[]" "map (\<lambda>e. (we_key e, we_value e)) es"] by (simp add: from_entries_def bt_sorted_def)

lemma decode_snapshot_sorted: "decode_snapshot data = Inr s \<Longrightarrow> bt_sorted (hs_entries s)"
  by (auto simp: decode_snapshot_def bind_res_Inr split: if_splits)

lemma state_get_keys: "state_get k s \<noteq> None \<longleftrightarrow> k \<in> set (state_keys s)"
  by (simp add: state_get_def state_keys_def map_of_eq_None_iff)

lemma retire_fast_path_fields [simp]:
  "wm_entries (retire_fast_path ks m) = wm_entries m" "wm_pending (retire_fast_path ks m) = wm_pending m"
  "wm_epoch (retire_fast_path ks m) = wm_epoch m" "wm_state_num (retire_fast_path ks m) = wm_state_num m"
  "wm_frames_applied (retire_fast_path ks m) = wm_frames_applied m"
  "wm_fast_path (retire_fast_path ks m) = fold bt_remove ks (wm_fast_path m)"
proof -
  have "fold bt_remove ks [] = ([] :: (workspace_key \<times> bytes) list)" by (induction ks) (simp_all add: bt_remove_def)
  then show "wm_fast_path (retire_fast_path ks m) = fold bt_remove ks (wm_fast_path m)" by (simp add: retire_fast_path_def)
qed (simp_all add: retire_fast_path_def)

lemma note_document_frame_fields [simp]:
  "wm_entries (note_document_frame m) = wm_entries m" "wm_fast_path (note_document_frame m) = wm_fast_path m"
  "wm_epoch (note_document_frame m) = wm_epoch m" "wm_state_num (note_document_frame m) = wm_state_num m"
  "set (wm_pending (note_document_frame m)) \<subseteq> set (wm_pending m)"
  by (auto simp: note_document_frame_def Let_def)

text \<open>Folding a frame keeps the layers when it supplies every cell it adds to host truth.\<close>

lemma state_apply_adds:
  assumes "bt_sorted (hs_entries s)" "state_get k (state_apply d s) \<noteq> None"
  shows "k \<in> we_key ` set (sd_sets d) \<or> state_get k s \<noteq> None"
  using assms(2) unfolding state_apply_get [OF assms(1)] map_add_def
  by (auto simp: state_get_def split: if_splits option.splits dest!: map_of_SomeD)

lemma patch_ok_retire [simp]: "patch_ok (p\<lparr>pp_retire_at_frame := x\<rparr>) = patch_ok p"
  by (simp add: patch_ok_def)

lemma fold_frame_ok:
  assumes m: "mirror_ok m" and s: "bt_sorted (hs_entries (wm_entries m'))" "wm_fast_path m' = wm_fast_path m" "wm_pending m' = wm_pending m"
    and supplied: "\<And>k. state_get k (wm_entries m') \<noteq> None \<Longrightarrow> k \<in> set ks \<or> state_get k (wm_entries m) \<noteq> None"
  shows "mirror_ok (note_document_frame (retire_fast_path ks m'))"
proof -
  have "state_get k (wm_entries m') = None" if "k \<notin> set ks" "map_of (wm_fast_path m) k \<noteq> None" for k
    using that m supplied [of k] by (cases "state_get k (wm_entries m')") (auto simp: mirror_ok_def)
  moreover have "\<forall>p\<in>set (wm_pending (note_document_frame (retire_fast_path ks m'))). patch_ok p"
    using m s(3) note_document_frame_fields(5) [of "retire_fast_path ks m'"] by (auto simp: mirror_ok_def)
  ultimately show ?thesis using m s by (auto simp: mirror_ok_def bt_remove_all split: if_splits)
qed

lemma mirror_apply_ok:
  assumes m: "mirror_ok m"
  shows "mirror_ok (snd (mirror_apply k e b n p m))"
proof -
  have snap: "mirror_ok (snd (apply_snapshot e n p m))"
  proof (cases "decode_snapshot p")
    case (Inr s)
    have "mirror_ok (note_document_frame (retire_fast_path (state_keys s) (m\<lparr>wm_entries := s, wm_epoch := Some e, wm_state_num := n\<rparr>)))"
      by (rule fold_frame_ok [OF m]) (use decode_snapshot_sorted [OF Inr] in \<open>simp_all flip: state_get_keys\<close>)
    then show ?thesis using Inr by (simp add: apply_snapshot_def)
  qed (use m in \<open>simp add: apply_snapshot_def\<close>)
  have diff: "mirror_ok (snd (apply_diff_frame e b n p m))"
  proof (cases "wm_epoch m = Some e \<and> \<not> n \<le> wm_state_num m \<and> b = wm_state_num m")
    case True
    have "mirror_ok (note_document_frame (retire_fast_path (map we_key (sd_sets d) @ sd_deletes d)
        (m\<lparr>wm_entries := state_apply d (wm_entries m), wm_state_num := n\<rparr>)))" for d
    proof (rule fold_frame_ok [OF m])
      let ?m = "m\<lparr>wm_entries := state_apply d (wm_entries m), wm_state_num := n\<rparr>"
      have sorted: "bt_sorted (hs_entries (wm_entries m))" using m by (simp add: mirror_ok_def)
      then show "bt_sorted (hs_entries (wm_entries ?m))" by simp
      show "k \<in> set (map we_key (sd_sets d) @ sd_deletes d) \<or> state_get k (wm_entries m) \<noteq> None"
        if "state_get k (wm_entries ?m) \<noteq> None" for k
        using state_apply_adds [OF sorted] that by auto
    qed simp_all
    then show ?thesis using True m by (auto simp: apply_diff_frame_def Let_def split: sum.split)
  qed (use m in \<open>auto simp: apply_diff_frame_def\<close>)
  have "mirror_ok (snd (apply_reset e m))" using m by (auto simp: apply_reset_def mirror_ok_def state_ok_def [symmetric] state_new_def bt_sorted_def state_get_def)
  then show ?thesis using snap diff m by (simp add: mirror_apply_def)
qed

lemma stage_patch_ok:
  assumes m: "mirror_ok m" and "bt_sorted (hs_entries before)" "bt_sorted (hs_entries after)"
  shows "mirror_ok (stage_patch i before after issued m)"
proof -
  let ?d = "diff_from after before"
  let ?sets = "fold (\<lambda>(k, v). bt_insert k v) (map (\<lambda>e. (we_key e, we_value e)) (sd_sets ?d)) []"
  have sorted: "bt_sorted ?sets" using bt_insert_all(1) [of "[]"] by (simp add: bt_sorted_def)
  have "map_of ?sets = map_of (rev (map (\<lambda>e. (we_key e, we_value e)) (sd_sets ?d)))"
    using bt_insert_all(2) [of "[]"] by (simp add: bt_sorted_def)
  then have "dom (map_of ?sets) = dom (map_of (rev (map (\<lambda>e. (we_key e, we_value e)) (sd_sets ?d))))" by (rule arg_cong)
  then have "fst ` set ?sets = we_key ` set (sd_sets ?d)" by (simp only: dom_map_of_conv_image_fst set_rev set_map image_image fst_conv)
  moreover have "we_key ` set (sd_sets ?d) \<inter> set (sd_deletes ?d) = {}"
    by (force simp: diff_from_def map_of_eq_None_iff)
  ultimately have "patch_ok \<lparr>pp_intent_id = i, pp_sets = ?sets, pp_deletes = remdups (sort (sd_deletes ?d)), pp_issued_at = issued, pp_retire_at_frame = None\<rparr>"
    using sorted by (auto simp: patch_ok_def)
  then show ?thesis using m by (auto simp: mirror_ok_def stage_patch_def Let_def)
qed

fun staged_ok :: "mirror_op \<Rightarrow> bool" where
  "staged_ok (Stage i before after issued) = (state_ok before \<and> state_ok after)"
| "staged_ok _ = True"

lemma mirror_step_ok:
  assumes m: "mirror_ok m" and st: "staged_ok op"
  shows "mirror_ok (mirror_step op m)"
proof (cases op)
  case (Frame k e b n p)
  then show ?thesis using mirror_apply_ok [OF m] by simp
next
  case Forget
  then show ?thesis by (simp add: forget_def mirror_ok_def mirror_new_def state_new_def bt_sorted_def)
next
  case (Push k v)
  then show ?thesis using m
    by (auto simp: write_fast_path_def mirror_ok_def bt_insert_sorted bt_insert_lookup bt_remove_sorted bt_remove_lookup split: option.splits if_splits)
next
  case (Close_Pane i)
  then show ?thesis using m
    by (auto simp: clear_fast_path_def mirror_ok_def bt_map_filter_sorted bt_filter_lookup split: option.splits if_splits)
next
  case (Stage i before after issued)
  then show ?thesis using stage_patch_ok [OF m] st by (simp add: state_ok_def)
next
  case (Verdict i ok)
  then show ?thesis using m
    by (auto simp: note_intent_result_def mirror_ok_def Let_def nth_mem not_le
        dest: in_set_takeD in_set_dropD dest!: subsetD [OF set_update_subset_insert])
next
  case (Expire now timeout)
  then show ?thesis using m by (auto simp: expire_pending_def mirror_ok_def Let_def)
next
  case (Drop i)
  then show ?thesis using m by (auto simp: drop_pending_def mirror_ok_def Let_def)
qed

lemma mirror_new_ok: "mirror_ok mirror_new"
  by (simp add: mirror_ok_def mirror_new_def state_new_def bt_sorted_def)

lemma mirror_run_ok:
  assumes "\<forall>op\<in>set ops. staged_ok op" "mirror_ok m"
  shows "mirror_ok (fold mirror_step ops m)"
  using assms
proof (induction ops arbitrary: m)
  case (Cons op ops)
  have "mirror_ok (mirror_step op m)" by (rule mirror_step_ok [OF Cons.prems(2)]) (use Cons.prems(1) in simp)
  then show ?case using Cons by auto
qed simp

section \<open>Every read agrees\<close>

lemma fold_state_set:
  "bt_sorted (hs_entries out) \<Longrightarrow> bt_sorted (hs_entries (fold (\<lambda>(key, v) out. state_set key v out) kvs out)) \<and>
    state_get k (fold (\<lambda>(key, v) out. state_set key v out) kvs out) =
      (case map_of (rev kvs) k of Some v \<Rightarrow> Some v | None \<Rightarrow> state_get k out)"
proof (induction kvs arbitrary: out)
  case (Cons kv kvs)
  then show ?case using Cons.IH [of "state_set (fst kv) (snd kv) out"] state_set_laws [OF Cons.prems, where k = "fst kv" and v = "snd kv"]
    by (auto simp: case_prod_beta map_add_def state_get_def split: option.split)
qed (simp add: state_get_def)

lemma fold_set_or_clear:
  "bt_sorted (hs_entries out) \<Longrightarrow> bt_sorted (hs_entries (fold (\<lambda>key out. snd (set_or_clear key None out)) ks out)) \<and>
    state_get k (fold (\<lambda>key out. snd (set_or_clear key None out)) ks out) = (if k \<in> set ks then None else state_get k out)"
proof (induction ks arbitrary: out)
  case (Cons key ks)
  then show ?case using Cons.IH [of "snd (set_or_clear key None out)"] set_or_clear_laws [OF Cons.prems, where k = key and v = None]
    by (auto split: if_splits)
qed simp

lemma fold_overlay:
  assumes "bt_sorted (hs_entries out)" "distinct (map fst kvs)"
  shows "bt_sorted (hs_entries (fold (\<lambda>(key, v) out. if state_get key out = None then state_set key v out else out) kvs out)) \<and>
    state_get k (fold (\<lambda>(key, v) out. if state_get key out = None then state_set key v out else out) kvs out) =
      (case state_get k out of Some v \<Rightarrow> Some v | None \<Rightarrow> map_of kvs k)"
  using assms
proof (induction kvs arbitrary: out)
  case (Cons kv kvs)
  let ?out = "if state_get (fst kv) out = None then state_set (fst kv) (snd kv) out else out"
  have "bt_sorted (hs_entries ?out)" using Cons.prems state_set_laws by simp
  moreover have "map_of kvs (fst kv) = None" using Cons.prems by (simp add: map_of_eq_None_iff)
  ultimately show ?case using Cons.IH [of ?out] Cons.prems state_set_laws(2) [OF Cons.prems(1), where k = "fst kv" and v = "snd kv" and k' = k]
    by (auto simp: case_prod_beta split: option.splits if_splits)
qed (simp split: option.split)

lemma fold_patches:
  assumes "bt_sorted (hs_entries out)" "\<forall>p\<in>set ps. patch_ok p"
  defines "lay \<equiv> \<lambda>p out. fold (\<lambda>key out. snd (set_or_clear key None out)) (pp_deletes p)
                       (fold (\<lambda>(key, v) out. state_set key v out) (pp_sets p) out)"
  shows "bt_sorted (hs_entries (fold lay ps out)) \<and>
    state_get k (fold lay ps out) = (case pending_value k (rev ps) of Some answer \<Rightarrow> answer | None \<Rightarrow> state_get k out)"
  using assms(2)
proof (induction ps rule: rev_induct)
  case (snoc p ps)
  let ?out = "fold lay ps out"
  let ?set = "fold (\<lambda>(key, v) out. state_set key v out) (pp_sets p) ?out"
  have ih: "bt_sorted (hs_entries ?out)" "state_get k ?out = (case pending_value k (rev ps) of Some answer \<Rightarrow> answer | None \<Rightarrow> state_get k out)"
    using snoc by auto
  have p: "bt_sorted (pp_sets p)" "fst ` set (pp_sets p) \<inter> set (pp_deletes p) = {}" using snoc.prems by (auto simp: patch_ok_def)
  note f = fold_state_set [OF ih(1), of "pp_sets p" k, unfolded map_of_rev [OF bt_sorted_distinct [OF p(1)]]]
  note s = f [THEN conjunct1] f [THEN conjunct2]
  have apart: "map_of (pp_sets p) k \<noteq> None \<Longrightarrow> k \<notin> set (pp_deletes p)"
    using p(2) by (metis IntI empty_iff map_of_eq_None_iff)
  have lay: "fold lay (ps @ [p]) out = fold (\<lambda>key out. snd (set_or_clear key None out)) (pp_deletes p) ?set"
    by (simp add: lay_def)
  have at_k: "state_get k (fold lay (ps @ [p]) out) = (if k \<in> set (pp_deletes p) then None
      else case map_of (pp_sets p) k of Some v \<Rightarrow> Some v | None \<Rightarrow> state_get k ?out)"
    unfolding lay fold_set_or_clear [OF s(1), of "pp_deletes p" k, THEN conjunct2] s(2) ..
  have "state_get k (fold lay (ps @ [p]) out) = (case pending_value k (rev (ps @ [p])) of Some answer \<Rightarrow> answer | None \<Rightarrow> state_get k out)"
    unfolding at_k ih(2) using apart by (cases "map_of (pp_sets p) k") simp_all
  moreover have "bt_sorted (hs_entries (fold lay (ps @ [p]) out))"
    unfolding lay using fold_set_or_clear [OF s(1), of "pp_deletes p" k] by (rule conjunct1)
  ultimately show ?case by (rule conjI [rotated])
qed (use assms(1) in simp)

lemma value_is_resolved:
  assumes "mirror_ok m"
  shows "mirror_value k m = state_get k (resolved m)"
proof -
  have m: "bt_sorted (hs_entries (wm_entries m))" "distinct (map fst (wm_fast_path m))" "\<forall>p\<in>set (wm_pending m). patch_ok p"
    using assms by (auto simp: mirror_ok_def intro: bt_sorted_distinct)
  show ?thesis
    using fold_patches [of "fold (\<lambda>(key, v) out. if state_get key out = None then state_set key v out else out) (wm_fast_path m) (wm_entries m)" "wm_pending m" k]
      fold_overlay [OF m(1,2), of k] m(3)
    by (simp add: mirror_value_def resolved_def Let_def split: option.split)
qed

text \<open>C27. Every read of a replica agrees: after any frames, pushes, patches, verdicts and expiries, honest or not, reading a
  cell through the layers gives what the resolved document holds, the overlay never masks host truth, and a
  cell no unanswered intent names shows exactly what the host said.\<close>

theorem reads_agree:
  assumes "\<forall>op\<in>set ops. staged_ok op"
  shows "let m = fold mirror_step ops mirror_new in
    mirror_value k m = state_get k (resolved m) \<and>
    (fast_path_holds k m \<longrightarrow> state_get k (wm_entries m) = None) \<and>
    (state_get k (wm_entries m) \<noteq> None \<longrightarrow> (\<forall>p\<in>set (wm_pending m). map_of (pp_sets p) k = None \<and> k \<notin> set (pp_deletes p)) \<longrightarrow>
      mirror_value k m = state_get k (wm_entries m))"
proof -
  have silent: "\<forall>p\<in>set ps. map_of (pp_sets p) k = None \<and> k \<notin> set (pp_deletes p) \<Longrightarrow> pending_value k ps = None" for ps
    by (induction ps) auto
  have m: "mirror_ok (fold mirror_step ops mirror_new)" by (rule mirror_run_ok [OF assms mirror_new_ok])
  then show ?thesis using value_is_resolved [OF m, of k] silent
    by (auto simp: Let_def fast_path_holds_def mirror_ok_def mirror_value_def)
qed

lemma reads_agree_witness:
  "let m = fold mirror_step [Push (demo_key 5) (Some [1]), Frame 0 (replicate 16 9) 0 1 (encode_snapshot (demo_state [(1, [5]), (2, [])])),
        Stage (replicate 16 8) (demo_state [(1, [5])]) (demo_state [(1, [6])]) 0] mirror_new in
    mirror_value (demo_key 1) m = Some [6] \<and> state_get (demo_key 1) (resolved m) = Some [6] \<and> mirror_value (demo_key 5) m = Some [1]"
proof -
  let ?ops = "[Push (demo_key 5) (Some [1]), Frame 0 (replicate 16 9) 0 1 (encode_snapshot (demo_state [(1, [5]), (2, [])])),
        Stage (replicate 16 8) (demo_state [(1, [5])]) (demo_state [(1, [6])]) 0]"
  have "\<forall>op\<in>set ?ops. staged_ok op" by (simp add: demo_state_ok)
  from reads_agree [OF this, of "demo_key 1"]
  have agree: "mirror_value (demo_key 1) (fold mirror_step ?ops mirror_new) = state_get (demo_key 1) (resolved (fold mirror_step ?ops mirror_new))"
    unfolding Let_def by (rule conjunct1)
  have snap: "decode_snapshot (encode_snapshot (demo_state [(1, [5]), (2, [])])) = Inr (demo_state [(1, [5]), (2, [])])"
    by (rule snapshot_round_trip, simp add: demo_state_ok) (simp add: state_fits_def entries_fit_def sorted_entries_def demo_state_def max_entry_value_bytes_def)
  have "mirror_value (demo_key 1) (fold mirror_step ?ops mirror_new) = Some [6] \<and> mirror_value (demo_key 5) (fold mirror_step ?ops mirror_new) = Some [1]"
    by (simp add: snap [unfolded demo_state_def demo_key_def, simplified] mirror_apply_def apply_snapshot_def write_fast_path_def mirror_new_def retire_fast_path_def note_document_frame_def
        stage_patch_def mirror_value_def diff_from_def state_get_def state_new_def state_keys_def demo_state_def demo_key_def bt_remove_def)
  then show ?thesis unfolding Let_def agree [symmetric] by blast
qed

end
