(* ===== verification/Workspace_Sync.thy ===== *)
theory Workspace_Sync
  imports Workspace_Document Workspace_Mirror
begin

text \<open>
  Host and clients together. The host serves its document through the subscribers' pumps; whatever a pump ever put on
  a link may reach any client in any order, any number of times, or never; clients send any bytes as requests. The
  ghost history says which document was published under which epoch and number.
\<close>

section \<open>The world\<close>

record sync_world =
  sw_service :: workspace_service
  sw_published :: history
  sw_frames :: "wire_message list"
  sw_mirrors :: "nat \<Rightarrow> workspace_mirror"

datatype sync_op =
    Request raw_uuid u8 bytes outside
  | Mutation "host_state \<Rightarrow> host_state"
  | Reconcile_Now "liveness_record list option"
  | Disconnect raw_uuid "roster_pane list"
  | Offer_Current raw_uuid
  | Note_Resubscribe raw_uuid workspace_subscribe
  | Pump_Step raw_uuid bool
  | Receive nat nat
  | Local_Op nat mirror_op
  | Restart raw_uuid host_state bool

definition world_new :: "raw_uuid \<Rightarrow> host_state \<Rightarrow> bool \<Rightarrow> sync_world" where
  "world_new epoch restored pristine =
    (let d = install restored pristine (document_new epoch)
     in \<lparr>sw_service = service_new d, sw_published = record_version d (\<lambda>_ _. None), sw_frames = [], sw_mirrors = (\<lambda>_. mirror_new)\<rparr>)"

text \<open>Publishing what the document now is, after a version that an intent may have published on the way.\<close>

definition publish :: "workspace_document \<Rightarrow> workspace_service \<Rightarrow> sync_world \<Rightarrow> sync_world" where
  "publish midway sv w =
    w\<lparr>sw_service := sv, sw_published := record_version (sv_document sv) (record_version midway (sw_published w))\<rparr>"

definition midway :: "raw_uuid \<Rightarrow> u8 \<Rightarrow> bytes \<Rightarrow> outside \<Rightarrow> workspace_service \<Rightarrow> workspace_document" where
  "midway connection verb payload x sv =
    (case (verb_from_byte verb, intent_decode payload, sv_subscribed sv connection) of
       (Some Verb_Intent, Inr intent, Some i) \<Rightarrow> fst (apply_decided (fst (os_decided x)) (snd (os_decided x)) (sv_document sv) (sv_store sv))
     | _ \<Rightarrow> sv_document sv)"

fun receive :: "wire_message \<Rightarrow> workspace_mirror \<Rightarrow> workspace_mirror" where
  "receive (WorkspaceEvent k e b n p) m = snd (mirror_apply k e b n p m)"
| "receive _ m = m"

fun sync_step :: "sync_op \<Rightarrow> sync_world \<Rightarrow> sync_world" where
  "sync_step (Request connection verb payload x) w =
    publish (midway connection verb payload x (sw_service w)) (handle_request connection verb payload x (sw_service w)) w"
| "sync_step (Mutation body) w =
    (let sv = sw_service w; (_, d, st) = mutate body (sv_document sv) (sv_store sv)
     in publish (sv_document sv) (sv\<lparr>sv_document := d, sv_store := st\<rparr>) w)"
| "sync_step (Reconcile_Now capture) w =
    (let sv = sw_service w; (d, st) = reconcile_now capture (sv_document sv) (sv_store sv)
     in publish (sv_document sv) (sv\<lparr>sv_document := d, sv_store := st\<rparr>) w)"
| "sync_step (Disconnect connection panes) w = w\<lparr>sw_service := drop_subscriber connection panes (sw_service w)\<rparr>"
| "sync_step (Offer_Current i) w =
    (let sv = sw_service w in w\<lparr>sw_service := sv\<lparr>sv_store := offer_current i (sv_document sv) (sv_store sv)\<rparr>\<rparr>)"
| "sync_step (Note_Resubscribe i request) w =
    (let sv = sw_service w in w\<lparr>sw_service := sv\<lparr>sv_store := on_subscriber i (note_resubscribe request) (sv_store sv)\<rparr>\<rparr>)"
| "sync_step (Pump_Step i alive) w =
    (let sv = sw_service w
     in case sv_store sv i of
          None \<Rightarrow> w
        | Some s \<Rightarrow>
            let (frames, s) = pump_step alive s
            in w\<lparr>sw_service := sv\<lparr>sv_store := (sv_store sv)(i := Some s)\<rparr>, sw_frames := sw_frames w @ frames\<rparr>)"
| "sync_step (Receive c j) w =
    (if j < length (sw_frames w) then w\<lparr>sw_mirrors := (sw_mirrors w)(c := receive (sw_frames w ! j) (sw_mirrors w c))\<rparr> else w)"
| "sync_step (Local_Op c op) w = w\<lparr>sw_mirrors := (sw_mirrors w)(c := mirror_step op (sw_mirrors w c))\<rparr>"
| "sync_step (Restart epoch restored pristine) w =
    (let sv = service_new (install restored pristine (document_new epoch)) in publish (sv_document sv) sv w)"

text \<open>What the types give (ids of sixteen bytes, documents that are sorted maps), and that no operation of a client on
  its own replica pretends to be a frame.\<close>

fun op_ok :: "sync_op \<Rightarrow> bool" where
  "op_ok (Request c v p x) \<longleftrightarrow> state_ok (snd (os_decided x)) \<and>
     (\<forall>r\<in>set (case os_capture x of None \<Rightarrow> [] | Some cs \<Rightarrow> cs). uuid_ok (pl_pane_id r))"
| "op_ok (Mutation body) \<longleftrightarrow> (\<forall>s. state_ok s \<longrightarrow> state_ok (body s))"
| "op_ok (Reconcile_Now capture) \<longleftrightarrow> (\<forall>r\<in>set (case capture of None \<Rightarrow> [] | Some cs \<Rightarrow> cs). uuid_ok (pl_pane_id r))"
| "op_ok (Local_Op c op) \<longleftrightarrow> (case op of Frame _ _ _ _ _ \<Rightarrow> False | _ \<Rightarrow> True)"
| "op_ok (Restart e s p) \<longleftrightarrow> state_ok s"
| "op_ok _ \<longleftrightarrow> True"

definition restarts :: "sync_op list \<Rightarrow> raw_uuid list" where
  "restarts ops = concat (map (\<lambda>op. case op of Restart e _ _ \<Rightarrow> [e] | _ \<Rightarrow> []) ops)"

section \<open>Replicas tell the truth\<close>

definition mirror_true :: "history \<Rightarrow> workspace_mirror \<Rightarrow> bool" where
  "mirror_true pub m \<longleftrightarrow> (wm_state_num m = 0 \<and> wm_entries m = state_new) \<or>
     (\<exists>e. wm_epoch m = Some e \<and> pub e (wm_state_num m) = Some (wm_entries m))"

text \<open>What the replica relies on of the document codec: a payload that decodes at all is the document that was
  encoded, and a diff that decodes at all takes its base to its target.\<close>

locale exact_payloads =
  fixes ok :: "'s \<Rightarrow> bool" and snap :: "'s \<Rightarrow> bytes" and unsnap :: "bytes \<Rightarrow> 'e + 's"
    and delta :: "'s \<Rightarrow> 's \<Rightarrow> 'd" and put :: "'d \<Rightarrow> bytes" and get :: "bytes \<Rightarrow> 'e + 'd" and patch :: "'d \<Rightarrow> 's \<Rightarrow> 's"
  assumes snap_exact: "ok s \<Longrightarrow> unsnap (snap s) = Inr t \<Longrightarrow> t = s"
    and delta_exact: "ok s \<Longrightarrow> ok b \<Longrightarrow> get (put (delta s b)) = Inr d \<Longrightarrow> patch d b = s"
begin

text \<open>A frame that lands: a snapshot whatever was held, a diff where its base was held.\<close>

lemma snapshot_lands: "ok s \<Longrightarrow> p = snap s \<Longrightarrow> unsnap p = Inr t \<Longrightarrow> t = s"
  using snap_exact by blast

lemma diff_lands: "ok s \<Longrightarrow> ok b \<Longrightarrow> p = put (delta s b) \<Longrightarrow> get p = Inr d \<Longrightarrow> held = b \<Longrightarrow> patch d held = s"
  using delta_exact by blast

lemma second_diff_lands:
  "ok s \<Longrightarrow> ok b \<Longrightarrow> get (put (delta b s)) = Inr d \<Longrightarrow> get (put (delta s b)) = Inr d' \<Longrightarrow> patch d' (patch d s) = s"
  using delta_exact by metis

end

lemma diff_ids_of: "state_ok s \<Longrightarrow> state_ok b \<Longrightarrow> diff_ids_ok (diff_from s b)"
  by (force simp: diff_ids_ok_def diff_from_def state_ok_def state_keys_def)

interpretation document_codec: exact_payloads state_ok encode_snapshot decode_snapshot diff_from encode_diff decode_diff state_apply
proof
  show "t = s" if "state_ok s" "decode_snapshot (encode_snapshot s) = Inr t" for s t
    using that snapshot_round_trip [of s] by (cases "state_fits s") auto
  show "state_apply d b = s" if "state_ok s" "state_ok b" "decode_diff (encode_diff (diff_from s b)) = Inr d" for s b d
    using that diff_round_trip [OF diff_ids_of [of s b]] apply_diff_exact [of s b]
    by (cases "diff_fits (diff_from s b)") (auto simp: state_ok_def)
qed

lemma note_frame_truth [simp]:
  "mirror_true pub (note_document_frame (retire_fast_path ks m)) = mirror_true pub m"
  by (simp add: mirror_true_def)

text \<open>Whatever a replica holds, a genuine frame leaves it at a published document.\<close>

lemma receive_truth:
  assumes pub: "history_ok pub" and f: "frame_true pub f" and m: "mirror_true pub m"
  shows "mirror_true pub (receive f m)"
proof -
  obtain k e b n p where k: "f = WorkspaceEvent k e b n p" "k = 0 \<longrightarrow> (\<exists>st. pub e n = Some st \<and> p = encode_snapshot st)"
    "k = 1 \<longrightarrow> (\<exists>st base. pub e n = Some st \<and> pub e b = Some base \<and> p = encode_diff (diff_from st base))"
    using f by (auto simp: frame_true_def)
  have ok: "pub e n = Some st \<Longrightarrow> 0 < n \<and> state_ok st" for e n st using pub by (simp add: history_ok_def)
  consider "k = 0" | "k = 1" | "k = 4" | "k \<noteq> 0 \<and> k \<noteq> 1 \<and> k \<noteq> 4" by blast
  then show ?thesis
  proof cases
    case 1
    then obtain st where st: "pub e n = Some st" "p = encode_snapshot st" using k(2) by blast
    show ?thesis
    proof (cases "decode_snapshot p")
      case (Inr t)
      then have "t = st" using document_codec.snapshot_lands ok [OF st(1)] st(2) by blast
      then have "mirror_true pub (m\<lparr>wm_entries := t, wm_epoch := Some e, wm_state_num := n\<rparr>)" using st by (simp add: mirror_true_def)
      then show ?thesis using Inr 1 by (simp add: k(1) mirror_apply_def apply_snapshot_def)
    qed (use m 1 in \<open>simp add: k(1) mirror_apply_def apply_snapshot_def\<close>)
  next
    case 2
    then obtain st base where st: "pub e n = Some st" "pub e b = Some base" "p = encode_diff (diff_from st base)" using k(3) by blast
    show ?thesis
    proof (cases "wm_epoch m = Some e \<and> \<not> n \<le> wm_state_num m \<and> b = wm_state_num m")
      case True
      show ?thesis
      proof (cases "decode_diff p")
        case (Inr d)
        have "wm_state_num m \<noteq> 0" using ok [OF st(2)] True by auto
        then have "wm_entries m = base" using m True st(2) by (auto simp: mirror_true_def)
        then have "state_apply d (wm_entries m) = st"
          using document_codec.diff_lands [of st base p d] ok [OF st(1)] ok [OF st(2)] Inr st(3) by blast
        then have "mirror_true pub (m\<lparr>wm_entries := state_apply d (wm_entries m), wm_state_num := n\<rparr>)"
          using True st(1) by (simp add: mirror_true_def)
        then show ?thesis using Inr True 2 by (simp add: k(1) mirror_apply_def apply_diff_frame_def)
      qed (use m True 2 in \<open>simp add: k(1) mirror_apply_def apply_diff_frame_def\<close>)
    qed (use m 2 in \<open>auto simp: k(1) mirror_apply_def apply_diff_frame_def\<close>)
  next
    case 3
    then show ?thesis by (simp add: k(1) mirror_apply_def apply_reset_def mirror_true_def)
  next
    case 4
    then show ?thesis using m by (simp add: k(1) mirror_apply_def)
  qed
qed

lemma local_fields:
  assumes "case op of Frame _ _ _ _ _ \<Rightarrow> False | Forget \<Rightarrow> False | _ \<Rightarrow> True"
  shows "wm_epoch (mirror_step op m) = wm_epoch m \<and> wm_state_num (mirror_step op m) = wm_state_num m \<and> wm_entries (mirror_step op m) = wm_entries m"
  using assms by (cases op) (simp_all add: write_fast_path_def clear_fast_path_def stage_patch_def note_intent_result_def expire_pending_def
      drop_pending_def Let_def split: option.split)

lemma local_truth:
  assumes "mirror_true pub m" "case op of Frame _ _ _ _ _ \<Rightarrow> False | _ \<Rightarrow> True"
  shows "mirror_true pub (mirror_step op m)"
proof (cases "op = Forget")
  case True
  then show ?thesis by (simp add: forget_def mirror_new_def mirror_true_def)
next
  case False
  then show ?thesis using local_fields [of op m] assms by (cases op) (simp_all add: mirror_true_def)
qed

section \<open>The world stays sound\<close>

definition world_ok :: "nat \<Rightarrow> sync_world \<Rightarrow> bool" where
  "world_ok N w \<longleftrightarrow>
     host_ok (sw_published w) N (1 + 2 * int N) (sv_document (sw_service w)) (sv_store (sw_service w)) \<and>
     list_all (frame_true (sw_published w)) (sw_frames w) \<and> (\<forall>c. mirror_true (sw_published w) (sw_mirrors w c))"

definition epochs :: "history \<Rightarrow> raw_uuid set" where
  "epochs pub = {e. \<exists>n. pub e n \<noteq> None}"

lemma epochs_record: "epochs (record_version d pub) = insert (wd_epoch d) (epochs pub)"
  by (auto simp: epochs_def record_version_def)

lemma mirror_true_mono: "history_le pub pub' \<Longrightarrow> mirror_true pub m \<Longrightarrow> mirror_true pub' m"
  unfolding mirror_true_def history_le_def by blast

lemma frames_true_mono: "history_le pub pub' \<Longrightarrow> list_all (frame_true pub) fs \<Longrightarrow> list_all (frame_true pub') fs"
  using frame_true_mono by (auto simp: list_all_iff)

lemma world_grows:
  assumes w: "world_ok N w" and le: "history_le (sw_published w) pub'"
    and h: "host_ok pub' N' M' d' st'" "N' \<le> Suc N" "M' \<le> 1 + 2 * int (Suc N)"
    and w': "sv_document (sw_service w') = d'" "sv_store (sw_service w') = st'" "sw_published w' = pub'"
      "sw_frames w' = sw_frames w" "sw_mirrors w' = sw_mirrors w"
  shows "world_ok (Suc N) w'"
proof -
  have "host_ok pub' (Suc N) (1 + 2 * int (Suc N)) d' st'"
    using host_ok_bound [OF h(1) h(3)] store_ok_mono [OF history_le_refl h(2)] by (simp add: host_ok_def)
  then show ?thesis using w frames_true_mono [OF le] mirror_true_mono [OF le] by (simp add: world_ok_def w')
qed

lemma publish_grows:
  assumes w: "world_ok N w"
    and e: "evolves (sw_published w) N (2 + 2 * int N) (sv_document (sw_service w)) (mid, st0)"
      "evolves (record_version mid (sw_published w)) N (3 + 2 * int N) mid (sv_document sv, sv_store sv)"
  shows "world_ok (Suc N) (publish mid sv w)" "epochs (sw_published (publish mid sv w)) = epochs (sw_published w)"
proof -
  have le: "history_le (sw_published w) (sw_published (publish mid sv w))"
    using e by (auto simp: evolves_def publish_def history_le_def)
  show "world_ok (Suc N) (publish mid sv w)"
    by (rule world_grows [OF w le, of N "3 + 2 * int N" "sv_document sv" "sv_store sv"])
      (use e(2) in \<open>simp_all add: evolves_def publish_def\<close>)
  have "wd_epoch (sv_document (sw_service w)) \<in> epochs (sw_published w)"
    using w by (auto simp: world_ok_def host_ok_def document_ok_def epochs_def)
  moreover have "wd_epoch mid = wd_epoch (sv_document (sw_service w))" "wd_epoch (sv_document sv) = wd_epoch mid"
    using e by (simp_all add: evolves_def)
  ultimately show "epochs (sw_published (publish mid sv w)) = epochs (sw_published w)"
    by (auto simp: publish_def epochs_record)
qed

lemma record_twice: "record_version d (record_version d pub) = record_version d pub"
  by (auto simp: record_version_def fun_eq_iff)

lemma evolves_host: "evolves pub N M d (d', st') \<Longrightarrow> host_ok (record_version d' pub) N M d' st'"
  by (simp add: evolves_def)

text \<open>A handler that publishes at most once, after nothing.\<close>

lemma publish_once:
  assumes w: "world_ok N w" and e: "evolves (sw_published w) N (2 + 2 * int N) (sv_document (sw_service w)) (sv_document sv, sv_store sv)"
  shows "world_ok (Suc N) (publish (sv_document (sw_service w)) sv w)"
    "epochs (sw_published (publish (sv_document (sw_service w)) sv w)) = epochs (sw_published w)"
proof -
  let ?d = "sv_document (sw_service w)" and ?st = "sv_store (sw_service w)"
  have h: "host_ok (sw_published w) N (1 + 2 * int N) ?d ?st" using w by (simp add: world_ok_def)
  have "evolves (sw_published w) N (1 + 2 * int N) ?d (?d, ?st)"
    by (rule evolves_same [OF h]) (use h in \<open>simp_all add: host_ok_def\<close>)
  then have 1: "evolves (sw_published w) N (2 + 2 * int N) ?d (?d, ?st)" by (rule evolves_bound) simp
  have "record_version ?d (sw_published w) = sw_published w" using h record_same [of "sw_published w"] by (auto simp: host_ok_def)
  then have 2: "evolves (record_version ?d (sw_published w)) N (3 + 2 * int N) ?d (sv_document sv, sv_store sv)"
    using evolves_bound [OF e, of "3 + 2 * int N"] by simp
  show "world_ok (Suc N) (publish ?d sv w)" "epochs (sw_published (publish ?d sv w)) = epochs (sw_published w)"
    using publish_grows [OF w 1 2] by simp_all
qed

lemma request_grows:
  assumes w: "world_ok N w" and op: "op_ok (Request c v p x)" and room: "4 + 2 * int N < i64_max"
  shows "world_ok (Suc N) (sync_step (Request c v p x) w)" "epochs (sw_published (sync_step (Request c v p x) w)) = epochs (sw_published w)"
proof -
  let ?sv = "sw_service w"
  let ?d = "sv_document ?sv" and ?st = "sv_store ?sv" and ?pub = "sw_published w"
  have h: "host_ok ?pub N (1 + 2 * int N) ?d ?st" using w by (simp add: world_ok_def)
  then have st: "store_ok ?pub N ?st" and doc: "document_ok ?pub (1 + 2 * int N) ?d" by (simp_all add: host_ok_def)
  have plain: "evolves ?pub N (2 + 2 * int N) ?d (?d, st')" if "store_ok ?pub N st'" for st'
    by (rule evolves_bound [OF evolves_same [OF h that]]) simp_all
  have cap: "\<forall>r\<in>set (case os_capture x of None \<Rightarrow> [] | Some cs \<Rightarrow> cs). uuid_ok (pl_pane_id r)" and written: "state_ok (snd (os_decided x))"
    using op by simp_all
  let ?sv' = "handle_request c v p x ?sv"
  have "world_ok (Suc N) (publish (midway c v p x ?sv) ?sv' w) \<and> epochs (sw_published (publish (midway c v p x ?sv) ?sv' w)) = epochs ?pub"
  proof (cases "verb_from_byte v = Some Verb_Intent \<and> (\<exists>intent. intent_decode p = Inr intent) \<and> sv_subscribed ?sv c \<noteq> None")
    case True
    then obtain intent i where v: "verb_from_byte v = Some Verb_Intent" "intent_decode p = Inr intent" "sv_subscribed ?sv c = Some i" by blast
    obtain status written where dec: "os_decided x = (status, written)" by force
    obtain d1 st1 where ad: "apply_decided status written ?d ?st = (d1, st1)" by force
    have e1: "evolves ?pub N (2 + 2 * int N) ?d (d1, st1)"
      using apply_decided_evolves [OF h, of written status] written dec ad room by simp
    let ?pub1 = "record_version d1 ?pub"
    let ?st1 = "on_subscriber i (deliver_result \<lparr>ir_intent_id = wi_intent_id intent, ir_status = status_as_byte status\<rparr>) st1"
    have h1: "host_ok ?pub1 N (2 + 2 * int N) d1 ?st1"
      using evolves_host [OF e1] on_subscriber_ok [of ?pub1 N st1] inputs_ok(3) [of ?pub1 N] by (simp add: host_ok_def)
    obtain d2 st2 where rn: "(if status = Intent_Applied then reconcile_now (os_capture x) d1 ?st1 else (d1, ?st1)) = (d2, st2)" by force
    have "evolves ?pub1 N (3 + 2 * int N) d1 (d1, ?st1)"
      by (rule evolves_bound [OF evolves_same [OF h1]]) (use h1 in \<open>simp_all add: host_ok_def\<close>)
    then have e2: "evolves ?pub1 N (3 + 2 * int N) d1 (d2, st2)"
      using reconcile_now_evolves [OF h1 cap] room rn by (auto split: if_splits)
    have m: "midway c v p x ?sv = d1" using v dec ad by (simp add: midway_def)
    have sv': "sv_document ?sv' = d2" "sv_store ?sv' = st2"
      using v dec ad rn by (simp_all add: handle_request_def Let_def split: if_splits prod.splits)
    show ?thesis using publish_grows [OF w e1] e2 m sv' by simp
  next
    case False
    have mid: "midway c v p x ?sv = ?d" using False by (auto simp: midway_def split: option.splits sum.splits request_verb.splits)
    have presence: "store_ok ?pub N (?st(i := Some (snd (note_presence u s))))" if "?st i = Some s" for i s u
      using that st inputs_ok(6) by (auto simp: store_ok_def)
    have subscribe: "evolves ?pub N (2 + 2 * int N) ?d (sv_document (apply_subscribe c req x ?sv), sv_store (apply_subscribe c req x ?sv))" for req
    proof (cases "sv_subscribed ?sv c")
      case (Some i)
      then show ?thesis using plain [OF doc_note_resubscribe_ok [OF h]] by (simp add: apply_subscribe_def)
    next
      case None
      show ?thesis
      proof (cases "os_minted x")
        case None
        then show ?thesis using \<open>sv_subscribed ?sv c = None\<close> plain [OF st] by (simp add: apply_subscribe_def)
      next
        case (Some i)
        let ?st0 = "?st(i := Some (start_pump (subscriber_new req)))"
        have h0: "host_ok ?pub N (1 + 2 * int N) ?d ?st0"
          using h store_ok_upd [OF st start_pump_ok [OF subscriber_new_ok]] by (simp add: host_ok_def)
        obtain d1 st1 where a: "add_subscriber i (os_roster x) ?d ?st0 = (d1, st1)" by force
        have e1: "evolves ?pub N (1 + 2 * int N) ?d (d1, st1)" using add_subscriber_evolves [OF h0, of i "os_roster x"] a by simp
        have d1: "wd_epoch d1 = wd_epoch ?d" "wd_state_num d1 = wd_state_num ?d" "wd_state d1 = wd_state ?d" using a by (auto simp: add_subscriber_def Let_def)
        have "record_version d1 ?pub = record_version ?d ?pub" using d1 by (rule record_cong)
        then have r1: "record_version d1 ?pub = ?pub" using record_same [OF doc] by simp
        obtain d2 st2 where rn: "reconcile_now (os_capture x) d1 st1 = (d2, st2)" by force
        have "evolves ?pub N (2 + 2 * int N) d1 (d2, st2)"
          using reconcile_now_evolves [OF evolves_host [OF e1, unfolded r1] cap] room rn by simp
        then have "evolves ?pub N (2 + 2 * int N) ?d (d2, st2)" using d1 by (simp add: evolves_def)
        then show ?thesis using Some \<open>sv_subscribed ?sv c = None\<close> a rn by (simp add: apply_subscribe_def Let_def)
      qed
    qed
    have ack: "store_ok ?pub N (doc_note_ack i n ?d ?st)" for i n
      using st inputs_ok(4) by (simp add: doc_note_ack_def on_subscriber_ok)
    have stay: "evolves ?pub N (2 + 2 * int N) ?d (sv_document ?sv', sv_store ?sv')" if "?sv' = ?sv" using plain [OF st] that by simp
    have "evolves ?pub N (2 + 2 * int N) ?d (sv_document ?sv', sv_store ?sv')"
    proof (cases "verb_from_byte v")
      case None
      then show ?thesis using stay by (simp add: handle_request_def)
    next
      case (Some verb)
      show ?thesis
      proof (cases verb)
        case Verb_Subscribe
        then show ?thesis using Some stay subscribe by (cases "subscribe_decode p") (simp_all add: handle_request_def)
      next
        case Verb_Ack
        then show ?thesis using Some stay plain [OF ack]
          by (cases "decode_cell_i64 p"; cases "sv_subscribed ?sv c") (simp_all add: handle_request_def)
      next
        case Verb_Presence
        show ?thesis
        proof (cases "update_decode p")
          case (Inr u)
          show ?thesis
          proof (cases "sv_subscribed ?sv c")
            case (Some i)
            show ?thesis
            proof (cases "?st i")
              case s: (Some s)
              then show ?thesis using \<open>verb_from_byte v = Some verb\<close> Verb_Presence Inr Some plain [OF broadcast_ok [OF presence [OF s]]] plain [OF presence [OF s]]
                by (cases "fst (note_presence u s)") (simp_all add: handle_request_def split_beta)
            qed (use \<open>verb_from_byte v = Some verb\<close> Verb_Presence Inr Some stay in \<open>simp add: handle_request_def\<close>)
          qed (use Some Verb_Presence Inr stay in \<open>simp add: handle_request_def\<close>)
        qed (use Some Verb_Presence stay in \<open>simp add: handle_request_def\<close>)
      next
        case Verb_Intent
        then show ?thesis using Some stay False
          by (cases "intent_decode p"; cases "sv_subscribed ?sv c") (simp_all add: handle_request_def)
      qed
    qed
    then show ?thesis using publish_once [OF w] mid by simp
  qed
  then show "world_ok (Suc N) (sync_step (Request c v p x) w)" "epochs (sw_published (sync_step (Request c v p x) w)) = epochs (sw_published w)"
    by simp_all
qed

lemma service_grows:
  assumes w: "world_ok N w" and st: "store_ok (sw_published w) N' (sv_store sv)" "N' \<le> Suc N"
    and d: "wd_epoch (sv_document sv) = wd_epoch (sv_document (sw_service w))"
      "wd_state_num (sv_document sv) = wd_state_num (sv_document (sw_service w))" "wd_state (sv_document sv) = wd_state (sv_document (sw_service w))"
    and fs: "list_all (frame_true (sw_published w)) fs"
  shows "world_ok (Suc N) (w\<lparr>sw_service := sv, sw_frames := sw_frames w @ fs\<rparr>)"
proof -
  have "store_ok (sw_published w) (Suc N) (sv_store sv)" using store_ok_mono [OF history_le_refl st(2) st(1)] .
  then show ?thesis using w d fs by (auto simp: world_ok_def host_ok_def document_ok_def)
qed

lemma drop_subscriber_sound:
  assumes "host_ok pub N M (sv_document sv) (sv_store sv)"
  shows "store_ok pub N (sv_store (drop_subscriber c panes sv))" "wd_epoch (sv_document (drop_subscriber c panes sv)) = wd_epoch (sv_document sv)"
    "wd_state_num (sv_document (drop_subscriber c panes sv)) = wd_state_num (sv_document sv)"
    "wd_state (sv_document (drop_subscriber c panes sv)) = wd_state (sv_document sv)"
proof -
  have st: "store_ok pub N (sv_store sv)" and doc: "document_ok pub M (sv_document sv)" using assms by (simp_all add: host_ok_def)
  show "wd_epoch (sv_document (drop_subscriber c panes sv)) = wd_epoch (sv_document sv)"
    "wd_state_num (sv_document (drop_subscriber c panes sv)) = wd_state_num (sv_document sv)"
    "wd_state (sv_document (drop_subscriber c panes sv)) = wd_state (sv_document sv)"
    by (auto simp: drop_subscriber_def doc_remove_subscriber_def Let_def split: option.split)
  show "store_ok pub N (sv_store (drop_subscriber c panes sv))"
    using st broadcast_ok on_subscriber_ok [OF st close_subscriber_ok]
    by (auto simp: drop_subscriber_def doc_remove_subscriber_def Let_def split: option.split)
qed

lemma sync_step_ok:
  assumes w: "world_ok N w" and op: "op_ok op" and room: "Suc N < 2 ^ 32 - 1"
    and fresh: "\<And>e s b. op = Restart e s b \<Longrightarrow> e \<notin> epochs (sw_published w)"
  shows "world_ok (Suc N) (sync_step op w) \<and> epochs (sw_published (sync_step op w)) = epochs (sw_published w) \<union> set (restarts [op])"
proof -
  let ?sv = "sw_service w"
  let ?d = "sv_document ?sv" and ?st = "sv_store ?sv" and ?pub = "sw_published w"
  have h: "host_ok ?pub N (1 + 2 * int N) ?d ?st" using w by (simp add: world_ok_def)
  then have st: "store_ok ?pub N ?st" and doc: "document_ok ?pub (1 + 2 * int N) ?d" by (simp_all add: host_ok_def)
  have frames: "list_all (frame_true ?pub) (sw_frames w)" and mirrors: "\<And>c. mirror_true ?pub (sw_mirrors w c)" using w by (simp_all add: world_ok_def)
  have big: "4 + 2 * int N < i64_max" using room by (simp add: i64_max_def)
  note quiet = service_grows [OF w, of N _ "[]", simplified]
  have up: "world_ok (Suc N) w" using quiet [of ?sv] st by simp
  show ?thesis
  proof (cases op)
    case (Request c v p x)
    then show ?thesis using request_grows [OF w op [unfolded Request] big] by (simp add: restarts_def)
  next
    case (Mutation body)
    obtain b d st' where m: "mutate body ?d ?st = (b, d, st')" by (metis prod_cases3)
    have "evolves ?pub N (2 + 2 * int N) ?d (d, st')"
      using mutate_evolves [OF h, of body] op Mutation big m by (simp add: add.commute)
    then show ?thesis using publish_once [OF w, of "?sv\<lparr>sv_document := d, sv_store := st'\<rparr>"] m Mutation by (simp add: restarts_def Let_def)
  next
    case (Reconcile_Now capture)
    obtain d st' where m: "reconcile_now capture ?d ?st = (d, st')" by force
    have "evolves ?pub N (2 + 2 * int N) ?d (d, st')"
      using reconcile_now_evolves [OF h, of capture] op Reconcile_Now big m by (simp add: add.commute)
    then show ?thesis using publish_once [OF w, of "?sv\<lparr>sv_document := d, sv_store := st'\<rparr>"] m Reconcile_Now by (simp add: restarts_def Let_def)
  next
    case (Disconnect c panes)
    then show ?thesis using quiet [of "drop_subscriber c panes ?sv"] drop_subscriber_sound [OF h] by (simp add: restarts_def)
  next
    case (Offer_Current i)
    then show ?thesis using quiet [of "?sv\<lparr>sv_store := offer_current i ?d ?st\<rparr>"] offer_current_ok [OF doc st] by (simp add: restarts_def Let_def)
  next
    case (Note_Resubscribe i req)
    have "store_ok ?pub N (on_subscriber i (note_resubscribe req) ?st)" by (rule on_subscriber_ok [OF st]) (rule inputs_ok)
    then show ?thesis using quiet [of "?sv\<lparr>sv_store := on_subscriber i (note_resubscribe req) ?st\<rparr>"] Note_Resubscribe by (simp add: restarts_def Let_def)
  next
    case (Pump_Step i alive)
    show ?thesis
    proof (cases "?st i")
      case None
      then show ?thesis using Pump_Step up by (simp add: restarts_def)
    next
      case (Some s)
      obtain fs s' where ps: "pump_step alive s = (fs, s')" by force
      have s': "sound_step ?pub (Suc N) (fs, s')" using pump_step_ok [OF _ room, of ?pub s alive] st Some ps by (simp add: store_ok_def)
      have "store_ok ?pub (Suc N) (?st(i := Some s'))"
        using s' store_ok_upd [OF store_ok_mono [OF history_le_refl _ st, of "Suc N"]] by (simp add: sound_step_def)
      then have "world_ok (Suc N) (w\<lparr>sw_service := ?sv\<lparr>sv_store := ?st(i := Some s')\<rparr>, sw_frames := sw_frames w @ fs\<rparr>)"
        using s' by (intro service_grows [OF w, of "Suc N"]) (simp_all add: sound_step_def)
      then show ?thesis using Some ps Pump_Step by (simp add: restarts_def Let_def)
    qed
  next
    case (Receive c j)
    have "mirror_true ?pub (receive (sw_frames w ! j) (sw_mirrors w c))" if "j < length (sw_frames w)"
      using receive_truth [OF _ _ mirrors] frames that h by (simp add: host_ok_def list_all_length)
    then show ?thesis using up Receive by (auto simp: restarts_def world_ok_def)
  next
    case (Local_Op c mop)
    have "mirror_true ?pub (mirror_step mop (sw_mirrors w c))" using local_truth [OF mirrors] op Local_Op by simp
    then show ?thesis using up Local_Op by (auto simp: restarts_def world_ok_def)
  next
    case (Restart e s b)
    let ?d' = "install s b (document_new e)"
    let ?pub' = "record_version ?d' ?pub"
    have none: "?pub e n = None" for n using fresh [OF Restart] by (simp add: epochs_def)
    have le: "history_le ?pub ?pub'" using none by (auto simp: history_le_def record_version_def install_def document_new_def)
    have "host_ok ?pub' 0 1 ?d' (\<lambda>_. None)"
      using h none op Restart
      by (auto simp: host_ok_def history_ok_def document_ok_def store_ok_def record_version_def install_def document_new_def)
    then have "world_ok (Suc N) (publish ?d' (service_new ?d') w)"
      by (intro world_grows [OF w _ _ _ _, of ?pub' 0 1 ?d' "\<lambda>_. None"])
        (use le in \<open>simp_all add: publish_def service_new_def record_twice\<close>)
    then show ?thesis using Restart by (simp add: publish_def service_new_def epochs_record restarts_def install_def document_new_def Let_def)
  qed
qed

lemma world_new_ok: "state_ok s \<Longrightarrow> world_ok 0 (world_new e s b) \<and> epochs (sw_published (world_new e s b)) = {e}"
  by (auto simp: world_ok_def world_new_def host_ok_def history_ok_def document_ok_def store_ok_def record_version_def service_new_def
      install_def document_new_def epochs_def mirror_true_def mirror_new_def Let_def)

lemma sync_run_ok:
  assumes "world_ok N w" "\<forall>op\<in>set ops. op_ok op" "N + length ops < 2 ^ 32 - 1"
    "distinct (restarts ops)" "set (restarts ops) \<inter> epochs (sw_published w) = {}"
  shows "world_ok (N + length ops) (fold sync_step ops w)"
  using assms
proof (induction ops arbitrary: N w)
  case (Cons op ops)
  have r: "restarts (op # ops) = restarts [op] @ restarts ops" by (simp add: restarts_def)
  have "e \<notin> epochs (sw_published w)" if "op = Restart e s b" for e s b using Cons.prems(5) that by (auto simp: restarts_def)
  then have st: "world_ok (Suc N) (sync_step op w)" "epochs (sw_published (sync_step op w)) = epochs (sw_published w) \<union> set (restarts [op])"
    using sync_step_ok [OF Cons.prems(1)] Cons.prems(2,3) by auto
  have "world_ok (Suc N + length ops) (fold sync_step ops (sync_step op w))"
    by (rule Cons.IH [OF st(1)]) (use Cons.prems st(2) r in auto)
  then show ?case by simp
qed simp

text \<open>C3. 
  No replica ever shows a document that never was. Whatever requests clients send, true or false, in whatever order
  frames reach whichever client, late, twice or never, however pumps, mutations, disconnects and daemon restarts
  interleave: every replica is empty at number zero, or it holds exactly the document that was published under the
  epoch and the number it names.
\<close>
theorem replicas_hold_published_documents:
  assumes "state_ok s" "\<forall>op\<in>set ops. op_ok op" "distinct (e # restarts ops)" "length ops < 2 ^ 32 - 1"
  shows "mirror_true (sw_published (fold sync_step ops (world_new e s b))) (sw_mirrors (fold sync_step ops (world_new e s b)) c)"
  using sync_run_ok [of 0 "world_new e s b" ops] world_new_ok [OF assms(1), of e b] assms by (simp add: world_ok_def)

definition demo_outside :: outside where
  "demo_outside = \<lparr>os_minted = Some (replicate 16 5), os_roster = [], os_capture = None, os_decided = (Rejected_Stale, state_new)\<rparr>"

definition demo_run :: "sync_op list" where
  "demo_run = Request (replicate 16 2) 0 (subscribe_encode demo_subscribe) demo_outside # replicate 20 (Pump_Step (replicate 16 5) True) @
     [Receive 0 1, Mutation (state_set (key_of Root root_object_id 2) [104]), Receive 0 0, Restart (replicate 16 9) (demo_state [(1, [5])]) False, Local_Op 0 Forget]"

lemma demo_run_ok: "\<forall>op\<in>set demo_run. op_ok op" "restarts demo_run = [replicate 16 9]" "length demo_run = 26"
proof -
  have "state_ok (state_set (key_of Root root_object_id 2) [104] st)" if "state_ok st" for st
    using that by (auto simp: state_ok_get state_set_laws key_of_def key_new_def root_object_id_def uuid_ok_def session_id_byte_count_def split: if_splits)
  then show "\<forall>op\<in>set demo_run. op_ok op" by (auto simp: demo_run_def demo_outside_def demo_state_ok)
qed (simp_all add: demo_run_def restarts_def)

theorem replicas_hold_published_documents_witness:
  "mirror_true (sw_published (fold sync_step demo_run (world_new (replicate 16 1) (demo_state [(1, [5])]) True)))
     (sw_mirrors (fold sync_step demo_run (world_new (replicate 16 1) (demo_state [(1, [5])]) True)) 0)"
  by (rule replicas_hold_published_documents) (simp_all add: demo_run_ok demo_state_ok)

end
