(* ===== verification/Workspace_Resync.thy ===== *)
theory Workspace_Resync
  imports Workspace_Sync
begin

text \<open>
  Running a pump to its rest: that a subscription from the client brings its replica to the current document, and two
  things the pump does between its critical sections that it should not.
\<close>

section \<open>Runs of the pump\<close>

fun pump_iter :: "nat \<Rightarrow> subscriber \<Rightarrow> wire_message list \<times> subscriber" where
  "pump_iter 0 s = ([], s)"
| "pump_iter (Suc n) s = (let (fs, s) = pump_step True s; (gs, s) = pump_iter n s in (fs @ gs, s))"

definition pump_runs :: "subscriber \<Rightarrow> wire_message list \<Rightarrow> subscriber \<Rightarrow> bool" where
  "pump_runs s fs s' \<longleftrightarrow> (\<exists>n. pump_iter n s = (fs, s'))"

lemma pump_iter_add: "pump_iter m s = (fs, s1) \<Longrightarrow> pump_iter n s1 = (gs, s2) \<Longrightarrow> pump_iter (m + n) s = (fs @ gs, s2)"
proof (induction m arbitrary: s fs)
  case (Suc m)
  obtain f t where t: "pump_step True s = (f, t)" by force
  obtain g where u: "pump_iter m t = (g, s1)" "fs = f @ g" using Suc.prems(1) t by (cases "pump_iter m t") simp
  show ?case using Suc.IH [OF u(1) Suc.prems(2)] t u(2) by simp
qed simp

lemma runs_refl: "pump_runs s [] s"
  unfolding pump_runs_def by (rule exI [of _ 0]) simp

lemma runs_trans: "pump_runs s fs s1 \<Longrightarrow> pump_runs s1 gs s2 \<Longrightarrow> pump_runs s (fs @ gs) s2"
  unfolding pump_runs_def using pump_iter_add by blast

lemma runs_step: "pump_step True s = (fs, s1) \<Longrightarrow> pump_runs s1 gs s2 \<Longrightarrow> pump_runs s (fs @ gs) s2"
  using runs_trans [of s fs s1 gs s2] unfolding pump_runs_def by (metis append_Nil2 case_prod_conv pump_iter.simps)

lemma quiet_step: "pump_step True s = ([], s1) \<Longrightarrow> pump_runs s1 gs s2 \<Longrightarrow> pump_runs s gs s2"
  using runs_step [of s "[]" s1 gs s2] by simp

text \<open>From the head of a drain to its plan: the inbox is taken, the resubscription and the ack are applied, answers and
  roster go out.\<close>

definition resubscribed :: "subscriber \<Rightarrow> subscriber" where
  "resubscribed s = (case sb_pending_subscribe s of None \<Rightarrow> s | Some request \<Rightarrow> apply_resubscribe request s)"

definition at_plan :: "subscriber \<Rightarrow> subscriber" where
  "at_plan s =
    (let s' = resubscribed s
     in s'\<lparr>sb_pending_subscribe := None, sb_pending_roster := None, sb_pending_results := [],
           sb_retention := retention_apply_pending_ack (sb_retention s')\<rparr>)"

definition loose_frames :: "raw_uuid \<Rightarrow> intent_result list \<Rightarrow> presence_roster option \<Rightarrow> wire_message list" where
  "loose_frames loose rs ro =
    map (\<lambda>r. event_frame Event_Intent_Result loose 0 0 (result_encode r)) rs @
    (case ro of None \<Rightarrow> [] | Some r \<Rightarrow> [event_frame Event_Presence loose 0 0 (roster_encode r)])"

lemma answering_runs:
  "pump_runs (s\<lparr>sb_pump := Answering loose rs ro off did\<rparr>) (loose_frames loose rs ro)
     (s\<lparr>sb_pump := Planning off (did \<or> rs \<noteq> [] \<or> ro \<noteq> None)\<rparr>)"
proof (induction rs arbitrary: did)
  case Nil
  show ?case
  proof (cases ro)
    case None
    then show ?thesis
      by (auto intro!: quiet_step [OF _ runs_refl] simp: pump_step_def loose_frames_def)
  next
    case (Some r)
    have "pump_step True (s\<lparr>sb_pump := Answering loose [] ro off did\<rparr>) =
        ([event_frame Event_Presence loose 0 0 (roster_encode r)], s\<lparr>sb_pump := Planning off True\<rparr>)"
      by (simp add: pump_step_def Some send_frame_def)
    from runs_step [OF this runs_refl] show ?thesis by (simp add: Some loose_frames_def)
  qed
next
  case (Cons r rs)
  have "pump_step True (s\<lparr>sb_pump := Answering loose (r # rs) ro off did\<rparr>) =
      ([event_frame Event_Intent_Result loose 0 0 (result_encode r)], s\<lparr>sb_pump := Answering loose rs ro off True\<rparr>)"
    by (simp add: pump_step_def send_frame_def)
  from runs_step [OF this Cons.IH [of True]] show ?case by (simp add: loose_frames_def)
qed

lemma drain_to_plan:
  assumes "\<not> sb_closed s" "sb_pump s = Draining"
  defines "s1 \<equiv> at_plan s"
  shows "pump_runs s (loose_frames (retention_loose_epoch (sb_retention s1)) (sb_pending_results s) (sb_pending_roster s))
    (s1\<lparr>sb_pump := Planning (sb_pending_state s) (sb_pending_results s \<noteq> [] \<or> sb_pending_roster s \<noteq> None)\<rparr>)"
proof -
  let ?ib = "\<lparr>ib_subscribe = sb_pending_subscribe s, ib_roster = sb_pending_roster s, ib_results = sb_pending_results s, ib_offer = sb_pending_state s\<rparr>"
  let ?a = "s\<lparr>sb_pending_subscribe := None, sb_pending_roster := None, sb_pending_results := [], sb_pump := Resubscribing ?ib\<rparr>"
  let ?b = "(case sb_pending_subscribe s of None \<Rightarrow> ?a | Some request \<Rightarrow> apply_resubscribe request ?a)\<lparr>sb_pump := Acking ?ib\<rparr>"
  let ?c = "?b\<lparr>sb_retention := retention_apply_pending_ack (sb_retention ?b), sb_pump := Loosening ?ib\<rparr>"
  let ?loose = "retention_loose_epoch (sb_retention ?c)"
  let ?d = "?c\<lparr>sb_pump := Answering ?loose (sb_pending_results s) (sb_pending_roster s) (sb_pending_state s) False\<rparr>"
  have 1: "pump_step True s = ([], ?a)" using assms(1,2) by (simp add: pump_step_def take_inbox_def)
  have 2: "pump_step True ?a = ([], ?b)" by (simp add: pump_step_def)
  have 3: "pump_step True ?b = ([], ?c)" by (simp add: pump_step_def)
  have 4: "pump_step True ?c = ([], ?d)" by (simp add: pump_step_def)
  have eq: "?c\<lparr>sb_pump := x\<rparr> = s1\<lparr>sb_pump := x\<rparr>" for x
    by (cases "sb_pending_subscribe s") (simp_all add: s1_def at_plan_def resubscribed_def apply_resubscribe_def Let_def)
  have loose: "?loose = retention_loose_epoch (sb_retention s1)"
    by (cases "sb_pending_subscribe s") (simp_all add: s1_def at_plan_def resubscribed_def apply_resubscribe_def Let_def)
  have "pump_runs ?d (loose_frames ?loose (sb_pending_results s) (sb_pending_roster s))
      (?c\<lparr>sb_pump := Planning (sb_pending_state s) (False \<or> sb_pending_results s \<noteq> [] \<or> sb_pending_roster s \<noteq> None)\<rparr>)"
    by (rule answering_runs)
  from quiet_step [OF 1 quiet_step [OF 2 quiet_step [OF 3 quiet_step [OF 4 this]]]]
  show ?thesis unfolding eq loose by simp
qed

text \<open>From a plan to the link.\<close>

fun document_frames :: "offer \<Rightarrow> host_state planned \<Rightarrow> wire_message list" where
  "document_frames off Planned_Hold = []"
| "document_frames off (Planned_Snapshot first) =
    (if first then [event_frame Event_Reset (of_epoch off) 0 0 []] else []) @
    [event_frame Event_Snapshot (of_epoch off) 0 (of_state_num off) (encode_snapshot (of_state off))]"
| "document_frames off (Planned_Diff b base) =
    (let d = diff_from (of_state off) base
     in if diff_is_empty d then [] else [event_frame Event_Diff (of_epoch off) b (of_state_num off) (encode_diff d)])"

lemma commit_runs:
  "pump_runs (s\<lparr>sb_pump := Committing off\<rparr>) [] (s\<lparr>sb_retention := retention_commit (of_state_num off) (of_state off) (sb_retention s), sb_pump := Draining\<rparr>)"
  by (auto intro!: quiet_step [OF _ runs_refl] simp: pump_step_def)

lemma sending_runs:
  assumes "pl \<noteq> Planned_Hold"
  shows "\<exists>r. pump_runs (s\<lparr>sb_pump := Sending off pl\<rparr>) (document_frames off pl) (s\<lparr>sb_retention := r, sb_pump := Draining\<rparr>)"
proof (cases pl)
  case (Planned_Snapshot first)
  let ?snap = "event_frame Event_Snapshot (of_epoch off) 0 (of_state_num off) (encode_snapshot (of_state off))"
  let ?fin = "s\<lparr>sb_retention := retention_commit (of_state_num off) (of_state off) (sb_retention s), sb_pump := Draining\<rparr>"
  have "pump_step True (s\<lparr>sb_pump := Sending off (Planned_Snapshot False)\<rparr>) = ([?snap], s\<lparr>sb_pump := Committing off\<rparr>)"
    by (simp add: pump_step_def send_frame_def)
  from runs_step [OF this commit_runs] have a: "pump_runs (s\<lparr>sb_pump := Sending off (Planned_Snapshot False)\<rparr>) [?snap] ?fin" by simp
  have "pump_step True (s\<lparr>sb_pump := Sending off (Planned_Snapshot True)\<rparr>) =
      ([event_frame Event_Reset (of_epoch off) 0 0 []], s\<lparr>sb_pump := Sending off (Planned_Snapshot False)\<rparr>)"
    by (simp add: pump_step_def send_frame_def)
  from runs_step [OF this a] show ?thesis using a Planned_Snapshot by (cases first) auto
next
  case (Planned_Diff b base)
  let ?d = "diff_from (of_state off) base"
  show ?thesis
  proof (cases "diff_is_empty ?d")
    case True
    then have "pump_step True (s\<lparr>sb_pump := Sending off pl\<rparr>) = ([], s\<lparr>sb_retention := sb_retention s, sb_pump := Draining\<rparr>)"
      by (simp add: pump_step_def Planned_Diff)
    from quiet_step [OF this runs_refl] show ?thesis using True Planned_Diff by (intro exI [of _ "sb_retention s"]) simp
  next
    case False
    then have "pump_step True (s\<lparr>sb_pump := Sending off pl\<rparr>) =
        ([event_frame Event_Diff (of_epoch off) b (of_state_num off) (encode_diff ?d)], s\<lparr>sb_pump := Committing off\<rparr>)"
      by (simp add: pump_step_def Planned_Diff send_frame_def Let_def)
    from runs_step [OF this commit_runs] show ?thesis using False Planned_Diff by (auto simp: Let_def)
  qed
qed (use assms in simp)

lemma idle_drain:
  assumes "\<not> sb_closed s" "sb_pump s = Draining" "\<not> has_work s"
  shows "\<exists>s'. pump_runs s [] s' \<and> sb_pump s' = Parked \<and> \<not> has_work s' \<and> \<not> sb_closed s'"
proof -
  have p: "sb_pending_state s = None" "sb_pending_roster s = None" "sb_pending_subscribe s = None" "sb_pending_results s = []"
    using assms(3) by (auto simp: has_work_def)
  let ?s = "(at_plan s)\<lparr>sb_pump := Parked\<rparr>"
  have "pump_step True ((at_plan s)\<lparr>sb_pump := Planning None False\<rparr>) = ([], ?s)" by (simp add: pump_step_def again_def)
  note rest = quiet_step [OF this runs_refl]
  have "pump_runs s [] ((at_plan s)\<lparr>sb_pump := Planning None False\<rparr>)" using drain_to_plan [OF assms(1,2)] p by (simp add: loose_frames_def)
  from runs_trans [OF this rest] have "pump_runs s [] ?s" by simp
  moreover have "\<not> has_work ?s \<and> \<not> sb_closed ?s" using p assms(1) by (simp add: has_work_def at_plan_def resubscribed_def)
  ultimately show ?thesis by (intro exI [of _ ?s]) simp
qed

lemma drain_offer:
  assumes s: "\<not> sb_closed s" "sb_pump s = Parked" "sb_pending_state s = Some off"
    and pl: "retention_plan (of_epoch off) (sb_retention (at_plan s)) = (pl, r)" "pl \<noteq> Planned_Hold"
  shows "\<exists>s'. pump_runs s (loose_frames (retention_loose_epoch (sb_retention (at_plan s))) (sb_pending_results s) (sb_pending_roster s) @
      document_frames off pl) s' \<and> sb_pump s' = Parked \<and> \<not> has_work s' \<and> \<not> sb_closed s'"
proof -
  let ?s0 = "s\<lparr>sb_pump := Draining\<rparr>" and ?did = "sb_pending_results s \<noteq> [] \<or> sb_pending_roster s \<noteq> None"
  have 0: "pump_step True s = ([], ?s0)" using s by (simp add: pump_step_def has_work_def)
  have ap: "sb_retention (at_plan ?s0) = sb_retention (at_plan s)" "(at_plan ?s0)\<lparr>sb_pump := x\<rparr> = (at_plan s)\<lparr>sb_pump := x\<rparr>" for x
    by (cases "sb_pending_subscribe s"; simp add: at_plan_def resubscribed_def apply_resubscribe_def Let_def)+
  have 1: "pump_runs ?s0 (loose_frames (retention_loose_epoch (sb_retention (at_plan s))) (sb_pending_results s) (sb_pending_roster s))
      ((at_plan s)\<lparr>sb_pump := Planning (Some off) ?did\<rparr>)"
    using drain_to_plan [of ?s0] s ap by simp
  let ?s2 = "(at_plan s)\<lparr>sb_retention := r\<rparr>"
  have 2: "pump_step True ((at_plan s)\<lparr>sb_pump := Planning (Some off) ?did\<rparr>) = ([], ?s2\<lparr>sb_pump := Claiming off pl\<rparr>)"
    using pl by (simp add: pump_step_def plan_offer_def split: planned.split)
  have 3: "pump_step True (?s2\<lparr>sb_pump := Claiming off pl\<rparr>) = ([], (?s2\<lparr>sb_pending_state := None\<rparr>)\<lparr>sb_pump := Sending off pl\<rparr>)"
    by (simp add: pump_step_def claim_pending_state_def)
  obtain r' where 4: "pump_runs ((?s2\<lparr>sb_pending_state := None\<rparr>)\<lparr>sb_pump := Sending off pl\<rparr>) (document_frames off pl)
      ((?s2\<lparr>sb_pending_state := None\<rparr>)\<lparr>sb_retention := r', sb_pump := Draining\<rparr>)"
    using sending_runs [OF pl(2)] by blast
  let ?s3 = "(?s2\<lparr>sb_pending_state := None\<rparr>)\<lparr>sb_retention := r', sb_pump := Draining\<rparr>"
  have c: "sb_closed (at_plan s) = sb_closed s"
    by (cases "sb_pending_subscribe s") (simp_all add: at_plan_def resubscribed_def apply_resubscribe_def Let_def)
  have "\<not> has_work ?s3" by (simp add: has_work_def at_plan_def Let_def)
  then obtain s' where 5: "pump_runs ?s3 [] s'" "sb_pump s' = Parked" "\<not> has_work s'" "\<not> sb_closed s'"
    using idle_drain [of ?s3] s(1) c by auto
  have "pump_runs s (loose_frames (retention_loose_epoch (sb_retention (at_plan s))) (sb_pending_results s) (sb_pending_roster s) @
      document_frames off pl) s'"
    using quiet_step [OF 0 runs_trans [OF 1 quiet_step [OF 2 quiet_step [OF 3 runs_trans [OF 4 5(1)]]]]] by simp
  then show ?thesis using 5 by blast
qed

section \<open>Two things the pump should not do\<close>

lemma no_pending_ack [simp]: "sl_pending_ack (rn_ladder r) = None \<Longrightarrow> retention_apply_pending_ack r = r"
  by (simp add: retention_apply_pending_ack_def ladder_apply_pending_ack_def drop_released_def)

lemma at_plan_same:
  assumes "sb_pending_subscribe s = None" "sb_pending_roster s = None" "sb_pending_results s = []"
    "sl_pending_ack (rn_ladder (sb_retention s)) = None"
  shows "at_plan s = s"
  using assms by (simp add: at_plan_def resubscribed_def)

lemma pump_iter_repeat: "pump_iter n s = ([], s) \<Longrightarrow> pump_iter (k * n) s = ([], s)"
  using pump_iter_add [of n s "[]" s] by (induction k) auto

text \<open>C40. 
  With a frame in flight and a newer document waiting, the pump never waits: it drains, is told to hold, finds its
  slot still full and drains again, for as long as the ack is out. Nothing changes and nothing is sent meanwhile.
\<close>
theorem held_offer_spins:
  assumes "\<not> sb_closed s" "sb_pump s = Parked" "sb_pending_state s = Some off" "sb_pending_subscribe s = None" "sb_pending_roster s = None"
    "sb_pending_results s = []" "sl_pending_ack (rn_ladder (sb_retention s)) = None" "sl_outstanding (rn_ladder (sb_retention s)) = Some m"
  shows "\<forall>N. \<exists>n>N. pump_iter n s = ([], s) \<and> has_work s"
proof -
  let ?s0 = "s\<lparr>sb_pump := Draining\<rparr>"
  have 0: "pump_step True s = ([], ?s0)" using assms by (simp add: pump_step_def has_work_def)
  have ap: "at_plan ?s0 = ?s0" by (rule at_plan_same) (simp_all add: assms)
  obtain n where 1: "pump_iter n ?s0 = ([], ?s0\<lparr>sb_pump := Planning (Some off) False\<rparr>)"
    using drain_to_plan [of ?s0] assms ap by (auto simp: pump_runs_def loose_frames_def)
  have parked: "s\<lparr>sb_pump := Parked\<rparr> = s" using assms(2) by (cases s) simp
  have 2: "pump_iter 1 (?s0\<lparr>sb_pump := Planning (Some off) False\<rparr>) = ([], s)"
    using assms(8) parked by (simp add: pump_step_def plan_offer_def retention_plan_hold again_def)
  have "pump_iter (Suc (n + 1)) s = ([], s)" using 0 pump_iter_add [OF 1 2] by simp
  then have "pump_iter (Suc N * Suc (n + 1)) s = ([], s)" for N by (rule pump_iter_repeat)
  moreover have "Suc N * Suc (n + 1) > N" for N by simp
  moreover have "has_work s" using assms(3) by (simp add: has_work_def)
  ultimately show ?thesis by blast
qed

lemma has_work_ack [simp]: "has_work (note_ack m s) = has_work s"
  by (simp add: has_work_def note_ack_def)

text \<open>C39. 
  A document that is offered after the drain has looked at the slot and before it empties it is never sent: the slot
  is emptied of it. The pump sends the older document, comes to rest with nothing to do, and stays there whatever the
  client then acks.
\<close>
theorem newer_offer_is_lost:
  assumes "\<not> sb_closed s" "sb_pump s = Parked" "sb_pending_state s = Some off" "sb_pending_subscribe s = None" "sb_pending_roster s = None"
    "sb_pending_results s = []" "sl_pending_ack (rn_ladder (sb_retention s)) = None" "sl_outstanding (rn_ladder (sb_retention s)) = None"
  shows "\<exists>s1 pl s2. pump_runs s [] s1 \<and> pump_runs (deliver_state e n st s1) (document_frames off pl) s2 \<and>
    sb_pump s2 = Parked \<and> \<not> has_work s2 \<and> (\<forall>m. pump_step True (note_ack m s2) = ([], note_ack m s2))"
proof -
  let ?s0 = "s\<lparr>sb_pump := Draining\<rparr>"
  have 0: "pump_step True s = ([], ?s0)" using assms by (simp add: pump_step_def has_work_def)
  have ap: "at_plan ?s0 = ?s0" by (rule at_plan_same) (simp_all add: assms)
  have 1: "pump_runs ?s0 [] (?s0\<lparr>sb_pump := Planning (Some off) False\<rparr>)"
    using drain_to_plan [of ?s0] assms ap by (simp add: loose_frames_def)
  obtain pl r where pl: "retention_plan (of_epoch off) (sb_retention s) = (pl, r)" by force
  have ph: "pl \<noteq> Planned_Hold"
    using pl assms(8) by (auto simp: retention_plan_def ladder_plan_def Let_def split: prod.splits if_splits option.splits)
  let ?s1 = "s\<lparr>sb_retention := r, sb_pump := Claiming off pl\<rparr>"
  have 2: "pump_step True (?s0\<lparr>sb_pump := Planning (Some off) False\<rparr>) = ([], ?s1)"
    using pl ph by (simp add: pump_step_def plan_offer_def split: planned.split)
  have run1: "pump_runs s [] ?s1" using quiet_step [OF 0 runs_trans [OF 1 quiet_step [OF 2 runs_refl]]] by simp
  let ?d = "deliver_state e n st ?s1"
  let ?s2 = "(?s1\<lparr>sb_pending_state := None\<rparr>)"
  have 3: "pump_step True ?d = ([], ?s2\<lparr>sb_pump := Sending off pl\<rparr>)"
    using assms(1) by (simp add: pump_step_def deliver_state_def claim_pending_state_def)
  obtain r' where 4: "pump_runs (?s2\<lparr>sb_pump := Sending off pl\<rparr>) (document_frames off pl) (?s2\<lparr>sb_retention := r', sb_pump := Draining\<rparr>)"
    using sending_runs [OF ph] by blast
  let ?s3 = "?s2\<lparr>sb_retention := r', sb_pump := Draining\<rparr>"
  have "\<not> has_work ?s3" using assms by (simp add: has_work_def)
  then obtain s' where 5: "pump_runs ?s3 [] s'" "sb_pump s' = Parked" "\<not> has_work s'" "\<not> sb_closed s'"
    using idle_drain [of ?s3] assms(1) by auto
  have "pump_runs ?d (document_frames off pl) s'" using quiet_step [OF 3 runs_trans [OF 4 5(1)]] by simp
  moreover have "pump_step True (note_ack m s') = ([], note_ack m s')" for m
    using 5 has_work_ack [of m s'] by (simp add: pump_step_def note_ack_def)
  ultimately show ?thesis using run1 5 by blast
qed

section \<open>A subscription brings the replica up to date\<close>

lemma resubscribe_facts:
  assumes "retention_resubscribe ke kn c f r = r'"
  shows "sl_outstanding (rn_ladder r') = None" "sl_window (rn_ladder r') = []"
    "sl_needs_snapshot (rn_ladder r') \<or> (sent_epoch r' = Some ke \<and> kn \<noteq> 0 \<and> sl_acked_state_num (rn_ladder r') = kn)"
proof -
  let ?l = "(rn_ladder r)\<lparr>sl_contributes_size := c, sl_follows_focus := f, sl_outstanding := None\<rparr>"
  have lad: "rn_ladder r' = snd (ladder_resubscribe ke kn c f (rn_ladder r))"
    using assms by (auto simp: retention_resubscribe_def drop_released_def split_beta)
  show "sl_outstanding (rn_ladder r') = None" "sl_window (rn_ladder r') = []"
    by (simp_all add: lad ladder_resubscribe_def window_clear_def adopt_base_def Let_def split_beta split: option.split)
  show "sl_needs_snapshot (rn_ladder r') \<or> (sent_epoch r' = Some ke \<and> kn \<noteq> 0 \<and> sl_acked_state_num (rn_ladder r') = kn)"
  proof (cases "sl_sent_epoch (rn_ladder r) = Some ke \<and> kn \<noteq> 0 \<and> window_find kn (sl_window (rn_ladder r)) \<noteq> None")
    case True
    then obtain x where "window_find kn (sl_window (rn_ladder r)) = Some x" "re_state_num x = kn"
      using window_find_Some by blast
    then show ?thesis using True by (simp add: lad ladder_resubscribe_def adopt_base_def Let_def split_beta)
  next
    case False
    then show ?thesis by (auto simp: lad ladder_resubscribe_def adopt_base_def Let_def split_beta)
  qed
qed

lemma pending_ack_facts:
  assumes "sl_window (rn_ladder r) = []" "sl_outstanding (rn_ladder r) = None"
  shows "sl_outstanding (rn_ladder (retention_apply_pending_ack r)) = None"
    "sl_acked_state_num (rn_ladder (retention_apply_pending_ack r)) = sl_acked_state_num (rn_ladder r)"
    "sl_needs_snapshot (rn_ladder r) \<Longrightarrow> sl_needs_snapshot (rn_ladder (retention_apply_pending_ack r))"
  using assms by (auto simp: retention_apply_pending_ack_def ladder_apply_pending_ack_def drop_released_def window_find_def Let_def
      split_beta split: option.split)

lemma plan_facts:
  assumes "sl_outstanding (rn_ladder r) = None" "retention_plan e r = (pl, r')"
  shows "pl \<noteq> Planned_Hold" "pl = Planned_Diff b base \<Longrightarrow> \<not> sl_needs_snapshot (rn_ladder r) \<and> b = sl_acked_state_num (rn_ladder r) \<and>
    (sent_epoch r = None \<or> sent_epoch r = Some e)"
  using assms by (auto simp: retention_plan_def ladder_plan_def adopt_base_def drop_released_def Let_def split_beta
      split: option.splits if_splits)

text \<open>The offered document lands: a snapshot always, a diff on a replica that holds what it claimed.\<close>

lemma receive_loose [simp]: "fold receive (loose_frames loose rs ro) m = m"
  by (induction rs) (auto simp: loose_frames_def event_frame_def mirror_apply_def split: option.split)

lemma frame_fields [simp]:
  "wm_entries (note_document_frame (retire_fast_path ks m)) = wm_entries m"
  by simp

lemma document_lands:
  assumes st: "state_ok (of_state off)" "state_fits (of_state off)"
    and base: "\<And>b base. pl = Planned_Diff b base \<Longrightarrow> wm_epoch m = Some (of_epoch off) \<and> wm_state_num m = b \<and> wm_entries m = base \<and>
      state_ok base \<and> b \<le> of_state_num off \<and> (b = of_state_num off \<longrightarrow> base = of_state off) \<and> diff_fits (diff_from (of_state off) base)"
    and pl: "pl \<noteq> Planned_Hold"
  shows "wm_entries (fold receive (document_frames off pl) m) = of_state off"
proof (cases pl)
  case (Planned_Snapshot first)
  have d: "decode_snapshot (encode_snapshot (of_state off)) = Inr (of_state off)" using snapshot_round_trip(1) [OF st] .
  show ?thesis by (simp add: Planned_Snapshot event_frame_def mirror_apply_def apply_snapshot_def d)
next
  case (Planned_Diff b base)
  note B = base [OF Planned_Diff]
  let ?d = "diff_from (of_state off) base"
  have srt: "sorted_state (of_state off)" "sorted_state base" using st(1) B by (auto simp: state_ok_def)
  show ?thesis
  proof (cases "diff_is_empty ?d")
    case True
    then show ?thesis using Planned_Diff B diff_empty_iff [OF srt] by simp
  next
    case False
    have "base \<noteq> of_state off" using False diff_empty_iff [OF srt] by auto
    then have "b < of_state_num off" using B by auto
    moreover have "decode_diff (encode_diff ?d) = Inr ?d" using diff_round_trip(1) [OF diff_ids_of] st(1) B by blast
    ultimately show ?thesis using Planned_Diff False B apply_diff_exact [OF srt]
      by (simp add: event_frame_def mirror_apply_def apply_diff_frame_def Let_def)
  qed
qed (use pl in simp)

definition reachable_world :: "sync_world \<Rightarrow> bool" where
  "reachable_world w \<longleftrightarrow> (\<exists>e s b ops. state_ok s \<and> (\<forall>op\<in>set ops. op_ok op) \<and> distinct (e # restarts ops) \<and> length ops < 2 ^ 32 - 1 \<and>
     w = fold sync_step ops (world_new e s b))"

lemma reachable_ok:
  assumes "reachable_world w"
  shows "\<exists>N. world_ok N w"
proof -
  obtain e s b ops where r: "state_ok s" "\<forall>op\<in>set ops. op_ok op" "distinct (e # restarts ops)" "length ops < 2 ^ 32 - 1"
    "w = fold sync_step ops (world_new e s b)" using assms by (auto simp: reachable_world_def)
  then show ?thesis using sync_run_ok [of 0 "world_new e s b" ops] world_new_ok [OF r(1), of e b] by auto
qed

text \<open>The world around one pump, and around one link.\<close>

lemma pump_in_world:
  assumes "pump_iter n s = (fs, s')" "sv_store (sw_service w) i = Some s"
  shows "sw_frames (fold sync_step (replicate n (Pump_Step i True)) w) = sw_frames w @ fs \<and>
    sw_mirrors (fold sync_step (replicate n (Pump_Step i True)) w) = sw_mirrors w \<and>
    sv_document (sw_service (fold sync_step (replicate n (Pump_Step i True)) w)) = sv_document (sw_service w)"
  using assms
proof (induction n arbitrary: s fs w)
  case (Suc n)
  obtain f t where t: "pump_step True s = (f, t)" by force
  obtain g where g: "pump_iter n t = (g, s')" "fs = f @ g" using Suc.prems(1) t by (cases "pump_iter n t") simp
  let ?w = "sync_step (Pump_Step i True) w"
  have w: "sv_store (sw_service ?w) i = Some t" "sw_frames ?w = sw_frames w @ f" "sw_mirrors ?w = sw_mirrors w"
    "sv_document (sw_service ?w) = sv_document (sw_service w)"
    using Suc.prems(2) t by (simp_all add: Let_def)
  show ?case using Suc.IH [OF g(1) w(1)] w(2-4) g(2) by simp
qed simp

lemma receive_in_world:
  assumes "\<forall>j\<in>set js. j < length (sw_frames w)"
  shows "sw_service (fold sync_step (map (Receive k) js) w) = sw_service w \<and>
    sw_mirrors (fold sync_step (map (Receive k) js) w) k = fold receive (map (\<lambda>j. sw_frames w ! j) js) (sw_mirrors w k)"
  using assms
proof (induction js arbitrary: w)
  case (Cons j js)
  let ?w = "sync_step (Receive k j) w"
  have "sw_frames ?w = sw_frames w" "sw_service ?w = sw_service w" "sw_mirrors ?w k = receive (sw_frames w ! j) (sw_mirrors w k)"
    using Cons.prems by simp_all
  then show ?case using Cons.IH [of ?w] Cons.prems by simp
qed simp

lemma fold_on_subscriber_at:
  assumes "\<And>s. f (f s) = f s"
  shows "fold (\<lambda>j. on_subscriber j f) js st i = (if i \<in> set js then map_option f (st i) else st i)"
  using assms by (induction js arbitrary: st) (auto simp: on_subscriber_def option.map_comp comp_def split: option.splits)

lemma deliver_roster_twice: "deliver_roster ro (deliver_roster ro s) = deliver_roster ro s"
  by (simp add: deliver_roster_def)

lemma resubscribed_store:
  assumes "i \<in> set (wd_subscribers d)" "st i = Some s"
  shows "\<exists>ro. doc_note_resubscribe i request panes d st i =
    Some (deliver_roster ro (deliver_state (wd_epoch d) (wd_state_num d) (wd_state d) (note_resubscribe request s)))"
  using assms by (simp add: doc_note_resubscribe_def broadcast_roster_def fold_on_subscriber_at deliver_roster_twice offer_current_def
      on_subscriber_def) blast

text \<open>C9. Resubscribing works from anywhere the pump is at rest. Take any reachable world, whatever the clients sent before, and any
  replica, however stale or reset. If its client, whose pump is parked, resubscribes over its live connection, naming truthfully
  what the replica holds, then the pump's next run puts frames on the link that, delivered in order, leave the replica holding
  exactly the host's document, as long as that document and the diff to it are within the codec's caps.\<close>

theorem resubscribe_resynchronises:
  assumes reach: "reachable_world w" and now: "sv_document (sw_service w) = d" "sw_mirrors w k = m"
    and conn: "sv_subscribed (sw_service w) c = Some i" "i \<in> set (wd_subscribers d)" "sv_store (sw_service w) i = Some sub"
      "\<not> sb_closed sub" "sb_pump sub = Parked"
    and req: "subscribe_ok req" "ws_known_state_num req = known_state_num m" "\<forall>e'. wm_epoch m = Some e' \<longrightarrow> ws_known_epoch req = e'"
    and fits: "state_fits (wd_state d)" "diff_fits (diff_from (wd_state d) (wm_entries m))"
  shows "\<exists>n. let w1 = sync_step (Request c 0 (subscribe_encode req) x) w;
      w2 = fold sync_step (replicate n (Pump_Step i True)) w1;
      w3 = fold sync_step (map (Receive k) [length (sw_frames w)..<length (sw_frames w2)]) w2
    in wm_entries (sw_mirrors w3 k) = wd_state d \<and> sv_document (sw_service w3) = d"
proof -
  let ?pub = "sw_published w" and ?sv = "sw_service w"
  note d_def = now(1) [symmetric] and m_def = now(2) [symmetric]
  obtain N where w: "world_ok N w" using reachable_ok [OF reach] by blast
  then have pub: "history_ok ?pub" and doc: "document_ok ?pub (1 + 2 * int N) d" and sub: "subscriber_ok ?pub N sub" and m: "mirror_true ?pub m"
    using conn(3) by (auto simp: world_ok_def host_ok_def store_ok_def d_def m_def)
  obtain ro where ro: "doc_note_resubscribe i req (os_roster x) d (sv_store ?sv) i =
      Some (deliver_roster ro (deliver_state (wd_epoch d) (wd_state_num d) (wd_state d) (note_resubscribe req sub)))" (is "_ = Some ?s1")
    using resubscribed_store [where st = "sv_store ?sv" and request = req and panes = "os_roster x", OF conn(2,3)] by blast
  let ?w1 = "sync_step (Request c 0 (subscribe_encode req) x) w"
  have sv1: "handle_request c 0 (subscribe_encode req) x ?sv = ?sv\<lparr>sv_store := doc_note_resubscribe i req (os_roster x) d (sv_store ?sv)\<rparr>"
    using subscribe_round_trip [OF req(1), of "[]"] conn(1) by (simp add: handle_request_def verb_from_byte_def apply_subscribe_def d_def)
  have w1: "sv_store (sw_service ?w1) i = Some ?s1" "sw_frames ?w1 = sw_frames w" "sw_mirrors ?w1 = sw_mirrors w" "sv_document (sw_service ?w1) = d"
    using ro sv1 by (simp_all add: publish_def d_def)
  let ?off = "\<lparr>of_epoch = wd_epoch d, of_state_num = wd_state_num d, of_state = wd_state d\<rparr>"
  have s1: "\<not> sb_closed ?s1" "sb_pump ?s1 = Parked" "sb_pending_state ?s1 = Some ?off" "sb_pending_subscribe ?s1 = Some req"
    "sb_retention ?s1 = sb_retention sub"
    using conn(4,5) by (simp_all add: deliver_roster_def deliver_state_def note_resubscribe_def)
  define r1 where "r1 = retention_resubscribe (ws_known_epoch req) (ws_known_state_num req)
      (and (ws_flags req) flag_contributes_size \<noteq> 0) (and (ws_flags req) flag_follows_focus \<noteq> 0) (sb_retention sub)"
  define r2 where "r2 = retention_apply_pending_ack r1"
  have r2: "sb_retention (at_plan ?s1) = r2" using s1 by (simp add: at_plan_def resubscribed_def apply_resubscribe_def r1_def r2_def)
  note f1 = resubscribe_facts [OF r1_def [symmetric]]
  note f2 = pending_ack_facts [OF f1(2,1), folded r2_def]
  have h: "holds_sent ?pub N r2" using sub conn(4) by (simp add: subscriber_ok_def r1_def r2_def holds_ops)
  obtain pl r3 where pl: "retention_plan (wd_epoch d) r2 = (pl, r3)" by force
  have ph: "pl \<noteq> Planned_Hold" using plan_facts(1) [OF f2(1) pl] .
  have planned: "planned_ok ?pub (wd_epoch d) pl" by (rule holds_plan(2) [OF h pl])
  have cur: "?pub (wd_epoch d) (wd_state_num d) = Some (wd_state d)" "\<And>n. wd_state_num d < n \<Longrightarrow> ?pub (wd_epoch d) n = None"
    using doc by (simp_all add: document_ok_def)
  have base: "wm_epoch m = Some (wd_epoch d) \<and> wm_state_num m = b' \<and> wm_entries m = base \<and> state_ok base \<and> b' \<le> wd_state_num d \<and>
      (b' = wd_state_num d \<longrightarrow> base = wd_state d) \<and> diff_fits (diff_from (wd_state d) base)" if "pl = Planned_Diff b' base" for b' base
  proof -
    have p: "?pub (wd_epoch d) b' = Some base" using planned that by (simp add: planned_ok_def)
    have q: "\<not> sl_needs_snapshot (rn_ladder r2)" "b' = sl_acked_state_num (rn_ladder r2)" "sent_epoch r2 = None \<or> sent_epoch r2 = Some (wd_epoch d)"
      using plan_facts(2) [OF f2(1) pl that] by auto
    have r1: "sent_epoch r1 = Some (ws_known_epoch req)" "ws_known_state_num req \<noteq> 0" "sl_acked_state_num (rn_ladder r1) = ws_known_state_num req"
      using f1(3) f2(3) q(1) by auto
    have kn: "wm_epoch m \<noteq> None" "b' = wm_state_num m" using r1 q(2) f2(2) req(2) by (auto simp: known_state_num_def split: if_splits)
    moreover have "ws_known_epoch req = wd_epoch d" using r1(1) q(3) by (simp add: r2_def)
    ultimately have ep: "wm_epoch m = Some (wd_epoch d)" using req(3) by auto
    have "wm_entries m = base" using m ep kn r1(2) req(2) p by (auto simp: mirror_true_def known_state_num_def)
    moreover have "b' \<le> wd_state_num d" using p cur(2) [of b'] by force
    moreover have "b' = wd_state_num d \<longrightarrow> base = wd_state d" using p cur(1) by auto
    moreover have "state_ok base" using pub p by (auto simp: history_ok_def)
    ultimately show ?thesis using ep kn fits(2) by simp
  qed
  have st: "state_ok (wd_state d)" using pub cur(1) by (auto simp: history_ok_def)
  obtain s' where run: "pump_runs ?s1 (loose_frames (retention_loose_epoch (sb_retention (at_plan ?s1))) (sb_pending_results ?s1) (sb_pending_roster ?s1) @
      document_frames ?off pl) s'"
    using drain_offer [OF s1(1-3), of pl r3] pl ph r2 by auto
  let ?fs = "loose_frames (retention_loose_epoch (sb_retention (at_plan ?s1))) (sb_pending_results ?s1) (sb_pending_roster ?s1) @ document_frames ?off pl"
  obtain n where n: "pump_iter n ?s1 = (?fs, s')" using run by (auto simp: pump_runs_def)
  let ?w2 = "fold sync_step (replicate n (Pump_Step i True)) ?w1"
  have w2: "sw_frames ?w2 = sw_frames w @ ?fs" "sw_mirrors ?w2 = sw_mirrors w" "sv_document (sw_service ?w2) = d"
    using pump_in_world [OF n w1(1)] w1(2-4) by auto
  let ?js = "[length (sw_frames w)..<length (sw_frames ?w2)]"
  have "map (\<lambda>j. sw_frames ?w2 ! j) ?js = ?fs" unfolding w2(1) by (rule nth_equalityI) (simp_all add: nth_append)
  moreover have "\<forall>j\<in>set ?js. j < length (sw_frames ?w2)" by simp
  ultimately have w3: "sw_service (fold sync_step (map (Receive k) ?js) ?w2) = sw_service ?w2"
    "sw_mirrors (fold sync_step (map (Receive k) ?js) ?w2) k = fold receive ?fs m"
    using receive_in_world [of ?js ?w2 k] w2(2) by (auto simp: m_def)
  have "wm_entries (fold receive ?fs m) = wd_state d"
    using document_lands [of ?off pl m] st fits(1) base ph by simp
  then show ?thesis using w3 w2(3) by (intro exI [of _ n]) (simp add: Let_def)
qed

section \<open>Witnesses\<close>

definition fresh_request :: workspace_subscribe where
  "fresh_request = demo_subscribe\<lparr>ws_known_state_num := 0\<rparr>"

definition demo_world :: sync_world where
  "demo_world = fold sync_step [Request (replicate 16 2) 0 (subscribe_encode fresh_request) demo_outside] (world_new (replicate 16 1) (demo_state [(1, [5])]) True)"

lemma fresh_request_ok: "subscribe_ok fresh_request"
  using demo_bodies_ok(3) by (simp add: fresh_request_def subscribe_ok_def i64_ok_def)

lemma demo_world_reachable: "reachable_world demo_world"
  unfolding reachable_world_def demo_world_def
  by (rule exI [of _ "replicate 16 1"], rule exI [of _ "demo_state [(1, [5])]"], rule exI [of _ True],
      rule exI [of _ "[Request (replicate 16 2) 0 (subscribe_encode fresh_request) demo_outside]"])
    (simp add: demo_state_ok demo_outside_def restarts_def)

definition demo_doc :: workspace_document where
  "demo_doc = (install (demo_state [(1, [5])]) True (document_new (replicate 16 1)))\<lparr>wd_subscribers := [replicate 16 5]\<rparr>"

lemma demo_world_parts:
  "sv_document (sw_service demo_world) = demo_doc" "sw_mirrors demo_world 0 = mirror_new"
  "sv_subscribed (sw_service demo_world) (replicate 16 2) = Some (replicate 16 5)"
  "\<exists>sub. sv_store (sw_service demo_world) (replicate 16 5) = Some sub \<and> \<not> sb_closed sub \<and> sb_pump sub = Parked"
proof -
  let ?sv = "service_new (install (demo_state [(1, [5])]) True (document_new (replicate 16 1)))"
  have h: "handle_request (replicate 16 2) 0 (subscribe_encode fresh_request) demo_outside ?sv = apply_subscribe (replicate 16 2) fresh_request demo_outside ?sv"
    using subscribe_round_trip [OF fresh_request_ok, of "[]"] by (simp add: handle_request_def verb_from_byte_def)
  have sv: "sw_service demo_world = apply_subscribe (replicate 16 2) fresh_request demo_outside ?sv" "sw_mirrors demo_world = (\<lambda>_. mirror_new)"
    using h by (simp_all add: demo_world_def publish_def world_new_def Let_def)
  show "sv_document (sw_service demo_world) = demo_doc" "sw_mirrors demo_world 0 = mirror_new"
    "sv_subscribed (sw_service demo_world) (replicate 16 2) = Some (replicate 16 5)"
    by (simp_all add: sv apply_subscribe_def service_new_def demo_outside_def add_subscriber_def reconcile_now_def begin_reconcile_def Let_def
        demo_doc_def install_def document_new_def)
  show "\<exists>sub. sv_store (sw_service demo_world) (replicate 16 5) = Some sub \<and> \<not> sb_closed sub \<and> sb_pump sub = Parked"
    by (simp add: sv apply_subscribe_def service_new_def demo_outside_def add_subscriber_def reconcile_now_def begin_reconcile_def Let_def
        install_def document_new_def broadcast_roster_def offer_current_def on_subscriber_def deliver_roster_def deliver_state_def
        start_pump_def subscriber_new_def)
qed

lemma demo_doc_fits: "state_fits (wd_state demo_doc)" "diff_fits (diff_from (wd_state demo_doc) state_new)"
  by (simp_all add: demo_doc_def install_def state_fits_def diff_fits_def entries_fit_def demo_state_def sorted_entries_def from_entries_def
      diff_from_def state_new_def max_entry_value_bytes_def)

theorem resubscribe_resynchronises_witness:
  "\<exists>n. let w1 = sync_step (Request (replicate 16 2) 0 (subscribe_encode fresh_request) demo_outside) demo_world;
      w2 = fold sync_step (replicate n (Pump_Step (replicate 16 5) True)) w1;
      w3 = fold sync_step (map (Receive 0) [length (sw_frames demo_world)..<length (sw_frames w2)]) w2
    in wm_entries (sw_mirrors w3 0) = demo_state [(1, [5])]"
proof -
  obtain sub where sub: "sv_store (sw_service demo_world) (replicate 16 5) = Some sub" "\<not> sb_closed sub" "sb_pump sub = Parked"
    using demo_world_parts(4) by blast
  have i: "replicate 16 5 \<in> set (wd_subscribers demo_doc)" by (simp add: demo_doc_def)
  have req: "ws_known_state_num fresh_request = known_state_num mirror_new" "\<forall>e'. wm_epoch mirror_new = Some e' \<longrightarrow> ws_known_epoch fresh_request = e'"
    by (simp_all add: fresh_request_def known_state_num_def mirror_new_def)
  have m: "wm_entries mirror_new = state_new" by (simp add: mirror_new_def)
  have d: "wd_state demo_doc = demo_state [(1, [5])]" by (simp add: demo_doc_def install_def)
  show ?thesis
    using resubscribe_resynchronises [OF demo_world_reachable demo_world_parts(1,2,3) i sub fresh_request_ok req demo_doc_fits(1), of demo_outside]
      demo_doc_fits(2) m d by (auto simp: Let_def)
qed

definition demo_offer :: offer where
  "demo_offer = \<lparr>of_epoch = replicate 16 1, of_state_num = 1, of_state = demo_state [(1, [5])]\<rparr>"

definition parked_subscriber :: subscriber where
  "parked_subscriber = deliver_state (of_epoch demo_offer) (of_state_num demo_offer) (of_state demo_offer) (start_pump (subscriber_new demo_subscribe))"

definition waiting_subscriber :: subscriber where
  "waiting_subscriber = parked_subscriber\<lparr>sb_retention := retention_commit 1 (demo_state [(1, [4])]) (sb_retention parked_subscriber)\<rparr>"

theorem held_offer_spins_witness: "\<exists>n>1000. pump_iter n waiting_subscriber = ([], waiting_subscriber) \<and> has_work waiting_subscriber"
  using held_offer_spins [of waiting_subscriber demo_offer 1]
  by (simp add: waiting_subscriber_def parked_subscriber_def deliver_state_def start_pump_def subscriber_new_def demo_offer_def
      retention_commit_def ladder_commit_def mint_slot_def retention_new_def ladder_new_def drop_released_def no_slot_def Let_def split_beta)

theorem newer_offer_is_lost_witness:
  "\<exists>s1 pl s2. pump_runs parked_subscriber [] s1 \<and>
    pump_runs (deliver_state (replicate 16 1) 2 (demo_state [(1, [6])]) s1) (document_frames demo_offer pl) s2 \<and> sb_pump s2 = Parked \<and>
    \<not> has_work s2 \<and> (\<forall>m. pump_step True (note_ack m s2) = ([], note_ack m s2))"
  by (rule newer_offer_is_lost) (simp_all add: parked_subscriber_def deliver_state_def start_pump_def subscriber_new_def demo_offer_def
      retention_new_def ladder_new_def)

end
